(* ===== verification/Prelude.thy ===== *)
theory Prelude
  imports Main "HOL-Library.Word" "HOL-Library.Signed_Division"
begin

unbundle bit_operations_syntax

text \<open>
  Shared vocabulary of the development.

  \<^item> \<open>fault\<close> lists the ways a run of the C program stops without returning: a failed
    \<open>assert\<close>, an access outside an object, a NULL or dangling pointer, signed overflow, a call of
    \<open>exit\<close>, a wait that never ends, the use of an indeterminate value.  A C function is modelled by a function into \<open>'a res\<close>:
    \<open>Inl\<close> of the fault or \<open>Inr\<close> of what it returns (its result and the new state).  Negative
    \<open>errno\<close> results are ordinary results, not faults.
  \<^item> C \<open>int\<close> values are \<open>int\<close>; the conversions to and from 4 bytes of memory, to
    \<open>unsigned int\<close> and to \<open>size_t\<close> are written out.  \<open>/\<close> and \<open>%\<close> on signed values are
    \<open>sdiv\<close> and \<open>smod\<close>, which truncate towards zero.
  \<^item> memory buffers are \<open>byte list\<close>; \<open>c_memcpy\<close> is \<open>memcpy\<close> with its bounds.
\<close>

named_theorems res_simps \<open>evaluation of the result monad\<close>

section \<open>Faults and results\<close>

datatype fault =
    AssertFail
  | OutOfBounds
  | NullDeref
  | UseAfterFree
  | Overflow
  | ExitCall
  | Hang
  | Indeterminate
  | NoFuel

type_synonym 'a res = "fault + 'a"

definition bind_r :: "'a res \<Rightarrow> ('a \<Rightarrow> 'b res) \<Rightarrow> 'b res" where
  "bind_r m f = (case m of Inl e \<Rightarrow> Inl e | Inr x \<Rightarrow> f x)"

definition assert_r :: "bool \<Rightarrow> unit res" where
  "assert_r b = (if b then Inr () else Inl AssertFail)"

definition check_r :: "fault \<Rightarrow> bool \<Rightarrow> unit res" where
  "check_r e b = (if b then Inr () else Inl e)"

definition the_r :: "fault \<Rightarrow> 'a option \<Rightarrow> 'a res" where
  "the_r e x = (case x of None \<Rightarrow> Inl e | Some y \<Rightarrow> Inr y)"

definition nth_r :: "'a list \<Rightarrow> int \<Rightarrow> 'a res" where
  "nth_r xs i = (if 0 \<le> i \<and> i < int (length xs) then Inr (xs ! nat i) else Inl OutOfBounds)"

fun fold_r :: "('x \<Rightarrow> 's \<Rightarrow> 's res) \<Rightarrow> 'x list \<Rightarrow> 's \<Rightarrow> 's res" where
  "fold_r f [] s = Inr s"
| "fold_r f (x # xs) s = bind_r (f x s) (fold_r f xs)"

lemma bind_r_Inl [simp, res_simps]: "bind_r (Inl e) f = Inl e"
  by (simp add: bind_r_def)

lemma bind_r_Inr [simp, res_simps]: "bind_r (Inr x) f = f x"
  by (simp add: bind_r_def)

lemma bind_r_cong [fundef_cong]:
  "m = m' \<Longrightarrow> (\<And>x. m' = Inr x \<Longrightarrow> f x = g x) \<Longrightarrow> bind_r m f = bind_r m' g"
  by (auto simp: bind_r_def split: sum.splits)

lemma bind_r_eq_Inr: "bind_r m f = Inr y \<longleftrightarrow> (\<exists>x. m = Inr x \<and> f x = Inr y)"
  by (auto simp: bind_r_def split: sum.splits)

lemma bind_r_eq_Inl:
  "bind_r m f = Inl e \<longleftrightarrow> m = Inl e \<or> (\<exists>x. m = Inr x \<and> f x = Inl e)"
  by (auto simp: bind_r_def split: sum.splits)

lemma bind_r_assoc: "bind_r (bind_r m f) g = bind_r m (\<lambda>x. bind_r (f x) g)"
  by (auto simp: bind_r_def split: sum.splits)

lemma bind_r_InrE:
  assumes "bind_r m f = Inr y"
  obtains x where "m = Inr x" and "f x = Inr y"
  using assms by (auto simp: bind_r_eq_Inr)

lemma assert_r_simps [simp, res_simps]:
  "assert_r True = Inr ()" "assert_r False = Inl AssertFail"
  by (simp_all add: assert_r_def)

lemma assert_r_eq_Inr: "assert_r b = Inr u \<longleftrightarrow> b"
  by (simp add: assert_r_def)

lemma check_r_simps [simp, res_simps]:
  "check_r e True = Inr ()" "check_r e False = Inl e"
  by (simp_all add: check_r_def)

lemma check_r_eq_Inr: "check_r e b = Inr u \<longleftrightarrow> b"
  by (simp add: check_r_def)

lemma the_r_simps [simp, res_simps]: "the_r e None = Inl e" "the_r e (Some x) = Inr x"
  by (simp_all add: the_r_def)

lemma the_r_eq_Inr: "the_r e x = Inr y \<longleftrightarrow> x = Some y"
  by (auto simp: the_r_def split: option.splits)

lemma nth_r_eq_Inr: "nth_r xs i = Inr y \<longleftrightarrow> 0 \<le> i \<and> i < int (length xs) \<and> y = xs ! nat i"
  by (auto simp: nth_r_def)

lemma nth_r_in [simp]: "0 \<le> i \<Longrightarrow> i < int (length xs) \<Longrightarrow> nth_r xs i = Inr (xs ! nat i)"
  by (simp add: nth_r_def)

lemmas res_iffs = bind_r_eq_Inr assert_r_eq_Inr check_r_eq_Inr the_r_eq_Inr nth_r_eq_Inr

lemma fold_r_append: "fold_r f (xs @ ys) s = bind_r (fold_r f xs s) (fold_r f ys)"
  by (induction xs arbitrary: s) (simp_all add: bind_r_assoc cong: bind_r_cong)

text \<open>A loop keeps what every iteration keeps.\<close>

lemma fold_r_invariant:
  assumes "fold_r f xs s = Inr s'" and "P s"
    and "\<And>x t t'. x \<in> set xs \<Longrightarrow> P t \<Longrightarrow> f x t = Inr t' \<Longrightarrow> P t'"
  shows "P s'"
  using assms
proof (induction xs arbitrary: s)
  case Nil
  then show ?case by simp
next
  case (Cons x xs)
  from Cons.prems(1) obtain t where t: "f x s = Inr t" "fold_r f xs t = Inr s'"
    by (auto simp: bind_r_eq_Inr)
  have "P t" using Cons.prems(2) t(1) by (rule Cons.prems(3) [rotated]) simp
  from t(2) this show ?case
    by (rule Cons.IH) (use Cons.prems(3) in auto)
qed

section \<open>C integers\<close>

type_synonym byte = "8 word"

definition in_int32 :: "int \<Rightarrow> bool" where
  "in_int32 x \<longleftrightarrow> - 2147483648 \<le> x \<and> x \<le> 2147483647"

text \<open>Conversions: \<open>int\<close> to \<open>size_t\<close>, and an out-of-range value to \<open>int\<close> (gcc wraps).\<close>

definition size_of_int :: "int \<Rightarrow> nat" where
  "size_of_int x = nat (x mod 2 ^ 64)"

definition int_of_size :: "nat \<Rightarrow> int" where
  "int_of_size n = sint (word_of_int (int n) :: 32 word)"

lemma size_of_int_nonneg [simp]: "0 \<le> x \<Longrightarrow> x < 2 ^ 64 \<Longrightarrow> size_of_int x = nat x"
  by (simp add: size_of_int_def)

lemma sint_of_int32: "in_int32 x \<Longrightarrow> sint (word_of_int x :: 32 word) = x"
  by (simp add: in_int32_def signed_take_bit_int_eq_self sint_sbintrunc')

lemma unat_of_nat32: "n < 2 ^ 32 \<Longrightarrow> unat (word_of_nat n :: 32 word) = n"
  by (simp add: unat_of_nat)

lemma in_int32_sint: "in_int32 (sint (w :: 32 word))"
  using sint_range_size [of w] by (simp add: in_int32_def word_size)

lemma int_of_size_small [simp]: "n < 2147483648 \<Longrightarrow> int_of_size n = int n"
  using sint_of_int32 [of "int n"] by (simp add: int_of_size_def in_int32_def)

lemma sdiv_nonneg [simp]: "0 \<le> (a :: int) \<Longrightarrow> 0 < b \<Longrightarrow> a sdiv b = a div b"
  by (cases "a = 0") (simp_all add: signed_divide_int_def)

lemma smod_nonneg [simp]: "0 \<le> (a :: int) \<Longrightarrow> 0 < b \<Longrightarrow> a smod b = a mod b"
  by (cases "a = 0") (simp_all add: signed_modulo_int_def)

lemma ceil_div_8: "(n + 7) div 8 = (if n mod 8 = 0 then n div 8 else Suc (n div 8))" for n :: nat
  by presburger

lemma div_8_pos: "(n :: nat) < 8 * m \<Longrightarrow> n div 8 < m"
  by presburger

definition DIVROUNDUP :: "int \<Rightarrow> int \<Rightarrow> int" where
  "DIVROUNDUP a b = (a + b - 1) sdiv b"

definition ROUNDUP :: "int \<Rightarrow> int \<Rightarrow> int" where
  "ROUNDUP a b = DIVROUNDUP a b * b"

section \<open>Memory buffers\<close>

definition blit :: "nat \<Rightarrow> 'a list \<Rightarrow> 'a list \<Rightarrow> 'a list" where
  "blit off src dst = take off dst @ src @ drop (off + length src) dst"

definition seg :: "nat \<Rightarrow> nat \<Rightarrow> 'a list \<Rightarrow> 'a list" where
  "seg off n xs = take n (drop off xs)"

text \<open>\<open>memcpy(dst + doff, src + soff, n)\<close>; a negative \<open>n\<close> converts to a huge \<open>size_t\<close>.\<close>

definition c_memcpy :: "'a list \<Rightarrow> int \<Rightarrow> 'a list \<Rightarrow> int \<Rightarrow> int \<Rightarrow> 'a list res" where
  "c_memcpy dst doff src soff n =
     (if 0 \<le> n \<and> 0 \<le> doff \<and> doff + n \<le> int (length dst)
         \<and> 0 \<le> soff \<and> soff + n \<le> int (length src)
      then Inr (blit (nat doff) (seg (nat soff) (nat n) src) dst)
      else Inl OutOfBounds)"

lemma length_blit [simp]:
  "off + length src \<le> length dst \<Longrightarrow> length (blit off src dst) = length dst"
  by (simp add: blit_def)

lemma length_seg [simp]: "off + n \<le> length xs \<Longrightarrow> length (seg off n xs) = n"
  by (simp add: seg_def)

lemma nth_blit:
  "off + length src \<le> length dst \<Longrightarrow> i < length dst \<Longrightarrow>
   blit off src dst ! i =
     (if off \<le> i \<and> i < off + length src then src ! (i - off) else dst ! i)"
  by (auto simp: blit_def nth_append min_def)

lemma nth_seg: "off + n \<le> length xs \<Longrightarrow> i < n \<Longrightarrow> seg off n xs ! i = xs ! (off + i)"
  by (simp add: seg_def)

lemma seg_blit_same [simp]:
  "off + length src \<le> length dst \<Longrightarrow> seg off (length src) (blit off src dst) = src"
  by (simp add: seg_def blit_def)

lemma seg_blit_other:
  assumes "off + length src \<le> length dst" "o2 + n \<le> length dst"
    and "o2 + n \<le> off \<or> off + length src \<le> o2"
  shows "seg o2 n (blit off src dst) = seg o2 n dst"
  by (rule nth_equalityI) (use assms in \<open>auto simp: nth_seg nth_blit\<close>)

lemma seg_all [simp]: "length xs = n \<Longrightarrow> seg 0 n xs = xs"
  by (simp add: seg_def)

lemma blit_all [simp]: "length src = length dst \<Longrightarrow> blit 0 src dst = src"
  by (simp add: blit_def)

lemma blit_blit:
  "off + length xs + length ys \<le> length buf \<Longrightarrow>
   blit (off + length xs) ys (blit off xs buf) = blit off (xs @ ys) buf"
  by (rule nth_equalityI) (auto simp: nth_blit nth_append)

text \<open>A buffer of \<open>n\<close> chunks of size \<open>m\<close> is the concatenation of its chunks.\<close>

lemma concat_segs: "length xs = n * m \<Longrightarrow> concat (map (\<lambda>i. seg (m * i) m xs) [0 ..< n]) = xs"
proof (induction n arbitrary: xs)
  case (Suc n)
  have "map (\<lambda>i. seg (m * i) m xs) [0 ..< Suc n] =
      take m xs # map (\<lambda>i. seg (m * i) m (drop m xs)) [0 ..< n]"
    by (simp add: map_upt_Suc seg_def add.commute del: upt_Suc)
  with Suc show ?case by simp
qed simp

lemma c_memcpy_ok:
  "c_memcpy dst (int d) src (int s) (int n) =
     (if d + n \<le> length dst \<and> s + n \<le> length src then Inr (blit d (seg s n src) dst)
      else Inl OutOfBounds)"
  by (auto simp: c_memcpy_def)

section \<open>Little-endian 32-bit words in memory\<close>

definition le_bytes :: "32 word \<Rightarrow> byte list" where
  "le_bytes w = [ucast w, ucast (drop_bit 8 w), ucast (drop_bit 16 w), ucast (drop_bit 24 w)]"

definition le_word :: "byte list \<Rightarrow> 32 word" where
  "le_word bs =
     (ucast (bs ! 0) OR push_bit 8 (ucast (bs ! 1)) OR push_bit 16 (ucast (bs ! 2))
      OR push_bit 24 (ucast (bs ! 3)))"

definition int_bytes :: "int \<Rightarrow> byte list" where
  "int_bytes x = le_bytes (word_of_int x)"

definition bytes_int :: "byte list \<Rightarrow> int" where
  "bytes_int bs = sint (le_word bs)"

text \<open>The array view \<open>((int *)buf)[i]\<close> of a byte buffer.\<close>

definition word_at :: "byte list \<Rightarrow> nat \<Rightarrow> 32 word" where
  "word_at bs i = le_word (seg (4 * i) 4 bs)"

definition int_at :: "byte list \<Rightarrow> nat \<Rightarrow> int" where
  "int_at bs i = sint (word_at bs i)"

definition set_int_at :: "byte list \<Rightarrow> nat \<Rightarrow> int \<Rightarrow> byte list" where
  "set_int_at bs i x = blit (4 * i) (int_bytes x) bs"

lemma length_le_bytes [simp]: "length (le_bytes w) = 4"
  by (simp add: le_bytes_def)

lemma length_int_bytes [simp]: "length (int_bytes x) = 4"
  by (simp add: int_bytes_def)

lemma le_word_bytes [simp]: "le_word (le_bytes w) = w"
proof (rule bit_word_eqI)
  fix n assume "n < LENGTH(32)"
  then consider "n < 8" | "8 \<le> n" "n < 16" | "16 \<le> n" "n < 24" | "24 \<le> n" "n < 32"
    by fastforce
  then show "bit (le_word (le_bytes w)) n = bit w n"
    by cases (auto simp: le_word_def le_bytes_def bit_simps)
qed

lemma le_bytes_word:
  assumes "length bs = 4"
  shows "le_bytes (le_word bs) = bs"
proof -
  from assms obtain a b c d where bs: "bs = [a, b, c, d]"
    by (auto simp: numeral_eq_Suc length_Suc_conv)
  show ?thesis unfolding bs le_bytes_def le_word_def
    by (simp, intro conjI; rule bit_word_eqI; auto simp: bit_simps dest: bit_imp_le_length)
qed

lemma bytes_int_int_bytes: "in_int32 x \<Longrightarrow> bytes_int (int_bytes x) = x"
  by (simp add: bytes_int_def int_bytes_def sint_of_int32)

lemma in_int32_bytes_int: "in_int32 (bytes_int bs)"
  by (simp add: bytes_int_def in_int32_sint)

end
