(* ===== verification/Bitmap.thy ===== *)
theory Bitmap
  imports Prelude
begin

text \<open>
  \<open>src/bitmap.c\<close>: the fixed-size bit arrays behind the inode and block freemaps.  A bitmap is
  its number of bits (a \<open>u_int32_t\<close>) and the bytes that hold them.  Every function is modelled
  with its asserts and its array accesses; \<open>malloc\<close> failing is an argument of \<open>bitmap_create\<close>.
  The abstraction \<open>bm_set\<close> is the set of bits in use; the lemmas say what each operation does to
  it, and \<open>bm_wf\<close> is the representation invariant that keeps every access in bounds.
\<close>

definition ENOMEM :: int where "ENOMEM = 12"
definition ENOSPC :: int where "ENOSPC = 28"

record bitmap =
  bm_nbits :: "32 word"
  bm_v :: "byte list"

definition BITS_PER_WORD :: nat where "BITS_PER_WORD = 8"

section \<open>Operations\<close>

text \<open>\<open>DIVROUNDUP(nbits, BITS_PER_WORD)\<close> on \<open>u_int32_t\<close>: the sum wraps.\<close>

definition bitmap_words :: "32 word \<Rightarrow> 32 word" where
  "bitmap_words nbits = (nbits + 8 - 1) div 8"

definition bitmap_create :: "bool \<Rightarrow> bool \<Rightarrow> 32 word \<Rightarrow> (int + bitmap) res" where
  "bitmap_create malloc_b malloc_v nbits =
     (let words = bitmap_words nbits;
          v = replicate (unat words) 0
      in if \<not> malloc_b then Inr (Inl (- ENOMEM))
         else if \<not> malloc_v then Inr (Inl (- ENOMEM))
         else if nbits div 8 < words then
           (let ix = words - 1; overbits = nbits - ix * 8
            in bind_r (assert_r (nbits div 8 = words - 1)) (\<lambda>_.
               bind_r (assert_r (0 < overbits \<and> overbits < 8)) (\<lambda>_.
               bind_r (nth_r v (uint ix)) (\<lambda>b.
                 Inr (Inr \<lparr>bm_nbits = nbits,
                           bm_v = v[unat ix := fold (\<lambda>j w. w OR push_bit j 1) [unat overbits ..< 8] b]\<rparr>)))))
         else Inr (Inr \<lparr>bm_nbits = nbits, bm_v = v\<rparr>))"

definition bitmap_getdata :: "bitmap \<Rightarrow> byte list" where
  "bitmap_getdata b = bm_v b"

text \<open>The inner loop of \<open>bitmap_alloc\<close>: the first offset whose bit is clear.\<close>

function alloc_offset :: "byte \<Rightarrow> nat \<Rightarrow> nat option" where
  "alloc_offset w offset =
     (if offset < 8 then
        (if w AND push_bit offset 1 = 0 then Some offset else alloc_offset w (Suc offset))
      else None)"
  by pat_completeness auto
termination
  by (relation "measure (\<lambda>(w, offset). 8 - offset)") auto

text \<open>
  The outer loop.  The result is the error code or the index, and the bitmap.
\<close>

function alloc_loop :: "bitmap \<Rightarrow> nat \<Rightarrow> nat \<Rightarrow> ((int + 32 word) \<times> bitmap) res" where
  "alloc_loop b ix maxix =
     (if ix < maxix then
        bind_r (nth_r (bm_v b) (int ix)) (\<lambda>w.
          if w \<noteq> 0xff then
            (case alloc_offset w 0 of
               None \<Rightarrow> Inl AssertFail
             | Some offset \<Rightarrow>
                 (let index = word_of_nat (ix * 8 + offset)
                  in bind_r (assert_r (index < bm_nbits b)) (\<lambda>_.
                       Inr (Inr index, b\<lparr>bm_v := (bm_v b)[ix := w OR push_bit offset 1]\<rparr>))))
          else alloc_loop b (Suc ix) maxix)
      else Inr (Inl (- ENOSPC), b))"
  by pat_completeness auto
termination
  by (relation "measure (\<lambda>(b, ix, maxix). maxix - ix)") auto

definition bitmap_alloc :: "bitmap \<Rightarrow> ((int + 32 word) \<times> bitmap) res" where
  "bitmap_alloc b = alloc_loop b 0 (unat (bitmap_words (bm_nbits b)))"

definition bitmap_translate :: "32 word \<Rightarrow> nat \<times> byte" where
  "bitmap_translate bitno = (unat (bitno div 8), push_bit (unat (bitno mod 8)) 1)"

definition bitmap_mark :: "bitmap \<Rightarrow> 32 word \<Rightarrow> bitmap res" where
  "bitmap_mark b index =
     bind_r (assert_r (index < bm_nbits b)) (\<lambda>_.
       (case bitmap_translate index of (ix, m) \<Rightarrow>
          bind_r (nth_r (bm_v b) (int ix)) (\<lambda>w.
          bind_r (assert_r (w AND m = 0)) (\<lambda>_.
            Inr (b\<lparr>bm_v := (bm_v b)[ix := w OR m]\<rparr>)))))"

definition bitmap_unmark :: "bitmap \<Rightarrow> 32 word \<Rightarrow> bitmap res" where
  "bitmap_unmark b index =
     bind_r (assert_r (index < bm_nbits b)) (\<lambda>_.
       (case bitmap_translate index of (ix, m) \<Rightarrow>
          bind_r (nth_r (bm_v b) (int ix)) (\<lambda>w.
          bind_r (assert_r (w AND m \<noteq> 0)) (\<lambda>_.
            Inr (b\<lparr>bm_v := (bm_v b)[ix := w AND NOT m]\<rparr>)))))"

definition bitmap_isset :: "bitmap \<Rightarrow> 32 word \<Rightarrow> int res" where
  "bitmap_isset b index =
     (case bitmap_translate index of (ix, m) \<Rightarrow>
        bind_r (nth_r (bm_v b) (int ix)) (\<lambda>w. Inr (uint (w AND m))))"

function equal_loop :: "bitmap \<Rightarrow> bitmap \<Rightarrow> nat \<Rightarrow> nat \<Rightarrow> int res" where
  "equal_loop a b ix maxix =
     (if ix < maxix then
        bind_r (nth_r (bm_v a) (int ix)) (\<lambda>wa.
        bind_r (nth_r (bm_v b) (int ix)) (\<lambda>wb.
          if wa \<noteq> wb then Inr 0 else equal_loop a b (Suc ix) maxix))
      else Inr 1)"
  by pat_completeness auto
termination
  by (relation "measure (\<lambda>(a, b, ix, maxix). maxix - ix)") auto

definition bitmap_equal :: "bitmap \<Rightarrow> bitmap \<Rightarrow> int res" where
  "bitmap_equal a b =
     (if bm_nbits a \<noteq> bm_nbits b then Inr 0
      else equal_loop a b 0 (unat (bitmap_words (bm_nbits b))))"

definition bitmap_nr_allocated :: "bitmap \<Rightarrow> int res" where
  "bitmap_nr_allocated b =
     fold_r (\<lambda>i nr. bind_r (bitmap_isset b (word_of_nat i)) (\<lambda>set.
               Inr (if set \<noteq> 0 then nr + 1 else nr)))
            [0 ..< unat (bm_nbits b)] 0"

declare alloc_offset.simps [simp del] alloc_loop.simps [simp del] equal_loop.simps [simp del]

section \<open>Abstraction and invariant\<close>

text \<open>Bit \<open>i\<close> of the map, and the set of bits in use.\<close>

definition bm_bit :: "bitmap \<Rightarrow> nat \<Rightarrow> bool" where
  "bm_bit b i = bit (bm_v b ! (i div 8)) (i mod 8)"

definition bm_set :: "bitmap \<Rightarrow> nat set" where
  "bm_set b = {i. i < unat (bm_nbits b) \<and> bm_bit b i}"

text \<open>
  Well-formed: the array covers the bits, and the bits past the end are set, so that
  \<open>bitmap_alloc\<close> never finds one of them.
\<close>

definition bm_wf :: "bitmap \<Rightarrow> bool" where
  "bm_wf b \<longleftrightarrow>
     unat (bm_nbits b) + 7 < 2 ^ 32 \<and>
     length (bm_v b) = (unat (bm_nbits b) + 7) div 8 \<and>
     (\<forall>i. unat (bm_nbits b) \<le> i \<longrightarrow> i < 8 * length (bm_v b) \<longrightarrow> bm_bit b i)"

lemma finite_bm_set [simp]: "finite (bm_set b)"
  by (rule finite_subset [of _ "{..< unat (bm_nbits b)}"]) (auto simp: bm_set_def)

lemma bm_set_bound: "i \<in> bm_set b \<Longrightarrow> i < unat (bm_nbits b)"
  by (simp add: bm_set_def)

lemma unat_bitmap_words:
  "unat n + 7 < 2 ^ 32 \<Longrightarrow> unat (bitmap_words n) = (unat n + 7) div 8"
proof -
  assume "unat n + 7 < 2 ^ 32"
  then have "unat (n + 7) = unat n + 7"
    by (simp add: unat_word_ariths)
  moreover have "n + 8 - 1 = n + 7" by simp
  ultimately show ?thesis by (simp only: bitmap_words_def unat_div) simp
qed

lemma bm_wf_words: "bm_wf b \<Longrightarrow> unat (bitmap_words (bm_nbits b)) = length (bm_v b)"
  by (simp add: bm_wf_def unat_bitmap_words)

lemma bm_wf_index: "bm_wf b \<Longrightarrow> i < unat (bm_nbits b) \<Longrightarrow> i div 8 < length (bm_v b)"
  by (auto simp: bm_wf_def)

lemma and_exp_eq_0: "k < 8 \<Longrightarrow> (w :: byte) AND 2 ^ k = 0 \<longleftrightarrow> \<not> bit w k"
  by (simp add: and_exp_eq_0_iff_not_bit)

lemma bit_or_exp: "k < 8 \<Longrightarrow> bit ((w :: byte) OR 2 ^ k) j \<longleftrightarrow> bit w j \<or> j = k"
  by (auto simp: bit_simps simp flip: push_bit_of_1)

lemma bit_and_not_exp:
  "k < 8 \<Longrightarrow> bit ((w :: byte) AND NOT (2 ^ k)) j \<longleftrightarrow> bit w j \<and> j \<noteq> k"
  by (auto simp: bit_simps simp flip: push_bit_of_1 dest: bit_imp_le_length)

lemma byte_full_iff: "w = (0xff :: byte) \<longleftrightarrow> (\<forall>k < 8. bit w k)"
proof
  assume "w = 0xff"
  then have "w = mask 8" by (simp add: mask_eq_exp_minus_1)
  then show "\<forall>k < 8. bit w k" by (simp add: bit_mask_iff)
next
  assume full: "\<forall>k < 8. bit w k"
  have "w = mask 8"
    by (rule bit_word_eqI) (use full in \<open>simp add: bit_mask_iff\<close>)
  then show "w = 0xff" by (simp add: mask_eq_exp_minus_1)
qed

text \<open>Setting and clearing one bit, on the representation and on the abstraction.\<close>

definition bm_put :: "bitmap \<Rightarrow> nat \<Rightarrow> bool \<Rightarrow> bitmap" where
  "bm_put b i on =
     b\<lparr>bm_v := (bm_v b)[i div 8 :=
        (if on then bm_v b ! (i div 8) OR push_bit (i mod 8) 1
         else bm_v b ! (i div 8) AND NOT (push_bit (i mod 8) 1))]\<rparr>"

lemma bm_nbits_put [simp]: "bm_nbits (bm_put b i on) = bm_nbits b"
  by (simp add: bm_put_def)

lemma length_bm_v_put [simp]: "length (bm_v (bm_put b i on)) = length (bm_v b)"
  by (simp add: bm_put_def)

lemma bm_bit_put:
  assumes "i div 8 < length (bm_v b)"
  shows "bm_bit (bm_put b i on) j = (if j = i then on else bm_bit b j)"
proof (cases "j div 8 = i div 8")
  case True
  have "j = i \<longleftrightarrow> j mod 8 = i mod 8"
    using True by (metis div_mult_mod_eq)
  then show ?thesis using True assms
    by (auto simp: bm_bit_def bm_put_def bit_or_exp bit_and_not_exp)
next
  case False
  then show ?thesis by (auto simp: bm_bit_def bm_put_def)
qed

lemma bm_wf_put: "bm_wf b \<Longrightarrow> i < unat (bm_nbits b) \<Longrightarrow> bm_wf (bm_put b i on)"
  by (auto simp: bm_wf_def bm_bit_put)

lemma bm_set_put:
  assumes "bm_wf b" "i < unat (bm_nbits b)"
  shows "bm_set (bm_put b i on) = (if on then insert i (bm_set b) else bm_set b - {i})"
  using assms by (auto simp: bm_set_def bm_bit_put bm_wf_index)

section \<open>Allocation finds the first clear bit\<close>

lemma alloc_offset_Some:
  "alloc_offset w off = Some k \<Longrightarrow>
   off \<le> k \<and> k < 8 \<and> \<not> bit w k \<and> (\<forall>j. off \<le> j \<longrightarrow> j < k \<longrightarrow> bit w j)"
proof (induction w off rule: alloc_offset.induct)
  case (1 w off)
  show ?case
  proof (cases "off < 8 \<and> bit w off")
    case True
    then have "alloc_offset w (Suc off) = Some k"
      using 1(2) by (simp add: alloc_offset.simps [of w off] and_exp_eq_0)
    with 1(1) True show ?thesis
      by (auto simp: and_exp_eq_0) (metis Suc_leI le_neq_implies_less)
  next
    case False
    with 1(2) show ?thesis
      by (auto simp: alloc_offset.simps [of w off] and_exp_eq_0 split: if_splits)
  qed
qed

lemma alloc_offset_None:
  "alloc_offset w off = None \<Longrightarrow> \<forall>j. off \<le> j \<longrightarrow> j < 8 \<longrightarrow> bit w j"
proof (induction w off rule: alloc_offset.induct)
  case (1 w off)
  show ?case
  proof (cases "off < 8")
    case True
    with 1(2) have "bit w off" "alloc_offset w (Suc off) = None"
      by (auto simp: alloc_offset.simps [of w off] and_exp_eq_0 split: if_splits)
    with 1(1) True show ?thesis
      by (auto simp: and_exp_eq_0) (metis Suc_leI le_neq_implies_less)
  qed auto
qed

text \<open>The first clear bit at or after \<open>m\<close>.\<close>

definition first_clear :: "bitmap \<Rightarrow> nat \<Rightarrow> nat" where
  "first_clear b m = (LEAST i. m \<le> i \<and> i < unat (bm_nbits b) \<and> \<not> bm_bit b i)"

lemma first_clear_eqI:
  assumes "m \<le> i" "i < unat (bm_nbits b)" "\<not> bm_bit b i"
    and "\<And>j. m \<le> j \<Longrightarrow> j < i \<Longrightarrow> bm_bit b j"
  shows "first_clear b m = i"
  unfolding first_clear_def
  by (rule Least_equality) (use assms in \<open>auto simp: not_less [symmetric]\<close>)

lemma word_bits_full: "bm_v b ! ix = 0xff \<Longrightarrow> i div 8 = ix \<Longrightarrow> bm_bit b i"
  by (auto simp: bm_bit_def byte_full_iff)

lemma alloc_loop_hit:
  assumes wf: "bm_wf b" and ix: "ix < length (bm_v b)" and w: "bm_v b ! ix \<noteq> 0xff"
  shows "alloc_loop b ix (length (bm_v b)) =
           Inr (Inr (word_of_nat (first_clear b (8 * ix))), bm_put b (first_clear b (8 * ix)) True)"
    and "8 * ix \<le> first_clear b (8 * ix) \<and> first_clear b (8 * ix) < unat (bm_nbits b)"
    and "\<not> bm_bit b (first_clear b (8 * ix))"
proof -
  obtain k where k: "alloc_offset (bm_v b ! ix) 0 = Some k"
    using w alloc_offset_None [of "bm_v b ! ix" 0]
    by (cases "alloc_offset (bm_v b ! ix) 0") (auto simp: byte_full_iff)
  note ks = alloc_offset_Some [OF k]
  have bit: "bm_bit b (8 * ix + j) \<longleftrightarrow> bit (bm_v b ! ix) j" if "j < 8" for j
    using that by (simp add: bm_bit_def)
  have clear: "\<not> bm_bit b (8 * ix + k)" using ks bit by auto
  have lt: "8 * ix + k < unat (bm_nbits b)"
  proof (rule ccontr)
    assume "\<not> 8 * ix + k < unat (bm_nbits b)"
    moreover have "8 * ix + k < 8 * length (bm_v b)" using ix ks by linarith
    ultimately show False using wf clear by (simp add: bm_wf_def)
  qed
  have fc: "first_clear b (8 * ix) = 8 * ix + k"
  proof (rule first_clear_eqI)
    fix j assume "8 * ix \<le> j" "j < 8 * ix + k"
    then obtain d where "j = 8 * ix + d" "d < k" by (metis le_Suc_ex nat_add_left_cancel_less)
    then show "bm_bit b j" using ks bit by auto
  qed (use lt clear in auto)
  have small: "8 * ix + k < 2 ^ 32" using lt wf by (simp add: bm_wf_def)
  then have un: "unat (word_of_nat (8 * ix + k) :: 32 word) = 8 * ix + k"
    by (rule unat_of_nat32)
  have idx: "word_of_nat (8 * ix + k) < bm_nbits b"
    using lt un by (simp only: word_less_nat_alt)
  have put: "bm_put b (8 * ix + k) True = b\<lparr>bm_v := (bm_v b)[ix := bm_v b ! ix OR push_bit k 1]\<rparr>"
    using ks by (simp add: bm_put_def)
  have "alloc_loop b ix (length (bm_v b)) =
      Inr (Inr (word_of_nat (8 * ix + k)), bm_put b (8 * ix + k) True)"
    using ix w k idx unfolding put by (simp add: alloc_loop.simps [of b ix] mult.commute)
  then show "alloc_loop b ix (length (bm_v b)) =
      Inr (Inr (word_of_nat (first_clear b (8 * ix))), bm_put b (first_clear b (8 * ix)) True)"
    unfolding fc .
  show "8 * ix \<le> first_clear b (8 * ix) \<and> first_clear b (8 * ix) < unat (bm_nbits b)"
    and "\<not> bm_bit b (first_clear b (8 * ix))"
    using lt clear by (simp_all add: fc)
qed

lemma first_clear_skip:
  assumes "bm_v b ! ix = 0xff"
  shows "first_clear b (8 * Suc ix) = first_clear b (8 * ix)"
proof -
  have "8 * Suc ix \<le> i \<and> \<not> bm_bit b i \<longleftrightarrow> 8 * ix \<le> i \<and> \<not> bm_bit b i" for i
    using word_bits_full [OF assms, of i] by (cases "i div 8 = ix") auto
  then show ?thesis unfolding first_clear_def by metis
qed

lemma alloc_loop_spec:
  assumes "bm_wf b" and "ix \<le> length (bm_v b)"
    and "\<And>j. j < 8 * ix \<Longrightarrow> bm_bit b j"
  shows "alloc_loop b ix (length (bm_v b)) =
     (if bm_set b = {..< unat (bm_nbits b)} then Inr (Inl (- ENOSPC), b)
      else Inr (Inr (word_of_nat (first_clear b 0)), bm_put b (first_clear b 0) True))
   \<and> (bm_set b \<noteq> {..< unat (bm_nbits b)} \<longrightarrow>
        first_clear b 0 < unat (bm_nbits b) \<and> \<not> bm_bit b (first_clear b 0))"
  using assms
proof (induction "length (bm_v b) - ix" arbitrary: ix)
  case 0
  then have "bm_bit b i" if "i < unat (bm_nbits b)" for i
    using that bm_wf_index [of b i] by auto
  with 0 show ?case by (auto simp: alloc_loop.simps [of b ix] bm_set_def)
next
  case (Suc n)
  then have ix: "ix < length (bm_v b)" by simp
  show ?case
  proof (cases "bm_v b ! ix = 0xff")
    case True
    have full: "bm_bit b j" if "j < 8 * Suc ix" for j
      using that Suc.prems(3) word_bits_full [OF True, of j] by (cases "j < 8 * ix") auto
    have step: "alloc_loop b ix (length (bm_v b)) = alloc_loop b (Suc ix) (length (bm_v b))"
      using True ix by (simp add: alloc_loop.simps [of b ix])
    have "n = length (bm_v b) - Suc ix" using Suc.hyps(2) by simp
    note IH = Suc.hyps(1) [OF this Suc.prems(1) Suc_leI [OF ix] full]
    show ?thesis unfolding step by (rule IH)
  next
    case False
    note hit = alloc_loop_hit [OF Suc.prems(1) ix False]
    have "first_clear b 0 = first_clear b (8 * ix)"
    proof (rule first_clear_eqI)
      fix j assume "j < first_clear b (8 * ix)"
      then show "bm_bit b j"
        using Suc.prems(3) not_less_Least [of j "\<lambda>i. 8 * ix \<le> i \<and> i < unat (bm_nbits b) \<and> \<not> bm_bit b i"]
          hit(2) unfolding first_clear_def by (cases "j < 8 * ix") auto
    qed (use hit in auto)
    with hit show ?thesis by (auto simp: bm_set_def)
  qed
qed

lemma bitmap_alloc_eq:
  "bm_wf b \<Longrightarrow> bitmap_alloc b =
     (if bm_set b = {..< unat (bm_nbits b)} then Inr (Inl (- ENOSPC), b)
      else Inr (Inr (word_of_nat (first_clear b 0)), bm_put b (first_clear b 0) True))"
  using alloc_loop_spec [of b 0] by (simp add: bitmap_alloc_def bm_wf_words)

lemma first_clear_bound:
  assumes "bm_wf b" "bm_set b \<noteq> {..< unat (bm_nbits b)}"
  shows "first_clear b 0 < unat (bm_nbits b)" "first_clear b 0 \<notin> bm_set b"
  using alloc_loop_spec [of b 0] assms by (simp_all add: bm_set_def)

lemma first_clear_least:
  "i < unat (bm_nbits b) \<Longrightarrow> i \<notin> bm_set b \<Longrightarrow> first_clear b 0 \<le> i"
  unfolding first_clear_def by (rule Least_le) (simp add: bm_set_def)

text \<open>The case analysis every caller of \<open>bitmap_alloc\<close> makes.\<close>

lemma bitmap_alloc_cases:
  assumes "bm_wf b"
  obtains (full) "bm_set b = {..< unat (bm_nbits b)}" "bitmap_alloc b = Inr (Inl (- ENOSPC), b)"
  | (free) i where "i < unat (bm_nbits b)" "i \<notin> bm_set b"
      "\<And>j. j < unat (bm_nbits b) \<Longrightarrow> j \<notin> bm_set b \<Longrightarrow> i \<le> j"
      "bitmap_alloc b = Inr (Inr (word_of_nat i), bm_put b i True)"
      "bm_wf (bm_put b i True)" "bm_set (bm_put b i True) = insert i (bm_set b)"
proof (cases "bm_set b = {..< unat (bm_nbits b)}")
  case True
  with assms full show thesis by (simp add: bitmap_alloc_eq)
next
  case False
  note fc = first_clear_bound [OF assms False]
  show thesis
    by (rule free [of "first_clear b 0"])
      (use False fc assms in \<open>auto simp: bitmap_alloc_eq bm_wf_put bm_set_put intro: first_clear_least\<close>)
qed

section \<open>Marking, testing, counting, comparing\<close>

lemma bitmap_translate_nat:
  "i < 2 ^ 32 \<Longrightarrow> bitmap_translate (word_of_nat i) = (i div 8, 2 ^ (i mod 8))"
  by (simp add: bitmap_translate_def unat_div unat_mod unat_of_nat32)

lemma bm_wf_small: "bm_wf b \<Longrightarrow> i < unat (bm_nbits b) \<Longrightarrow> i < 2 ^ 32"
  by (simp add: bm_wf_def)

lemma word_less_nbits: "i < 2 ^ 32 \<Longrightarrow> word_of_nat i < n \<longleftrightarrow> i < unat (n :: 32 word)"
  by (simp add: word_less_nat_alt unat_of_nat32)

lemma bitmap_mark_eq:
  assumes "bm_wf b" "i < 2 ^ 32"
  shows "bitmap_mark b (word_of_nat i) =
    (if i < unat (bm_nbits b) \<and> i \<notin> bm_set b then Inr (bm_put b i True) else Inl AssertFail)"
  using assms bm_wf_index [OF assms(1), of i]
  by (cases "i < unat (bm_nbits b)"; cases "bit (bm_v b ! (i div 8)) (i mod 8)")
    (simp_all add: bitmap_mark_def word_less_nbits bitmap_translate_nat bm_set_def bm_bit_def
      bm_put_def and_exp_eq_0)

lemma bitmap_unmark_eq:
  assumes "bm_wf b" "i < 2 ^ 32"
  shows "bitmap_unmark b (word_of_nat i) =
    (if i \<in> bm_set b then Inr (bm_put b i False) else Inl AssertFail)"
  using assms bm_wf_index [OF assms(1), of i]
  by (cases "i < unat (bm_nbits b)"; cases "bit (bm_v b ! (i div 8)) (i mod 8)")
    (simp_all add: bitmap_unmark_def word_less_nbits bitmap_translate_nat bm_set_def bm_bit_def
      bm_put_def and_exp_eq_0)

lemma bitmap_isset_ok:
  assumes "bm_wf b" "i < unat (bm_nbits b)"
  obtains r where "bitmap_isset b (word_of_nat i) = Inr r" "r \<noteq> 0 \<longleftrightarrow> i \<in> bm_set b"
  using assms bm_wf_index [OF assms] bm_wf_small [OF assms]
  by (auto simp: bitmap_isset_def bitmap_translate_nat bm_set_def bm_bit_def and_exp_eq_0
      uint_0_iff)

lemma nr_allocated_prefix:
  assumes "bm_wf b" "n \<le> unat (bm_nbits b)"
  shows "fold_r (\<lambda>i nr. bind_r (bitmap_isset b (word_of_nat i)) (\<lambda>set.
           Inr (if set \<noteq> 0 then nr + 1 else nr))) [0 ..< n] k =
         Inr (k + int (card (bm_set b \<inter> {..< n})))"
  using assms(2)
proof (induction n)
  case (Suc n)
  obtain r where r: "bitmap_isset b (word_of_nat n) = Inr r" "r \<noteq> 0 \<longleftrightarrow> n \<in> bm_set b"
    using bitmap_isset_ok [OF assms(1), of n] Suc.prems by auto
  have "bm_set b \<inter> {..< Suc n} =
      (if n \<in> bm_set b then insert n (bm_set b \<inter> {..< n}) else bm_set b \<inter> {..< n})"
    by (auto simp: less_Suc_eq)
  with Suc r show ?case by (auto simp: fold_r_append)
qed simp

lemma equal_loop_spec:
  assumes "length (bm_v a) = n" "length (bm_v b) = n" "ix \<le> n"
  shows "equal_loop a b ix n = Inr (if drop ix (bm_v a) = drop ix (bm_v b) then 1 else 0)"
  using assms(3)
proof (induction "n - ix" arbitrary: ix)
  case 0
  with assms show ?case by (simp add: equal_loop.simps [of a b ix])
next
  case (Suc m)
  have ix: "ix < n" and m: "m = n - Suc ix" using Suc.hyps(2) by simp_all
  then have "drop ix (bm_v a) = bm_v a ! ix # drop (Suc ix) (bm_v a)"
    "drop ix (bm_v b) = bm_v b ! ix # drop (Suc ix) (bm_v b)"
    using assms by (simp_all add: Cons_nth_drop_Suc)
  then show ?case
    using Suc.hyps(1) [OF m] ix assms by (simp add: equal_loop.simps [of a b ix])
qed

lemma bitmap_eqI:
  assumes "bm_wf a" "bm_wf b" "bm_nbits a = bm_nbits b" "bm_set a = bm_set b"
  shows "bm_v a = bm_v b"
proof (rule nth_equalityI)
  show len: "length (bm_v a) = length (bm_v b)" using assms by (simp add: bm_wf_def)
  fix ix assume ix: "ix < length (bm_v a)"
  have "bm_bit a i \<longleftrightarrow> bm_bit b i" if "i < 8 * length (bm_v a)" for i
    using that assms len by (cases "i < unat (bm_nbits a)") (auto simp: bm_set_def bm_wf_def)
  then have "bm_bit a (8 * ix + k) \<longleftrightarrow> bm_bit b (8 * ix + k)" if "k < 8" for k
    using that ix by simp
  then show "bm_v a ! ix = bm_v b ! ix"
    by (intro bit_word_eqI) (simp add: bm_bit_def)
qed

section \<open>Creation\<close>

lemma bit_fold_or:
  "n \<le> 8 \<Longrightarrow> bit (fold (\<lambda>j w. w OR 2 ^ j) [m ..< n] (w :: byte)) k \<longleftrightarrow>
     bit w k \<or> (m \<le> k \<and> k < n)"
proof (induction n)
  case (Suc n)
  then show ?case by (auto simp: bit_or_exp less_Suc_eq)
qed simp

lemma bitmap_create_exact:
  assumes "unat n + 7 < 2 ^ 32" "unat n mod 8 = 0"
  shows "bitmap_create True True n =
    Inr (Inr \<lparr>bm_nbits = n, bm_v = replicate (unat n div 8) 0\<rparr>)"
  using assms unat_bitmap_words [OF assms(1)]
  by (simp add: bitmap_create_def word_less_nat_alt unat_div ceil_div_8)

lemma bitmap_create_partial:
  assumes "unat n + 7 < 2 ^ 32" "unat n mod 8 \<noteq> 0"
  shows "bitmap_create True True n =
    Inr (Inr \<lparr>bm_nbits = n,
              bm_v = replicate (unat n div 8) 0 @
                [fold (\<lambda>j w. w OR push_bit j 1) [unat n mod 8 ..< 8] 0]\<rparr>)"
proof -
  define ix where "ix = bitmap_words n - 1"
  have W: "unat (bitmap_words n) = Suc (unat n div 8)"
    using unat_bitmap_words [OF assms(1)] assms(2) by (simp add: ceil_div_8)
  then have "bitmap_words n \<noteq> 0" by auto
  then have ixn: "unat ix = unat n div 8" by (simp add: ix_def unat_minus_one W)
  then have dv: "n div 8 = ix" by (simp add: word_unat_eq_iff unat_div)
  have over: "n - ix * 8 = n mod 8"
    unfolding dv [symmetric] by (simp add: minus_div_mult_eq_mod)
  have lt: "n div 8 < bitmap_words n" by (simp add: word_less_nat_alt W unat_div)
  have ovr: "0 < n mod 8 \<and> n mod 8 < 8"
    using assms(2) by (simp add: word_less_nat_alt unat_mod)
  have "nth_r (replicate (Suc (unat n div 8)) (0 :: byte)) (uint ix) = Inr 0"
    by (simp add: nth_r_def ixn uint_nat del: replicate_Suc)
  then show ?thesis
    using lt ovr ixn
    by (simp add: bitmap_create_def Let_def W over dv ix_def [symmetric] unat_mod
        replicate_append_same [symmetric] list_update_append)
qed

text \<open>
  A fresh bitmap is well-formed and empty, whatever its size: the leftover bits of the last
  byte are in use, so that \<open>bitmap_alloc\<close> cannot hand them out.
\<close>

lemma bitmap_create_ok:
  assumes n: "unat n + 7 < 2 ^ 32"
  obtains b where "bitmap_create True True n = Inr (Inr b)"
    "bm_nbits b = n" "bm_wf b" "bm_set b = {}"
proof (cases "unat n mod 8 = 0")
  case True
  let ?b = "\<lparr>bm_nbits = n, bm_v = replicate (unat n div 8) (0 :: byte)\<rparr>"
  have "bm_wf ?b" using n True by (auto simp: bm_wf_def ceil_div_8)
  moreover have "bm_set ?b = {}"
    using True by (auto simp: bm_set_def bm_bit_def less_mult_imp_div_less)
  ultimately show thesis using that bitmap_create_exact [OF n True] by simp
next
  case False
  define q where "q = unat n div 8"
  define r where "r = unat n mod 8"
  have N: "unat n = 8 * q + r" and r8: "r < 8" by (simp_all add: q_def r_def)
  let ?last = "fold (\<lambda>j w. w OR push_bit j 1) [r ..< 8] (0 :: byte)"
  let ?b = "\<lparr>bm_nbits = n, bm_v = replicate q 0 @ [?last]\<rparr>"
  have low: "\<not> bm_bit ?b i" if "i < 8 * q" for i
    using div_8_pos [OF that] by (simp add: bm_bit_def nth_append)
  have high: "bm_bit ?b (8 * q + j) \<longleftrightarrow> r \<le> j" if "j < 8" for j
    using that by (simp add: bm_bit_def nth_append bit_fold_or)
  have "bm_bit ?b i" if "unat n \<le> i" "i < 8 * Suc q" for i
  proof -
    have "8 * q \<le> i" using that(1) N by linarith
    then obtain j where j: "i = 8 * q + j" using le_Suc_ex by blast
    have "j < 8" using j that(2) by simp
    moreover have "r \<le> j" using j that(1) N by simp
    ultimately show ?thesis using high j by simp
  qed
  then have "bm_wf ?b" using n False by (simp add: bm_wf_def ceil_div_8 q_def)
  moreover have "\<not> bm_bit ?b i" if "i < unat n" for i
  proof (cases "i < 8 * q")
    case True
    then show ?thesis by (rule low)
  next
    case False
    then have "8 * q \<le> i" by simp
    then obtain j where j: "i = 8 * q + j" using le_Suc_ex by blast
    then have "j < r" using that N by simp
    moreover have "j < 8" using \<open>j < r\<close> r8 by (rule less_trans)
    ultimately show ?thesis using high j by simp
  qed
  then have "bm_set ?b = {}" by (auto simp: bm_set_def)
  ultimately show thesis using that bitmap_create_partial [OF n False] by (simp add: q_def r_def)
qed

section \<open>Properties\<close>

text \<open>
  C32.  \<open>bitmap_alloc\<close> hands out the lowest clear bit and marks it, and nothing else changes; it
  reports \<open>ENOSPC\<close>, with the map unchanged, exactly when every bit is in use.  In particular it never
  hands out one of the padding bits past the end.
\<close>

theorem bitmap_alloc_correct:
  assumes "bm_wf b"
  shows "if bm_set b = {..< unat (bm_nbits b)} then bitmap_alloc b = Inr (Inl (- ENOSPC), b)
    else \<exists>i b'. bitmap_alloc b = Inr (Inr (word_of_nat i), b') \<and> i < unat (bm_nbits b) \<and>
           i \<notin> bm_set b \<and> (\<forall>j < unat (bm_nbits b). j \<notin> bm_set b \<longrightarrow> i \<le> j) \<and>
           bm_wf b' \<and> bm_nbits b' = bm_nbits b \<and> bm_set b' = insert i (bm_set b)"
  using assms
proof (cases rule: bitmap_alloc_cases)
  case full
  then show ?thesis by simp
next
  case (free i)
  then show ?thesis by (metis bm_nbits_put lessThan_iff)
qed

definition sample_bitmap :: bitmap where
  "sample_bitmap = \<lparr>bm_nbits = 8, bm_v = [5]\<rparr>"

lemma sample_bitmap_wf: "bm_wf sample_bitmap"
  by (simp add: bm_wf_def sample_bitmap_def)

lemma sample_bitmap_nbits: "bm_nbits sample_bitmap = 8" "unat (8 :: 32 word) = 8"
  by (simp_all add: sample_bitmap_def)

lemma sample_bitmap_set: "bm_set sample_bitmap = {0, 2}"
proof -
  have "bit (5 :: byte) i \<longleftrightarrow> i = 0 \<or> i = 2" if "i < 8" for i
  proof -
    have "i = 0 \<or> i = 1 \<or> i = 2 \<or> i = 3 \<or> i = 4 \<or> i = 5 \<or> i = 6 \<or> i = 7"
      using that by arith
    then show ?thesis by (elim disjE) simp_all
  qed
  then show ?thesis by (auto simp: bm_set_def bm_bit_def sample_bitmap_def less_Suc_eq_0_disj)
qed

theorem bitmap_alloc_correct_witness:
  "\<exists>b'. bitmap_alloc sample_bitmap = Inr (Inr (word_of_nat 1), b') \<and> bm_wf b' \<and> bm_set b' = {1, 0, 2}"
proof -
  have "(1 :: nat) \<in> {..< 8}" "(1 :: nat) \<notin> {0, 2}" by simp_all
  then have "bm_set sample_bitmap \<noteq> {..< 8}" unfolding sample_bitmap_set by blast
  then obtain i b' where i: "bitmap_alloc sample_bitmap = Inr (Inr (word_of_nat i), b')" "i < 8"
    "i \<notin> {0, 2}" "\<forall>j < 8. j \<notin> {0, 2} \<longrightarrow> i \<le> j" "bm_wf b'" "bm_set b' = insert i {0, 2}"
    using bitmap_alloc_correct [OF sample_bitmap_wf] unfolding sample_bitmap_nbits sample_bitmap_set by auto
  then have "i \<le> 1" by simp
  then have "i = 1" using i(3) by auto
  then show ?thesis using i by auto
qed

lemma bitmap_create_wraps:
  assumes "\<not> unat n + 7 < 2 ^ 32"
  shows "bitmap_words n = 0" "bitmap_create True True n = Inr (Inr \<lparr>bm_nbits = n, bm_v = []\<rparr>)"
proof -
  have "unat n < 2 ^ 32" using unsigned_less [of n] by simp
  then have m: "(unat n + 7) mod 2 ^ 32 = unat n + 7 - 2 ^ 32" using assms by (simp add: mod_if)
  have "unat (n + 8 - 1) = (unat n + 7) mod 2 ^ 32"
    using unat_word_ariths(1) [of n 7] by (simp add: add_diff_eq [symmetric])
  then have "unat (n + 8 - 1) div 8 = 0" using m \<open>unat n < 2 ^ 32\<close> by simp
  then show w: "bitmap_words n = 0" by (simp add: bitmap_words_def word_unat_eq_iff unat_div)
  show "bitmap_create True True n = Inr (Inr \<lparr>bm_nbits = n, bm_v = []\<rparr>)"
    by (simp add: bitmap_create_def w)
qed

text \<open>
  C33.  When both allocations succeed, \<open>bitmap_create\<close> returns for every size.  Up to 2^32 - 8 bits the bitmap
  is well formed and empty, although the bits of the last byte past the end are set; beyond, rounding up to whole
  bytes wraps to 0 and the bitmap has no byte at all, is not well formed, and every allocation from it fails.
  When an allocation fails, the result is \<open>ENOMEM\<close>.
\<close>

theorem bitmap_create_correct:
  "(if unat n + 7 < 2 ^ 32
    then \<exists>b. bitmap_create True True n = Inr (Inr b) \<and> bm_nbits b = n \<and> bm_wf b \<and> bm_set b = {}
    else \<exists>b. bitmap_create True True n = Inr (Inr b) \<and> bm_nbits b = n \<and> bm_v b = [] \<and> \<not> bm_wf b \<and>
      bitmap_alloc b = Inr (Inl (- ENOSPC), b)) \<and>
   bitmap_create False malloc_v n = Inr (Inl (- ENOMEM)) \<and> bitmap_create True False n = Inr (Inl (- ENOMEM))"
proof (cases "unat n + 7 < 2 ^ 32")
  case True
  obtain b where "bitmap_create True True n = Inr (Inr b)" "bm_nbits b = n" "bm_wf b" "bm_set b = {}"
    using True by (rule bitmap_create_ok)
  then show ?thesis using True by (simp add: bitmap_create_def)
next
  case False
  let ?b = "\<lparr>bm_nbits = n, bm_v = []\<rparr>"
  have "\<not> bm_wf ?b" using False by (auto simp: bm_wf_def)
  moreover have "bitmap_alloc ?b = Inr (Inl (- ENOSPC), ?b)"
    using bitmap_create_wraps(1) [OF False] by (simp add: bitmap_alloc_def alloc_loop.simps)
  ultimately show ?thesis using False bitmap_create_wraps(2) [OF False] by (auto simp: bitmap_create_def Let_def)
qed

theorem bitmap_create_correct_witness:
  "(\<exists>b. bitmap_create True True 13 = Inr (Inr b) \<and> bm_nbits b = 13 \<and> bm_wf b \<and> bm_set b = {}) \<and>
   (\<exists>b. bitmap_create True True 0xfffffffb = Inr (Inr b) \<and> bm_v b = [] \<and> bitmap_alloc b = Inr (Inl (- ENOSPC), b))"
  using bitmap_create_correct [of 13 True] bitmap_create_correct [of "0xfffffffb" True] by simp blast

text \<open>
  \<open>bitmap_mark\<close> and \<open>bitmap_unmark\<close> on the model of a set: they add and remove exactly the
  index, keep the map well formed, undo each other, and abort on an index that is out of range,
  already marked, or not marked.
\<close>

theorem bitmap_mark_unmark:
  assumes "bm_wf b" "i < 2 ^ 32"
  shows "(if i < unat (bm_nbits b) \<and> i \<notin> bm_set b
          then \<exists>b'. bitmap_mark b (word_of_nat i) = Inr b' \<and> bm_wf b' \<and> bm_set b' = insert i (bm_set b) \<and>
                    (\<exists>b''. bitmap_unmark b' (word_of_nat i) = Inr b'' \<and> bm_wf b'' \<and> bm_set b'' = bm_set b)
          else bitmap_mark b (word_of_nat i) = Inl AssertFail) \<and>
         (i \<notin> bm_set b \<longrightarrow> bitmap_unmark b (word_of_nat i) = Inl AssertFail)"
proof (cases "i < unat (bm_nbits b) \<and> i \<notin> bm_set b")
  case True
  let ?c = "bm_put b i True"
  have wf: "bm_wf ?c" and set: "bm_set ?c = insert i (bm_set b)"
    using assms True by (simp_all add: bm_wf_put bm_set_put)
  then have "bm_wf (bm_put ?c i False)" "bm_set (bm_put ?c i False) = bm_set b"
    using True bm_wf_put [OF wf] bm_set_put [OF wf] by auto
  then show ?thesis
    using True assms wf set bitmap_unmark_eq [OF wf assms(2)] by (simp add: bitmap_mark_eq bitmap_unmark_eq)
next
  case False
  have "bitmap_mark b (word_of_nat i) = Inl AssertFail"
    unfolding bitmap_mark_eq [OF assms] using False by (rule if_not_P)
  with False show ?thesis using bitmap_unmark_eq [OF assms] by (simp only: if_not_P if_False) simp
qed

theorem bitmap_mark_unmark_witness:
  "(\<exists>b'. bitmap_mark sample_bitmap (word_of_nat 1) = Inr b' \<and> bm_set b' = {1, 0, 2} \<and>
         (\<exists>b''. bitmap_unmark b' (word_of_nat 1) = Inr b'' \<and> bm_set b'' = {0, 2})) \<and>
   bitmap_unmark sample_bitmap (word_of_nat 1) = Inl AssertFail"
  using bitmap_mark_unmark [OF sample_bitmap_wf, of 1]
  unfolding sample_bitmap_nbits sample_bitmap_set by auto

text \<open>
  \<open>bitmap_equal\<close> decides equality of the sets two bitmaps represent, and
  \<open>bitmap_nr_allocated\<close> counts the set: what \<open>checkfs\<close> compares.
\<close>

theorem bitmap_equal_count:
  assumes "bm_wf a" "bm_wf b"
  shows "bitmap_equal a b =
      Inr (if bm_nbits a = bm_nbits b \<and> bm_set a = bm_set b then 1 else 0) \<and>
    bitmap_nr_allocated b = Inr (int (card (bm_set b)))"
proof
  have "bm_set b \<inter> {..< unat (bm_nbits b)} = bm_set b" by (auto simp: bm_set_def)
  then show "bitmap_nr_allocated b = Inr (int (card (bm_set b)))"
    using nr_allocated_prefix [OF assms(2), of "unat (bm_nbits b)" 0] by (simp add: bitmap_nr_allocated_def)
  show "bitmap_equal a b = Inr (if bm_nbits a = bm_nbits b \<and> bm_set a = bm_set b then 1 else 0)"
  proof (cases "bm_nbits a = bm_nbits b")
    case True
    then have len: "length (bm_v a) = length (bm_v b)" using assms by (simp add: bm_wf_def)
    have "bm_v a = bm_v b \<longleftrightarrow> bm_set a = bm_set b"
      using bitmap_eqI [OF assms True] True by (auto simp: bm_set_def bm_bit_def)
    then show ?thesis
      using True len bm_wf_words [OF assms(2)] equal_loop_spec [of a "length (bm_v b)" b 0]
      by (simp add: bitmap_equal_def)
  qed (simp add: bitmap_equal_def)
qed

theorem bitmap_equal_count_witness:
  "bitmap_equal sample_bitmap sample_bitmap = Inr 1 \<and>
   bitmap_nr_allocated sample_bitmap = Inr (int (card (bm_set sample_bitmap)))"
  using bitmap_equal_count [OF sample_bitmap_wf sample_bitmap_wf] by simp

end
