(* ===== verification/Layout.thy ===== *)
theory Layout
  imports Prelude
begin

text \<open>
  The on-disk formats of \<open>src/include/testfs.h\<close>, \<open>super.h\<close>, \<open>inode.h\<close> and \<open>dir.h\<close>: the sizes of
  the regions of the disk, the structures \<open>dsuper_block\<close>, \<open>dinode\<close> and the header of \<open>dirent\<close>, and
  their bytes as \<open>memcpy\<close> stores them (little-endian 4-byte fields in declaration order).

  The locale \<open>codec\<close> is the interface between a structure and the buffers that hold it: what a
  buffer gives back after the structure was copied into it, and that a copy elsewhere in the buffer
  does not disturb it.
\<close>

abbreviation (input) "BLOCK_SIZE \<equiv> 512"
abbreviation (input) "SUPER_BLOCK_SIZE \<equiv> 1"
abbreviation (input) "INODE_FREEMAP_SIZE \<equiv> 1"
abbreviation (input) "BLOCK_FREEMAP_SIZE \<equiv> 2"
abbreviation (input) "CSUM_TABLE_SIZE \<equiv> 60"
abbreviation (input) "NR_INODE_BLOCKS \<equiv> 128"
abbreviation (input) "NR_DIRECT_BLOCKS \<equiv> 4"
abbreviation (input) "NR_INDIRECT_BLOCKS \<equiv> 128"
abbreviation (input) "INODES_PER_BLOCK \<equiv> 16"
abbreviation (input) "MAX_NR_CSUMS \<equiv> 7680"

definition EINVAL :: int where "EINVAL = 22"
definition EFBIG :: int where "EFBIG = 27"
definition EEXIST :: int where "EEXIST = 17"
definition ENOENT :: int where "ENOENT = 2"
definition ENOTEMPTY :: int where "ENOTEMPTY = 39"
definition ENOTDIR :: int where "ENOTDIR = 20"
definition EISDIR :: int where "EISDIR = 21"

section \<open>Arrays of 32-bit words in memory\<close>

definition words_bytes :: "32 word list \<Rightarrow> byte list" where
  "words_bytes ws = concat (map le_bytes ws)"

definition bytes_words :: "nat \<Rightarrow> byte list \<Rightarrow> 32 word list" where
  "bytes_words n bs = map (word_at bs) [0 ..< n]"

lemma length_words_bytes [simp]: "length (words_bytes ws) = 4 * length ws"
  by (induction ws) (simp_all add: words_bytes_def)

lemma length_bytes_words [simp]: "length (bytes_words n bs) = n"
  by (simp add: bytes_words_def)

lemma word_at_Suc: "word_at bs (Suc i) = word_at (drop 4 bs) i"
  by (simp add: word_at_def seg_def add.commute)

lemma words_bytes_append: "words_bytes (xs @ ys) = words_bytes xs @ words_bytes ys"
  by (simp add: words_bytes_def)

lemma seg_words_bytes:
  "i < length ws \<Longrightarrow> seg (4 * i) 4 (words_bytes ws) = le_bytes (ws ! i)"
proof (induction ws arbitrary: i)
  case (Cons w ws)
  then show ?case by (cases i) (simp_all add: words_bytes_def seg_def)
qed simp

lemma word_at_words_bytes: "i < length ws \<Longrightarrow> word_at (words_bytes ws) i = ws ! i"
  by (simp add: word_at_def seg_words_bytes)

lemma bytes_words_words_bytes [simp]: "bytes_words (length ws) (words_bytes ws) = ws"
  by (rule nth_equalityI) (simp_all add: bytes_words_def word_at_words_bytes)

lemma words_bytes_bytes_words: "length bs = 4 * n \<Longrightarrow> words_bytes (bytes_words n bs) = bs"
proof (induction n arbitrary: bs)
  case 0
  then show ?case by (simp add: words_bytes_def bytes_words_def)
next
  case (Suc n)
  have "bytes_words (Suc n) bs = le_word (take 4 bs) # bytes_words n (drop 4 bs)"
    using word_at_Suc [of bs]
    by (simp add: bytes_words_def map_upt_Suc word_at_def seg_def del: upt_Suc)
  with Suc show ?case by (simp add: words_bytes_def le_bytes_word)
qed

lemma words_bytes_drop: "drop (4 * k) (words_bytes ws) = words_bytes (drop k ws)"
proof (induction ws arbitrary: k)
  case Nil
  then show ?case by (simp add: words_bytes_def)
next
  case (Cons w ws)
  then show ?case by (cases k) (simp_all add: words_bytes_def)
qed

lemma words_bytes_take: "take (4 * k) (words_bytes ws) = words_bytes (take k ws)"
proof (induction ws arbitrary: k)
  case Nil
  then show ?case by (simp add: words_bytes_def)
next
  case (Cons w ws)
  then show ?case by (cases k) (simp_all add: words_bytes_def)
qed

lemma word_at_set_int_at:
  assumes "4 * i + 4 \<le> length bs" "4 * j + 4 \<le> length bs"
  shows "word_at (set_int_at bs i x) j = (if i = j then word_of_int x else word_at bs j)"
proof (cases "i = j")
  case True
  have "seg (4 * i) (length (int_bytes x)) (blit (4 * i) (int_bytes x) bs) = int_bytes x"
    by (rule seg_blit_same) (use assms in simp)
  then show ?thesis using True by (simp add: word_at_def set_int_at_def int_bytes_def)
next
  case False
  then have "4 * j + 4 \<le> 4 * i \<or> 4 * i + length (int_bytes x) \<le> 4 * j" by auto
  then show ?thesis using False assms
    by (simp add: word_at_def set_int_at_def seg_blit_other)
qed

lemma int_at_set_int_at:
  assumes "4 * i + 4 \<le> length bs" "4 * j + 4 \<le> length bs" "in_int32 x"
  shows "int_at (set_int_at bs i x) j = (if i = j then x else int_at bs j)"
  using assms by (simp add: int_at_def word_at_set_int_at sint_of_int32)

lemma length_set_int_at [simp]: "4 * i + 4 \<le> length bs \<Longrightarrow> length (set_int_at bs i x) = length bs"
  by (simp add: set_int_at_def)

lemma word_at_replicate_0: "4 * j + 4 \<le> n \<Longrightarrow> word_at (replicate n 0) j = 0"
  by (simp add: word_at_def seg_def le_word_def)

lemma int_at_replicate_0: "4 * j + 4 \<le> n \<Longrightarrow> int_at (replicate n 0) j = 0"
  by (simp add: int_at_def word_at_replicate_0)

section \<open>Structures in buffers\<close>

locale codec =
  fixes enc :: "'a \<Rightarrow> byte list" and dec :: "byte list \<Rightarrow> 'a"
    and len :: nat and ok :: "'a \<Rightarrow> bool"
  assumes length_enc: "ok x \<Longrightarrow> length (enc x) = len"
    and dec_enc: "ok x \<Longrightarrow> dec (enc x) = x"
begin

lemma load_store_same:
  "ok x \<Longrightarrow> off + len \<le> length buf \<Longrightarrow> dec (seg off len (blit off (enc x) buf)) = x"
  using seg_blit_same [of off "enc x" buf] by (simp add: length_enc dec_enc)

lemma load_store_other:
  "ok x \<Longrightarrow> off + len \<le> length buf \<Longrightarrow> off' + len \<le> length buf \<Longrightarrow>
   off' + len \<le> off \<or> off + len \<le> off' \<Longrightarrow>
   dec (seg off' len (blit off (enc x) buf)) = dec (seg off' len buf)"
  by (simp add: seg_blit_other length_enc)

text \<open>A buffer as an array of structures: slot \<open>k\<close> starts at \<open>k * len\<close>.\<close>

lemma slot_store:
  assumes "ok x" "(k + 1) * len \<le> length buf" "(j + 1) * len \<le> length buf"
  shows "dec (seg (j * len) len (blit (k * len) (enc x) buf)) =
    (if j = k then x else dec (seg (j * len) len buf))"
proof (cases "j = k")
  case True
  then show ?thesis using assms load_store_same by (simp add: add.commute)
next
  case False
  then have "j + 1 \<le> k \<or> k + 1 \<le> j" by linarith
  then have "(j + 1) * len \<le> k * len \<or> (k + 1) * len \<le> j * len"
    using mult_le_mono1 by blast
  then have "j * len + len \<le> k * len \<or> k * len + len \<le> j * len"
    by (simp add: add.commute)
  moreover have "k * len + len \<le> length buf" "j * len + len \<le> length buf"
    using assms(2,3) by simp_all
  ultimately show ?thesis using False assms(1) load_store_other by simp
qed

lemma length_store: "ok x \<Longrightarrow> off + len \<le> length buf \<Longrightarrow> length (blit off (enc x) buf) = length buf"
  by (simp add: length_enc)

end

section \<open>The super block on disk\<close>

record dsuper_block =
  inode_freemap_start :: int
  block_freemap_start :: int
  csum_table_start :: int
  inode_blocks_start :: int
  data_blocks_start :: int
  modification_time :: int

definition dsuper_bytes :: "dsuper_block \<Rightarrow> byte list" where
  "dsuper_bytes d = words_bytes (map word_of_int
     [inode_freemap_start d, block_freemap_start d, csum_table_start d, inode_blocks_start d,
      data_blocks_start d, modification_time d])"

definition dsuper_of_bytes :: "byte list \<Rightarrow> dsuper_block" where
  "dsuper_of_bytes bs =
     \<lparr>inode_freemap_start = int_at bs 0, block_freemap_start = int_at bs 1,
      csum_table_start = int_at bs 2, inode_blocks_start = int_at bs 3,
      data_blocks_start = int_at bs 4, modification_time = int_at bs 5\<rparr>"

definition dsuper_ok :: "dsuper_block \<Rightarrow> bool" where
  "dsuper_ok d \<longleftrightarrow>
     in_int32 (inode_freemap_start d) \<and> in_int32 (block_freemap_start d) \<and>
     in_int32 (csum_table_start d) \<and> in_int32 (inode_blocks_start d) \<and>
     in_int32 (data_blocks_start d) \<and> in_int32 (modification_time d)"

interpretation dsuper: codec dsuper_bytes dsuper_of_bytes 24 dsuper_ok
  by unfold_locales
    (simp_all add: dsuper_bytes_def dsuper_of_bytes_def dsuper_ok_def int_at_def
      word_at_words_bytes sint_of_int32)

section \<open>The inode on disk\<close>

text \<open>
  \<open>inode_type\<close> is an enum stored in 4 bytes; a corrupt disk can hold other values, which the
  code reads as they are.
\<close>

datatype inode_type = I_NONE | I_FILE | I_DIR | I_INVALID "32 word"

definition type_code :: "inode_type \<Rightarrow> 32 word" where
  "type_code t = (case t of I_NONE \<Rightarrow> 0 | I_FILE \<Rightarrow> 1 | I_DIR \<Rightarrow> 2 | I_INVALID w \<Rightarrow> w)"

definition type_of_code :: "32 word \<Rightarrow> inode_type" where
  "type_of_code w =
     (if w = 0 then I_NONE else if w = 1 then I_FILE else if w = 2 then I_DIR else I_INVALID w)"

lemma type_code_inverse: "type_code (type_of_code w) = w"
  by (simp add: type_code_def type_of_code_def)

lemma type_of_code_inverse:
  "(\<forall>w. t \<noteq> I_INVALID w) \<Longrightarrow> type_of_code (type_code t) = t"
  by (cases t) (simp_all add: type_code_def type_of_code_def)

record dinode =
  i_type :: inode_type
  i_size :: int
  i_mod_time :: int
  i_block_nr :: "int list"
  i_indirect :: int

definition dinode_bytes :: "dinode \<Rightarrow> byte list" where
  "dinode_bytes d = words_bytes
     ([type_code (i_type d), word_of_int (i_size d), word_of_int (i_mod_time d)]
      @ map word_of_int (i_block_nr d) @ [word_of_int (i_indirect d)])"

definition dinode_of_bytes :: "byte list \<Rightarrow> dinode" where
  "dinode_of_bytes bs =
     \<lparr>i_type = type_of_code (word_at bs 0), i_size = int_at bs 1, i_mod_time = int_at bs 2,
      i_block_nr = map (int_at bs) [3 ..< 7], i_indirect = int_at bs 7\<rparr>"

text \<open>\<open>bzero(&in->in, sizeof(struct dinode))\<close>.\<close>

definition zero_dinode :: dinode where
  "zero_dinode = \<lparr>i_type = I_NONE, i_size = 0, i_mod_time = 0, i_block_nr = [0, 0, 0, 0],
                  i_indirect = 0\<rparr>"

definition dinode_ok :: "dinode \<Rightarrow> bool" where
  "dinode_ok d \<longleftrightarrow>
     (\<forall>w. i_type d = I_INVALID w \<longrightarrow> w \<notin> {0, 1, 2}) \<and> in_int32 (i_size d) \<and> in_int32 (i_mod_time d) \<and>
     length (i_block_nr d) = 4 \<and> (\<forall>b \<in> set (i_block_nr d). in_int32 b) \<and> in_int32 (i_indirect d)"

lemma list_4: "length xs = 4 \<longleftrightarrow> (\<exists>a b c d. xs = [a, b, c, d])"
  by (auto simp: numeral_eq_Suc length_Suc_conv)

lemma type_of_code_ok: "(\<forall>w. t = I_INVALID w \<longrightarrow> w \<notin> {0, 1, 2}) \<Longrightarrow> type_of_code (type_code t) = t"
  by (cases t) (auto simp: type_code_def type_of_code_def)

interpretation dinode: codec dinode_bytes dinode_of_bytes 32 dinode_ok
proof unfold_locales
  fix x assume "dinode_ok x"
  then show "length (dinode_bytes x) = 32"
    by (simp add: dinode_bytes_def dinode_ok_def)
next
  fix x assume ok: "dinode_ok x"
  then obtain a b c d where bl: "i_block_nr x = [a, b, c, d]"
    by (auto simp: dinode_ok_def list_4)
  have "[3 ..< 7 :: nat] = [3, 4, 5, 6]" by (simp add: upt_rec)
  then show "dinode_of_bytes (dinode_bytes x) = x"
    using ok bl by (simp add: dinode_bytes_def dinode_of_bytes_def dinode_ok_def int_at_def
        word_at_words_bytes sint_of_int32 type_of_code_ok)
qed

lemma dinode_ok_of_bytes: "dinode_ok (dinode_of_bytes bs)"
  by (auto simp: dinode_ok_def dinode_of_bytes_def int_at_def in_int32_sint type_of_code_def
      split: if_splits)

lemma dinode_ok_zero: "dinode_ok zero_dinode"
  by (simp add: dinode_ok_def zero_dinode_def in_int32_def)

end
