(* ===== verification/Double.thy ===== *)
theory Double
  imports Prelude
begin

text \<open>
  The \<open>double\<close> arithmetic of the benchmarks: IEEE 754 binary64 with rounding to nearest, ties to even.  A finite
  value is \<open>m * 2 ^ e\<close> with a mantissa of at most 53 bits; division by zero gives \<open>NotFinite\<close>.  The exponent is not
  bounded: the benchmarks stay far from overflow and from subnormal numbers.

  The lemma \<open>round_exact\<close> says that an integer result below \<open>2 ^ 53\<close> is exact.
\<close>

datatype double = Double int int | NotFinite

fun nbits :: "nat \<Rightarrow> nat" where
  "nbits n = (if n = 0 then 0 else Suc (nbits (n div 2)))"

declare nbits.simps [simp del]

text \<open>\<open>n / d\<close> rounded to an integer, for \<open>d > 0\<close>.\<close>

definition half_even :: "int \<Rightarrow> int \<Rightarrow> int" where
  "half_even n d =
     (let q = n div d; r = n mod d
      in if 2 * r < d \<or> 2 * r = d \<and> even q then q else q + 1)"

text \<open>The exponent that leaves a quotient of 53 bits.\<close>

definition scale_up :: "int \<Rightarrow> int \<Rightarrow> int" where "scale_up n e = n * 2 ^ nat e"

definition quotient_exponent :: "int \<Rightarrow> int \<Rightarrow> int" where
  "quotient_exponent n d =
     (let e = int (nbits (nat \<bar>n\<bar>)) - int (nbits (nat d)) - 53
      in if scale_up d (e + 53) \<le> scale_up \<bar>n\<bar> (- (e + 53)) then e + 1 else e)"

definition round_double :: "int \<Rightarrow> int \<Rightarrow> double" where
  "round_double n d =
     (if n = 0 then Double 0 0
      else let e = quotient_exponent n d in Double (half_even (scale_up n (- e)) (scale_up d e)) e)"

definition d_of_int :: "int \<Rightarrow> double" where "d_of_int i = round_double i 1"

fun d_mul :: "double \<Rightarrow> double \<Rightarrow> double" where
  "d_mul (Double a x) (Double b y) = round_double (scale_up (a * b) (x + y)) (scale_up 1 (- (x + y)))"
| "d_mul _ _ = NotFinite"

fun d_add :: "double \<Rightarrow> double \<Rightarrow> double" where
  "d_add (Double a x) (Double b y) =
     (let z = min x y
      in round_double (scale_up (scale_up a (x - z) + scale_up b (y - z)) z) (scale_up 1 (- z)))"
| "d_add _ _ = NotFinite"

fun d_div :: "double \<Rightarrow> double \<Rightarrow> double" where
  "d_div (Double a x) (Double b y) =
     (if b = 0 then NotFinite
      else round_double (scale_up (a * sgn b) (x - y)) (scale_up \<bar>b\<bar> (y - x)))"
| "d_div _ _ = NotFinite"

text \<open>Conversion to an integer truncates; of a value that is not finite it is undefined.\<close>

fun int_of_double :: "double \<Rightarrow> int res" where
  "int_of_double (Double m e) = Inr (if 0 \<le> e then scale_up m e else m sdiv 2 ^ nat (- e))"
| "int_of_double NotFinite = Inl Indeterminate"

section \<open>Exact integers\<close>

fun denotes :: "double \<Rightarrow> int \<Rightarrow> bool" where
  "denotes (Double m e) v \<longleftrightarrow> scale_up m e = scale_up v (- e)"
| "denotes NotFinite v \<longleftrightarrow> False"

lemma nbits_le: "n < 2 ^ k \<Longrightarrow> nbits n \<le> k"
proof (induction k arbitrary: n)
  case (Suc k)
  then have "n div 2 < 2 ^ k" by (simp add: less_mult_imp_div_less)
  then show ?case using Suc.IH [of "n div 2"] by (subst nbits.simps) simp
qed (simp add: nbits.simps)

lemma nbits_bounds: "0 < n \<Longrightarrow> 2 ^ (nbits n - 1) \<le> n \<and> n < 2 ^ nbits n"
proof (induction n rule: nbits.induct)
  case (1 n)
  show ?case
  proof (cases "n div 2 = 0")
    case True
    then have "n = 1" using 1(2) by linarith
    then show ?thesis by (simp add: nbits.simps)
  next
    case False
    then have "2 ^ (nbits (n div 2) - 1) \<le> n div 2 \<and> n div 2 < 2 ^ nbits (n div 2)" using 1 by simp
    moreover have n: "nbits n = Suc (nbits (n div 2))" using 1(2) by (simp add: nbits.simps [of n])
    moreover have "0 < nbits (n div 2)" using False by (subst nbits.simps) simp
    then obtain j where j: "nbits (n div 2) = Suc j" by (cases "nbits (n div 2)") simp_all
    ultimately have "2 ^ j \<le> n div 2" "n div 2 < 2 * 2 ^ j" by simp_all
    then have "2 * 2 ^ j \<le> n" "n < 2 * (2 * 2 ^ j)" by linarith+
    then show ?thesis using n j by simp
  qed
qed

lemma nbits_mult: "0 < a \<Longrightarrow> 0 < b \<Longrightarrow> a < 2 ^ k \<Longrightarrow> nbits (a * b) \<le> k + nbits b"
  by (rule nbits_le) (use nbits_bounds [of b] mult_strict_mono [of a "2 ^ k" b "2 ^ nbits b"] in \<open>simp add: power_add\<close>)

lemma half_even_exact: "0 < d \<Longrightarrow> half_even (q * d) d = q"
  by (simp add: half_even_def)

lemma round_exact:
  assumes "0 < d" "\<bar>v\<bar> < 2 ^ 53"
  shows "denotes (round_double (v * d) d) v"
proof (cases "v = 0")
  case False
  let ?n = "v * d" and ?e0 = "int (nbits (nat \<bar>v * d\<bar>)) - int (nbits (nat d)) - 53"
  have a: "nat \<bar>v * d\<bar> = nat \<bar>v\<bar> * nat d" using assms(1) by (simp add: abs_mult nat_mult_distrib)
  have "nbits (nat \<bar>v * d\<bar>) \<le> 53 + nbits (nat d)"
    unfolding a by (rule nbits_mult) (use False assms in \<open>simp_all add: nat_less_iff\<close>)
  then have e0: "?e0 \<le> 0" by linarith
  have "quotient_exponent ?n d \<le> 0"
  proof (cases "?e0 = 0")
    case True
    have "\<bar>?n\<bar> < d * 2 ^ 53" using assms by (simp add: abs_mult mult.commute)
    then show ?thesis using True by (simp add: quotient_exponent_def Let_def scale_up_def)
  qed (use e0 in \<open>simp add: quotient_exponent_def Let_def\<close>)
  then obtain k where k: "quotient_exponent ?n d = - int k" by (metis nonneg_int_cases minus_minus neg_0_le_iff_le)
  have "half_even (scale_up ?n (int k)) (scale_up d (- int k)) = v * 2 ^ k"
    using half_even_exact [OF assms(1), of "v * 2 ^ k"] by (simp add: scale_up_def mult.assoc mult.commute [of d])
  then show ?thesis using False assms(1) k by (simp add: round_double_def Let_def scale_up_def)
qed (simp add: round_double_def scale_up_def)

lemma denotes_iff:
  assumes "- x \<le> int k"
  shows "denotes (Double a x) u \<longleftrightarrow> a * 2 ^ nat (int k + x) = u * 2 ^ k"
proof (cases "0 \<le> x")
  case True
  then obtain p where x: "x = int p" by (metis nonneg_int_cases)
  have "nat (int k + x) = p + k" using x by simp
  then show ?thesis unfolding x by (simp add: scale_up_def power_add)
next
  case False
  then obtain p where x: "x = - int p" by (metis nonneg_int_cases minus_minus neg_0_le_iff_le linear)
  then obtain q where k: "k = p + q" using assms by (metis le_Suc_ex minus_minus of_nat_le_iff)
  have "nat (int k + x) = q" using x k by simp
  then show ?thesis unfolding x k by (simp add: scale_up_def power_add mult.assoc)
qed

text \<open>A rounded quotient of this form is exact when the value is an integer of at most 53 bits.\<close>

lemma round_denotes:
  assumes "denotes (Double m e) v" "\<bar>v\<bar> < 2 ^ 53"
  shows "denotes (round_double (scale_up m e) (scale_up 1 (- e))) v"
  using assms round_exact [of "scale_up 1 (- e)" v] by (simp add: scale_up_def)

lemma denotes_of_int: "\<bar>i\<bar> < 2 ^ 53 \<Longrightarrow> denotes (d_of_int i) i"
  using round_exact [of 1 i] by (simp add: d_of_int_def)

lemma denotes_mul:
  assumes "denotes D u" "denotes E v" "\<bar>u * v\<bar> < 2 ^ 53"
  shows "denotes (d_mul D E) (u * v)"
proof -
  obtain a x b y where D: "D = Double a x" and E: "E = Double b y" using assms(1,2) by (cases D; cases E) auto
  define k where "k = nat \<bar>x\<bar>"
  define l where "l = nat \<bar>y\<bar>"
  have u: "a * 2 ^ nat (int k + x) = u * 2 ^ k" and v: "b * 2 ^ nat (int l + y) = v * 2 ^ l"
    using assms(1,2) denotes_iff [of x k a u] denotes_iff [of y l b v] by (simp_all add: D E k_def l_def)
  have "nat (int (k + l) + (x + y)) = nat (int k + x) + nat (int l + y)" by (simp add: k_def l_def)
  then have "(a * b) * 2 ^ nat (int (k + l) + (x + y)) = (a * 2 ^ nat (int k + x)) * (b * 2 ^ nat (int l + y))"
    by (simp add: power_add)
  also have "\<dots> = (u * v) * 2 ^ (k + l)" unfolding u v by (simp add: power_add)
  finally have "denotes (Double (a * b) (x + y)) (u * v)"
    by (subst denotes_iff [of _ "k + l"]) (simp_all add: k_def l_def)
  from round_denotes [OF this assms(3)] show ?thesis by (simp only: D E d_mul.simps)
qed

lemma denotes_add:
  assumes "denotes D u" "denotes E v" "\<bar>u + v\<bar> < 2 ^ 53"
  shows "denotes (d_add D E) (u + v)"
proof -
  obtain a x b y where D: "D = Double a x" and E: "E = Double b y" using assms(1,2) by (cases D; cases E) auto
  define k where "k = nat (\<bar>x\<bar> + \<bar>y\<bar>)"
  define z where "z = min x y"
  have kz: "- z \<le> int k" by (auto simp: k_def z_def)
  have u: "a * 2 ^ nat (int k + x) = u * 2 ^ k" and v: "b * 2 ^ nat (int k + y) = v * 2 ^ k"
    using assms(1,2) denotes_iff [of x k a u] denotes_iff [of y k b v] by (simp_all add: D E k_def)
  let ?m = "scale_up a (x - z) + scale_up b (y - z)"
  have "nat (x - z) + nat (int k + z) = nat (int k + x)" "nat (y - z) + nat (int k + z) = nat (int k + y)"
    by (auto simp: k_def z_def)
  then have "?m * 2 ^ nat (int k + z) = a * 2 ^ nat (int k + x) + b * 2 ^ nat (int k + y)"
    by (simp add: scale_up_def distrib_right mult.assoc flip: power_add)
  also have "\<dots> = (u + v) * 2 ^ k" unfolding u v by (simp add: distrib_right)
  finally have "denotes (Double ?m z) (u + v)"
    using denotes_iff [of z k ?m "u + v"] kz by blast
  from round_denotes [OF this assms(3)] show ?thesis by (simp only: D E z_def d_add.simps Let_def)
qed

lemma int_of_denotes:
  assumes "denotes D v"
  shows "int_of_double D = Inr v"
proof -
  obtain m e where D: "D = Double m e" using assms by (cases D) auto
  show ?thesis
  proof (cases "0 \<le> e")
    case False
    then have m: "m = v * 2 ^ nat (- e)" using assms by (simp add: D scale_up_def)
    have "v * 2 ^ n sdiv 2 ^ n = v" for n :: nat
    proof -
      have "sgn (v * 2 ^ n) = sgn v" by (simp add: sgn_mult)
      then show ?thesis by (simp add: signed_divide_int_def abs_mult sgn_mult_abs)
    qed
    then show ?thesis using False m by (simp add: D)
  qed (use assms in \<open>simp add: D scale_up_def\<close>)
qed

end
