(* ===== verification/FsState.thy ===== *)
theory FsState
  imports Bitmap Layout Double
begin

text \<open>
  The state of the mounted file system: \<open>struct super_block\<close> (\<open>src/include/super.h\<close>) and the
  device handle of \<open>struct filesystem\<close> (\<open>src/include/device.h\<close>), and the transactions of
  \<open>src/tx.c\<close>.

  The block device itself is SPDK's, which is not part of the repository.  It is a parameter: the
  record \<open>bdev\<close> holds what \<open>spdk_bdev_read_blocks\<close> and \<open>spdk_bdev_write_blocks\<close> do to a device
  state of any type \<open>'d\<close>, and whether a request is accepted (an accepted request is completed and
  its callback runs; the code ignores the error code of a rejected one).  Theorems about disk
  contents assume \<open>bdev_ok N\<close>, the contract of a block device of \<open>N\<close> blocks of 512 bytes.
\<close>

record 'd bdev =
  bdev_accepts :: "'d \<Rightarrow> nat \<Rightarrow> nat \<Rightarrow> bool"
  bdev_read :: "'d \<Rightarrow> nat \<Rightarrow> nat \<Rightarrow> byte list"
  bdev_write :: "'d \<Rightarrow> nat \<Rightarrow> nat \<Rightarrow> byte list \<Rightarrow> 'd"

definition bdev_ok :: "nat \<Rightarrow> 'd bdev \<Rightarrow> bool" where
  "bdev_ok N b \<longleftrightarrow>
     (\<forall>d start n. 0 < n \<and> start + n \<le> N \<longrightarrow>
        bdev_accepts b d start n \<and>
        length (bdev_read b d start n) = n * BLOCK_SIZE \<and>
        (\<forall>i < n. seg (BLOCK_SIZE * i) BLOCK_SIZE (bdev_read b d start n) =
                 bdev_read b d (start + i) 1) \<and>
        (\<forall>buf j. length buf = n * BLOCK_SIZE \<and> j < N \<longrightarrow>
           bdev_read b (bdev_write b d start n buf) j 1 =
             (if start \<le> j \<and> j < start + n then seg (BLOCK_SIZE * (j - start)) BLOCK_SIZE buf
              else bdev_read b d j 1)))"

section \<open>Super block\<close>

datatype tx_type = TX_NONE | TX_WRITE | TX_CREATE | TX_RM | TX_UMOUNT

text \<open>
  The pointers of \<open>super_block\<close> that can be NULL are options; \<open>csum_table\<close> is the array of
  \<open>int\<close> checksums.
\<close>

record super_block =
  sb_dsb :: dsuper_block
  inode_freemap :: "bitmap option"
  block_freemap :: "bitmap option"
  tx_in_progress :: tx_type
  csum_table :: "32 word list option"
  csum_block_dirty :: "bool list"

text \<open>What the program prints, one constructor per \<open>printf\<close> of the modelled code.\<close>

datatype message =
    ChecksumErrorAtBlock int
  | InodeFreemapNotConsistent
  | BlockFreemapNotConsistent
  | NrAllocatedInodes int
  | NrAllocatedBlocks int
  | LsEntry "byte list" bool
  | StatEntry "byte list" int inode_type int
  | PwdRoot
  | PwdEntry bool "byte list"
  | PwdEnd
  | FileContents "byte list"
  | CatrHeader "byte list"
  | SizeIs int
  | CommandEcho "byte list"
  | CommandNotFound "byte list"
  | FsDoesNotExist "byte list"
  | Warning "byte list" int
  | HelpHeader
  | HelpEntry "byte list"
  | Bye
  | DigestReport "byte list" int double "int \<times> int \<times> double" "int \<times> int \<times> double"
  | UnknownBenchmark "byte list"
  | CannotOpenFile "byte list"
  | RunningExperiment "byte list"
  | PerfReport int double

record 'd fsys =
  fs_bdev :: "'d bdev"
  fs_media :: 'd
  fs_sb :: super_block
  fs_out :: "message list"

definition printf :: "message \<Rightarrow> 'd fsys \<Rightarrow> 'd fsys" where
  "printf m s = s\<lparr>fs_out := fs_out s @ [m]\<rparr>"

definition upd_sb :: "(super_block \<Rightarrow> super_block) \<Rightarrow> 'd fsys \<Rightarrow> 'd fsys" where
  "upd_sb f s = s\<lparr>fs_sb := f (fs_sb s)\<rparr>"

lemma upd_sb_simps [simp]:
  "fs_bdev (upd_sb f s) = fs_bdev s" "fs_media (upd_sb f s) = fs_media s"
  "fs_sb (upd_sb f s) = f (fs_sb s)" "fs_out (upd_sb f s) = fs_out s"
  by (simp_all add: upd_sb_def)

lemma printf_simps [simp]:
  "fs_bdev (printf m s) = fs_bdev s" "fs_media (printf m s) = fs_media s"
  "fs_sb (printf m s) = fs_sb s" "fs_out (printf m s) = fs_out s @ [m]"
  by (simp_all add: printf_def)

abbreviation "dsb s \<equiv> sb_dsb (fs_sb s)"

section \<open>Transactions\<close>

definition testfs_tx_start :: "tx_type \<Rightarrow> 'd fsys \<Rightarrow> 'd fsys res" where
  "testfs_tx_start type s =
     bind_r (assert_r (tx_in_progress (fs_sb s) = TX_NONE)) (\<lambda>_.
       Inr (upd_sb (\<lambda>sb. sb\<lparr>tx_in_progress := type\<rparr>) s))"

definition testfs_tx_commit :: "tx_type \<Rightarrow> 'd fsys \<Rightarrow> 'd fsys res" where
  "testfs_tx_commit type s =
     bind_r (assert_r (tx_in_progress (fs_sb s) = type)) (\<lambda>_.
       Inr (upd_sb (\<lambda>sb. sb\<lparr>tx_in_progress := TX_NONE\<rparr>) s))"

text \<open>Transactions do not nest, and a commit ends the transaction it names.\<close>

lemma tx_start_eq:
  "testfs_tx_start t s =
     (if tx_in_progress (fs_sb s) = TX_NONE
      then Inr (upd_sb (\<lambda>sb. sb\<lparr>tx_in_progress := t\<rparr>) s) else Inl AssertFail)"
  by (simp add: testfs_tx_start_def assert_r_def)

lemma tx_commit_eq:
  "testfs_tx_commit t s =
     (if tx_in_progress (fs_sb s) = t
      then Inr (upd_sb (\<lambda>sb. sb\<lparr>tx_in_progress := TX_NONE\<rparr>) s) else Inl AssertFail)"
  by (simp add: testfs_tx_commit_def assert_r_def)

end
