(* ===== verification/Block.thy ===== *)
theory Block
  imports FsState
begin

text \<open>
  \<open>src/async.c\<close> and the block layer of \<open>src/block.c\<close>.  A request is prepared on the calling thread
  (\<open>fill_request_common\<close>, the copy of the data, \<open>expected_counts\<close>), runs on a reactor
  (\<open>reactor_read\<close>, \<open>reactor_write\<close>) and its completion callback counts it in the future.  A
  synchronous call is a request on the data reactor followed by \<open>spin_wait\<close>: if the device rejects
  the request no callback runs and the wait never ends (\<open>Hang\<close>).

  The locale \<open>block_store\<close> is the interface the rest of the file system uses: single-block reads and
  writes with the laws of a block store.  It is interpreted by \<open>read_blocks\<close> and \<open>write_blocks\<close>
  on the model's own state.
\<close>

abbreviation (input) "NUM_REACTORS \<equiv> (3 :: nat)"
abbreviation (input) "MAIN_REACTOR \<equiv> (0 :: nat)"
abbreviation (input) "METADATA_REACTOR \<equiv> (1 :: nat)"
abbreviation (input) "DATA_REACTOR \<equiv> (2 :: nat)"

section \<open>Futures\<close>

record future =
  counts :: "nat list"
  expected_counts :: "nat list"

definition future_init :: future where
  "future_init = \<lparr>counts = replicate NUM_REACTORS 0, expected_counts = replicate NUM_REACTORS 0\<rparr>"

definition future_ready :: "future \<Rightarrow> bool" where
  "future_ready f \<longleftrightarrow> (\<forall>i \<in> set [0 ..< NUM_REACTORS]. counts f ! i = expected_counts f ! i)"

text \<open>\<open>spin_wait\<close> when no request is in flight any more: it returns or spins for ever.\<close>

definition spin_wait :: "future \<Rightarrow> unit res" where
  "spin_wait f = check_r Hang (future_ready f)"

definition count_expected :: "nat \<Rightarrow> future \<Rightarrow> future" where
  "count_expected r f = f\<lparr>expected_counts := (expected_counts f)[r := expected_counts f ! r + 1]\<rparr>"

definition count_completed :: "nat \<Rightarrow> future \<Rightarrow> future" where
  "count_completed r f = f\<lparr>counts := (counts f)[r := counts f ! r + 1]\<rparr>"

section \<open>Requests\<close>

record rw_request =
  rq_buf :: "byte list"
  rq_start :: nat
  rq_nr :: nat
  rq_reactor_id :: nat

definition fill_request_common :: "nat \<Rightarrow> int \<Rightarrow> int \<Rightarrow> rw_request" where
  "fill_request_common reactor_id start nr =
     \<lparr>rq_buf = replicate (size_of_int nr * BLOCK_SIZE) 0, rq_start = size_of_int start,
      rq_nr = size_of_int nr, rq_reactor_id = reactor_id\<rparr>"

text \<open>
  The asynchronous calls return the request they hand to the reactor, and the future that now
  expects its completion.
\<close>

definition read_blocks_async :: "nat \<Rightarrow> future \<Rightarrow> int \<Rightarrow> int \<Rightarrow> rw_request \<times> future" where
  "read_blocks_async reactor_id f start nr =
     (fill_request_common reactor_id start nr, count_expected reactor_id f)"

definition write_blocks_async ::
    "nat \<Rightarrow> future \<Rightarrow> byte list \<Rightarrow> int \<Rightarrow> int \<Rightarrow> (rw_request \<times> future) res" where
  "write_blocks_async reactor_id f blocks start nr =
     (let request = fill_request_common reactor_id start nr
      in bind_r (c_memcpy (rq_buf request) 0 blocks 0 (nr * BLOCK_SIZE)) (\<lambda>buf.
           Inr (request\<lparr>rq_buf := buf\<rparr>, count_expected reactor_id f)))"

text \<open>
  The reactor side: submit to the device; on completion the callback copies the data to the
  caller's buffer (reads) and counts the request.
\<close>

definition reactor_read :: "rw_request \<Rightarrow> 'd fsys \<Rightarrow> byte list \<Rightarrow> future \<Rightarrow> byte list \<times> future" where
  "reactor_read req s destination f =
     (if bdev_accepts (fs_bdev s) (fs_media s) (rq_start req) (rq_nr req)
      then (bdev_read (fs_bdev s) (fs_media s) (rq_start req) (rq_nr req),
            count_completed (rq_reactor_id req) f)
      else (destination, f))"

definition reactor_write :: "rw_request \<Rightarrow> 'd fsys \<Rightarrow> future \<Rightarrow> 'd fsys \<times> future" where
  "reactor_write req s f =
     (if bdev_accepts (fs_bdev s) (fs_media s) (rq_start req) (rq_nr req)
      then (s\<lparr>fs_media := bdev_write (fs_bdev s) (fs_media s) (rq_start req) (rq_nr req) (rq_buf req)\<rparr>,
            count_completed (rq_reactor_id req) f)
      else (s, f))"

text \<open>
  The synchronous calls.  \<open>read_blocks\<close> returns the \<open>nr * BLOCK_SIZE\<close> bytes it stores in the
  caller's buffer.
\<close>

definition read_blocks :: "'d fsys \<Rightarrow> int \<Rightarrow> int \<Rightarrow> byte list res" where
  "read_blocks s start nr =
     (case read_blocks_async DATA_REACTOR future_init start nr of (req, f) \<Rightarrow>
      case reactor_read req s [] f of (blocks, f') \<Rightarrow>
        bind_r (spin_wait f') (\<lambda>_. Inr blocks))"

definition write_blocks :: "byte list \<Rightarrow> int \<Rightarrow> int \<Rightarrow> 'd fsys \<Rightarrow> 'd fsys res" where
  "write_blocks blocks start nr s =
     bind_r (write_blocks_async DATA_REACTOR future_init blocks start nr) (\<lambda>(req, f).
       case reactor_write req s f of (s', f') \<Rightarrow>
         bind_r (spin_wait f') (\<lambda>_. Inr s'))"

definition zero_blocks :: "int \<Rightarrow> int \<Rightarrow> 'd fsys \<Rightarrow> 'd fsys res" where
  "zero_blocks start nr s =
     fold_r (\<lambda>i. write_blocks (replicate BLOCK_SIZE 0) (start + int i) 1) [0 ..< nat nr] s"

section \<open>The synchronous calls, evaluated\<close>

lemma sync_future_ready:
  "future_ready (count_completed DATA_REACTOR (count_expected DATA_REACTOR future_init))"
  "\<not> future_ready (count_expected DATA_REACTOR future_init)"
  by (auto simp: future_ready_def count_completed_def count_expected_def future_init_def
      numeral_eq_Suc nth_Cons')

lemma read_blocks_eq:
  assumes "0 \<le> start" "start < 2 ^ 31" "0 < nr" "nr < 2 ^ 31"
  shows "read_blocks s start nr =
    (if bdev_accepts (fs_bdev s) (fs_media s) (nat start) (nat nr)
     then Inr (bdev_read (fs_bdev s) (fs_media s) (nat start) (nat nr)) else Inl Hang)"
  using assms sync_future_ready
  by (simp add: read_blocks_def read_blocks_async_def reactor_read_def fill_request_common_def
      spin_wait_def)

lemma write_blocks_eq:
  assumes "0 \<le> start" "start < 2 ^ 31" "0 < nr" "nr < 2 ^ 31" "nat nr * BLOCK_SIZE \<le> length b"
  shows "write_blocks b start nr s =
    (if bdev_accepts (fs_bdev s) (fs_media s) (nat start) (nat nr)
     then Inr (s\<lparr>fs_media := bdev_write (fs_bdev s) (fs_media s) (nat start) (nat nr)
                               (take (nat nr * BLOCK_SIZE) b)\<rparr>)
     else Inl Hang)"
proof -
  have "c_memcpy (replicate (nat nr * BLOCK_SIZE) (0 :: byte)) 0 b 0 (nr * BLOCK_SIZE) =
      Inr (take (nat nr * BLOCK_SIZE) b)"
    using assms c_memcpy_ok [of "replicate (nat nr * BLOCK_SIZE) 0" 0 b 0 "nat nr * BLOCK_SIZE"]
    by (simp add: blit_def seg_def)
  then show ?thesis using assms sync_future_ready
    by (simp add: write_blocks_def write_blocks_async_def reactor_write_def
        fill_request_common_def spin_wait_def)
qed

text \<open>The content of block \<open>i\<close>, and the effect of one single-block write.\<close>

definition dblk :: "'d fsys \<Rightarrow> nat \<Rightarrow> byte list" where
  "dblk s i = bdev_read (fs_bdev s) (fs_media s) i 1"

definition put_blk :: "byte list \<Rightarrow> nat \<Rightarrow> 'd fsys \<Rightarrow> 'd fsys" where
  "put_blk b i s = s\<lparr>fs_media := bdev_write (fs_bdev s) (fs_media s) i 1 (take BLOCK_SIZE b)\<rparr>"

lemma put_blk_simps [simp]:
  "fs_bdev (put_blk b i s) = fs_bdev s" "fs_sb (put_blk b i s) = fs_sb s"
  "fs_out (put_blk b i s) = fs_out s"
  by (simp_all add: put_blk_def)

lemma dblk_upd_sb [simp]: "dblk (upd_sb f s) = dblk s"
  by (simp add: dblk_def fun_eq_iff)

lemma dblk_printf [simp]: "dblk (printf m s) = dblk s"
  by (simp add: dblk_def fun_eq_iff)

text \<open>The device of the state is a block device of at least \<open>N\<close> blocks.\<close>

definition dev_ok :: "nat \<Rightarrow> 'd fsys \<Rightarrow> bool" where
  "dev_ok N s \<longleftrightarrow> bdev_ok N (fs_bdev s) \<and> N < 2 ^ 31"

lemma dev_ok_frame [simp]:
  "dev_ok N (put_blk b i s) = dev_ok N s" "dev_ok N (upd_sb f s) = dev_ok N s"
  "dev_ok N (printf m s) = dev_ok N s"
  by (simp_all add: dev_ok_def)

lemma length_dblk: "dev_ok N s \<Longrightarrow> i < N \<Longrightarrow> length (dblk s i) = BLOCK_SIZE"
  unfolding dev_ok_def bdev_ok_def dblk_def
  by (drule conjunct1, drule spec [of _ "fs_media s"], drule spec [of _ i], drule spec [of _ 1]) simp

lemma dblk_put_blk:
  assumes "dev_ok N s" "i < N" "j < N" "BLOCK_SIZE \<le> length b"
  shows "dblk (put_blk b i s) j = (if j = i then take BLOCK_SIZE b else dblk s j)"
proof -
  have "\<forall>buf j. length buf = 1 * BLOCK_SIZE \<and> j < N \<longrightarrow>
      bdev_read (fs_bdev s) (bdev_write (fs_bdev s) (fs_media s) i 1 buf) j 1 =
        (if i \<le> j \<and> j < i + 1 then seg (BLOCK_SIZE * (j - i)) BLOCK_SIZE buf
         else bdev_read (fs_bdev s) (fs_media s) j 1)"
    using assms(1,2) unfolding dev_ok_def bdev_ok_def
    by (drule_tac conjunct1, drule_tac spec [of _ "fs_media s"], drule_tac spec [of _ i],
        drule_tac spec [of _ 1]) simp
  then show ?thesis using assms(3,4) by (auto simp: dblk_def put_blk_def)
qed

lemma read_block:
  "dev_ok N s \<Longrightarrow> 0 \<le> a \<Longrightarrow> a < int N \<Longrightarrow> read_blocks s a 1 = Inr (dblk s (nat a))"
  by (auto simp: read_blocks_eq dev_ok_def bdev_ok_def dblk_def)

lemma write_block:
  "dev_ok N s \<Longrightarrow> 0 \<le> a \<Longrightarrow> a < int N \<Longrightarrow> BLOCK_SIZE \<le> length b \<Longrightarrow>
   write_blocks b a 1 s = Inr (put_blk b (nat a) s)"
  by (auto simp: write_blocks_eq dev_ok_def bdev_ok_def put_blk_def)

section \<open>Several blocks at once\<close>

definition put_blks :: "byte list \<Rightarrow> nat \<Rightarrow> nat \<Rightarrow> 'd fsys \<Rightarrow> 'd fsys" where
  "put_blks b i n s =
     s\<lparr>fs_media := bdev_write (fs_bdev s) (fs_media s) i n (take (n * BLOCK_SIZE) b)\<rparr>"

lemma put_blks_simps [simp]:
  "fs_bdev (put_blks b i n s) = fs_bdev s" "fs_sb (put_blks b i n s) = fs_sb s"
  "fs_out (put_blks b i n s) = fs_out s" "dev_ok N (put_blks b i n s) = dev_ok N s"
  by (simp_all add: put_blks_def dev_ok_def)

lemma dev_okD:
  assumes "dev_ok N s" "0 < n" "start + n \<le> N"
  shows "bdev_accepts (fs_bdev s) d start n"
    and "length (bdev_read (fs_bdev s) d start n) = n * BLOCK_SIZE"
    and "i < n \<Longrightarrow> seg (BLOCK_SIZE * i) BLOCK_SIZE (bdev_read (fs_bdev s) d start n) =
           bdev_read (fs_bdev s) d (start + i) 1"
    and "length buf = n * BLOCK_SIZE \<Longrightarrow> j < N \<Longrightarrow>
         bdev_read (fs_bdev s) (bdev_write (fs_bdev s) d start n buf) j 1 =
           (if start \<le> j \<and> j < start + n then seg (BLOCK_SIZE * (j - start)) BLOCK_SIZE buf
            else bdev_read (fs_bdev s) d j 1)"
  using assms unfolding dev_ok_def bdev_ok_def by blast+

lemma read_range:
  assumes "dev_ok N s" "0 < n" "a + n \<le> N"
  shows "read_blocks s (int a) (int n) = Inr (concat (map (dblk s) [a ..< a + n]))"
proof -
  let ?r = "bdev_read (fs_bdev s) (fs_media s) a n"
  have "map (\<lambda>i. seg (BLOCK_SIZE * i) BLOCK_SIZE ?r) [0 ..< n] = map (\<lambda>i. dblk s (a + i)) [0 ..< n]"
    by (rule map_cong) (simp_all add: dev_okD [OF assms] dblk_def)
  also have "\<dots> = map (dblk s) [a ..< a + n]"
    by (rule nth_equalityI) simp_all
  finally have "?r = concat (map (dblk s) [a ..< a + n])"
    using concat_segs [OF dev_okD(2) [OF assms]] by metis
  moreover have "int a < 2 ^ 31" "int n < 2 ^ 31" using assms by (simp_all add: dev_ok_def)
  ultimately show ?thesis using assms dev_okD(1) [OF assms] by (simp add: read_blocks_eq)
qed

lemma write_range:
  assumes "dev_ok N s" "0 < n" "a + n \<le> N" "n * BLOCK_SIZE \<le> length b"
  shows "write_blocks b (int a) (int n) s = Inr (put_blks b a n s)"
proof -
  have "int a < 2 ^ 31" "int n < 2 ^ 31" using assms by (simp_all add: dev_ok_def)
  then show ?thesis
    using assms dev_okD(1) [OF assms(1-3)] by (simp add: write_blocks_eq put_blks_def)
qed

lemma dblk_put_blks:
  assumes "dev_ok N s" "0 < n" "a + n \<le> N" "n * BLOCK_SIZE \<le> length b" "j < N"
  shows "dblk (put_blks b a n s) j =
    (if a \<le> j \<and> j < a + n then seg (BLOCK_SIZE * (j - a)) BLOCK_SIZE b else dblk s j)"
proof (cases "a \<le> j \<and> j < a + n")
  case True
  then have "BLOCK_SIZE * (j - a) + BLOCK_SIZE \<le> n * BLOCK_SIZE" by auto
  then have "seg (BLOCK_SIZE * (j - a)) BLOCK_SIZE (take (n * BLOCK_SIZE) b) =
      seg (BLOCK_SIZE * (j - a)) BLOCK_SIZE b"
    by (simp add: seg_def drop_take min_def)
  with True show ?thesis using assms dev_okD(4) [OF assms(1-3)]
    by (simp add: dblk_def put_blks_def)
next
  case False
  then show ?thesis using assms dev_okD(4) [OF assms(1-3)]
    by (auto simp: dblk_def put_blks_def)
qed

section \<open>The interface of the block layer\<close>

text \<open>
  What the rest of the file system relies on: inside the capacity, a read returns the block, a
  write replaces exactly the block it names and nothing else of the state (\<open>rest\<close>).
\<close>

locale block_store =
  fixes inv :: "'s \<Rightarrow> bool" and cap :: nat
    and blk :: "'s \<Rightarrow> nat \<Rightarrow> byte list" and rest :: "'s \<Rightarrow> 'r"
    and rd :: "'s \<Rightarrow> int \<Rightarrow> byte list res"
    and wr :: "byte list \<Rightarrow> int \<Rightarrow> 's \<Rightarrow> 's res"
    and upd :: "byte list \<Rightarrow> nat \<Rightarrow> 's \<Rightarrow> 's"
  assumes rd_eq: "inv s \<Longrightarrow> 0 \<le> a \<Longrightarrow> a < int cap \<Longrightarrow> rd s a = Inr (blk s (nat a))"
    and wr_eq: "inv s \<Longrightarrow> 0 \<le> a \<Longrightarrow> a < int cap \<Longrightarrow> BLOCK_SIZE \<le> length b \<Longrightarrow>
           wr b a s = Inr (upd b (nat a) s)"
    and blk_upd: "inv s \<Longrightarrow> i < cap \<Longrightarrow> j < cap \<Longrightarrow> BLOCK_SIZE \<le> length b \<Longrightarrow>
           blk (upd b i s) j = (if j = i then take BLOCK_SIZE b else blk s j)"
    and inv_upd: "inv s \<Longrightarrow> inv (upd b i s)"
    and rest_upd: "rest (upd b i s) = rest s"
begin

lemma read_after_write:
  "inv s \<Longrightarrow> 0 \<le> a \<Longrightarrow> a < int cap \<Longrightarrow> BLOCK_SIZE \<le> length b \<Longrightarrow> wr b a s = Inr s' \<Longrightarrow>
   rd s' a = Inr (take BLOCK_SIZE b)"
  by (auto simp: wr_eq rd_eq blk_upd inv_upd)

text \<open>
  A loop of single-block writes: each block of the sequence holds what was written to it last,
  the others are untouched.
\<close>

lemma write_many:
  assumes "inv s" "\<And>x. x \<in> set xs \<Longrightarrow> adr x < cap \<and> BLOCK_SIZE \<le> length (dat x)"
    and "\<And>x y. x \<in> set xs \<Longrightarrow> y \<in> set xs \<Longrightarrow> adr x = adr y \<Longrightarrow> dat x = dat y"
  shows "\<exists>s'. fold_r (\<lambda>x. wr (dat x) (int (adr x))) xs s = Inr s' \<and> inv s' \<and> rest s' = rest s \<and>
           (\<forall>x \<in> set xs. blk s' (adr x) = take BLOCK_SIZE (dat x)) \<and>
           (\<forall>j < cap. j \<notin> adr ` set xs \<longrightarrow> blk s' j = blk s j)"
  using assms
proof (induction xs arbitrary: s)
  case Nil
  from Nil.prems(1) show ?case by simp
next
  case (Cons x xs)
  let ?t = "upd (dat x) (adr x) s"
  have x: "adr x < cap" "BLOCK_SIZE \<le> length (dat x)" using Cons.prems(2) [of x] by simp_all
  have step: "wr (dat x) (int (adr x)) s = Inr ?t" using Cons.prems(1) x by (simp add: wr_eq)
  have "inv ?t" using Cons.prems(1) by (rule inv_upd)
  then have "\<exists>s'. fold_r (\<lambda>x. wr (dat x) (int (adr x))) xs ?t = Inr s' \<and> inv s' \<and> rest s' = rest ?t \<and>
      (\<forall>y \<in> set xs. blk s' (adr y) = take BLOCK_SIZE (dat y)) \<and>
      (\<forall>j < cap. j \<notin> adr ` set xs \<longrightarrow> blk s' j = blk ?t j)"
  proof (rule Cons.IH)
    show "adr y < cap \<and> BLOCK_SIZE \<le> length (dat y)" if "y \<in> set xs" for y
      using Cons.prems(2) [of y] that by simp
    show "dat y = dat z" if "y \<in> set xs" "z \<in> set xs" "adr y = adr z" for y z
      using Cons.prems(3) [of y z] that by simp
  qed
  then obtain s' where s': "fold_r (\<lambda>x. wr (dat x) (int (adr x))) xs ?t = Inr s'" "inv s'"
    "rest s' = rest ?t" "\<forall>y \<in> set xs. blk s' (adr y) = take BLOCK_SIZE (dat y)"
    "\<forall>j < cap. j \<notin> adr ` set xs \<longrightarrow> blk s' j = blk ?t j"
    by blast
  have "blk s' (adr x) = take BLOCK_SIZE (dat x)"
  proof (cases "adr x \<in> adr ` set xs")
    case True
    then obtain y where y: "y \<in> set xs" "adr x = adr y" by auto
    with Cons.prems(3) [of x y] s'(4) show ?thesis by simp
  next
    case False
    with s'(5) x Cons.prems(1) show ?thesis by (simp add: blk_upd)
  qed
  with s' step x Cons.prems(1) show ?case by (auto simp: blk_upd rest_upd)
qed

end

text \<open>\<open>src/block.c\<close> provides the interface on a device of \<open>N\<close> blocks.\<close>

interpretation bs: block_store "dev_ok N" N dblk "\<lambda>s. (fs_bdev s, fs_sb s, fs_out s)"
  "\<lambda>s a. read_blocks s a 1" "\<lambda>b a. write_blocks b a 1" put_blk for N
  by unfold_locales (auto simp: read_block write_block dblk_put_blk)

text \<open>\<open>zero_blocks\<close> zeroes exactly its range.\<close>

lemma zero_blocks_ok:
  assumes "dev_ok N s" "a + n \<le> N"
  obtains s' where "zero_blocks (int a) (int n) s = Inr s'" "dev_ok N s'"
    "fs_sb s' = fs_sb s" "fs_bdev s' = fs_bdev s" "fs_out s' = fs_out s"
    "\<And>j. j < N \<Longrightarrow> dblk s' j = (if a \<le> j \<and> j < a + n then replicate BLOCK_SIZE 0 else dblk s j)"
proof -
  have "\<exists>s'. fold_r (\<lambda>i. write_blocks (replicate BLOCK_SIZE 0) (int (a + i)) 1) [0 ..< n] s = Inr s' \<and>
      dev_ok N s' \<and> (fs_bdev s', fs_sb s', fs_out s') = (fs_bdev s, fs_sb s, fs_out s) \<and>
      (\<forall>i \<in> set [0 ..< n]. dblk s' (a + i) = take BLOCK_SIZE (replicate BLOCK_SIZE 0)) \<and>
      (\<forall>j < N. j \<notin> (\<lambda>i. a + i) ` set [0 ..< n] \<longrightarrow> dblk s' j = dblk s j)"
    by (rule bs.write_many) (use assms in auto)
  then obtain s' where s': "zero_blocks (int a) (int n) s = Inr s'" "dev_ok N s'"
    "fs_sb s' = fs_sb s" "fs_bdev s' = fs_bdev s" "fs_out s' = fs_out s"
    "\<forall>i < n. dblk s' (a + i) = replicate BLOCK_SIZE 0"
    "\<forall>j < N. j \<notin> (\<lambda>i. a + i) ` {0 ..< n} \<longrightarrow> dblk s' j = dblk s j"
    by (auto simp: zero_blocks_def)
  show thesis
  proof (rule that [OF s'(1-5)])
    fix j assume "j < N"
    show "dblk s' j = (if a \<le> j \<and> j < a + n then replicate BLOCK_SIZE 0 else dblk s j)"
    proof (cases "a \<le> j \<and> j < a + n")
      case True
      then obtain i where "j = a + i" "i < n" using le_Suc_ex by auto
      then show ?thesis using True s'(6) by simp
    next
      case False
      then have "j \<notin> (\<lambda>i. a + i) ` {0 ..< n}" by auto
      then show ?thesis using False s'(7) \<open>j < N\<close> by auto
    qed
  qed
qed

end
