(* ===== verification/Csum.thy ===== *)
theory Csum
  imports Block
begin

text \<open>
  \<open>src/csum.c\<close>: the table of block checksums, kept in memory (\<open>csum_table\<close>) and on disk (from block
  \<open>csum_table_start\<close>).  \<open>testfs_put_csum\<close> writes through; \<open>testfs_set_csum\<close> only marks the table
  block dirty and \<open>testfs_flush_csum\<close> writes the dirty blocks.  The lemmas say what each operation
  does to the table and to the disk; \<open>csum_coherent\<close> relates the two.
\<close>

section \<open>Operations\<close>

definition testfs_get_csum :: "'d fsys \<Rightarrow> int \<Rightarrow> 32 word res" where
  "testfs_get_csum s block_nr =
     bind_r (the_r AssertFail (csum_table (fs_sb s))) (\<lambda>table.
       if size_of_int block_nr < MAX_NR_CSUMS then nth_r table block_nr else Inr 0)"

text \<open>Block \<open>nr\<close> of the table, as \<open>(char *)csum_table + nr * BLOCK_SIZE\<close> points to it.\<close>

definition csum_block :: "32 word list \<Rightarrow> int \<Rightarrow> byte list" where
  "csum_block table nr = drop (nat (nr * BLOCK_SIZE)) (words_bytes table)"

definition testfs_write_csum :: "int \<Rightarrow> 'd fsys \<Rightarrow> 'd fsys res" where
  "testfs_write_csum block_nr s =
     (let nr = int_of_size (size_of_int block_nr * 4 div BLOCK_SIZE)
      in bind_r (the_r AssertFail (csum_table (fs_sb s))) (\<lambda>table.
           write_blocks (csum_block table nr) (csum_table_start (dsb s) + nr) 1 s))"

definition testfs_put_csum :: "int \<Rightarrow> 32 word \<Rightarrow> 'd fsys \<Rightarrow> 'd fsys res" where
  "testfs_put_csum phy_block_nr csum s =
     (let block_nr = phy_block_nr - data_blocks_start (dsb s)
      in bind_r (the_r AssertFail (csum_table (fs_sb s))) (\<lambda>table.
         bind_r (assert_r (0 \<le> block_nr \<and> block_nr < MAX_NR_CSUMS)) (\<lambda>_.
         bind_r (nth_r table block_nr) (\<lambda>_.
           testfs_write_csum block_nr
             (upd_sb (\<lambda>sb. sb\<lparr>csum_table := Some (table[nat block_nr := csum])\<rparr>) s)))))"

definition csum_word :: "byte list \<Rightarrow> nat \<Rightarrow> 32 word res" where
  "csum_word buf i = (if 4 * i + 4 \<le> length buf then Inr (word_at buf i) else Inl OutOfBounds)"

definition testfs_calculate_csum :: "byte list \<Rightarrow> int \<Rightarrow> 32 word res" where
  "testfs_calculate_csum buf sz =
     (let count = int_of_size (size_of_int sz div 4)
      in bind_r (assert_r (size_of_int sz mod 4 = 0)) (\<lambda>_.
           fold_r (\<lambda>i csum. bind_r (csum_word buf i) (\<lambda>w. Inr (csum XOR w))) [0 ..< nat count] 0))"

definition testfs_verify_csum :: "int \<Rightarrow> 'd fsys \<Rightarrow> (int \<times> 'd fsys) res" where
  "testfs_verify_csum phy_block_nr s =
     (let block_nr = phy_block_nr - data_blocks_start (dsb s)
      in bind_r (assert_r (0 \<le> block_nr \<and> block_nr < MAX_NR_CSUMS)) (\<lambda>_.
         bind_r (read_blocks s phy_block_nr 1) (\<lambda>block.
         bind_r (testfs_calculate_csum block BLOCK_SIZE) (\<lambda>csum.
         bind_r (the_r NullDeref (csum_table (fs_sb s))) (\<lambda>table.
         bind_r (nth_r table block_nr) (\<lambda>stored.
           if csum \<noteq> stored then Inr (- EINVAL, printf (ChecksumErrorAtBlock phy_block_nr) s)
           else Inr (0, s)))))))"

definition testfs_set_csum :: "int \<Rightarrow> 32 word \<Rightarrow> 'd fsys \<Rightarrow> 'd fsys res" where
  "testfs_set_csum phy_block_nr csum s =
     (let csum_offset = phy_block_nr - data_blocks_start (dsb s);
          csum_block_nr = int_of_size (size_of_int csum_offset * 4 div BLOCK_SIZE)
      in bind_r (assert_r (0 \<le> csum_offset \<and> csum_offset < MAX_NR_CSUMS)) (\<lambda>_.
         bind_r (assert_r (csum_block_nr < CSUM_TABLE_SIZE)) (\<lambda>_.
         bind_r (the_r NullDeref (csum_table (fs_sb s))) (\<lambda>table.
         bind_r (nth_r table csum_offset) (\<lambda>_.
         bind_r (nth_r (csum_block_dirty (fs_sb s)) csum_block_nr) (\<lambda>_.
           Inr (upd_sb (\<lambda>sb. sb\<lparr>csum_table := Some (table[nat csum_offset := csum]),
                               csum_block_dirty :=
                                 (csum_block_dirty sb)[nat csum_block_nr := True]\<rparr>) s)))))))"

definition flush_csum_block :: "nat \<Rightarrow> 'd fsys \<Rightarrow> 'd fsys res" where
  "flush_csum_block i s =
     bind_r (nth_r (csum_block_dirty (fs_sb s)) (int i)) (\<lambda>dirty.
       if \<not> dirty then Inr s
       else bind_r (the_r NullDeref (csum_table (fs_sb s))) (\<lambda>table.
            bind_r (write_blocks (csum_block table (int i)) (csum_table_start (dsb s) + int i) 1 s)
              (\<lambda>s. Inr (upd_sb (\<lambda>sb. sb\<lparr>csum_block_dirty := (csum_block_dirty sb)[i := False]\<rparr>) s))))"

definition testfs_flush_csum :: "'d fsys \<Rightarrow> 'd fsys res" where
  "testfs_flush_csum = fold_r flush_csum_block [0 ..< CSUM_TABLE_SIZE]"

section \<open>The checksum of a block\<close>

definition csum_of :: "byte list \<Rightarrow> 32 word" where
  "csum_of block = fold (\<lambda>w c. c XOR w) (bytes_words 128 block) 0"

lemma csum_fold:
  "4 * n \<le> length buf \<Longrightarrow>
   fold_r (\<lambda>i csum. bind_r (csum_word buf i) (\<lambda>w. Inr (csum XOR w))) [0 ..< n] c =
   Inr (fold (\<lambda>w c. c XOR w) (bytes_words n buf) c)"
  by (induction n) (simp_all add: fold_r_append csum_word_def bytes_words_def)

lemma calculate_csum_eq:
  "length block = BLOCK_SIZE \<Longrightarrow> testfs_calculate_csum block BLOCK_SIZE = Inr (csum_of block)"
  using csum_fold [of 128 block 0] by (simp add: testfs_calculate_csum_def csum_of_def)

lemma fold_xor_shift: "fold (\<lambda>w c. c XOR w) ws (c :: 32 word) = c XOR fold (\<lambda>w c. c XOR w) ws 0"
proof (induction ws arbitrary: c)
  case (Cons w ws)
  from Cons [of "c XOR w"] Cons [of w] show ?case by (simp add: xor.assoc)
qed simp

lemma fold_xor_update:
  "i < length ws \<Longrightarrow>
   fold (\<lambda>w c. c XOR w) (ws[i := v]) (0 :: 32 word) =
   fold (\<lambda>w c. c XOR w) ws 0 XOR (ws ! i) XOR v"
proof (induction ws arbitrary: i)
  case (Cons w ws)
  note shift = fold_xor_shift [of ws] fold_xor_shift [of "ws[_ := v]"]
  show ?case
  proof (cases i)
    case 0
    then show ?thesis using shift(1) [of w] shift(1) [of v]
      by (simp add: xor.assoc xor.commute xor.left_commute)
  next
    case (Suc j)
    then show ?thesis
      using Cons shift(1) [of w] fold_xor_shift [of "ws[j := v]" w] by (simp add: xor.assoc)
  qed
qed simp

section \<open>Coherence of the table in memory and on disk\<close>

text \<open>The layout every file system has: \<open>testfs_make_super_block\<close> computes it.\<close>

definition std_dsb :: dsuper_block where
  "std_dsb = \<lparr>inode_freemap_start = 1, block_freemap_start = 2, csum_table_start = 4,
              inode_blocks_start = 64, data_blocks_start = 192, modification_time = 0\<rparr>"

definition csum_table_of :: "'d fsys \<Rightarrow> 32 word list" where
  "csum_table_of s = the (csum_table (fs_sb s))"

definition csum_wf :: "'d fsys \<Rightarrow> bool" where
  "csum_wf s \<longleftrightarrow> (\<exists>t. csum_table (fs_sb s) = Some t \<and> length t = MAX_NR_CSUMS) \<and>
                length (csum_block_dirty (fs_sb s)) = CSUM_TABLE_SIZE"

text \<open>Data block \<open>k\<close> (disk block \<open>192 + k\<close>) matches its entry.\<close>

definition csum_good :: "'d fsys \<Rightarrow> nat \<Rightarrow> bool" where
  "csum_good s k \<longleftrightarrow> csum_table_of s ! k = csum_of (dblk s (192 + k))"

text \<open>Block \<open>i\<close> of the table in memory, and coherence: the clean blocks are on disk.\<close>

definition csum_tblk :: "'d fsys \<Rightarrow> nat \<Rightarrow> byte list" where
  "csum_tblk s i = words_bytes (take 128 (drop (128 * i) (csum_table_of s)))"

definition csum_coherent :: "'d fsys \<Rightarrow> bool" where
  "csum_coherent s \<longleftrightarrow>
     (\<forall>i < CSUM_TABLE_SIZE. \<not> csum_block_dirty (fs_sb s) ! i \<longrightarrow> dblk s (4 + i) = csum_tblk s i)"

lemma csum_wfD:
  "csum_wf s \<Longrightarrow> csum_table (fs_sb s) = Some (csum_table_of s)"
  "csum_wf s \<Longrightarrow> length (csum_table_of s) = MAX_NR_CSUMS"
  "csum_wf s \<Longrightarrow> length (csum_block_dirty (fs_sb s)) = CSUM_TABLE_SIZE"
  by (auto simp: csum_wf_def csum_table_of_def)

lemma csum_block_take:
  "take BLOCK_SIZE (csum_block t (int i)) = words_bytes (take 128 (drop (128 * i) t))"
  using words_bytes_drop [of "128 * i" t] words_bytes_take [of 128 "drop (128 * i) t"]
  by (simp add: csum_block_def nat_mult_distrib mult.commute)

lemma length_csum_block:
  "length t = MAX_NR_CSUMS \<Longrightarrow> i < CSUM_TABLE_SIZE \<Longrightarrow> BLOCK_SIZE \<le> length (csum_block t (int i))"
  by (simp add: csum_block_def nat_mult_distrib)

lemma csum_tblk_update:
  assumes "i \<noteq> k div 128"
  shows "take 128 (drop (128 * i) (t[k := c])) = take 128 (drop (128 * i) t)"
proof (rule nth_equalityI)
  fix j assume "j < length (take 128 (drop (128 * i) (t[k := c])))"
  then have "j < 128" "128 * i + j < length t" by auto
  moreover have "128 * i + j \<noteq> k"
  proof
    assume "128 * i + j = k"
    then have "k div 128 = i" using \<open>j < 128\<close> by auto
    with assms show False by simp
  qed
  ultimately show "take 128 (drop (128 * i) (t[k := c])) ! j = take 128 (drop (128 * i) t) ! j"
    by simp
qed simp

text \<open>\<open>testfs_put_csum\<close>: the new table, written through.\<close>

definition put_csum_st :: "nat \<Rightarrow> 32 word \<Rightarrow> 'd fsys \<Rightarrow> 'd fsys" where
  "put_csum_st k c s =
     put_blk (words_bytes (take 128 (drop (128 * (k div 128)) ((csum_table_of s)[k := c])))) (4 + k div 128)
       (upd_sb (\<lambda>sb. sb\<lparr>csum_table := Some ((csum_table_of s)[k := c])\<rparr>) s)"

lemma put_blk_take: "put_blk b i s = put_blk (take BLOCK_SIZE b) i s"
  by (simp add: put_blk_def)

lemma put_csum_eq:
  assumes "dev_ok N s" "64 \<le> N" "csum_wf s" "dsb s = std_dsb" "k < MAX_NR_CSUMS"
  shows "testfs_put_csum (192 + int k) c s = Inr (put_csum_st k c s)"
proof -
  let ?t = "(csum_table_of s)[k := c]"
  let ?s = "upd_sb (\<lambda>sb. sb\<lparr>csum_table := Some ?t\<rparr>) s"
  have kd: "k * 4 div 512 = k div 128" by simp
  have kl: "k div 128 < 60" using assms(5) by (simp add: less_mult_imp_div_less)
  have len: "length ?t = MAX_NR_CSUMS" using csum_wfD(2) [OF assms(3)] by simp
  have "write_blocks (csum_block ?t (int (k div 128))) (4 + int (k div 128)) 1 ?s =
      Inr (put_blk (csum_block ?t (int (k div 128))) (4 + k div 128) ?s)"
    using write_block [of N ?s "4 + int (k div 128)"] assms(1,2) kl length_csum_block [OF len kl]
    by (simp add: nat_add_distrib)
  moreover have "put_blk (csum_block ?t (int (k div 128))) (4 + k div 128) ?s = put_csum_st k c s"
    unfolding put_csum_st_def by (subst put_blk_take) (simp only: csum_block_take)
  moreover have "k * 4 div 512 < 2147483648" using assms(5) by simp
  ultimately show ?thesis
    using assms csum_wfD [OF assms(3)] kd
    by (simp add: testfs_put_csum_def testfs_write_csum_def std_dsb_def)
qed

lemma put_csum_st_simps [simp]:
  "fs_bdev (put_csum_st k c s) = fs_bdev s" "fs_out (put_csum_st k c s) = fs_out s"
  "dsb (put_csum_st k c s) = dsb s"
  "inode_freemap (fs_sb (put_csum_st k c s)) = inode_freemap (fs_sb s)"
  "block_freemap (fs_sb (put_csum_st k c s)) = block_freemap (fs_sb s)"
  "tx_in_progress (fs_sb (put_csum_st k c s)) = tx_in_progress (fs_sb s)"
  "csum_block_dirty (fs_sb (put_csum_st k c s)) = csum_block_dirty (fs_sb s)"
  "csum_table_of (put_csum_st k c s) = (csum_table_of s)[k := c]"
  "dev_ok N (put_csum_st k c s) = dev_ok N s"
  by (simp_all add: put_csum_st_def csum_table_of_def)

lemma csum_wf_put_csum [simp]: "csum_wf s \<Longrightarrow> csum_wf (put_csum_st k c s)"
  by (auto simp: csum_wf_def put_csum_st_def csum_table_of_def)

lemma dblk_put_csum:
  assumes "dev_ok N s" "csum_wf s" "k < MAX_NR_CSUMS" "64 \<le> N" "j < N"
  shows "dblk (put_csum_st k c s) j =
    (if j = 4 + k div 128
     then words_bytes (take 128 (drop (128 * (k div 128)) ((csum_table_of s)[k := c])))
     else dblk s j)"
proof -
  have kl: "k div 128 < 60" using assms(3) by (simp add: less_mult_imp_div_less)
  have "length (words_bytes (take 128 (drop (128 * (k div 128)) ((csum_table_of s)[k := c])))) = 512"
    using csum_wfD(2) [OF assms(2)] kl by simp
  then show ?thesis
    using assms kl by (simp add: put_csum_st_def dblk_put_blk)
qed

lemma dblk_put_csum_other [simp]:
  assumes "dev_ok N s" "csum_wf s" "k < MAX_NR_CSUMS" "64 \<le> j" "j < N"
  shows "dblk (put_csum_st k c s) j = dblk s j"
proof -
  have "k div 128 < 60" using assms(3) by (simp add: less_mult_imp_div_less)
  then show ?thesis using assms dblk_put_csum [of N s k j c] by simp
qed

lemma csum_coherent_put_csum:
  assumes "dev_ok N s" "64 \<le> N" "csum_wf s" "k < MAX_NR_CSUMS" "csum_coherent s"
  shows "csum_coherent (put_csum_st k c s)"
  unfolding csum_coherent_def
proof (intro allI impI)
  fix i :: nat assume i: "i < 60" "\<not> csum_block_dirty (fs_sb (put_csum_st k c s)) ! i"
  then show "dblk (put_csum_st k c s) (4 + i) = csum_tblk (put_csum_st k c s) i"
    using assms dblk_put_csum [OF assms(1,3,4,2), of "4 + i" c]
    by (cases "i = k div 128") (simp_all add: csum_tblk_def csum_tblk_update csum_coherent_def)
qed

section \<open>Deferred updates and the flush\<close>

definition set_csum_st :: "nat \<Rightarrow> 32 word \<Rightarrow> 'd fsys \<Rightarrow> 'd fsys" where
  "set_csum_st k c s =
     upd_sb (\<lambda>sb. sb\<lparr>csum_table := Some ((csum_table_of s)[k := c]),
                    csum_block_dirty := (csum_block_dirty sb)[k div 128 := True]\<rparr>) s"

lemma set_csum_eq:
  assumes "csum_wf s" "dsb s = std_dsb" "k < MAX_NR_CSUMS"
  shows "testfs_set_csum (192 + int k) c s = Inr (set_csum_st k c s)"
proof -
  have kl: "k div 128 < 60" using assms(3) by (simp add: less_mult_imp_div_less)
  have "k * 4 div 512 = k div 128" "k * 4 div 512 < 2147483648" using assms(3) by simp_all
  then show ?thesis
    using assms csum_wfD [OF assms(1)] kl
    by (simp add: testfs_set_csum_def std_dsb_def set_csum_st_def)
qed

lemma csum_coherent_set_csum:
  assumes "csum_wf s" "k < MAX_NR_CSUMS" "csum_coherent s"
  shows "csum_coherent (set_csum_st k c s)" "csum_wf (set_csum_st k c s)"
proof -
  have "k div 128 < 60" using assms(2) by (simp add: less_mult_imp_div_less)
  then show "csum_coherent (set_csum_st k c s)"
    using assms csum_wfD(3) [OF assms(1)]
    by (auto simp: csum_coherent_def set_csum_st_def csum_tblk_def csum_table_of_def
        csum_tblk_update nth_list_update)
  show "csum_wf (set_csum_st k c s)"
    using assms by (auto simp: csum_wf_def set_csum_st_def csum_table_of_def)
qed

text \<open>One round of the flush: the block becomes clean and holds the table's block.\<close>

definition flush_st :: "nat \<Rightarrow> 'd fsys \<Rightarrow> 'd fsys" where
  "flush_st i s =
     (if csum_block_dirty (fs_sb s) ! i
      then upd_sb (\<lambda>sb. sb\<lparr>csum_block_dirty := (csum_block_dirty sb)[i := False]\<rparr>)
             (put_blk (csum_tblk s i) (4 + i) s)
      else s)"

lemma length_csum_tblk [simp]:
  "csum_wf s \<Longrightarrow> i < CSUM_TABLE_SIZE \<Longrightarrow> length (csum_tblk s i) = BLOCK_SIZE"
  using csum_wfD(2) [of s] by (simp add: csum_tblk_def)

lemma flush_csum_block_eq:
  assumes "dev_ok N s" "64 \<le> N" "csum_wf s" "dsb s = std_dsb" "i < CSUM_TABLE_SIZE"
  shows "flush_csum_block i s = Inr (flush_st i s)"
proof -
  have "write_blocks (csum_block (csum_table_of s) (int i)) (4 + int i) 1 s =
      Inr (put_blk (csum_block (csum_table_of s) (int i)) (4 + i) s)"
    using write_block [of N s "4 + int i"] assms length_csum_block [OF csum_wfD(2) [OF assms(3)]]
    by (simp add: nat_add_distrib)
  moreover have "put_blk (csum_block (csum_table_of s) (int i)) (4 + i) s =
      put_blk (csum_tblk s i) (4 + i) s"
    by (subst put_blk_take) (simp only: csum_block_take csum_tblk_def)
  ultimately show ?thesis
    using assms csum_wfD [OF assms(3)]
    by (simp add: flush_csum_block_def flush_st_def std_dsb_def)
qed

lemma flush_st_simps [simp]:
  "fs_bdev (flush_st i s) = fs_bdev s" "dsb (flush_st i s) = dsb s"
  "fs_out (flush_st i s) = fs_out s"
  "inode_freemap (fs_sb (flush_st i s)) = inode_freemap (fs_sb s)"
  "block_freemap (fs_sb (flush_st i s)) = block_freemap (fs_sb s)"
  "tx_in_progress (fs_sb (flush_st i s)) = tx_in_progress (fs_sb s)"
  "csum_table_of (flush_st i s) = csum_table_of s" "dev_ok N (flush_st i s) = dev_ok N s"
  "csum_tblk (flush_st i s) = csum_tblk s"
  by (simp_all add: flush_st_def csum_table_of_def csum_tblk_def fun_eq_iff)

lemma csum_wf_flush_st [simp]: "csum_wf s \<Longrightarrow> csum_wf (flush_st i s)"
  by (auto simp: csum_wf_def flush_st_def)

lemma dirty_flush_st:
  "csum_wf s \<Longrightarrow> i < CSUM_TABLE_SIZE \<Longrightarrow>
   csum_block_dirty (fs_sb (flush_st i s)) = (csum_block_dirty (fs_sb s))[i := False]"
  using list_update_id [of "csum_block_dirty (fs_sb s)" i]
  by (cases "csum_block_dirty (fs_sb s) ! i") (simp_all add: flush_st_def)

lemma dblk_flush_st:
  assumes "dev_ok N s" "64 \<le> N" "csum_wf s" "i < CSUM_TABLE_SIZE" "j < N"
  shows "dblk (flush_st i s) j =
    (if j = 4 + i \<and> csum_block_dirty (fs_sb s) ! i then csum_tblk s i else dblk s j)"
  using assms by (simp add: flush_st_def dblk_put_blk)

lemma flush_csum_prefix:
  assumes "dev_ok N s" "64 \<le> N" "csum_wf s" "dsb s = std_dsb" "csum_coherent s"
    and "n \<le> CSUM_TABLE_SIZE"
  shows "\<exists>s'. fold_r flush_csum_block [0 ..< n] s = Inr s' \<and> dev_ok N s' \<and> csum_wf s' \<and>
    dsb s' = std_dsb \<and> csum_coherent s' \<and> csum_table_of s' = csum_table_of s \<and>
    fs_bdev s' = fs_bdev s \<and> fs_out s' = fs_out s \<and>
    inode_freemap (fs_sb s') = inode_freemap (fs_sb s) \<and>
    block_freemap (fs_sb s') = block_freemap (fs_sb s) \<and>
    tx_in_progress (fs_sb s') = tx_in_progress (fs_sb s) \<and>
    (\<forall>i < n. \<not> csum_block_dirty (fs_sb s') ! i) \<and>
    (\<forall>j < N. j < 4 \<or> 64 \<le> j \<longrightarrow> dblk s' j = dblk s j)"
  using assms(6)
proof (induction n)
  case 0
  then show ?case using assms(1-5) by simp
next
  case (Suc n)
  then obtain t where t: "fold_r flush_csum_block [0 ..< n] s = Inr t" "dev_ok N t" "csum_wf t"
    "dsb t = std_dsb" "csum_coherent t" "csum_table_of t = csum_table_of s"
    "fs_bdev t = fs_bdev s" "fs_out t = fs_out s"
    "inode_freemap (fs_sb t) = inode_freemap (fs_sb s)"
    "block_freemap (fs_sb t) = block_freemap (fs_sb s)"
    "tx_in_progress (fs_sb t) = tx_in_progress (fs_sb s)"
    "\<forall>i < n. \<not> csum_block_dirty (fs_sb t) ! i"
    "\<forall>j < N. j < 4 \<or> 64 \<le> j \<longrightarrow> dblk t j = dblk s j"
    by auto
  have n: "n < 60" using Suc.prems by simp
  have "fold_r flush_csum_block [0 ..< Suc n] s = Inr (flush_st n t)"
    using t(1) flush_csum_block_eq [OF t(2) assms(2) t(3,4) n] by (simp add: fold_r_append)
  moreover have "csum_coherent (flush_st n t)"
    unfolding csum_coherent_def
  proof (intro allI impI)
    fix i :: nat assume i: "i < 60" "\<not> csum_block_dirty (fs_sb (flush_st n t)) ! i"
    then show "dblk (flush_st n t) (4 + i) = csum_tblk (flush_st n t) i"
      using t(5) csum_wfD(3) [OF t(3)] n assms(2)
      by (cases "i = n")
        (auto simp: dblk_flush_st [OF t(2) assms(2) t(3) n] dirty_flush_st [OF t(3) n]
          csum_coherent_def)
  qed
  moreover have "\<forall>i < Suc n. \<not> csum_block_dirty (fs_sb (flush_st n t)) ! i"
    using t(12) csum_wfD(3) [OF t(3)] n
    by (auto simp: dirty_flush_st [OF t(3) n] less_Suc_eq nth_list_update)
  moreover have "\<forall>j < N. j < 4 \<or> 64 \<le> j \<longrightarrow> dblk (flush_st n t) j = dblk s j"
    using t(13) n by (auto simp: dblk_flush_st [OF t(2) assms(2) t(3) n])
  ultimately show ?case using t(2-11) by simp
qed

end
