(* ===== verification/Super.thy ===== *)
theory Super
  imports Csum
begin

text \<open>
  The allocation side of \<open>src/super.c\<close>: the inode and block freemaps, which are bitmaps in memory
  mirrored on disk (every change writes the freemap block that holds the bit), the allocation and
  release of data blocks, the on-disk super block and the regions \<open>mkfs\<close> zeroes.

  \<open>fs_ok N\<close> is the invariant of a mounted file system on a device of \<open>N\<close> blocks; \<open>used\<close> and
  \<open>iused\<close> are the sets of allocated data blocks and inodes; \<open>freemaps_synced\<close> says that both
  freemaps are on disk.  The locale \<open>freemap\<close> is the contract both allocators
  keep; it is interpreted by the block freemap and by the inode freemap.
\<close>

section \<open>Operations\<close>

text \<open>The bytes of freemap block \<open>nr\<close>, as \<open>freemap + nr * BLOCK_SIZE\<close> points to them.\<close>

definition testfs_write_inode_freemap :: "int \<Rightarrow> 'd fsys \<Rightarrow> 'd fsys res" where
  "testfs_write_inode_freemap inode_nr s =
     bind_r (the_r AssertFail (inode_freemap (fs_sb s))) (\<lambda>map.
       let freemap = bitmap_getdata map; nr = inode_nr sdiv (BLOCK_SIZE * 8)
       in write_blocks (drop (nat (nr * BLOCK_SIZE)) freemap) (inode_freemap_start (dsb s) + nr) 1 s)"

definition testfs_write_block_freemap :: "int \<Rightarrow> 'd fsys \<Rightarrow> 'd fsys res" where
  "testfs_write_block_freemap block_nr s =
     bind_r (the_r AssertFail (block_freemap (fs_sb s))) (\<lambda>map.
       let freemap = bitmap_getdata map; nr = block_nr sdiv (BLOCK_SIZE * 8)
       in write_blocks (drop (nat (nr * BLOCK_SIZE)) freemap) (block_freemap_start (dsb s) + nr) 1 s)"

definition testfs_get_block_freemap :: "'d fsys \<Rightarrow> (int \<times> 'd fsys) res" where
  "testfs_get_block_freemap s =
     bind_r (the_r AssertFail (block_freemap (fs_sb s))) (\<lambda>map.
     bind_r (bitmap_alloc map) (\<lambda>(ret, map').
       let s = upd_sb (\<lambda>sb. sb\<lparr>block_freemap := Some map'\<rparr>) s
       in case ret of
            Inl ret \<Rightarrow> Inr (ret, s)
          | Inr index \<Rightarrow>
              bind_r (testfs_write_block_freemap (sint index) s) (\<lambda>s. Inr (sint index, s))))"

definition testfs_put_block_freemap :: "int \<Rightarrow> 'd fsys \<Rightarrow> 'd fsys res" where
  "testfs_put_block_freemap block_nr s =
     bind_r (the_r AssertFail (block_freemap (fs_sb s))) (\<lambda>map.
     bind_r (bitmap_unmark map (word_of_int block_nr)) (\<lambda>map'.
       testfs_write_block_freemap block_nr (upd_sb (\<lambda>sb. sb\<lparr>block_freemap := Some map'\<rparr>) s)))"

definition testfs_get_inode_freemap :: "'d fsys \<Rightarrow> (int \<times> 'd fsys) res" where
  "testfs_get_inode_freemap s =
     bind_r (the_r AssertFail (inode_freemap (fs_sb s))) (\<lambda>map.
     bind_r (bitmap_alloc map) (\<lambda>(ret, map').
       let s = upd_sb (\<lambda>sb. sb\<lparr>inode_freemap := Some map'\<rparr>) s
       in case ret of
            Inl ret \<Rightarrow> Inr (ret, s)
          | Inr index \<Rightarrow>
              bind_r (testfs_write_inode_freemap (sint index) s) (\<lambda>s. Inr (sint index, s))))"

definition testfs_put_inode_freemap :: "int \<Rightarrow> 'd fsys \<Rightarrow> 'd fsys res" where
  "testfs_put_inode_freemap inode_nr s =
     bind_r (the_r AssertFail (inode_freemap (fs_sb s))) (\<lambda>map.
     bind_r (bitmap_unmark map (word_of_int inode_nr)) (\<lambda>map'.
       testfs_write_inode_freemap inode_nr (upd_sb (\<lambda>sb. sb\<lparr>inode_freemap := Some map'\<rparr>) s)))"

text \<open>\<open>testfs_alloc_block\<close> zeroes the caller's buffer on success.\<close>

definition testfs_alloc_block :: "byte list \<Rightarrow> 'd fsys \<Rightarrow> (int \<times> byte list \<times> 'd fsys) res" where
  "testfs_alloc_block block s =
     bind_r (testfs_get_block_freemap s) (\<lambda>(phy_block_nr, s).
       if phy_block_nr < 0 then Inr (phy_block_nr, block, s)
       else Inr (data_blocks_start (dsb s) + phy_block_nr, replicate BLOCK_SIZE 0, s))"

definition testfs_free_block :: "int \<Rightarrow> 'd fsys \<Rightarrow> (int \<times> 'd fsys) res" where
  "testfs_free_block block_nr s =
     bind_r (zero_blocks block_nr 1 s) (\<lambda>s.
       let block_nr = block_nr - data_blocks_start (dsb s)
       in bind_r (assert_r (0 \<le> block_nr)) (\<lambda>_.
          bind_r (testfs_put_block_freemap block_nr s) (\<lambda>s. Inr (0, s))))"

definition testfs_alloc_block_alternate :: "'d fsys \<Rightarrow> (int \<times> 'd fsys) res" where
  "testfs_alloc_block_alternate s =
     bind_r (the_r NullDeref (block_freemap (fs_sb s))) (\<lambda>map.
     bind_r (bitmap_alloc map) (\<lambda>(ret, map').
       let s = upd_sb (\<lambda>sb. sb\<lparr>block_freemap := Some map'\<rparr>) s
       in case ret of
            Inl ret \<Rightarrow> Inr (ret, s)
          | Inr index \<Rightarrow> Inr (sint (word_of_int (data_blocks_start (dsb s)) + index), s)))"

definition testfs_flush_block_freemap :: "'d fsys \<Rightarrow> 'd fsys res" where
  "testfs_flush_block_freemap s =
     bind_r (the_r NullDeref (block_freemap (fs_sb s))) (\<lambda>map.
       write_blocks (bitmap_getdata map) (block_freemap_start (dsb s)) BLOCK_FREEMAP_SIZE s)"

definition testfs_write_super_block :: "'d fsys \<Rightarrow> 'd fsys res" where
  "testfs_write_super_block s =
     bind_r (c_memcpy (replicate BLOCK_SIZE 0) 0 (dsuper_bytes (dsb s)) 0 24) (\<lambda>block.
       write_blocks block 0 1 s)"

definition testfs_make_inode_freemap :: "'d fsys \<Rightarrow> 'd fsys res" where
  "testfs_make_inode_freemap s = zero_blocks (inode_freemap_start (dsb s)) INODE_FREEMAP_SIZE s"

definition testfs_make_block_freemap :: "'d fsys \<Rightarrow> 'd fsys res" where
  "testfs_make_block_freemap s = zero_blocks (block_freemap_start (dsb s)) BLOCK_FREEMAP_SIZE s"

text \<open>The asserts compare constants: \<open>MAX_NR_CSUMS > NR_DATA_BLOCKS\<close>, \<open>BLOCK_SIZE % 32 = 0\<close>.\<close>

definition testfs_make_csum_table :: "'d fsys \<Rightarrow> 'd fsys res" where
  "testfs_make_csum_table s =
     bind_r (assert_r ((512 :: nat) < MAX_NR_CSUMS)) (\<lambda>_.
       zero_blocks (csum_table_start (dsb s)) CSUM_TABLE_SIZE s)"

definition testfs_make_inode_blocks :: "'d fsys \<Rightarrow> 'd fsys res" where
  "testfs_make_inode_blocks s =
     bind_r (assert_r (BLOCK_SIZE mod 32 = (0 :: nat))) (\<lambda>_.
       zero_blocks (inode_blocks_start (dsb s)) NR_INODE_BLOCKS s)"

section \<open>The invariant of a mounted file system\<close>

definition bmap :: "'d fsys \<Rightarrow> bitmap" where "bmap s = the (block_freemap (fs_sb s))"
definition imap :: "'d fsys \<Rightarrow> bitmap" where "imap s = the (inode_freemap (fs_sb s))"

definition used :: "'d fsys \<Rightarrow> nat set" where "used s = bm_set (bmap s)"
definition iused :: "'d fsys \<Rightarrow> nat set" where "iused s = bm_set (imap s)"

definition freemaps_wf :: "'d fsys \<Rightarrow> bool" where
  "freemaps_wf s \<longleftrightarrow>
     block_freemap (fs_sb s) \<noteq> None \<and> bm_wf (bmap s) \<and> bm_nbits (bmap s) = 8192 \<and>
     inode_freemap (fs_sb s) \<noteq> None \<and> bm_wf (imap s) \<and> bm_nbits (imap s) = 4096"

definition fs_ok :: "nat \<Rightarrow> 'd fsys \<Rightarrow> bool" where
  "fs_ok N s \<longleftrightarrow> dev_ok N s \<and> 192 + MAX_NR_CSUMS \<le> N \<and> dsb s = std_dsb \<and> freemaps_wf s \<and> csum_wf s"

definition freemaps_synced :: "'d fsys \<Rightarrow> bool" where
  "freemaps_synced s \<longleftrightarrow>
     dblk s 1 = bm_v (imap s) \<and> dblk s 2 @ dblk s 3 = bm_v (bmap s)"

lemma fs_okD:
  assumes "fs_ok N s"
  shows "dev_ok N s" "192 + MAX_NR_CSUMS \<le> N" "64 \<le> N" "dsb s = std_dsb" "csum_wf s"
    "block_freemap (fs_sb s) = Some (bmap s)" "bm_wf (bmap s)" "bm_nbits (bmap s) = 8192"
    "inode_freemap (fs_sb s) = Some (imap s)" "bm_wf (imap s)" "bm_nbits (imap s) = 4096"
  using assms by (auto simp: fs_ok_def freemaps_wf_def bmap_def imap_def)

lemma length_bmap: "fs_ok N s \<Longrightarrow> length (bm_v (bmap s)) = 1024"
  using fs_okD(7,8) [of N s] by (simp add: bm_wf_def)

lemma length_imap: "fs_ok N s \<Longrightarrow> length (bm_v (imap s)) = 512"
  using fs_okD(10,11) [of N s] by (simp add: bm_wf_def)

lemma used_bound: "fs_ok N s \<Longrightarrow> i \<in> used s \<Longrightarrow> i < 8192"
  using bm_set_bound [of i "bmap s"] fs_okD(8) [of N s] by (simp add: used_def)

lemma finite_used [simp]: "finite (used s)"
  by (simp add: used_def)

section \<open>Changing one bit of a freemap\<close>

definition set_bmap :: "nat \<Rightarrow> bool \<Rightarrow> 'd fsys \<Rightarrow> 'd fsys" where
  "set_bmap i on s =
     put_blk (seg (512 * (i div 4096)) 512 (bm_v (bm_put (bmap s) i on))) (2 + i div 4096)
       (upd_sb (\<lambda>sb. sb\<lparr>block_freemap := Some (bm_put (bmap s) i on)\<rparr>) s)"

definition set_imap :: "nat \<Rightarrow> bool \<Rightarrow> 'd fsys \<Rightarrow> 'd fsys" where
  "set_imap i on s =
     put_blk (bm_v (bm_put (imap s) i on)) 1
       (upd_sb (\<lambda>sb. sb\<lparr>inode_freemap := Some (bm_put (imap s) i on)\<rparr>) s)"

lemma set_bmap_simps [simp]:
  "fs_bdev (set_bmap i on s) = fs_bdev s" "fs_out (set_bmap i on s) = fs_out s"
  "dsb (set_bmap i on s) = dsb s" "csum_table (fs_sb (set_bmap i on s)) = csum_table (fs_sb s)"
  "csum_block_dirty (fs_sb (set_bmap i on s)) = csum_block_dirty (fs_sb s)"
  "tx_in_progress (fs_sb (set_bmap i on s)) = tx_in_progress (fs_sb s)"
  "inode_freemap (fs_sb (set_bmap i on s)) = inode_freemap (fs_sb s)"
  "bmap (set_bmap i on s) = bm_put (bmap s) i on" "imap (set_bmap i on s) = imap s"
  "block_freemap (fs_sb (set_bmap i on s)) = Some (bm_put (bmap s) i on)"
  "iused (set_bmap i on s) = iused s"
  "csum_table_of (set_bmap i on s) = csum_table_of s" "dev_ok N (set_bmap i on s) = dev_ok N s"
  "csum_wf (set_bmap i on s) = csum_wf s"
  by (simp_all add: set_bmap_def bmap_def imap_def iused_def csum_table_of_def csum_wf_def)

lemma set_imap_simps [simp]:
  "fs_bdev (set_imap i on s) = fs_bdev s" "fs_out (set_imap i on s) = fs_out s"
  "dsb (set_imap i on s) = dsb s" "csum_table (fs_sb (set_imap i on s)) = csum_table (fs_sb s)"
  "csum_block_dirty (fs_sb (set_imap i on s)) = csum_block_dirty (fs_sb s)"
  "tx_in_progress (fs_sb (set_imap i on s)) = tx_in_progress (fs_sb s)"
  "block_freemap (fs_sb (set_imap i on s)) = block_freemap (fs_sb s)"
  "imap (set_imap i on s) = bm_put (imap s) i on" "bmap (set_imap i on s) = bmap s"
  "inode_freemap (fs_sb (set_imap i on s)) = Some (bm_put (imap s) i on)"
  "used (set_imap i on s) = used s"
  "csum_table_of (set_imap i on s) = csum_table_of s" "dev_ok N (set_imap i on s) = dev_ok N s"
  "csum_wf (set_imap i on s) = csum_wf s"
  by (simp_all add: set_imap_def bmap_def imap_def used_def csum_table_of_def csum_wf_def)

lemma fs_ok_set_bmap: "fs_ok N s \<Longrightarrow> i < 8192 \<Longrightarrow> fs_ok N (set_bmap i on s)"
  using bm_wf_put [of "bmap s" i on] by (simp add: fs_ok_def freemaps_wf_def)

lemma fs_ok_set_imap: "fs_ok N s \<Longrightarrow> i < 4096 \<Longrightarrow> fs_ok N (set_imap i on s)"
  using bm_wf_put [of "imap s" i on] by (simp add: fs_ok_def freemaps_wf_def)

lemma used_set_bmap:
  "fs_ok N s \<Longrightarrow> i < 8192 \<Longrightarrow>
   used (set_bmap i on s) = (if on then insert i (used s) else used s - {i})"
  using fs_okD(7,8) [of N s] by (simp add: used_def bm_set_put)

lemma iused_set_imap:
  "fs_ok N s \<Longrightarrow> i < 4096 \<Longrightarrow>
   iused (set_imap i on s) = (if on then insert i (iused s) else iused s - {i})"
  using fs_okD(10,11) [of N s] by (simp add: iused_def bm_set_put)

lemma dblk_set_bmap:
  assumes "fs_ok N s" "i < 8192" "j < N"
  shows "dblk (set_bmap i on s) j =
    (if j = 2 + i div 4096 then seg (512 * (i div 4096)) 512 (bm_v (bm_put (bmap s) i on))
     else dblk s j)"
proof -
  have "i div 4096 < 2" using assms(2) by (simp add: less_mult_imp_div_less)
  then have "512 * (i div 4096) + 512 \<le> length (bm_v (bm_put (bmap s) i on))" "2 + i div 4096 < N"
    using length_bmap [OF assms(1)] fs_okD(3) [OF assms(1)] by simp_all
  then show ?thesis using assms fs_okD(1) [OF assms(1)] by (simp add: set_bmap_def dblk_put_blk)
qed

lemma dblk_set_bmap_other [simp]:
  "fs_ok N s \<Longrightarrow> i < 8192 \<Longrightarrow> j < N \<Longrightarrow> j \<noteq> 2 \<Longrightarrow> j \<noteq> 3 \<Longrightarrow> dblk (set_bmap i on s) j = dblk s j"
proof -
  assume a: "fs_ok N s" "i < 8192" "j < N" "j \<noteq> 2" "j \<noteq> 3"
  have "i div 4096 < 2" using a(2) by (simp add: less_mult_imp_div_less)
  then have "j \<noteq> 2 + i div 4096" using a(4,5) by linarith
  with a show ?thesis by (simp add: dblk_set_bmap)
qed

lemma dblk_set_imap:
  assumes "fs_ok N s" "j < N"
  shows "dblk (set_imap i on s) j = (if j = 1 then bm_v (bm_put (imap s) i on) else dblk s j)"
  using assms length_imap [OF assms(1)] fs_okD(1,3) [OF assms(1)]
  by (simp add: set_imap_def dblk_put_blk)

section \<open>The operations, evaluated\<close>

lemma write_block_freemap_eq:
  assumes "fs_ok N s" "i < 8192"
  shows "testfs_write_block_freemap (int i) (upd_sb (\<lambda>sb. sb\<lparr>block_freemap := Some (bm_put (bmap s) i on)\<rparr>) s)
    = Inr (set_bmap i on s)"
proof -
  note ok = fs_okD [OF assms(1)]
  let ?m = "bm_put (bmap s) i on"
  let ?s = "upd_sb (\<lambda>sb. sb\<lparr>block_freemap := Some ?m\<rparr>) s"
  define q where "q = i div 4096"
  have q: "q < 2" using assms(2) by (simp add: q_def less_mult_imp_div_less)
  have iq: "int i sdiv 4096 = int q" by (simp add: q_def zdiv_int)
  have len: "512 \<le> length (drop (512 * q) (bm_v ?m))"
    using length_bmap [OF assms(1)] q by simp
  have "write_blocks (drop (512 * q) (bm_v ?m)) (2 + int q) 1 ?s =
      Inr (put_blk (drop (512 * q) (bm_v ?m)) (2 + q) ?s)"
    using write_block [of N ?s "2 + int q"] ok(1,3) q len by (simp add: nat_add_distrib)
  moreover have "put_blk (drop (512 * q) (bm_v ?m)) (2 + q) ?s = set_bmap i on s"
    unfolding set_bmap_def seg_def q_def by (subst put_blk_take) simp
  moreover have "nat (int q * 512) = 512 * q" by simp
  ultimately show ?thesis
    using ok(4) iq by (simp add: testfs_write_block_freemap_def bitmap_getdata_def std_dsb_def
        del: sdiv_nonneg)
qed

lemma write_inode_freemap_eq:
  assumes "fs_ok N s" "i < 4096"
  shows "testfs_write_inode_freemap (int i) (upd_sb (\<lambda>sb. sb\<lparr>inode_freemap := Some (bm_put (imap s) i on)\<rparr>) s)
    = Inr (set_imap i on s)"
proof -
  note ok = fs_okD [OF assms(1)]
  let ?m = "bm_put (imap s) i on"
  let ?s = "upd_sb (\<lambda>sb. sb\<lparr>inode_freemap := Some ?m\<rparr>) s"
  have "write_blocks (bm_v ?m) 1 1 ?s = Inr (put_blk (bm_v ?m) 1 ?s)"
    using write_block [of N ?s 1] ok(1,3) length_imap [OF assms(1)] by simp
  then show ?thesis
    using ok(4) assms(2) by (simp add: testfs_write_inode_freemap_def bitmap_getdata_def std_dsb_def
        set_imap_def)
qed

lemma sint_word_of_nat: "i < 2 ^ 31 \<Longrightarrow> sint (word_of_nat i :: 32 word) = int i"
  using sint_of_int32 [of "int i"] by (simp add: in_int32_def)

text \<open>The lowest free data block, and whether there is one.\<close>

definition next_free :: "'d fsys \<Rightarrow> nat" where
  "next_free s = first_clear (bmap s) 0"

lemma next_free:
  assumes "fs_ok N s" "used s \<noteq> {..< 8192}"
  shows "next_free s < 8192" "next_free s \<notin> used s"
    "\<And>j. j < 8192 \<Longrightarrow> j \<notin> used s \<Longrightarrow> next_free s \<le> j"
  using assms fs_okD(7,8) [OF assms(1)] first_clear_bound [of "bmap s"] first_clear_least [of _ "bmap s"]
  by (simp_all add: next_free_def used_def)

lemma get_block_freemap_full:
  assumes "fs_ok N s" "used s = {..< 8192}"
  shows "testfs_get_block_freemap s = Inr (- ENOSPC, s)"
  using assms fs_okD(6-8) [OF assms(1)]
  by (simp add: testfs_get_block_freemap_def bitmap_alloc_eq used_def upd_sb_def)

lemma get_block_freemap_free:
  assumes "fs_ok N s" "used s \<noteq> {..< 8192}"
  shows "testfs_get_block_freemap s = Inr (int (next_free s), set_bmap (next_free s) True s)"
  using assms fs_okD(6-8) [OF assms(1)] next_free(1) [OF assms] write_block_freemap_eq [OF assms(1)]
  by (simp add: testfs_get_block_freemap_def bitmap_alloc_eq used_def sint_word_of_nat
      next_free_def [symmetric])

lemma put_block_freemap_eq:
  assumes "fs_ok N s" "i < 8192"
  shows "testfs_put_block_freemap (int i) s =
    (if i \<in> used s then Inr (set_bmap i False s) else Inl AssertFail)"
  using assms fs_okD(6-8) [OF assms(1)] write_block_freemap_eq [OF assms(1), of i False]
    bitmap_unmark_eq [of "bmap s" i]
  by (simp add: testfs_put_block_freemap_def used_def)

definition next_free_inode :: "'d fsys \<Rightarrow> nat" where
  "next_free_inode s = first_clear (imap s) 0"

lemma next_free_inode:
  assumes "fs_ok N s" "iused s \<noteq> {..< 4096}"
  shows "next_free_inode s < 4096" "next_free_inode s \<notin> iused s"
    "\<And>j. j < 4096 \<Longrightarrow> j \<notin> iused s \<Longrightarrow> next_free_inode s \<le> j"
  using assms fs_okD(10,11) [OF assms(1)] first_clear_bound [of "imap s"] first_clear_least [of _ "imap s"]
  by (simp_all add: next_free_inode_def iused_def)

lemma get_inode_freemap_eq:
  assumes "fs_ok N s"
  shows "testfs_get_inode_freemap s =
    (if iused s = {..< 4096} then Inr (- ENOSPC, s)
     else Inr (int (next_free_inode s), set_imap (next_free_inode s) True s))"
proof (cases "iused s = {..< 4096}")
  case True
  then show ?thesis using fs_okD(9-11) [OF assms]
    by (simp add: testfs_get_inode_freemap_def bitmap_alloc_eq iused_def upd_sb_def)
next
  case False
  then show ?thesis
    using fs_okD(9-11) [OF assms] next_free_inode(1) [OF assms] write_inode_freemap_eq [OF assms]
    by (simp add: testfs_get_inode_freemap_def bitmap_alloc_eq iused_def sint_word_of_nat
        next_free_inode_def [symmetric])
qed

lemma put_inode_freemap_eq:
  assumes "fs_ok N s" "i < 4096"
  shows "testfs_put_inode_freemap (int i) s =
    (if i \<in> iused s then Inr (set_imap i False s) else Inl AssertFail)"
  using assms fs_okD(9-11) [OF assms(1)] write_inode_freemap_eq [OF assms(1), of i False]
    bitmap_unmark_eq [of "imap s" i]
  by (simp add: testfs_put_inode_freemap_def iused_def)

lemma alloc_block_eq:
  assumes "fs_ok N s"
  shows "testfs_alloc_block block s =
    (if used s = {..< 8192} then Inr (- ENOSPC, block, s)
     else Inr (192 + int (next_free s), replicate BLOCK_SIZE 0, set_bmap (next_free s) True s))"
  using get_block_freemap_full [OF assms] get_block_freemap_free [OF assms] fs_okD(4) [OF assms]
  by (simp add: testfs_alloc_block_def ENOSPC_def std_dsb_def)

text \<open>Releasing a data block: it is zeroed, then its bit is cleared.\<close>

definition free_st :: "nat \<Rightarrow> 'd fsys \<Rightarrow> 'd fsys" where
  "free_st i s = set_bmap i False (put_blk (replicate BLOCK_SIZE 0) (192 + i) s)"

lemma put_blk_frame [simp]:
  "bmap (put_blk b i s) = bmap s" "imap (put_blk b i s) = imap s" "used (put_blk b i s) = used s"
  "iused (put_blk b i s) = iused s" "csum_table_of (put_blk b i s) = csum_table_of s"
  "csum_wf (put_blk b i s) = csum_wf s" "freemaps_wf (put_blk b i s) = freemaps_wf s"
  by (simp_all add: bmap_def imap_def used_def iused_def csum_table_of_def csum_wf_def freemaps_wf_def)

lemma fs_ok_put_blk [simp]: "fs_ok N (put_blk b i s) = fs_ok N s"
  by (simp add: fs_ok_def)

lemma put_csum_frame [simp]:
  "bmap (put_csum_st k c s) = bmap s" "imap (put_csum_st k c s) = imap s"
  "used (put_csum_st k c s) = used s" "iused (put_csum_st k c s) = iused s"
  "freemaps_wf (put_csum_st k c s) = freemaps_wf s"
  by (simp_all add: bmap_def imap_def used_def iused_def freemaps_wf_def)

lemma fs_ok_put_csum: "fs_ok N s \<Longrightarrow> fs_ok N (put_csum_st k c s)"
  by (simp add: fs_ok_def)

lemma zero_blocks_1:
  "dev_ok N s \<Longrightarrow> a < N \<Longrightarrow> zero_blocks (int a) 1 s = Inr (put_blk (replicate BLOCK_SIZE 0) a s)"
  by (simp add: zero_blocks_def write_block)

lemma free_block_eq:
  assumes "fs_ok N s" "i < MAX_NR_CSUMS"
  shows "testfs_free_block (192 + int i) s =
    (if i \<in> used s then Inr (0, free_st i s) else Inl AssertFail)"
proof -
  let ?s = "put_blk (replicate BLOCK_SIZE 0) (192 + i) s"
  have "zero_blocks (192 + int i) 1 s = Inr ?s"
    using zero_blocks_1 [of N s "192 + i"] assms fs_okD(1,2) [OF assms(1)] by simp
  moreover have "testfs_put_block_freemap (int i) ?s =
      (if i \<in> used s then Inr (set_bmap i False ?s) else Inl AssertFail)"
    using put_block_freemap_eq [of N ?s i] assms by simp
  ultimately show ?thesis
    using fs_okD(4) [OF assms(1)] by (simp add: testfs_free_block_def std_dsb_def free_st_def)
qed

lemma free_st_simps [simp]:
  "fs_bdev (free_st i s) = fs_bdev s" "fs_out (free_st i s) = fs_out s" "dsb (free_st i s) = dsb s"
  "csum_block_dirty (fs_sb (free_st i s)) = csum_block_dirty (fs_sb s)"
  "tx_in_progress (fs_sb (free_st i s)) = tx_in_progress (fs_sb s)"
  "csum_table_of (free_st i s) = csum_table_of s" "iused (free_st i s) = iused s"
  "imap (free_st i s) = imap s" "bmap (free_st i s) = bm_put (bmap s) i False"
  by (simp_all add: free_st_def)

lemma fs_ok_free_st: "fs_ok N s \<Longrightarrow> i < 8192 \<Longrightarrow> fs_ok N (free_st i s)"
  by (simp add: free_st_def fs_ok_set_bmap)

lemma used_free_st: "fs_ok N s \<Longrightarrow> i < 8192 \<Longrightarrow> used (free_st i s) = used s - {i}"
  using used_set_bmap [of N "put_blk (replicate BLOCK_SIZE 0) (192 + i) s" i False]
  by (simp add: free_st_def)

lemma dblk_free_st:
  assumes "fs_ok N s" "i < MAX_NR_CSUMS" "j < N" "j \<noteq> 2" "j \<noteq> 3"
  shows "dblk (free_st i s) j = (if j = 192 + i then replicate BLOCK_SIZE 0 else dblk s j)"
  using assms fs_okD(1,2) [OF assms(1)] by (simp add: free_st_def dblk_put_blk)

section \<open>The freemaps on disk\<close>

lemma split_1024:
  assumes "length v = 1024"
  shows "seg 0 512 v @ seg 512 512 v = v"
  using assms by (simp add: seg_def)

lemma seg_bm_put_other:
  assumes "length (bm_v b) = 1024" "i < 8192" "k < 2" "k \<noteq> i div 4096"
  shows "seg (512 * k) 512 (bm_v (bm_put b i on)) = seg (512 * k) 512 (bm_v b)"
proof (rule nth_equalityI)
  show "length (seg (512 * k) 512 (bm_v (bm_put b i on))) = length (seg (512 * k) 512 (bm_v b))"
    using assms by simp
  fix j assume "j < length (seg (512 * k) 512 (bm_v (bm_put b i on)))"
  then have j: "j < 512" using assms by simp
  have "i div 8 \<noteq> 512 * k + j"
  proof
    assume "i div 8 = 512 * k + j"
    then have "i div 8 div 512 = k" using j by simp
    then show False using assms(4) by (simp add: div_mult2_eq [symmetric])
  qed
  then show "seg (512 * k) 512 (bm_v (bm_put b i on)) ! j = seg (512 * k) 512 (bm_v b) ! j"
    using assms j by (simp add: nth_seg bm_put_def)
qed

lemma freemaps_synced_set_bmap:
  assumes "fs_ok N s" "i < 8192" "freemaps_synced s"
  shows "freemaps_synced (set_bmap i on s)"
proof -
  let ?v = "bm_v (bm_put (bmap s) i on)"
  have len: "length (bm_v (bmap s)) = 1024" using assms(1) by (rule length_bmap)
  have N: "3 < N" using fs_okD(3) [OF assms(1)] by simp
  have l2: "length (dblk s 2) = 512" "length (dblk s 3) = 512"
    using length_dblk [OF fs_okD(1) [OF assms(1)]] N by simp_all
  have old: "dblk s 2 = seg (512 * 0) 512 (bm_v (bmap s))" "dblk s 3 = seg (512 * 1) 512 (bm_v (bmap s))"
    using assms(3) split_1024 [OF len] l2 len unfolding freemaps_synced_def
    by (simp_all add: seg_def append_eq_append_conv2) (metis append_eq_conv_conj)+
  have blk: "dblk (set_bmap i on s) (2 + k) = seg (512 * k) 512 ?v" if "k < 2" for k
  proof (cases "k = i div 4096")
    case True
    then show ?thesis using dblk_set_bmap [OF assms(1,2), of "2 + k" on] N that by simp
  next
    case False
    have "dblk s (2 + k) = seg (512 * k) 512 (bm_v (bmap s))"
      using old that by (cases "k = 0") (simp_all add: less_2_cases_iff)
    then show ?thesis
      using dblk_set_bmap [OF assms(1,2), of "2 + k" on] N that False
        seg_bm_put_other [OF len assms(2) that False, of on] by simp
  qed
  have "dblk (set_bmap i on s) 2 = seg 0 512 ?v" "dblk (set_bmap i on s) 3 = seg 512 512 ?v"
    using blk [of 0] blk [of 1] by simp_all
  moreover have "dblk (set_bmap i on s) 1 = dblk s 1" using assms N by simp
  ultimately show ?thesis
    using assms(3) len split_1024 [of ?v] by (simp add: freemaps_synced_def)
qed

lemma freemaps_synced_set_imap:
  assumes "fs_ok N s" "freemaps_synced s"
  shows "freemaps_synced (set_imap i on s)"
  using assms fs_okD(3) [OF assms(1)] by (simp add: freemaps_synced_def dblk_set_imap)

lemma freemaps_synced_frame:
  "freemaps_synced s \<Longrightarrow> (\<And>j. j < 4 \<Longrightarrow> dblk s' j = dblk s j) \<Longrightarrow> bmap s' = bmap s \<Longrightarrow> imap s' = imap s \<Longrightarrow>
   freemaps_synced s'"
  by (simp add: freemaps_synced_def)

lemma freemaps_synced_free_st:
  assumes "fs_ok N s" "i < MAX_NR_CSUMS" "freemaps_synced s"
  shows "freemaps_synced (free_st i s)"
proof -
  let ?t = "put_blk (replicate BLOCK_SIZE 0) (192 + i) s"
  have "freemaps_synced ?t"
    by (rule freemaps_synced_frame [OF assms(3)])
      (use assms fs_okD(1-3) [OF assms(1)] in \<open>simp_all add: dblk_put_blk\<close>)
  then show ?thesis unfolding free_st_def
    by (rule freemaps_synced_set_bmap [rotated 2]) (use assms in simp_all)
qed

text \<open>Whole-freemap flush, the deferred variant of the write-through.\<close>

lemma flush_block_freemap_eq:
  assumes "fs_ok N s"
  shows "testfs_flush_block_freemap s = Inr (put_blks (bm_v (bmap s)) 2 2 s)"
  using fs_okD [OF assms] length_bmap [OF assms] write_range [of N s 2 2 "bm_v (bmap s)"]
  by (simp add: testfs_flush_block_freemap_def bitmap_getdata_def std_dsb_def)

section \<open>The contract of a freemap\<close>

locale freemap =
  fixes inv :: "'s \<Rightarrow> bool" and taken :: "'s \<Rightarrow> nat set" and cap :: nat
    and get :: "'s \<Rightarrow> (int \<times> 's) res" and put :: "int \<Rightarrow> 's \<Rightarrow> 's res"
  assumes get_full: "inv s \<Longrightarrow> taken s = {..< cap} \<Longrightarrow> get s = Inr (- ENOSPC, s)"
    and get_free: "inv s \<Longrightarrow> taken s \<noteq> {..< cap} \<Longrightarrow>
      \<exists>i s'. get s = Inr (int i, s') \<and> i < cap \<and> i \<notin> taken s \<and>
             (\<forall>j < cap. j \<notin> taken s \<longrightarrow> i \<le> j) \<and> inv s' \<and> taken s' = insert i (taken s)"
    and put_taken: "inv s \<Longrightarrow> i \<in> taken s \<Longrightarrow>
      \<exists>s'. put (int i) s = Inr s' \<and> inv s' \<and> taken s' = taken s - {i}"
    and put_free: "inv s \<Longrightarrow> i < cap \<Longrightarrow> i \<notin> taken s \<Longrightarrow> put (int i) s = Inl AssertFail"
    and taken_bound: "inv s \<Longrightarrow> taken s \<subseteq> {..< cap}"
begin

text \<open>What is handed out is fresh, and giving it back restores the map.\<close>

lemma get_put:
  assumes "inv s" "get s = Inr (int i, s1)"
  shows "\<exists>s2. put (int i) s1 = Inr s2 \<and> inv s2 \<and> taken s2 = taken s"
proof (cases "taken s = {..< cap}")
  case True
  with assms get_full [of s] show ?thesis by (simp add: ENOSPC_def)
next
  case False
  with assms get_free [of s] have "i \<notin> taken s" "inv s1" "taken s1 = insert i (taken s)"
    by auto
  with put_taken [of s1 i] show ?thesis by auto
qed

lemma double_put:
  assumes "inv s" "i \<in> taken s" "put (int i) s = Inr s1"
  shows "put (int i) s1 = Inl AssertFail"
  using put_taken [OF assms(1,2)] assms(3) taken_bound [OF assms(1)] put_free [of s1 i] assms(2)
  by auto

text \<open>A map with room serves: it returns a number or \<open>ENOSPC\<close>, never anything else.\<close>

lemma get_total:
  assumes "inv s"
  shows "\<exists>r s'. get s = Inr (r, s') \<and> inv s' \<and> (r = - ENOSPC \<or> 0 \<le> r \<and> r < int cap)"
proof (cases "taken s = {..< cap}")
  case True
  with assms get_full [of s] show ?thesis by auto
next
  case False
  from get_free [OF assms False] obtain i s' where "get s = Inr (int i, s')" "i < cap" "inv s'"
    by auto
  then show ?thesis by auto
qed

end

lemma used_subset: "fs_ok N s \<Longrightarrow> used s \<subseteq> {..< 8192}"
  using used_bound by auto

lemma iused_subset: "fs_ok N s \<Longrightarrow> iused s \<subseteq> {..< 4096}"
  using bm_set_bound [of _ "imap s"] fs_okD(11) [of N s] by (auto simp: iused_def)

interpretation bfm: freemap "fs_ok N" used 8192 testfs_get_block_freemap testfs_put_block_freemap for N
proof unfold_locales
  fix s :: "'a fsys" and i
  assume s: "fs_ok N s"
  then show "used s \<subseteq> {..< 8192}" by (rule used_subset)
  show "testfs_get_block_freemap s = Inr (- ENOSPC, s)" if "used s = {..< 8192}"
    using s that by (rule get_block_freemap_full)
  show "\<exists>i s'. testfs_get_block_freemap s = Inr (int i, s') \<and> i < 8192 \<and> i \<notin> used s \<and>
      (\<forall>j < 8192. j \<notin> used s \<longrightarrow> i \<le> j) \<and> fs_ok N s' \<and> used s' = insert i (used s)"
    if "used s \<noteq> {..< 8192}"
    using get_block_freemap_free [OF s that] next_free [OF s that] fs_ok_set_bmap [OF s]
      used_set_bmap [OF s] by auto
  show "\<exists>s'. testfs_put_block_freemap (int i) s = Inr s' \<and> fs_ok N s' \<and> used s' = used s - {i}"
    if "i \<in> used s"
    using put_block_freemap_eq [OF s] used_bound [OF s that] fs_ok_set_bmap [OF s] that
      used_set_bmap [OF s] by auto
  show "testfs_put_block_freemap (int i) s = Inl AssertFail" if "i < 8192" "i \<notin> used s"
    using put_block_freemap_eq [OF s that(1)] that(2) by simp
qed

interpretation ifm: freemap "fs_ok N" iused 4096 testfs_get_inode_freemap testfs_put_inode_freemap for N
proof unfold_locales
  fix s :: "'a fsys" and i
  assume s: "fs_ok N s"
  then show "iused s \<subseteq> {..< 4096}" by (rule iused_subset)
  show "testfs_get_inode_freemap s = Inr (- ENOSPC, s)" if "iused s = {..< 4096}"
    using get_inode_freemap_eq [OF s] that by simp
  show "\<exists>i s'. testfs_get_inode_freemap s = Inr (int i, s') \<and> i < 4096 \<and> i \<notin> iused s \<and>
      (\<forall>j < 4096. j \<notin> iused s \<longrightarrow> i \<le> j) \<and> fs_ok N s' \<and> iused s' = insert i (iused s)"
    if "iused s \<noteq> {..< 4096}"
    using get_inode_freemap_eq [OF s] next_free_inode [OF s that] fs_ok_set_imap [OF s]
      iused_set_imap [OF s] that by auto
  show "\<exists>s'. testfs_put_inode_freemap (int i) s = Inr s' \<and> fs_ok N s' \<and> iused s' = iused s - {i}"
    if "i \<in> iused s"
    using put_inode_freemap_eq [OF s] iused_subset [OF s] fs_ok_set_imap [OF s] that
      iused_set_imap [OF s] by auto
  show "testfs_put_inode_freemap (int i) s = Inl AssertFail" if "i < 4096" "i \<notin> iused s"
    using put_inode_freemap_eq [OF s that(1)] that(2) by simp
qed

end
