(* ===== verification/Inode.thy ===== *)
theory Inode
  imports Super
begin

text \<open>
  The data path of \<open>src/inode.c\<close>: mapping logical to physical blocks, allocating them, reading,
  writing and truncating file data, and writing an inode back to its block.

  These functions work on one in-memory inode and the file system below it and on nothing else,
  so they take the inode by value and return it updated; \<open>Cache\<close> stores it back through the
  pointer.  Stack buffers that C leaves uninitialised are arguments (\<open>block\<close>) or hold zeros; the
  code overwrites them before it reads them.
\<close>

record inode =
  i_flags :: "32 word"
  i_in :: dinode
  i_nr :: int
  i_count :: int
  i_sb :: nat
  i_ind :: "32 word list"

definition I_FLAGS_DIRTY :: "32 word" where "I_FLAGS_DIRTY = 1"
definition I_FLAGS_INDIRECT_DIRTY :: "32 word" where "I_FLAGS_INDIRECT_DIRTY = 2"
definition I_FLAGS_INDIRECT_LOADED :: "32 word" where "I_FLAGS_INDIRECT_LOADED = 4"

definition set_flag :: "32 word \<Rightarrow> inode \<Rightarrow> inode" where
  "set_flag f ino = ino\<lparr>i_flags := i_flags ino OR f\<rparr>"

definition clear_flag :: "32 word \<Rightarrow> inode \<Rightarrow> inode" where
  "clear_flag f ino = ino\<lparr>i_flags := i_flags ino AND NOT f\<rparr>"

definition has_flag :: "inode \<Rightarrow> 32 word \<Rightarrow> bool" where
  "has_flag ino f \<longleftrightarrow> i_flags ino AND f \<noteq> 0"

definition upd_in :: "(dinode \<Rightarrow> dinode) \<Rightarrow> inode \<Rightarrow> inode" where
  "upd_in f ino = ino\<lparr>i_in := f (i_in ino)\<rparr>"

section \<open>Where an inode lives on disk\<close>

definition testfs_inode_to_block_nr :: "inode \<Rightarrow> int res" where
  "testfs_inode_to_block_nr ino =
     (let block_nr = int_of_size (size_of_int (i_nr ino) div INODES_PER_BLOCK)
      in bind_r (assert_r (0 \<le> block_nr)) (\<lambda>_.
         bind_r (assert_r (block_nr < NR_INODE_BLOCKS)) (\<lambda>_. Inr block_nr)))"

definition testfs_inode_to_block_offset :: "inode \<Rightarrow> int res" where
  "testfs_inode_to_block_offset ino =
     (let block_offset = int_of_size ((size_of_int (i_nr ino) mod INODES_PER_BLOCK) * 32)
      in bind_r (assert_r (0 \<le> block_offset)) (\<lambda>_.
         bind_r (assert_r (block_offset < BLOCK_SIZE)) (\<lambda>_. Inr block_offset)))"

definition testfs_read_inode_block :: "inode \<Rightarrow> 'd fsys \<Rightarrow> byte list res" where
  "testfs_read_inode_block ino s =
     bind_r (testfs_inode_to_block_nr ino) (\<lambda>block_nr.
       read_blocks s (inode_blocks_start (dsb s) + block_nr) 1)"

definition testfs_write_inode_block :: "inode \<Rightarrow> byte list \<Rightarrow> 'd fsys \<Rightarrow> 'd fsys res" where
  "testfs_write_inode_block ino block s =
     bind_r (testfs_inode_to_block_nr ino) (\<lambda>block_nr.
       write_blocks block (inode_blocks_start (dsb s) + block_nr) 1 s)"

definition testfs_sync_inode :: "inode \<Rightarrow> 'd fsys \<Rightarrow> (inode \<times> 'd fsys) res" where
  "testfs_sync_inode ino s =
     bind_r (assert_r (has_flag ino I_FLAGS_DIRTY)) (\<lambda>_.
     bind_r (testfs_read_inode_block ino s) (\<lambda>block.
     bind_r (testfs_inode_to_block_offset ino) (\<lambda>block_offset.
     bind_r (c_memcpy block block_offset (dinode_bytes (i_in ino)) 0 32) (\<lambda>block.
     bind_r (testfs_write_inode_block ino block s) (\<lambda>s.
     bind_r (if has_flag ino I_FLAGS_INDIRECT_DIRTY
             then bind_r (write_blocks (words_bytes (i_ind ino)) (i_indirect (i_in ino)) 1 s) (\<lambda>s.
                    Inr (clear_flag I_FLAGS_INDIRECT_DIRTY ino, s))
             else Inr (ino, s)) (\<lambda>(ino, s).
       Inr (clear_flag I_FLAGS_DIRTY ino, s)))))))"

section \<open>Logical and physical blocks\<close>

text \<open>The result is the physical block number (0: unmapped, negative: error) and the buffer.\<close>

definition read_phy_block :: "'d fsys \<Rightarrow> byte list \<Rightarrow> int \<Rightarrow> (int \<times> byte list) res" where
  "read_phy_block s block phy_block_nr =
     (if 0 < phy_block_nr
      then bind_r (read_blocks s phy_block_nr 1) (\<lambda>block. Inr (phy_block_nr, block))
      else Inr (phy_block_nr, block))"

definition testfs_get_block :: "inode \<Rightarrow> byte list \<Rightarrow> int \<Rightarrow> 'd fsys \<Rightarrow> (int \<times> byte list) res" where
  "testfs_get_block ino block log_block_nr s =
     bind_r (assert_r (0 \<le> log_block_nr)) (\<lambda>_.
       if log_block_nr < NR_DIRECT_BLOCKS
       then bind_r (nth_r (i_block_nr (i_in ino)) log_block_nr) (read_phy_block s block)
       else (let log_block_nr = log_block_nr - NR_DIRECT_BLOCKS
             in if log_block_nr \<ge> NR_INDIRECT_BLOCKS then Inr (- EFBIG, block)
                else if i_indirect (i_in ino) = 0 then Inr (0, block)
                else bind_r (read_blocks s (i_indirect (i_in ino)) 1) (\<lambda>block.
                       read_phy_block s block (int_at block (nat log_block_nr)))))"

definition testfs_allocate_block ::
    "inode \<Rightarrow> byte list \<Rightarrow> int \<Rightarrow> 'd fsys \<Rightarrow> (int \<times> byte list \<times> inode \<times> 'd fsys) res" where
  "testfs_allocate_block ino block log_block_nr s =
     bind_r (assert_r (0 \<le> log_block_nr)) (\<lambda>_.
     bind_r (testfs_get_block ino block log_block_nr s) (\<lambda>(phy_block_nr, block).
       if phy_block_nr \<noteq> 0 then Inr (phy_block_nr, block, ino, s)
       else if log_block_nr < NR_DIRECT_BLOCKS then
         bind_r (testfs_alloc_block block s) (\<lambda>(phy_block_nr, block, s).
           if phy_block_nr < 0 then Inr (phy_block_nr, block, ino, s)
           else Inr (phy_block_nr, block,
                  set_flag I_FLAGS_DIRTY (upd_in (\<lambda>d. d\<lparr>i_block_nr :=
                    (i_block_nr d)[nat log_block_nr := phy_block_nr]\<rparr>) ino), s))
       else (let log_block_nr = log_block_nr - NR_DIRECT_BLOCKS in
         bind_r (assert_r (log_block_nr < NR_INDIRECT_BLOCKS)) (\<lambda>_.
         bind_r (if i_indirect (i_in ino) = 0
                 then testfs_alloc_block (replicate BLOCK_SIZE 0) s
                 else bind_r (read_blocks s (i_indirect (i_in ino)) 1) (\<lambda>indirect.
                        Inr (i_indirect (i_in ino), indirect, s))) (\<lambda>(ind_nr, indirect, s).
           if i_indirect (i_in ino) = 0 \<and> ind_nr < 0 then Inr (ind_nr, block, ino, s)
           else
             let ino = (if i_indirect (i_in ino) = 0
                        then set_flag I_FLAGS_DIRTY (upd_in (\<lambda>d. d\<lparr>i_indirect := ind_nr\<rparr>) ino)
                        else ino)
             in bind_r (testfs_alloc_block block s) (\<lambda>(phy_block_nr, block, s).
                let indirect = (if 0 < phy_block_nr
                                then set_int_at indirect (nat log_block_nr) phy_block_nr
                                else indirect)
                in bind_r (write_blocks indirect (i_indirect (i_in ino)) 1 s) (\<lambda>s.
                     Inr (phy_block_nr, block, ino, s))))))))"

section \<open>Truncation\<close>

function trunc_direct :: "int \<Rightarrow> int \<Rightarrow> inode \<Rightarrow> 'd fsys \<Rightarrow> (inode \<times> 'd fsys) res" where
  "trunc_direct i e_block_nr ino s =
     (if i < e_block_nr \<and> i < NR_DIRECT_BLOCKS then
        bind_r (nth_r (i_block_nr (i_in ino)) i) (\<lambda>block_nr.
        bind_r (assert_r (0 < block_nr)) (\<lambda>_.
        bind_r (testfs_free_block block_nr s) (\<lambda>(_, s).
          trunc_direct (i + 1) e_block_nr
            (set_flag I_FLAGS_DIRTY (upd_in (\<lambda>d. d\<lparr>i_block_nr := (i_block_nr d)[nat i := 0]\<rparr>) ino)) s)))
      else Inr (ino, s))"
  by pat_completeness auto
termination
  by (relation "measure (\<lambda>(i, e, ino, s). nat (NR_DIRECT_BLOCKS - i))") auto

function trunc_indirect :: "int \<Rightarrow> int \<Rightarrow> byte list \<Rightarrow> 'd fsys \<Rightarrow> (byte list \<times> 'd fsys) res" where
  "trunc_indirect i e_block_nr block s =
     (if i < e_block_nr \<and> i < NR_INDIRECT_BLOCKS then
        (let block_nr = int_at block (nat i) in
         bind_r (assert_r (0 < block_nr)) (\<lambda>_.
         bind_r (testfs_free_block block_nr s) (\<lambda>(_, s).
           trunc_indirect (i + 1) e_block_nr (set_int_at block (nat i) 0) s)))
      else Inr (block, s))"
  by pat_completeness auto
termination
  by (relation "measure (\<lambda>(i, e, block, s). nat (NR_INDIRECT_BLOCKS - i))") auto

definition testfs_truncate_data :: "inode \<Rightarrow> int \<Rightarrow> 'd fsys \<Rightarrow> (inode \<times> 'd fsys) res" where
  "testfs_truncate_data ino sz s =
     (if i_size (i_in ino) \<le> sz then Inr (ino, s)
      else
        let s_block_nr = DIVROUNDUP sz BLOCK_SIZE;
            e_block_nr = DIVROUNDUP (i_size (i_in ino)) BLOCK_SIZE
        in bind_r (trunc_direct s_block_nr e_block_nr ino s) (\<lambda>(ino, s).
           let s_block_nr = max (s_block_nr - NR_DIRECT_BLOCKS) 0;
               e_block_nr = e_block_nr - NR_DIRECT_BLOCKS
           in bind_r
                (if 0 < e_block_nr then
                   bind_r (assert_r (0 < i_indirect (i_in ino))) (\<lambda>_.
                   bind_r (read_blocks s (i_indirect (i_in ino)) 1) (\<lambda>block.
                   bind_r (trunc_indirect s_block_nr e_block_nr block s) (\<lambda>(block, s).
                     if s_block_nr = 0 then
                       bind_r (testfs_free_block (i_indirect (i_in ino)) s) (\<lambda>(_, s).
                         Inr (set_flag I_FLAGS_DIRTY (upd_in (\<lambda>d. d\<lparr>i_indirect := 0\<rparr>) ino), s))
                     else
                       bind_r (write_blocks block (i_indirect (i_in ino)) 1 s) (\<lambda>s. Inr (ino, s)))))
                 else bind_r (assert_r (i_indirect (i_in ino) = 0)) (\<lambda>_. Inr (ino, s)))
                (\<lambda>(ino, s).
                  Inr (set_flag I_FLAGS_DIRTY (upd_in (\<lambda>d. d\<lparr>i_size := sz\<rparr>) ino), s))))"

section \<open>Reading and writing file data\<close>

text \<open>
  The \<open>do \<dots> while (!done)\<close> loops.  The last round is the one whose rest of the buffer fits into
  the block; after the first round the offset in the block is 0.
\<close>

definition last_round :: "int \<Rightarrow> int \<Rightarrow> int \<Rightarrow> bool" where
  "last_round sz buf_offset b_offset \<longleftrightarrow> sz - buf_offset \<le> BLOCK_SIZE - b_offset"

definition copy_size :: "int \<Rightarrow> int \<Rightarrow> int \<Rightarrow> int" where
  "copy_size sz buf_offset b_offset =
     (if last_round sz buf_offset b_offset then sz - buf_offset else BLOCK_SIZE - b_offset)"

definition loop_measure :: "int \<Rightarrow> int \<Rightarrow> int \<Rightarrow> nat" where
  "loop_measure sz buf_offset b_offset = nat (sz - buf_offset) * 2 + (if b_offset = 0 then 0 else 1)"

lemma c_memcpy_nonneg: "c_memcpy dst d src k n = Inr r \<Longrightarrow> 0 \<le> n"
  by (simp add: c_memcpy_def split: if_splits)

lemma loop_measure_less:
  "\<not> last_round sz bo o' \<Longrightarrow> 0 \<le> copy_size sz bo o' \<Longrightarrow>
   loop_measure sz (bo + copy_size sz bo o') 0 < loop_measure sz bo o'"
  by (auto simp: loop_measure_def copy_size_def last_round_def)

function read_loop :: "inode \<Rightarrow> byte list \<Rightarrow> byte list \<Rightarrow> int \<Rightarrow> int \<Rightarrow> int \<Rightarrow> int \<Rightarrow> 'd fsys \<Rightarrow>
    (int \<times> byte list) res" where
  "read_loop ino block buf sz start buf_offset b_offset s =
     bind_r (testfs_get_block ino block ((start + buf_offset) sdiv BLOCK_SIZE) s) (\<lambda>(block_nr, block).
       if block_nr < 0 then Inr (block_nr, buf)
       else
         bind_r (assert_r (0 < block_nr)) (\<lambda>_.
         bind_r (c_memcpy buf buf_offset block b_offset (copy_size sz buf_offset b_offset)) (\<lambda>buf'.
           if last_round sz buf_offset b_offset then Inr (0, buf')
           else read_loop ino block buf' sz start (buf_offset + copy_size sz buf_offset b_offset) 0 s)))"
  by pat_completeness auto
termination
  by (relation "measure (\<lambda>(ino, block, buf, sz, start, bo, o', s). loop_measure sz bo o')")
    (auto dest: c_memcpy_nonneg intro: loop_measure_less)

definition testfs_read_data :: "inode \<Rightarrow> int \<Rightarrow> byte list \<Rightarrow> int \<Rightarrow> 'd fsys \<Rightarrow> (int \<times> byte list) res" where
  "testfs_read_data ino start buf sz s =
     bind_r (check_r Overflow (in_int32 (start + sz))) (\<lambda>_.
     bind_r (assert_r (start + sz \<le> i_size (i_in ino))) (\<lambda>_.
       read_loop ino (replicate BLOCK_SIZE 0) buf sz start 0 (start smod BLOCK_SIZE) s))"

function write_loop :: "inode \<Rightarrow> byte list \<Rightarrow> byte list \<Rightarrow> int \<Rightarrow> int \<Rightarrow> int \<Rightarrow> int \<Rightarrow> 'd fsys \<Rightarrow>
    (int \<times> inode \<times> 'd fsys) res" where
  "write_loop ino block buf sz start buf_offset b_offset s =
     bind_r (testfs_allocate_block ino block ((start + buf_offset) sdiv BLOCK_SIZE) s)
       (\<lambda>(block_nr, block, ino, s).
       if block_nr < 0 then
         (let orig_size = i_size (i_in ino) in
          bind_r (testfs_truncate_data
                    (set_flag I_FLAGS_DIRTY
                      (upd_in (\<lambda>d. d\<lparr>i_size := max orig_size (start + buf_offset)\<rparr>) ino)) orig_size s)
            (\<lambda>(ino, s). Inr (block_nr, ino, s)))
       else
         bind_r (assert_r (0 < block_nr)) (\<lambda>_.
         bind_r (c_memcpy block b_offset buf buf_offset (copy_size sz buf_offset b_offset)) (\<lambda>block'.
         bind_r (testfs_calculate_csum block' BLOCK_SIZE) (\<lambda>csum.
         bind_r (write_blocks block' block_nr 1 s) (\<lambda>s.
         bind_r (testfs_put_csum block_nr csum s) (\<lambda>s.
           if last_round sz buf_offset b_offset then
             Inr (0, set_flag I_FLAGS_DIRTY
                       (upd_in (\<lambda>d. d\<lparr>i_size := max (i_size d) (start + sz)\<rparr>) ino), s)
           else write_loop ino block' buf sz start
                  (buf_offset + copy_size sz buf_offset b_offset) 0 s))))))"
  by pat_completeness auto
termination
  by (relation "measure (\<lambda>(ino, block, buf, sz, start, bo, o', s). loop_measure sz bo o')")
    (auto dest: c_memcpy_nonneg intro: loop_measure_less)

definition testfs_write_data :: "inode \<Rightarrow> int \<Rightarrow> byte list \<Rightarrow> int \<Rightarrow> 'd fsys \<Rightarrow>
    (int \<times> inode \<times> 'd fsys) res" where
  "testfs_write_data ino start buf sz s =
     bind_r (assert_r (start \<le> i_size (i_in ino))) (\<lambda>_.
       write_loop ino (replicate BLOCK_SIZE 0) buf sz start 0 (start smod BLOCK_SIZE) s)"

declare trunc_direct.simps [simp del] trunc_indirect.simps [simp del]
  read_loop.simps [simp del] write_loop.simps [simp del]

end
