(* ===== verification/InodeMap.thy ===== *)
theory InodeMap
  imports Inode
begin

text \<open>
  What an inode's block pointers mean.  \<open>lblk s d n\<close> is the block number stored for logical block
  \<open>n\<close>; \<open>imap_ok s d m\<close> says that exactly the first \<open>m\<close> logical blocks are mapped, to distinct
  allocated data blocks that are also distinct from the indirect block, which exists if and only
  if \<open>m > 4\<close>.  \<open>data_step N A s s'\<close> is what an operation on one inode may do to the rest of the
  file system: nothing to the blocks outside \<open>A\<close> that were allocated before it.

  The lemmas say what \<open>testfs_get_block\<close> and \<open>testfs_allocate_block\<close> return and keep.
\<close>

section \<open>The map of an inode\<close>

definition lblk :: "'d fsys \<Rightarrow> dinode \<Rightarrow> nat \<Rightarrow> int" where
  "lblk s d n =
     (if n < NR_DIRECT_BLOCKS then i_block_nr d ! n
      else if i_indirect d = 0 then 0
      else int_at (dblk s (nat (i_indirect d))) (n - NR_DIRECT_BLOCKS))"

text \<open>The disk blocks of the allocated data blocks that have a checksum.\<close>

definition ublocks :: "'d fsys \<Rightarrow> int set" where
  "ublocks s = (\<lambda>k. 192 + int k) ` (used s \<inter> {..< MAX_NR_CSUMS})"

definition ablocks :: "'d fsys \<Rightarrow> int set" where
  "ablocks s = (\<lambda>k. 192 + int k) ` used s"

definition iblks :: "'d fsys \<Rightarrow> dinode \<Rightarrow> nat \<Rightarrow> int set" where
  "iblks s d m = lblk s d ` {..< m} \<union> (if NR_DIRECT_BLOCKS < m then {i_indirect d} else {})"

definition imap_ok :: "'d fsys \<Rightarrow> dinode \<Rightarrow> nat \<Rightarrow> bool" where
  "imap_ok s d m \<longleftrightarrow>
     m \<le> 132 \<and> length (i_block_nr d) = NR_DIRECT_BLOCKS \<and> (i_indirect d = 0 \<longleftrightarrow> m \<le> NR_DIRECT_BLOCKS) \<and>
     inj_on (lblk s d) {..< m} \<and> (NR_DIRECT_BLOCKS < m \<longrightarrow> i_indirect d \<notin> lblk s d ` {..< m}) \<and>
     iblks s d m \<subseteq> ublocks s \<and> (\<forall>n < 132. m \<le> n \<longrightarrow> lblk s d n = 0)"

lemma ublocksE:
  assumes "b \<in> ublocks s"
  obtains k where "b = 192 + int k" "k < MAX_NR_CSUMS" "k \<in> used s"
  using assms by (auto simp: ublocks_def)

lemma ublocks_iff [simp]: "192 + int k \<in> ublocks s \<longleftrightarrow> k < MAX_NR_CSUMS \<and> k \<in> used s"
  by (auto simp: ublocks_def)

lemma ablocks_iff [simp]: "192 + int k \<in> ablocks s \<longleftrightarrow> k \<in> used s"
  by (auto simp: ablocks_def)

lemma ublocks_ablocks: "b \<in> ublocks s \<Longrightarrow> b \<in> ablocks s"
  by (auto simp: ublocks_def ablocks_def)

lemma lblk_in_iblks: "n < m \<Longrightarrow> lblk s d n \<in> iblks s d m"
  by (simp add: iblks_def)

lemma lblk_mapped:
  assumes "imap_ok s d m" "n < m"
  obtains k where "lblk s d n = 192 + int k" "k < MAX_NR_CSUMS" "k \<in> used s"
proof -
  have "lblk s d n \<in> ublocks s" using assms by (auto simp: imap_ok_def iblks_def)
  then show thesis using that by (rule ublocksE)
qed

lemma indirect_mapped:
  assumes "imap_ok s d m" "4 < m"
  obtains k where "i_indirect d = 192 + int k" "k < MAX_NR_CSUMS" "k \<in> used s"
proof -
  have "i_indirect d \<in> ublocks s" using assms by (auto simp: imap_ok_def iblks_def)
  then show thesis using that by (rule ublocksE)
qed

lemma imap_okD:
  assumes "imap_ok s d m"
  shows "m \<le> 132" "length (i_block_nr d) = 4" "i_indirect d = 0 \<longleftrightarrow> m \<le> 4"
    "n < 132 \<Longrightarrow> m \<le> n \<Longrightarrow> lblk s d n = 0"
    "i < m \<Longrightarrow> j < m \<Longrightarrow> lblk s d i = lblk s d j \<longleftrightarrow> i = j"
    "4 < m \<Longrightarrow> i < m \<Longrightarrow> lblk s d i \<noteq> i_indirect d"
proof -
  show "m \<le> 132" "length (i_block_nr d) = 4" "i_indirect d = 0 \<longleftrightarrow> m \<le> 4"
    using assms by (simp_all add: imap_ok_def)
  show "lblk s d n = 0" if "n < 132" "m \<le> n"
    using assms that by (simp add: imap_ok_def)
  show "lblk s d i = lblk s d j \<longleftrightarrow> i = j" if "i < m" "j < m"
  proof -
    have "inj_on (lblk s d) {..< m}" using assms by (simp add: imap_ok_def)
    then show ?thesis using that by (simp add: inj_on_eq_iff)
  qed
  show "lblk s d i \<noteq> i_indirect d" if "4 < m" "i < m"
  proof
    assume "lblk s d i = i_indirect d"
    then have "i_indirect d \<in> lblk s d ` {..< m}" using that(2) by (metis imageI lessThan_iff)
    then show False using assms that by (simp add: imap_ok_def)
  qed
qed

text \<open>The map depends on the indirect block and the pointers only.\<close>

lemma lblk_cong:
  "i_block_nr d' = i_block_nr d \<Longrightarrow> i_indirect d' = i_indirect d \<Longrightarrow>
   (i_indirect d \<noteq> 0 \<Longrightarrow> dblk s' (nat (i_indirect d)) = dblk s (nat (i_indirect d))) \<Longrightarrow>
   lblk s' d' = lblk s d"
  by (auto simp: lblk_def fun_eq_iff)

lemma imap_ok_frame:
  assumes "imap_ok s d m" "i_block_nr d' = i_block_nr d" "i_indirect d' = i_indirect d"
    and "4 < m \<Longrightarrow> dblk s' (nat (i_indirect d)) = dblk s (nat (i_indirect d))"
    and "iblks s d m \<inter> ublocks s \<subseteq> ublocks s'"
  shows "imap_ok s' d' m" "lblk s' d' = lblk s d" "iblks s' d' m = iblks s d m"
proof -
  show l: "lblk s' d' = lblk s d"
  proof (rule lblk_cong [OF assms(2,3)])
    assume "i_indirect d \<noteq> 0"
    then have "4 < m" using imap_okD(3) [OF assms(1)] by simp
    then show "dblk s' (nat (i_indirect d)) = dblk s (nat (i_indirect d))" by (rule assms(4))
  qed
  then show i: "iblks s' d' m = iblks s d m" using assms(3) by (simp add: iblks_def)
  have "iblks s d m \<subseteq> ublocks s'" using assms(1,5) unfolding imap_ok_def by blast
  then show "imap_ok s' d' m"
    using assms(1-3) by (simp add: imap_ok_def i l)
qed

section \<open>Free data blocks\<close>

definition nfree :: "'d fsys \<Rightarrow> nat" where
  "nfree s = card ({..< MAX_NR_CSUMS} - used s)"

lemma nfree_next:
  assumes "fs_ok N s" "0 < nfree s"
  shows "used s \<noteq> {..< 8192}" "next_free s < MAX_NR_CSUMS" "next_free s \<notin> used s"
proof -
  have "{..< 7680} - used s \<noteq> {}"
    using assms(2) unfolding nfree_def by (metis card.empty less_irrefl)
  then obtain i where i: "i < 7680" "i \<notin> used s" by blast
  then have "i \<in> {..< 8192}" by simp
  with i(2) show u: "used s \<noteq> {..< 8192}" by blast
  show "next_free s < 7680" using next_free(3) [OF assms(1) u, of i] i by simp
  show "next_free s \<notin> used s" by (rule next_free(2) [OF assms(1) u])
qed

lemma nfree_set_bmap:
  assumes "fs_ok N s" "k < MAX_NR_CSUMS" "k \<notin> used s"
  shows "nfree (set_bmap k True s) = nfree s - 1"
proof -
  have "{..< 7680} - insert k (used s) = ({..< 7680} - used s) - {k}" by auto
  then show ?thesis using assms used_set_bmap [OF assms(1), of k True] by (simp add: nfree_def)
qed

lemma nfree_free_st:
  assumes "fs_ok N s" "k < MAX_NR_CSUMS" "k \<in> used s"
  shows "nfree (free_st k s) = nfree s + 1"
proof -
  have "{..< 7680} - (used s - {k}) = insert k ({..< 7680} - used s)" using assms(2) by auto
  then show ?thesis using assms used_free_st [OF assms(1), of k] by (simp add: nfree_def)
qed

section \<open>What an operation on one inode leaves alone\<close>

definition data_step :: "nat \<Rightarrow> int set \<Rightarrow> 'd fsys \<Rightarrow> 'd fsys \<Rightarrow> bool" where
  "data_step N A s s' \<longleftrightarrow>
     fs_ok N s' \<and> fs_bdev s' = fs_bdev s \<and> fs_out s' = fs_out s \<and> imap s' = imap s \<and>
     tx_in_progress (fs_sb s') = tx_in_progress (fs_sb s) \<and>
     csum_block_dirty (fs_sb s') = csum_block_dirty (fs_sb s) \<and>
     (freemaps_synced s \<longrightarrow> freemaps_synced s') \<and> (csum_coherent s \<longrightarrow> csum_coherent s') \<and>
     (\<forall>j < N. j < 2 \<or> 64 \<le> j \<and> j < 192 \<longrightarrow> dblk s' j = dblk s j) \<and>
     (\<forall>k \<in> used s. 192 + int k \<notin> A \<longrightarrow>
        k \<in> used s' \<and>
        (k < MAX_NR_CSUMS \<longrightarrow> dblk s' (192 + k) = dblk s (192 + k) \<and>
                            csum_table_of s' ! k = csum_table_of s ! k))"

lemma data_stepD:
  assumes "data_step N A s s'"
  shows "fs_ok N s'" "fs_bdev s' = fs_bdev s" "fs_out s' = fs_out s" "imap s' = imap s"
    "tx_in_progress (fs_sb s') = tx_in_progress (fs_sb s)"
    "csum_block_dirty (fs_sb s') = csum_block_dirty (fs_sb s)"
    "freemaps_synced s \<Longrightarrow> freemaps_synced s'" "csum_coherent s \<Longrightarrow> csum_coherent s'"
    "j < N \<Longrightarrow> j < 2 \<or> 64 \<le> j \<and> j < 192 \<Longrightarrow> dblk s' j = dblk s j"
    "k \<in> used s \<Longrightarrow> 192 + int k \<notin> A \<Longrightarrow> k \<in> used s'"
    "k \<in> used s \<Longrightarrow> 192 + int k \<notin> A \<Longrightarrow> k < MAX_NR_CSUMS \<Longrightarrow> dblk s' (192 + k) = dblk s (192 + k)"
    "k \<in> used s \<Longrightarrow> 192 + int k \<notin> A \<Longrightarrow> k < MAX_NR_CSUMS \<Longrightarrow>
       csum_table_of s' ! k = csum_table_of s ! k"
  using assms unfolding data_step_def by blast+

lemma data_step_refl: "fs_ok N s \<Longrightarrow> data_step N A s s"
  by (simp add: data_step_def)

lemma data_step_trans:
  assumes "data_step N A s s'" "data_step N B s' s''"
    and "\<And>k. k \<in> used s \<Longrightarrow> 192 + int k \<in> B \<Longrightarrow> 192 + int k \<in> A"
  shows "data_step N A s s''"
proof -
  note a = data_stepD [OF assms(1)] and b = data_stepD [OF assms(2)]
  have keep: "k \<in> used s' \<and> 192 + int k \<notin> B \<and> k \<in> used s''"
    if "k \<in> used s" "192 + int k \<notin> A" for k
    using a(10) [OF that] b(10) assms(3) [of k] that by blast
  have "\<forall>k \<in> used s. 192 + int k \<notin> A \<longrightarrow>
      k \<in> used s'' \<and>
      (k < MAX_NR_CSUMS \<longrightarrow> dblk s'' (192 + k) = dblk s (192 + k) \<and>
                          csum_table_of s'' ! k = csum_table_of s ! k)"
    using keep a(11,12) b(11,12) by metis
  then show ?thesis
    using a(2-9) b(1-9) unfolding data_step_def by simp
qed

lemma data_step_mono: "data_step N A s s' \<Longrightarrow> A \<subseteq> B \<Longrightarrow> data_step N B s s'"
  unfolding data_step_def by blast

lemma data_step_set_bmap:
  assumes "fs_ok N s" "k < MAX_NR_CSUMS" "k \<notin> used s"
  shows "data_step N A s (set_bmap k True s)"
  using assms fs_ok_set_bmap [OF assms(1), of k True] used_set_bmap [OF assms(1), of k True]
    freemaps_synced_set_bmap [OF assms(1), of k True] fs_okD(2) [OF assms(1)]
  by (auto simp: data_step_def csum_coherent_def csum_tblk_def)

lemma data_step_put_blk:
  assumes "fs_ok N s" "k < MAX_NR_CSUMS" "BLOCK_SIZE \<le> length b" "192 + int k \<in> A"
  shows "data_step N A s (put_blk b (192 + k) s)"
  unfolding data_step_def
  using assms fs_okD(1,2) [OF assms(1)]
  by (auto simp: dblk_put_blk freemaps_synced_def csum_coherent_def csum_tblk_def)

lemma data_step_put_csum:
  assumes "fs_ok N s" "k < MAX_NR_CSUMS" "192 + int k \<in> A"
  shows "data_step N A s (put_csum_st k c s)"
proof -
  note ok = fs_okD [OF assms(1)]
  have "freemaps_synced (put_csum_st k c s) = freemaps_synced s"
    using assms ok(1,3,5) by (simp add: freemaps_synced_def dblk_put_csum)
  moreover have "dblk (put_csum_st k c s) j = dblk s j" if "j < N" "j < 4 \<or> 64 \<le> j" for j
    using assms ok that by (cases "j < 4") (simp_all add: dblk_put_csum)
  moreover have "(csum_table_of s)[k := c] ! i = csum_table_of s ! i" if "192 + int i \<notin> A" for i
    using assms(3) that by (cases "i = k") simp_all
  ultimately show ?thesis unfolding data_step_def
    using assms(1,2) fs_ok_put_csum [OF assms(1)] ok csum_coherent_put_csum [OF ok(1,3,5) assms(2)]
    by simp
qed

lemma data_step_free_st:
  assumes "fs_ok N s" "k < MAX_NR_CSUMS" "192 + int k \<in> A"
  shows "data_step N A s (free_st k s)"
  unfolding data_step_def
  using assms fs_ok_free_st [OF assms(1), of k] used_free_st [OF assms(1), of k] fs_okD(2) [OF assms(1)]
    freemaps_synced_free_st [OF assms(1,2)]
  by (auto simp: dblk_free_st csum_coherent_def csum_tblk_def)

section \<open>\<open>testfs_get_block\<close>\<close>

lemma data_block_bound:
  assumes "fs_ok N s" "k < MAX_NR_CSUMS"
  shows "192 + k < N" "192 + int k < int N" "192 + int k < 2147483648"
  using assms fs_okD(1,2) [OF assms(1)] by (simp_all add: dev_ok_def)

lemma get_block_mapped:
  assumes ok: "fs_ok N s" and im: "imap_ok s (i_in ino) m" and n: "n < m"
  shows "testfs_get_block ino block (int n) s =
    Inr (lblk s (i_in ino) n, dblk s (nat (lblk s (i_in ino) n)))"
proof -
  note dev = fs_okD(1) [OF ok]
  obtain k where k: "lblk s (i_in ino) n = 192 + int k" "k < 7680"
    using im n by (rule lblk_mapped)
  have rd: "read_phy_block s b (192 + int k) = Inr (192 + int k, dblk s (nat (192 + int k)))" for b
    using read_block [OF dev, of "192 + int k"] data_block_bound [OF ok k(2)]
    by (simp add: read_phy_block_def)
  show ?thesis
  proof (cases "n < 4")
    case True
    then have "i_block_nr (i_in ino) ! n = 192 + int k" using k(1) by (simp add: lblk_def)
    then show ?thesis
      using True imap_okD(2) [OF im] rd [of block] k(1) by (simp add: testfs_get_block_def)
  next
    case False
    then have m: "4 < m" using n by simp
    obtain i where i: "i_indirect (i_in ino) = 192 + int i" "i < 7680"
      using im m by (rule indirect_mapped)
    have n4: "nat (int n - 4) = n - 4" using False by simp
    have "int_at (dblk s (nat (192 + int i))) (n - 4) = 192 + int k"
      using k(1) i(1) False by (simp add: lblk_def)
    moreover have "read_blocks s (192 + int i) 1 = Inr (dblk s (nat (192 + int i)))"
      using read_block [OF dev, of "192 + int i"] data_block_bound [OF ok i(2)] by simp
    ultimately show ?thesis
      using False n imap_okD(1) [OF im] i(1) k(1) rd n4 by (simp add: testfs_get_block_def)
  qed
qed

lemma get_block_unmapped:
  assumes ok: "fs_ok N s" and im: "imap_ok s (i_in ino) m" and n: "m \<le> n" "n < 132"
    and len: "length block = 512"
  shows "\<exists>b. testfs_get_block ino block (int n) s = Inr (0, b) \<and> length b = 512"
proof -
  note dev = fs_okD(1) [OF ok]
  have z: "lblk s (i_in ino) n = 0" using imap_okD(4) [OF im] n by simp
  have rd: "read_phy_block s b 0 = Inr (0, b)" for b by (simp add: read_phy_block_def)
  show ?thesis
  proof (cases "n < 4")
    case True
    then show ?thesis
      using z imap_okD(2) [OF im] rd [of block] len by (simp add: testfs_get_block_def lblk_def)
  next
    case False
    have n4: "nat (int n - 4) = n - 4" using False by simp
    show ?thesis
    proof (cases "m \<le> 4")
      case True
      then show ?thesis
        using False n len imap_okD(3) [OF im] by (simp add: testfs_get_block_def)
    next
      case m: False
      then have "4 < m" by simp
      then obtain i where i: "i_indirect (i_in ino) = 192 + int i" "i < 7680"
        by (rule indirect_mapped [OF im])
      have "int_at (dblk s (nat (192 + int i))) (n - 4) = 0"
        using z i(1) False by (simp add: lblk_def)
      moreover have "read_blocks s (192 + int i) 1 = Inr (dblk s (nat (192 + int i)))"
        using read_block [OF dev, of "192 + int i"] data_block_bound [OF ok i(2)] by simp
      moreover have "length (dblk s (nat (192 + int i))) = 512"
        using length_dblk [OF dev, of "192 + i"] data_block_bound [OF ok i(2)]
        by (simp add: nat_add_distrib)
      ultimately show ?thesis
        using False n i(1) rd n4 by (simp add: testfs_get_block_def)
    qed
  qed
qed

lemma get_block_too_big:
  "132 \<le> n \<Longrightarrow> testfs_get_block ino block (int n) s = Inr (- EFBIG, block)"
  by (simp add: testfs_get_block_def)

section \<open>\<open>testfs_allocate_block\<close>\<close>

text \<open>An operation on the data of an inode keeps its identity, and marks it when it changes it.\<close>

definition same_inode :: "inode \<Rightarrow> inode \<Rightarrow> bool" where
  "same_inode ino ino' \<longleftrightarrow>
     i_nr ino' = i_nr ino \<and> i_count ino' = i_count ino \<and> i_sb ino' = i_sb ino \<and> i_ind ino' = i_ind ino \<and>
     i_type (i_in ino') = i_type (i_in ino) \<and> i_mod_time (i_in ino') = i_mod_time (i_in ino) \<and>
     has_flag ino' I_FLAGS_INDIRECT_DIRTY = has_flag ino I_FLAGS_INDIRECT_DIRTY \<and>
     (has_flag ino I_FLAGS_DIRTY \<longrightarrow> has_flag ino' I_FLAGS_DIRTY) \<and>
     (has_flag ino' I_FLAGS_DIRTY \<or> i_in ino' = i_in ino)"

lemma same_inode_refl [simp]: "same_inode ino ino"
  by (simp add: same_inode_def)

lemma same_inode_trans: "same_inode a b \<Longrightarrow> same_inode b c \<Longrightarrow> same_inode a c"
  by (auto simp: same_inode_def)

lemma flag_simps [simp]:
  "has_flag (set_flag I_FLAGS_DIRTY ino) I_FLAGS_DIRTY"
  "has_flag (set_flag I_FLAGS_DIRTY ino) I_FLAGS_INDIRECT_DIRTY = has_flag ino I_FLAGS_INDIRECT_DIRTY"
  "\<not> has_flag (clear_flag I_FLAGS_DIRTY ino) I_FLAGS_DIRTY"
  "has_flag (clear_flag I_FLAGS_DIRTY ino) I_FLAGS_INDIRECT_DIRTY = has_flag ino I_FLAGS_INDIRECT_DIRTY"
proof -
  have "(w OR 1) AND 1 = (1 :: 32 word)" "(w OR 1) AND 2 = w AND (2 :: 32 word)"
    "(w AND NOT 1) AND 1 = (0 :: 32 word)" for w :: "32 word"
    by (simp_all add: word_ao_dist word_bw_assocs)
  moreover have "(w AND NOT 1) AND 2 = w AND (2 :: 32 word)" for w :: "32 word"
    by (simp add: and.assoc)
  ultimately show
    "has_flag (set_flag I_FLAGS_DIRTY ino) I_FLAGS_DIRTY"
    "has_flag (set_flag I_FLAGS_DIRTY ino) I_FLAGS_INDIRECT_DIRTY = has_flag ino I_FLAGS_INDIRECT_DIRTY"
    "\<not> has_flag (clear_flag I_FLAGS_DIRTY ino) I_FLAGS_DIRTY"
    "has_flag (clear_flag I_FLAGS_DIRTY ino) I_FLAGS_INDIRECT_DIRTY = has_flag ino I_FLAGS_INDIRECT_DIRTY"
    by (simp_all add: has_flag_def set_flag_def clear_flag_def I_FLAGS_DIRTY_def
        I_FLAGS_INDIRECT_DIRTY_def)
qed

lemma flag_fields [simp]:
  "i_in (set_flag f ino) = i_in ino" "i_in (clear_flag f ino) = i_in ino"
  "i_in (upd_in g ino) = g (i_in ino)"
  "i_nr (set_flag f ino) = i_nr ino" "i_nr (clear_flag f ino) = i_nr ino" "i_nr (upd_in g ino) = i_nr ino"
  "i_count (set_flag f ino) = i_count ino" "i_count (clear_flag f ino) = i_count ino"
  "i_count (upd_in g ino) = i_count ino"
  "i_sb (set_flag f ino) = i_sb ino" "i_sb (clear_flag f ino) = i_sb ino" "i_sb (upd_in g ino) = i_sb ino"
  "i_ind (set_flag f ino) = i_ind ino" "i_ind (clear_flag f ino) = i_ind ino"
  "i_ind (upd_in g ino) = i_ind ino" "has_flag (upd_in g ino) f = has_flag ino f"
  by (simp_all add: set_flag_def clear_flag_def upd_in_def has_flag_def)

lemma same_inode_upd:
  "i_type (g (i_in ino)) = i_type (i_in ino) \<Longrightarrow> i_mod_time (g (i_in ino)) = i_mod_time (i_in ino) \<Longrightarrow>
   same_inode ino (set_flag I_FLAGS_DIRTY (upd_in g ino))"
  by (simp add: same_inode_def)

lemma alloc_block_fresh:
  assumes "fs_ok N s" "0 < nfree s"
  shows "testfs_alloc_block block s =
    Inr (192 + int (next_free s), replicate 512 0, set_bmap (next_free s) True s)"
  using alloc_block_eq [OF assms(1), of block] nfree_next(1) [OF assms] by simp

text \<open>Mapping one more block keeps the map an injection into the allocated blocks.\<close>

lemma imap_ok_extend:
  assumes im: "imap_ok s d m" and m: "m < 132" and k: "k < MAX_NR_CSUMS" "k \<notin> used s"
    and us: "insert k (used s) \<subseteq> used s'" and len: "length (i_block_nr d') = 4"
    and l: "\<And>j. j < 132 \<Longrightarrow> lblk s' d' j = (if j = m then 192 + int k else lblk s d j)"
    and low: "m < 4 \<Longrightarrow> i_indirect d' = 0"
    and high: "4 \<le> m \<Longrightarrow> i_indirect d' \<in> ublocks s' \<and> i_indirect d' \<noteq> 192 + int k \<and>
                        i_indirect d' \<notin> lblk s d ` {..< m}"
  shows "imap_ok s' d' (Suc m)"
proof -
  have sub: "ublocks s \<subseteq> ublocks s'" using us by (auto simp: ublocks_def)
  have old: "lblk s d j \<in> ublocks s" if "j < m" for j
    using im that unfolding imap_ok_def iblks_def by blast
  have new: "192 + int k \<notin> ublocks s" "192 + int k \<in> ublocks s'" using k us by simp_all
  have img: "lblk s' d' ` {..< Suc m} = insert (192 + int k) (lblk s d ` {..< m})"
  proof -
    have "lblk s' d' ` {..< m} = lblk s d ` {..< m}"
      by (rule image_cong) (use l m in auto)
    then show ?thesis using l [OF m] by (simp add: lessThan_Suc)
  qed
  have ne: "lblk s d j \<noteq> 192 + int k" if "j < m" for j using old [OF that] new(1) by metis
  have "inj_on (lblk s' d') {..< Suc m}"
  proof (rule inj_onI)
    fix x y assume xy: "x \<in> {..< Suc m}" "y \<in> {..< Suc m}" "lblk s' d' x = lblk s' d' y"
    then have lt: "x < 132" "y < 132" using m by simp_all
    show "x = y"
      using xy imap_okD(5) [OF im, of x y] ne [of x] ne [of y]
      unfolding l [OF lt(1)] l [OF lt(2)] by (auto split: if_splits)
  qed
  moreover have "iblks s' d' (Suc m) \<subseteq> ublocks s'"
    unfolding iblks_def img using new(2) old sub high by auto
  moreover have "i_indirect d' \<notin> lblk s' d' ` {..< Suc m}" if "4 < Suc m"
    unfolding img using high that by simp
  moreover have "i_indirect d' = 0 \<longleftrightarrow> Suc m \<le> 4"
  proof (cases "m < 4")
    case False
    then have "i_indirect d' \<in> ublocks s'" using high by simp
    then show ?thesis using False by (auto elim: ublocksE)
  qed (use low in simp)
  moreover have "\<forall>n < 132. Suc m \<le> n \<longrightarrow> lblk s' d' n = 0"
    using imap_okD(4) [OF im] l by simp
  ultimately show ?thesis using m len unfolding imap_ok_def by simp
qed

text \<open>What an allocation of logical block \<open>n\<close> promises; \<open>need n\<close> data blocks are taken.\<close>

definition need :: "nat \<Rightarrow> nat" where
  "need n = (if n = NR_DIRECT_BLOCKS then 2 else 1)"

definition alloc_post :: "nat \<Rightarrow> inode \<Rightarrow> nat \<Rightarrow> 'd fsys \<Rightarrow> nat \<Rightarrow> inode \<Rightarrow> 'd fsys \<Rightarrow> bool" where
  "alloc_post N ino n s k ino' s' \<longleftrightarrow>
     k < MAX_NR_CSUMS \<and> k \<notin> used s \<and> imap_ok s' (i_in ino') (Suc n) \<and>
     (\<forall>j < 132. lblk s' (i_in ino') j = (if j = n then 192 + int k else lblk s (i_in ino) j)) \<and>
     i_size (i_in ino') = i_size (i_in ino) \<and> same_inode ino ino' \<and>
     (if n = NR_DIRECT_BLOCKS then i_indirect (i_in ino') \<notin> ablocks s
      else i_indirect (i_in ino') = i_indirect (i_in ino)) \<and>
     ablocks s' = insert (192 + int k) (ablocks s) \<union>
       (if n = NR_DIRECT_BLOCKS then {i_indirect (i_in ino')} else {}) \<and>
     data_step N {i_indirect (i_in ino)} s s' \<and> nfree s = nfree s' + need n"

lemma nfree_pos: "k < MAX_NR_CSUMS \<Longrightarrow> k \<notin> used s \<Longrightarrow> 0 < nfree s"
  by (auto simp: nfree_def card_gt_0_iff)

lemma nfree_take:
  "fs_ok N s \<Longrightarrow> k < MAX_NR_CSUMS \<Longrightarrow> k \<notin> used s \<Longrightarrow> nfree s = Suc (nfree (set_bmap k True s))"
  using nfree_set_bmap [of N s k] nfree_pos [of k s] by simp

text \<open>The three ways a block is mapped, for any free blocks \<open>k\<close> and \<open>i\<close>.\<close>

lemma post_direct:
  assumes ok: "fs_ok N s" and im: "imap_ok s (i_in ino) n" and n: "n < 4" and k: "k < MAX_NR_CSUMS" "k \<notin> used s"
    and d: "i_in ino' = (i_in ino)\<lparr>i_block_nr := (i_block_nr (i_in ino))[n := 192 + int k]\<rparr>" and same: "same_inode ino ino'"
  shows "alloc_post N ino n s k ino' (set_bmap k True s)"
proof -
  let ?s = "set_bmap k True s"
  have ind: "i_indirect (i_in ino) = 0" using imap_okD(3) [OF im] n by simp
  have l: "lblk ?s (i_in ino') j = (if j = n then 192 + int k else lblk s (i_in ino) j)" if "j < 132" for j
    using imap_okD(2) [OF im] ind n by (simp add: lblk_def nth_list_update d)
  have "imap_ok ?s (i_in ino') (Suc n)"
    by (rule imap_ok_extend [OF im _ k _ _ l])
      (use n k used_set_bmap [OF ok, of k True] imap_okD(2) [OF im] ind d in simp_all)
  moreover have "data_step N {i_indirect (i_in ino)} s ?s"
    using ok k by (rule data_step_set_bmap)
  ultimately show ?thesis
    unfolding alloc_post_def
    using k l n nfree_take [OF ok k] used_set_bmap [OF ok, of k True] same
    by (simp add: need_def ablocks_def d)
qed

lemma post_indirect:
  assumes ok: "fs_ok N s" and im: "imap_ok s (i_in ino) n" and n: "4 < n" "n < 132" and k: "k < MAX_NR_CSUMS" "k \<notin> used s"
    and i: "i_indirect (i_in ino) = 192 + int i" "i < MAX_NR_CSUMS" "i \<in> used s"
    and d: "i_in ino' = i_in ino" and same: "same_inode ino ino'"
  shows "alloc_post N ino n s k ino'
    (put_blk (set_int_at (dblk s (192 + i)) (n - 4) (192 + int k)) (192 + i) (set_bmap k True s))"
proof -
  let ?t = "set_bmap k True s"
  let ?old = "dblk s (192 + i)"
  let ?new = "set_int_at ?old (n - 4) (192 + int k)"
  let ?s = "put_blk ?new (192 + i) ?t"
  note dev = fs_okD(1) [OF ok] and bnd = data_block_bound [OF ok i(2)]
  have lold: "length ?old = 512" using length_dblk [OF dev bnd(1)] .
  then have lnew: "length ?new = 512" using n by simp
  have ik: "i \<noteq> k" using i(3) k(2) by metis
  have in32: "in_int32 (192 + int k)" using data_block_bound(3) [OF ok k(1)] by (simp add: in_int32_def)
  have okt: "fs_ok N ?t" using fs_ok_set_bmap [OF ok] k(1) by simp
  have new: "dblk ?s (192 + i) = ?new"
    using dblk_put_blk [of N ?t "192 + i" "192 + i" ?new] dev bnd lnew by simp
  have l: "lblk ?s (i_in ino') j = (if j = n then 192 + int k else lblk s (i_in ino) j)"
    if "j < 132" for j
  proof (cases "j < 4")
    case False
    then have "n - 4 = j - 4 \<longleftrightarrow> j = n" using n by auto
    then show ?thesis using False that new i(1) lold n in32
      by (simp add: lblk_def int_at_set_int_at nat_add_distrib d)
  qed (use n in \<open>simp add: lblk_def d\<close>)
  have used: "used ?s = insert k (used s)"
    using used_set_bmap [OF ok, of k True] k(1) by simp
  have len: "length (i_block_nr (i_in ino')) = 4" using imap_okD(2) [OF im] d by simp
  have "imap_ok ?s (i_in ino') (Suc n)"
  proof (rule imap_ok_extend [OF im n(2) k _ len l])
    show "i_indirect (i_in ino') \<in> ublocks ?s \<and> i_indirect (i_in ino') \<noteq> 192 + int k \<and>
        i_indirect (i_in ino') \<notin> lblk s (i_in ino) ` {..< n}"
      using i ik used im n(1) unfolding imap_ok_def d by simp
  qed (use n used in simp_all)
  moreover have "data_step N {i_indirect (i_in ino)} s ?s"
    by (rule data_step_trans [OF data_step_set_bmap [OF ok k]
          data_step_put_blk [OF okt i(2), of _ "{192 + int i}"]])
      (use lnew i(1) in simp_all)
  moreover have "nfree ?s = nfree ?t" by (simp add: nfree_def)
  ultimately show ?thesis
    unfolding alloc_post_def
    using k l n nfree_take [OF ok k] used same by (simp add: need_def ablocks_def d)
qed

text \<open>The first indirect block: \<open>u\<close> is the state in which both blocks have been taken, in either order.\<close>

lemma post_first_indirect:
  assumes ok: "fs_ok N s" and im: "imap_ok s (i_in ino) 4" and k: "k < MAX_NR_CSUMS" "k \<notin> used s"
    and i: "i < MAX_NR_CSUMS" "i \<notin> used s" "i \<noteq> k"
    and u: "data_step N {192 + int i} s u" "used u = insert k (insert i (used s))" "nfree s = nfree u + 2"
    and d: "i_in ino' = (i_in ino)\<lparr>i_indirect := 192 + int i\<rparr>" and same: "same_inode ino ino'"
  shows "alloc_post N ino 4 s k ino' (put_blk (set_int_at (replicate 512 0) 0 (192 + int k)) (192 + i) u)"
proof -
  let ?new = "set_int_at (replicate 512 0) 0 (192 + int k)"
  let ?s = "put_blk ?new (192 + i) u"
  note bnd = data_block_bound [OF ok i(1)]
  have oku: "fs_ok N u" using data_stepD(1) [OF u(1)] .
  have lnew: "length ?new = 512" by simp
  have ind: "i_indirect (i_in ino) = 0" using imap_okD(3) [OF im] by simp
  have used: "used ?s = insert k (insert i (used s))" using u(2) by simp
  have in32: "in_int32 (192 + int k)" using data_block_bound(3) [OF ok k(1)] by (simp add: in_int32_def)
  have new: "dblk ?s (192 + i) = ?new"
    using dblk_put_blk [of N u "192 + i" "192 + i" ?new] fs_okD(1) [OF oku] bnd lnew by simp
  have l: "lblk ?s (i_in ino') j = (if j = 4 then 192 + int k else lblk s (i_in ino) j)"
    if "j < 132" for j
  proof (cases "j < 4")
    case False
    then have "0 = j - 4 \<longleftrightarrow> j = 4" by auto
    then show ?thesis using False that new ind in32
      by (simp add: lblk_def int_at_set_int_at int_at_replicate_0 nat_add_distrib d)
  qed (simp add: lblk_def d)
  have fresh: "192 + int i \<notin> lblk s (i_in ino) ` {..< 4}"
  proof
    assume "192 + int i \<in> lblk s (i_in ino) ` {..< 4}"
    then have "192 + int i \<in> ublocks s" using im unfolding imap_ok_def iblks_def by blast
    then show False using i(2) by simp
  qed
  have "imap_ok ?s (i_in ino') (Suc 4)"
    by (rule imap_ok_extend [OF im _ k _ _ l])
      (use used i fresh imap_okD(2) [OF im] d in \<open>simp_all add: subset_insertI2\<close>)
  moreover have "data_step N {i_indirect (i_in ino)} s ?s"
  proof -
    have "data_step N {192 + int i} u ?s"
      using oku i(1) by (rule data_step_put_blk) (use lnew in simp_all)
    with u(1) have st: "data_step N {192 + int i} s ?s" by (rule data_step_trans)
    show ?thesis
      by (rule data_step_trans [OF data_step_refl [OF ok] st]) (use i(2) in auto)
  qed
  moreover have "nfree ?s = nfree u" by (simp add: nfree_def)
  ultimately show ?thesis
    unfolding alloc_post_def
    using i k l u(3) used same by (simp add: need_def ablocks_def image_iff insert_commute d)
qed

lemma allocate_direct:
  assumes ok: "fs_ok N s" and im: "imap_ok s (i_in ino) n" and n: "n < 4"
    and free: "0 < nfree s" and len: "length block = 512"
  shows "\<exists>k ino' s'. testfs_allocate_block ino block (int n) s =
      Inr (192 + int k, replicate 512 0, ino', s') \<and> alloc_post N ino n s k ino' s'"
proof -
  let ?k = "next_free s"
  let ?ino = "set_flag I_FLAGS_DIRTY (upd_in (\<lambda>d. d\<lparr>i_block_nr :=
      (i_block_nr d)[n := 192 + int (next_free s)]\<rparr>) ino)"
  note k = nfree_next [OF ok free]
  obtain b where b: "testfs_get_block ino block (int n) s = Inr (0, b)"
    using get_block_unmapped [OF ok im _ _ len, of n] n by auto
  have "testfs_allocate_block ino block (int n) s = Inr (192 + int ?k, replicate 512 0, ?ino, set_bmap ?k True s)"
    using b n alloc_block_fresh [OF ok free, of b] by (simp add: testfs_allocate_block_def)
  moreover have "alloc_post N ino n s ?k ?ino (set_bmap ?k True s)"
    by (rule post_direct [OF ok im n k(2,3)]) (simp_all add: same_inode_upd)
  ultimately show ?thesis by blast
qed

lemma allocate_indirect:
  assumes ok: "fs_ok N s" and im: "imap_ok s (i_in ino) n" and n: "4 < n" "n < 132"
    and free: "0 < nfree s" and len: "length block = 512"
  shows "\<exists>k ino' s'. testfs_allocate_block ino block (int n) s =
      Inr (192 + int k, replicate 512 0, ino', s') \<and> alloc_post N ino n s k ino' s'"
proof -
  let ?k = "next_free s" and ?t = "set_bmap (next_free s) True s"
  note k = nfree_next [OF ok free]
  obtain b where b: "testfs_get_block ino block (int n) s = Inr (0, b)"
    using get_block_unmapped [OF ok im _ _ len, of n] n by auto
  obtain i where i: "i_indirect (i_in ino) = 192 + int i" "i < 7680" "i \<in> used s"
    using im n(1) by (rule indirect_mapped)
  let ?new = "set_int_at (dblk s (192 + i)) (n - 4) (192 + int ?k)"
  note dev = fs_okD(1) [OF ok] and bnd = data_block_bound [OF ok i(2)]
  have lnew: "length ?new = 512" using length_dblk [OF dev bnd(1)] n by simp
  have rd: "read_blocks s (192 + int i) 1 = Inr (dblk s (192 + i))"
    using read_block [OF dev, of "192 + int i"] bnd by (simp add: nat_add_distrib)
  have wr: "write_blocks ?new (192 + int i) 1 ?t = Inr (put_blk ?new (192 + i) ?t)"
    using write_block [of N ?t "192 + int i" ?new] dev bnd lnew by (simp add: nat_add_distrib)
  have n4: "nat (int n - 4) = n - 4" using n by simp
  have "testfs_allocate_block ino block (int n) s =
      Inr (192 + int ?k, replicate 512 0, ino, put_blk ?new (192 + i) ?t)"
    using b n rd wr n4 i(1) alloc_block_fresh [OF ok free, of b] by (simp add: testfs_allocate_block_def)
  moreover have "alloc_post N ino n s ?k ino (put_blk ?new (192 + i) ?t)"
    by (rule post_indirect [OF ok im n k(2,3) i]) simp_all
  ultimately show ?thesis by blast
qed

lemma allocate_first_indirect:
  assumes ok: "fs_ok N s" and im: "imap_ok s (i_in ino) 4"
    and free: "2 \<le> nfree s" and len: "length block = 512"
  shows "\<exists>k ino' s'. testfs_allocate_block ino block 4 s =
      Inr (192 + int k, replicate 512 0, ino', s') \<and> alloc_post N ino 4 s k ino' s'"
proof -
  let ?i = "next_free s" and ?t = "set_bmap (next_free s) True s"
  have free1: "0 < nfree s" using free by simp
  note i = nfree_next [OF ok free1]
  have okt: "fs_ok N ?t" using fs_ok_set_bmap [OF ok] i(2) by simp
  have nft: "nfree s = Suc (nfree ?t)" using nfree_take [OF ok i(2,3)] .
  then have freet: "0 < nfree ?t" using free by simp
  let ?k = "next_free ?t" and ?u = "set_bmap (next_free ?t) True ?t"
  note k = nfree_next [OF okt freet]
  let ?new = "set_int_at (replicate 512 0) 0 (192 + int ?k)"
  let ?s = "put_blk ?new (192 + ?i) ?u"
  let ?ino = "set_flag I_FLAGS_DIRTY (upd_in (\<lambda>d. d\<lparr>i_indirect := 192 + int (next_free s)\<rparr>) ino)"
  note bnd = data_block_bound [OF ok i(2)]
  have oku: "fs_ok N ?u" using fs_ok_set_bmap [OF okt] k(2) by simp
  obtain b where b: "testfs_get_block ino block 4 s = Inr (0, b)"
    using get_block_unmapped [OF ok im _ _ len, of 4] by auto
  have ind: "i_indirect (i_in ino) = 0" using imap_okD(3) [OF im] by simp
  have wr: "write_blocks ?new (192 + int ?i) 1 ?u = Inr ?s"
    using write_block [of N ?u "192 + int ?i" ?new] fs_okD(1) [OF oku] bnd
    by (simp add: nat_add_distrib)
  have run: "testfs_allocate_block ino block 4 s = Inr (192 + int ?k, replicate 512 0, ?ino, ?s)"
    using b wr ind alloc_block_fresh [OF ok free1, of "replicate 512 0"] alloc_block_fresh [OF okt freet, of b]
    by (simp add: testfs_allocate_block_def)
  have usedt: "used ?t = insert ?i (used s)" using used_set_bmap [OF ok, of ?i True] i(2) by simp
  then have used: "used ?u = insert ?k (insert ?i (used s))"
    using used_set_bmap [OF okt, of ?k True] k(2) by simp
  have ik: "?i \<noteq> ?k" "?k \<notin> used s" using k(3) usedt by auto
  have st: "data_step N {192 + int ?i} s ?u"
    by (rule data_step_trans [OF data_step_set_bmap [OF ok i(2,3)] data_step_set_bmap [OF okt k(2,3)]])
  have nf: "nfree s = nfree ?u + 2" using nft nfree_take [OF okt k(2,3)] by simp
  have "alloc_post N ino 4 s ?k ?ino ?s"
    by (rule post_first_indirect [OF ok im k(2) ik(2) i(2,3) ik(1) st used nf]) (simp_all add: same_inode_upd)
  with run show ?thesis by blast
qed

lemma allocate_next:
  assumes "fs_ok N s" "imap_ok s (i_in ino) n" "n < 132" "need n \<le> nfree s" "length block = 512"
  shows "\<exists>k ino' s'. testfs_allocate_block ino block (int n) s =
      Inr (192 + int k, replicate 512 0, ino', s') \<and> alloc_post N ino n s k ino' s'"
proof -
  consider "n < 4" | "n = 4" | "4 < n" by linarith
  then show ?thesis
  proof cases
    case 1
    with assms show ?thesis by (intro allocate_direct) (simp_all add: need_def)
  next
    case 2
    with assms show ?thesis using allocate_first_indirect [of N s ino block] by (simp add: need_def)
  next
    case 3
    with assms show ?thesis by (intro allocate_indirect) (simp_all add: need_def)
  qed
qed

lemma allocate_mapped:
  assumes "fs_ok N s" "imap_ok s (i_in ino) m" "n < m"
  shows "testfs_allocate_block ino block (int n) s =
    Inr (lblk s (i_in ino) n, dblk s (nat (lblk s (i_in ino) n)), ino, s)"
proof -
  obtain k where "lblk s (i_in ino) n = 192 + int k" using assms(2,3) by (rule lblk_mapped)
  then show ?thesis using get_block_mapped [OF assms, of block] by (simp add: testfs_allocate_block_def)
qed

end
