(* ===== verification/InodeData.thy ===== *)
theory InodeData
  imports InodeMap
begin

text \<open>
  File contents: \<open>fbyte s d p\<close> is the byte at position \<open>p\<close> of the file with on-disk inode \<open>d\<close>,
  \<open>contents s d\<close> the list of its \<open>i_size\<close> bytes.  \<open>testfs_read_data\<close> returns a range of it,
  \<open>testfs_write_data\<close> and \<open>testfs_truncate_data\<close> change it, and \<open>inode_step\<close> says that they change
  nothing else: the map stays well formed, takes only free blocks, and no block of another file
  is touched.
\<close>

definition fbyte :: "'d fsys \<Rightarrow> dinode \<Rightarrow> nat \<Rightarrow> byte" where
  "fbyte s d p = dblk s (nat (lblk s d (p div BLOCK_SIZE))) ! (p mod BLOCK_SIZE)"

definition contents :: "'d fsys \<Rightarrow> dinode \<Rightarrow> byte list" where
  "contents s d = map (fbyte s d) [0 ..< nat (i_size d)]"

definition nblocks :: "nat \<Rightarrow> nat" where
  "nblocks sz = (sz + 511) div BLOCK_SIZE"

text \<open>A file at rest maps exactly the blocks its size needs.\<close>

definition file_ok :: "'d fsys \<Rightarrow> dinode \<Rightarrow> bool" where
  "file_ok s d \<longleftrightarrow> 0 \<le> i_size d \<and> imap_ok s d (nblocks (nat (i_size d)))"

definition csums_ok :: "'d fsys \<Rightarrow> dinode \<Rightarrow> nat \<Rightarrow> bool" where
  "csums_ok s d m \<longleftrightarrow> (\<forall>n < m. csum_good s (nat (lblk s d n) - 192))"

lemma length_contents [simp]: "length (contents s d) = nat (i_size d)"
  by (simp add: contents_def)

lemma nth_contents: "p < nat (i_size d) \<Longrightarrow> contents s d ! p = fbyte s d p"
  by (simp add: contents_def)

lemma nblocks_less: "n < nblocks sz \<longleftrightarrow> 512 * n < sz"
proof -
  have "n < nblocks sz \<longleftrightarrow> Suc n * 512 \<le> sz + 511"
    unfolding nblocks_def by (subst Suc_le_eq [symmetric], subst less_eq_div_iff_mult_less_eq) simp_all
  also have "\<dots> \<longleftrightarrow> 512 * n < sz" by auto
  finally show ?thesis .
qed

lemma nblocks_le: "nblocks sz \<le> n \<longleftrightarrow> sz \<le> 512 * n"
  using nblocks_less [of n sz] by linarith

lemma le_nblocks: "sz \<le> 512 * nblocks sz"
  using nblocks_le [of sz "nblocks sz"] by simp

lemma div_512_less: "p < 512 * m \<Longrightarrow> p div 512 < (m :: nat)"
  by (simp add: less_mult_imp_div_less mult.commute)

section \<open>Reading\<close>

text \<open>One round of the loops copies up to the end of the block or of the range.\<close>

definition chunk :: "nat \<Rightarrow> nat \<Rightarrow> nat \<Rightarrow> nat" where
  "chunk sz bo off = min (sz - bo) (512 - off)"

lemma copy_size_chunk:
  assumes "bo \<le> sz" "off < 512"
  shows "copy_size (int sz) (int bo) (int off) = int (chunk sz bo off)"
    "last_round (int sz) (int bo) (int off) \<longleftrightarrow> chunk sz bo off = sz - bo"
  using assms by (auto simp: copy_size_def last_round_def chunk_def)

lemma chunk_next:
  assumes "chunk sz bo ((st + bo) mod 512) \<noteq> sz - bo"
  shows "(st + (bo + chunk sz bo ((st + bo) mod 512))) mod 512 = 0"
    "bo + chunk sz bo ((st + bo) mod 512) < sz"
    "bo < bo + chunk sz bo ((st + bo) mod 512)"
    "(st + (bo + chunk sz bo ((st + bo) mod 512))) = 512 * Suc ((st + bo) div 512)"
proof -
  have c: "chunk sz bo ((st + bo) mod 512) = 512 - (st + bo) mod 512"
    using assms by (simp add: chunk_def min_def split: if_splits)
  have o': "(st + bo) mod 512 < 512" by simp
  have eq: "st + bo = 512 * ((st + bo) div 512) + (st + bo) mod 512" by simp
  define q where "q = (st + bo) div 512"
  define r where "r = (st + bo) mod 512"
  have *: "st + bo = 512 * q + r" "r < 512" using eq by (simp_all add: q_def r_def)
  show "st + (bo + chunk sz bo ((st + bo) mod 512)) = 512 * Suc ((st + bo) div 512)"
    unfolding c using * by (simp add: q_def [symmetric] r_def [symmetric])
  then show "(st + (bo + chunk sz bo ((st + bo) mod 512))) mod 512 = 0" by simp
  show "bo + chunk sz bo ((st + bo) mod 512) < sz" "bo < bo + chunk sz bo ((st + bo) mod 512)"
    using assms c o' by (auto simp: chunk_def)
qed

lemma seg_dblk_fbyte:
  assumes "dev_ok N s" "nat (lblk s d (p div 512)) < N" "p mod 512 + c \<le> 512"
  shows "seg (p mod 512) c (dblk s (nat (lblk s d (p div 512)))) = map (fbyte s d) [p ..< p + c]"
proof (rule nth_equalityI)
  have len: "length (dblk s (nat (lblk s d (p div 512)))) = 512"
    using assms(1,2) by (rule length_dblk)
  then show "length (seg (p mod 512) c (dblk s (nat (lblk s d (p div 512))))) =
      length (map (fbyte s d) [p ..< p + c])" using assms(3) by simp
  fix i assume "i < length (seg (p mod 512) c (dblk s (nat (lblk s d (p div 512)))))"
  then have i: "i < c" using len assms(3) by simp
  define q where "q = p div 512"
  define r where "r = p mod 512"
  have p: "p = 512 * q + r" by (simp add: q_def r_def)
  have "r + i < 512" using i assms(3) by (simp add: r_def)
  then have "(512 * q + (r + i)) div 512 = q" "(512 * q + (r + i)) mod 512 = r + i" by simp_all
  then have "(p + i) div 512 = q" "(p + i) mod 512 = r + i" unfolding p by (simp_all only: add.assoc)
  then show "seg (p mod 512) c (dblk s (nat (lblk s d (p div 512)))) ! i =
      map (fbyte s d) [p ..< p + c] ! i"
    using i len assms(3) by (simp add: nth_seg fbyte_def q_def r_def)
qed

lemma mapped_bound:
  assumes "fs_ok N s" "imap_ok s d m" "n < m"
  shows "0 < lblk s d n" "nat (lblk s d n) < N"
proof -
  obtain k where k: "lblk s d n = 192 + int k" "k < 7680" using assms(2,3) by (rule lblk_mapped)
  then show "0 < lblk s d n" "nat (lblk s d n) < N"
    using data_block_bound [OF assms(1) k(2)] by simp_all
qed

lemma read_loop_eq:
  assumes "fs_ok N s" "imap_ok s (i_in ino) m" "bo < sz" "sz \<le> length buf" "st + sz \<le> 512 * m"
  shows "read_loop ino block buf (int sz) (int st) (int bo) (int ((st + bo) mod 512)) s =
    Inr (0, blit bo (map (fbyte s (i_in ino)) [st + bo ..< st + sz]) buf)"
  using assms(3-5)
proof (induction "sz - bo" arbitrary: bo block buf rule: less_induct)
  case less
  let ?p = "st + bo" and ?d = "i_in ino"
  let ?n = "?p div 512" and ?off = "?p mod 512"
  let ?c = "chunk sz bo ?off"
  let ?B = "dblk s (nat (lblk s ?d ?n))"
  have n: "?n < m" by (rule div_512_less) (use less.prems in simp)
  note bnd = mapped_bound [OF assms(1,2) n]
  have len: "length ?B = 512" using fs_okD(1) [OF assms(1)] bnd(2) by (rule length_dblk)
  have off: "?off < 512" by simp
  then have c: "?off + ?c \<le> 512" "bo + ?c \<le> sz" using less.prems by (auto simp: chunk_def)
  have blk: "(int st + int bo) sdiv 512 = int ?n"
    using zdiv_int [of ?p 512] by simp
  note cs = copy_size_chunk [OF less_imp_le [OF less.prems(1)] off]
  have seg: "seg ?off ?c ?B = map (fbyte s ?d) [?p ..< ?p + ?c]"
    using fs_okD(1) [OF assms(1)] bnd(2) c(1) by (rule seg_dblk_fbyte)
  have step: "read_loop ino block buf (int sz) (int st) (int bo) (int ?off) s =
      (if ?c = sz - bo then Inr (0, blit bo (map (fbyte s ?d) [?p ..< ?p + ?c]) buf)
       else read_loop ino ?B (blit bo (map (fbyte s ?d) [?p ..< ?p + ?c]) buf) (int sz) (int st)
              (int (bo + ?c)) 0 s)"
    by (subst read_loop.simps)
      (use less.prems c len bnd(1) get_block_mapped [OF assms(1,2) n, of block] in
        \<open>simp add: blk cs c_memcpy_ok seg\<close>)
  show ?case
  proof (cases "?c = sz - bo")
    case True
    then show ?thesis using step less.prems by simp
  next
    case False
    note nx = chunk_next [OF False]
    let ?buf = "blit bo (map (fbyte s ?d) [?p ..< ?p + ?c]) buf"
    have "read_loop ino ?B ?buf (int sz) (int st) (int (bo + ?c)) (int ((st + (bo + ?c)) mod 512)) s =
        Inr (0, blit (bo + ?c) (map (fbyte s ?d) [st + (bo + ?c) ..< st + sz]) ?buf)"
      by (rule less.hyps) (use nx less.prems c in simp_all)
    moreover have "blit (bo + ?c) (map (fbyte s ?d) [st + (bo + ?c) ..< st + sz]) ?buf =
        blit bo (map (fbyte s ?d) [?p ..< st + sz]) buf"
    proof -
      have "[?p ..< st + sz] = [?p ..< ?p + ?c] @ [?p + ?c ..< st + sz]"
        using nx(2) upt_add_eq_append [of ?p "?p + ?c" "st + sz - (?p + ?c)"] by simp
      then show ?thesis
        using blit_blit [of bo "map (fbyte s ?d) [?p ..< ?p + ?c]"
            "map (fbyte s ?d) [?p + ?c ..< st + sz]" buf] nx(2) less.prems
        by (simp add: add.assoc)
    qed
    ultimately show ?thesis using step False nx(1) by simp
  qed
qed

lemma read_data_eq:
  assumes "fs_ok N s" "file_ok s (i_in ino)" "0 < sz" "st + sz \<le> nat (i_size (i_in ino))"
    and "sz \<le> length buf" "i_size (i_in ino) < 2147483648"
  shows "testfs_read_data ino (int st) buf (int sz) s =
    Inr (0, blit 0 (seg st sz (contents s (i_in ino))) buf)"
proof -
  let ?d = "i_in ino"
  have "seg st sz (contents s ?d) = map (fbyte s ?d) [st ..< st + sz]"
    using assms(4) by (simp add: seg_def contents_def drop_map take_map)
  moreover have "read_loop ino (replicate 512 0) buf (int sz) (int st) (int 0) (int ((st + 0) mod 512)) s =
      Inr (0, blit 0 (map (fbyte s ?d) [st + 0 ..< st + sz]) buf)"
    by (rule read_loop_eq [OF assms(1)])
      (use assms le_nblocks [of "nat (i_size ?d)"] in \<open>auto simp: file_ok_def\<close>)
  moreover have "int st + int sz \<le> i_size ?d" "int st + int sz \<le> 2147483647"
    using assms(3,4,6) by linarith+
  ultimately show ?thesis
    using zmod_int [of st 512] by (simp add: testfs_read_data_def in_int32_def)
qed

end
