(* ===== verification/InodeWrite.thy ===== *)
theory InodeWrite
  imports InodeData
begin

text \<open>
  \<open>testfs_write_data\<close>: given enough free blocks it succeeds, the range holds the buffer and every
  other byte of the file is as before (new bytes before the range are zero), the checksums of the
  file are right, and the file takes exactly the free blocks that it now maps (\<open>inode_step\<close>).
\<close>

section \<open>Steps of one inode\<close>

definition inode_step ::
    "nat \<Rightarrow> 'd fsys \<Rightarrow> dinode \<Rightarrow> nat \<Rightarrow> 'd fsys \<Rightarrow> dinode \<Rightarrow> nat \<Rightarrow> bool" where
  "inode_step N s d m s' d' m' \<longleftrightarrow>
     data_step N (iblks s d m) s s' \<and> imap_ok s' d' m' \<and>
     ablocks s' = (ablocks s - iblks s d m) \<union> iblks s' d' m' \<and>
     iblks s' d' m' \<inter> ablocks s \<subseteq> iblks s d m"

lemma inode_stepD:
  assumes "inode_step N s d m s' d' m'"
  shows "data_step N (iblks s d m) s s'" "imap_ok s' d' m'" "fs_ok N s'"
    "ablocks s' = (ablocks s - iblks s d m) \<union> iblks s' d' m'"
    "iblks s' d' m' \<inter> ablocks s \<subseteq> iblks s d m"
  using assms data_stepD(1) unfolding inode_step_def by blast+

lemma iblks_ablocks: "imap_ok s d m \<Longrightarrow> iblks s d m \<subseteq> ablocks s"
  using ublocks_ablocks unfolding imap_ok_def by blast

lemma inode_step_trans:
  assumes "inode_step N s d m s1 d1 m1" "inode_step N s1 d1 m1 s2 d2 m2"
  shows "inode_step N s d m s2 d2 m2"
proof -
  note a = inode_stepD [OF assms(1)] and b = inode_stepD [OF assms(2)]
  have "data_step N (iblks s d m) s s2"
    by (rule data_step_trans [OF a(1) b(1)]) (use a(5) in auto)
  moreover have "ablocks s2 = (ablocks s - iblks s d m) \<union> iblks s2 d2 m2"
    using a(4,5) b(4) by blast
  moreover have "iblks s2 d2 m2 \<inter> ablocks s \<subseteq> iblks s d m"
    using a(4,5) b(5) by blast
  ultimately show ?thesis using b(2) unfolding inode_step_def by blast
qed

lemma inode_step_refl:
  assumes "fs_ok N s" "imap_ok s d m"
  shows "inode_step N s d m s d m"
  using assms data_step_refl iblks_ablocks [OF assms(2)] unfolding inode_step_def by blast

text \<open>An operation that keeps the map and the set of allocated blocks.\<close>

lemma inode_step_same:
  assumes "imap_ok s d m" "data_step N A s s'" "A \<subseteq> iblks s d m" "used s' = used s"
    and "4 < m \<Longrightarrow> dblk s' (nat (i_indirect d)) = dblk s (nat (i_indirect d))"
  shows "inode_step N s d m s' d m" "lblk s' d = lblk s d"
proof -
  have "iblks s d m \<inter> ublocks s \<subseteq> ublocks s'" using assms(4) by (auto simp: ublocks_def)
  note fr = imap_ok_frame [OF assms(1) refl refl assms(5) this]
  show "lblk s' d = lblk s d" by (rule fr(2))
  have "ablocks s' = ablocks s" using assms(4) by (simp add: ablocks_def)
  then show "inode_step N s d m s' d m"
    using data_step_mono [OF assms(2,3)] fr(1,3) iblks_ablocks [OF assms(1)]
    unfolding inode_step_def by auto
qed

lemma fbyte_cong:
  "lblk s' d' (p div 512) = lblk s d (p div 512) \<Longrightarrow>
   dblk s' (nat (lblk s d (p div 512))) = dblk s (nat (lblk s d (p div 512))) \<Longrightarrow>
   fbyte s' d' p = fbyte s d p"
  by (simp add: fbyte_def)

section \<open>One round of the write loop\<close>

text \<open>The data blocks of the first \<open>m\<close> logical blocks are where they were, unchanged.\<close>

definition keeps_data :: "'d fsys \<Rightarrow> dinode \<Rightarrow> nat \<Rightarrow> 'd fsys \<Rightarrow> dinode \<Rightarrow> bool" where
  "keeps_data s d m s' d' \<longleftrightarrow>
     (\<forall>j < m. lblk s' d' j = lblk s d j \<and> dblk s' (nat (lblk s d j)) = dblk s (nat (lblk s d j)) \<and>
              csum_table_of s' ! (nat (lblk s d j) - 192) = csum_table_of s ! (nat (lblk s d j) - 192))"

lemma keeps_data_refl: "keeps_data s d m s d"
  by (simp add: keeps_data_def)

lemma keeps_data_step:
  assumes im: "imap_ok s d m" and st: "data_step N {i_indirect d} s s'"
    and l: "\<And>j. j < m \<Longrightarrow> lblk s' d' j = lblk s d j"
  shows "keeps_data s d m s' d'"
  unfolding keeps_data_def
proof (intro allI impI)
  fix j assume j: "j < m"
  obtain k where k: "lblk s d j = 192 + int k" "k < 7680" "k \<in> used s" using im j by (rule lblk_mapped)
  have ne: "192 + int k \<noteq> i_indirect d"
  proof (cases "4 < m")
    case True
    then show ?thesis using imap_okD(6) [OF im _ j] k(1) by metis
  next
    case False
    then show ?thesis using imap_okD(3) [OF im] by simp
  qed
  then show "lblk s' d' j = lblk s d j \<and> dblk s' (nat (lblk s d j)) = dblk s (nat (lblk s d j)) \<and>
      csum_table_of s' ! (nat (lblk s d j) - 192) = csum_table_of s ! (nat (lblk s d j) - 192)"
    using l [OF j] data_stepD(11,12) [OF st k(3) _ k(2)] k(1) by (simp add: nat_add_distrib)
qed

lemma alloc_post_step:
  assumes ok: "fs_ok N s" and im: "imap_ok s (i_in ino) n" and n: "n < 132" and post: "alloc_post N ino n s k ino' s'"
  shows "inode_step N s (i_in ino) n s' (i_in ino') (Suc n)" "keeps_data s (i_in ino) n s' (i_in ino')"
proof -
  let ?d = "i_in ino" and ?d' = "i_in ino'"
  have p: "k < 7680" "k \<notin> used s" "imap_ok s' ?d' (Suc n)"
    "\<And>j. j < 132 \<Longrightarrow> lblk s' ?d' j = (if j = n then 192 + int k else lblk s ?d j)"
    "if n = 4 then i_indirect ?d' \<notin> ablocks s else i_indirect ?d' = i_indirect ?d"
    "ablocks s' = insert (192 + int k) (ablocks s) \<union> (if n = 4 then {i_indirect ?d'} else {})"
    "data_step N {i_indirect ?d} s s'"
    using post unfolding alloc_post_def by blast+
  have img: "lblk s' ?d' ` {..< n} = lblk s ?d ` {..< n}"
    by (rule image_cong) (use p(4) n in auto)
  have ib: "iblks s' ?d' (Suc n) =
      insert (192 + int k) (iblks s ?d n) \<union> (if n = 4 then {i_indirect ?d'} else {})"
    using img p(4) [OF n] p(5) by (auto simp: iblks_def lessThan_Suc split: if_splits)
  have zero: "i_indirect ?d \<notin> ablocks s \<or> i_indirect ?d \<in> iblks s ?d n"
    using imap_okD(3) [OF im] by (auto simp: iblks_def ablocks_def)
  have st: "data_step N (iblks s ?d n) s s'"
    by (rule data_step_trans [OF data_step_refl [OF ok] p(7)]) (use zero ablocks_iff in \<open>metis singletonD\<close>)
  show "inode_step N s ?d n s' ?d' (Suc n)"
    unfolding inode_step_def using st p(2,3,5,6) ib iblks_ablocks [OF im] by (auto split: if_splits)
  show "keeps_data s ?d n s' ?d'"
    using keeps_data_step [OF im p(7)] p(4) n by simp
qed

lemma allocate_any:
  assumes ok: "fs_ok N s" and im: "imap_ok s (i_in ino) m" and n: "n \<le> m" "n < 132"
    and free: "n = m \<Longrightarrow> need n \<le> nfree s" and len: "length block = 512"
  shows "\<exists>k B ino' s'. testfs_allocate_block ino block (int n) s = Inr (192 + int k, B, ino', s') \<and>
    length B = 512 \<and> k < MAX_NR_CSUMS \<and> lblk s' (i_in ino') n = 192 + int k \<and>
    i_size (i_in ino') = i_size (i_in ino) \<and> same_inode ino ino' \<and>
    inode_step N s (i_in ino) m s' (i_in ino') (max m (Suc n)) \<and>
    nfree s = nfree s' + (if n = m then need n else 0) \<and>
    keeps_data s (i_in ino) m s' (i_in ino') \<and>
    (\<forall>q < 512. B ! q = (if n < m then fbyte s (i_in ino) (512 * n + q) else 0))"
proof (cases "n < m")
  case True
  obtain k where k: "lblk s (i_in ino) n = 192 + int k" "k < 7680"
    using im True by (rule lblk_mapped)
  let ?B = "dblk s (192 + k)"
  have len: "length ?B = 512"
    using length_dblk [OF fs_okD(1) [OF ok] data_block_bound(1) [OF ok k(2)]] .
  have fb: "?B ! q = fbyte s (i_in ino) (512 * n + q)" if "q < 512" for q
    using that k(1) by (simp add: fbyte_def nat_add_distrib)
  have "testfs_allocate_block ino block (int n) s = Inr (192 + int k, ?B, ino, s)"
    using allocate_mapped [OF ok im True] k(1) by (simp add: nat_add_distrib)
  moreover have "max m (Suc n) = m" using True by simp
  ultimately show ?thesis
    using len k fb True inode_step_refl [OF ok im] keeps_data_refl [of s "i_in ino" m] by auto
next
  case False
  then have nm: "n = m" using n by simp
  obtain k ino' s' where run: "testfs_allocate_block ino block (int n) s =
      Inr (192 + int k, replicate 512 0, ino', s')" and post: "alloc_post N ino n s k ino' s'"
    using allocate_next [OF ok _ n(2) free [OF nm] len] im nm by blast
  let ?d = "i_in ino" and ?d' = "i_in ino'"
  have p: "k < 7680" "lblk s' ?d' n = 192 + int k" "i_size ?d' = i_size ?d" "same_inode ino ino'"
    "nfree s = nfree s' + need n"
    using post n(2) unfolding alloc_post_def by auto
  have "inode_step N s ?d n s' ?d' (Suc n)" "keeps_data s ?d n s' ?d'"
    using alloc_post_step [OF ok _ n(2) post] im nm by simp_all
  then show ?thesis using run p nm by auto
qed

text \<open>The rest of the round: the block is written and its checksum with it.\<close>

definition put_data :: "nat \<Rightarrow> byte list \<Rightarrow> 'd fsys \<Rightarrow> 'd fsys" where
  "put_data k B s = put_csum_st k (csum_of B) (put_blk B (192 + k) s)"

lemma put_data_run:
  assumes "fs_ok N s" "k < MAX_NR_CSUMS" "length B = 512"
  shows "write_blocks B (192 + int k) 1 s = Inr (put_blk B (192 + k) s)"
    "testfs_put_csum (192 + int k) (csum_of B) (put_blk B (192 + k) s) = Inr (put_data k B s)"
proof -
  note ok = fs_okD [OF assms(1)] and bnd = data_block_bound [OF assms(1,2)]
  show "write_blocks B (192 + int k) 1 s = Inr (put_blk B (192 + k) s)"
    using write_block [of N s "192 + int k" B] ok(1) bnd assms(3) by (simp add: nat_add_distrib)
  show "testfs_put_csum (192 + int k) (csum_of B) (put_blk B (192 + k) s) = Inr (put_data k B s)"
    using put_csum_eq [of N "put_blk B (192 + k) s" k "csum_of B"] ok assms(2)
    by (simp add: put_data_def)
qed

lemma put_data_step:
  assumes ok: "fs_ok N s" and k: "k < MAX_NR_CSUMS" and len: "length B = 512"
  shows "data_step N {192 + int k} s (put_data k B s)"
    "used (put_data k B s) = used s" "nfree (put_data k B s) = nfree s"
    "csum_table_of (put_data k B s) = (csum_table_of s)[k := csum_of B]"
    "j < MAX_NR_CSUMS \<Longrightarrow> dblk (put_data k B s) (192 + j) = (if j = k then B else dblk s (192 + j))"
proof -
  have ok': "fs_ok N (put_blk B (192 + k) s)" using ok by simp
  have "data_step N {192 + int k} s (put_blk B (192 + k) s)"
    using ok k by (rule data_step_put_blk) (use len in simp_all)
  moreover have "data_step N {192 + int k} (put_blk B (192 + k) s) (put_data k B s)"
    unfolding put_data_def using ok' k by (rule data_step_put_csum) simp
  ultimately show "data_step N {192 + int k} s (put_data k B s)" by (rule data_step_trans)
  show "used (put_data k B s) = used s" "nfree (put_data k B s) = nfree s"
    "csum_table_of (put_data k B s) = (csum_table_of s)[k := csum_of B]"
    by (simp_all add: put_data_def nfree_def)
  show "dblk (put_data k B s) (192 + j) = (if j = k then B else dblk s (192 + j))" if "j < 7680"
    using fs_okD(1,2,5) [OF ok] k that len by (simp add: put_data_def dblk_put_blk)
qed

lemma put_data_file:
  assumes ok: "fs_ok N s" and im: "imap_ok s d m" and n: "n < m"
    and k: "lblk s d n = 192 + int k" "k < MAX_NR_CSUMS" and len: "length B = 512"
  shows "inode_step N s d m (put_data k B s) d m"
    "p < 512 * m \<Longrightarrow> fbyte (put_data k B s) d p =
       (if p div 512 = n then B ! (p mod 512) else fbyte s d p)"
    "csum_good (put_data k B s) (nat (lblk (put_data k B s) d n) - 192)"
    "j < m \<Longrightarrow> j \<noteq> n \<Longrightarrow> csum_good (put_data k B s) (nat (lblk (put_data k B s) d j) - 192) =
       csum_good s (nat (lblk s d j) - 192)"
proof -
  let ?t = "put_data k B s"
  note pd = put_data_step [OF ok k(2) len]
  have own: "{192 + int k} \<subseteq> iblks s d m" using lblk_in_iblks [OF n, of s d] k(1) by simp
  have ind: "dblk ?t (nat (i_indirect d)) = dblk s (nat (i_indirect d))" if m: "4 < m"
  proof -
    obtain i where i: "i_indirect d = 192 + int i" "i < 7680" using im m by (rule indirect_mapped)
    have "i \<noteq> k" using imap_okD(6) [OF im m n] i(1) k(1) by auto
    then show ?thesis using pd(5) [OF i(2)] i(1) by (simp add: nat_add_distrib)
  qed
  note same = inode_step_same [OF im pd(1) own pd(2) ind]
  show "inode_step N s d m ?t d m" by (rule same(1))
  note l = same(2)
  have blk: "dblk ?t (nat (lblk s d j)) = (if j = n then B else dblk s (nat (lblk s d j)))"
    if j: "j < m" for j
  proof -
    obtain i where i: "lblk s d j = 192 + int i" "i < 7680" using im j by (rule lblk_mapped)
    have "i = k \<longleftrightarrow> j = n" using imap_okD(5) [OF im j n] i(1) k(1) by simp
    then show ?thesis using pd(5) [OF i(2)] i(1) by (simp add: nat_add_distrib)
  qed
  show "fbyte ?t d p = (if p div 512 = n then B ! (p mod 512) else fbyte s d p)" if "p < 512 * m"
    using blk [OF div_512_less [OF that]] l by (simp add: fbyte_def)
  have lt: "k < length (csum_table_of s)" using csum_wfD(2) [OF fs_okD(5) [OF ok]] k(2) by simp
  show "csum_good ?t (nat (lblk ?t d n) - 192)"
    using pd(4) pd(5) [OF k(2)] lt k by (simp add: csum_good_def l nat_add_distrib)
  show "csum_good ?t (nat (lblk ?t d j) - 192) = csum_good s (nat (lblk s d j) - 192)"
    if j: "j < m" "j \<noteq> n"
  proof -
    obtain i where i: "lblk s d j = 192 + int i" "i < 7680" using im j(1) by (rule lblk_mapped)
    have "i \<noteq> k" using imap_okD(5) [OF im j(1) n] i(1) k(1) j(2) by auto
    then show ?thesis using pd(4) pd(5) [OF i(2)] i(1) by (simp add: csum_good_def l nat_add_distrib)
  qed
qed

lemma csum_good_keeps:
  assumes "imap_ok s d m" "keeps_data s d m s' d'" "j < m"
  shows "csum_good s' (nat (lblk s' d' j) - 192) = csum_good s (nat (lblk s d j) - 192)"
proof -
  obtain k where k: "lblk s d j = 192 + int k" "k < 7680" using assms(1,3) by (rule lblk_mapped)
  have "lblk s' d' j = lblk s d j" "dblk s' (nat (lblk s d j)) = dblk s (nat (lblk s d j))"
    "csum_table_of s' ! (nat (lblk s d j) - 192) = csum_table_of s ! (nat (lblk s d j) - 192)"
    using assms(2,3) unfolding keeps_data_def by blast+
  then show ?thesis using k by (simp add: csum_good_def nat_add_distrib)
qed

lemma put_data_csums:
  assumes "imap_ok s0 d0 m" "keeps_data s0 d0 m s d" "csums_ok s0 d0 m" "n \<le> m"
    and ok: "fs_ok N s" "imap_ok s d (max m (Suc n))" "lblk s d n = 192 + int k" "k < MAX_NR_CSUMS" "length B = 512"
  shows "csums_ok (put_data k B s) d (max m (Suc n))"
  unfolding csums_ok_def
proof (intro allI impI)
  fix j assume j: "j < max m (Suc n)"
  note pf = put_data_file [OF ok(1,2) _ ok(3-5)]
  show "csum_good (put_data k B s) (nat (lblk (put_data k B s) d j) - 192)"
  proof (cases "j = n")
    case True
    then show ?thesis using pf(3) by simp
  next
    case False
    then have "j < m" using j assms(4) by auto
    then show ?thesis
      using pf(4) [OF _ j False] csum_good_keeps [OF assms(1,2)] assms(3) by (simp add: csums_ok_def)
  qed
qed

lemma nth_blit_seg:
  assumes "off + c \<le> 512" "bo + c \<le> length buf" "length B = 512" "q < 512"
  shows "blit off (seg bo c buf) B ! q =
    (if off \<le> q \<and> q < off + c then buf ! (bo + (q - off)) else B ! q)"
  using assms by (auto simp: nth_blit nth_seg)

text \<open>The bytes after one round: those of the chunk come from the caller's buffer, the others are kept.\<close>

lemma round_byte_in:
  assumes "(st + bo) mod 512 + c \<le> 512" "bo + c \<le> length buf" "length B = 512" "q < 512"
    and p: "p = 512 * ((st + bo) div 512) + q"
  shows "blit ((st + bo) mod 512) (seg bo c buf) B ! q =
    (if st + bo \<le> p \<and> p < st + bo + c then buf ! (p - st) else B ! q)"
proof -
  let ?off = "(st + bo) mod 512"
  define n where "n = (st + bo) div 512"
  have eq: "st + bo = 512 * n + ?off" by (simp add: n_def)
  have pq: "p = 512 * n + q" using p by (simp add: n_def)
  have "?off \<le> q \<and> q < ?off + c \<longleftrightarrow> st + bo \<le> p \<and> p < st + bo + c" using eq pq by linarith
  moreover have "bo + (q - ?off) = p - st" if "st + bo \<le> p" using that eq pq by linarith
  moreover have "blit ?off (seg bo c buf) B ! q =
      (if ?off \<le> q \<and> q < ?off + c then buf ! (bo + (q - ?off)) else B ! q)"
    using assms(1-4) by (intro nth_blit_seg) auto
  ultimately show ?thesis by simp
qed

lemma round_byte_out:
  assumes "(st + bo) mod 512 + c \<le> 512" "(st + bo) div 512 \<le> m" "p div 512 \<noteq> (st + bo) div 512"
    and p: "p < 512 * max m (Suc ((st + bo) div 512))"
  shows "p < 512 * m" "\<not> (st + bo \<le> p \<and> p < st + bo + c)"
proof -
  define n where "n = (st + bo) div 512"
  have eq: "st + bo = 512 * n + (st + bo) mod 512" by (simp add: n_def)
  have ne: "p div 512 \<noteq> n" "n \<le> m" "p div 512 < max m (Suc n)"
    using assms(2,3) div_512_less [OF p] by (simp_all add: n_def)
  then have "p div 512 < m" by auto
  then show "p < 512 * m" by (simp add: div_less_iff_less_mult mult.commute)
  show "\<not> (st + bo \<le> p \<and> p < st + bo + c)"
  proof
    assume "st + bo \<le> p \<and> p < st + bo + c"
    then have "512 * n \<le> p" "p < 512 * n + 512" using eq assms(1) by linarith+
    then have "p div 512 = n" by (simp add: div_nat_eqI mult.commute)
    with ne(1) show False by simp
  qed
qed

lemma round_byte:
  assumes "(st + bo) mod 512 + c \<le> 512" "bo + c \<le> length buf" "length B = 512" "(st + bo) div 512 \<le> m"
    and p: "p < 512 * max m (Suc ((st + bo) div 512))"
    and B: "\<And>q. q < 512 \<Longrightarrow> B ! q = (if (st + bo) div 512 < m then F (512 * ((st + bo) div 512) + q) else 0)"
    and F: "\<And>p. p < 512 * m \<Longrightarrow> F1 p = F p"
  shows "(if p div 512 = (st + bo) div 512 then blit ((st + bo) mod 512) (seg bo c buf) B ! (p mod 512) else F1 p) =
    (if st + bo \<le> p \<and> p < st + bo + c then buf ! (p - st) else if p < 512 * m then F p else 0)"
proof (cases "p div 512 = (st + bo) div 512")
  case True
  define n where "n = (st + bo) div 512"
  have p': "p = 512 * n + p mod 512" using mult_div_mod_eq [of 512 p] by (simp add: n_def True [symmetric])
  then have "n < m \<longleftrightarrow> p < 512 * m" using mod_less_divisor [of 512 p] by linarith
  then have "B ! (p mod 512) = (if p < 512 * m then F p else 0)"
    using B [of "p mod 512"] p' by (simp add: n_def)
  then show ?thesis
    using True round_byte_in [OF assms(1-3) _ p' [unfolded n_def]] by simp
next
  case False
  then show ?thesis using round_byte_out [OF assms(1,4) False p] F by auto
qed

lemma write_round:
  assumes ok: "fs_ok N s" and im: "imap_ok s (i_in ino) m" and cs: "csums_ok s (i_in ino) m"
    and len: "length block = 512" and bo: "bo < sz" "sz \<le> length buf"
    and n: "(st + bo) div 512 \<le> m" "(st + bo) div 512 < 132"
    and free: "(st + bo) div 512 = m \<Longrightarrow> need m \<le> nfree s"
  defines "n \<equiv> (st + bo) div 512" and "c \<equiv> chunk sz bo ((st + bo) mod 512)"
  shows "\<exists>B1 ino1 s1. length B1 = 512 \<and>
    inode_step N s (i_in ino) m s1 (i_in ino1) (max m (Suc n)) \<and>
    csums_ok s1 (i_in ino1) (max m (Suc n)) \<and> i_size (i_in ino1) = i_size (i_in ino) \<and>
    same_inode ino ino1 \<and> nfree s = nfree s1 + (if n = m then need n else 0) \<and>
    (\<forall>p < 512 * max m (Suc n). fbyte s1 (i_in ino1) p =
       (if st + bo \<le> p \<and> p < st + bo + c then buf ! (p - st)
        else if p < 512 * m then fbyte s (i_in ino) p else 0)) \<and>
    write_loop ino block buf (int sz) (int st) (int bo) (int ((st + bo) mod 512)) s =
      (if c = sz - bo
       then Inr (0, set_flag I_FLAGS_DIRTY
              (upd_in (\<lambda>d. d\<lparr>i_size := max (i_size d) (int (st + sz))\<rparr>) ino1), s1)
       else write_loop ino1 B1 buf (int sz) (int st) (int (bo + c)) 0 s1)"
proof -
  let ?off = "(st + bo) mod 512"
  have off: "?off < 512" by simp
  then have c: "?off + c \<le> 512" "bo + c \<le> sz" using bo by (auto simp: chunk_def c_def)
  have eq: "st + bo = 512 * n + ?off" by (simp add: n_def)
  obtain k B ino1 s1 where run: "testfs_allocate_block ino block (int n) s = Inr (192 + int k, B, ino1, s1)"
    and B: "length B = 512" and k: "k < 7680" "lblk s1 (i_in ino1) n = 192 + int k"
    and sz1: "i_size (i_in ino1) = i_size (i_in ino)" and same: "same_inode ino ino1"
    and st1: "inode_step N s (i_in ino) m s1 (i_in ino1) (max m (Suc n))"
    and nf: "nfree s = nfree s1 + (if n = m then need n else 0)"
    and keep: "keeps_data s (i_in ino) m s1 (i_in ino1)"
    and byte: "\<forall>q < 512. B ! q = (if n < m then fbyte s (i_in ino) (512 * n + q) else 0)"
    using allocate_any [OF ok im, of n block] n free len unfolding n_def by metis
  let ?d = "i_in ino1" and ?m = "max m (Suc n)"
  define B1 where "B1 = blit ?off (seg bo c buf) B"
  let ?t = "put_data k B1 s1"
  note st1' = inode_stepD [OF st1]
  have nm: "n < ?m" by simp
  have lB1: "length B1 = 512" using B c bo by (simp add: B1_def)
  note pr = put_data_run [OF st1'(3) k(1) lB1]
    and pf = put_data_file [OF st1'(3) st1'(2) nm k(2,1) lB1]
  have keep': "fbyte s1 ?d p = fbyte s (i_in ino) p" if "p < 512 * m" for p
    using keep div_512_less [OF that] by (simp add: fbyte_def keeps_data_def)
  have bytes: "fbyte ?t ?d p = (if st + bo \<le> p \<and> p < st + bo + c then buf ! (p - st)
      else if p < 512 * m then fbyte s (i_in ino) p else 0)" if p: "p < 512 * ?m" for p
  proof -
    have "fbyte ?t ?d p = (if p div 512 = (st + bo) div 512 then blit ?off (seg bo c buf) B ! (p mod 512)
        else fbyte s1 ?d p)" using pf(2) [OF p] by (simp add: B1_def n_def)
    also have "\<dots> = (if st + bo \<le> p \<and> p < st + bo + c then buf ! (p - st)
      else if p < 512 * m then fbyte s (i_in ino) p else 0)"
      using byte keep' n(1) c bo B p by (intro round_byte) (simp_all add: n_def)
    finally show ?thesis .
  qed
  have csm: "csums_ok ?t ?d ?m"
    using put_data_csums [OF im keep cs _ st1'(3,2) k(2,1) lB1] n(1) by (simp add: n_def)
  have blk: "(int st + int bo) sdiv 512 = int n" using zdiv_int [of "st + bo" 512] by (simp add: n_def)
  note cp = copy_size_chunk [OF less_imp_le [OF bo(1)] off]
  have "write_loop ino block buf (int sz) (int st) (int bo) (int ?off) s =
      (if c = sz - bo
       then Inr (0, set_flag I_FLAGS_DIRTY
              (upd_in (\<lambda>d. d\<lparr>i_size := max (i_size d) (int (st + sz))\<rparr>) ino1), ?t)
       else write_loop ino1 B1 buf (int sz) (int st) (int (bo + c)) 0 ?t)"
    by (subst write_loop.simps)
      (use run B c bo pr calculate_csum_eq [OF lB1] in
        \<open>simp add: blk cp c_memcpy_ok c_def [symmetric] B1_def [symmetric]\<close>)
  moreover have "inode_step N s (i_in ino) m ?t ?d ?m"
    using st1 pf(1) by (rule inode_step_trans)
  moreover have "nfree ?t = nfree s1" using put_data_step(3) [OF st1'(3) k(1) lB1] .
  ultimately show ?thesis using lB1 csm sz1 same nf bytes
    by (intro exI [of _ B1] exI [of _ ino1] exI [of _ ?t] conjI) simp_all
qed

section \<open>The loop and \<open>testfs_write_data\<close>\<close>

text \<open>The size and the other fields of the inode do not matter for its map.\<close>

lemma map_upd_size [simp]:
  "lblk s (d\<lparr>i_size := x\<rparr>) = lblk s d" "iblks s (d\<lparr>i_size := x\<rparr>) m = iblks s d m"
  "imap_ok s (d\<lparr>i_size := x\<rparr>) m = imap_ok s d m" "csums_ok s (d\<lparr>i_size := x\<rparr>) m = csums_ok s d m"
  "fbyte s (d\<lparr>i_size := x\<rparr>) p = fbyte s d p"
  "inode_step N s d m s' (d'\<lparr>i_size := x\<rparr>) m' = inode_step N s d m s' d' m'"
proof -
  show l: "lblk s (d\<lparr>i_size := x\<rparr>) = lblk s d" for s :: "'a fsys" and d by (simp add: lblk_def fun_eq_iff)
  show i: "iblks s (d\<lparr>i_size := x\<rparr>) m = iblks s d m" for s :: "'a fsys" and d m
    by (simp add: iblks_def l)
  show o': "imap_ok s (d\<lparr>i_size := x\<rparr>) m = imap_ok s d m" for s :: "'a fsys" and d m
    by (simp add: imap_ok_def l i)
  show "csums_ok s (d\<lparr>i_size := x\<rparr>) m = csums_ok s d m" by (simp add: csums_ok_def l)
  show "fbyte s (d\<lparr>i_size := x\<rparr>) p = fbyte s d p" by (simp add: fbyte_def l)
  show "inode_step N s d m s' (d'\<lparr>i_size := x\<rparr>) m' = inode_step N s d m s' d' m'"
    by (simp add: inode_step_def i o')
qed

definition needs :: "nat \<Rightarrow> nat \<Rightarrow> nat" where
  "needs a b = (\<Sum>n \<in> {a ..< b}. need n)"

lemma needs_eq: "needs a b = (b - a) + (if a \<le> 4 \<and> 4 < b then 1 else 0)"
proof (induction b)
  case (Suc b)
  show ?case
  proof (cases "a \<le> b")
    case True
    then have "needs a (Suc b) = needs a b + need b" by (simp add: needs_def)
    then show ?thesis using Suc True by (auto simp: need_def)
  qed (simp add: needs_def)
qed (simp add: needs_def)

text \<open>The blocks one round needs, and the round that ends the loop.\<close>

lemma needs_round:
  assumes "n \<le> m" "n < e"
  shows "needs m (max m e) = (if n = m then need n else 0) + needs (max m (Suc n)) (max m e)"
proof (cases "n = m")
  case True
  then have "{m ..< max m e} = insert m {Suc m ..< max m e}" using assms(2) by auto
  then show ?thesis using True by (simp add: needs_def)
next
  case False
  then have "max m (Suc n) = m" using assms(1) by simp
  then show ?thesis using False by simp
qed

lemma last_chunk:
  assumes "chunk sz bo ((st + bo) mod 512) = sz - bo" "bo < sz" "(st + bo) div 512 < nblocks (st + sz)"
  shows "nblocks (st + sz) = Suc ((st + bo) div 512)"
proof (rule antisym)
  define q where "q = (st + bo) div 512"
  define r where "r = (st + bo) mod 512"
  have "st + bo = 512 * q + r" "r < 512" by (simp_all add: q_def r_def)
  moreover have "sz - bo \<le> 512 - r" using assms(1) by (simp add: chunk_def r_def)
  ultimately have "st + sz \<le> 512 * q + 512" using assms(2) by arith
  then have "st + sz \<le> 512 * Suc q" by simp
  then show "nblocks (st + sz) \<le> Suc ((st + bo) div 512)"
    by (simp add: nblocks_le q_def [symmetric] del: mult_Suc_right)
qed (use assms(3) in simp)

lemma two_rounds:
  assumes F1: "\<forall>p < 512 * M. F1 p = (if st + bo \<le> p \<and> p < st + bo' then buf ! (p - st)
      else if p < 512 * m then F p else 0)"
    and F2: "\<forall>p < 512 * E. F2 p = (if st + bo' \<le> p \<and> p < st + sz then buf ! (p - st)
      else if p < 512 * M then F1 p else 0)"
    and le: "m \<le> M" "st + bo' \<le> 512 * M" "bo \<le> bo'" "bo' \<le> sz"
  shows "\<forall>p < 512 * E. F2 p = (if st + bo \<le> p \<and> p < st + sz then buf ! (p - st)
      else if p < 512 * m then F p else 0)"
proof (intro allI impI)
  fix p assume p: "p < 512 * E"
  have "512 * m \<le> 512 * M" using le(1) by (rule mult_le_mono2)
  then have "p < 512 * m \<Longrightarrow> p < 512 * M" "\<not> st + bo' \<le> p \<Longrightarrow> p < 512 * M" using le(2) by linarith+
  then show "F2 p = (if st + bo \<le> p \<and> p < st + sz then buf ! (p - st) else if p < 512 * m then F p else 0)"
    using F1 F2 p le(3,4) by auto
qed

definition write_post ::
    "nat \<Rightarrow> inode \<Rightarrow> nat \<Rightarrow> nat \<Rightarrow> nat \<Rightarrow> nat \<Rightarrow> byte list \<Rightarrow> 'd fsys \<Rightarrow> inode \<Rightarrow> 'd fsys \<Rightarrow> bool" where
  "write_post N ino m st bo sz buf s ino' s' \<longleftrightarrow>
     (let d = i_in ino; d' = i_in ino'; m' = max m (nblocks (st + sz)) in
      inode_step N s d m s' d' m' \<and> csums_ok s' d' m' \<and>
      i_size d' = max (i_size d) (int (st + sz)) \<and> same_inode ino ino' \<and>
      has_flag ino' I_FLAGS_DIRTY \<and> nfree s = nfree s' + needs m m' \<and>
      (\<forall>p < 512 * m'. fbyte s' d' p =
         (if st + bo \<le> p \<and> p < st + sz then buf ! (p - st)
          else if p < 512 * m then fbyte s d p else 0)))"

lemma write_loop_eq:
  assumes "fs_ok N s" "imap_ok s (i_in ino) m" "csums_ok s (i_in ino) m" "length block = 512"
    and "bo < sz" "sz \<le> length buf" "st + bo \<le> 512 * m" "st + sz \<le> 512 * 132"
    and "needs m (max m (nblocks (st + sz))) \<le> nfree s"
  shows "\<exists>ino' s'. write_loop ino block buf (int sz) (int st) (int bo) (int ((st + bo) mod 512)) s =
      Inr (0, ino', s') \<and> write_post N ino m st bo sz buf s ino' s'"
  using assms
proof (induction "sz - bo" arbitrary: bo m ino block s rule: less_induct)
  case less
  let ?n = "(st + bo) div 512" and ?c = "chunk sz bo ((st + bo) mod 512)"
  let ?m = "max m (Suc ?n)" and ?e = "nblocks (st + sz)"
  have n: "?n \<le> m" "?n < 132"
    using less.prems(5,7,8) div_512_less [of "st + bo" 132] div_le_mono [of "st + bo" "512 * m" 512] by simp_all
  have ne: "?n < ?e"
    using nblocks_less [of ?n "st + sz"] less.prems(5) times_div_less_eq_dividend [of 512 "st + bo"] by linarith
  have need_m: "?n = m \<Longrightarrow> need m \<le> nfree s"
  proof -
    assume "?n = m"
    then have "{m ..< max m ?e} = insert m {Suc m ..< ?e}" using ne by auto
    then show "need m \<le> nfree s" using less.prems(9) by (simp add: needs_def)
  qed
  from write_round [OF less.prems(1-6) n need_m]
  obtain B1 ino1 s1 where
    st1: "length B1 = 512" "inode_step N s (i_in ino) m s1 (i_in ino1) ?m"
      "csums_ok s1 (i_in ino1) ?m" "i_size (i_in ino1) = i_size (i_in ino)" "same_inode ino ino1"
      "nfree s = nfree s1 + (if ?n = m then need ?n else 0)"
    and bytes: "\<forall>p < 512 * ?m. fbyte s1 (i_in ino1) p =
       (if st + bo \<le> p \<and> p < st + bo + ?c then buf ! (p - st)
        else if p < 512 * m then fbyte s (i_in ino) p else 0)"
    and run: "write_loop ino block buf (int sz) (int st) (int bo) (int ((st + bo) mod 512)) s =
      (if ?c = sz - bo
       then Inr (0, set_flag I_FLAGS_DIRTY
              (upd_in (\<lambda>d. d\<lparr>i_size := max (i_size d) (int (st + sz))\<rparr>) ino1), s1)
       else write_loop ino1 B1 buf (int sz) (int st) (int (bo + ?c)) 0 s1)"
    by blast
  note split = needs_round [OF n(1) ne]
  show ?case
  proof (cases "?c = sz - bo")
    case True
    have "?e = Suc ?n" using True less.prems(5) ne by (rule last_chunk)
    then have m': "max m ?e = ?m" by simp
    have z: "needs ?m ?m = 0" by (simp add: needs_def)
    have c: "st + bo + ?c = st + sz" using True less.prems(5) by simp
    let ?ino = "set_flag I_FLAGS_DIRTY
      (upd_in (\<lambda>d. d\<lparr>i_size := max (i_size d) (int (st + sz))\<rparr>) ino1)"
    have "same_inode ino ?ino"
      by (rule same_inode_trans [OF st1(5)]) (simp add: same_inode_upd)
    moreover have "i_size (i_in ?ino) = max (i_size (i_in ino)) (int (st + sz))" using st1(4) by simp
    ultimately have "write_post N ino m st bo sz buf s ?ino s1"
      using st1(2,3,6) bytes split z unfolding write_post_def Let_def m' c by simp
    then show ?thesis using run True by auto
  next
    case False
    note nx = chunk_next [OF False]
    let ?bo = "bo + ?c"
    have e': "max ?m ?e = max m ?e" using ne by simp
    have "\<exists>ino' s'. write_loop ino1 B1 buf (int sz) (int st) (int ?bo) (int ((st + ?bo) mod 512)) s1 =
        Inr (0, ino', s') \<and> write_post N ino1 ?m st ?bo sz buf s1 ino' s'"
    proof (rule less.hyps)
      show "sz - ?bo < sz - bo" "?bo < sz" using nx by linarith+
      show "fs_ok N s1" "imap_ok s1 (i_in ino1) ?m" using inode_stepD [OF st1(2)] by blast+
      show "csums_ok s1 (i_in ino1) ?m" "length B1 = 512" by fact+
      show "sz \<le> length buf" "st + sz \<le> 512 * 132" by fact+
      show "st + ?bo \<le> 512 * ?m" unfolding nx(4) by (rule mult_le_mono2) simp
      show "needs ?m (max ?m ?e) \<le> nfree s1" using split less.prems(9) st1(6) e' by simp
    qed
    then obtain ino' s' where r: "write_loop ino1 B1 buf (int sz) (int st) (int ?bo)
        (int ((st + ?bo) mod 512)) s1 = Inr (0, ino', s')"
      and p: "write_post N ino1 ?m st ?bo sz buf s1 ino' s'" by blast
    note q = p [unfolded write_post_def Let_def e']
    have "write_loop ino block buf (int sz) (int st) (int bo) (int ((st + bo) mod 512)) s =
        Inr (0, ino', s')"
      using run r False nx(1) by simp
    moreover have byt: "\<forall>p < 512 * max m ?e. fbyte s' (i_in ino') p =
        (if st + bo \<le> p \<and> p < st + sz then buf ! (p - st) else if p < 512 * m then fbyte s (i_in ino) p else 0)"
    proof (rule two_rounds)
      show "\<forall>p < 512 * ?m. fbyte s1 (i_in ino1) p = (if st + bo \<le> p \<and> p < st + ?bo then buf ! (p - st)
          else if p < 512 * m then fbyte s (i_in ino) p else 0)" using bytes by (simp only: add.assoc)
      show "st + ?bo \<le> 512 * ?m" unfolding nx(4) by (rule mult_le_mono2) simp
      show "bo \<le> ?bo" "?bo \<le> sz" using nx(2,3) by simp_all
    qed (use q in \<open>blast | simp\<close>)+
    moreover have "write_post N ino m st bo sz buf s ino' s'"
      unfolding write_post_def Let_def
    proof (intro conjI)
      show "inode_step N s (i_in ino) m s' (i_in ino') (max m ?e)"
        using st1(2) q inode_step_trans by blast
      show "i_size (i_in ino') = max (i_size (i_in ino)) (int (st + sz))" using q st1(4) by simp
      show "same_inode ino ino'" using q same_inode_trans [OF st1(5)] by blast
      have "nfree s1 = nfree s' + needs ?m (max m ?e)" using q by blast
      then show "nfree s = nfree s' + needs m (max m ?e)" using st1(6) split by linarith
    qed (use q byt in blast)+
    ultimately show ?thesis by blast
  qed
qed

text \<open>Splicing a buffer into a file at most at its end.\<close>

definition overwrite :: "nat \<Rightarrow> byte list \<Rightarrow> byte list \<Rightarrow> byte list" where
  "overwrite st buf c = take st c @ buf @ drop (st + length buf) c"

lemma length_overwrite: "st \<le> length c \<Longrightarrow> length (overwrite st buf c) = max (length c) (st + length buf)"
  by (simp add: overwrite_def)

lemma nth_overwrite:
  assumes "st \<le> length c" "p < max (length c) (st + length buf)"
  shows "overwrite st buf c ! p =
    (if st \<le> p \<and> p < st + length buf then buf ! (p - st) else c ! p)"
  using assms by (auto simp: overwrite_def nth_append)

lemma file_size: "file_ok s d \<Longrightarrow> 0 \<le> i_size d \<and> nat (i_size d) \<le> 132 * 512"
  using le_nblocks [of "nat (i_size d)"] unfolding file_ok_def imap_ok_def by auto

lemma write_post_file:
  assumes f: "file_ok s (i_in ino)" and sz: "sz \<le> length buf" "st \<le> nat (i_size (i_in ino))"
    and post: "write_post N ino (nblocks (nat (i_size (i_in ino)))) st 0 sz buf s ino' s'"
  shows "contents s' (i_in ino') = overwrite st (take sz buf) (contents s (i_in ino)) \<and>
    i_size (i_in ino') = max (i_size (i_in ino)) (int (st + sz)) \<and>
    file_ok s' (i_in ino') \<and> csums_ok s' (i_in ino') (nblocks (nat (i_size (i_in ino')))) \<and>
    same_inode ino ino' \<and> has_flag ino' I_FLAGS_DIRTY \<and>
    nfree s = nfree s' + needs (nblocks (nat (i_size (i_in ino)))) (nblocks (nat (i_size (i_in ino')))) \<and>
    inode_step N s (i_in ino) (nblocks (nat (i_size (i_in ino)))) s' (i_in ino')
      (nblocks (nat (i_size (i_in ino'))))"
proof -
  let ?d = "i_in ino" and ?m = "nblocks (nat (i_size (i_in ino)))" and ?e = "nblocks (st + sz)"
  have nn: "0 \<le> i_size ?d" using f by (simp add: file_ok_def)
  note p = post [unfolded write_post_def Let_def]
  let ?d' = "i_in ino'"
  have size': "i_size ?d' = max (i_size ?d) (int (st + sz))" using p by blast
  have ns: "nat (i_size ?d') = max (nat (i_size ?d)) (st + sz)" unfolding size' by auto
  have m': "max ?m ?e = nblocks (nat (i_size ?d'))"
  proof -
    have "nblocks (max a b) = max (nblocks a) (nblocks b)" for a b
      unfolding nblocks_def by (auto simp: max_def intro: antisym div_le_mono)
    then show ?thesis unfolding ns by simp
  qed
  have ls: "length (take sz buf) = sz" using sz(1) by simp
  have "contents s' ?d' = overwrite st (take sz buf) (contents s ?d)"
  proof (rule nth_equalityI)
    show len: "length (contents s' ?d') = length (overwrite st (take sz buf) (contents s ?d))"
      using sz(2) ls ns by (simp add: length_overwrite)
    fix q assume "q < length (contents s' ?d')"
    then have q: "q < nat (i_size ?d')" "q < max (nat (i_size ?d)) (st + sz)"
      by (simp_all only: length_contents ns)
    have "q < 512 * max ?m ?e"
      using q(1) le_nblocks [of "nat (i_size ?d')"] unfolding m' by (rule less_le_trans)
    then have "fbyte s' ?d' q = (if st + 0 \<le> q \<and> q < st + sz then buf ! (q - st)
        else if q < 512 * ?m then fbyte s ?d q else 0)" using p by blast
    moreover have "q < 512 * ?m" if "q < nat (i_size ?d)"
      using that le_nblocks [of "nat (i_size ?d)"] by (rule less_le_trans)
    moreover have "q < nat (i_size ?d)" if "\<not> q < st + sz" using that q(2) by simp
    ultimately show "contents s' ?d' ! q = overwrite st (take sz buf) (contents s ?d) ! q"
      using q sz(2) ls nth_overwrite [of st "contents s ?d" q "take sz buf"]
      by (auto simp: nth_contents)
  qed
  moreover have "file_ok s' ?d'"
    using p inode_stepD(2) nn size' unfolding file_ok_def m' by auto
  ultimately show ?thesis using p size' unfolding m' by blast
qed

lemma write_data_eq:
  assumes ok: "fs_ok N s" and f: "file_ok s (i_in ino)"
    and cs: "csums_ok s (i_in ino) (nblocks (nat (i_size (i_in ino))))"
    and sz: "0 < sz" "sz \<le> length buf" "st \<le> nat (i_size (i_in ino))" "st + sz \<le> 132 * 512"
    and free: "needs (nblocks (nat (i_size (i_in ino)))) (nblocks (st + sz)) \<le> nfree s"
  shows "\<exists>ino' s'. testfs_write_data ino (int st) buf (int sz) s = Inr (0, ino', s') \<and>
    contents s' (i_in ino') = overwrite st (take sz buf) (contents s (i_in ino)) \<and>
    i_size (i_in ino') = max (i_size (i_in ino)) (int (st + sz)) \<and>
    file_ok s' (i_in ino') \<and> csums_ok s' (i_in ino') (nblocks (nat (i_size (i_in ino')))) \<and>
    same_inode ino ino' \<and> has_flag ino' I_FLAGS_DIRTY \<and>
    nfree s = nfree s' + needs (nblocks (nat (i_size (i_in ino)))) (nblocks (nat (i_size (i_in ino')))) \<and>
    inode_step N s (i_in ino) (nblocks (nat (i_size (i_in ino)))) s' (i_in ino')
      (nblocks (nat (i_size (i_in ino'))))"
proof -
  let ?d = "i_in ino" and ?m = "nblocks (nat (i_size (i_in ino)))" and ?e = "nblocks (st + sz)"
  have nn: "0 \<le> i_size ?d" and im: "imap_ok s ?d ?m" using f by (simp_all add: file_ok_def)
  have st: "st \<le> 512 * ?m" using sz(3) le_nblocks [of "nat (i_size ?d)"] by linarith
  have free': "needs ?m (max ?m ?e) \<le> nfree s"
    using free by (cases "?m \<le> ?e") (simp_all add: max_def needs_def)
  have "st + 0 \<le> 512 * ?m" "(0 :: nat) < sz" "st + sz \<le> 512 * 132"
    using st sz(1,4) by simp_all
  with write_loop_eq [OF ok im cs, of "replicate 512 0" 0 sz buf st] sz(2) free'
  obtain ino' s' where run: "write_loop ino (replicate 512 0) buf (int sz) (int st) 0
      (int (st mod 512)) s = Inr (0, ino', s')"
    and post: "write_post N ino ?m st 0 sz buf s ino' s'" by auto
  have "int st \<le> i_size ?d" using sz(3) nn by linarith
  then have "testfs_write_data ino (int st) buf (int sz) s = Inr (0, ino', s')"
    using run zmod_int [of st 512] by (simp add: testfs_write_data_def)
  then show ?thesis using write_post_file [OF f sz(2,3) post] by blast
qed

end
