(* ===== verification/InodeTrunc.thy ===== *)
theory InodeTrunc
  imports InodeWrite
begin

text \<open>
  \<open>testfs_truncate_data\<close> frees exactly the blocks past the new end (and the indirect block when no
  entry of it is left), so the file stays well formed and holds the prefix of its old contents;
  and \<open>testfs_sync_inode\<close>, which stores the on-disk inode in its slot of the inode table and
  leaves every other slot alone.
\<close>

section \<open>Freeing a list of blocks\<close>

definition free_all :: "nat list \<Rightarrow> 'd fsys \<Rightarrow> 'd fsys" where
  "free_all ks s = fold free_st ks s"

lemma free_all_simps [simp]:
  "free_all [] s = s" "free_all (k # ks) s = free_all ks (free_st k s)"
  "free_all (ks @ ls) s = free_all ls (free_all ks s)"
  by (simp_all add: free_all_def)

definition freeable :: "nat list \<Rightarrow> 'd fsys \<Rightarrow> bool" where
  "freeable ks s \<longleftrightarrow> distinct ks \<and> (\<forall>k \<in> set ks. k < MAX_NR_CSUMS \<and> k \<in> used s)"

lemma free_all_ok:
  assumes "fs_ok N s" "freeable ks s"
  shows "fs_ok N (free_all ks s) \<and> used (free_all ks s) = used s - set ks \<and>
    nfree (free_all ks s) = nfree s + length ks \<and>
    csum_table_of (free_all ks s) = csum_table_of s \<and>
    data_step N ((\<lambda>k. 192 + int k) ` set ks) s (free_all ks s) \<and>
    (\<forall>j < MAX_NR_CSUMS. j \<notin> set ks \<longrightarrow> dblk (free_all ks s) (192 + j) = dblk s (192 + j))"
  using assms
proof (induction ks arbitrary: s)
  case Nil
  then show ?case by (simp add: data_step_refl)
next
  case (Cons k ks)
  have k: "k < 7680" "k \<in> used s" "k \<notin> set ks" using Cons.prems(2) by (auto simp: freeable_def)
  have ok: "fs_ok N (free_st k s)" using fs_ok_free_st [OF Cons.prems(1)] k(1) by simp
  have us: "used (free_st k s) = used s - {k}" using used_free_st [OF Cons.prems(1)] k(1) by simp
  have "freeable ks (free_st k s)" using Cons.prems(2) us by (auto simp: freeable_def)
  from Cons.IH [OF ok this]
  have ih: "fs_ok N (free_all ks (free_st k s))"
    "used (free_all ks (free_st k s)) = used (free_st k s) - set ks"
    "nfree (free_all ks (free_st k s)) = nfree (free_st k s) + length ks"
    "csum_table_of (free_all ks (free_st k s)) = csum_table_of (free_st k s)"
    "data_step N ((\<lambda>k. 192 + int k) ` set ks) (free_st k s) (free_all ks (free_st k s))"
    "\<forall>j < 7680. j \<notin> set ks \<longrightarrow>
       dblk (free_all ks (free_st k s)) (192 + j) = dblk (free_st k s) (192 + j)"
    by blast+
  have "data_step N ((\<lambda>k. 192 + int k) ` set (k # ks)) s (free_st k s)"
    using Cons.prems(1) k(1) by (rule data_step_free_st) simp
  then have "data_step N ((\<lambda>k. 192 + int k) ` set (k # ks)) s (free_all (k # ks) s)"
    using ih(5) by (auto intro: data_step_trans)
  moreover have "dblk (free_st k s) (192 + j) = dblk s (192 + j)" if "j < 7680" "j \<noteq> k" for j
    using dblk_free_st [OF Cons.prems(1) k(1), of "192 + j"] data_block_bound [OF Cons.prems(1) that(1)]
      that(2) by simp
  moreover have "used s - {k} - set ks = used s - set (k # ks)" by auto
  ultimately show ?case
    using ih us nfree_free_st [OF Cons.prems(1) k(1,2)] by simp
qed

lemma free_block_run:
  "fs_ok N s \<Longrightarrow> k < MAX_NR_CSUMS \<Longrightarrow> k \<in> used s \<Longrightarrow> testfs_free_block (192 + int k) s = Inr (0, free_st k s)"
  by (simp add: free_block_eq)

lemma freeable_Cons:
  assumes "fs_ok N s" "freeable (k # ks) s"
  shows "k < MAX_NR_CSUMS" "k \<in> used s" "fs_ok N (free_st k s)" "freeable ks (free_st k s)"
proof -
  show k: "k < 7680" "k \<in> used s" using assms(2) by (auto simp: freeable_def)
  show "fs_ok N (free_st k s)" using fs_ok_free_st [OF assms(1)] k(1) by simp
  show "freeable ks (free_st k s)"
    using assms k used_free_st [OF assms(1)] by (auto simp: freeable_def)
qed

section \<open>The two loops\<close>

text \<open>The data blocks a file has from logical block \<open>a\<close> to \<open>b\<close>.\<close>

definition dnums :: "'d fsys \<Rightarrow> dinode \<Rightarrow> nat \<Rightarrow> nat \<Rightarrow> nat list" where
  "dnums s d a b = map (\<lambda>n. nat (lblk s d n) - 192) [a ..< b]"

definition cut_direct :: "nat \<Rightarrow> nat \<Rightarrow> int list \<Rightarrow> int list" where
  "cut_direct a b bs = map (\<lambda>j. if a \<le> j \<and> j < b then 0 else bs ! j) [0 ..< length bs]"

lemma cut_direct_step:
  "a < b \<Longrightarrow> a < length bs \<Longrightarrow> cut_direct (Suc a) b (bs[a := 0]) = cut_direct a b bs"
  by (rule nth_equalityI) (auto simp: cut_direct_def nth_list_update)

lemma cut_direct_id: "b \<le> a \<Longrightarrow> cut_direct a b bs = bs"
  by (rule nth_equalityI) (auto simp: cut_direct_def)

definition cut_ino :: "nat \<Rightarrow> nat \<Rightarrow> inode \<Rightarrow> inode" where
  "cut_ino a b ino = (if a < b
     then set_flag I_FLAGS_DIRTY (upd_in (\<lambda>d. d\<lparr>i_block_nr := cut_direct a b (i_block_nr d)\<rparr>) ino)
     else ino)"

lemma set_flag_twice [simp]: "set_flag f (upd_in g (set_flag f ino)) = set_flag f (upd_in g ino)"
  by (simp add: set_flag_def upd_in_def or.assoc)

lemma upd_in_twice [simp]: "upd_in g (upd_in h ino) = upd_in (\<lambda>d. g (h d)) ino"
  by (simp add: upd_in_def)

lemma trunc_direct_eq:
  assumes "fs_ok N s" "length (i_block_nr (i_in ino)) = 4"
    and "\<And>j. a \<le> j \<Longrightarrow> j < min e 4 \<Longrightarrow> 192 \<le> i_block_nr (i_in ino) ! j"
    and "freeable (map (\<lambda>j. nat (i_block_nr (i_in ino) ! j) - 192) [a ..< min e 4]) s"
  shows "trunc_direct (int a) (int e) ino s =
    Inr (cut_ino a (min e 4) ino,
         free_all (map (\<lambda>j. nat (i_block_nr (i_in ino) ! j) - 192) [a ..< min e 4]) s)"
  using assms
proof (induction "min e 4 - a" arbitrary: a ino s)
  case 0
  then have stop: "\<not> (a < e \<and> a < 4)" "\<not> a < min e 4" "[a ..< min e 4] = []" by auto
  show ?case by (subst trunc_direct.simps) (use stop in \<open>auto simp: cut_ino_def\<close>)
next
  case (Suc x)
  let ?bs = "i_block_nr (i_in ino)" and ?b = "min e 4"
  have a: "a < e" "a < 4" using Suc.hyps(2) by simp_all
  let ?k = "nat (?bs ! a) - 192"
  let ?ino = "set_flag I_FLAGS_DIRTY (upd_in (\<lambda>d. d\<lparr>i_block_nr := (i_block_nr d)[a := 0]\<rparr>) ino)"
  have up: "[a ..< ?b] = a # [Suc a ..< ?b]" using a by (simp add: upt_rec)
  have fr: "freeable (?k # map (\<lambda>j. nat (?bs ! j) - 192) [Suc a ..< ?b]) s"
    using Suc.prems(4) unfolding up by simp
  note f = freeable_Cons [OF Suc.prems(1) fr]
  have ge: "192 \<le> ?bs ! a" using Suc.prems(3) [of a] a by simp
  then have ba: "?bs ! a = 192 + int ?k" by simp
  have same: "map (\<lambda>j. nat (i_block_nr (i_in ?ino) ! j) - 192) [Suc a ..< ?b] =
      map (\<lambda>j. nat (?bs ! j) - 192) [Suc a ..< ?b]" by (rule map_cong) auto
  have "trunc_direct (int (Suc a)) (int e) ?ino (free_st ?k s) =
      Inr (cut_ino (Suc a) ?b ?ino,
           free_all (map (\<lambda>j. nat (i_block_nr (i_in ?ino) ! j) - 192) [Suc a ..< ?b]) (free_st ?k s))"
  proof (rule Suc.hyps(1))
    show "x = ?b - Suc a" using Suc.hyps(2) by simp
    show "fs_ok N (free_st ?k s)" by (rule f(3))
    show "length (i_block_nr (i_in ?ino)) = 4" using Suc.prems(2) by simp
    show "192 \<le> i_block_nr (i_in ?ino) ! j" if "Suc a \<le> j" "j < ?b" for j
      using Suc.prems(3) [of j] that by simp
    show "freeable (map (\<lambda>j. nat (i_block_nr (i_in ?ino) ! j) - 192) [Suc a ..< ?b]) (free_st ?k s)"
      unfolding same by (rule f(4))
  qed
  moreover have "cut_ino (Suc a) ?b ?ino = cut_ino a ?b ino"
    using a cut_direct_step [of a ?b ?bs] Suc.prems(2) cut_direct_id [of ?b "Suc a" "?bs[a := 0]"]
    by (auto simp: cut_ino_def upd_in_def set_flag_def or.assoc)
  moreover have "trunc_direct (int a) (int e) ino s = trunc_direct (int (Suc a)) (int e) ?ino (free_st ?k s)"
    using a ge Suc.prems(2) free_block_run [OF Suc.prems(1) f(1,2)] ba
    by (subst trunc_direct.simps) (simp add: add.commute)
  ultimately show ?case unfolding up same by simp
qed

text \<open>The entries \<open>a\<close> to \<open>b\<close> of an indirect block, cleared.\<close>

fun cut_ind :: "nat \<Rightarrow> nat \<Rightarrow> byte list \<Rightarrow> byte list" where
  "cut_ind a 0 B = B"
| "cut_ind a (Suc n) B = cut_ind (Suc a) n (set_int_at B a 0)"

lemma cut_ind_props:
  assumes "length B = 512" "a + n \<le> 128"
  shows "length (cut_ind a n B) = 512 \<and>
    (\<forall>j < 128. int_at (cut_ind a n B) j = (if a \<le> j \<and> j < a + n then 0 else int_at B j))"
  using assms
proof (induction a n B rule: cut_ind.induct)
  case (2 a n B)
  have "length (set_int_at B a 0) = 512" using 2 by simp
  moreover have "int_at (set_int_at B a 0) j = (if a = j then 0 else int_at B j)" if "j < 128" for j
    using 2 that by (simp add: int_at_set_int_at in_int32_def)
  ultimately show ?case using 2 by auto
qed simp

lemma trunc_indirect_eq:
  assumes "fs_ok N s" "length B = 512" "e \<le> 128"
    and "\<And>j. a \<le> j \<Longrightarrow> j < e \<Longrightarrow> 192 \<le> int_at B j"
    and "freeable (map (\<lambda>j. nat (int_at B j) - 192) [a ..< e]) s"
  shows "trunc_indirect (int a) (int e) B s =
    Inr (cut_ind a (e - a) B, free_all (map (\<lambda>j. nat (int_at B j) - 192) [a ..< e]) s)"
  using assms
proof (induction "e - a" arbitrary: a B s)
  case 0
  then have stop: "\<not> a < e" by simp
  show ?case by (subst trunc_indirect.simps) (use stop in simp)
next
  case (Suc x)
  have a: "a < e" "a < 128" using Suc.hyps(2) Suc.prems(3) by simp_all
  let ?k = "nat (int_at B a) - 192" and ?B = "set_int_at B a 0"
  have up: "[a ..< e] = a # [Suc a ..< e]" using a by (simp add: upt_rec)
  have ea: "e - a = Suc (e - Suc a)" using a by simp
  have fr: "freeable (?k # map (\<lambda>j. nat (int_at B j) - 192) [Suc a ..< e]) s"
    using Suc.prems(5) unfolding up by simp
  note f = freeable_Cons [OF Suc.prems(1) fr]
  have ge: "192 \<le> int_at B a" using Suc.prems(4) [of a] a by simp
  then have ba: "int_at B a = 192 + int ?k" by simp
  have at: "int_at ?B j = int_at B j" if "Suc a \<le> j" "j < e" for j
    using that Suc.prems(2,3) a by (simp add: int_at_set_int_at in_int32_def)
  then have same: "map (\<lambda>j. nat (int_at ?B j) - 192) [Suc a ..< e] =
      map (\<lambda>j. nat (int_at B j) - 192) [Suc a ..< e]" by (intro map_cong) auto
  have "trunc_indirect (int (Suc a)) (int e) ?B (free_st ?k s) =
      Inr (cut_ind (Suc a) (e - Suc a) ?B,
           free_all (map (\<lambda>j. nat (int_at ?B j) - 192) [Suc a ..< e]) (free_st ?k s))"
  proof (rule Suc.hyps(1))
    show "x = e - Suc a" using Suc.hyps(2) by simp
    show "fs_ok N (free_st ?k s)" by (rule f(3))
    show "length ?B = 512" using Suc.prems(2) a by simp
    show "e \<le> 128" by fact
    show "192 \<le> int_at ?B j" if "Suc a \<le> j" "j < e" for j
      using Suc.prems(4) [of j] at [OF that] that by simp
    show "freeable (map (\<lambda>j. nat (int_at ?B j) - 192) [Suc a ..< e]) (free_st ?k s)"
      unfolding same by (rule f(4))
  qed
  moreover have "trunc_indirect (int a) (int e) B s = trunc_indirect (int (Suc a)) (int e) ?B (free_st ?k s)"
    using a ge free_block_run [OF Suc.prems(1) f(1,2)] ba
    by (subst trunc_indirect.simps) (simp add: add.commute)
  ultimately show ?case unfolding up same ea by simp
qed

section \<open>\<open>testfs_truncate_data\<close>\<close>

lemma freeable_append:
  assumes "fs_ok N s" "freeable (xs @ ys) s"
  shows "freeable xs s" "freeable ys (free_all xs s)" "set xs \<inter> set ys = {}"
  using assms free_all_ok [OF assms(1), of xs] by (auto simp: freeable_def)

text \<open>Keeping only the first \<open>a\<close> logical blocks and releasing the others.\<close>

definition kept :: "'d fsys \<Rightarrow> dinode \<Rightarrow> nat \<Rightarrow> int set" where
  "kept s d a = lblk s d ` {..< a} \<union> (if 4 < a then {i_indirect d} else {})"

lemma inode_shrink:
  assumes im: "imap_ok s d m" and a: "a \<le> m"
    and st: "data_step N (iblks s d m) s t"
    and us: "ablocks t = ablocks s - (iblks s d m - kept s d a)"
    and l: "\<And>j. j < 132 \<Longrightarrow> lblk t d' j = (if j < a then lblk s d j else 0)"
    and len: "length (i_block_nr d') = 4" and ind: "i_indirect d' = (if 4 < a then i_indirect d else 0)"
  shows "inode_step N s d m t d' a"
proof -
  note m = imap_okD(1) [OF im]
  have img: "lblk t d' ` {..< a} = lblk s d ` {..< a}"
    by (rule image_cong) (use l a m in auto)
  have ib: "iblks t d' a = kept s d a" using img ind by (simp add: iblks_def kept_def)
  have sub: "kept s d a \<subseteq> iblks s d m" using a by (auto simp: kept_def iblks_def)
  have ub: "kept s d a \<subseteq> ublocks s" using im sub unfolding imap_ok_def by blast
  have ubt: "kept s d a \<subseteq> ublocks t"
  proof
    fix b assume b: "b \<in> kept s d a"
    then obtain k where k: "b = 192 + int k" "k < 7680" "k \<in> used s" using ub by (blast elim: ublocksE)
    then have "192 + int k \<in> ablocks t" using us b by simp
    then show "b \<in> ublocks t" using k by simp
  qed
  have inj: "inj_on (lblk t d') {..< a}"
  proof (rule inj_onI)
    fix x y assume xy: "x \<in> {..< a}" "y \<in> {..< a}" "lblk t d' x = lblk t d' y"
    then have "x < m" "y < m" "x < 132" "y < 132" using a m by simp_all
    then show "x = y" using xy l imap_okD(5) [OF im, of x y] by simp
  qed
  have ni: "i_indirect d' \<notin> lblk t d' ` {..< a}" if "4 < a"
  proof
    assume "i_indirect d' \<in> lblk t d' ` {..< a}"
    then obtain j where "j < a" "i_indirect d' = lblk s d j" unfolding img by auto
    moreover have "i_indirect d' = i_indirect d" using ind that by simp
    ultimately have "j < a" "lblk s d j = i_indirect d" by simp_all
    then show False using imap_okD(6) [OF im, of j] that a by simp
  qed
  have i0: "i_indirect d' = 0 \<longleftrightarrow> a \<le> 4" using ind imap_okD(3) [OF im] a by auto
  have "imap_ok t d' a"
    unfolding imap_ok_def using a m len i0 inj ni ubt ib l by simp
  moreover have "ablocks t = (ablocks s - iblks s d m) \<union> iblks t d' a"
    unfolding us ib using sub iblks_ablocks [OF im] by blast
  ultimately show ?thesis unfolding inode_step_def using st ib sub by blast
qed

lemma own_freeable:
  assumes im: "imap_ok s d m"
  shows "freeable (dnums s d a m @ (if 4 < m then [nat (i_indirect d) - 192] else [])) s"
    "n < m \<Longrightarrow> lblk s d n = 192 + int (nat (lblk s d n) - 192)"
    "4 < m \<Longrightarrow> i_indirect d = 192 + int (nat (i_indirect d) - 192)"
    "n < m \<Longrightarrow> nat (lblk s d n) - 192 < MAX_NR_CSUMS"
    "4 < m \<Longrightarrow> nat (i_indirect d) - 192 < MAX_NR_CSUMS"
    "4 < m \<Longrightarrow> nat (i_indirect d) - 192 \<in> used s"
proof -
  have n: "lblk s d n = 192 + int (nat (lblk s d n) - 192) \<and> nat (lblk s d n) - 192 < 7680 \<and>
      nat (lblk s d n) - 192 \<in> used s" if "n < m" for n
    by (rule lblk_mapped [OF im that]) (simp add: nat_add_distrib)
  have i: "i_indirect d = 192 + int (nat (i_indirect d) - 192) \<and> nat (i_indirect d) - 192 < 7680 \<and>
      nat (i_indirect d) - 192 \<in> used s" if "4 < m"
    by (rule indirect_mapped [OF im that]) (simp add: nat_add_distrib)
  show "n < m \<Longrightarrow> lblk s d n = 192 + int (nat (lblk s d n) - 192)"
    "n < m \<Longrightarrow> nat (lblk s d n) - 192 < MAX_NR_CSUMS" using n by blast+
  show "4 < m \<Longrightarrow> i_indirect d = 192 + int (nat (i_indirect d) - 192)"
    "4 < m \<Longrightarrow> nat (i_indirect d) - 192 < MAX_NR_CSUMS" "4 < m \<Longrightarrow> nat (i_indirect d) - 192 \<in> used s"
    using i by blast+
  have eq: "nat (lblk s d x) - 192 = nat (lblk s d y) - 192 \<longleftrightarrow> x = y" if "x < m" "y < m" for x y
    using n [OF that(1)] n [OF that(2)] imap_okD(5) [OF im that] by metis
  have ne: "nat (lblk s d x) - 192 \<noteq> nat (i_indirect d) - 192" if "4 < m" "x < m" for x
    using n [OF that(2)] i [OF that(1)] imap_okD(6) [OF im that] by metis
  have "distinct (dnums s d a m)"
    unfolding dnums_def distinct_map by (auto simp: inj_on_def eq)
  moreover have "nat (i_indirect d) - 192 \<notin> set (dnums s d a m)" if "4 < m"
  proof
    assume "nat (i_indirect d) - 192 \<in> set (dnums s d a m)"
    then obtain x where "x < m" "nat (i_indirect d) - 192 = nat (lblk s d x) - 192"
      by (auto simp: dnums_def)
    with ne [OF that] show False by metis
  qed
  moreover have "k < 7680 \<and> k \<in> used s" if "k \<in> set (dnums s d a m)" for k
    using that n by (auto simp: dnums_def)
  ultimately show "freeable (dnums s d a m @ (if 4 < m then [nat (i_indirect d) - 192] else [])) s"
    using i by (auto simp: freeable_def)
qed

lemma dnums_append: "a \<le> b \<Longrightarrow> b \<le> c \<Longrightarrow> dnums s d a c = dnums s d a b @ dnums s d b c"
  using upt_add_eq_append [of a b "c - b"] by (simp add: dnums_def)

lemma dnums_direct:
  "b \<le> 4 \<Longrightarrow> dnums s d a b = map (\<lambda>j. nat (i_block_nr d ! j) - 192) [a ..< b]"
  by (simp add: dnums_def lblk_def)

lemma dnums_indirect:
  assumes "i_indirect d \<noteq> 0"
  shows "dnums s d (4 + a) (4 + b) =
    map (\<lambda>j. nat (int_at (dblk s (nat (i_indirect d))) j) - 192) [a ..< b]"
proof -
  have "[4 + a ..< 4 + b] = map (\<lambda>j. 4 + j) [a ..< b]"
    by (rule nth_equalityI) simp_all
  then show ?thesis using assms by (simp add: dnums_def lblk_def)
qed

lemma cut_ino_props:
  "i_in (cut_ino a b ino) = (i_in ino)\<lparr>i_block_nr := cut_direct a b (i_block_nr (i_in ino))\<rparr>"
  "same_inode ino (cut_ino a b ino)"
  by (auto simp: cut_ino_def cut_direct_id same_inode_upd)

text \<open>What is left of the file system and of the inode.\<close>

definition trunc_st :: "'d fsys \<Rightarrow> dinode \<Rightarrow> nat \<Rightarrow> nat \<Rightarrow> 'd fsys" where
  "trunc_st s d a m =
     (let t = free_all (dnums s d a m) s; i = nat (i_indirect d) - 192 in
      if m \<le> 4 then t
      else if a \<le> 4 then free_st i t
      else put_blk (cut_ind (a - 4) (m - a) (dblk s (192 + i))) (192 + i) t)"

definition trunc_di :: "dinode \<Rightarrow> nat \<Rightarrow> nat \<Rightarrow> int \<Rightarrow> dinode" where
  "trunc_di d a m sz = d\<lparr>i_block_nr := cut_direct a (min m 4) (i_block_nr d),
     i_indirect := (if 4 < a then i_indirect d else 0), i_size := sz\<rparr>"

lemma DIVROUNDUP_nblocks: "DIVROUNDUP (int n) 512 = int (nblocks n)"
proof -
  have "int n + 512 - 1 = int (n + 511)" by simp
  then show ?thesis unfolding DIVROUNDUP_def nblocks_def by (simp add: zdiv_int del: of_nat_add)
qed

text \<open>The blocks are released in two parts, the direct ones first, and the indirect block at last.\<close>

lemma dnums_parts:
  assumes "a \<le> m"
  shows "dnums s d a m = dnums s d a (min m 4) @ (if 4 < m then dnums s d (4 + (a - 4)) m else [])"
proof (cases "4 < m")
  case True
  show ?thesis
  proof (cases "a \<le> 4")
    case le: True
    then show ?thesis using True dnums_append [of a 4 m s d] by simp
  next
    case False
    then have "4 + (a - 4) = a" "dnums s d a (min m 4) = []" using True by (simp_all add: dnums_def)
    then show ?thesis using True by simp
  qed
next
  case False
  then have "min m 4 = m" by simp
  then show ?thesis using False by simp
qed

lemma truncate_parts:
  assumes ok: "fs_ok N s" and im: "imap_ok s d m" and am: "a \<le> m"
  shows "freeable (dnums s d a (min m 4)) s" "fs_ok N (free_all (dnums s d a (min m 4)) s)"
    "fs_ok N (free_all (dnums s d a m) s)"
    "4 < m \<Longrightarrow> freeable (dnums s d (4 + (a - 4)) m) (free_all (dnums s d a (min m 4)) s)"
    "4 < m \<Longrightarrow> free_all (dnums s d a m) s = free_all (dnums s d (4 + (a - 4)) m) (free_all (dnums s d a (min m 4)) s)"
    "4 < m \<Longrightarrow> freeable [nat (i_indirect d) - 192] (free_all (dnums s d a m) s)"
    "4 < m \<Longrightarrow> nat (i_indirect d) - 192 \<notin> set (dnums s d a (min m 4))"
proof -
  let ?P = "dnums s d a (min m 4)" and ?Q = "if 4 < m then dnums s d (4 + (a - 4)) m else []"
  let ?R = "if 4 < m then [nat (i_indirect d) - 192] else []"
  have "freeable (?P @ (?Q @ ?R)) s" using own_freeable(1) [OF im, of a] unfolding dnums_parts [OF am] by simp
  note fP = freeable_append [OF ok this]
  show P: "freeable ?P s" by (rule fP(1))
  show ok1: "fs_ok N (free_all ?P s)" using free_all_ok [OF ok fP(1)] by blast
  note fQ = freeable_append [OF ok1 fP(2)]
  have s2: "free_all (dnums s d a m) s = free_all ?Q (free_all ?P s)" unfolding dnums_parts [OF am] by simp
  show "fs_ok N (free_all (dnums s d a m) s)" unfolding s2 using free_all_ok [OF ok1 fQ(1)] by blast
  show "4 < m \<Longrightarrow> freeable (dnums s d (4 + (a - 4)) m) (free_all ?P s)" using fQ(1) by simp
  show "4 < m \<Longrightarrow> free_all (dnums s d a m) s = free_all (dnums s d (4 + (a - 4)) m) (free_all ?P s)" using s2 by simp
  show "4 < m \<Longrightarrow> freeable [nat (i_indirect d) - 192] (free_all (dnums s d a m) s)" unfolding s2 using fQ(2) by simp
  show "4 < m \<Longrightarrow> nat (i_indirect d) - 192 \<notin> set ?P" using fP(3) by auto
qed

text \<open>The loop over the direct pointers, and the one over the indirect block that it reads.\<close>

lemma truncate_direct_run:
  assumes ok: "fs_ok N s" and im: "imap_ok s (i_in ino) m" and am: "a \<le> m"
  shows "trunc_direct (int a) (int m) ino s =
    Inr (cut_ino a (min m 4) ino, free_all (dnums s (i_in ino) a (min m 4)) s)"
proof -
  let ?d = "i_in ino"
  have P: "dnums s ?d a (min m 4) = map (\<lambda>j. nat (i_block_nr ?d ! j) - 192) [a ..< min m 4]"
    by (rule dnums_direct) simp
  have ge: "192 \<le> i_block_nr ?d ! j" if "a \<le> j" "j < min m 4" for j
    using own_freeable(2) [OF im, of j] that by (simp add: lblk_def)
  show ?thesis
    using trunc_direct_eq [OF ok imap_okD(2) [OF im], of a m] ge truncate_parts(1) [OF ok im am] unfolding P by blast
qed

lemma truncate_indirect_run:
  assumes ok: "fs_ok N s" and im: "imap_ok s d m" and am: "a \<le> m" and m4: "4 < m"
  defines "i \<equiv> nat (i_indirect d) - 192"
  shows "i_indirect d = 192 + int i" "i < 7680" "length (dblk s (192 + i)) = 512"
    "read_blocks (free_all (dnums s d a (min m 4)) s) (192 + int i) 1 = Inr (dblk s (192 + i))"
    "trunc_indirect (int (a - 4)) (int m - 4) (dblk s (192 + i)) (free_all (dnums s d a (min m 4)) s) =
      Inr (cut_ind (a - 4) (m - 4 - (a - 4)) (dblk s (192 + i)), free_all (dnums s d a m) s)"
proof -
  note own = own_freeable [OF im] and tp = truncate_parts [OF ok im am]
  let ?s1 = "free_all (dnums s d a (min m 4)) s" and ?B = "dblk s (192 + i)"
  show i: "i_indirect d = 192 + int i" "i < 7680" using own(3,5) [OF m4] by (simp_all add: i_def)
  show lB: "length ?B = 512" using length_dblk [OF fs_okD(1) [OF ok] data_block_bound(1) [OF ok i(2)]] .
  have "dblk ?s1 (192 + i) = ?B" using free_all_ok [OF ok tp(1)] i(2) tp(7) [OF m4] unfolding i_def by blast
  then show "read_blocks ?s1 (192 + int i) 1 = Inr ?B"
    using read_block [of N ?s1 "192 + int i"] fs_okD(1) [OF tp(2)] data_block_bound [OF ok i(2)] by (simp add: nat_add_distrib)
  have Q: "dnums s d (4 + (a - 4)) m = map (\<lambda>j. nat (int_at ?B j) - 192) [a - 4 ..< m - 4]"
    using dnums_indirect [of d s "a - 4" "m - 4"] i(1) m4 by (simp add: nat_add_distrib)
  have ge: "192 \<le> int_at ?B j" if "a - 4 \<le> j" "j < m - 4" for j
  proof -
    have "lblk s d (4 + j) = 192 + int (nat (lblk s d (4 + j)) - 192)" by (rule own(2)) (use that in simp)
    moreover have "int_at ?B j = lblk s d (4 + j)" using i(1) by (simp add: lblk_def nat_add_distrib)
    ultimately show ?thesis by linarith
  qed
  have m128: "m - 4 \<le> 128" using imap_okD(1) [OF im] by simp
  have m: "int m - 4 = int (m - 4)" using m4 by simp
  show "trunc_indirect (int (a - 4)) (int m - 4) ?B ?s1 =
      Inr (cut_ind (a - 4) (m - 4 - (a - 4)) ?B, free_all (dnums s d a m) s)"
    using trunc_indirect_eq [OF tp(2) lB m128 ge] tp(4) [OF m4] unfolding tp(5) [OF m4] Q m by blast
qed

text \<open>The inode at the end: its size is set and it is dirty.\<close>

definition cut_off :: "int \<Rightarrow> inode \<Rightarrow> inode" where
  "cut_off sz ino = set_flag I_FLAGS_DIRTY (upd_in (\<lambda>d. d\<lparr>i_size := sz\<rparr>) ino)"

lemma cut_off_props:
  assumes "ino1 = cut_ino a (min m 4) ino" "4 < a \<or> i_indirect (i_in ino) = 0"
  shows "i_in (cut_off sz ino1) = trunc_di (i_in ino) a m sz \<and> same_inode ino (cut_off sz ino1) \<and>
    has_flag (cut_off sz ino1) I_FLAGS_DIRTY"
  using assms same_inode_trans [OF cut_ino_props(2) [of ino a "min m 4"]]
  by (auto simp: cut_off_def trunc_di_def cut_ino_props same_inode_upd)

lemma cut_off_indirect:
  assumes "ino1 = set_flag I_FLAGS_DIRTY (upd_in (\<lambda>d. d\<lparr>i_indirect := 0\<rparr>) (cut_ino a (min m 4) ino))" "a \<le> 4"
  shows "i_in (cut_off sz ino1) = trunc_di (i_in ino) a m sz \<and> same_inode ino (cut_off sz ino1) \<and>
    has_flag (cut_off sz ino1) I_FLAGS_DIRTY"
  using assms same_inode_trans [OF cut_ino_props(2) [of ino a "min m 4"]]
  by (auto simp: cut_off_def trunc_di_def cut_ino_props same_inode_upd)

lemma truncate_run:
  assumes ok: "fs_ok N s" and im: "imap_ok s (i_in ino) m"
    and size: "i_size (i_in ino) = int n" "m = nblocks n" "sz < n"
  defines "a \<equiv> nblocks sz"
  shows "\<exists>ino'. testfs_truncate_data ino (int sz) s = Inr (ino', trunc_st s (i_in ino) a m) \<and>
    i_in ino' = trunc_di (i_in ino) a m (int sz) \<and> same_inode ino ino' \<and> has_flag ino' I_FLAGS_DIRTY"
proof -
  let ?d = "i_in ino" and ?ino1 = "cut_ino a (min m 4) ino"
  have am: "a \<le> m" unfolding a_def size(2) nblocks_def using size(3) by (intro div_le_mono) simp
  note direct = truncate_direct_run [OF ok im am]
  have e: "DIVROUNDUP (int sz) 512 = int a" "DIVROUNDUP (i_size ?d) 512 = int m"
    unfolding size(1) a_def size(2) by (rule DIVROUNDUP_nblocks)+
  have gt: "\<not> i_size ?d \<le> int sz" using size by simp
  note run = testfs_truncate_data_def [of ino "int sz" s, unfolded Let_def e]
  show ?thesis
  proof (cases "m \<le> 4")
    case True
    have i0: "i_indirect ?d = 0" using imap_okD(3) [OF im] True by simp
    then have "testfs_truncate_data ino (int sz) s = Inr (cut_off (int sz) ?ino1, trunc_st s ?d a m)"
      using gt direct True unfolding run by (simp add: cut_ino_props trunc_st_def cut_off_def)
    then show ?thesis using cut_off_props [where sz = "int sz", OF refl disjI2 [OF i0]] by blast
  next
    case False
    then have m4: "4 < m" by simp
    note ind = truncate_indirect_run [OF ok im am m4] and tp = truncate_parts [OF ok im am]
    let ?i = "nat (i_indirect ?d) - 192" and ?s2 = "free_all (dnums s ?d a m) s"
    have c: "max (int a - 4) 0 = int (a - 4)" "0 < int m - 4" using m4 by auto
    show ?thesis
    proof (cases "a \<le> 4")
      case True
      let ?ino2 = "set_flag I_FLAGS_DIRTY (upd_in (\<lambda>d. d\<lparr>i_indirect := 0\<rparr>) ?ino1)"
      have "testfs_free_block (192 + int ?i) ?s2 = Inr (0, free_st ?i ?s2)"
        using free_block_run [OF tp(3) ind(2)] tp(6) [OF m4] by (simp add: freeable_def)
      then have "testfs_truncate_data ino (int sz) s = Inr (cut_off (int sz) ?ino2, trunc_st s ?d a m)"
        using gt direct ind(1,4,5) c True m4 unfolding run by (simp add: cut_ino_props trunc_st_def cut_off_def Let_def)
      then show ?thesis using cut_off_indirect [where sz = "int sz", OF refl True] by blast
    next
      case a4: False
      let ?B = "cut_ind (a - 4) (m - 4 - (a - 4)) (dblk s (192 + ?i))"
      have "length ?B = 512" using cut_ind_props [OF ind(3), of "a - 4" "m - 4 - (a - 4)"] imap_okD(1) [OF im] am a4 by simp
      then have "write_blocks ?B (192 + int ?i) 1 ?s2 = Inr (put_blk ?B (192 + ?i) ?s2)"
        using write_block [of N ?s2 "192 + int ?i" ?B] fs_okD(1) [OF tp(3)] data_block_bound [OF ok ind(2)]
        by (simp add: nat_add_distrib)
      moreover have "m - 4 - (a - 4) = m - a" using a4 by simp
      ultimately have "testfs_truncate_data ino (int sz) s = Inr (cut_off (int sz) ?ino1, trunc_st s ?d a m)"
        using gt direct ind(1,4,5) c a4 m4 unfolding run by (simp add: cut_ino_props trunc_st_def cut_off_def Let_def)
      then show ?thesis using cut_off_props [where sz = "int sz", OF refl disjI1] a4 unfolding not_le by blast
    qed
  qed
qed

text \<open>The released blocks: they belong to the inode, and the blocks that stay are not among them.\<close>

definition released :: "'d fsys \<Rightarrow> dinode \<Rightarrow> nat \<Rightarrow> nat \<Rightarrow> nat list" where
  "released s d a m = dnums s d a m @ (if a \<le> 4 \<and> 4 < m then [nat (i_indirect d) - 192] else [])"

lemma released_props:
  assumes im: "imap_ok s d m" and a: "a \<le> m"
  shows "freeable (released s d a m) s" "(\<lambda>k. 192 + int k) ` set (released s d a m) = iblks s d m - kept s d a"
    "n < a \<Longrightarrow> nat (lblk s d n) - 192 \<notin> set (released s d a m)"
proof -
  note own = own_freeable [OF im]
  show "freeable (released s d a m) s" using own(1) [of a] by (auto simp: released_def freeable_def)
  have num: "192 + int (nat (lblk s d j) - 192) = lblk s d j" if "j < m" for j using own(2) [OF that] by simp
  define A where "A = lblk s d ` {..< a}"
  define M where "M = lblk s d ` {..< m}"
  have "(\<lambda>k. 192 + int k) ` set (dnums s d a m) = lblk s d ` {a ..< m}"
    unfolding dnums_def set_map set_upt image_image by (rule image_cong) (use num in auto)
  moreover have "lblk s d ` {a ..< m} = M - A"
  proof -
    have "lblk s d i \<noteq> lblk s d j" if "i < a" "a \<le> j" "j < m" for i j
      using imap_okD(5) [OF im, of i j] that a by simp
    then show ?thesis using a by (fastforce simp: image_iff M_def A_def)
  qed
  ultimately have img: "(\<lambda>k. 192 + int k) ` set (released s d a m) = (M - A) \<union> (if a \<le> 4 \<and> 4 < m then {i_indirect d} else {})"
    using own(3) by (cases "a \<le> 4"; cases "4 < m") (simp_all add: image_Un released_def)
  have "A \<subseteq> M" using a by (auto simp: A_def M_def)
  moreover have "i_indirect d \<notin> M" if "4 < m" using im that unfolding imap_ok_def M_def by simp
  ultimately have "(M - A) \<union> (if a \<le> 4 \<and> 4 < m then {i_indirect d} else {}) =
      (M \<union> (if 4 < m then {i_indirect d} else {})) - (A \<union> (if 4 < a then {i_indirect d} else {}))"
    using a by (cases "4 < m"; cases "4 < a") auto
  then show K: "(\<lambda>k. 192 + int k) ` set (released s d a m) = iblks s d m - kept s d a"
    unfolding img iblks_def kept_def A_def M_def .
  show "nat (lblk s d n) - 192 \<notin> set (released s d a m)" if "n < a"
  proof
    assume "nat (lblk s d n) - 192 \<in> set (released s d a m)"
    then have "192 + int (nat (lblk s d n) - 192) \<in> iblks s d m - kept s d a" unfolding K [symmetric] by (rule imageI)
    then have "lblk s d n \<notin> kept s d a" using num [of n] that a by simp
    then show False using that by (simp add: kept_def)
  qed
qed

text \<open>The file system at the end: the blocks are released, and the indirect block, if it stays, is rewritten.\<close>

lemma trunc_st_eq:
  assumes "a \<le> m"
  shows "trunc_st s d a m = (if 4 < a
    then put_blk (cut_ind (a - 4) (m - a) (dblk s (192 + (nat (i_indirect d) - 192)))) (192 + (nat (i_indirect d) - 192))
      (free_all (released s d a m) s)
    else free_all (released s d a m) s)"
  using assms by (auto simp: trunc_st_def Let_def released_def)

lemma indirect_cut:
  assumes ok: "fs_ok N s" and im: "imap_ok s d m" and a: "4 < a" "a \<le> m"
  shows "length (cut_ind (a - 4) (m - a) (dblk s (192 + (nat (i_indirect d) - 192)))) = 512"
    "nat (i_indirect d) - 192 < 7680" "192 + int (nat (i_indirect d) - 192) \<in> iblks s d m"
    "nat (i_indirect d) = 192 + (nat (i_indirect d) - 192)"
    "n < a \<Longrightarrow> nat (lblk s d n) - 192 \<noteq> nat (i_indirect d) - 192"
proof -
  note own = own_freeable [OF im]
  have m4: "4 < m" using a by simp
  show b: "nat (i_indirect d) - 192 < 7680" by (rule own(5) [OF m4])
  have "length (dblk s (192 + (nat (i_indirect d) - 192))) = 512"
    using length_dblk [OF fs_okD(1) [OF ok] data_block_bound(1) [OF ok b]] .
  then show "length (cut_ind (a - 4) (m - a) (dblk s (192 + (nat (i_indirect d) - 192)))) = 512"
    using cut_ind_props [of _ "a - 4" "m - a"] a imap_okD(1) [OF im] by simp
  show "192 + int (nat (i_indirect d) - 192) \<in> iblks s d m" using own(3) [OF m4] m4 by (simp add: iblks_def)
  show "nat (i_indirect d) = 192 + (nat (i_indirect d) - 192)" using own(3) [OF m4] by simp
  show "nat (lblk s d n) - 192 \<noteq> nat (i_indirect d) - 192" if "n < a"
    using own(2) [of n] own(3) imap_okD(6) [OF im, of n] that a m4 by (metis less_le_trans)
qed

lemma trunc_st_props:
  assumes ok: "fs_ok N s" and im: "imap_ok s d m" and a: "a \<le> m"
  defines "t \<equiv> trunc_st s d a m" and "ks \<equiv> released s d a m"
  shows "data_step N (iblks s d m) s t" "used t = used s - set ks" "nfree t = nfree s + length ks"
    "csum_table_of t = csum_table_of s"
    "n < a \<Longrightarrow> dblk t (nat (lblk s d n)) = dblk s (nat (lblk s d n))"
    "4 < a \<Longrightarrow> dblk t (nat (i_indirect d)) = cut_ind (a - 4) (m - a) (dblk s (nat (i_indirect d)))"
proof -
  note own = own_freeable [OF im] and rl = released_props [OF im a, folded ks_def]
  note fa = free_all_ok [OF ok rl(1)] and ic = indirect_cut [OF ok im _ a]
  let ?i = "nat (i_indirect d) - 192" and ?u = "free_all ks s"
  let ?c = "cut_ind (a - 4) (m - a) (dblk s (192 + ?i))"
  have t: "t = (if 4 < a then put_blk ?c (192 + ?i) ?u else ?u)"
    unfolding t_def ks_def by (rule trunc_st_eq [OF a])
  have "nfree t = nfree ?u" unfolding t by (simp add: nfree_def)
  then show "nfree t = nfree s + length ks" using fa by simp
  show "used t = used s - set ks" "csum_table_of t = csum_table_of s" using fa unfolding t by simp_all
  have u: "data_step N (iblks s d m) s ?u"
    by (rule data_step_mono [of _ "(\<lambda>k. 192 + int k) ` set ks"]) (use fa in blast, use rl(2) in blast)
  show "data_step N (iblks s d m) s t"
  proof (cases "4 < a")
    case True
    have "data_step N (iblks s d m) ?u t" using ic(1-3) [OF True] fa True unfolding t by (simp add: data_step_put_blk)
    with u show ?thesis by (blast intro: data_step_trans)
  qed (use u t in simp)
  show "dblk t (nat (lblk s d n)) = dblk s (nat (lblk s d n))" if n: "n < a"
  proof -
    let ?k = "nat (lblk s d n) - 192"
    have k: "?k < 7680" "nat (lblk s d n) = 192 + ?k" using own(2,4) [of n] n a by simp_all
    have "dblk ?u (192 + ?k) = dblk s (192 + ?k)" using fa rl(3) [OF n] k(1) by blast
    moreover have "dblk t (192 + ?k) = dblk ?u (192 + ?k)"
    proof (cases "4 < a")
      case True
      then show ?thesis
        using ic(1,2) [OF True] ic(5) [OF True n] fa fs_okD(1) [of N ?u] data_block_bound(1) [OF ok] k(1) unfolding t
        by (simp add: dblk_put_blk)
    qed (simp add: t)
    ultimately show ?thesis using k(2) by metis
  qed
  show "dblk t (nat (i_indirect d)) = cut_ind (a - 4) (m - a) (dblk s (nat (i_indirect d)))" if a4: "4 < a"
  proof -
    have "dblk (put_blk ?c (192 + ?i) ?u) (192 + ?i) = ?c"
      using ic(1,2) [OF a4] fa fs_okD(1) [of N ?u] data_block_bound(1) [OF ok, of ?i] by (simp add: dblk_put_blk)
    then show ?thesis using a4 ic(4) [OF a4] t by metis
  qed
qed

text \<open>The blocks that the shorter file has.\<close>

lemma lblk_truncated:
  assumes ok: "fs_ok N s" and im: "imap_ok s d m" and a: "a \<le> m" and j: "j < 132"
  shows "lblk (trunc_st s d a m) (trunc_di d a m sz) j = (if j < a then lblk s d j else 0)"
proof -
  let ?t = "trunc_st s d a m"
  have len: "length (i_block_nr d) = 4" using imap_okD(2) [OF im] .
  have bl: "i_block_nr (trunc_di d a m sz) = cut_direct a (min m 4) (i_block_nr d)"
    "i_indirect (trunc_di d a m sz) = (if 4 < a then i_indirect d else 0)" by (simp_all add: trunc_di_def)
  show ?thesis
  proof (cases "j < 4")
    case True
    have "i_block_nr d ! j = 0" if "m \<le> j" using imap_okD(4) [OF im j that] True by (simp add: lblk_def)
    then show ?thesis using True len a by (auto simp: lblk_def bl cut_direct_def)
  next
    case j4: False
    show ?thesis
    proof (cases "4 < a")
      case a4: True
      have m4: "4 < m" using a4 a by simp
      let ?B = "dblk s (nat (i_indirect d))"
      have i: "nat (i_indirect d) < N"
        using own_freeable(3) [OF im m4] data_block_bound(1) [OF ok own_freeable(5) [OF im m4]] by linarith
      have "length ?B = 512" using length_dblk [OF fs_okD(1) [OF ok] i] .
      then have "int_at (cut_ind (a - 4) (m - a) ?B) (j - 4) =
          (if a - 4 \<le> j - 4 \<and> j - 4 < a - 4 + (m - a) then 0 else int_at ?B (j - 4))"
        using cut_ind_props [of ?B "a - 4" "m - a"] imap_okD(1) [OF im] a a4 j by simp
      moreover have "int_at ?B (j - 4) = 0" if "m \<le> j"
        using imap_okD(4) [OF im j that] imap_okD(3) [OF im] m4 j4 by (simp add: lblk_def)
      moreover have "a - 4 \<le> j - 4 \<longleftrightarrow> a \<le> j" "j - 4 < a - 4 + (m - a) \<longleftrightarrow> j < m" using a4 j4 a by linarith+
      moreover have "i_indirect d \<noteq> 0" using imap_okD(3) [OF im] m4 by simp
      ultimately show ?thesis using j4 a4 trunc_st_props(6) [OF ok im a a4] by (auto simp: lblk_def bl)
    qed (use j4 bl in \<open>simp add: lblk_def\<close>)
  qed
qed

lemma csums_kept:
  assumes im: "imap_ok s d m" and a: "a \<le> m" and keep: "keeps_data s d a t d'" "csum_table_of t = csum_table_of s"
    and dat: "\<And>n. n < a \<Longrightarrow> dblk t (nat (lblk s d n)) = dblk s (nat (lblk s d n))" and c: "csums_ok s d m"
  shows "csums_ok t d' a"
  unfolding csums_ok_def
proof (intro allI impI)
  fix j assume j: "j < a"
  obtain k where k: "lblk s d j = 192 + int k" "k < 7680" by (rule lblk_mapped [OF im, of j]) (use j a in auto)
  have "lblk t d' j = lblk s d j" using keep(1) j by (simp add: keeps_data_def)
  moreover have "csum_good s (nat (lblk s d j) - 192)" using c j a by (simp add: csums_ok_def)
  ultimately show "csum_good t (nat (lblk t d' j) - 192)"
    using keep(2) dat [OF j] k(1) by (simp add: csum_good_def nat_add_distrib)
qed

lemma truncate_data_eq:
  assumes ok: "fs_ok N s" and f: "file_ok s (i_in ino)" and sz: "int sz < i_size (i_in ino)"
  shows "\<exists>ino' s'. testfs_truncate_data ino (int sz) s = Inr (ino', s') \<and>
    contents s' (i_in ino') = take sz (contents s (i_in ino)) \<and>
    i_size (i_in ino') = int sz \<and> file_ok s' (i_in ino') \<and>
    (csums_ok s (i_in ino) (nblocks (nat (i_size (i_in ino)))) \<longrightarrow> csums_ok s' (i_in ino') (nblocks sz)) \<and>
    same_inode ino ino' \<and> has_flag ino' I_FLAGS_DIRTY \<and>
    nfree s' = nfree s + needs (nblocks sz) (nblocks (nat (i_size (i_in ino)))) \<and>
    inode_step N s (i_in ino) (nblocks (nat (i_size (i_in ino)))) s' (i_in ino') (nblocks sz)"
proof -
  let ?d = "i_in ino" and ?a = "nblocks sz"
  define n where "n = nat (i_size ?d)"
  define m where "m = nblocks n"
  have size: "i_size ?d = int n" "sz < n" using sz by (simp_all add: n_def)
  have im: "imap_ok s ?d m" using f by (simp add: file_ok_def m_def n_def)
  have am: "?a \<le> m" unfolding m_def nblocks_def using size(2) by (intro div_le_mono) simp
  obtain ino' where run: "testfs_truncate_data ino (int sz) s = Inr (ino', trunc_st s ?d ?a m)"
    and d': "i_in ino' = trunc_di ?d ?a m (int sz)" and same: "same_inode ino ino'"
    and dirty: "has_flag ino' I_FLAGS_DIRTY"
    using truncate_run [OF ok im size(1) m_def size(2)] by blast
  let ?t = "trunc_st s ?d ?a m" and ?d' = "i_in ino'"
  note tp = trunc_st_props [OF ok im am]
  have l: "lblk ?t ?d' j = (if j < ?a then lblk s ?d j else 0)" if "j < 132" for j
    unfolding d' by (rule lblk_truncated [OF ok im am that])
  have inj: "inj (\<lambda>k. 192 + int k)" by (simp add: inj_on_def)
  have ab: "ablocks ?t = ablocks s - (iblks s ?d m - kept s ?d ?a)"
    unfolding ablocks_def tp(2) released_props(2) [OF im am, symmetric] by (rule image_set_diff [OF inj])
  have st: "inode_step N s ?d m ?t ?d' ?a"
    by (rule inode_shrink [OF im am tp(1) ab l]) (use imap_okD(2) [OF im] d' in \<open>simp_all add: cut_direct_def trunc_di_def\<close>)
  have keep: "keeps_data s ?d ?a ?t ?d'"
    unfolding keeps_data_def using l tp(4,5) am imap_okD(1) [OF im] by simp
  have "fbyte ?t ?d' p = fbyte s ?d p" if "p < sz" for p
  proof -
    have "p < 512 * ?a" using that le_nblocks [of sz] by linarith
    then show ?thesis using keep div_512_less [of p ?a] by (simp add: fbyte_def keeps_data_def)
  qed
  moreover have size': "i_size ?d' = int sz" unfolding d' by (simp add: trunc_di_def)
  ultimately have "contents ?t ?d' = take sz (contents s ?d)"
    using size by (simp add: contents_def take_map)
  moreover have "csums_ok ?t ?d' ?a" if "csums_ok s ?d m" by (rule csums_kept [OF im am keep tp(4,5) that])
  moreover have "file_ok ?t ?d'" using inode_stepD(2) [OF st] size' by (simp add: file_ok_def)
  moreover have "nfree ?t = nfree s + needs ?a m"
    unfolding tp(3) needs_eq using am by (simp add: dnums_def released_def)
  ultimately show ?thesis using run same dirty size' st unfolding m_def n_def by blast
qed

lemma truncate_data_noop:
  "i_size (i_in ino) \<le> sz \<Longrightarrow> testfs_truncate_data ino sz s = Inr (ino, s)"
  by (simp add: testfs_truncate_data_def)

end
