(* ===== verification/InodeSync.thy ===== *)
theory InodeSync
  imports InodeTrunc
begin

text \<open>
  The inode table on disk: \<open>dinode_at s k\<close> is the inode stored in slot \<open>k\<close>.
  \<open>testfs_sync_inode\<close> stores the in-memory inode in its slot, leaves the other slots and every
  other block alone, and the inode is clean afterwards.
\<close>

abbreviation (input) "NR_INODES \<equiv> (2048 :: nat)"

definition dinode_at :: "'d fsys \<Rightarrow> nat \<Rightarrow> dinode" where
  "dinode_at s k = dinode_of_bytes (seg (k mod 16 * 32) 32 (dblk s (64 + k div 16)))"

definition sync_st :: "nat \<Rightarrow> dinode \<Rightarrow> 'd fsys \<Rightarrow> 'd fsys" where
  "sync_st k d s =
     put_blk (blit (k mod 16 * 32) (dinode_bytes d) (dblk s (64 + k div 16))) (64 + k div 16) s"

lemma inode_to_block_eq:
  assumes "i_nr ino = int k"
  shows "k < NR_INODES \<Longrightarrow> testfs_inode_to_block_nr ino = Inr (int (k div 16))"
    "k < NR_INODES \<Longrightarrow> testfs_inode_to_block_offset ino = Inr (int (k mod 16 * 32))"
    "NR_INODES \<le> k \<Longrightarrow> k < 2 ^ 31 \<Longrightarrow> testfs_inode_to_block_nr ino = Inl AssertFail"
proof -
  have k: "size_of_int (int k) = k" if "k < 2 ^ 31" using that by simp
  show "testfs_inode_to_block_nr ino = Inr (int (k div 16))" if "k < 2048"
  proof -
    have "k div 16 < 128" using that by (simp add: less_mult_imp_div_less)
    then show ?thesis using k that assms by (simp add: testfs_inode_to_block_nr_def)
  qed
  show "testfs_inode_to_block_offset ino = Inr (int (k mod 16 * 32))" if "k < 2048"
  proof -
    have "k mod 16 < 16" by simp
    then have "k mod 16 * 32 < 512" by linarith
    then show ?thesis
      using k that assms unfolding testfs_inode_to_block_offset_def Let_def by simp
  qed
  show "testfs_inode_to_block_nr ino = Inl AssertFail" if "2048 \<le> k" "k < 2 ^ 31"
  proof -
    have "128 \<le> k div 16" using div_le_mono [OF that(1), of 16] by simp
    moreover have "k div 16 < 2147483648" using that(2) by (simp add: less_mult_imp_div_less)
    ultimately show ?thesis using k that assms by (simp add: testfs_inode_to_block_nr_def)
  qed
qed

lemma slot_bounds:
  assumes "fs_ok N s" "k < NR_INODES"
  shows "64 + k div 16 < 192" "64 + k div 16 < N" "length (dblk s (64 + k div 16)) = 512"
    "k mod 16 * 32 + 32 \<le> 512"
proof -
  show b: "64 + k div 16 < 192" using less_mult_imp_div_less [of k 128 16] assms(2) by simp
  then show n: "64 + k div 16 < N" using fs_okD(2) [OF assms(1)] by linarith
  show "length (dblk s (64 + k div 16)) = 512" using length_dblk [OF fs_okD(1) [OF assms(1)] n] .
  have "k mod 16 < 16" by simp
  then show "k mod 16 * 32 + 32 \<le> 512" by linarith
qed

lemma sync_inode_run:
  assumes ok: "fs_ok N s" and nr: "i_nr ino = int k" "k < NR_INODES" and di: "dinode_ok (i_in ino)"
    and fl: "has_flag ino I_FLAGS_DIRTY"
  shows "testfs_sync_inode ino s =
    bind_r (if has_flag ino I_FLAGS_INDIRECT_DIRTY
            then bind_r (write_blocks (words_bytes (i_ind ino)) (i_indirect (i_in ino)) 1 (sync_st k (i_in ino) s))
                   (\<lambda>s. Inr (clear_flag I_FLAGS_INDIRECT_DIRTY ino, s))
            else Inr (ino, sync_st k (i_in ino) s)) (\<lambda>(ino, s). Inr (clear_flag I_FLAGS_DIRTY ino, s))"
proof -
  note b = slot_bounds [OF ok nr(2)] and ib = inode_to_block_eq [OF nr(1)]
  let ?B = "dblk s (64 + k div 16)" and ?o = "k mod 16 * 32"
  have ld: "length (dinode_bytes (i_in ino)) = 32" using dinode.length_enc [OF di] .
  let ?B' = "blit ?o (dinode_bytes (i_in ino)) ?B"
  have rd: "read_blocks s (64 + int (k div 16)) 1 = Inr ?B"
    using read_block [of N s "64 + int (k div 16)"] fs_okD(1) [OF ok] b(2) by (simp add: nat_add_distrib)
  have cp: "c_memcpy ?B (int ?o) (dinode_bytes (i_in ino)) 0 32 = Inr ?B'"
    using c_memcpy_ok [of ?B ?o "dinode_bytes (i_in ino)" 0 32] b(3,4) ld by simp
  have wr: "write_blocks ?B' (64 + int (k div 16)) 1 s = Inr (sync_st k (i_in ino) s)"
    using write_block [of N s "64 + int (k div 16)" ?B'] fs_okD(1) [OF ok] b ld
    by (simp add: nat_add_distrib sync_st_def)
  have "inode_blocks_start (dsb s) = 64" using fs_okD(4) [OF ok] by (simp add: std_dsb_def)
  then show ?thesis
    using fl rd cp wr ib(1,2) [OF nr(2)]
    unfolding testfs_sync_inode_def testfs_read_inode_block_def testfs_write_inode_block_def
    by simp
qed

lemma sync_inode_eq:
  assumes "fs_ok N s" "i_nr ino = int k" "k < NR_INODES" "dinode_ok (i_in ino)"
    and "has_flag ino I_FLAGS_DIRTY" "\<not> has_flag ino I_FLAGS_INDIRECT_DIRTY"
  shows "testfs_sync_inode ino s = Inr (clear_flag I_FLAGS_DIRTY ino, sync_st k (i_in ino) s)"
  using sync_inode_run [OF assms(1-5)] assms(6) by simp

lemma sync_st_simps [simp]:
  "fs_bdev (sync_st k d s) = fs_bdev s" "fs_sb (sync_st k d s) = fs_sb s" "fs_out (sync_st k d s) = fs_out s"
  "bmap (sync_st k d s) = bmap s" "imap (sync_st k d s) = imap s" "used (sync_st k d s) = used s"
  "iused (sync_st k d s) = iused s" "csum_table_of (sync_st k d s) = csum_table_of s"
  "fs_ok N (sync_st k d s) = fs_ok N s" "nfree (sync_st k d s) = nfree s"
  "ublocks (sync_st k d s) = ublocks s" "ablocks (sync_st k d s) = ablocks s"
  by (simp_all add: sync_st_def nfree_def ublocks_def ablocks_def)

lemma dblk_sync_st:
  assumes "fs_ok N s" "k < NR_INODES" "dinode_ok d" "j < N"
  shows "dblk (sync_st k d s) j =
    (if j = 64 + k div 16 then blit (k mod 16 * 32) (dinode_bytes d) (dblk s j) else dblk s j)"
  using assms slot_bounds [OF assms(1,2)] dinode.length_enc [OF assms(3)] fs_okD(1) [OF assms(1)]
  by (simp add: sync_st_def dblk_put_blk)

lemma dinode_at_sync_st:
  assumes "fs_ok N s" "k < NR_INODES" "dinode_ok d" "k' < NR_INODES"
  shows "dinode_at (sync_st k d s) k' = (if k' = k then d else dinode_at s k')"
proof (cases "k' div 16 = k div 16")
  case True
  have "k' = k \<longleftrightarrow> k' mod 16 = k mod 16" using True by (metis div_mult_mod_eq)
  moreover have "dinode_of_bytes (seg (k' mod 16 * 32) 32
      (blit (k mod 16 * 32) (dinode_bytes d) (dblk s (64 + k div 16)))) =
      (if k' mod 16 = k mod 16 then d else dinode_of_bytes (seg (k' mod 16 * 32) 32 (dblk s (64 + k div 16))))"
    by (rule dinode.slot_store [OF assms(3)])
      (use slot_bounds [OF assms(1,2)] slot_bounds(4) [OF assms(1,4)] in simp_all)
  ultimately show ?thesis
    using True slot_bounds(2) [OF assms(1,2)]
    by (simp add: dinode_at_def dblk_sync_st [OF assms(1-3)])
next
  case False
  then have "k' \<noteq> k" by metis
  then show ?thesis using False slot_bounds(2) [OF assms(1,4)]
    by (simp add: dinode_at_def dblk_sync_st [OF assms(1-3)])
qed

lemma data_step_sync:
  assumes "fs_ok N s" "k < NR_INODES" "dinode_ok d"
  shows "j < MAX_NR_CSUMS \<Longrightarrow> dblk (sync_st k d s) (192 + j) = dblk s (192 + j)"
    "freemaps_synced (sync_st k d s) = freemaps_synced s"
    "csum_coherent (sync_st k d s) = csum_coherent s"
  using dblk_sync_st [OF assms] slot_bounds(1) [OF assms(1,2)] fs_okD(2) [OF assms(1)]
  by (simp_all add: freemaps_synced_def csum_coherent_def csum_tblk_def)

text \<open>A well-formed file has an inode that survives the trip to the disk.\<close>

lemma dinode_ok_mapped:
  assumes "fs_ok N s" "file_ok s d" "in_int32 (i_mod_time d)" "\<forall>w. i_type d = I_INVALID w \<longrightarrow> w \<notin> {0, 1, 2}"
  shows "dinode_ok d"
proof -
  define m where "m = nblocks (nat (i_size d))"
  have im: "imap_ok s d m" using assms(2) by (simp add: file_ok_def m_def)
  have len: "length (i_block_nr d) = 4" using imap_okD(2) [OF im] .
  have bl: "in_int32 (lblk s d n)" if "n < 132" for n
  proof (cases "n < m")
    case True
    obtain k where "lblk s d n = 192 + int k" "k < 7680" using im True by (rule lblk_mapped)
    then show ?thesis by (simp add: in_int32_def)
  next
    case False
    then show ?thesis using imap_okD(4) [OF im that] by (simp add: in_int32_def)
  qed
  have "in_int32 b" if "b \<in> set (i_block_nr d)" for b
  proof -
    obtain n where "n < 4" "b = i_block_nr d ! n" using \<open>b \<in> set (i_block_nr d)\<close> len by (auto simp: in_set_conv_nth)
    then show ?thesis using bl [of n] by (simp add: lblk_def)
  qed
  moreover have "in_int32 (i_indirect d)"
  proof (cases "4 < m")
    case True
    obtain k where "i_indirect d = 192 + int k" "k < 7680" using im True by (rule indirect_mapped)
    then show ?thesis by (simp add: in_int32_def)
  next
    case False
    then show ?thesis using imap_okD(3) [OF im] by (simp add: in_int32_def)
  qed
  moreover have "in_int32 (i_size d)"
  proof -
    have "0 \<le> i_size d" "nat (i_size d) \<le> 132 * 512" using file_size [OF assms(2)] by blast+
    then show ?thesis unfolding in_int32_def by linarith
  qed
  ultimately show ?thesis using assms(3,4) len by (auto simp: dinode_ok_def)
qed

lemma dinode_ok_file:
  "fs_ok N s \<Longrightarrow> file_ok s d \<Longrightarrow> in_int32 (i_mod_time d) \<Longrightarrow> i_type d = I_FILE \<or> i_type d = I_DIR \<Longrightarrow> dinode_ok d"
  by (rule dinode_ok_mapped) auto

lemma dinode_ok_same:
  "fs_ok N s \<Longrightarrow> file_ok s d' \<Longrightarrow> dinode_ok d \<Longrightarrow> i_type d' = i_type d \<Longrightarrow> i_mod_time d' = i_mod_time d \<Longrightarrow>
   dinode_ok d'"
  by (rule dinode_ok_mapped) (simp_all add: dinode_ok_def)

text \<open>What the sync does to a file: nothing.\<close>

lemma file_sync:
  assumes "fs_ok N s" "k < NR_INODES" "dinode_ok d" "imap_ok s e m"
  shows "imap_ok (sync_st k d s) e m" "lblk (sync_st k d s) e = lblk s e"
    "n < m \<Longrightarrow> dblk (sync_st k d s) (nat (lblk s e n)) = dblk s (nat (lblk s e n))"
    "csums_ok (sync_st k d s) e m = csums_ok s e m"
proof -
  note dat = data_step_sync(1) [OF assms(1-3)]
  have ind: "dblk (sync_st k d s) (nat (i_indirect e)) = dblk s (nat (i_indirect e))" if m: "4 < m"
  proof -
    obtain i where "i_indirect e = 192 + int i" "i < 7680" using assms(4) m by (rule indirect_mapped)
    then show ?thesis using dat by (simp add: nat_add_distrib)
  qed
  note fr = imap_ok_frame [OF assms(4) refl refl ind]
  show "imap_ok (sync_st k d s) e m" by (rule fr(1)) auto
  show l: "lblk (sync_st k d s) e = lblk s e" by (rule fr(2)) auto
  show "dblk (sync_st k d s) (nat (lblk s e n)) = dblk s (nat (lblk s e n))" if n: "n < m" for n
  proof -
    obtain i where "lblk s e n = 192 + int i" "i < 7680" using assms(4) n by (rule lblk_mapped)
    then show ?thesis using dat by (simp add: nat_add_distrib)
  qed
  have "csum_good (sync_st k d s) (nat (lblk s e n) - 192) = csum_good s (nat (lblk s e n) - 192)"
    if n: "n < m" for n
  proof -
    obtain i where "lblk s e n = 192 + int i" "i < 7680" using assms(4) n by (rule lblk_mapped)
    then show ?thesis using dat by (simp add: nat_add_distrib csum_good_def)
  qed
  then show "csums_ok (sync_st k d s) e m = csums_ok s e m" by (simp add: csums_ok_def l)
qed

lemma contents_sync:
  assumes "fs_ok N s" "k < NR_INODES" "dinode_ok d" "file_ok s e"
  shows "contents (sync_st k d s) e = contents s e"
proof -
  let ?m = "nblocks (nat (i_size e))"
  have im: "imap_ok s e ?m" using assms(4) by (simp add: file_ok_def)
  have "fbyte (sync_st k d s) e p = fbyte s e p" if "p < nat (i_size e)" for p
  proof -
    have "p < 512 * ?m" using that le_nblocks [of "nat (i_size e)"] by linarith
    then show ?thesis using file_sync(2,3) [OF assms(1-3) im] div_512_less [of p ?m] by (simp add: fbyte_def)
  qed
  then show ?thesis by (simp add: contents_def)
qed

end
