(* ===== verification/Cache.thy ===== *)
theory Cache
  imports InodeSync
begin

text \<open>
  The cache of in-memory inodes of \<open>src/inode.c\<close> and the heap it lives in.

  \<open>world\<close> is the state of the whole program: the file system below (\<open>w_fs\<close>), the address of the
  mounted \<open>struct super_block\<close> (\<open>w_sb\<close>, the pointer \<open>fs->sb\<close>), the hash table
  \<open>inode_hash_table\<close> with its chains of inode addresses (\<open>HList\<close> shows that the pointer operations
  of \<open>list.h\<close> keep such chains), the allocated inodes by address and the address \<open>malloc\<close> returns
  next.  Address 0 is NULL.  \<open>malloc\<close> never fails and never reuses an address, so a dangling pointer
  shows up as \<open>UseAfterFree\<close>; so does an inode that still points to an unmounted super block.
\<close>

section \<open>The state of the program\<close>

type_synonym ptr = nat

abbreviation (input) "NULL \<equiv> (0 :: nat)"

text \<open>\<open>inode_hash_destroy\<close> frees the table and leaves the pointer dangling.\<close>

datatype hash_table = HashNull | HashFreed | Hash "ptr list list"

record 'd world =
  w_fs :: "'d fsys"
  w_sb :: ptr
  w_table :: hash_table
  w_inodes :: "ptr \<Rightarrow> inode option"
  w_next :: ptr

definition deref :: "ptr \<Rightarrow> 'd world \<Rightarrow> inode res" where
  "deref p w = (if p = NULL then Inl NullDeref else the_r UseAfterFree (w_inodes w p))"

definition store :: "ptr \<Rightarrow> inode \<Rightarrow> 'd world \<Rightarrow> 'd world" where
  "store p ino w = w\<lparr>w_inodes := (w_inodes w)(p \<mapsto> ino)\<rparr>"

definition set_fs :: "'d fsys \<Rightarrow> 'd world \<Rightarrow> 'd world" where
  "set_fs s w = w\<lparr>w_fs := s\<rparr>"

text \<open>
  The data functions of \<open>Inode\<close> on the inode a pointer points to; they reach the device through
  \<open>in->sb\<close>, which has to be the mounted super block.
\<close>

definition deref_sb :: "ptr \<Rightarrow> 'd world \<Rightarrow> inode res" where
  "deref_sb p w = bind_r (deref p w) (\<lambda>ino. bind_r (check_r UseAfterFree (i_sb ino = w_sb w)) (\<lambda>_. Inr ino))"

definition on_inode :: "ptr \<Rightarrow> (inode \<Rightarrow> 'd fsys \<Rightarrow> (inode \<times> 'd fsys) res) \<Rightarrow> 'd world \<Rightarrow> 'd world res" where
  "on_inode p f w =
     bind_r (deref_sb p w) (\<lambda>ino. bind_r (f ino (w_fs w)) (\<lambda>(ino, s). Inr (set_fs s (store p ino w))))"

definition read_data :: "ptr \<Rightarrow> int \<Rightarrow> byte list \<Rightarrow> int \<Rightarrow> 'd world \<Rightarrow> (int \<times> byte list) res" where
  "read_data p start buf sz w = bind_r (deref_sb p w) (\<lambda>ino. testfs_read_data ino start buf sz (w_fs w))"

definition write_data :: "ptr \<Rightarrow> int \<Rightarrow> byte list \<Rightarrow> int \<Rightarrow> 'd world \<Rightarrow> (int \<times> 'd world) res" where
  "write_data p start buf sz w =
     bind_r (deref_sb p w) (\<lambda>ino.
     bind_r (testfs_write_data ino start buf sz (w_fs w)) (\<lambda>(ret, ino, s).
       Inr (ret, set_fs s (store p ino w))))"

definition truncate_data :: "ptr \<Rightarrow> int \<Rightarrow> 'd world \<Rightarrow> 'd world res" where
  "truncate_data p sz = on_inode p (\<lambda>ino. testfs_truncate_data ino sz)"

definition sync_inode :: "ptr \<Rightarrow> 'd world \<Rightarrow> 'd world res" where
  "sync_inode p = on_inode p testfs_sync_inode"

section \<open>The hash table\<close>

text \<open>\<open>hash_int\<close> of \<open>list.h\<close>: multiply by the golden ratio prime, keep the high bits.\<close>

definition GOLDEN_RATIO_PRIME_32 :: "32 word" where "GOLDEN_RATIO_PRIME_32 = 0x9e370001"

definition hash_int :: "32 word \<Rightarrow> nat \<Rightarrow> 32 word" where
  "hash_int val bits = drop_bit (32 - bits) (val * GOLDEN_RATIO_PRIME_32)"

abbreviation (input) "INODE_HASH_SHIFT \<equiv> (8 :: nat)"

definition inode_hashfn :: "int \<Rightarrow> nat" where
  "inode_hashfn nr = unat (hash_int (word_of_int nr) INODE_HASH_SHIFT)"

definition inode_hash_size :: nat where "inode_hash_size = 2 ^ INODE_HASH_SHIFT"

definition inode_hash_init :: "'d world \<Rightarrow> 'd world" where
  "inode_hash_init w = w\<lparr>w_table := Hash (replicate inode_hash_size [])\<rparr>"

definition hash_chains :: "'d world \<Rightarrow> ptr list list res" where
  "hash_chains w = (case w_table w of HashNull \<Rightarrow> Inl NullDeref | HashFreed \<Rightarrow> Inl UseAfterFree | Hash cs \<Rightarrow> Inr cs)"

definition inode_hash_destroy :: "'d world \<Rightarrow> 'd world res" where
  "inode_hash_destroy w =
     bind_r (assert_r (w_table w \<noteq> HashNull)) (\<lambda>_.
     bind_r (hash_chains w) (\<lambda>cs.
     bind_r (fold_r (\<lambda>c _. assert_r (c = [])) cs ()) (\<lambda>_.
       Inr (w\<lparr>w_table := HashFreed\<rparr>))))"

fun find_in_chain :: "int \<Rightarrow> ptr list \<Rightarrow> 'd world \<Rightarrow> ptr res" where
  "find_in_chain inode_nr [] w = Inr NULL"
| "find_in_chain inode_nr (p # ps) w =
     bind_r (deref p w) (\<lambda>ino.
       if i_sb ino = w_sb w \<and> i_nr ino = inode_nr then Inr p else find_in_chain inode_nr ps w)"

definition inode_hash_find :: "int \<Rightarrow> 'd world \<Rightarrow> ptr res" where
  "inode_hash_find inode_nr w =
     bind_r (hash_chains w) (\<lambda>cs.
     bind_r (nth_r cs (int (inode_hashfn inode_nr))) (\<lambda>c.
       find_in_chain inode_nr c w))"

definition inode_hash_insert :: "ptr \<Rightarrow> 'd world \<Rightarrow> 'd world res" where
  "inode_hash_insert p w =
     bind_r (deref p w) (\<lambda>ino.
     bind_r (hash_chains w) (\<lambda>cs.
     bind_r (nth_r cs (int (inode_hashfn (i_nr ino)))) (\<lambda>c.
       Inr (w\<lparr>w_table := Hash (cs[inode_hashfn (i_nr ino) := p # c])\<rparr>))))"

text \<open>\<open>hlist_del\<close> unlinks the node from the chain it is in.\<close>

definition inode_hash_remove :: "ptr \<Rightarrow> 'd world \<Rightarrow> 'd world res" where
  "inode_hash_remove p w =
     bind_r (hash_chains w) (\<lambda>cs.
     bind_r (check_r NullDeref (p \<in> set (concat cs))) (\<lambda>_.
       Inr (w\<lparr>w_table := Hash (map (remove1 p) cs)\<rparr>)))"

section \<open>Reference-counted inodes\<close>

definition testfs_get_inode :: "int \<Rightarrow> 'd world \<Rightarrow> (ptr \<times> 'd world) res" where
  "testfs_get_inode inode_nr w =
     bind_r (inode_hash_find inode_nr w) (\<lambda>p.
       if p \<noteq> NULL then
         bind_r (deref p w) (\<lambda>ino. Inr (p, store p (ino\<lparr>i_count := i_count ino + 1\<rparr>) w))
       else
         let p = w_next w;
             ino = \<lparr>i_flags = 0, i_in = zero_dinode, i_nr = inode_nr, i_count = 1, i_sb = w_sb w,
                    i_ind = replicate 128 0\<rparr>
         in bind_r (testfs_read_inode_block ino (w_fs w)) (\<lambda>block.
            bind_r (testfs_inode_to_block_offset ino) (\<lambda>block_offset.
            bind_r (c_memcpy (dinode_bytes (i_in ino)) 0 block block_offset 32) (\<lambda>d.
            let ino = ino\<lparr>i_in := dinode_of_bytes d\<rparr>
            in bind_r (inode_hash_insert p (store p ino (w\<lparr>w_next := Suc p\<rparr>))) (\<lambda>w.
                 Inr (p, w))))))"

definition testfs_put_inode :: "ptr \<Rightarrow> 'd world \<Rightarrow> 'd world res" where
  "testfs_put_inode p w =
     bind_r (deref p w) (\<lambda>ino.
     bind_r (assert_r (\<not> has_flag ino I_FLAGS_DIRTY)) (\<lambda>_.
       let ino = ino\<lparr>i_count := i_count ino - 1\<rparr>; w = store p ino w
       in if i_count ino = 0 then
            bind_r (inode_hash_remove p w) (\<lambda>w. Inr (w\<lparr>w_inodes := (w_inodes w)(p := None)\<rparr>))
          else Inr w))"

definition testfs_inode_get_size :: "ptr \<Rightarrow> 'd world \<Rightarrow> int res" where
  "testfs_inode_get_size p w = bind_r (deref p w) (\<lambda>ino. Inr (i_size (i_in ino)))"

definition testfs_inode_get_type :: "ptr \<Rightarrow> 'd world \<Rightarrow> inode_type res" where
  "testfs_inode_get_type p w = bind_r (deref p w) (\<lambda>ino. Inr (i_type (i_in ino)))"

definition testfs_inode_get_nr :: "ptr \<Rightarrow> 'd world \<Rightarrow> int res" where
  "testfs_inode_get_nr p w = bind_r (deref p w) (\<lambda>ino. Inr (i_nr ino))"

text \<open>The result is the return value and the inode pointer, NULL where \<open>*inp\<close> is not assigned.\<close>

definition testfs_create_inode :: "inode_type \<Rightarrow> 'd world \<Rightarrow> (int \<times> ptr \<times> 'd world) res" where
  "testfs_create_inode type w =
     bind_r (testfs_get_inode_freemap (w_fs w)) (\<lambda>(inode_nr, s).
       let w = set_fs s w
       in if inode_nr < 0 then Inr (inode_nr, NULL, w)
          else bind_r (testfs_get_inode inode_nr w) (\<lambda>(p, w).
               bind_r (deref p w) (\<lambda>ino.
                 Inr (0, p, store p (set_flag I_FLAGS_DIRTY (upd_in (\<lambda>d. d\<lparr>i_type := type\<rparr>) ino)) w))))"

definition testfs_remove_inode :: "ptr \<Rightarrow> 'd world \<Rightarrow> 'd world res" where
  "testfs_remove_inode p w =
     bind_r (truncate_data p 0 w) (\<lambda>w.
     bind_r (deref_sb p w) (\<lambda>ino.
       let w = store p (set_flag I_FLAGS_DIRTY (ino\<lparr>i_in := zero_dinode\<rparr>)) w
       in bind_r (testfs_put_inode_freemap (i_nr ino) (w_fs w)) (\<lambda>s.
          bind_r (sync_inode p (set_fs s w)) (\<lambda>w.
            testfs_put_inode p w))))"

section \<open>Checking the blocks of an inode\<close>

text \<open>
  The two loops of \<open>testfs_check_inode\<close>.  They return the size so far, whether an unmapped block
  ended the walk (the early \<open>return size\<close>), the block freemap being built and the state.
\<close>

function check_direct :: "nat \<Rightarrow> int \<Rightarrow> inode \<Rightarrow> bitmap \<Rightarrow> 'd fsys \<Rightarrow> (int \<times> bool \<times> bitmap \<times> 'd fsys) res" where
  "check_direct i sz ino b_freemap s =
     (if i < NR_DIRECT_BLOCKS then
        bind_r (nth_r (i_block_nr (i_in ino)) (int i)) (\<lambda>block_nr.
          if block_nr = 0 then Inr (sz, True, b_freemap, s)
          else bind_r (testfs_verify_csum block_nr s) (\<lambda>(_, s).
               bind_r (bitmap_mark b_freemap (word_of_int (block_nr - data_blocks_start (dsb s)))) (\<lambda>b_freemap.
                 check_direct (Suc i) (sz + BLOCK_SIZE) ino b_freemap s)))
      else Inr (sz, False, b_freemap, s))"
  by pat_completeness auto
termination
  by (relation "measure (\<lambda>(i, sz, ino, b, s). NR_DIRECT_BLOCKS - i)") auto

function check_indirect :: "nat \<Rightarrow> int \<Rightarrow> byte list \<Rightarrow> bitmap \<Rightarrow> 'd fsys \<Rightarrow> (int \<times> bitmap \<times> 'd fsys) res" where
  "check_indirect i sz block b_freemap s =
     (if i < NR_INDIRECT_BLOCKS then
        (let block_nr = int_at block i
         in if block_nr = 0 then Inr (sz, b_freemap, s)
            else bind_r (testfs_verify_csum block_nr s) (\<lambda>(_, s).
                 bind_r (bitmap_mark b_freemap (word_of_int (block_nr - data_blocks_start (dsb s)))) (\<lambda>b_freemap.
                   check_indirect (Suc i) (sz + BLOCK_SIZE) block b_freemap s)))
      else Inr (sz, b_freemap, s))"
  by pat_completeness auto
termination
  by (relation "measure (\<lambda>(i, sz, block, b, s). NR_INDIRECT_BLOCKS - i)") auto

definition testfs_check_inode :: "inode \<Rightarrow> bitmap \<Rightarrow> 'd fsys \<Rightarrow> (int \<times> bitmap \<times> 'd fsys) res" where
  "testfs_check_inode ino b_freemap s =
     bind_r (check_direct 0 0 ino b_freemap s) (\<lambda>(sz, returned, b_freemap, s).
       if returned then Inr (sz, b_freemap, s)
       else if i_indirect (i_in ino) = 0 then Inr (sz, b_freemap, s)
       else bind_r (bitmap_mark b_freemap (word_of_int (i_indirect (i_in ino) - data_blocks_start (dsb s))))
              (\<lambda>b_freemap.
            bind_r (read_blocks s (i_indirect (i_in ino)) 1) (\<lambda>block.
              check_indirect 0 sz block b_freemap s)))"

declare check_direct.simps [simp del] check_indirect.simps [simp del]

end
