(* ===== verification/DirOps.thy ===== *)
theory DirOps
  imports Cache
begin

text \<open>
  \<open>src/dir.c\<close>: directories.  A directory is an inode of type \<open>I_DIR\<close> whose data is a sequence of
  \<open>struct dirent\<close>s, each followed by its name; a removed entry keeps its place with inode number -1.

  C strings are \<open>cstr\<close>: NULL, or the bytes before the terminator.  \<open>D_NAME(d)\<close> is the raw name area
  of \<open>d_name_len\<close> bytes.  The loops over a directory terminate because every entry moves the offset
  on (\<open>next_dirent_moves\<close>); the recursive walks (\<open>testfs_pwd\<close>, \<open>testfs_ls\<close>) follow inode numbers
  that a corrupt disk can tie into a cycle, so they take fuel.
\<close>

section \<open>C strings\<close>

type_synonym cstr = "byte list option"

text \<open>\<open>strcmp(s, t) == 0\<close>: compares up to the first difference or the terminator.\<close>

fun strcmp_eq :: "byte list \<Rightarrow> byte list \<Rightarrow> bool res" where
  "strcmp_eq (a # as) (b # bs) =
     (if a \<noteq> b then Inr False else if a = 0 then Inr True else strcmp_eq as bs)"
| "strcmp_eq [] _ = Inl OutOfBounds"
| "strcmp_eq _ [] = Inl OutOfBounds"

definition c_mem :: "cstr \<Rightarrow> byte list res" where
  "c_mem s = bind_r (the_r NullDeref s) (\<lambda>s. Inr (s @ [0]))"

text \<open>\<open>%s\<close> prints the bytes before the terminator.\<close>

definition c_string :: "byte list \<Rightarrow> byte list res" where
  "c_string buf = (if 0 \<in> set buf then Inr (takeWhile (\<lambda>b. b \<noteq> 0) buf) else Inl OutOfBounds)"

definition print :: "message \<Rightarrow> 'd world \<Rightarrow> 'd world" where
  "print m w = set_fs (printf m (w_fs w)) w"

definition dot :: cstr where "dot = Some [46]"
definition dotdot :: cstr where "dotdot = Some [46, 46]"
definition slash :: cstr where "slash = Some [47]"

definition strcmp :: "byte list \<Rightarrow> cstr \<Rightarrow> bool res" where
  "strcmp buf s = bind_r (c_mem s) (strcmp_eq buf)"

section \<open>Directory entries\<close>

record dirent =
  d_name_len :: int
  d_inode_nr :: int
  d_name :: "byte list"

definition dirent_bytes :: "dirent \<Rightarrow> byte list" where
  "dirent_bytes d = int_bytes (d_name_len d) @ int_bytes (d_inode_nr d) @ d_name d"

text \<open>The entry, if there is one, and the offset behind it.\<close>

definition testfs_next_dirent :: "ptr \<Rightarrow> int \<Rightarrow> 'd world \<Rightarrow> (dirent option \<times> int) res" where
  "testfs_next_dirent dir offset w =
     bind_r (assert_r (dir \<noteq> NULL)) (\<lambda>_.
     bind_r (testfs_inode_get_type dir w) (\<lambda>type.
     bind_r (assert_r (type = I_DIR)) (\<lambda>_.
     bind_r (testfs_inode_get_size dir w) (\<lambda>sz.
       if sz \<le> offset then Inr (None, offset)
       else bind_r (read_data dir offset (replicate 8 0) 8 w) (\<lambda>(ret, d).
         if ret < 0 then Inr (None, offset)
         else bind_r (assert_r (0 < int_at d 0)) (\<lambda>_.
           let offset = offset + 8
           in bind_r (read_data dir offset (replicate (nat (int_at d 0)) 0) (int_at d 0) w) (\<lambda>(ret, nm).
                if ret < 0 then Inr (None, offset)
                else Inr (Some \<lparr>d_name_len = int_at d 0, d_inode_nr = int_at d 1, d_name = nm\<rparr>,
                          offset + int_at d 0))))))))"

definition dir_size :: "ptr \<Rightarrow> 'd world \<Rightarrow> int" where
  "dir_size dir w = (case w_inodes w dir of None \<Rightarrow> 0 | Some ino \<Rightarrow> i_size (i_in ino))"

lemma next_dirent_moves:
  assumes "testfs_next_dirent dir offset w = Inr (Some d, offset')"
  shows "offset < dir_size dir w" "offset < offset'"
  using assms
  by (auto simp: testfs_next_dirent_def res_iffs testfs_inode_get_size_def dir_size_def deref_def Let_def
      split: if_splits option.splits)

lemma next_dirent_measure:
  "testfs_next_dirent dir offset w = Inr (Some d, offset') \<Longrightarrow>
   nat (dir_size dir w - offset') < nat (dir_size dir w - offset)"
  using next_dirent_moves [of dir offset w d offset'] by linarith

function find_dirent_loop :: "ptr \<Rightarrow> int \<Rightarrow> int \<Rightarrow> 'd world \<Rightarrow> dirent option res" where
  "find_dirent_loop dir inode_nr offset w =
     bind_r (testfs_next_dirent dir offset w) (\<lambda>(d, offset').
       case d of None \<Rightarrow> Inr None
       | Some d \<Rightarrow> if d_inode_nr d = inode_nr then Inr (Some d)
                   else find_dirent_loop dir inode_nr offset' w)"
  by pat_completeness auto
termination
  by (relation "measure (\<lambda>(dir, nr, offset, w). nat (dir_size dir w - offset))")
    (auto dest: next_dirent_measure)

definition testfs_find_dirent :: "ptr \<Rightarrow> int \<Rightarrow> 'd world \<Rightarrow> dirent option res" where
  "testfs_find_dirent dir inode_nr w =
     bind_r (assert_r (dir \<noteq> NULL)) (\<lambda>_.
     bind_r (testfs_inode_get_type dir w) (\<lambda>type.
     bind_r (assert_r (type = I_DIR)) (\<lambda>_.
     bind_r (assert_r (0 \<le> inode_nr)) (\<lambda>_.
       find_dirent_loop dir inode_nr 0 w))))"

text \<open>\<open>strcpy\<close> into the name area of \<open>len\<close> bytes, which \<open>malloc\<close> left uninitialised (zeros here).\<close>

definition testfs_write_dirent :: "ptr \<Rightarrow> cstr \<Rightarrow> int \<Rightarrow> int \<Rightarrow> int \<Rightarrow> 'd world \<Rightarrow> (int \<times> 'd world) res" where
  "testfs_write_dirent dir name len inode_nr offset w =
     bind_r (assert_r (0 \<le> inode_nr)) (\<lambda>_.
     bind_r (c_mem name) (\<lambda>src.
     bind_r (c_memcpy (replicate (nat len) 0) 0 src 0 (int (length src))) (\<lambda>nm.
       write_data dir offset
         (dirent_bytes \<lparr>d_name_len = len, d_inode_nr = inode_nr, d_name = nm\<rparr>) (8 + len) w)))"

text \<open>The search loop of \<open>testfs_add_dirent\<close> returns \<open>ret\<close>, \<open>found\<close> and \<open>p_offset\<close>.\<close>

function add_dirent_loop :: "ptr \<Rightarrow> cstr \<Rightarrow> int \<Rightarrow> int \<Rightarrow> 'd world \<Rightarrow> (int \<times> bool \<times> int) res" where
  "add_dirent_loop dir name len offset w =
     bind_r (testfs_next_dirent dir offset w) (\<lambda>(d, offset').
       case d of None \<Rightarrow> Inr (0, False, offset)
       | Some d \<Rightarrow>
           bind_r (if 0 \<le> d_inode_nr d then strcmp (d_name d) name else Inr False) (\<lambda>same.
             if same then Inr (- EEXIST, False, offset)
             else if 0 \<le> d_inode_nr d \<or> d_name_len d \<noteq> len
                  then add_dirent_loop dir name len offset' w
             else Inr (0, True, offset)))"
  by pat_completeness auto
termination
  by (relation "measure (\<lambda>(dir, name, len, offset, w). nat (dir_size dir w - offset))")
    (auto dest: next_dirent_measure)

definition testfs_add_dirent :: "ptr \<Rightarrow> cstr \<Rightarrow> int \<Rightarrow> 'd world \<Rightarrow> (int \<times> 'd world) res" where
  "testfs_add_dirent dir name inode_nr w =
     bind_r (c_mem name) (\<lambda>src.
     let len = int (length src)
     in bind_r (assert_r (dir \<noteq> NULL)) (\<lambda>_.
        bind_r (testfs_inode_get_type dir w) (\<lambda>type.
        bind_r (assert_r (type = I_DIR)) (\<lambda>_.
        bind_r (add_dirent_loop dir name len 0 w) (\<lambda>(ret, found, p_offset).
          if ret < 0 then Inr (ret, w)
          else bind_r (testfs_inode_get_size dir w) (\<lambda>sz.
               bind_r (assert_r (found \<or> p_offset = sz)) (\<lambda>_.
                 testfs_write_dirent dir name len inode_nr p_offset w)))))))"

text \<open>Entries that do not count: removed ones, \<open>.\<close> and \<open>..\<close>.\<close>

definition skip_entry :: "dirent \<Rightarrow> bool res" where
  "skip_entry d =
     (if d_inode_nr d < 0 then Inr True
      else bind_r (strcmp (d_name d) dot) (\<lambda>is_dot.
        if is_dot then Inr True else strcmp (d_name d) dotdot))"

function removable_loop :: "ptr \<Rightarrow> int \<Rightarrow> 'd world \<Rightarrow> int res" where
  "removable_loop dir offset w =
     bind_r (testfs_next_dirent dir offset w) (\<lambda>(d, offset').
       case d of None \<Rightarrow> Inr 0
       | Some d \<Rightarrow> bind_r (skip_entry d) (\<lambda>skip.
           if skip then removable_loop dir offset' w else Inr (- ENOTEMPTY)))"
  by pat_completeness auto
termination
  by (relation "measure (\<lambda>(dir, offset, w). nat (dir_size dir w - offset))")
    (auto dest: next_dirent_measure)

definition testfs_remove_dirent_allowed :: "int \<Rightarrow> 'd world \<Rightarrow> (int \<times> 'd world) res" where
  "testfs_remove_dirent_allowed inode_nr w =
     bind_r (testfs_get_inode inode_nr w) (\<lambda>(dir, w).
     bind_r (testfs_inode_get_type dir w) (\<lambda>type.
     bind_r (if type \<noteq> I_DIR then Inr 0 else removable_loop dir 0 w) (\<lambda>ret.
     bind_r (testfs_put_inode dir w) (\<lambda>w. Inr (ret, w)))))"

text \<open>The loop ends with the entry that matches, whatever comes of it.\<close>

function remove_dirent_loop :: "ptr \<Rightarrow> cstr \<Rightarrow> int \<Rightarrow> 'd world \<Rightarrow> (int \<times> 'd world) res" where
  "remove_dirent_loop dir name offset w =
     bind_r (testfs_next_dirent dir offset w) (\<lambda>(d, offset').
       case d of None \<Rightarrow> Inr (- ENOENT, w)
       | Some d \<Rightarrow>
           bind_r (if d_inode_nr d < 0 then Inr False else strcmp (d_name d) name) (\<lambda>same.
             if \<not> same then remove_dirent_loop dir name offset' w
             else bind_r (testfs_remove_dirent_allowed (d_inode_nr d) w) (\<lambda>(ret, w).
               if ret < 0 then Inr (ret, w)
               else bind_r (write_data dir offset (dirent_bytes (d\<lparr>d_inode_nr := - 1\<rparr>)) (8 + d_name_len d) w)
                      (\<lambda>(ret, w). Inr (if 0 \<le> ret then d_inode_nr d else ret, w)))))"
  by pat_completeness auto
termination
  by (relation "measure (\<lambda>(dir, name, offset, w). nat (dir_size dir w - offset))")
    (auto dest: next_dirent_measure)

definition testfs_remove_dirent :: "ptr \<Rightarrow> cstr \<Rightarrow> 'd world \<Rightarrow> (int \<times> 'd world) res" where
  "testfs_remove_dirent dir name w =
     bind_r (assert_r (dir \<noteq> NULL)) (\<lambda>_.
     bind_r (assert_r (name \<noteq> None)) (\<lambda>_.
     bind_r (c_mem name) (\<lambda>nm.
     bind_r (strcmp nm dot) (\<lambda>is_dot.
     bind_r (if is_dot then Inr True else strcmp nm dotdot) (\<lambda>special.
       if special then Inr (- EINVAL, w) else remove_dirent_loop dir name 0 w)))))"

function name_loop :: "ptr \<Rightarrow> cstr \<Rightarrow> int \<Rightarrow> 'd world \<Rightarrow> int res" where
  "name_loop dir name offset w =
     bind_r (testfs_next_dirent dir offset w) (\<lambda>(d, offset').
       case d of None \<Rightarrow> Inr (- ENOENT)
       | Some d \<Rightarrow>
           bind_r (if d_inode_nr d < 0 then Inr False else strcmp (d_name d) name) (\<lambda>same.
             if same then Inr (d_inode_nr d) else name_loop dir name offset' w))"
  by pat_completeness auto
termination
  by (relation "measure (\<lambda>(dir, name, offset, w). nat (dir_size dir w - offset))")
    (auto dest: next_dirent_measure)

definition testfs_dir_name_to_inode_nr :: "ptr \<Rightarrow> cstr \<Rightarrow> 'd world \<Rightarrow> int res" where
  "testfs_dir_name_to_inode_nr dir name w =
     bind_r (assert_r (dir \<noteq> NULL)) (\<lambda>_.
     bind_r (assert_r (name \<noteq> None)) (\<lambda>_.
     bind_r (testfs_inode_get_type dir w) (\<lambda>type.
     bind_r (assert_r (type = I_DIR)) (\<lambda>_.
       name_loop dir name 0 w))))"

section \<open>Creating files and directories\<close>

definition testfs_create_empty_dir :: "int \<Rightarrow> ptr \<Rightarrow> 'd world \<Rightarrow> (int \<times> 'd world) res" where
  "testfs_create_empty_dir p_inode_nr cdir w =
     bind_r (testfs_inode_get_type cdir w) (\<lambda>type.
     bind_r (assert_r (type = I_DIR)) (\<lambda>_.
     bind_r (testfs_inode_get_nr cdir w) (\<lambda>nr.
     bind_r (testfs_add_dirent cdir dot nr w) (\<lambda>(ret, w).
       if ret < 0 then Inr (ret, w)
       else bind_r (testfs_add_dirent cdir dotdot p_inode_nr w) (\<lambda>(ret, w).
         if ret < 0 then bind_r (testfs_remove_dirent cdir dot w) (\<lambda>(_, w). Inr (ret, w))
         else Inr (0, w))))))"

definition on_fs :: "('d fsys \<Rightarrow> 'd fsys res) \<Rightarrow> 'd world \<Rightarrow> 'd world res" where
  "on_fs f w = bind_r (f (w_fs w)) (\<lambda>s. Inr (set_fs s w))"

definition testfs_create_file_or_dir :: "ptr \<Rightarrow> inode_type \<Rightarrow> cstr \<Rightarrow> 'd world \<Rightarrow> (int \<times> 'd world) res" where
  "testfs_create_file_or_dir dir type name w =
     bind_r (if dir \<noteq> NULL then testfs_dir_name_to_inode_nr dir name w else Inr (- ENOENT)) (\<lambda>inode_nr.
     if 0 \<le> inode_nr then Inr (- EEXIST, w)
     else
       bind_r (on_fs (testfs_tx_start TX_CREATE) w) (\<lambda>w.
       bind_r (testfs_create_inode type w) (\<lambda>(ret, ino, w).
       if ret < 0 then bind_r (on_fs (testfs_tx_commit TX_CREATE) w) (\<lambda>w. Inr (ret, w))
       else
         bind_r (testfs_inode_get_nr ino w) (\<lambda>inode_nr.
         bind_r (if type = I_DIR
                 then bind_r (if dir \<noteq> NULL then testfs_inode_get_nr dir w else Inr inode_nr) (\<lambda>p_inode_nr.
                        testfs_create_empty_dir p_inode_nr ino w)
                 else Inr (0, w)) (\<lambda>(ret, w).
         bind_r (if 0 \<le> ret \<and> dir \<noteq> NULL
                 then bind_r (testfs_add_dirent dir name inode_nr w) (\<lambda>(ret, w).
                        if ret < 0 then Inr (ret, w)
                        else bind_r (sync_inode dir w) (\<lambda>w. Inr (ret, w)))
                 else Inr (ret, w)) (\<lambda>(ret, w).
         if ret < 0 then
           bind_r (testfs_remove_inode ino w) (\<lambda>w.
           bind_r (on_fs (testfs_tx_commit TX_CREATE) w) (\<lambda>w. Inr (ret, w)))
         else
           bind_r (sync_inode ino w) (\<lambda>w.
           bind_r (testfs_put_inode ino w) (\<lambda>w.
           bind_r (on_fs (testfs_tx_commit TX_CREATE) w) (\<lambda>w. Inr (0, w)))))))))) "

definition testfs_make_root_dir :: "'d world \<Rightarrow> (int \<times> 'd world) res" where
  "testfs_make_root_dir = testfs_create_file_or_dir NULL I_DIR None"

section \<open>Recursive walks\<close>

fun testfs_pwd :: "nat \<Rightarrow> ptr \<Rightarrow> 'd world \<Rightarrow> (int \<times> 'd world) res" where
  "testfs_pwd 0 ino w = Inl NoFuel"
| "testfs_pwd (Suc fuel) ino w =
     bind_r (assert_r (ino \<noteq> NULL)) (\<lambda>_.
     bind_r (testfs_inode_get_nr ino w) (\<lambda>nr.
     bind_r (assert_r (0 \<le> nr)) (\<lambda>_.
     bind_r (testfs_dir_name_to_inode_nr ino dotdot w) (\<lambda>p_inode_nr.
     bind_r (assert_r (0 \<le> p_inode_nr)) (\<lambda>_.
       if p_inode_nr = nr then Inr (1, print PwdRoot w)
       else
         bind_r (testfs_get_inode p_inode_nr w) (\<lambda>(p_in, w).
         bind_r (testfs_find_dirent p_in nr w) (\<lambda>d.
         bind_r (assert_r (d \<noteq> None)) (\<lambda>_.
         bind_r (testfs_pwd fuel p_in w) (\<lambda>(ret, w).
         bind_r (testfs_put_inode p_in w) (\<lambda>w.
         bind_r (c_string (d_name (the d))) (\<lambda>nm.
           Inr (0, print (PwdEntry (ret \<noteq> 1) nm) w))))))))))))"

text \<open>Fuel counts loop rounds and recursive calls together.\<close>

fun testfs_ls :: "nat \<Rightarrow> ptr \<Rightarrow> int \<Rightarrow> bool \<Rightarrow> 'd world \<Rightarrow> 'd world res" where
  "testfs_ls 0 ino offset recursive w = Inl NoFuel"
| "testfs_ls (Suc fuel) ino offset recursive w =
     bind_r (testfs_next_dirent ino offset w) (\<lambda>(d, offset).
       case d of None \<Rightarrow> Inr w
       | Some d \<Rightarrow>
         if d_inode_nr d < 0 then testfs_ls fuel ino offset recursive w
         else
           bind_r (testfs_get_inode (d_inode_nr d) w) (\<lambda>(cin, w).
           bind_r (testfs_inode_get_type cin w) (\<lambda>type.
           bind_r (c_string (d_name d)) (\<lambda>nm.
           let w = print (LsEntry nm (type = I_DIR)) w
           in bind_r (if recursive \<and> type = I_DIR then skip_entry d else Inr True) (\<lambda>skip.
              bind_r (if \<not> skip then testfs_ls fuel cin 0 recursive w else Inr w) (\<lambda>w.
              bind_r (testfs_put_inode cin w) (\<lambda>w.
                testfs_ls fuel ino offset recursive w)))))))"

declare find_dirent_loop.simps [simp del] add_dirent_loop.simps [simp del]
  removable_loop.simps [simp del] remove_dirent_loop.simps [simp del] name_loop.simps [simp del]

section \<open>Commands\<close>

text \<open>\<open>struct context\<close>: its \<open>fs\<close> is the file system of the world.\<close>

record cmd_context =
  nargs :: int
  cmd :: "cstr list"
  cur_dir :: ptr

definition cmd_arg :: "cmd_context \<Rightarrow> int \<Rightarrow> cstr res" where
  "cmd_arg c i = nth_r (cmd c) i"

definition cmd_cd :: "cmd_context \<Rightarrow> 'd world \<Rightarrow> (int \<times> cmd_context \<times> 'd world) res" where
  "cmd_cd c w =
     (if nargs c \<noteq> 2 then Inr (- EINVAL, c, w)
      else
        bind_r (cmd_arg c 1) (\<lambda>arg.
        bind_r (c_mem arg) (\<lambda>buf.
        bind_r (strcmp buf slash) (\<lambda>root.
        bind_r (if root then Inr 0 else testfs_dir_name_to_inode_nr (cur_dir c) arg w) (\<lambda>inode_nr.
          if inode_nr < 0 then Inr (inode_nr, c, w)
          else
            bind_r (testfs_get_inode inode_nr w) (\<lambda>(dir_inode, w).
            bind_r (testfs_inode_get_type dir_inode w) (\<lambda>type.
              if type \<noteq> I_DIR
              then bind_r (testfs_put_inode dir_inode w) (\<lambda>w. Inr (- ENOTDIR, c, w))
              else bind_r (testfs_put_inode (cur_dir c) w) (\<lambda>w.
                     Inr (0, c\<lparr>cur_dir := dir_inode\<rparr>, w)))))))))"

definition cmd_pwd :: "nat \<Rightarrow> cmd_context \<Rightarrow> 'd world \<Rightarrow> (int \<times> cmd_context \<times> 'd world) res" where
  "cmd_pwd fuel c w =
     (if nargs c \<noteq> 1 then Inr (- EINVAL, c, w)
      else bind_r (testfs_pwd fuel (cur_dir c) w) (\<lambda>(_, w). Inr (0, c, print PwdEnd w)))"

definition ls_command :: "bool \<Rightarrow> nat \<Rightarrow> cmd_context \<Rightarrow> 'd world \<Rightarrow> (int \<times> cmd_context \<times> 'd world) res" where
  "ls_command recursive fuel c w =
     (if nargs c \<noteq> 1 \<and> nargs c \<noteq> 2 then Inr (- EINVAL, c, w)
      else
        bind_r (if nargs c = 2 then cmd_arg c 1 else Inr dot) (\<lambda>cdir.
        bind_r (assert_r (cur_dir c \<noteq> NULL)) (\<lambda>_.
        bind_r (testfs_dir_name_to_inode_nr (cur_dir c) cdir w) (\<lambda>inode_nr.
          if inode_nr < 0 then Inr (inode_nr, c, w)
          else
            bind_r (testfs_get_inode inode_nr w) (\<lambda>(ino, w).
            bind_r (testfs_ls fuel ino 0 recursive w) (\<lambda>w.
            bind_r (testfs_put_inode ino w) (\<lambda>w. Inr (0, c, w))))))))"

definition cmd_ls :: "nat \<Rightarrow> cmd_context \<Rightarrow> 'd world \<Rightarrow> (int \<times> cmd_context \<times> 'd world) res" where
  "cmd_ls = ls_command False"

definition cmd_lsr :: "nat \<Rightarrow> cmd_context \<Rightarrow> 'd world \<Rightarrow> (int \<times> cmd_context \<times> 'd world) res" where
  "cmd_lsr = ls_command True"

text \<open>The loops over the arguments stop at the first error.\<close>

fun create_args :: "int list \<Rightarrow> cmd_context \<Rightarrow> 'd world \<Rightarrow> (int \<times> cmd_context \<times> 'd world) res" where
  "create_args [] c w = Inr (0, c, w)"
| "create_args (i # is) c w =
     bind_r (cmd_arg c i) (\<lambda>arg.
     bind_r (testfs_create_file_or_dir (cur_dir c) I_FILE arg w) (\<lambda>(ret, w).
       if ret < 0 then Inr (ret, c, w) else create_args is c w))"

definition cmd_create :: "cmd_context \<Rightarrow> 'd world \<Rightarrow> (int \<times> cmd_context \<times> 'd world) res" where
  "cmd_create c w =
     (if nargs c < 2 then Inr (- EINVAL, c, w) else create_args [1 .. nargs c - 1] c w)"

fun stat_args :: "int list \<Rightarrow> cmd_context \<Rightarrow> 'd world \<Rightarrow> (int \<times> cmd_context \<times> 'd world) res" where
  "stat_args [] c w = Inr (0, c, w)"
| "stat_args (i # is) c w =
     bind_r (cmd_arg c i) (\<lambda>arg.
     bind_r (testfs_dir_name_to_inode_nr (cur_dir c) arg w) (\<lambda>inode_nr.
       if inode_nr < 0 then Inr (inode_nr, c, w)
       else
         bind_r (testfs_get_inode inode_nr w) (\<lambda>(ino, w).
         bind_r (testfs_inode_get_nr ino w) (\<lambda>nr.
         bind_r (testfs_inode_get_type ino w) (\<lambda>type.
         bind_r (testfs_inode_get_size ino w) (\<lambda>sz.
         bind_r (the_r NullDeref arg) (\<lambda>nm.
         bind_r (testfs_put_inode ino (print (StatEntry nm nr type sz) w)) (\<lambda>w.
           stat_args is c w))))))))"

definition cmd_stat :: "cmd_context \<Rightarrow> 'd world \<Rightarrow> (int \<times> cmd_context \<times> 'd world) res" where
  "cmd_stat c w =
     (if nargs c < 2 then Inr (- EINVAL, c, w) else stat_args [1 .. nargs c - 1] c w)"

definition cmd_rm :: "cmd_context \<Rightarrow> 'd world \<Rightarrow> (int \<times> cmd_context \<times> 'd world) res" where
  "cmd_rm c w =
     (if nargs c \<noteq> 2 then Inr (- EINVAL, c, w)
      else
        bind_r (on_fs (testfs_tx_start TX_RM) w) (\<lambda>w.
        bind_r (cmd_arg c 1) (\<lambda>arg.
        bind_r (testfs_remove_dirent (cur_dir c) arg w) (\<lambda>(inode_nr, w).
          if inode_nr < 0 then bind_r (on_fs (testfs_tx_commit TX_RM) w) (\<lambda>w. Inr (inode_nr, c, w))
          else
            bind_r (testfs_get_inode inode_nr w) (\<lambda>(ino, w).
            bind_r (testfs_remove_inode ino w) (\<lambda>w.
            bind_r (sync_inode (cur_dir c) w) (\<lambda>w.
            bind_r (on_fs (testfs_tx_commit TX_RM) w) (\<lambda>w. Inr (0, c, w)))))))))"

definition cmd_mkdir :: "cmd_context \<Rightarrow> 'd world \<Rightarrow> (int \<times> cmd_context \<times> 'd world) res" where
  "cmd_mkdir c w =
     (if nargs c \<noteq> 2 then Inr (- EINVAL, c, w)
      else bind_r (cmd_arg c 1) (\<lambda>arg.
           bind_r (testfs_create_file_or_dir (cur_dir c) I_DIR arg w) (\<lambda>(ret, w). Inr (ret, c, w))))"

end
