(* ===== verification/MountOps.thy ===== *)
theory MountOps
  imports DirOps
begin

text \<open>
  The rest of \<open>src/super.c\<close>: making a super block, mounting (\<open>testfs_init_super_block\<close>), flushing
  and closing, \<open>checkfs\<close> and \<open>mkfs\<close>.
\<close>

section \<open>Mounting and unmounting\<close>

text \<open>\<open>calloc\<close>: all pointers NULL, no transaction, nothing dirty.\<close>

definition testfs_make_super_block :: "'d world \<Rightarrow> 'd world res" where
  "testfs_make_super_block w =
     (let ifs = SUPER_BLOCK_SIZE; bfs = ifs + INODE_FREEMAP_SIZE; cts = bfs + BLOCK_FREEMAP_SIZE;
          ibs = cts + CSUM_TABLE_SIZE; dbs = ibs + NR_INODE_BLOCKS;
          sb = \<lparr>sb_dsb = \<lparr>inode_freemap_start = ifs, block_freemap_start = bfs, csum_table_start = cts,
                         inode_blocks_start = ibs, data_blocks_start = dbs, modification_time = 0\<rparr>,
                inode_freemap = None, block_freemap = None, tx_in_progress = TX_NONE,
                csum_table = None, csum_block_dirty = replicate CSUM_TABLE_SIZE False\<rparr>;
          w = w\<lparr>w_sb := w_next w, w_next := Suc (w_next w), w_fs := upd_sb (\<lambda>_. sb) (w_fs w)\<rparr>
      in bind_r (on_fs testfs_write_super_block w) (\<lambda>w. Inr (inode_hash_init w)))"

definition read_freemap :: "int \<Rightarrow> int \<Rightarrow> 'd fsys \<Rightarrow> (int + bitmap) res" where
  "read_freemap start n s =
     bind_r (bitmap_create True True (word_of_int (BLOCK_SIZE * n * 8))) (\<lambda>r.
       case r of
         Inl ret \<Rightarrow> Inr (Inl ret)
       | Inr b \<Rightarrow>
           bind_r (read_blocks s start n) (\<lambda>blocks.
           bind_r (c_memcpy (bitmap_getdata b) 0 blocks 0 (n * BLOCK_SIZE)) (\<lambda>v.
             Inr (Inr (b\<lparr>bm_v := v\<rparr>)))))"

text \<open>
  The fields of the fresh \<open>malloc\<close>ed super block are written before they are used.
\<close>

definition testfs_init_super_block :: "'d world \<Rightarrow> (int \<times> 'd world) res" where
  "testfs_init_super_block w =
     (let w = w\<lparr>w_sb := w_next w, w_next := Suc (w_next w)\<rparr>
      in bind_r (read_blocks (w_fs w) 0 1) (\<lambda>block.
         bind_r (c_memcpy (replicate 24 0) 0 block 0 24) (\<lambda>d.
         let w = set_fs (upd_sb (\<lambda>sb. sb\<lparr>sb_dsb := dsuper_of_bytes d\<rparr>) (w_fs w)) w
         in bind_r (read_freemap (inode_freemap_start (dsb (w_fs w))) INODE_FREEMAP_SIZE (w_fs w)) (\<lambda>r.
            case r of Inl ret \<Rightarrow> Inr (ret, w)
            | Inr i_map \<Rightarrow>
              bind_r (read_freemap (block_freemap_start (dsb (w_fs w))) BLOCK_FREEMAP_SIZE (w_fs w)) (\<lambda>r.
              case r of Inl ret \<Rightarrow> Inr (ret, w)
              | Inr b_map \<Rightarrow>
                bind_r (read_blocks (w_fs w) (csum_table_start (dsb (w_fs w))) CSUM_TABLE_SIZE) (\<lambda>table.
                let sb = \<lparr>sb_dsb = dsb (w_fs w), inode_freemap = Some i_map, block_freemap = Some b_map,
                          tx_in_progress = TX_NONE, csum_table = Some (bytes_words MAX_NR_CSUMS table),
                          csum_block_dirty = replicate CSUM_TABLE_SIZE False\<rparr>
                in Inr (0, inode_hash_init (set_fs (upd_sb (\<lambda>_. sb) (w_fs w)) w))))))))"

definition flush_inode_freemap :: "'d fsys \<Rightarrow> 'd fsys res" where
  "flush_inode_freemap s =
     (case inode_freemap (fs_sb s) of
        None \<Rightarrow> Inr s
      | Some b \<Rightarrow>
          bind_r (write_blocks (bitmap_getdata b) (inode_freemap_start (dsb s)) INODE_FREEMAP_SIZE s) (\<lambda>s.
            Inr (upd_sb (\<lambda>sb. sb\<lparr>inode_freemap := None\<rparr>) s)))"

definition flush_block_freemap :: "'d fsys \<Rightarrow> 'd fsys res" where
  "flush_block_freemap s =
     (case block_freemap (fs_sb s) of
        None \<Rightarrow> Inr s
      | Some b \<Rightarrow>
          bind_r (write_blocks (bitmap_getdata b) (block_freemap_start (dsb s)) BLOCK_FREEMAP_SIZE s) (\<lambda>s.
            Inr (upd_sb (\<lambda>sb. sb\<lparr>block_freemap := None\<rparr>) s)))"

definition testfs_flush_super_block :: "'d world \<Rightarrow> 'd world res" where
  "testfs_flush_super_block w =
     bind_r (on_fs (testfs_tx_start TX_UMOUNT) w) (\<lambda>w.
     bind_r (on_fs testfs_write_super_block w) (\<lambda>w.
     bind_r (inode_hash_destroy w) (\<lambda>w.
     bind_r (on_fs flush_inode_freemap w) (\<lambda>w.
     bind_r (on_fs flush_block_freemap w) (\<lambda>w.
       on_fs (testfs_tx_commit TX_UMOUNT) w)))))"

text \<open>The freed super block is address NULL from here on.\<close>

definition testfs_close_super_block :: "'d world \<Rightarrow> 'd world res" where
  "testfs_close_super_block w =
     bind_r (testfs_flush_super_block w) (\<lambda>w. Inr (w\<lparr>w_sb := NULL\<rparr>))"

section \<open>\<open>checkfs\<close>\<close>

text \<open>
  \<open>check_entries\<close> is the loop over the entries of a directory.  Fuel counts its rounds and the
  recursive calls together.
\<close>

fun testfs_checkfs :: "nat \<Rightarrow> bitmap \<Rightarrow> bitmap \<Rightarrow> int \<Rightarrow> 'd world \<Rightarrow> (bitmap \<times> bitmap \<times> 'd world) res"
  and check_entries :: "nat \<Rightarrow> bitmap \<Rightarrow> bitmap \<Rightarrow> ptr \<Rightarrow> int \<Rightarrow> 'd world \<Rightarrow> (bitmap \<times> bitmap \<times> 'd world) res"
where
  "testfs_checkfs 0 i_freemap b_freemap inode_nr w = Inl NoFuel"
| "testfs_checkfs (Suc fuel) i_freemap b_freemap inode_nr w =
     bind_r (testfs_get_inode inode_nr w) (\<lambda>(ino, w).
     bind_r (testfs_inode_get_size ino w) (\<lambda>sz.
     let size_roundup = ROUNDUP sz BLOCK_SIZE
     in bind_r (testfs_inode_get_type ino w) (\<lambda>type.
        bind_r (assert_r (type = I_FILE \<or> type = I_DIR)) (\<lambda>_.
        bind_r (bitmap_mark i_freemap (word_of_int inode_nr)) (\<lambda>i_freemap.
        bind_r (if type = I_DIR then check_entries fuel i_freemap b_freemap ino 0 w
                else Inr (i_freemap, b_freemap, w)) (\<lambda>(i_freemap, b_freemap, w).
        bind_r (deref_sb ino w) (\<lambda>inode.
        bind_r (testfs_check_inode inode b_freemap (w_fs w)) (\<lambda>(sz, b_freemap, s).
        bind_r (assert_r (sz = size_roundup)) (\<lambda>_.
        bind_r (testfs_put_inode ino (set_fs s w)) (\<lambda>w.
          Inr (i_freemap, b_freemap, w)))))))))))"
| "check_entries 0 i_freemap b_freemap ino offset w = Inl NoFuel"
| "check_entries (Suc fuel) i_freemap b_freemap ino offset w =
     bind_r (testfs_next_dirent ino offset w) (\<lambda>(d, offset).
       case d of None \<Rightarrow> Inr (i_freemap, b_freemap, w)
       | Some d \<Rightarrow>
           bind_r (skip_entry d) (\<lambda>skip.
           bind_r (if skip then Inr (i_freemap, b_freemap, w)
                   else testfs_checkfs fuel i_freemap b_freemap (d_inode_nr d) w)
             (\<lambda>(i_freemap, b_freemap, w).
             check_entries fuel i_freemap b_freemap ino offset w)))"

definition print_if :: "bool \<Rightarrow> message \<Rightarrow> 'd world \<Rightarrow> 'd world" where
  "print_if b m w = (if b then print m w else w)"

definition cmd_checkfs :: "nat \<Rightarrow> cmd_context \<Rightarrow> 'd world \<Rightarrow> (int \<times> cmd_context \<times> 'd world) res" where
  "cmd_checkfs fuel c w =
     (if nargs c \<noteq> 1 then Inr (- EINVAL, c, w)
      else
        bind_r (bitmap_create True True (word_of_int (BLOCK_SIZE * INODE_FREEMAP_SIZE * 8))) (\<lambda>r.
        case r of Inl ret \<Rightarrow> Inr (ret, c, w)
        | Inr i_freemap \<Rightarrow>
          bind_r (bitmap_create True True (word_of_int (BLOCK_SIZE * BLOCK_FREEMAP_SIZE * 8))) (\<lambda>r.
          case r of Inl ret \<Rightarrow> Inr (ret, c, w)
          | Inr b_freemap \<Rightarrow>
            bind_r (testfs_checkfs fuel i_freemap b_freemap 0 w) (\<lambda>(i_freemap, b_freemap, w).
            bind_r (the_r NullDeref (inode_freemap (fs_sb (w_fs w)))) (\<lambda>sb_i.
            bind_r (the_r NullDeref (block_freemap (fs_sb (w_fs w)))) (\<lambda>sb_b.
            bind_r (bitmap_equal sb_i i_freemap) (\<lambda>i_equal.
            bind_r (bitmap_equal sb_b b_freemap) (\<lambda>b_equal.
            bind_r (bitmap_nr_allocated sb_i) (\<lambda>i_nr.
            bind_r (bitmap_nr_allocated sb_b) (\<lambda>b_nr.
              Inr (0, c, print (NrAllocatedBlocks b_nr) (print (NrAllocatedInodes i_nr)
                (print_if (b_equal = 0) BlockFreemapNotConsistent
                (print_if (i_equal = 0) InodeFreemapNotConsistent w))))))))))))))"

section \<open>\<open>mkfs\<close>\<close>

definition exit_if :: "bool \<Rightarrow> unit res" where
  "exit_if b = check_r ExitCall (\<not> b)"

definition cmd_mkfs :: "cmd_context \<Rightarrow> 'd world \<Rightarrow> (int \<times> cmd_context \<times> 'd world) res" where
  "cmd_mkfs c w =
     bind_r (if cur_dir c \<noteq> NULL
             then bind_r (testfs_put_inode (cur_dir c) w) (\<lambda>w. Inr (c\<lparr>cur_dir := NULL\<rparr>, w))
             else Inr (c, w)) (\<lambda>(c, w).
     bind_r (testfs_make_super_block (w\<lparr>w_sb := NULL\<rparr>)) (\<lambda>w.
     bind_r (on_fs testfs_make_inode_freemap w) (\<lambda>w.
     bind_r (on_fs testfs_make_block_freemap w) (\<lambda>w.
     bind_r (on_fs testfs_make_csum_table w) (\<lambda>w.
     bind_r (on_fs testfs_make_inode_blocks w) (\<lambda>w.
     bind_r (testfs_flush_super_block w) (\<lambda>w.
     bind_r (testfs_init_super_block (w\<lparr>w_sb := NULL\<rparr>)) (\<lambda>(ret, w).
     bind_r (exit_if (ret \<noteq> 0)) (\<lambda>_.
     bind_r (testfs_make_root_dir w) (\<lambda>(ret, w).
     bind_r (exit_if (ret \<noteq> 0)) (\<lambda>_.
     bind_r (testfs_flush_super_block w) (\<lambda>w.
     bind_r (testfs_init_super_block w) (\<lambda>(ret, w).
     bind_r (exit_if (ret \<noteq> 0)) (\<lambda>_.
     bind_r (testfs_get_inode 0 w) (\<lambda>(dir, w).
       Inr (0, c\<lparr>cur_dir := dir\<rparr>, w))))))))))))))))"

end
