(* ===== verification/InodeAlt.thy ===== *)
theory InodeAlt
  imports InodeSync
begin

text \<open>
  The alternate write path of \<open>src/inode_alternate_common.c\<close> and \<open>src/inode_alternate_sync.c\<close>:
  whole blocks are written in place, the indirect block is kept in memory (\<open>i_ind\<close>, valid when
  \<open>I_FLAGS_INDIRECT_LOADED\<close> is set) and freemap and checksums are only changed in memory; the caller
  flushes them (\<open>testfs_flush_block_freemap\<close>, \<open>testfs_flush_csum\<close>, \<open>testfs_bulk_sync_inode\<close>).
\<close>

section \<open>The in-memory indirect block\<close>

definition testfs_ensure_indirect_loaded :: "inode \<Rightarrow> 'd fsys \<Rightarrow> inode res" where
  "testfs_ensure_indirect_loaded ino s =
     (if has_flag ino I_FLAGS_INDIRECT_LOADED then Inr ino
      else
        case read_blocks_async METADATA_REACTOR future_init (i_indirect (i_in ino)) 1 of (req, f) \<Rightarrow>
        case reactor_read req s (words_bytes (i_ind ino)) f of (blocks, f) \<Rightarrow>
          bind_r (spin_wait f) (\<lambda>_.
            Inr (set_flag I_FLAGS_INDIRECT_LOADED (ino\<lparr>i_ind := bytes_words 128 blocks\<rparr>))))"

definition testfs_inode_log_to_phy :: "inode \<Rightarrow> int \<Rightarrow> 'd fsys \<Rightarrow> (int \<times> inode) res" where
  "testfs_inode_log_to_phy ino log_block_nr s =
     (if log_block_nr < NR_DIRECT_BLOCKS
      then bind_r (nth_r (i_block_nr (i_in ino)) log_block_nr) (\<lambda>phy_block_nr.
           bind_r (assert_r (0 \<le> phy_block_nr)) (\<lambda>_. Inr (phy_block_nr, ino)))
      else
        let indirect_log_block_nr = log_block_nr - NR_DIRECT_BLOCKS
        in if NR_INDIRECT_BLOCKS \<le> indirect_log_block_nr then Inr (- EFBIG, ino)
           else if i_indirect (i_in ino) = 0 then Inr (0, ino)
           else bind_r (testfs_ensure_indirect_loaded ino s) (\<lambda>ino.
                bind_r (nth_r (i_ind ino) indirect_log_block_nr) (\<lambda>w. Inr (sint w, ino))))"

definition testfs_allocate_block_alternate :: "inode \<Rightarrow> int \<Rightarrow> 'd fsys \<Rightarrow> (int \<times> inode \<times> 'd fsys) res" where
  "testfs_allocate_block_alternate ino log_block_nr s =
     bind_r (testfs_alloc_block_alternate s) (\<lambda>(phy_block_nr, s).
       if phy_block_nr < 0 then Inr (phy_block_nr, ino, s)
       else
         let ino = set_flag I_FLAGS_DIRTY ino
         in if log_block_nr < NR_DIRECT_BLOCKS then
              bind_r (nth_r (i_block_nr (i_in ino)) log_block_nr) (\<lambda>_.
                Inr (phy_block_nr, upd_in (\<lambda>d. d\<lparr>i_block_nr :=
                       (i_block_nr d)[nat log_block_nr := phy_block_nr]\<rparr>) ino, s))
            else
              bind_r (if i_indirect (i_in ino) = 0 then
                        bind_r (testfs_alloc_block_alternate s) (\<lambda>(indirect_block_nr, s).
                          if indirect_block_nr < 0 then Inr (indirect_block_nr, ino, s)
                          else Inr (0, set_flag I_FLAGS_INDIRECT_LOADED
                                 (upd_in (\<lambda>d. d\<lparr>i_indirect := indirect_block_nr\<rparr>)
                                   (ino\<lparr>i_ind := replicate 128 0\<rparr>)), s))
                      else bind_r (testfs_ensure_indirect_loaded ino s) (\<lambda>ino. Inr (0, ino, s)))
                (\<lambda>(ret, ino, s).
                if ret < 0 then Inr (ret, ino, s)
                else
                  let indirect_log_block_nr = log_block_nr - NR_DIRECT_BLOCKS
                  in bind_r (nth_r (i_ind ino) indirect_log_block_nr) (\<lambda>_.
                       Inr (phy_block_nr, set_flag I_FLAGS_INDIRECT_DIRTY
                         (ino\<lparr>i_ind := (i_ind ino)[nat indirect_log_block_nr := word_of_int phy_block_nr]\<rparr>), s))))"

definition inode_compare :: "inode \<Rightarrow> inode \<Rightarrow> int res" where
  "inode_compare p1 p2 =
     bind_r (testfs_inode_to_block_nr p1) (\<lambda>a. bind_r (testfs_inode_to_block_nr p2) (\<lambda>b. Inr (a - b)))"

section \<open>Writing\<close>

text \<open>\<open>buf\<close> is the memory from the pointer on: the block is its first \<open>BLOCK_SIZE\<close> bytes.\<close>

definition testfs_file_write_block :: "inode \<Rightarrow> int \<Rightarrow> byte list \<Rightarrow> 'd fsys \<Rightarrow> (int \<times> inode \<times> 'd fsys) res" where
  "testfs_file_write_block ino log_block_nr buf s =
     bind_r (testfs_inode_log_to_phy ino log_block_nr s) (\<lambda>(phy_block_nr, ino).
     bind_r (if phy_block_nr = 0 then testfs_allocate_block_alternate ino log_block_nr s
             else Inr (phy_block_nr, ino, s)) (\<lambda>(phy_block_nr, ino, s).
       if phy_block_nr < 0 then Inr (phy_block_nr, ino, s)
       else
         bind_r (write_blocks buf phy_block_nr 1 s) (\<lambda>s.
         bind_r (testfs_calculate_csum buf BLOCK_SIZE) (\<lambda>csum.
         bind_r (testfs_set_csum phy_block_nr csum s) (\<lambda>s.
           Inr (0, ino, s))))))"

definition testfs_file_read_block :: "inode \<Rightarrow> int \<Rightarrow> 'd fsys \<Rightarrow> (byte list \<times> inode) res" where
  "testfs_file_read_block ino log_block_nr s =
     bind_r (testfs_inode_log_to_phy ino log_block_nr s) (\<lambda>(phy_block_nr, ino).
       if 0 < phy_block_nr
       then bind_r (read_blocks s phy_block_nr 1) (\<lambda>buf. Inr (buf, ino))
       else Inr (replicate BLOCK_SIZE 0, ino))"

text \<open>The loop over the contiguous blocks; the first negative result is returned.\<close>

function write_contig :: "inode \<Rightarrow> int \<Rightarrow> int \<Rightarrow> byte list \<Rightarrow> int \<Rightarrow> 'd fsys \<Rightarrow> (int \<times> inode \<times> 'd fsys) res" where
  "write_contig ino log_block_nr log_contig_end buf buf_offset s =
     (if log_block_nr \<le> log_contig_end then
        bind_r (testfs_file_write_block ino log_block_nr (drop (nat buf_offset) buf) s) (\<lambda>(ret, ino, s).
          if ret < 0 then Inr (ret, ino, s)
          else write_contig ino (log_block_nr + 1) log_contig_end buf (buf_offset + BLOCK_SIZE) s)
      else Inr (0, ino, s))"
  by pat_completeness auto
termination
  by (relation "measure (\<lambda>(ino, nr, last, buf, off, s). nat (last + 1 - nr))") auto

declare write_contig.simps [simp del]

text \<open>The block range of a write: the first offset, the size of the tail, and the first and last block.\<close>

definition alt_tail_size :: "int \<Rightarrow> int \<Rightarrow> int" where
  "alt_tail_size start sz = (sz - start smod BLOCK_SIZE) smod BLOCK_SIZE"

definition alt_log_end :: "int \<Rightarrow> int \<Rightarrow> int" where
  "alt_log_end start sz =
     (let first_block_offset = start smod BLOCK_SIZE; tail_size = alt_tail_size start sz;
          body_size = sz - first_block_offset - tail_size
      in start sdiv BLOCK_SIZE + body_size sdiv BLOCK_SIZE + (if tail_size \<noteq> 0 then 1 else 0)
         - (if first_block_offset = 0 then 1 else 0))"

definition testfs_write_data_alternate ::
    "inode \<Rightarrow> int \<Rightarrow> byte list \<Rightarrow> int \<Rightarrow> 'd fsys \<Rightarrow> (int \<times> inode \<times> 'd fsys) res" where
  "testfs_write_data_alternate ino start buf sz s =
     (if sz \<le> 0 then Inr (0, ino, s)
      else
        let first_block_offset = start smod BLOCK_SIZE;
            tail_size = alt_tail_size start sz;
            has_head = first_block_offset \<noteq> 0; has_tail = tail_size \<noteq> 0;
            log_block_start = start sdiv BLOCK_SIZE; log_block_end = alt_log_end start sz
        in bind_r (assert_r (0 \<le> first_block_offset)) (\<lambda>_.
           bind_r (assert_r (0 \<le> tail_size)) (\<lambda>_.
           bind_r (assert_r (log_block_start \<le> log_block_end)) (\<lambda>_.
           if NR_DIRECT_BLOCKS \<le> log_block_end \<and> NR_INDIRECT_BLOCKS \<le> log_block_end - NR_DIRECT_BLOCKS
           then Inr (- EFBIG, ino, s)
           else
             bind_r (if has_head then testfs_file_read_block ino log_block_start s
                     else Inr (replicate BLOCK_SIZE 0, ino)) (\<lambda>(head, ino).
             bind_r (if has_tail then testfs_file_read_block ino log_block_end s
                     else Inr (replicate BLOCK_SIZE 0, ino)) (\<lambda>(tail, ino).
             bind_r (write_contig ino (log_block_start + (if has_head then 1 else 0))
                      (log_block_end - (if has_tail then 1 else 0)) buf first_block_offset s) (\<lambda>(ret, ino, s).
             if ret < 0 then Inr (ret, ino, s)
             else
               bind_r (if has_head then
                         bind_r (c_memcpy head first_block_offset buf 0 (BLOCK_SIZE - first_block_offset)) (\<lambda>head.
                           testfs_file_write_block ino log_block_start head s)
                       else Inr (0, ino, s)) (\<lambda>(ret, ino, s).
               if ret < 0 then Inr (ret, ino, s)
               else
                 bind_r (if has_tail then
                           bind_r (c_memcpy tail 0 buf (sz - tail_size) tail_size) (\<lambda>tail.
                             testfs_file_write_block ino log_block_end tail s)
                         else Inr (0, ino, s)) (\<lambda>(ret, ino, s).
                 if ret < 0 then Inr (ret, ino, s)
                 else Inr (0, set_flag I_FLAGS_DIRTY
                        (upd_in (\<lambda>d. d\<lparr>i_size := max (i_size d) (start + sz)\<rparr>) ino), s))))))))))"

section \<open>Writing many inodes back\<close>

text \<open>
  The array of pointers is a list of inodes, returned updated and in the order \<open>qsort\<close> leaves.
  \<open>qsort\<close> is the C library's: it orders by \<open>inode_compare\<close>, that is by inode block.
\<close>

fun flush_indirects :: "inode list \<Rightarrow> 'd fsys \<Rightarrow> (inode list \<times> 'd fsys) res" where
  "flush_indirects [] s = Inr ([], s)"
| "flush_indirects (ino # inos) s =
     bind_r (if \<not> has_flag ino I_FLAGS_INDIRECT_DIRTY then Inr (ino, s)
             else bind_r (write_blocks (words_bytes (i_ind ino)) (i_indirect (i_in ino)) 1 s) (\<lambda>s.
                    Inr (clear_flag I_FLAGS_INDIRECT_DIRTY ino, s))) (\<lambda>(ino, s).
     bind_r (flush_indirects inos s) (\<lambda>(inos, s). Inr (ino # inos, s)))"

definition qsort_inodes :: "inode list \<Rightarrow> inode list res" where
  "qsort_inodes inos =
     bind_r (fold_r (\<lambda>ino _. bind_r (testfs_inode_to_block_nr ino) (\<lambda>_. Inr ())) inos ()) (\<lambda>_.
       Inr (sort_key (\<lambda>ino. case testfs_inode_to_block_nr ino of Inr b \<Rightarrow> b | Inl _ \<Rightarrow> 0) inos))"

text \<open>The loop that gathers the inodes of one block; \<open>cur_block_nr = -1\<close> before the first block.\<close>

fun sync_sorted :: "inode list \<Rightarrow> int \<Rightarrow> byte list \<Rightarrow> 'd fsys \<Rightarrow> (inode list \<times> 'd fsys) res" where
  "sync_sorted [] cur_block_nr block s =
     bind_r (write_blocks block cur_block_nr 1 s) (\<lambda>s. Inr ([], s))"
| "sync_sorted (ino # inos) cur_block_nr block s =
     bind_r (testfs_inode_to_block_nr ino) (\<lambda>nr.
     let block_nr = inode_blocks_start (dsb s) + nr
     in bind_r (if block_nr \<noteq> cur_block_nr then
                  bind_r (if cur_block_nr \<noteq> - 1 then write_blocks block cur_block_nr 1 s else Inr s) (\<lambda>s.
                  bind_r (read_blocks s block_nr 1) (\<lambda>block. Inr (block, s)))
                else Inr (block, s)) (\<lambda>(block, s).
        bind_r (testfs_inode_to_block_offset ino) (\<lambda>offset.
        bind_r (c_memcpy block offset (dinode_bytes (i_in ino)) 0 32) (\<lambda>block.
        bind_r (sync_sorted inos block_nr block s) (\<lambda>(inos, s).
          Inr (clear_flag I_FLAGS_DIRTY ino # inos, s))))))"

definition testfs_bulk_sync_inode :: "inode list \<Rightarrow> 'd fsys \<Rightarrow> (inode list \<times> 'd fsys) res" where
  "testfs_bulk_sync_inode inos s =
     (if inos = [] then Inr ([], s)
      else
        bind_r (flush_indirects inos s) (\<lambda>(inos, s).
        bind_r (qsort_inodes inos) (\<lambda>inos.
          sync_sorted inos (- 1) (replicate BLOCK_SIZE 0) s)))"

end
