(* ===== verification/AsyncOps.thy ===== *)
theory AsyncOps
  imports InodeAlt
begin

text \<open>
  Asynchronous requests: \<open>src/inode_alternate_async.c\<close> and the asynchronous functions of
  \<open>src/csum.c\<close> and \<open>src/super.c\<close>.

  A submitted request stays in \<open>io_queue\<close>, with the future it counts in, until the device
  completes it; requests in flight complete in any order (\<open>io_step\<close>).  The caller only sees
  completions when it waits, so a wait takes a schedule, the list of queue positions that complete
  meanwhile; if the future is not ready after them the wait does not end under this schedule
  (\<open>Hang\<close>).  Reads deliver into the buffers \<open>io_bufs\<close> when they complete.
\<close>

section \<open>Requests in flight\<close>

datatype request = ReadReq nat rw_request | WriteReq rw_request

record 'd io =
  io_fs :: "'d fsys"
  io_queue :: "(nat \<times> request) list"
  io_futures :: "future list"
  io_bufs :: "byte list list"

definition io_init :: "'d fsys \<Rightarrow> 'd io" where
  "io_init s = \<lparr>io_fs = s, io_queue = [], io_futures = [future_init, future_init],
               io_bufs = replicate 2 (replicate BLOCK_SIZE 0)\<rparr>"

definition submit_read :: "nat \<Rightarrow> nat \<Rightarrow> nat \<Rightarrow> int \<Rightarrow> int \<Rightarrow> 'd io \<Rightarrow> 'd io" where
  "submit_read f reactor_id dest start nr io =
     (case read_blocks_async reactor_id (io_futures io ! f) start nr of (req, fut) \<Rightarrow>
        io\<lparr>io_queue := io_queue io @ [(f, ReadReq dest req)], io_futures := (io_futures io)[f := fut]\<rparr>)"

definition submit_write :: "nat \<Rightarrow> nat \<Rightarrow> byte list \<Rightarrow> int \<Rightarrow> int \<Rightarrow> 'd io \<Rightarrow> 'd io res" where
  "submit_write f reactor_id blocks start nr io =
     bind_r (write_blocks_async reactor_id (io_futures io ! f) blocks start nr) (\<lambda>(req, fut).
       Inr (io\<lparr>io_queue := io_queue io @ [(f, WriteReq req)], io_futures := (io_futures io)[f := fut]\<rparr>))"

definition run_request :: "nat \<Rightarrow> request \<Rightarrow> 'd io \<Rightarrow> 'd io" where
  "run_request f r io =
     (case r of
        ReadReq dest req \<Rightarrow>
          (case reactor_read req (io_fs io) (io_bufs io ! dest) (io_futures io ! f) of (blocks, fut) \<Rightarrow>
             io\<lparr>io_bufs := (io_bufs io)[dest := blocks], io_futures := (io_futures io)[f := fut]\<rparr>)
      | WriteReq req \<Rightarrow>
          (case reactor_write req (io_fs io) (io_futures io ! f) of (s, fut) \<Rightarrow>
             io\<lparr>io_fs := s, io_futures := (io_futures io)[f := fut]\<rparr>))"

text \<open>The request at queue position \<open>i\<close> completes.\<close>

definition complete_at :: "nat \<Rightarrow> 'd io \<Rightarrow> 'd io" where
  "complete_at i io =
     (case io_queue io ! i of (f, r) \<Rightarrow>
        run_request f r (io\<lparr>io_queue := take i (io_queue io) @ drop (Suc i) (io_queue io)\<rparr>))"

inductive io_step :: "'d io \<Rightarrow> 'd io \<Rightarrow> bool" where
  "i < length (io_queue io) \<Longrightarrow> io_step io (complete_at i io)"

fun run_schedule :: "nat list \<Rightarrow> 'd io \<Rightarrow> 'd io" where
  "run_schedule [] io = io"
| "run_schedule (i # is) io =
     run_schedule is (if i < length (io_queue io) then complete_at i io else io)"

definition wait_for :: "nat \<Rightarrow> nat list \<Rightarrow> 'd io \<Rightarrow> 'd io res" where
  "wait_for f schedule io =
     (let io = run_schedule schedule io
      in bind_r (spin_wait (io_futures io ! f)) (\<lambda>_. Inr io))"

definition upd_io_fs :: "('d fsys \<Rightarrow> 'd fsys res) \<Rightarrow> 'd io \<Rightarrow> 'd io res" where
  "upd_io_fs g io = bind_r (g (io_fs io)) (\<lambda>s. Inr (io\<lparr>io_fs := s\<rparr>))"

section \<open>Checksums and the block freemap\<close>

definition testfs_write_csum_asnyc :: "nat \<Rightarrow> int \<Rightarrow> 'd io \<Rightarrow> 'd io res" where
  "testfs_write_csum_asnyc f block_nr io =
     (let nr = int_of_size (size_of_int block_nr * 4 div BLOCK_SIZE); s = io_fs io
      in bind_r (the_r AssertFail (csum_table (fs_sb s))) (\<lambda>table.
           submit_write f METADATA_REACTOR (csum_block table nr) (csum_table_start (dsb s) + nr) 1 io))"

definition testfs_put_csum_async :: "nat \<Rightarrow> int \<Rightarrow> 32 word \<Rightarrow> 'd io \<Rightarrow> 'd io res" where
  "testfs_put_csum_async f phy_block_nr csum io =
     (let s = io_fs io; block_nr = phy_block_nr - data_blocks_start (dsb s)
      in bind_r (the_r AssertFail (csum_table (fs_sb s))) (\<lambda>table.
         bind_r (assert_r (0 \<le> block_nr \<and> block_nr < MAX_NR_CSUMS)) (\<lambda>_.
         bind_r (nth_r table block_nr) (\<lambda>_.
           testfs_write_csum_asnyc f block_nr
             (io\<lparr>io_fs := upd_sb (\<lambda>sb. sb\<lparr>csum_table := Some (table[nat block_nr := csum])\<rparr>) s\<rparr>)))))"

definition flush_csum_block_async :: "nat \<Rightarrow> nat \<Rightarrow> 'd io \<Rightarrow> 'd io res" where
  "flush_csum_block_async f i io =
     (let s = io_fs io
      in bind_r (nth_r (csum_block_dirty (fs_sb s)) (int i)) (\<lambda>dirty.
         if \<not> dirty then Inr io
         else bind_r (the_r NullDeref (csum_table (fs_sb s))) (\<lambda>table.
              bind_r (submit_write f METADATA_REACTOR (csum_block table (int i))
                        (csum_table_start (dsb s) + int i) 1 io) (\<lambda>io.
                Inr (io\<lparr>io_fs := upd_sb (\<lambda>sb. sb\<lparr>csum_block_dirty := (csum_block_dirty sb)[i := False]\<rparr>)
                                   (io_fs io)\<rparr>)))))"

definition testfs_flush_csum_async :: "nat \<Rightarrow> 'd io \<Rightarrow> 'd io res" where
  "testfs_flush_csum_async f = fold_r (flush_csum_block_async f) [0 ..< CSUM_TABLE_SIZE]"

definition testfs_flush_block_freemap_async :: "nat \<Rightarrow> 'd io \<Rightarrow> 'd io res" where
  "testfs_flush_block_freemap_async f io =
     bind_r (the_r NullDeref (block_freemap (fs_sb (io_fs io)))) (\<lambda>map.
       submit_write f METADATA_REACTOR (bitmap_getdata map) (block_freemap_start (dsb (io_fs io)))
         BLOCK_FREEMAP_SIZE io)"

section \<open>Writing file data\<close>

definition testfs_file_write_block_async ::
    "inode \<Rightarrow> nat \<Rightarrow> int \<Rightarrow> byte list \<Rightarrow> 'd io \<Rightarrow> (int \<times> inode \<times> 'd io) res" where
  "testfs_file_write_block_async ino f log_block_nr buf io =
     bind_r (testfs_inode_log_to_phy ino log_block_nr (io_fs io)) (\<lambda>(phy_block_nr, ino).
     bind_r (if phy_block_nr = 0 then testfs_allocate_block_alternate ino log_block_nr (io_fs io)
             else Inr (phy_block_nr, ino, io_fs io)) (\<lambda>(phy_block_nr, ino, s).
       let io = io\<lparr>io_fs := s\<rparr>
       in if phy_block_nr < 0 then Inr (phy_block_nr, ino, io)
          else
            bind_r (submit_write f DATA_REACTOR buf phy_block_nr 1 io) (\<lambda>io.
            bind_r (testfs_calculate_csum buf BLOCK_SIZE) (\<lambda>csum.
            bind_r (upd_io_fs (testfs_set_csum phy_block_nr csum) io) (\<lambda>io.
              Inr (0, ino, io))))))"

definition testfs_file_read_block_async :: "inode \<Rightarrow> nat \<Rightarrow> int \<Rightarrow> nat \<Rightarrow> 'd io \<Rightarrow> (inode \<times> 'd io) res" where
  "testfs_file_read_block_async ino f log_block_nr dest io =
     bind_r (testfs_inode_log_to_phy ino log_block_nr (io_fs io)) (\<lambda>(phy_block_nr, ino).
       Inr (ino, if 0 < phy_block_nr then submit_read f DATA_REACTOR dest phy_block_nr 1 io
                 else io\<lparr>io_bufs := (io_bufs io)[dest := replicate BLOCK_SIZE 0]\<rparr>))"

function write_contig_async ::
    "inode \<Rightarrow> nat \<Rightarrow> int \<Rightarrow> int \<Rightarrow> byte list \<Rightarrow> int \<Rightarrow> 'd io \<Rightarrow> (int \<times> inode \<times> 'd io) res" where
  "write_contig_async ino f log_block_nr log_contig_end buf buf_offset io =
     (if log_block_nr \<le> log_contig_end then
        bind_r (testfs_file_write_block_async ino f log_block_nr (drop (nat buf_offset) buf) io) (\<lambda>(ret, ino, io).
          if ret < 0 then Inr (ret, ino, io)
          else write_contig_async ino f (log_block_nr + 1) log_contig_end buf (buf_offset + BLOCK_SIZE) io)
      else Inr (0, ino, io))"
  by pat_completeness auto
termination
  by (relation "measure (\<lambda>(ino, f, nr, last, buf, off, io). nat (last + 1 - nr))") auto

declare write_contig_async.simps [simp del]

text \<open>Future 0 is the caller's, future 1 the local \<open>head_tail_f\<close>; buffer 0 is \<open>head\<close>, 1 is \<open>tail\<close>.\<close>

definition testfs_write_data_alternate_async ::
    "nat list \<Rightarrow> inode \<Rightarrow> int \<Rightarrow> byte list \<Rightarrow> int \<Rightarrow> 'd io \<Rightarrow> (int \<times> inode \<times> 'd io) res" where
  "testfs_write_data_alternate_async schedule ino start buf sz io =
     (if sz \<le> 0 then Inr (0, ino, io)
      else
        let first_block_offset = start smod BLOCK_SIZE;
            tail_size = alt_tail_size start sz;
            has_head = first_block_offset \<noteq> 0; has_tail = tail_size \<noteq> 0;
            log_block_start = start sdiv BLOCK_SIZE; log_block_end = alt_log_end start sz
        in bind_r (assert_r (0 \<le> first_block_offset)) (\<lambda>_.
           bind_r (assert_r (0 \<le> tail_size)) (\<lambda>_.
           bind_r (assert_r (log_block_start \<le> log_block_end)) (\<lambda>_.
           if NR_DIRECT_BLOCKS \<le> log_block_end \<and> NR_INDIRECT_BLOCKS \<le> log_block_end - NR_DIRECT_BLOCKS
           then Inr (- EFBIG, ino, io)
           else
             let io = io\<lparr>io_futures := (io_futures io)[1 := future_init]\<rparr>
             in
             bind_r (if has_head then testfs_file_read_block_async ino 1 log_block_start 0 io
                     else Inr (ino, io)) (\<lambda>(ino, io).
             bind_r (if has_tail then testfs_file_read_block_async ino 1 log_block_end 1 io
                     else Inr (ino, io)) (\<lambda>(ino, io).
             bind_r (write_contig_async ino 0 (log_block_start + (if has_head then 1 else 0))
                      (log_block_end - (if has_tail then 1 else 0)) buf first_block_offset io) (\<lambda>(ret, ino, io).
             if ret < 0 then Inr (ret, ino, io)
             else
               bind_r (if has_head \<or> has_tail then wait_for 1 schedule io else Inr io) (\<lambda>io.
               bind_r (if has_head then
                         bind_r (c_memcpy (io_bufs io ! 0) first_block_offset buf 0 (BLOCK_SIZE - first_block_offset))
                           (\<lambda>head. testfs_file_write_block_async ino 0 log_block_start head io)
                       else Inr (0, ino, io)) (\<lambda>(ret, ino, io).
               if ret < 0 then Inr (ret, ino, io)
               else
                 bind_r (if has_tail then
                           bind_r (c_memcpy (io_bufs io ! 1) 0 buf (sz - tail_size) tail_size)
                             (\<lambda>tail. testfs_file_write_block_async ino 0 log_block_end tail io)
                         else Inr (0, ino, io)) (\<lambda>(ret, ino, io).
                 if ret < 0 then Inr (ret, ino, io)
                 else Inr (0, set_flag I_FLAGS_DIRTY
                        (upd_in (\<lambda>d. d\<lparr>i_size := max (i_size d) (start + sz)\<rparr>) ino), io)))))))))))"

section \<open>Writing many inodes back\<close>

fun flush_indirects_async :: "nat \<Rightarrow> inode list \<Rightarrow> 'd io \<Rightarrow> (inode list \<times> 'd io) res" where
  "flush_indirects_async f [] io = Inr ([], io)"
| "flush_indirects_async f (ino # inos) io =
     bind_r (if \<not> has_flag ino I_FLAGS_INDIRECT_DIRTY then Inr (ino, io)
             else bind_r (submit_write f METADATA_REACTOR (words_bytes (i_ind ino)) (i_indirect (i_in ino)) 1 io)
                    (\<lambda>io. Inr (clear_flag I_FLAGS_INDIRECT_DIRTY ino, io))) (\<lambda>(ino, io).
     bind_r (flush_indirects_async f inos io) (\<lambda>(inos, io). Inr (ino # inos, io)))"

text \<open>
  One schedule per round, for the wait on \<open>read_f\<close> (future 1) that follows each read; the block
  buffer is the destination 0, and what \<open>write_blocks_async\<close> copies of it stays in the queue.
\<close>

fun sync_sorted_async ::
    "nat list list \<Rightarrow> nat \<Rightarrow> inode list \<Rightarrow> int \<Rightarrow> 'd io \<Rightarrow> (inode list \<times> 'd io) res" where
  "sync_sorted_async schedules f [] cur_block_nr io =
     bind_r (submit_write f METADATA_REACTOR (io_bufs io ! 0) cur_block_nr 1 io) (\<lambda>io. Inr ([], io))"
| "sync_sorted_async schedules f (ino # inos) cur_block_nr io =
     bind_r (testfs_inode_to_block_nr ino) (\<lambda>nr.
     let block_nr = inode_blocks_start (dsb (io_fs io)) + nr
     in bind_r (if block_nr \<noteq> cur_block_nr then
                  bind_r (if cur_block_nr \<noteq> - 1
                          then submit_write f METADATA_REACTOR (io_bufs io ! 0) cur_block_nr 1 io
                          else Inr io) (\<lambda>io.
                    wait_for 1 (hd (schedules @ [[]])) (submit_read 1 METADATA_REACTOR 0 block_nr 1 io))
                else Inr io) (\<lambda>io.
        bind_r (testfs_inode_to_block_offset ino) (\<lambda>offset.
        bind_r (c_memcpy (io_bufs io ! 0) offset (dinode_bytes (i_in ino)) 0 32) (\<lambda>block.
        bind_r (sync_sorted_async (tl schedules) f inos block_nr (io\<lparr>io_bufs := (io_bufs io)[0 := block]\<rparr>))
          (\<lambda>(inos, io). Inr (clear_flag I_FLAGS_DIRTY ino # inos, io))))))"

definition testfs_bulk_sync_inode_async ::
    "nat list list \<Rightarrow> nat \<Rightarrow> inode list \<Rightarrow> 'd io \<Rightarrow> (inode list \<times> 'd io) res" where
  "testfs_bulk_sync_inode_async schedules f inos io =
     (if inos = [] then Inr ([], io)
      else
        bind_r (flush_indirects_async f inos io) (\<lambda>(inos, io).
        bind_r (qsort_inodes inos) (\<lambda>inos.
          sync_sorted_async schedules f inos (- 1)
            (io\<lparr>io_futures := (io_futures io)[1 := future_init],
                io_bufs := (io_bufs io)[0 := replicate BLOCK_SIZE 0]\<rparr>))))"

end
