(* ===== verification/FileCmds.thy ===== *)
theory FileCmds
  imports MountOps AsyncOps
begin

text \<open>
  \<open>src/file.c\<close>: the commands on file contents.  \<open>import\<close> and \<open>export\<close> also use files of the host
  system through \<open>stdio\<close>: \<open>host\<close> has their contents by name and says which names can be opened for
  writing.
\<close>

record host =
  h_files :: "byte list \<Rightarrow> byte list option"
  h_writable :: "byte list \<Rightarrow> bool"

section \<open>Printing files\<close>

text \<open>\<open>buf[sz] = 0\<close>, then \<open>%s\<close>; the result of \<open>testfs_read_data\<close> is not looked at.\<close>

definition print_file :: "ptr \<Rightarrow> 'd world \<Rightarrow> 'd world res" where
  "print_file ino w =
     bind_r (testfs_inode_get_size ino w) (\<lambda>sz.
       if 0 < sz then
         bind_r (read_data ino 0 (replicate (nat sz + 1) 0) sz w) (\<lambda>(_, buf).
         bind_r (c_string (buf[nat sz := 0])) (\<lambda>str.
           Inr (print (FileContents str) w)))
       else Inr w)"

fun cat_args :: "int list \<Rightarrow> cmd_context \<Rightarrow> 'd world \<Rightarrow> (int \<times> cmd_context \<times> 'd world) res" where
  "cat_args [] c w = Inr (0, c, w)"
| "cat_args (i # is) c w =
     bind_r (cmd_arg c i) (\<lambda>arg.
     bind_r (testfs_dir_name_to_inode_nr (cur_dir c) arg w) (\<lambda>inode_nr.
       if inode_nr < 0 then Inr (inode_nr, c, w)
       else
         bind_r (testfs_get_inode inode_nr w) (\<lambda>(ino, w).
         bind_r (testfs_inode_get_type ino w) (\<lambda>type.
           if type = I_DIR then bind_r (testfs_put_inode ino w) (\<lambda>w. Inr (- EISDIR, c, w))
           else
             bind_r (print_file ino w) (\<lambda>w.
             bind_r (testfs_put_inode ino w) (\<lambda>w. cat_args is c w))))))"

definition cmd_cat :: "cmd_context \<Rightarrow> 'd world \<Rightarrow> (int \<times> cmd_context \<times> 'd world) res" where
  "cmd_cat c w =
     (if nargs c < 2 then Inr (- EINVAL, c, w) else cat_args [1 .. nargs c - 1] c w)"

text \<open>
  \<open>catr_loop\<close> is the loop over the entries; a failing recursive call leaves it with \<open>cur_dir\<close> as the
  call found it.
\<close>

fun cmd_catr :: "nat \<Rightarrow> cmd_context \<Rightarrow> 'd world \<Rightarrow> (int \<times> cmd_context \<times> 'd world) res"
  and catr_loop :: "nat \<Rightarrow> ptr \<Rightarrow> int \<Rightarrow> ptr \<Rightarrow> cmd_context \<Rightarrow> 'd world \<Rightarrow> (cmd_context \<times> 'd world) res"
where
  "cmd_catr 0 c w = Inl NoFuel"
| "cmd_catr (Suc fuel) c w =
     (if 2 < nargs c then Inr (- EINVAL, c, w)
      else
        bind_r (if nargs c = 2 then cmd_arg c 1 else Inr dot) (\<lambda>cdir.
        bind_r (assert_r (cur_dir c \<noteq> NULL)) (\<lambda>_.
        bind_r (testfs_dir_name_to_inode_nr (cur_dir c) cdir w) (\<lambda>inode_nr.
          if inode_nr < 0 then Inr (inode_nr, c, w)
          else
            bind_r (testfs_get_inode inode_nr w) (\<lambda>(ino, w).
            bind_r (catr_loop fuel ino 0 (cur_dir c) c w) (\<lambda>(c, w).
            bind_r (testfs_put_inode ino w) (\<lambda>w. Inr (0, c, w))))))))"
| "catr_loop 0 ino offset tmp_inode c w = Inl NoFuel"
| "catr_loop (Suc fuel) ino offset tmp_inode c w =
     bind_r (testfs_next_dirent ino offset w) (\<lambda>(d, offset).
       case d of None \<Rightarrow> Inr (c, w)
       | Some d \<Rightarrow>
         bind_r (skip_entry d) (\<lambda>skip.
           if skip then catr_loop fuel ino offset tmp_inode c w
           else
             bind_r (testfs_get_inode (d_inode_nr d) w) (\<lambda>(cin, w).
             bind_r (testfs_inode_get_type cin w) (\<lambda>type.
               if type = I_DIR then
                 bind_r (cmd_catr fuel (c\<lparr>cur_dir := cin\<rparr>) w) (\<lambda>(ret, c, w).
                   if ret < 0 then bind_r (testfs_put_inode cin w) (\<lambda>w. Inr (c, w))
                   else
                     bind_r (testfs_put_inode cin w) (\<lambda>w.
                       catr_loop fuel ino offset tmp_inode (c\<lparr>cur_dir := tmp_inode\<rparr>) w))
               else
                 bind_r (c_string (d_name d)) (\<lambda>nm.
                 bind_r (print_file cin (print (CatrHeader nm) w)) (\<lambda>w.
                 bind_r (testfs_put_inode cin w) (\<lambda>w.
                   catr_loop fuel ino offset tmp_inode c w)))))))"

section \<open>\<open>write\<close> and \<open>owrite\<close>\<close>

definition write_async ::
    "nat list \<Rightarrow> nat list \<Rightarrow> ptr \<Rightarrow> int \<Rightarrow> byte list \<Rightarrow> int \<Rightarrow> 'd world \<Rightarrow> (int \<times> 'd world) res" where
  "write_async sched1 sched2 p start buf sz w =
     bind_r (deref_sb p w) (\<lambda>ino.
     bind_r (testfs_write_data_alternate_async sched1 ino start buf sz (io_init (w_fs w))) (\<lambda>(ret, ino, io).
     bind_r (wait_for 0 sched2 io) (\<lambda>io.
       Inr (ret, set_fs (io_fs io) (store p ino w)))))"

text \<open>The two schedules are those of the wait inside the write and of \<open>spin_wait(&f)\<close>.\<close>

definition cmd_write :: "nat list \<Rightarrow> nat list \<Rightarrow> cmd_context \<Rightarrow> 'd world \<Rightarrow> (int \<times> cmd_context \<times> 'd world) res" where
  "cmd_write sched1 sched2 c w =
     (if nargs c \<noteq> 3 then Inr (- EINVAL, c, w)
      else
        bind_r (cmd_arg c 1) (\<lambda>filename.
        bind_r (cmd_arg c 2) (\<lambda>content.
        bind_r (testfs_dir_name_to_inode_nr (cur_dir c) filename w) (\<lambda>inode_nr.
          if inode_nr < 0 then Inr (inode_nr, c, w)
          else
            bind_r (testfs_get_inode inode_nr w) (\<lambda>(ino, w).
            bind_r (testfs_inode_get_type ino w) (\<lambda>type.
              if type = I_DIR then bind_r (testfs_put_inode ino w) (\<lambda>w. Inr (- EISDIR, c, w))
              else
                bind_r (c_mem content) (\<lambda>buf.
                let sz = int (length buf) - 1
                in bind_r (on_fs (testfs_tx_start TX_WRITE) w) (\<lambda>w.
                   bind_r (write_async sched1 sched2 ino 0 buf sz w) (\<lambda>(ret, w).
                   bind_r (if 0 \<le> ret then truncate_data ino sz w else Inr w) (\<lambda>w.
                   bind_r (sync_inode ino w) (\<lambda>w.
                   bind_r (on_fs (testfs_tx_commit TX_WRITE) w) (\<lambda>w.
                   bind_r (testfs_put_inode ino w) (\<lambda>w. Inr (ret, c, w))))))))))))))"

text \<open>\<open>strtol\<close> in base 10: the value, clamped to \<open>long\<close>, and the rest of the string.\<close>

definition is_digit :: "byte \<Rightarrow> bool" where "is_digit b \<longleftrightarrow> 48 \<le> b \<and> b \<le> 57"

definition is_space :: "byte \<Rightarrow> bool" where "is_space b \<longleftrightarrow> b = 32 \<or> 9 \<le> b \<and> b \<le> 13"

definition digits_value :: "byte list \<Rightarrow> int" where
  "digits_value ds = fold (\<lambda>b n. 10 * n + (uint b - 48)) ds 0"

definition strtol :: "byte list \<Rightarrow> int \<times> byte list" where
  "strtol str =
     (let s = dropWhile is_space str;
          neg = (case s of [] \<Rightarrow> False | b # _ \<Rightarrow> b = 45);
          s = (case s of [] \<Rightarrow> [] | b # bs \<Rightarrow> if b = 45 \<or> b = 43 then bs else s);
          ds = takeWhile is_digit s
      in if ds = [] then (0, str)
         else (let v = digits_value ds
               in (if neg then max (- v) (- (2 ^ 63)) else min v (2 ^ 63 - 1)), dropWhile is_digit s))"

definition int_of_long :: "int \<Rightarrow> int" where
  "int_of_long x = sint (word_of_int x :: 32 word)"

definition cmd_owrite :: "cmd_context \<Rightarrow> 'd world \<Rightarrow> (int \<times> cmd_context \<times> 'd world) res" where
  "cmd_owrite c w =
     (if nargs c \<noteq> 4 then Inr (- EINVAL, c, w)
      else
        bind_r (cmd_arg c 1) (\<lambda>filename.
        bind_r (cmd_arg c 2) (\<lambda>number.
        bind_r (the_r NullDeref number) (\<lambda>str.
        case strtol str of (offset, temp) \<Rightarrow>
        if temp \<noteq> [] then Inr (- 1, c, w)
        else
          bind_r (cmd_arg c 3) (\<lambda>content.
          bind_r (testfs_dir_name_to_inode_nr (cur_dir c) filename w) (\<lambda>inode_nr.
            if inode_nr < 0 then Inr (inode_nr, c, w)
            else
              bind_r (testfs_get_inode inode_nr w) (\<lambda>(ino, w).
              bind_r (testfs_inode_get_type ino w) (\<lambda>type.
                if type = I_DIR then bind_r (testfs_put_inode ino w) (\<lambda>w. Inr (- EISDIR, c, w))
                else
                  bind_r (c_mem content) (\<lambda>buf.
                  let sz = int (length buf) - 1
                  in bind_r (on_fs (testfs_tx_start TX_WRITE) w) (\<lambda>w.
                     bind_r (write_data ino (int_of_long offset) buf sz w) (\<lambda>(ret, w).
                     bind_r (if 0 \<le> ret then truncate_data ino (int_of_long (sz + offset)) w else Inr w) (\<lambda>w.
                     bind_r (sync_inode ino w) (\<lambda>w.
                     bind_r (on_fs (testfs_tx_commit TX_WRITE) w) (\<lambda>w.
                     bind_r (testfs_put_inode ino w) (\<lambda>w. Inr (ret, c, w))))))))))))))))"

section \<open>\<open>import\<close> and \<open>export\<close>\<close>

text \<open>
  \<open>while (!feof(fp))\<close>: end of file is seen by the read that comes up short, so a file whose length
  is a multiple of the block size gets one more, empty, round.  The result is \<open>ret\<close>, \<open>start\<close>.
\<close>

function import_loop :: "ptr \<Rightarrow> int \<Rightarrow> byte list \<Rightarrow> byte list \<Rightarrow> 'd world \<Rightarrow> (int \<times> int \<times> 'd world) res" where
  "import_loop ino start buffer rest w =
     (let data = take BLOCK_SIZE rest; fd = int (length data); buffer = blit 0 data buffer
      in bind_r (write_data ino start buffer fd w) (\<lambda>(ret, w).
           if ret < 0 then Inr (ret, start + fd, w)
           else if length rest < BLOCK_SIZE then Inr (ret, start + fd, w)
           else import_loop ino (start + fd) buffer (drop BLOCK_SIZE rest) w))"
  by pat_completeness auto
termination
  by (relation "measure (\<lambda>(ino, start, buffer, rest, w). length rest)") auto

declare import_loop.simps [simp del]

definition cmd_import :: "host \<Rightarrow> cmd_context \<Rightarrow> 'd world \<Rightarrow> (int \<times> cmd_context \<times> 'd world) res" where
  "cmd_import h c w =
     (if nargs c \<noteq> 3 then Inr (- EINVAL, c, w)
      else
        bind_r (cmd_arg c 1) (\<lambda>filename.
        bind_r (testfs_create_file_or_dir (cur_dir c) I_FILE filename w) (\<lambda>(ret, w).
        if ret < 0 then Inr (ret, c, w)
        else
          bind_r (testfs_dir_name_to_inode_nr (cur_dir c) filename w) (\<lambda>inode_nr.
          if inode_nr < 0 then Inr (inode_nr, c, w)
          else
            bind_r (testfs_get_inode inode_nr w) (\<lambda>(ino, w).
            bind_r (testfs_inode_get_type ino w) (\<lambda>type.
            bind_r (check_r Indeterminate (type \<noteq> I_DIR)) (\<lambda>_.
            bind_r (cmd_arg c 2) (\<lambda>path.
            bind_r (the_r NullDeref path) (\<lambda>path.
            case h_files h path of
              None \<Rightarrow> bind_r (testfs_put_inode ino w) (\<lambda>w. Inr (- ENOENT, c, w))
            | Some data \<Rightarrow>
                bind_r (on_fs (testfs_tx_start TX_WRITE) w) (\<lambda>w.
                bind_r (import_loop ino 0 (replicate BLOCK_SIZE 0) data w) (\<lambda>(ret, start, w).
                bind_r (if 0 \<le> ret then truncate_data ino start w else Inr w) (\<lambda>w.
                bind_r (sync_inode ino (print (SizeIs start) w)) (\<lambda>w.
                bind_r (on_fs (testfs_tx_commit TX_WRITE) w) (\<lambda>w.
                bind_r (testfs_put_inode ino w) (\<lambda>w. Inr (ret, c, w))))))))))))))))"

function export_loop :: "ptr \<Rightarrow> int \<Rightarrow> int \<Rightarrow> byte list \<Rightarrow> byte list \<Rightarrow> 'd world \<Rightarrow> byte list res" where
  "export_loop ino start sz buffer out w =
     (if start < sz then
        (let nbytes = min (sz - start) BLOCK_SIZE
         in bind_r (read_data ino start buffer nbytes w) (\<lambda>(_, buffer).
              export_loop ino (start + BLOCK_SIZE) sz buffer (out @ take (nat nbytes) buffer) w))
      else Inr out)"
  by pat_completeness auto
termination
  by (relation "measure (\<lambda>(ino, start, sz, buffer, out, w). nat (sz - start))") auto

declare export_loop.simps [simp del]

text \<open>
  The function ends without a \<open>return\<close>: the result \<open>None\<close> stands for the indeterminate value its
  caller then reads.
\<close>

definition cmd_export ::
    "host \<Rightarrow> cmd_context \<Rightarrow> 'd world \<Rightarrow> (int option \<times> cmd_context \<times> 'd world \<times> host) res" where
  "cmd_export h c w =
     bind_r (cmd_arg c 1) (\<lambda>filename.
     bind_r (testfs_dir_name_to_inode_nr (cur_dir c) filename w) (\<lambda>inode_nr.
     if inode_nr < 0 then Inr (Some inode_nr, c, w, h)
     else
       bind_r (testfs_get_inode inode_nr w) (\<lambda>(ino, w).
       bind_r (cmd_arg c 2) (\<lambda>path.
       bind_r (the_r NullDeref path) (\<lambda>path.
       if \<not> h_writable h path
       then bind_r (testfs_put_inode ino w) (\<lambda>w. Inr (None, c, w, h))
       else
         let h = h\<lparr>h_files := (h_files h)(path \<mapsto> [])\<rparr>
         in bind_r (testfs_inode_get_type ino w) (\<lambda>type.
            if type = I_DIR then bind_r (testfs_put_inode ino w) (\<lambda>w. Inr (None, c, w, h))
            else
              bind_r (testfs_inode_get_size ino w) (\<lambda>sz.
              let w = print (SizeIs sz) w
              in bind_r (export_loop ino 0 sz (replicate BLOCK_SIZE 0) [] w) (\<lambda>out.
                 bind_r (testfs_put_inode ino w) (\<lambda>w.
                   Inr (None, c, w, h\<lparr>h_files := (h_files h)(path \<mapsto> out)\<rparr>))))))))))"

end
