(* ===== verification/Bench.thy ===== *)
theory Bench
  imports FileCmds
begin

text \<open>
  The benchmarks: \<open>src/bench.c\<close> (statistics, output, the two shell commands), \<open>src/bench_e2e.c\<close> (the write path,
  synchronous against asynchronous), \<open>src/bench_raw.c\<close> (single blocks of the device) and the separate program
  \<open>src/perf_test.c\<close>.

  What they take from outside is in the record \<open>bench\<close>, by the number of the call: the clock (\<open>gettimeofday\<close>),
  the bytes of \<open>rand\<close>, the completion schedules of the waits, the bytes that each call finds
  in its own uninitialised \<open>char block[BLOCK_SIZE]\<close>; and the CSV files they append to.
\<close>

section \<open>Results\<close>

record bench_result =
  max_us :: int
  min_us :: int
  avg_us :: double

record bench_digest =
  trials :: int
  sync_result :: bench_result
  async_result :: bench_result

datatype csv_item = CsvHeader "byte list" | CsvRow int bench_digest

record bench =
  b_clock :: "nat \<Rightarrow> int \<times> int"
  b_calls :: nat
  b_rand :: "nat \<Rightarrow> byte"
  b_rands :: nat
  b_sched :: "nat \<Rightarrow> nat list"
  b_waits :: nat
  b_stack :: "nat \<Rightarrow> nat \<Rightarrow> byte"
  b_frames :: nat
  b_csv :: "byte list \<Rightarrow> csv_item list"

definition gettimeofday :: "bench \<Rightarrow> (int \<times> int) \<times> bench" where
  "gettimeofday b = (b_clock b (b_calls b), b\<lparr>b_calls := Suc (b_calls b)\<rparr>)"

text \<open>\<open>(t1.tv_sec - t0.tv_sec) * 1e6 + (t1.tv_usec - t0.tv_usec)\<close>, stored in a \<open>long long\<close>.\<close>

definition usec_between :: "int \<times> int \<Rightarrow> int \<times> int \<Rightarrow> int res" where
  "usec_between t0 t1 =
     int_of_double (d_add (d_mul (d_of_int (fst t1 - fst t0)) (d_of_int 1000000)) (d_of_int (snd t1 - snd t0)))"

definition MEASURE_USEC ::
    "(bench \<Rightarrow> 'd world \<Rightarrow> (bench \<times> 'd world) res) \<Rightarrow> bench \<Rightarrow> 'd world \<Rightarrow> (int \<times> bench \<times> 'd world) res" where
  "MEASURE_USEC expr b w =
     (case gettimeofday b of (t0, b) \<Rightarrow>
        bind_r (expr b w) (\<lambda>(b, w).
        case gettimeofday b of (t1, b) \<Rightarrow>
          bind_r (usec_between t0 t1) (\<lambda>out. Inr (out, b, w))))"

definition M_MIN :: "int \<Rightarrow> int \<Rightarrow> int" where "M_MIN x y = (if x < y then x else y)"
definition M_MAX :: "int \<Rightarrow> int \<Rightarrow> int" where "M_MAX x y = (if x > y then x else y)"

text \<open>One round of the loop for one of the two arrays.\<close>

definition add_result :: "double \<Rightarrow> int \<Rightarrow> bench_result \<Rightarrow> bench_result" where
  "add_result num_trials_d x r =
     \<lparr>max_us = M_MAX (max_us r) x, min_us = M_MIN (min_us r) x,
      avg_us = d_add (avg_us r) (d_div (d_of_int x) num_trials_d)\<rparr>"

definition populate_digest :: "int list \<Rightarrow> int list \<Rightarrow> int \<Rightarrow> bench_digest res" where
  "populate_digest results_sync_us results_async_us num_trials =
     bind_r (nth_r results_sync_us 0) (\<lambda>s0.
     bind_r (nth_r results_async_us 0) (\<lambda>a0.
     bind_r (fold_r (\<lambda>i (s, a).
         bind_r (nth_r results_sync_us (int i)) (\<lambda>x.
         bind_r (nth_r results_async_us (int i)) (\<lambda>y.
           Inr (add_result (d_of_int num_trials) x s, add_result (d_of_int num_trials) y a))))
       [0 ..< nat num_trials]
       (\<lparr>max_us = s0, min_us = s0, avg_us = d_of_int 0\<rparr>, \<lparr>max_us = a0, min_us = a0, avg_us = d_of_int 0\<rparr>)) (\<lambda>(s, a).
       Inr \<lparr>trials = num_trials, sync_result = s, async_result = a\<rparr>)))"

definition print_digest :: "byte list \<Rightarrow> bench_digest \<Rightarrow> 'd world \<Rightarrow> 'd world" where
  "print_digest benchmark_name d w =
     (let s = sync_result d; a = async_result d
      in print (DigestReport benchmark_name (trials d) (d_div (avg_us s) (avg_us a))
           (min_us s, max_us s, avg_us s) (min_us a, max_us a, avg_us a)) w)"

definition csv_append :: "byte list \<Rightarrow> csv_item \<Rightarrow> bench \<Rightarrow> bench" where
  "csv_append file x b = b\<lparr>b_csv := (b_csv b)(file := b_csv b file @ [x])\<rparr>"

text \<open>The first line of a CSV file, and the line of one parameter value.\<close>

definition print_digest_header_csv :: "byte list \<Rightarrow> byte list \<Rightarrow> bench \<Rightarrow> bench" where
  "print_digest_header_csv file parameter = csv_append file (CsvHeader parameter)"

definition print_digest_csv :: "byte list \<Rightarrow> int \<Rightarrow> bench_digest \<Rightarrow> bench \<Rightarrow> bench" where
  "print_digest_csv file n d = csv_append file (CsvRow n d)"

definition get_random_bytes :: "nat \<Rightarrow> bench \<Rightarrow> byte list \<times> bench" where
  "get_random_bytes sz b = (map (\<lambda>i. b_rand b (b_rands b + i)) [0 ..< sz], b\<lparr>b_rands := b_rands b + sz\<rparr>)"

section \<open>Single blocks of the device\<close>

definition next_sched :: "bench \<Rightarrow> nat list \<times> bench" where
  "next_sched b = (b_sched b (b_waits b), b\<lparr>b_waits := Suc (b_waits b)\<rparr>)"

text \<open>The uninitialised \<open>char block[BLOCK_SIZE]\<close> of one call.\<close>

definition stack_block :: "bench \<Rightarrow> byte list \<times> bench" where
  "stack_block b = (map (b_stack b (b_frames b)) [0 ..< BLOCK_SIZE], b\<lparr>b_frames := Suc (b_frames b)\<rparr>)"

definition benchmark_raw_write :: "nat \<Rightarrow> bench \<Rightarrow> 'd world \<Rightarrow> (bench \<times> 'd world) res" where
  "benchmark_raw_write num_blocks b w =
     (case stack_block b of (block, b) \<Rightarrow>
        bind_r (fold_r (\<lambda>i. on_fs (write_blocks block (int i) 1)) [0 ..< num_blocks] w) (\<lambda>w. Inr (b, w)))"

definition benchmark_raw_write_async :: "nat \<Rightarrow> bench \<Rightarrow> 'd world \<Rightarrow> (bench \<times> 'd world) res" where
  "benchmark_raw_write_async num_blocks b w =
     (case stack_block b of (block, b) \<Rightarrow>
        bind_r (fold_r (\<lambda>i. submit_write 0 DATA_REACTOR block (int i) 1) [0 ..< num_blocks] (io_init (w_fs w))) (\<lambda>io.
        case next_sched b of (sched, b) \<Rightarrow>
          bind_r (wait_for 0 sched io) (\<lambda>io. Inr (b, set_fs (io_fs io) w))))"

text \<open>The \<open>malloc\<close>ed buffer is only written; its bytes start as zeros here.\<close>

definition benchmark_raw_read :: "nat \<Rightarrow> bench \<Rightarrow> 'd world \<Rightarrow> (bench \<times> 'd world) res" where
  "benchmark_raw_read num_blocks b w =
     bind_r (fold_r (\<lambda>i buffer.
         bind_r (read_blocks (w_fs w) (int i) 1) (\<lambda>block.
           c_memcpy buffer (int i * BLOCK_SIZE) block 0 BLOCK_SIZE))
       [0 ..< num_blocks] (replicate (BLOCK_SIZE * num_blocks) 0)) (\<lambda>_. Inr (b, w))"

definition benchmark_raw_read_async :: "nat \<Rightarrow> bench \<Rightarrow> 'd world \<Rightarrow> (bench \<times> 'd world) res" where
  "benchmark_raw_read_async num_blocks b w =
     (let io = (io_init (w_fs w))\<lparr>io_bufs := replicate num_blocks (replicate BLOCK_SIZE 0)\<rparr>;
          io = fold (\<lambda>i. submit_read 0 DATA_REACTOR i (int i) 1) [0 ..< num_blocks] io
      in case next_sched b of (sched, b) \<Rightarrow>
           bind_r (wait_for 0 sched io) (\<lambda>io. Inr (b, set_fs (io_fs io) w)))"

text \<open>The loop over the trials: a synchronous and an asynchronous run, each measured.\<close>

definition measure_pair ::
    "(bench \<Rightarrow> 'd world \<Rightarrow> (bench \<times> 'd world) res) \<Rightarrow> (bench \<Rightarrow> 'd world \<Rightarrow> (bench \<times> 'd world) res) \<Rightarrow>
     int list \<times> int list \<times> bench \<times> 'd world \<Rightarrow> (int list \<times> int list \<times> bench \<times> 'd world) res" where
  "measure_pair run_sync run_async = (\<lambda>(results_sync_us, results_async_us, b, w).
     bind_r (MEASURE_USEC run_sync b w) (\<lambda>(x, b, w).
     bind_r (MEASURE_USEC run_async b w) (\<lambda>(y, b, w).
       Inr (results_sync_us @ [x], results_async_us @ [y], b, w))))"

definition benchmark_raw_seq_read ::
    "int \<Rightarrow> int \<Rightarrow> bench \<Rightarrow> 'd world \<Rightarrow> (bench_digest \<times> bench \<times> 'd world) res" where
  "benchmark_raw_seq_read num_trials num_blocks b w =
     bind_r (fold_r (\<lambda>_. measure_pair (benchmark_raw_read (nat num_blocks)) (benchmark_raw_read_async (nat num_blocks)))
       [0 ..< nat num_trials] ([], [], b, w)) (\<lambda>(results_sync_us, results_async_us, b, w).
     bind_r (populate_digest results_sync_us results_async_us num_trials) (\<lambda>d. Inr (d, b, w)))"

definition benchmark_raw_seq_write ::
    "int \<Rightarrow> int \<Rightarrow> bench \<Rightarrow> 'd world \<Rightarrow> (bench_digest \<times> bench \<times> 'd world) res" where
  "benchmark_raw_seq_write num_trials num_blocks b w =
     bind_r (fold_r (\<lambda>_. measure_pair (benchmark_raw_write (nat num_blocks)) (benchmark_raw_write_async (nat num_blocks)))
       [0 ..< nat num_trials] ([], [], b, w)) (\<lambda>(results_sync_us, results_async_us, b, w).
     bind_r (populate_digest results_sync_us results_async_us num_trials) (\<lambda>d. Inr (d, b, w)))"

text \<open>\<open>strtol(c->cmd[i], NULL, 10)\<close>.\<close>

definition arg_long :: "cmd_context \<Rightarrow> int \<Rightarrow> int res" where
  "arg_long c i = bind_r (cmd_arg c i) (\<lambda>s. bind_r (the_r NullDeref s) (\<lambda>s. Inr (fst (strtol s))))"

definition of_str :: "string \<Rightarrow> byte list" where
  "of_str s = map of_char s"

definition subcmd_benchmark_raw_seq_read ::
    "cmd_context \<Rightarrow> bench \<Rightarrow> 'd world \<Rightarrow> (int \<times> bench \<times> 'd world) res" where
  "subcmd_benchmark_raw_seq_read c b w =
     (if nargs c < 3 then Inr (- EINVAL, b, w)
      else
        bind_r (arg_long c 2) (\<lambda>num_trials.
        bind_r (arg_long c 3) (\<lambda>num_blocks.
        bind_r (benchmark_raw_seq_read (int_of_long num_trials) (int_of_long num_blocks) b w) (\<lambda>(digest, b, w).
          Inr (0, b, print_digest (of_str ''raw_seq_read'') digest w)))))"

definition subcmd_benchmark_raw_seq_write ::
    "cmd_context \<Rightarrow> bench \<Rightarrow> 'd world \<Rightarrow> (int \<times> bench \<times> 'd world) res" where
  "subcmd_benchmark_raw_seq_write c b w =
     (if nargs c < 3 then Inr (- EINVAL, b, w)
      else
        bind_r (arg_long c 2) (\<lambda>num_trials.
        bind_r (arg_long c 3) (\<lambda>num_blocks.
        bind_r (benchmark_raw_seq_write (int_of_long num_trials) (int_of_long num_blocks) b w) (\<lambda>(digest, b, w).
          Inr (0, b, print_digest (of_str ''raw_seq_write'') digest w)))))"

definition experiment_raw_seq_read ::
    "byte list \<Rightarrow> int \<Rightarrow> int \<Rightarrow> int \<Rightarrow> bench \<Rightarrow> 'd world \<Rightarrow> (bench \<times> 'd world) res" where
  "experiment_raw_seq_read output num_blocks_start num_blocks_end num_trials b w =
     fold_r (\<lambda>num_blocks (b, w).
         bind_r (benchmark_raw_seq_read num_trials num_blocks b w) (\<lambda>(digest, b, w).
           Inr (print_digest_csv output num_blocks digest b, w)))
       [num_blocks_start .. num_blocks_end] (print_digest_header_csv output (of_str ''num_blocks'') b, w)"

definition experiment_raw_seq_write ::
    "byte list \<Rightarrow> int \<Rightarrow> int \<Rightarrow> int \<Rightarrow> bench \<Rightarrow> 'd world \<Rightarrow> (bench \<times> 'd world) res" where
  "experiment_raw_seq_write output num_blocks_start num_blocks_end num_trials b w =
     fold_r (\<lambda>num_blocks (b, w).
         bind_r (benchmark_raw_seq_write num_trials num_blocks b w) (\<lambda>(digest, b, w).
           Inr (print_digest_csv output num_blocks digest b, w)))
       [num_blocks_start .. num_blocks_end] (print_digest_header_csv output (of_str ''num_blocks'') b, w)"

section \<open>The write path\<close>

text \<open>\<open>%lu\<close>, and \<open>sprintf\<close> into \<open>char filenames[num_files][FILENAME_LENGTH]\<close>.\<close>

fun decimal :: "nat \<Rightarrow> byte list" where
  "decimal n = (if n < 10 then [48 + of_nat n] else decimal (n div 10) @ [48 + of_nat (n mod 10)])"

declare decimal.simps [simp del]

abbreviation (input) "FILENAME_LENGTH \<equiv> (5 :: nat)"

definition bench_filenames :: "nat \<Rightarrow> byte list list res" where
  "bench_filenames num_files =
     fold_r (\<lambda>i names. bind_r (check_r OutOfBounds (length (decimal i) < FILENAME_LENGTH)) (\<lambda>_. Inr (names @ [decimal i])))
       [0 ..< num_files] []"

definition benchmark_set_up ::
    "byte list list \<Rightarrow> cmd_context \<Rightarrow> 'd world \<Rightarrow> (cmd_context \<times> 'd world) res" where
  "benchmark_set_up filenames c w =
     bind_r (cmd_mkfs c w) (\<lambda>(_, c, w).
     bind_r (fold_r (\<lambda>name w. bind_r (testfs_create_file_or_dir (cur_dir c) I_FILE (Some name) w) (\<lambda>(_, w). Inr w))
               filenames w) (\<lambda>w. Inr (c, w)))"

text \<open>The array \<open>file_inodes\<close>.\<close>

definition get_file_inodes :: "ptr \<Rightarrow> byte list list \<Rightarrow> 'd world \<Rightarrow> (ptr list \<times> 'd world) res" where
  "get_file_inodes dir filenames w =
     fold_r (\<lambda>name (ps, w).
         bind_r (testfs_dir_name_to_inode_nr dir (Some name) w) (\<lambda>inode_nr.
         bind_r (testfs_get_inode inode_nr w) (\<lambda>(p, w). Inr (ps @ [p], w))))
       filenames ([], w)"

definition put_file_inodes :: "ptr list \<Rightarrow> 'd world \<Rightarrow> 'd world res" where
  "put_file_inodes = fold_r testfs_put_inode"

definition deref_all :: "ptr list \<Rightarrow> 'd world \<Rightarrow> inode list res" where
  "deref_all ps w = fold_r (\<lambda>p inos. bind_r (deref_sb p w) (\<lambda>ino. Inr (inos @ [ino]))) ps []"

text \<open>\<open>qsort\<close> permutes the pointers as it permutes the inodes they point to; the inodes are stored back.\<close>

definition sorted_ptrs :: "ptr list \<Rightarrow> inode list \<Rightarrow> ptr list" where
  "sorted_ptrs ps inos =
     map fst (sort_key (\<lambda>(p, ino). case testfs_inode_to_block_nr ino of Inr b \<Rightarrow> b | Inl _ \<Rightarrow> 0) (zip ps inos))"

definition store_all :: "ptr list \<Rightarrow> inode list \<Rightarrow> 'd world \<Rightarrow> 'd world" where
  "store_all ps inos = fold (\<lambda>(p, ino). store p ino) (zip ps inos)"

definition bulk_sync_inodes :: "ptr list \<Rightarrow> 'd world \<Rightarrow> (ptr list \<times> 'd world) res" where
  "bulk_sync_inodes ps w =
     bind_r (deref_all ps w) (\<lambda>inos.
     bind_r (testfs_bulk_sync_inode inos (w_fs w)) (\<lambda>(inos', s).
       let ps = sorted_ptrs ps inos in Inr (ps, set_fs s (store_all ps inos' w))))"

definition write_data_alternate :: "byte list \<Rightarrow> int \<Rightarrow> ptr \<Rightarrow> 'd world \<Rightarrow> 'd world res" where
  "write_data_alternate content sz p w =
     bind_r (deref_sb p w) (\<lambda>ino.
     bind_r (testfs_write_data_alternate ino 0 content sz (w_fs w)) (\<lambda>(_, ino, s). Inr (set_fs s (store p ino w))))"

definition benchmark_sync_writes ::
    "ptr \<Rightarrow> byte list list \<Rightarrow> byte list \<Rightarrow> int \<Rightarrow> bench \<Rightarrow> 'd world \<Rightarrow> (bench \<times> 'd world) res" where
  "benchmark_sync_writes dir filenames content sz b w =
     bind_r (get_file_inodes dir filenames w) (\<lambda>(ps, w).
     bind_r (on_fs (testfs_tx_start TX_WRITE) w) (\<lambda>w.
     bind_r (fold_r (write_data_alternate content sz) ps w) (\<lambda>w.
     bind_r (bulk_sync_inodes ps w) (\<lambda>(ps, w).
     bind_r (on_fs testfs_flush_block_freemap w) (\<lambda>w.
     bind_r (on_fs testfs_flush_csum w) (\<lambda>w.
     bind_r (on_fs (testfs_tx_commit TX_WRITE) w) (\<lambda>w.
     bind_r (put_file_inodes ps w) (\<lambda>w. Inr (b, w)))))))))"

text \<open>
  The asynchronous run: all requests of all files count in the one future 0; the waits inside the writes and inside
  \<open>testfs_bulk_sync_inode_async\<close> come before the wait on it.
\<close>

definition write_data_alternate_async ::
    "byte list \<Rightarrow> int \<Rightarrow> nat list \<times> ptr \<Rightarrow> 'd io \<times> 'd world \<Rightarrow> ('d io \<times> 'd world) res" where
  "write_data_alternate_async content sz = (\<lambda>(sched, p) (io, w).
     bind_r (deref_sb p w) (\<lambda>ino.
     bind_r (testfs_write_data_alternate_async sched ino 0 content sz io) (\<lambda>(_, ino, io). Inr (io, store p ino w))))"

definition benchmark_async_writes ::
    "ptr \<Rightarrow> byte list list \<Rightarrow> byte list \<Rightarrow> int \<Rightarrow> bench \<Rightarrow> 'd world \<Rightarrow> (bench \<times> 'd world) res" where
  "benchmark_async_writes dir filenames content sz b w =
     bind_r (get_file_inodes dir filenames w) (\<lambda>(ps, w).
     let n = length ps; scheds = map (\<lambda>i. b_sched b (b_waits b + i)) [0 ..< Suc (2 * n)];
         b = b\<lparr>b_waits := b_waits b + Suc (2 * n)\<rparr>
     in bind_r (on_fs (testfs_tx_start TX_WRITE) w) (\<lambda>w.
        bind_r (fold_r (write_data_alternate_async content sz) (zip (take n scheds) ps) (io_init (w_fs w), w)) (\<lambda>(io, w).
        bind_r (deref_all ps w) (\<lambda>inos.
        bind_r (testfs_bulk_sync_inode_async (take n (drop n scheds)) 0 inos io) (\<lambda>(inos', io).
        let ps = sorted_ptrs ps inos; w = store_all ps inos' w
        in bind_r (testfs_flush_block_freemap_async 0 io) (\<lambda>io.
           bind_r (testfs_flush_csum_async 0 io) (\<lambda>io.
           bind_r (wait_for 0 (scheds ! (2 * n)) io) (\<lambda>io.
           bind_r (on_fs (testfs_tx_commit TX_WRITE) (set_fs (io_fs io) w)) (\<lambda>w.
           bind_r (put_file_inodes ps w) (\<lambda>w. Inr (b, w)))))))))))"

definition benchmark_e2e_write ::
    "byte list \<Rightarrow> nat \<Rightarrow> int \<Rightarrow> nat \<Rightarrow> cmd_context \<Rightarrow> bench \<Rightarrow> 'd world \<Rightarrow>
     (bench_digest \<times> cmd_context \<times> bench \<times> 'd world) res" where
  "benchmark_e2e_write content sz num_trials num_files c b w =
     bind_r (bench_filenames num_files) (\<lambda>filenames.
     bind_r (fold_r (\<lambda>_ (results_sync_us, results_async_us, c, b, w).
         bind_r (benchmark_set_up filenames c w) (\<lambda>(c, w).
         bind_r (MEASURE_USEC (benchmark_sync_writes (cur_dir c) filenames content (int_of_size sz)) b w) (\<lambda>(x, b, w).
         bind_r (benchmark_set_up filenames c w) (\<lambda>(c, w).
         bind_r (MEASURE_USEC (benchmark_async_writes (cur_dir c) filenames content (int_of_size sz)) b w) (\<lambda>(y, b, w).
           Inr (results_sync_us @ [x], results_async_us @ [y], c, b, w))))))
       [0 ..< nat num_trials] ([], [], c, b, w)) (\<lambda>(results_sync_us, results_async_us, c, b, w).
     bind_r (populate_digest results_sync_us results_async_us num_trials) (\<lambda>d. Inr (d, c, b, w))))"

text \<open>\<open>read_file\<close>: the contents and, after them, a terminator; NULL if the file cannot be opened.\<close>

definition bench_read_file :: "host \<Rightarrow> byte list \<Rightarrow> (byte list \<times> nat) option" where
  "bench_read_file h file = (case h_files h file of None \<Rightarrow> None | Some data \<Rightarrow> Some (data @ [0], length data))"

definition subcmd_benchmark_e2e_write ::
    "host \<Rightarrow> cmd_context \<Rightarrow> bench \<Rightarrow> 'd world \<Rightarrow> (int \<times> cmd_context \<times> bench \<times> 'd world) res" where
  "subcmd_benchmark_e2e_write h c b w =
     (if nargs c < 4 then Inr (- EINVAL, c, b, w)
      else
        bind_r (cmd_arg c 2) (\<lambda>file.
        bind_r (the_r NullDeref file) (\<lambda>file.
        bind_r (arg_long c 3) (\<lambda>num_trials.
        bind_r (arg_long c 4) (\<lambda>num_files.
        case bench_read_file h file of
          None \<Rightarrow> Inr (- EINVAL, c, b, print (CannotOpenFile file) w)
        | Some (content, sz) \<Rightarrow>
            bind_r (benchmark_e2e_write content sz (int_of_long num_trials) (nat (num_files mod 2 ^ 64)) c b w)
              (\<lambda>(digest, c, b, w). Inr (0, c, b, print_digest (of_str ''e2e_write'') digest w)))))))"

definition experiment_e2e_write_num_blocks ::
    "byte list \<Rightarrow> int \<Rightarrow> int \<Rightarrow> int \<Rightarrow> cmd_context \<times> bench \<times> 'd world \<Rightarrow> (cmd_context \<times> bench \<times> 'd world) res" where
  "experiment_e2e_write_num_blocks output num_blocks_start num_blocks_end num_trials = (\<lambda>(c, b, w).
     if \<not> num_blocks_start \<le> num_blocks_end then Inr (c, b, w)
     else
       fold_r (\<lambda>num_blocks (c, b, w).
           let sz = size_of_int (num_blocks * BLOCK_SIZE)
           in case get_random_bytes sz b of (content, b) \<Rightarrow>
                bind_r (benchmark_e2e_write content sz num_trials 1 c b w) (\<lambda>(digest, c, b, w).
                  Inr (c, print_digest_csv output num_blocks digest b, w)))
         [num_blocks_start .. num_blocks_end] (c, print_digest_header_csv output (of_str ''num_blocks'') b, w))"

definition experiment_e2e_write_num_files ::
    "byte list \<Rightarrow> int \<Rightarrow> int \<Rightarrow> int \<Rightarrow> int \<Rightarrow> cmd_context \<times> bench \<times> 'd world \<Rightarrow>
     (cmd_context \<times> bench \<times> 'd world) res" where
  "experiment_e2e_write_num_files output num_files_start num_files_end num_blocks num_trials = (\<lambda>(c, b, w).
     let b = print_digest_header_csv output (of_str ''num_files'') b; sz = size_of_int (num_blocks * BLOCK_SIZE)
     in case get_random_bytes sz b of (content, b) \<Rightarrow>
          fold_r (\<lambda>num_files (c, b, w).
              bind_r (benchmark_e2e_write content sz num_trials (size_of_int num_files) c b w) (\<lambda>(digest, c, b, w).
                Inr (c, print_digest_csv output num_files digest b, w)))
            [num_files_start .. num_files_end] (c, b, w))"

section \<open>The commands\<close>

definition without_ctx ::
    "cmd_context \<Rightarrow> (int \<times> bench \<times> 'd world) res \<Rightarrow> (int \<times> cmd_context \<times> bench \<times> 'd world) res" where
  "without_ctx c r = bind_r r (\<lambda>(ret, b, w). Inr (ret, c, b, w))"

definition cmd_benchmark ::
    "host \<Rightarrow> cmd_context \<Rightarrow> bench \<Rightarrow> 'd world \<Rightarrow> (int \<times> cmd_context \<times> bench \<times> 'd world) res" where
  "cmd_benchmark h c b w =
     (if nargs c < 1 then Inr (- EINVAL, c, b, w)
      else
        bind_r (cmd_arg c 1) (\<lambda>name.
        bind_r (the_r NullDeref name) (\<lambda>name.
          if name = of_str ''e2e_write'' then subcmd_benchmark_e2e_write h c b w
          else if name = of_str ''raw_seq_read'' then without_ctx c (subcmd_benchmark_raw_seq_read c b w)
          else if name = of_str ''raw_seq_write'' then without_ctx c (subcmd_benchmark_raw_seq_write c b w)
          else Inr (- EINVAL, c, b, print (UnknownBenchmark name) w))))"

text \<open>The macro: the file is opened for appending; a failed \<open>fopen\<close> is not noticed.\<close>

definition EXPERIMENT ::
    "host \<Rightarrow> string \<Rightarrow> (byte list \<Rightarrow> cmd_context \<times> bench \<times> 'd world \<Rightarrow> (cmd_context \<times> bench \<times> 'd world) res) \<Rightarrow>
     cmd_context \<times> bench \<times> 'd world \<Rightarrow> (cmd_context \<times> bench \<times> 'd world) res" where
  "EXPERIMENT h name expr = (\<lambda>(c, b, w).
     let filename = of_str name @ of_str ''.csv''; w = print (RunningExperiment (of_str name)) w
     in bind_r (check_r NullDeref (h_writable h filename)) (\<lambda>_. expr filename (c, b, w)))"

text \<open>
  \<open>srand(time(NULL))\<close> starts the sequence \<open>b_rand\<close>.  The function ends without a \<open>return\<close>: its result is left to the
  caller.
\<close>

definition cmd_experiment ::
    "host \<Rightarrow> cmd_context \<Rightarrow> bench \<Rightarrow> 'd world \<Rightarrow> (cmd_context \<times> bench \<times> 'd world) res" where
  "cmd_experiment h c b w =
     (let num_trials = 5; raw = (\<lambda>f csv (c, b, w). bind_r (f csv 1 200 num_trials b w) (\<lambda>(b, w). Inr (c, b, w)))
      in bind_r (EXPERIMENT h ''raw_seq_read'' (raw experiment_raw_seq_read) (c, b, w)) (\<lambda>x.
         bind_r (EXPERIMENT h ''raw_seq_write'' (raw experiment_raw_seq_write) x) (\<lambda>x.
         bind_r (EXPERIMENT h ''e2e_write_num_blocks''
                  (\<lambda>csv. experiment_e2e_write_num_blocks csv 1 110 num_trials) x) (\<lambda>x.
         bind_r (EXPERIMENT h ''e2e_write_num_files_100bl''
                  (\<lambda>csv. experiment_e2e_write_num_files csv 1 50 100 num_trials) x) (\<lambda>x.
           EXPERIMENT h ''e2e_write_num_files_10bl''
                  (\<lambda>csv. experiment_e2e_write_num_files csv 1 50 10 num_trials) x)))))"

section \<open>The performance test program\<close>

text \<open>\<open>test_write\<close> returns nothing on its last path, and no caller looks at what it returns.\<close>

definition test_write :: "ptr \<Rightarrow> byte list \<Rightarrow> byte list \<Rightarrow> int \<Rightarrow> 'd world \<Rightarrow> 'd world res" where
  "test_write dir filename buf sz w =
     bind_r (testfs_create_file_or_dir dir I_FILE (Some filename) w) (\<lambda>(ret, w).
     if ret < 0 then Inr w
     else
       bind_r (testfs_dir_name_to_inode_nr dir (Some filename) w) (\<lambda>inode_nr.
       if inode_nr < 0 then Inr w
       else
         bind_r (testfs_get_inode inode_nr w) (\<lambda>(ino, w).
         bind_r (on_fs (testfs_tx_start TX_WRITE) w) (\<lambda>w.
         bind_r (write_data ino 0 buf sz w) (\<lambda>(_, w).
         bind_r (sync_inode ino w) (\<lambda>w.
         bind_r (on_fs (testfs_tx_commit TX_WRITE) w) (\<lambda>w.
           testfs_put_inode ino w)))))))"

text \<open>One directory with \<open>m\<close> files; \<open>junk\<close> is what the uninitialised array \<open>file\<close> holds.\<close>

definition perf_round ::
    "byte list \<Rightarrow> int \<Rightarrow> nat \<Rightarrow> byte list \<Rightarrow> cmd_context \<times> 'd world \<Rightarrow> (cmd_context \<times> 'd world) res" where
  "perf_round data sz m junk = (\<lambda>(c, w).
     bind_r (c_string junk) (\<lambda>name.
     bind_r (testfs_create_file_or_dir (cur_dir c) I_DIR (Some name) w) (\<lambda>(_, w).
     bind_r (testfs_dir_name_to_inode_nr (cur_dir c) (Some name) w) (\<lambda>inode_nr.
     bind_r (testfs_get_inode inode_nr w) (\<lambda>(dir_inode, w).
     bind_r (testfs_put_inode (cur_dir c) w) (\<lambda>w.
     bind_r (fold_r (\<lambda>j. test_write dir_inode (decimal j) data sz) [0 ..< m] w) (\<lambda>w.
     bind_r (testfs_get_inode 0 w) (\<lambda>(root, w).
     bind_r (testfs_put_inode dir_inode w) (\<lambda>w.
       Inr (c\<lparr>cur_dir := root\<rparr>, w))))))))))"

text \<open>
  The context is \<open>malloc\<close>ed and not initialised: \<open>cur_dir\<close> is the indeterminate \<open>junk_dir\<close> when \<open>cmd_mkfs\<close> reads it.
  The program ends with \<open>dev_stop\<close>.
\<close>

definition perf_main ::
    "host \<Rightarrow> ptr \<Rightarrow> (nat \<Rightarrow> byte list) \<Rightarrow> bench \<Rightarrow> 'd world \<Rightarrow> (bench \<times> 'd world) res" where
  "perf_main h junk_dir junk b w =
     bind_r (cmd_mkfs \<lparr>nargs = 0, cmd = [], cur_dir = junk_dir\<rparr> w) (\<lambda>(_, c, w).
     bind_r (the_r NullDeref (bench_read_file h (of_str ''cmake_install.cmake''))) (\<lambda>(data, sz).
     case gettimeofday b of (t0, b) \<Rightarrow>
       bind_r (fold_r (\<lambda>i. perf_round data (int_of_size sz) 100 (junk i)) [0 ..< 100] (c, w)) (\<lambda>(c, w).
       case gettimeofday b of (t1, b) \<Rightarrow>
         Inr (b, print (PerfReport (100 * 100)
           (d_add (d_of_int (fst t1 - fst t0)) (d_mul (round_double 1 1000000) (d_of_int (snd t1 - snd t0))))) w))))"

end
