(* ===== verification/Startup.thy ===== *)
theory Startup
  imports Block
begin

text \<open>
  \<open>src/device.c\<close>: bringing the device up.  The main reactor opens the block device and sends one
  request to each reactor, which acquires an I/O channel and reports back; the last report sends the
  request that runs the program (\<open>app_start\<close>).  The reactors run concurrently: every lcore polls its
  own queue of requests (\<open>send_request\<close> of \<open>src/async.c\<close>), and the main reactor polls it only when
  \<open>start\<close> has returned.  \<open>startup_step\<close> is one move of one reactor; the loop of \<open>init_reactors\<close> makes
  one move per round, so the others run in between.

  SPDK is a parameter: \<open>spdk\<close> has what its calls return.  Handles are addresses, 0 is NULL; a call
  on NULL is the fault \<open>NullDeref\<close>.
\<close>

section \<open>State\<close>

type_synonym handle = nat

record spdk =
  spdk_bdev_first :: handle
  spdk_bdev_get_block_size :: "handle \<Rightarrow> nat"
  spdk_bdev_get_name :: "handle \<Rightarrow> handle"
  spdk_bdev_open :: "handle \<Rightarrow> int \<times> handle"
  spdk_bdev_get_buf_align :: "handle \<Rightarrow> nat"
  spdk_bdev_get_io_channel :: "nat \<Rightarrow> handle \<Rightarrow> handle"
  spdk_get_thread :: "nat \<Rightarrow> handle"

record bdev_context =
  bdev :: handle
  bdev_desc :: handle
  bdev_name :: handle
  buf_align :: nat

record reactor_context =
  rc_lcore :: nat
  io_channel :: handle

text \<open>The options of \<open>spdk_app_start\<close> that \<open>dev_init\<close> sets.\<close>

record spdk_app_opts =
  opt_name :: string
  opt_config_file :: string
  opt_reactor_mask :: nat

text \<open>A request: the function and the index of the reactor its context names.\<close>

datatype task = AcquireIoChannels nat | InitReactorsComplete | AppStart

datatype startup_event =
    CouldNotGetBdev
  | CouldNotOpenBdev handle
  | BdevInitFinished handle
  | LogBlockSize nat
  | LogReactor nat handle handle
  | LogStartFinished
  | PutIoChannel handle
  | BdevClose handle
  | AppStop int

text \<open>
  \<open>outstanding_requests\<close> is None when the completion context has been freed; \<open>next_reactor\<close> is where
  the loop of \<open>init_reactors\<close> is; \<open>app_starts\<close> counts the calls of \<open>app_start\<close>.
\<close>

record startup =
  su_opts :: spdk_app_opts
  bdev_ctx :: bdev_context
  reactors :: "reactor_context list"
  outstanding_requests :: "nat option"
  next_reactor :: nat
  su_queues :: "nat \<Rightarrow> task list"
  app_starts :: nat
  su_trace :: "startup_event list"

definition log_event :: "startup_event \<Rightarrow> startup \<Rightarrow> startup" where
  "log_event e s = s\<lparr>su_trace := su_trace s @ [e]\<rparr>"

section \<open>The functions of \<open>device.c\<close>\<close>

definition send_request :: "nat \<Rightarrow> task \<Rightarrow> startup \<Rightarrow> startup" where
  "send_request lcore t s = s\<lparr>su_queues := (su_queues s)(lcore := su_queues s lcore @ [t])\<rparr>"

text \<open>\<open>spdk_app_stop\<close> only asks the framework to stop: the function goes on after it.\<close>

definition init_bdev :: "spdk \<Rightarrow> startup \<Rightarrow> startup res" where
  "init_bdev sp s =
     (let dev = spdk_bdev_first sp;
          s = s\<lparr>bdev_ctx := (bdev_ctx s)\<lparr>bdev := dev\<rparr>\<rparr>;
          s = (if dev = 0 then log_event (AppStop (- 1)) (log_event CouldNotGetBdev s) else s)
      in bind_r (check_r NullDeref (dev \<noteq> 0)) (\<lambda>_.
         let s = log_event (LogBlockSize (spdk_bdev_get_block_size sp dev)) s;
             s = s\<lparr>bdev_ctx := (bdev_ctx s)\<lparr>bdev_name := spdk_bdev_get_name sp dev, bdev_desc := 0\<rparr>\<rparr>
         in case spdk_bdev_open sp dev of (rc, desc) \<Rightarrow>
            let s = (if rc \<noteq> 0
                     then log_event (AppStop (- 1)) (log_event (CouldNotOpenBdev (bdev_name (bdev_ctx s))) s)
                     else s\<lparr>bdev_ctx := (bdev_ctx s)\<lparr>bdev_desc := desc\<rparr>\<rparr>);
                s = s\<lparr>bdev_ctx := (bdev_ctx s)\<lparr>buf_align := spdk_bdev_get_buf_align sp dev\<rparr>\<rparr>
            in Inr (log_event (BdevInitFinished (bdev_name (bdev_ctx s))) s)))"

definition init_reactors_complete :: "startup \<Rightarrow> startup res" where
  "init_reactors_complete s =
     bind_r (the_r UseAfterFree (outstanding_requests s)) (\<lambda>n.
       let n = size_of_int (int n - 1); s = s\<lparr>outstanding_requests := Some n\<rparr>
       in if n \<noteq> 0 then Inr s
          else
            let s = log_event LogStartFinished s;
                s = send_request (rc_lcore (reactors s ! MAIN_REACTOR)) AppStart s
            in Inr (s\<lparr>outstanding_requests := None\<rparr>))"

definition acquire_io_channels :: "spdk \<Rightarrow> nat \<Rightarrow> nat \<Rightarrow> startup \<Rightarrow> startup res" where
  "acquire_io_channels sp lcore i s =
     bind_r (check_r NullDeref (bdev_desc (bdev_ctx s) \<noteq> 0)) (\<lambda>_.
       let ch = spdk_bdev_get_io_channel sp lcore (bdev_desc (bdev_ctx s));
           s = s\<lparr>reactors := (reactors s)[i := (reactors s ! i)\<lparr>io_channel := ch\<rparr>]\<rparr>;
           s = log_event (LogReactor (rc_lcore (reactors s ! i)) ch (spdk_get_thread sp lcore)) s
       in Inr (send_request (rc_lcore (reactors s ! MAIN_REACTOR)) InitReactorsComplete s))"

text \<open>One round of the loop of \<open>init_reactors\<close>.\<close>

definition init_reactor :: "startup \<Rightarrow> startup" where
  "init_reactor s =
     (let i = next_reactor s;
          s = s\<lparr>reactors := (reactors s)[i := (reactors s ! i)\<lparr>rc_lcore := i\<rparr>]\<rparr>;
          s = send_request (rc_lcore (reactors s ! i)) (AcquireIoChannels i) s
      in s\<lparr>next_reactor := Suc i\<rparr>)"

text \<open>
  \<open>start\<close> up to the loop of \<open>init_reactors\<close>: the new \<open>filesystem\<close> (\<open>malloc\<close>ed, here with zeros in its
  fields) and the completion context.
\<close>

definition start :: "spdk \<Rightarrow> spdk_app_opts \<Rightarrow> startup res" where
  "start sp opts =
     init_bdev sp \<lparr>su_opts = opts, bdev_ctx = \<lparr>bdev = 0, bdev_desc = 0, bdev_name = 0, buf_align = 0\<rparr>,
       reactors = replicate NUM_REACTORS \<lparr>rc_lcore = 0, io_channel = 0\<rparr>, outstanding_requests = Some NUM_REACTORS,
       next_reactor = 0, su_queues = (\<lambda>_. []), app_starts = 0, su_trace = []\<rparr>"

text \<open>
  \<open>spdk_app_start\<close> runs \<open>start\<close> on the first lcore of the mask, which is the main reactor.  The file name
  \<open>f\<close> is not used.
\<close>

definition dev_init :: "spdk \<Rightarrow> byte list \<Rightarrow> startup res" where
  "dev_init sp f = start sp \<lparr>opt_name = ''hello_world'', opt_config_file = ''config.conf'', opt_reactor_mask = 7\<rparr>"

definition dev_stop :: "startup \<Rightarrow> startup" where
  "dev_stop s =
     (let s = fold (\<lambda>i. log_event (PutIoChannel (io_channel (reactors s ! i)))) [0 ..< NUM_REACTORS] s
      in log_event (AppStop 0) (log_event (BdevClose (bdev_desc (bdev_ctx s))) s))"

section \<open>The reactors\<close>

definition run_task :: "spdk \<Rightarrow> nat \<Rightarrow> task \<Rightarrow> startup \<Rightarrow> startup res" where
  "run_task sp lcore t s =
     (case t of
        AcquireIoChannels i \<Rightarrow> acquire_io_channels sp lcore i s
      | InitReactorsComplete \<Rightarrow> init_reactors_complete s
      | AppStart \<Rightarrow> Inr (s\<lparr>app_starts := Suc (app_starts s)\<rparr>))"

definition in_start :: "nat \<Rightarrow> startup \<Rightarrow> bool" where
  "in_start lcore s \<longleftrightarrow> lcore = MAIN_REACTOR \<and> next_reactor s < NUM_REACTORS"

definition can_move :: "nat \<Rightarrow> startup \<Rightarrow> bool" where
  "can_move lcore s \<longleftrightarrow> bit (opt_reactor_mask (su_opts s)) lcore \<and> (in_start lcore s \<or> su_queues s lcore \<noteq> [])"

definition move :: "spdk \<Rightarrow> nat \<Rightarrow> startup \<Rightarrow> startup res" where
  "move sp lcore s =
     (if in_start lcore s then Inr (init_reactor s)
      else case su_queues s lcore of
             [] \<Rightarrow> Inr s
           | t # ts \<Rightarrow> run_task sp lcore t (s\<lparr>su_queues := (su_queues s)(lcore := ts)\<rparr>))"

inductive startup_step :: "spdk \<Rightarrow> startup \<Rightarrow> startup \<Rightarrow> bool" for sp where
  reactor: "can_move lcore s \<Longrightarrow> move sp lcore s = Inr s' \<Longrightarrow> startup_step sp s s'"

inductive startup_run :: "spdk \<Rightarrow> startup \<Rightarrow> nat \<Rightarrow> startup \<Rightarrow> bool" for sp s where
  none: "startup_run sp s 0 s"
| step: "startup_run sp s n t \<Longrightarrow> startup_step sp t u \<Longrightarrow> startup_run sp s (Suc n) u"

section \<open>The invariant of the start-up\<close>

text \<open>
  The requests that are pending: every reactor the loop has reached has its acquisition pending or its
  channel; the channels acquired are the reports pending and the reports made.
\<close>

definition acquiring :: "startup \<Rightarrow> nat" where
  "acquiring s = (\<Sum>i < 3. count_list (su_queues s i) (AcquireIoChannels i))"

definition reporting :: "startup \<Rightarrow> nat" where
  "reporting s = count_list (su_queues s 0) InitReactorsComplete"

definition expected_reports :: "startup \<Rightarrow> nat" where
  "expected_reports s = (case outstanding_requests s of None \<Rightarrow> 0 | Some n \<Rightarrow> n)"

definition tasks_of :: "nat \<Rightarrow> task set" where
  "tasks_of lcore = (if lcore = 0 then {AcquireIoChannels 0, InitReactorsComplete, AppStart}
     else if lcore < 3 then {AcquireIoChannels lcore} else {})"

definition startup_ok :: "spdk \<Rightarrow> handle \<Rightarrow> startup \<Rightarrow> bool" where
  "startup_ok sp d s \<longleftrightarrow> d \<noteq> 0 \<and> opt_reactor_mask (su_opts s) = 7 \<and> bdev_desc (bdev_ctx s) = d \<and>
     length (reactors s) = 3 \<and> next_reactor s \<le> 3 \<and> (\<forall>i < next_reactor s. rc_lcore (reactors s ! i) = i) \<and>
     (\<forall>r. set (su_queues s r) \<subseteq> tasks_of r) \<and>
     (\<forall>i < 3. count_list (su_queues s i) (AcquireIoChannels i) \<le> (if i < next_reactor s then 1 else 0)) \<and>
     (\<forall>i < next_reactor s. AcquireIoChannels i \<notin> set (su_queues s i) \<longrightarrow>
        io_channel (reactors s ! i) = spdk_bdev_get_io_channel sp i d) \<and>
     expected_reports s + next_reactor s = 3 + reporting s + acquiring s \<and> outstanding_requests s \<noteq> Some 0 \<and>
     expected_reports s \<le> 3 \<and>
     count_list (su_queues s 0) AppStart + app_starts s = (if outstanding_requests s = None then 1 else 0)"

text \<open>What is left to do; every move does one unit of it.\<close>

definition work :: "startup \<Rightarrow> nat" where
  "work s = 3 * (3 - next_reactor s) + 2 * acquiring s + reporting s +
     count_list (su_queues s 0) AppStart + (if outstanding_requests s = None then 0 else 1)"

lemma lessThan_3: "{..< 3 :: nat} = {0, 1, 2}"
  by auto

lemma mask_lcores: "bit (7 :: nat) r \<longleftrightarrow> r < 3"
proof -
  have "(7 :: nat) = mask 3" by (simp add: mask_eq_exp_minus_1)
  then show ?thesis by (simp only: bit_mask_iff) simp
qed

lemma less_3_cases: "r < 3 \<Longrightarrow> (r = 0 \<Longrightarrow> P 0) \<Longrightarrow> (r = 1 \<Longrightarrow> P 1) \<Longrightarrow> (r = 2 \<Longrightarrow> P 2) \<Longrightarrow> P (r :: nat)"
  by (auto simp: less_Suc_eq numeral_eq_Suc)

lemma startup_okD:
  assumes "startup_ok sp d s"
  shows "d \<noteq> 0" "opt_reactor_mask (su_opts s) = 7" "bdev_desc (bdev_ctx s) = d" "length (reactors s) = 3"
    "next_reactor s \<le> 3" "i < next_reactor s \<Longrightarrow> rc_lcore (reactors s ! i) = i" "set (su_queues s r) \<subseteq> tasks_of r"
    "i < 3 \<Longrightarrow> count_list (su_queues s i) (AcquireIoChannels i) \<le> (if i < next_reactor s then 1 else 0)"
    "i < next_reactor s \<Longrightarrow> AcquireIoChannels i \<notin> set (su_queues s i) \<Longrightarrow>
       io_channel (reactors s ! i) = spdk_bdev_get_io_channel sp i d"
    "expected_reports s + next_reactor s = 3 + reporting s + acquiring s" "outstanding_requests s \<noteq> Some 0"
    "count_list (su_queues s 0) AppStart + app_starts s = (if outstanding_requests s = None then 1 else 0)"
    "expected_reports s \<le> 3"
  using assms unfolding startup_ok_def by blast+

text \<open>Where an acquisition is pending.\<close>

lemma acquiring_eq: "acquiring s = count_list (su_queues s 0) (AcquireIoChannels 0) +
    count_list (su_queues s 1) (AcquireIoChannels 1) + count_list (su_queues s 2) (AcquireIoChannels 2)"
  by (simp add: acquiring_def lessThan_3)

lemma acquiring_upd:
  assumes "r < 3" "su_queues s' = (su_queues s)(r := q)"
  shows "acquiring s' + count_list (su_queues s r) (AcquireIoChannels r) =
    acquiring s + count_list q (AcquireIoChannels r)"
  using assms(1) by (rule less_3_cases) (simp_all add: acquiring_eq assms(2))

lemma move_init:
  assumes ok: "startup_ok sp d s" and i: "next_reactor s < 3"
  shows "startup_ok sp d (init_reactor s) \<and> work s = Suc (work (init_reactor s))"
proof -
  note o = startup_okD [OF ok]
  define i where "i = next_reactor s"
  let ?s = "init_reactor s"
  have i3: "i < 3" and l: "length (reactors s) = 3" using i o(4) by (simp_all add: i_def)
  have q: "su_queues ?s = (su_queues s)(i := su_queues s i @ [AcquireIoChannels i])"
    and r: "reactors ?s = (reactors s)[i := (reactors s ! i)\<lparr>rc_lcore := i\<rparr>]"
    and n: "next_reactor ?s = Suc i" "outstanding_requests ?s = outstanding_requests s" "bdev_ctx ?s = bdev_ctx s"
      "su_opts ?s = su_opts s" "app_starts ?s = app_starts s"
    using i3 l by (simp_all add: init_reactor_def Let_def send_request_def i_def)
  have no: "count_list (su_queues s i) (AcquireIoChannels i) = 0" using o(8) [OF i3] by (simp add: i_def)
  have a: "acquiring ?s = Suc (acquiring s)" using acquiring_upd [OF i3 q] by simp
  have c: "reporting ?s = reporting s" "count_list (su_queues ?s 0) AppStart = count_list (su_queues s 0) AppStart"
    by (simp_all add: reporting_def q)
  have "set (su_queues ?s j) \<subseteq> tasks_of j" for j using o(7) [of j] i3 by (auto simp: q tasks_of_def)
  moreover have "count_list (su_queues ?s j) (AcquireIoChannels j) \<le> (if j < next_reactor ?s then 1 else 0)" if "j < 3" for j
    using o(8) [OF that] no by (auto simp: q n i_def split: if_splits)
  moreover have "io_channel (reactors ?s ! j) = spdk_bdev_get_io_channel sp j d"
    if "j < next_reactor ?s" "AcquireIoChannels j \<notin> set (su_queues ?s j)" for j
    using o(9) [of j] that by (auto simp: q r n i_def less_Suc_eq split: if_splits)
  moreover have "rc_lcore (reactors ?s ! j) = j" if "j < next_reactor ?s" for j
    using o(6) [of j] that i3 l by (auto simp: r n i_def less_Suc_eq nth_list_update)
  ultimately have "startup_ok sp d ?s"
    unfolding startup_ok_def using o(1-4,10-13) i3 a c by (simp add: n r expected_reports_def) (simp add: i_def)
  moreover have "work s = Suc (work ?s)" using a c i3 by (simp add: work_def n) (simp add: i_def)
  ultimately show ?thesis ..
qed

text \<open>The three requests, when the main reactor knows its lcore.\<close>

lemma send_simps [simp]:
  "su_queues (send_request c t s) = (su_queues s)(c := su_queues s c @ [t])" "reactors (send_request c t s) = reactors s"
  "next_reactor (send_request c t s) = next_reactor s" "bdev_ctx (send_request c t s) = bdev_ctx s"
  "outstanding_requests (send_request c t s) = outstanding_requests s" "app_starts (send_request c t s) = app_starts s"
  "su_opts (send_request c t s) = su_opts s"
  by (simp_all add: send_request_def)

lemma log_simps [simp]:
  "su_queues (log_event e s) = su_queues s" "reactors (log_event e s) = reactors s"
  "next_reactor (log_event e s) = next_reactor s" "bdev_ctx (log_event e s) = bdev_ctx s"
  "outstanding_requests (log_event e s) = outstanding_requests s" "app_starts (log_event e s) = app_starts s"
  "su_opts (log_event e s) = su_opts s"
  by (simp_all add: log_event_def)

lemma move_acquire:
  assumes ok: "startup_ok sp d s" and q: "su_queues s r = AcquireIoChannels i # ts" and out: "\<not> in_start r s"
  shows "\<exists>s'. move sp r s = Inr s' \<and> startup_ok sp d s' \<and> work s = Suc (work s')"
proof -
  note o = startup_okD [OF ok]
  have ri: "i = r" "r < 3" using o(7) [of r] q by (auto simp: tasks_of_def split: if_splits)
  have cnt: "count_list (su_queues s r) (AcquireIoChannels r) = 1" "r < next_reactor s"
    using o(8) [OF ri(2)] by (auto simp: q ri(1) split: if_splits)
  then have ts: "AcquireIoChannels r \<notin> set ts" by (auto simp: q ri(1) count_list_0_iff)
  have m0: "rc_lcore (reactors s ! 0) = 0" using o(6) [of 0] cnt(2) by simp
  define ch where "ch = spdk_bdev_get_io_channel sp r d"
  define R where "R = (reactors s)[r := (reactors s ! r)\<lparr>io_channel := ch\<rparr>]"
  define Q where "Q = (su_queues s)(r := ts)"
  obtain s' where s': "move sp r s = Inr s'" "reactors s' = R" "su_queues s' = Q(0 := Q 0 @ [InitReactorsComplete])"
    "next_reactor s' = next_reactor s" "outstanding_requests s' = outstanding_requests s" "bdev_ctx s' = bdev_ctx s"
    "su_opts s' = su_opts s" "app_starts s' = app_starts s"
    using out q o(1,3,4) m0 ri by (auto simp: move_def run_task_def acquire_io_channels_def Let_def R_def Q_def ch_def nth_list_update)
  have a: "acquiring s = Suc (acquiring s')"
  proof -
    have "acquiring s' = acquiring (s\<lparr>su_queues := Q\<rparr>)" by (simp add: acquiring_eq s'(3))
    then show ?thesis using acquiring_upd [OF ri(2), of "s\<lparr>su_queues := Q\<rparr>" s ts] cnt ts by (simp add: Q_def)
  qed
  have c: "reporting s' = Suc (reporting s)" "count_list (su_queues s' 0) AppStart = count_list (su_queues s 0) AppStart"
    using q by (auto simp: reporting_def s'(3) Q_def ri(1))
  have "set (su_queues s' j) \<subseteq> tasks_of j" for j
    using o(7) [of j] o(7) [of r] q by (auto simp: s'(3) Q_def tasks_of_def split: if_splits)
  moreover have "count_list (su_queues s' j) (AcquireIoChannels j) \<le> (if j < next_reactor s' then 1 else 0)" if "j < 3" for j
    using o(8) [OF that] ts by (auto simp: s'(3,4) Q_def count_list_0_iff q ri(1) split: if_splits)
  moreover have "io_channel (reactors s' ! j) = spdk_bdev_get_io_channel sp j d"
    if j: "j < next_reactor s'" "AcquireIoChannels j \<notin> set (su_queues s' j)" for j
  proof (cases "j = r")
    case True
    then show ?thesis using ri(2) o(4) by (simp add: s'(2) R_def ch_def)
  next
    case False
    then show ?thesis using o(9) [of j] j by (auto simp: s'(2-4) R_def Q_def split: if_splits)
  qed
  moreover have "rc_lcore (reactors s' ! j) = j" if "j < next_reactor s'" for j
    using o(6) [of j] that o(4,5) by (cases "j = r") (simp_all add: s'(2,4) R_def)
  ultimately have "startup_ok sp d s'"
    unfolding startup_ok_def using o(1-5,10-13) a c by (simp add: s'(2,4-8) R_def expected_reports_def)
  moreover have "work s = Suc (work s')" using a c by (simp add: work_def s'(4,5))
  ultimately show ?thesis using s'(1) by blast
qed

lemma move_report:
  assumes ok: "startup_ok sp d s" and q: "su_queues s r = InitReactorsComplete # ts" and out: "\<not> in_start r s"
  shows "\<exists>s'. move sp r s = Inr s' \<and> startup_ok sp d s' \<and> work s = Suc (work s')"
proof -
  note o = startup_okD [OF ok]
  have r: "r = 0" using o(7) [of r] q by (auto simp: tasks_of_def split: if_splits)
  have n3: "next_reactor s = 3" using out o(5) r by (simp add: in_start_def)
  have m0: "rc_lcore (reactors s ! 0) = 0" using o(6) [of 0] n3 by simp
  have rep: "reporting s = Suc (count_list ts InitReactorsComplete)" using q r by (simp add: reporting_def)
  obtain n where n: "outstanding_requests s = Some (Suc n)"
    using o(10,11) n3 rep by (cases "outstanding_requests s") (auto simp: expected_reports_def gr0_conv_Suc)
  then have n2: "size_of_int (int (Suc n) - 1) = n" using o(13) by (simp add: expected_reports_def)
  define Q where "Q = (su_queues s)(0 := ts)"
  obtain s' where s': "move sp r s = Inr s'" "reactors s' = reactors s"
    "su_queues s' = Q(0 := ts @ (if n = 0 then [AppStart] else []))" "next_reactor s' = next_reactor s"
    "outstanding_requests s' = (if n = 0 then None else Some n)" "bdev_ctx s' = bdev_ctx s"
    "su_opts s' = su_opts s" "app_starts s' = app_starts s"
    using out q m0 n n2 by (cases "n = 0") (auto simp: move_def run_task_def init_reactors_complete_def Let_def Q_def r)
  have a: "acquiring s' = acquiring s" using q by (simp add: acquiring_eq s'(3) Q_def r)
  have c: "reporting s = Suc (reporting s')"
    "count_list (su_queues s' 0) AppStart = count_list (su_queues s 0) AppStart + (if n = 0 then 1 else 0)"
    using rep q by (simp_all add: reporting_def s'(3) Q_def r)
  have e: "expected_reports s = Suc (expected_reports s')" by (simp add: expected_reports_def n s'(5))
  have "set (su_queues s' j) \<subseteq> tasks_of j" for j
    using o(7) [of j] o(7) [of 0] q by (auto simp: s'(3) Q_def tasks_of_def r split: if_splits)
  moreover have "count_list (su_queues s' j) (AcquireIoChannels j) \<le> (if j < next_reactor s' then 1 else 0)" if "j < 3" for j
    using o(8) [OF that] q by (auto simp: s'(3,4) Q_def r split: if_splits)
  moreover have "io_channel (reactors s' ! j) = spdk_bdev_get_io_channel sp j d"
    if "j < next_reactor s'" "AcquireIoChannels j \<notin> set (su_queues s' j)" for j
    using o(9) [of j] that q by (auto simp: s'(2-4) Q_def r split: if_splits)
  ultimately have "startup_ok sp d s'"
    unfolding startup_ok_def using o(1-6,10-13) a c e n by (simp add: s'(2,4-8))
  moreover have "work s = Suc (work s')" using a c n by (simp add: work_def s'(4,5))
  ultimately show ?thesis using s'(1) by blast
qed

lemma move_app_start:
  assumes ok: "startup_ok sp d s" and q: "su_queues s r = AppStart # ts" and out: "\<not> in_start r s"
  shows "\<exists>s'. move sp r s = Inr s' \<and> startup_ok sp d s' \<and> work s = Suc (work s')"
proof -
  note o = startup_okD [OF ok]
  have r: "r = 0" using o(7) [of r] q by (auto simp: tasks_of_def split: if_splits)
  let ?s = "s\<lparr>su_queues := (su_queues s)(0 := ts), app_starts := Suc (app_starts s)\<rparr>"
  have "move sp r s = Inr ?s" using out q by (simp add: move_def run_task_def r)
  moreover have c: "acquiring ?s = acquiring s" "reporting ?s = reporting s"
    "count_list (su_queues s 0) AppStart = Suc (count_list ts AppStart)"
    using q by (simp_all add: acquiring_eq reporting_def r)
  moreover have "set (su_queues ?s j) \<subseteq> tasks_of j" for j
    using o(7) [of j] q by (auto simp: r)
  moreover have "count_list (su_queues ?s j) (AcquireIoChannels j) \<le> (if j < next_reactor ?s then 1 else 0)" if "j < 3" for j
    using o(8) [OF that] q by (auto simp: r split: if_splits)
  moreover have "io_channel (reactors ?s ! j) = spdk_bdev_get_io_channel sp j d"
    if "j < next_reactor ?s" "AcquireIoChannels j \<notin> set (su_queues ?s j)" for j
    using o(9) [of j] that q by (auto simp: r split: if_splits)
  moreover have "startup_ok sp d ?s"
    unfolding startup_ok_def using o(1-6,10-13) calculation by (simp add: expected_reports_def)
  moreover have "work s = Suc (work ?s)" using c by (simp add: work_def)
  ultimately show ?thesis by blast
qed

lemma move_ok:
  assumes "startup_ok sp d s" "can_move r s"
  shows "\<exists>s'. move sp r s = Inr s' \<and> startup_ok sp d s' \<and> work s = Suc (work s')"
proof (cases "in_start r s")
  case True
  then show ?thesis using move_init [OF assms(1)] by (simp add: move_def in_start_def)
next
  case False
  then obtain t ts where q: "su_queues s r = t # ts"
    using assms(2) by (cases "su_queues s r") (auto simp: can_move_def)
  show ?thesis
    using move_acquire [OF assms(1)] move_report [OF assms(1)] move_app_start [OF assms(1)] q False by (cases t) blast+
qed

lemma startup_step_ok:
  assumes "startup_step sp s s'" "startup_ok sp d s"
  shows "startup_ok sp d s' \<and> work s = Suc (work s')"
  using assms
proof (induction rule: startup_step.induct)
  case (reactor r s s')
  then show ?case using move_ok [of sp d s r] by auto
qed

lemma startup_run_ok:
  assumes "startup_run sp s n s'" "startup_ok sp d s"
  shows "startup_ok sp d s' \<and> work s = n + work s'"
  using assms
proof (induction rule: startup_run.induct)
  case (step n t u)
  then show ?case using startup_step_ok [of sp t u d] by simp
qed simp

text \<open>When nobody can move, all the work is done.\<close>

lemma startup_quiet:
  assumes ok: "startup_ok sp d s" and q: "\<And>r. \<not> can_move r s"
  shows "app_starts s = 1 \<and> work s = 0"
proof -
  note o = startup_okD [OF ok]
  have e: "su_queues s r = []" "\<not> in_start r s" if "r < 3" for r
    using q [of r] that o(2) mask_lcores [of r] by (auto simp: can_move_def)
  then have n: "next_reactor s = 3" using o(5) e(2) [of 0] by (simp add: in_start_def)
  have "acquiring s = 0" "reporting s = 0" using e(1) by (simp_all add: acquiring_eq reporting_def)
  moreover from this have "outstanding_requests s = None"
    using o(10,11) n by (cases "outstanding_requests s") (simp_all add: expected_reports_def)
  ultimately show ?thesis using o(12) e(1) [of 0] n by (simp add: work_def)
qed

text \<open>Once the program has been started or its start is pending, all channels are there.\<close>

lemma startup_channels:
  assumes ok: "startup_ok sp d s" and st: "0 < app_starts s" and i: "i < 3"
  shows "io_channel (reactors s ! i) = spdk_bdev_get_io_channel sp i d" "rc_lcore (reactors s ! i) = i"
proof -
  note o = startup_okD [OF ok]
  have "outstanding_requests s = None" using st o(12) by (cases "outstanding_requests s") simp_all
  then have n: "next_reactor s = 3" "acquiring s = 0" using o(5,10) by (simp_all add: expected_reports_def)
  moreover have "i = 0 \<or> i = 1 \<or> i = 2" using i by auto
  ultimately have "count_list (su_queues s i) (AcquireIoChannels i) = 0" by (auto simp: acquiring_eq)
  then show "io_channel (reactors s ! i) = spdk_bdev_get_io_channel sp i d" "rc_lcore (reactors s ! i) = i"
    using o(6,9) [of i] n i by (simp_all add: count_list_0_iff)
qed

lemma startup_run_prepend:
  "startup_run sp t n u \<Longrightarrow> startup_step sp s t \<Longrightarrow> startup_run sp s (Suc n) u"
proof (induction rule: startup_run.induct)
  case none
  then show ?case using startup_run.step [OF startup_run.none] by blast
next
  case (step n v u)
  then show ?case using startup_run.step by blast
qed

lemma startup_finishes:
  "startup_ok sp d s \<Longrightarrow> \<exists>s'. startup_run sp s (work s) s' \<and> startup_ok sp d s' \<and> (\<forall>r. \<not> can_move r s')"
proof (induction "work s" arbitrary: s rule: less_induct)
  case less
  show ?case
  proof (cases "\<exists>r. can_move r s")
    case True
    then obtain r s' where s': "can_move r s" "move sp r s = Inr s'" "startup_ok sp d s'" "work s = Suc (work s')"
      using move_ok [OF less.prems] by blast
    then obtain u where "startup_run sp s' (work s') u" "startup_ok sp d u" "\<forall>r. \<not> can_move r u"
      using less.hyps [of s'] by auto
    then show ?thesis using startup_run_prepend startup_step.reactor [OF s'(1,2)] s'(4) by metis
  next
    case False
    then have "work s = 0" using startup_quiet [OF less.prems] by simp
    then show ?thesis using less.prems False startup_run.none by metis
  qed
qed

lemma dev_init_ok:
  assumes "spdk_bdev_first sp \<noteq> 0" "spdk_bdev_open sp (spdk_bdev_first sp) = (0, d)" "d \<noteq> 0"
  shows "\<exists>s. dev_init sp f = Inr s \<and> startup_ok sp d s \<and> work s = 10"
  using assms
  by (simp add: dev_init_def start_def init_bdev_def Let_def startup_ok_def work_def acquiring_eq reporting_def expected_reports_def)

text \<open>
  Without a device the error is reported and the framework asked to stop, but \<open>init_bdev\<close> goes on and
  dereferences the NULL device; if the device cannot be opened, the first reactor to run passes a NULL
  descriptor to \<open>spdk_bdev_get_io_channel\<close>.
\<close>

lemma startup_without_device: "spdk_bdev_first sp = 0 \<Longrightarrow> dev_init sp f = Inl NullDeref"
  by (simp add: dev_init_def start_def init_bdev_def Let_def)

lemma startup_open_fails:
  assumes "spdk_bdev_first sp \<noteq> 0" "spdk_bdev_open sp (spdk_bdev_first sp) = (rc, d)" "rc \<noteq> 0"
  shows "\<exists>s. dev_init sp f = Inr s \<and> move sp 1 (init_reactor (init_reactor s)) = Inl NullDeref"
proof -
  obtain s where s: "dev_init sp f = Inr s" "bdev_desc (bdev_ctx s) = 0" "next_reactor s = 0" "length (reactors s) = 3"
    "su_queues s = (\<lambda>_. [])"
    using assms by (simp add: dev_init_def start_def init_bdev_def Let_def)
  have i: "bdev_desc (bdev_ctx (init_reactor t)) = bdev_desc (bdev_ctx t)" "next_reactor (init_reactor t) = Suc (next_reactor t)"
    "length (reactors (init_reactor t)) = length (reactors t)"
    "next_reactor t < length (reactors t) \<Longrightarrow> su_queues (init_reactor t) =
       (su_queues t)(next_reactor t := su_queues t (next_reactor t) @ [AcquireIoChannels (next_reactor t)])" for t
    by (simp_all add: init_reactor_def Let_def)
  show ?thesis using s by (simp add: move_def in_start_def run_task_def acquire_io_channels_def i)
qed

section \<open>Property\<close>

text \<open>
  C18.  Bringing the device up ends well in every interleaving of the reactors: no reactor faults, every run
  has at most ten moves, the program is started at most once and not before every reactor has its I/O channel, and
  when no reactor can move it has been started.  Such a run exists, and \<open>dev_stop\<close> then releases the
  three channels before it closes the device and stops.
\<close>

theorem startup_correct:
  assumes "spdk_bdev_first sp \<noteq> 0" "spdk_bdev_open sp (spdk_bdev_first sp) = (0, d)" "d \<noteq> 0"
  shows "\<exists>s0. dev_init sp f = Inr s0 \<and>
    (\<forall>n s. startup_run sp s0 n s \<longrightarrow> n \<le> 10 \<and> app_starts s \<le> 1 \<and> (\<forall>r. can_move r s \<longrightarrow> (\<exists>s'. move sp r s = Inr s')) \<and>
       (app_starts s = 1 \<longrightarrow> map io_channel (reactors s) = map (\<lambda>i. spdk_bdev_get_io_channel sp i d) [0 ..< 3] \<and>
          su_trace (dev_stop s) = su_trace s @ map (\<lambda>i. PutIoChannel (spdk_bdev_get_io_channel sp i d)) [0 ..< 3] @
            [BdevClose d, AppStop 0]) \<and>
       ((\<forall>r. \<not> can_move r s) \<longrightarrow> app_starts s = 1)) \<and>
    (\<exists>s. startup_run sp s0 10 s \<and> app_starts s = 1)"
proof -
  obtain s0 where s0: "dev_init sp f = Inr s0" "startup_ok sp d s0" "work s0 = 10" using dev_init_ok [OF assms] by blast
  have ch: "map io_channel (reactors s) = map (\<lambda>i. spdk_bdev_get_io_channel sp i d) [0 ..< 3]"
    "su_trace (dev_stop s) = su_trace s @ map (\<lambda>i. PutIoChannel (spdk_bdev_get_io_channel sp i d)) [0 ..< 3] @
            [BdevClose d, AppStop 0]" if ok: "startup_ok sp d s" "app_starts s = 1" for s
  proof -
    note o = startup_okD [OF ok(1)]
    have c: "io_channel (reactors s ! i) = spdk_bdev_get_io_channel sp i d" if "i < 3" for i
      using startup_channels(1) [OF ok(1) _ that] ok(2) by simp
    show "map io_channel (reactors s) = map (\<lambda>i. spdk_bdev_get_io_channel sp i d) [0 ..< 3]"
      by (rule nth_equalityI) (use o(4) c in simp_all)
    show "su_trace (dev_stop s) = su_trace s @ map (\<lambda>i. PutIoChannel (spdk_bdev_get_io_channel sp i d)) [0 ..< 3] @
            [BdevClose d, AppStop 0]"
      using c o(3) by (simp add: dev_stop_def Let_def upt_rec) (simp add: log_event_def)
  qed
  have "n \<le> 10 \<and> app_starts s \<le> 1 \<and> (\<forall>r. can_move r s \<longrightarrow> (\<exists>s'. move sp r s = Inr s')) \<and> startup_ok sp d s"
    if run: "startup_run sp s0 n s" for n s
  proof -
    have s: "startup_ok sp d s" "10 = n + work s" using startup_run_ok [OF run s0(2)] s0(3) by simp_all
    then show ?thesis using startup_okD(12) [OF s(1)] move_ok [OF s(1)] by (auto split: if_splits)
  qed
  moreover obtain s where "startup_run sp s0 10 s" "startup_ok sp d s" "\<forall>r. \<not> can_move r s"
    using startup_finishes [OF s0(2)] s0(3) by auto
  ultimately show ?thesis using s0(1) ch startup_quiet by (intro exI [of _ s0]) blast
qed

definition sample_spdk :: spdk where
  "sample_spdk = \<lparr>spdk_bdev_first = 1, spdk_bdev_get_block_size = (\<lambda>_. 512), spdk_bdev_get_name = (\<lambda>_. 2),
     spdk_bdev_open = (\<lambda>_. (0, 3)), spdk_bdev_get_buf_align = (\<lambda>_. 64),
     spdk_bdev_get_io_channel = (\<lambda>lcore d. 10 * d + lcore), spdk_get_thread = (\<lambda>lcore. 20 + lcore)\<rparr>"

theorem startup_correct_witness:
  "\<exists>s0 s. dev_init sample_spdk [] = Inr s0 \<and> startup_run sample_spdk s0 10 s \<and> app_starts s = 1 \<and>
     map io_channel (reactors s) = [30, 31, 32]"
proof -
  have "spdk_bdev_first sample_spdk \<noteq> 0" "spdk_bdev_open sample_spdk (spdk_bdev_first sample_spdk) = (0, 3)" "(3 :: nat) \<noteq> 0"
    by (simp_all add: sample_spdk_def)
  note startup_correct [OF this]
  then obtain s0 s where s: "dev_init sample_spdk [] = Inr s0" "startup_run sample_spdk s0 10 s" "app_starts s = 1"
    "map io_channel (reactors s) = map (\<lambda>i. spdk_bdev_get_io_channel sample_spdk i 3) [0 ..< 3]"
    by blast
  then show ?thesis by (intro exI [of _ s0] exI [of _ s]) (simp add: sample_spdk_def upt_rec)
qed

end
