(* ===== verification/Shell.thy ===== *)
theory Shell
  imports Bench Startup
begin

text \<open>
  \<open>src/testfs.c\<close>: the command table, the tokeniser of command lines, the guard that refuses most
  commands while no file system exists, and the main loop.

  Parameters are the fuel of the recursive walks, the completion schedules of \<open>write\<close> and the indeterminate value
  that \<open>export\<close> and \<open>run-experiments\<close> return.
\<close>

definition str :: "string \<Rightarrow> byte list" where
  "str s = map of_char s"

datatype command =
    Help | Mkfs | Cd | Pwd | Ls | Lsr | Touch | Stat | Rm | Mkdir | Cat | Catr | Write | Export | Owrite
  | Import | Checkfs | Bench | RunExperiments | Quit

abbreviation (input) "MAX_ARGS \<equiv> (5 :: nat)"

definition cmdtable :: "(byte list \<times> command \<times> nat) list" where
  "cmdtable =
     [(str ''?'', Help, 1), (str ''mkfs'', Mkfs, 2), (str ''cd'', Cd, 2), (str ''pwd'', Pwd, 1),
      (str ''ls'', Ls, 2), (str ''lsr'', Lsr, 2), (str ''touch'', Touch, MAX_ARGS),
      (str ''stat'', Stat, MAX_ARGS), (str ''rm'', Rm, 2), (str ''mkdir'', Mkdir, 2),
      (str ''cat'', Cat, MAX_ARGS), (str ''catr'', Catr, 2), (str ''write'', Write, 2),
      (str ''export'', Export, 2), (str ''owrite'', Owrite, 3), (str ''import'', Import, 2),
      (str ''checkfs'', Checkfs, 1), (str ''bench'', Bench, MAX_ARGS),
      (str ''run-experiments'', RunExperiments, MAX_ARGS), (str ''quit'', Quit, 1)]"

definition non_fs_commands :: "byte list list" where
  "non_fs_commands = [str ''?'', str ''quit'', str ''mkfs'', str ''bench'', str ''run-experiments'']"

record 'd shell =
  sh_world :: "'d world"
  sh_ctx :: cmd_context
  sh_host :: host
  sh_bench :: bench
  sh_can_quit :: bool

record env =
  e_fuel :: nat
  e_sched1 :: "nat list"
  e_sched2 :: "nat list"
  e_junk :: int

definition fs_exists :: "cmd_context \<Rightarrow> 'd world \<Rightarrow> bool res" where
  "fs_exists c w = bind_r (testfs_inode_get_type (cur_dir c) w) (\<lambda>type. Inr (type = I_DIR))"

definition can_execute_command :: "cmd_context \<Rightarrow> byte list \<Rightarrow> 'd world \<Rightarrow> bool res" where
  "can_execute_command c command w =
     bind_r (fs_exists c w) (\<lambda>ex. Inr (ex \<or> command \<in> set non_fs_commands))"

definition cmd_help :: "cmd_context \<Rightarrow> 'd world \<Rightarrow> (int \<times> cmd_context \<times> 'd world) res" where
  "cmd_help c w =
     Inr (0, c, fold (\<lambda>(name, _, _). print (HelpEntry name)) cmdtable (print HelpHeader w))"

text \<open>The function pointers of the table.\<close>

definition with_world :: "(int \<times> cmd_context \<times> 'd world) res \<Rightarrow> 'd shell \<Rightarrow> (int \<times> 'd shell) res" where
  "with_world r sh = bind_r r (\<lambda>(ret, c, w). Inr (ret, sh\<lparr>sh_world := w, sh_ctx := c\<rparr>))"

definition cmd_quit :: "'d shell \<Rightarrow> (int \<times> 'd shell) res" where
  "cmd_quit sh = Inr (0, sh\<lparr>sh_world := print Bye (sh_world sh), sh_can_quit := True\<rparr>)"

definition run_command :: "env \<Rightarrow> command \<Rightarrow> 'd shell \<Rightarrow> (int \<times> 'd shell) res" where
  "run_command e command sh =
     (let c = sh_ctx sh; w = sh_world sh in
      case command of
        Help \<Rightarrow> with_world (cmd_help c w) sh
      | Mkfs \<Rightarrow> with_world (cmd_mkfs c w) sh
      | Cd \<Rightarrow> with_world (cmd_cd c w) sh
      | Pwd \<Rightarrow> with_world (cmd_pwd (e_fuel e) c w) sh
      | Ls \<Rightarrow> with_world (cmd_ls (e_fuel e) c w) sh
      | Lsr \<Rightarrow> with_world (cmd_lsr (e_fuel e) c w) sh
      | Touch \<Rightarrow> with_world (cmd_create c w) sh
      | Stat \<Rightarrow> with_world (cmd_stat c w) sh
      | Rm \<Rightarrow> with_world (cmd_rm c w) sh
      | Mkdir \<Rightarrow> with_world (cmd_mkdir c w) sh
      | Cat \<Rightarrow> with_world (cmd_cat c w) sh
      | Catr \<Rightarrow> with_world (cmd_catr (e_fuel e) c w) sh
      | Write \<Rightarrow> with_world (cmd_write (e_sched1 e) (e_sched2 e) c w) sh
      | Export \<Rightarrow> bind_r (cmd_export (sh_host sh) c w) (\<lambda>(ret, c, w, h).
          Inr (case ret of None \<Rightarrow> e_junk e | Some r \<Rightarrow> r, sh\<lparr>sh_world := w, sh_ctx := c, sh_host := h\<rparr>))
      | Owrite \<Rightarrow> with_world (cmd_owrite c w) sh
      | Import \<Rightarrow> with_world (cmd_import (sh_host sh) c w) sh
      | Checkfs \<Rightarrow> with_world (cmd_checkfs (e_fuel e) c w) sh
      | Bench \<Rightarrow> bind_r (cmd_benchmark (sh_host sh) c (sh_bench sh) w) (\<lambda>(ret, c, b, w).
          Inr (ret, sh\<lparr>sh_world := w, sh_ctx := c, sh_bench := b\<rparr>))
      | RunExperiments \<Rightarrow> bind_r (cmd_experiment (sh_host sh) c (sh_bench sh) w) (\<lambda>(c, b, w).
          Inr (e_junk e, sh\<lparr>sh_world := w, sh_ctx := c, sh_bench := b\<rparr>))
      | Quit \<Rightarrow> cmd_quit sh)"

section \<open>Command lines\<close>

text \<open>
  \<open>strtok(s, delims)\<close>: the token and what the next call with NULL goes on with; a call with NULL
  goes on with \<open>saved\<close>.
\<close>

definition strtok :: "cstr \<Rightarrow> byte list \<Rightarrow> byte list \<Rightarrow> cstr \<times> byte list" where
  "strtok s delims saved =
     (let rest = dropWhile (\<lambda>b. b \<in> set delims) (case s of None \<Rightarrow> saved | Some s \<Rightarrow> s)
      in if rest = [] then (None, [])
         else (Some (takeWhile (\<lambda>b. b \<notin> set delims) rest), drop 1 (dropWhile (\<lambda>b. b \<notin> set delims) rest)))"

definition blanks :: "byte list" where "blanks = [32, 9, 10]"
definition newline :: "byte list" where "newline = [10]"

text \<open>The \<open>while\<close> loop that splits off the arguments: \<open>j\<close>, \<open>token\<close>, the saved position and \<open>c->cmd\<close>.\<close>

function split_args :: "nat \<Rightarrow> nat \<Rightarrow> cstr \<Rightarrow> byte list \<Rightarrow> cstr list \<Rightarrow> (nat \<times> cstr \<times> byte list \<times> cstr list) res" where
  "split_args max_args j token saved argv =
     (if j < max_args then
        (case strtok token blanks saved of (t, saved) \<Rightarrow>
           bind_r (nth_r argv (int j)) (\<lambda>_.
             if t = None then Inr (j, token, saved, argv[j := t])
             else split_args max_args (Suc j) None saved (argv[j := t])))
      else Inr (j, token, saved, argv))"
  by pat_completeness auto
termination
  by (relation "measure (\<lambda>(max_args, j, token, saved, argv). max_args - j)") auto

declare split_args.simps [simp del]

text \<open>Splitting \<open>args\<close> of a command with \<open>max_args\<close>: the last argument takes the rest of the line.\<close>

definition parse_args :: "nat \<Rightarrow> cstr \<Rightarrow> byte list \<Rightarrow> cmd_context \<Rightarrow> cmd_context res" where
  "parse_args max_args args saved c =
     bind_r (split_args max_args 1 args saved (cmd c)) (\<lambda>(j, token, saved, argv).
     case strtok token newline saved of (t, _) \<Rightarrow>
       bind_r (nth_r argv (int j)) (\<lambda>_.
         let argv = argv[j := t]; j = (if t \<noteq> None then Suc j else j)
         in Inr (c\<lparr>nargs := int j,
                   cmd := take (Suc j) argv @ replicate (MAX_ARGS - j) None\<rparr>)))"

definition handle_command :: "env \<Rightarrow> cstr \<Rightarrow> cstr \<Rightarrow> byte list \<Rightarrow> 'd shell \<Rightarrow> 'd shell res" where
  "handle_command e name args saved sh =
     (case name of None \<Rightarrow> Inr sh
      | Some nm \<Rightarrow>
        bind_r (nth_r (cmd (sh_ctx sh)) 0) (\<lambda>_.
        let sh = sh\<lparr>sh_ctx := (sh_ctx sh)\<lparr>cmd := (cmd (sh_ctx sh))[0 := Some nm]\<rparr>\<rparr>
        in case map_of cmdtable nm of
             None \<Rightarrow> Inr (sh\<lparr>sh_world := print (CommandNotFound nm) (sh_world sh)\<rparr>)
           | Some (command, max_args) \<Rightarrow>
               bind_r (can_execute_command (sh_ctx sh) nm (sh_world sh)) (\<lambda>can.
                 if \<not> can then Inr (sh\<lparr>sh_world := print (FsDoesNotExist nm) (sh_world sh)\<rparr>)
                 else
                   bind_r (parse_args max_args args saved (sh_ctx sh)) (\<lambda>c.
                   bind_r (run_command e command (sh\<lparr>sh_ctx := c\<rparr>)) (\<lambda>(ret, sh).
                     if ret < 0 then
                       bind_r (cmd_arg (sh_ctx sh) 0) (\<lambda>nm.
                       bind_r (the_r NullDeref nm) (\<lambda>nm.
                         Inr (sh\<lparr>sh_world := print (Warning nm (- ret)) (sh_world sh)\<rparr>)))
                     else Inr sh)))))"

section \<open>The main loop\<close>

definition run_line :: "env \<Rightarrow> byte list \<Rightarrow> 'd shell \<Rightarrow> 'd shell res" where
  "run_line e line sh =
     (let sh = sh\<lparr>sh_world := print (CommandEcho line) (sh_world sh)\<rparr>
      in case strtok (Some line) blanks [] of (name, saved) \<Rightarrow>
         case strtok None newline saved of (args, saved) \<Rightarrow>
           handle_command e name args saved sh)"

fun main_loop :: "env \<Rightarrow> byte list list \<Rightarrow> 'd shell \<Rightarrow> 'd shell res" where
  "main_loop e [] sh = Inr sh"
| "main_loop e (line # lines) sh =
     bind_r (run_line e line sh) (\<lambda>sh. if sh_can_quit sh then Inr sh else main_loop e lines sh)"

definition testfs_main :: "env \<Rightarrow> host \<Rightarrow> bench \<Rightarrow> byte list list \<Rightarrow> 'd world \<Rightarrow> 'd shell res" where
  "testfs_main e h b lines w =
     bind_r (testfs_init_super_block w) (\<lambda>(ret, w).
     bind_r (exit_if (ret \<noteq> 0)) (\<lambda>_.
     bind_r (testfs_get_inode 0 w) (\<lambda>(dir, w).
     bind_r (main_loop e lines
               \<lparr>sh_world = w, sh_ctx = \<lparr>nargs = 0, cmd = replicate (MAX_ARGS + 1) None, cur_dir = dir\<rparr>,
                sh_host = h, sh_bench = b, sh_can_quit = False\<rparr>) (\<lambda>sh.
     bind_r (fs_exists (sh_ctx sh) (sh_world sh)) (\<lambda>file_system_exists.
     bind_r (testfs_put_inode (cur_dir (sh_ctx sh)) (sh_world sh)) (\<lambda>w.
     bind_r (if file_system_exists then testfs_close_super_block w else Inr w) (\<lambda>w.
       Inr (sh\<lparr>sh_world := w\<rparr>))))))))"

section \<open>Starting the program\<close>

text \<open>
  \<open>getopt_long\<close> is the C library's: \<open>codes\<close> are its results up to the -1, \<open>optind\<close> what it leaves.
  \<open>usage\<close> ends the program, and so does \<open>abort\<close>, which is the fault of a failed \<open>assert\<close> here.
\<close>

record args =
  disk :: "byte list"
  corrupt :: int

fun parse_options :: "int list \<Rightarrow> args \<Rightarrow> args res" where
  "parse_options [] a = Inr a"
| "parse_options (code # codes) a =
     (if code = 0 then parse_options codes a
      else if code = 99 then parse_options codes (a\<lparr>corrupt := 1\<rparr>)
      else if code = 104 \<or> code = 63 then Inl ExitCall
      else Inl AssertFail)"

definition parse_arguments :: "int list \<Rightarrow> int \<Rightarrow> byte list list \<Rightarrow> args res" where
  "parse_arguments codes optind argv =
     bind_r (parse_options codes \<lparr>disk = [], corrupt = 0\<rparr>) (\<lambda>a.
       if int (length argv) - optind = 1
       then bind_r (nth_r argv optind) (\<lambda>d. Inr (a\<lparr>disk := d\<rparr>))
       else Inr (a\<lparr>disk := str ''/tmp/file''\<rparr>))"

text \<open>The program runs as \<open>app_start\<close> when the device is up; neither the file nor \<open>corrupt\<close> is used.\<close>

definition main :: "spdk \<Rightarrow> int list \<Rightarrow> int \<Rightarrow> byte list list \<Rightarrow> startup res" where
  "main sp codes optind argv =
     bind_r (parse_arguments codes optind argv) (\<lambda>a. dev_init sp (disk a))"

end
