(* ===== verification/HList.thy ===== *)
theory HList
  imports Prelude
begin

text \<open>
  \<open>src/include/list.h\<close>: the intrusive lists, on a heap of nodes.  A heap maps the address of a node
  to its pointer fields; address 0 is NULL.  \<open>dlist h head xs\<close> says that the circular doubly linked
  list at \<open>head\<close> has the nodes \<open>xs\<close>, \<open>hlist h head xs\<close> the same for the lists with a
  single-pointer head, which make up the chains of the inode hash table.  Every operation refines
  the corresponding operation on \<open>xs\<close> and leaves lists on other nodes alone.
\<close>

type_synonym node = nat

section \<open>Circular doubly linked lists\<close>

record list_heap =
  l_next :: "node \<Rightarrow> node"
  l_prev :: "node \<Rightarrow> node"

definition set_next :: "node \<Rightarrow> node \<Rightarrow> list_heap \<Rightarrow> list_heap" where
  "set_next p q h = h\<lparr>l_next := (l_next h)(p := q)\<rparr>"

definition set_prev :: "node \<Rightarrow> node \<Rightarrow> list_heap \<Rightarrow> list_heap" where
  "set_prev p q h = h\<lparr>l_prev := (l_prev h)(p := q)\<rparr>"

text \<open>Reading and writing a field; through NULL it is a fault.\<close>

definition get_next :: "node \<Rightarrow> list_heap \<Rightarrow> node res" where
  "get_next p h = bind_r (check_r NullDeref (p \<noteq> 0)) (\<lambda>_. Inr (l_next h p))"

definition get_prev :: "node \<Rightarrow> list_heap \<Rightarrow> node res" where
  "get_prev p h = bind_r (check_r NullDeref (p \<noteq> 0)) (\<lambda>_. Inr (l_prev h p))"

definition put_next :: "node \<Rightarrow> node \<Rightarrow> list_heap \<Rightarrow> list_heap res" where
  "put_next p q h = bind_r (check_r NullDeref (p \<noteq> 0)) (\<lambda>_. Inr (set_next p q h))"

definition put_prev :: "node \<Rightarrow> node \<Rightarrow> list_heap \<Rightarrow> list_heap res" where
  "put_prev p q h = bind_r (check_r NullDeref (p \<noteq> 0)) (\<lambda>_. Inr (set_prev p q h))"

lemma field_ok [simp]:
  "p \<noteq> 0 \<Longrightarrow> get_next p h = Inr (l_next h p)" "p \<noteq> 0 \<Longrightarrow> get_prev p h = Inr (l_prev h p)"
  "p \<noteq> 0 \<Longrightarrow> put_next p q h = Inr (set_next p q h)" "p \<noteq> 0 \<Longrightarrow> put_prev p q h = Inr (set_prev p q h)"
  by (simp_all add: get_next_def get_prev_def put_next_def put_prev_def)

definition INIT_LIST_HEAD :: "node \<Rightarrow> list_heap \<Rightarrow> list_heap res" where
  "INIT_LIST_HEAD l h = bind_r (put_next l l h) (put_prev l l)"

definition list_add_between :: "node \<Rightarrow> node \<Rightarrow> node \<Rightarrow> list_heap \<Rightarrow> list_heap res" where
  "list_add_between new prev nxt h =
     bind_r (put_prev nxt new h) (\<lambda>h.
     bind_r (put_next new nxt h) (\<lambda>h.
     bind_r (put_prev new prev h) (\<lambda>h. put_next prev new h)))"

definition list_add :: "node \<Rightarrow> node \<Rightarrow> list_heap \<Rightarrow> list_heap res" where
  "list_add new head h = bind_r (get_next head h) (\<lambda>nxt. list_add_between new head nxt h)"

definition list_add_tail :: "node \<Rightarrow> node \<Rightarrow> list_heap \<Rightarrow> list_heap res" where
  "list_add_tail new head h = bind_r (get_prev head h) (\<lambda>prev. list_add_between new prev head h)"

definition list_del_between :: "node \<Rightarrow> node \<Rightarrow> list_heap \<Rightarrow> list_heap res" where
  "list_del_between prev nxt h = bind_r (put_prev nxt prev h) (\<lambda>h. put_next prev nxt h)"

definition list_del :: "node \<Rightarrow> list_heap \<Rightarrow> list_heap res" where
  "list_del entry h =
     bind_r (get_prev entry h) (\<lambda>prev.
     bind_r (assert_r (prev \<noteq> 0)) (\<lambda>_.
     bind_r (get_next entry h) (\<lambda>nxt.
     bind_r (assert_r (nxt \<noteq> 0)) (\<lambda>_.
     bind_r (list_del_between prev nxt h) (\<lambda>h.
     bind_r (put_prev entry 0 h) (\<lambda>h. put_next entry 0 h))))))"

definition list_replace :: "node \<Rightarrow> node \<Rightarrow> list_heap \<Rightarrow> list_heap res" where
  "list_replace old new h =
     bind_r (get_next old h) (\<lambda>nxt.
     bind_r (put_next new nxt h) (\<lambda>h.
     bind_r (get_next new h) (\<lambda>nxt.
     bind_r (put_prev nxt new h) (\<lambda>h.
     bind_r (get_prev old h) (\<lambda>prev.
     bind_r (put_prev new prev h) (\<lambda>h.
     bind_r (get_prev new h) (\<lambda>prev. put_next prev new h)))))))"

definition list_is_last :: "node \<Rightarrow> node \<Rightarrow> list_heap \<Rightarrow> bool res" where
  "list_is_last l head h = bind_r (get_next l h) (\<lambda>nxt. Inr (nxt = head))"

definition list_empty :: "node \<Rightarrow> list_heap \<Rightarrow> bool res" where
  "list_empty head h = bind_r (get_next head h) (\<lambda>nxt. Inr (nxt = head))"

definition list_is_singular :: "node \<Rightarrow> list_heap \<Rightarrow> bool res" where
  "list_is_singular head h =
     bind_r (list_empty head h) (\<lambda>empty.
       if empty then Inr False
       else bind_r (get_next head h) (\<lambda>nxt. bind_r (get_prev head h) (\<lambda>prev. Inr (nxt = prev))))"

definition list_cut_between :: "node \<Rightarrow> node \<Rightarrow> node \<Rightarrow> list_heap \<Rightarrow> list_heap res" where
  "list_cut_between l head entry h =
     bind_r (get_next entry h) (\<lambda>new_first.
     bind_r (get_next head h) (\<lambda>first.
     bind_r (put_next l first h) (\<lambda>h.
     bind_r (get_next l h) (\<lambda>first.
     bind_r (put_prev first l h) (\<lambda>h.
     bind_r (put_prev l entry h) (\<lambda>h.
     bind_r (put_next entry l h) (\<lambda>h.
     bind_r (put_next head new_first h) (\<lambda>h. put_prev new_first head h))))))))"

definition list_cut_position :: "node \<Rightarrow> node \<Rightarrow> node \<Rightarrow> list_heap \<Rightarrow> list_heap res" where
  "list_cut_position l head entry h =
     bind_r (list_empty head h) (\<lambda>empty.
       if empty then Inr h
       else
         bind_r (list_is_singular head h) (\<lambda>singular.
         bind_r (get_next head h) (\<lambda>first.
           if singular \<and> first \<noteq> entry \<and> head \<noteq> entry then Inr h
           else if entry = head then INIT_LIST_HEAD l h
           else list_cut_between l head entry h)))"

definition list_splice_between :: "node \<Rightarrow> node \<Rightarrow> node \<Rightarrow> list_heap \<Rightarrow> list_heap res" where
  "list_splice_between l prev nxt h =
     bind_r (get_next l h) (\<lambda>first.
     bind_r (get_prev l h) (\<lambda>last.
     bind_r (put_prev first prev h) (\<lambda>h.
     bind_r (put_next prev first h) (\<lambda>h.
     bind_r (put_next last nxt h) (\<lambda>h. put_prev nxt last h)))))"

definition list_splice :: "node \<Rightarrow> node \<Rightarrow> list_heap \<Rightarrow> list_heap res" where
  "list_splice l head h =
     bind_r (list_empty l h) (\<lambda>empty.
       if empty then Inr h else bind_r (get_next head h) (\<lambda>nxt. list_splice_between l head nxt h))"

definition list_splice_tail :: "node \<Rightarrow> node \<Rightarrow> list_heap \<Rightarrow> list_heap res" where
  "list_splice_tail l head h =
     bind_r (list_empty l h) (\<lambda>empty.
       if empty then Inr h else bind_r (get_prev head h) (\<lambda>prev. list_splice_between l prev head h))"

section \<open>Rings\<close>

text \<open>
  The nodes of a circular list in the order of the \<open>next\<close> pointers.  A ring can be entered anywhere,
  so an operation needs to be understood at one position only.
\<close>

definition ring :: "list_heap \<Rightarrow> node list \<Rightarrow> bool" where
  "ring h xs \<longleftrightarrow> distinct xs \<and> 0 \<notin> set xs \<and>
     map (l_next h) xs = rotate1 xs \<and> map (l_prev h) (rotate1 xs) = xs"

definition dlist :: "list_heap \<Rightarrow> node \<Rightarrow> node list \<Rightarrow> bool" where
  "dlist h head xs \<longleftrightarrow> ring h (head # xs)"

lemma set_simps [simp]:
  "l_next (set_next p q h) = (l_next h)(p := q)" "l_prev (set_next p q h) = l_prev h"
  "l_prev (set_prev p q h) = (l_prev h)(p := q)" "l_next (set_prev p q h) = l_next h"
  by (simp_all add: set_next_def set_prev_def)

lemma ring_rotate1: "ring h (rotate1 xs) \<longleftrightarrow> ring h xs"
proof -
  have inj: "rotate1 xs = rotate1 ys \<Longrightarrow> xs = ys" for xs ys :: "node list"
    by (cases xs; cases ys) auto
  have "map f (rotate1 xs) = rotate1 ys \<longleftrightarrow> map f xs = ys" for f :: "node \<Rightarrow> node" and ys
    by (metis inj rotate1_map)
  then have "map (l_next h) (rotate1 xs) = rotate1 (rotate1 xs) \<longleftrightarrow> map (l_next h) xs = rotate1 xs"
    "map (l_prev h) (rotate1 (rotate1 xs)) = rotate1 xs \<longleftrightarrow> map (l_prev h) (rotate1 xs) = xs"
    by (metis inj rotate1_map)+
  then show ?thesis by (simp add: ring_def)
qed

lemma ring_rotate: "ring h (xs @ ys) \<Longrightarrow> ring h (ys @ xs)"
proof (induction xs arbitrary: ys)
  case (Cons x xs)
  then have "ring h (xs @ (ys @ [x]))" using ring_rotate1 [of h "x # xs @ ys"] by simp
  from Cons.IH [OF this] show ?case by simp
qed simp

lemma ring_Cons:
  "ring h (a # b # xs) \<longleftrightarrow>
     distinct (a # b # xs) \<and> 0 \<notin> set (a # b # xs) \<and> l_next h a = b \<and> l_prev h b = a \<and>
     map (l_next h) (b # xs) = xs @ [a] \<and> map (l_prev h) (xs @ [a]) = b # xs"
  by (auto simp: ring_def)

lemma ring_frame:
  assumes "\<And>x. x \<in> set xs \<Longrightarrow> l_next h' x = l_next h x \<and> l_prev h' x = l_prev h x"
  shows "ring h' xs = ring h xs"
proof -
  have "map (l_next h') xs = map (l_next h) xs" "map (l_prev h') (rotate1 xs) = map (l_prev h) (rotate1 xs)"
    using assms by simp_all
  then show ?thesis unfolding ring_def by (simp only:)
qed

lemma ring_nonzero:
  assumes "ring h (a # vs)"
  shows "a \<noteq> 0" "hd (vs @ [a]) \<noteq> 0" "last (a # vs) \<noteq> 0"
proof -
  show "a \<noteq> 0" "hd (vs @ [a]) \<noteq> 0" using assms by (cases vs; auto simp: ring_def)+
  show "last (a # vs) \<noteq> 0" using assms last_in_set [of "a # vs"] unfolding ring_def by (metis list.distinct(1))
qed

lemma ring_insert:
  assumes "ring h (a # vs)" "n \<notin> set (a # vs)" "n \<noteq> 0"
  obtains h' where "list_add_between n a (hd (vs @ [a])) h = Inr h'" "ring h' (a # n # vs)"
    "\<And>x. x \<notin> set (n # a # vs) \<Longrightarrow> l_next h' x = l_next h x \<and> l_prev h' x = l_prev h x"
proof
  note nz = ring_nonzero [OF assms(1)]
  let ?h = "set_next a n (set_prev n a (set_next n (hd (vs @ [a])) (set_prev (hd (vs @ [a])) n h)))"
  show "list_add_between n a (hd (vs @ [a])) h = Inr ?h" using nz assms(3) by (simp add: list_add_between_def)
  show "ring ?h (a # n # vs)" using assms by (cases vs) (auto simp: ring_def)
  have "hd (vs @ [a]) \<in> set (a # vs)" by (cases vs) simp_all
  then show "l_next ?h x = l_next h x \<and> l_prev ?h x = l_prev h x" if "x \<notin> set (n # a # vs)" for x
    using that by auto
qed

lemma ring_remove:
  assumes "ring h (a # x # vs)"
  obtains h' where "list_del_between a (hd (vs @ [a])) h = Inr h'" "ring h' (a # vs)"
    "l_prev h x = a" "l_next h x = hd (vs @ [a])"
proof
  have "a \<noteq> 0" "hd (vs @ [a]) \<noteq> 0" using assms by (cases vs; auto simp: ring_def)+
  then show "list_del_between a (hd (vs @ [a])) h = Inr (set_next a (hd (vs @ [a])) (set_prev (hd (vs @ [a])) a h))"
    by (simp add: list_del_between_def)
qed (use assms in \<open>cases vs; auto simp: ring_def\<close>)+

lemma ring_ends:
  assumes "ring h (a # vs)"
  shows "l_next h a = hd (vs @ [a])" "l_prev h a = last (a # vs)"
proof -
  show "l_next h a = hd (vs @ [a])" using assms by (cases vs) (auto simp: ring_def)
  show "l_prev h a = last (a # vs)"
    using assms by (cases vs rule: rev_cases) (auto simp: ring_def)
qed

section \<open>What the operations do to the lists\<close>

lemma dlist_init: "l \<noteq> 0 \<Longrightarrow> \<exists>h'. INIT_LIST_HEAD l h = Inr h' \<and> dlist h' l []"
  by (simp add: dlist_def ring_def INIT_LIST_HEAD_def)

lemma dlist_head: "dlist h head xs \<Longrightarrow> head \<noteq> 0"
  by (simp add: dlist_def ring_def)

lemma list_empty_iff: "dlist h head xs \<Longrightarrow> list_empty head h = Inr (xs = [])"
  using ring_ends(1) [of h head xs] by (cases xs) (auto simp: list_empty_def dlist_def ring_def)

lemma list_is_singular_iff:
  assumes "dlist h head xs"
  shows "list_is_singular head h = Inr (length xs = 1)"
proof (cases xs)
  case (Cons x ys)
  note e = ring_ends [OF assms [unfolded dlist_def]]
  have "x = last (x # ys) \<longleftrightarrow> ys = []"
    using assms Cons by (cases ys rule: rev_cases) (auto simp: dlist_def ring_def)
  then show ?thesis using e Cons list_empty_iff [OF assms] dlist_head [OF assms] by (simp add: list_is_singular_def)
qed (use list_empty_iff [OF assms] in \<open>simp add: list_is_singular_def\<close>)

lemma list_is_last_iff:
  assumes "dlist h head (us @ x # vs)"
  shows "list_is_last x head h = Inr (vs = [])"
proof -
  have "ring h ((x # vs) @ head # us)" using assms ring_rotate [of h "head # us" "x # vs"] by (simp add: dlist_def)
  then have "l_next h x = hd (vs @ head # us @ [x])" using ring_ends(1) [of h x "vs @ head # us"] by simp
  then show ?thesis using assms by (cases vs) (auto simp: list_is_last_def dlist_def ring_def)
qed

lemma dlist_add:
  assumes "dlist h head xs" "n \<notin> set (head # xs)" "n \<noteq> 0"
  shows "\<exists>h'. list_add n head h = Inr h' \<and> dlist h' head (n # xs)"
proof -
  have r: "ring h (head # xs)" using assms(1) by (simp add: dlist_def)
  obtain h' where "list_add_between n head (hd (xs @ [head])) h = Inr h'" "ring h' (head # n # xs)"
    using ring_insert [OF r assms(2,3)] by blast
  then show ?thesis using ring_ends(1) [OF r] dlist_head [OF assms(1)] by (simp add: dlist_def list_add_def)
qed

lemma dlist_add_tail:
  assumes "dlist h head xs" "n \<notin> set (head # xs)" "n \<noteq> 0"
  shows "\<exists>h'. list_add_tail n head h = Inr h' \<and> dlist h' head (xs @ [n])"
proof -
  define a where "a = last (head # xs)"
  define us where "us = butlast (head # xs)"
  have eq: "head # xs = us @ [a]" by (simp add: a_def us_def)
  have r: "ring h (a # us)" using assms(1) ring_rotate [of h us "[a]"] by (simp add: dlist_def eq)
  have hd: "hd (us @ [a]) = head" by (simp only: eq [symmetric]) simp
  obtain h' where h': "list_add_between n a head h = Inr h'" "ring h' (a # n # us)"
    using ring_insert [OF r, of n] assms(2,3) hd unfolding eq by auto
  then have "ring h' (us @ [a, n])" using ring_rotate [of _ "[a, n]" us] by simp
  moreover have "us @ [a, n] = head # xs @ [n]" using eq by simp
  moreover have "l_prev h head = a" using ring_ends(2) [of h head xs] assms(1) by (simp add: dlist_def a_def)
  ultimately show ?thesis using h'(1) dlist_head [OF assms(1)] by (simp add: dlist_def list_add_tail_def)
qed

lemma ring_at:
  assumes "dlist h head (us @ x # vs)"
  obtains a ws where "ring h (a # x # ws)" "head # us = butlast (head # us) @ [a]"
    "ws = vs @ butlast (head # us)" "set (a # x # ws) = set (head # us @ x # vs)"
proof
  let ?a = "last (head # us)" and ?p = "butlast (head # us)"
  show eq: "head # us = ?p @ [?a]" by (rule append_butlast_last_id [symmetric]) simp
  then have all: "head # us @ x # vs = ?p @ (?a # x # vs)" by (metis append.assoc append_Cons append_Nil)
  have "ring h (?p @ ?a # x # vs)" using assms unfolding dlist_def all .
  from ring_rotate [OF this] show "ring h (?a # x # (vs @ ?p))" by (simp only: append_Cons)
  show "set (?a # x # (vs @ ?p)) = set (head # us @ x # vs)" unfolding all by auto
qed simp

text \<open>Back from the rotated ring to the list.\<close>

lemma dlist_back:
  assumes "ring h (a # ys @ butlast (head # us))" "head # us = butlast (head # us) @ [a]"
  shows "dlist h head (us @ ys)"
proof -
  have "ring h (butlast (head # us) @ a # ys)" using assms(1) ring_rotate [of h "a # ys"] by simp
  moreover have "butlast (head # us) @ a # ys = head # us @ ys"
    using assms(2) by (metis append.assoc append_Cons append_Nil)
  ultimately show ?thesis unfolding dlist_def by (simp only:)
qed

lemma dlist_del:
  assumes "dlist h head (us @ x # vs)"
  shows "\<exists>h'. list_del x h = Inr h' \<and> dlist h' head (us @ vs) \<and> l_next h' x = 0 \<and> l_prev h' x = 0"
proof -
  obtain a ws where r: "ring h (a # x # ws)" and hd: "head # us = butlast (head # us) @ [a]"
    and ws: "ws = vs @ butlast (head # us)" using assms by (rule ring_at)
  obtain h1 where h1: "list_del_between a (hd (ws @ [a])) h = Inr h1" "ring h1 (a # ws)"
    "l_prev h x = a" "l_next h x = hd (ws @ [a])" using r by (rule ring_remove)
  have nz: "a \<noteq> 0" "hd (ws @ [a]) \<noteq> 0" "x \<noteq> 0" "x \<notin> set (a # ws)"
    using r by (cases ws; auto simp: ring_def)+
  let ?h' = "set_next x 0 (set_prev x 0 h1)"
  have "ring ?h' (a # ws) = ring h1 (a # ws)" by (rule ring_frame) (use nz(4) in auto)
  then have "ring ?h' (a # vs @ butlast (head # us))" using h1(2) ws by simp
  then have "dlist ?h' head (us @ vs)" using hd by (rule dlist_back)
  then show ?thesis using h1 nz by (simp add: list_del_def)
qed

lemma dlist_replace:
  assumes "dlist h head (us @ x # vs)" "n \<notin> set (head # us @ x # vs)" "n \<noteq> 0"
  shows "\<exists>h'. list_replace x n h = Inr h' \<and> dlist h' head (us @ n # vs)"
proof -
  obtain a ws where r: "ring h (a # x # ws)" and hd: "head # us = butlast (head # us) @ [a]"
    and ws: "ws = vs @ butlast (head # us)" and st: "set (a # x # ws) = set (head # us @ x # vs)"
    using assms(1) by (rule ring_at)
  have n: "n \<notin> set (a # x # ws)" using assms(2) st by simp
  have nz: "a \<noteq> 0" "x \<noteq> 0" "hd (ws @ [a]) \<noteq> 0" "l_next h x = hd (ws @ [a])" "l_prev h x = a" "x \<noteq> a" "hd (ws @ [a]) \<noteq> x"
    using r by (cases ws; auto simp: ring_def)+
  let ?y = "hd (ws @ [a])"
  let ?h' = "set_next a n (set_prev n a (set_prev ?y n (set_next n ?y h)))"
  have "list_replace x n h = Inr ?h'" using nz n assms(3) by (simp add: list_replace_def)
  moreover have "ring ?h' (a # n # ws)" using r n assms(3) by (cases ws) (auto simp: ring_def)
  then have "ring ?h' (a # (n # vs) @ butlast (head # us))" using ws by simp
  then have "dlist ?h' head (us @ n # vs)" using hd dlist_back [of _ a "n # vs"] by simp
  ultimately show ?thesis by blast
qed

text \<open>Splicing a non-empty list between two neighbours of a ring.\<close>

lemma ring_splice:
  assumes "ring h (l # ys)" "ys \<noteq> []" "ring h (a # vs)" "set (l # ys) \<inter> set (a # vs) = {}"
  shows "\<exists>h'. list_splice_between l a (hd (vs @ [a])) h = Inr h' \<and> ring h' (a # ys @ vs)"
proof -
  obtain f ys' where ys: "ys = f # ys'" using assms(2) by (cases ys) auto
  define e where "e = last ys"
  define m where "m = butlast ys"
  have ym: "ys = m @ [e]" using assms(2) by (simp add: e_def m_def)
  note le = ring_ends [OF assms(1)]
  have first: "l_next h l = f" using le(1) ys by simp
  have last: "l_prev h l = e" using le(2) assms(2) by (simp add: e_def)
  define b where "b = hd (vs @ [a])"
  let ?h = "set_prev b e (set_next e b (set_next a f (set_prev f a h)))"
  have nx: "l_next ?h = (l_next h)(a := f, e := b)" and pv: "l_prev ?h = (l_prev h)(f := a, b := e)" by simp_all
  have "e \<in> set ys" "f \<in> set ys" "0 \<notin> set (l # ys)" using assms(1) by (simp add: ym, simp add: ys, simp add: ring_def)
  then have "l \<noteq> 0" "f \<noteq> 0" "e \<noteq> 0" by (metis list.set_intros(1), metis list.set_intros(2), metis list.set_intros(2))
  moreover have "a \<noteq> 0" "b \<noteq> 0" using ring_nonzero [OF assms(3)] by (simp_all add: b_def)
  ultimately have run: "list_splice_between l a b h = Inr ?h" by (simp add: list_splice_between_def first last)
  have m1: "map (l_next h) m = ys'" "map (l_prev h) ys' = m"
  proof -
    have "map (l_next h) (l # ys) = ys @ [l]" "map (l_prev h) (ys @ [l]) = l # ys"
      using assms(1) by (simp_all add: ring_def)
    then have "map (l_next h) ys = ys' @ [l]" "map (l_prev h) (ys' @ [l]) = ys"
      using ys by (metis append_Cons list.inject list.simps(9))+
    then have "map (l_next h) m @ [l_next h e] = ys' @ [l]" "map (l_prev h) ys' @ [l_prev h l] = m @ [e]"
      using ym by simp_all
    then show "map (l_next h) m = ys'" "map (l_prev h) ys' = m" by simp_all
  qed
  have dj: "e \<notin> set m" "a \<notin> set ys" "f \<notin> set ys'" "b \<notin> set ys" "distinct (a # ys @ vs)" "0 \<notin> set (a # ys @ vs)"
    "e \<notin> set (a # vs)" "f \<notin> set (a # vs)"
  proof -
    show "e \<notin> set m" using assms(1) ym by (auto simp: ring_def)
    show "f \<notin> set ys'" using assms(1) ys by (auto simp: ring_def)
    show "a \<notin> set ys" "distinct (a # ys @ vs)" "0 \<notin> set (a # ys @ vs)"
      using assms by (auto simp: ring_def)
    show "b \<notin> set ys" using assms(4) unfolding b_def by (cases vs) auto
    have "e \<in> set ys" "f \<in> set ys" by (simp add: ym, simp add: ys)
    then show "e \<notin> set (a # vs)" "f \<notin> set (a # vs)" using assms(4) by auto
  qed
  have "map (l_next ?h) m = ys'" using m1 dj ym unfolding nx by simp
  moreover have "map (l_prev ?h) ys' = m"
  proof -
    have "b \<notin> set ys'" using dj(4) ys by simp
    then show ?thesis using m1 dj unfolding pv by simp
  qed
  moreover have "map (l_next ?h) (e # vs) = vs @ [a]"
    using assms(3) dj unfolding nx by (cases vs) (auto simp: ring_def b_def)
  moreover have "map (l_prev ?h) (vs @ [a]) = e # vs"
    using assms(3) dj unfolding pv by (cases vs) (auto simp: ring_def b_def)
  moreover have "l_next ?h a = f" using dj unfolding nx by auto
  moreover have "l_prev ?h f = a"
  proof -
    have "f \<noteq> b" using dj(4) ys by auto
    then show ?thesis unfolding pv by simp
  qed
  ultimately have *: "map (l_next ?h) (a # m @ e # vs) = (f # ys') @ vs @ [a]"
    "map (l_prev ?h) ((f # ys') @ vs @ [a]) = a # m @ e # vs" by simp_all
  have "a # m @ e # vs = a # ys @ vs" "(f # ys') @ vs @ [a] = ys @ vs @ [a]" by (simp add: ym, simp add: ys)
  then have "map (l_next ?h) (a # ys @ vs) = ys @ vs @ [a]" "map (l_prev ?h) (ys @ vs @ [a]) = a # ys @ vs"
    using * by (simp_all only:)
  then have "ring ?h (a # ys @ vs)" using dj(5,6) unfolding ring_def by simp
  then show ?thesis using run unfolding b_def by blast
qed

lemma dlist_splice:
  assumes "dlist h l ys" "dlist h head xs" "set (l # ys) \<inter> set (head # xs) = {}"
  shows "\<exists>h'. list_splice l head h = Inr h' \<and> dlist h' head (ys @ xs)"
proof (cases "ys = []")
  case True
  then show ?thesis using assms list_empty_iff [OF assms(1)] by (simp add: list_splice_def)
next
  case False
  then show ?thesis
    using ring_splice [of h l ys head xs] assms list_empty_iff [OF assms(1)] ring_ends(1) [of h head xs] dlist_head [OF assms(2)]
    by (simp add: list_splice_def dlist_def)
qed

lemma dlist_splice_tail:
  assumes "dlist h l ys" "dlist h head xs" "set (l # ys) \<inter> set (head # xs) = {}"
  shows "\<exists>h'. list_splice_tail l head h = Inr h' \<and> dlist h' head (xs @ ys)"
proof (cases "ys = []")
  case True
  then show ?thesis using assms list_empty_iff [OF assms(1)] by (simp add: list_splice_tail_def)
next
  case False
  define a where "a = last (head # xs)"
  define us where "us = butlast (head # xs)"
  have eq: "head # xs = us @ [a]" by (simp add: a_def us_def)
  have r: "ring h (a # us)" using assms(2) ring_rotate [of h us "[a]"] by (simp add: dlist_def eq)
  have hd: "hd (us @ [a]) = head" by (simp only: eq [symmetric]) simp
  have "set (l # ys) \<inter> set (a # us) = {}" using assms(3) unfolding eq by auto
  then obtain h' where h': "list_splice_between l a head h = Inr h'" "ring h' (a # ys @ us)"
    using ring_splice [OF _ False r, of l] assms(1) hd by (auto simp: dlist_def)
  then have "ring h' (us @ a # ys)" using ring_rotate [of _ "a # ys" us] by simp
  moreover have "us @ a # ys = head # xs @ ys" using eq by simp
  moreover have "l_prev h head = a" using ring_ends(2) [of h head xs] assms(2) by (simp add: dlist_def a_def)
  ultimately show ?thesis
    using h'(1) list_empty_iff [OF assms(1)] False dlist_head [OF assms(2)] by (simp add: dlist_def list_splice_tail_def)
qed

text \<open>Cutting a list behind \<open>entry\<close>: the front moves to \<open>l\<close>, the rest stays.\<close>

lemma dlist_cut:
  assumes "dlist h head (us @ entry # vs)" "l \<notin> set (head # us @ entry # vs)" "l \<noteq> 0"
  shows "\<exists>h'. list_cut_position l head entry h = Inr h' \<and> dlist h' l (us @ [entry]) \<and> dlist h' head vs"
proof -
  define ys where "ys = us @ [entry]"
  have r: "ring h (head # ys @ vs)" using assms(1) by (simp add: dlist_def ys_def)
  have ne: "ys \<noteq> []" by (simp add: ys_def)
  obtain f ys' where ys: "ys = f # ys'" using ne by (cases ys) auto
  have es: "list_empty head h = Inr False" "length (us @ entry # vs) = 1 \<Longrightarrow> l_next h head = entry" "entry \<noteq> head"
    "l_next h head = f"
  proof -
    show "list_empty head h = Inr False" using list_empty_iff [OF assms(1)] by simp
    show "l_next h head = entry" if "length (us @ entry # vs) = 1"
      using that ring_ends(1) [of h head "us @ entry # vs"] assms(1) by (simp add: dlist_def)
    show "entry \<noteq> head" using assms(1) by (auto simp: dlist_def ring_def)
    show "l_next h head = f" using ring_ends(1) [OF r] ys by simp
  qed
  then have cut: "list_cut_position l head entry h = list_cut_between l head entry h"
    using list_is_singular_iff [OF assms(1)] dlist_head [OF assms(1)] by (auto simp: list_cut_position_def)
  define b where "b = hd (vs @ [head])"
  have nb: "l_next h entry = b"
  proof -
    have "ring h ((entry # vs) @ head # us)" using r ring_rotate [of h "head # us" "entry # vs"] by (simp add: ys_def)
    then show ?thesis using ring_ends(1) [of h entry "vs @ head # us"] unfolding b_def by (cases vs) simp_all
  qed
  have sub: "f \<in> set ys" "entry \<in> set ys" by (simp add: ys, simp add: ys_def)
  then have ln: "l \<noteq> f" "l \<noteq> entry" "l \<noteq> head" "l \<notin> set us" "l \<notin> set vs" using assms(2) ys_def by auto
  have dj: "distinct (head # us @ entry # vs)" "0 \<notin> set (head # us @ entry # vs)" "distinct ys" "0 \<notin> set ys"
    "head \<notin> set ys" "set ys \<inter> set vs = {}"
    using r by (auto simp: ring_def ys_def)
  let ?h = "set_prev b head (set_next head b (set_next entry l (set_prev l entry (set_prev f l (set_next l f h)))))"
  have nx: "l_next ?h = (l_next h)(l := f, entry := l, head := b)"
    and pv: "l_prev ?h = (l_prev h)(f := l, l := entry, b := head)" by simp_all
  have "f \<in> set (head # us @ entry # vs)" using sub(1) by (auto simp: ys_def)
  moreover have "b \<in> set (head # us @ entry # vs)" unfolding b_def by (cases vs) simp_all
  ultimately have "f \<noteq> 0" "b \<noteq> 0" "head \<noteq> 0" "entry \<noteq> 0" using dj(2) by (metis, metis, auto)
  then have run: "list_cut_position l head entry h = Inr ?h"
    unfolding cut using es(4) nb ln assms(3) by (simp add: list_cut_between_def)
  have n: "map (l_next h) (head # us @ entry # vs) = (us @ [entry]) @ (vs @ [head])"
    and p: "map (l_prev h) ((us @ [entry]) @ (vs @ [head])) = head # us @ entry # vs"
    using r by (simp_all add: ring_def ys_def)
  have n1: "map (l_next h) us = ys'" "map (l_next h) (entry # vs) = vs @ [head]"
  proof -
    have "map (l_next h) (head # us) @ map (l_next h) (entry # vs) = ys @ (vs @ [head])"
      using n by (simp add: ys_def)
    moreover have "length (map (l_next h) (head # us)) = length ys" by (simp add: ys_def)
    ultimately have "map (l_next h) (head # us) = ys" "map (l_next h) (entry # vs) = vs @ [head]"
      by (metis append_eq_append_conv)+
    then show "map (l_next h) us = ys'" "map (l_next h) (entry # vs) = vs @ [head]"
      using ys by (metis list.inject list.simps(9))+
  qed
  have p1: "map (l_prev h) ys' = us" "map (l_prev h) (vs @ [head]) = entry # vs"
  proof -
    have "map (l_prev h) ys @ map (l_prev h) (vs @ [head]) = (head # us) @ (entry # vs)"
      using p by (simp add: ys_def)
    moreover have "length (map (l_prev h) ys) = length (head # us)" by (simp add: ys_def)
    ultimately have "map (l_prev h) ys = head # us" "map (l_prev h) (vs @ [head]) = entry # vs"
      by (metis append_eq_append_conv)+
    then show "map (l_prev h) ys' = us" "map (l_prev h) (vs @ [head]) = entry # vs"
      using ys by (metis list.inject list.simps(9))+
  qed
  have b: "b \<notin> set ys" "b \<noteq> l" using dj(5,6) ln unfolding b_def by (cases vs; auto)+
  have "map (l_next ?h) (l # us @ [entry]) = (us @ [entry]) @ [l]"
  proof -
    have "map (l_next ?h) us = ys'" using n1(1) ln dj(1) unfolding nx by simp
    moreover have "f # ys' = us @ [entry]" using ys ys_def by simp
    moreover have "l_next ?h l = f" "l_next ?h entry = l" using ln es(3) unfolding nx by simp_all
    ultimately show ?thesis by simp
  qed
  moreover have "map (l_prev ?h) ((us @ [entry]) @ [l]) = l # us @ [entry]"
  proof -
    have "l \<notin> set ys" using ln ys_def by simp
    then have "l \<notin> set ys'" "b \<notin> set ys'" "f \<notin> set ys'" using b(1) dj(3) unfolding ys by auto
    then have "map (l_prev ?h) ys' = us" using p1(1) unfolding pv by simp
    moreover have "l_prev ?h l = entry" "l_prev ?h f = l" using b ln ys unfolding pv by auto
    ultimately have "map (l_prev ?h) (ys @ [l]) = l # us @ [entry]" using ys by simp
    then show ?thesis by (simp add: ys_def)
  qed
  ultimately have front: "dlist ?h l (us @ [entry])"
    unfolding dlist_def ring_def using dj(3,4) ln assms(3) by (simp add: ys_def)
  have "map (l_next ?h) (head # vs) = vs @ [head]"
  proof (cases vs)
    case Nil
    then show ?thesis unfolding nx by (simp add: b_def)
  next
    case (Cons v vs')
    then show ?thesis using n1(2) ln dj(1) unfolding nx by (auto simp: b_def)
  qed
  moreover have "map (l_prev ?h) (vs @ [head]) = head # vs"
  proof (cases vs)
    case Nil
    then show ?thesis unfolding pv by (simp add: b_def)
  next
    case (Cons v vs')
    have "f \<notin> set vs" using sub(1) dj(6) by auto
    then show ?thesis using Cons p1(2) ln dj sub unfolding pv by (auto simp: b_def)
  qed
  ultimately have "dlist ?h head vs" unfolding dlist_def ring_def using dj(1,2) by simp
  then show ?thesis using run front by blast
qed

text \<open>\<open>list_for_each_entry\<close>: the nodes it visits, in order.  The fuel bounds the number of rounds.\<close>

fun list_nodes :: "nat \<Rightarrow> node \<Rightarrow> node \<Rightarrow> list_heap \<Rightarrow> node list res" where
  "list_nodes fuel pos head h =
     (if pos = head then Inr []
      else case fuel of 0 \<Rightarrow> Inl NoFuel
           | Suc n \<Rightarrow>
               bind_r (get_next pos h) (\<lambda>nxt. bind_r (list_nodes n nxt head h) (\<lambda>ps. Inr (pos # ps))))"

declare list_nodes.simps [simp del]

lemma list_nodes_eq:
  assumes "dlist h head xs" "length xs \<le> fuel"
  shows "list_nodes fuel (l_next h head) head h = Inr xs"
proof -
  have "list_nodes n (hd (vs @ [head])) head h = Inr vs"
    if "head # xs = us @ vs" "us \<noteq> []" "length vs \<le> n" for us vs n
    using that
  proof (induction vs arbitrary: us n)
    case Nil
    then show ?case by (simp add: list_nodes.simps)
  next
    case (Cons v vs)
    then obtain m where n: "n = Suc m" "length vs \<le> m" by (cases n) auto
    have r: "ring h (us @ v # vs)" using assms(1) Cons.prems(1) by (simp add: dlist_def)
    have "hd us = head" using Cons.prems(1,2) by (cases us) auto
    moreover have "distinct (us @ v # vs)" using r by (simp add: ring_def)
    ultimately have "v \<noteq> head" using Cons.prems(2) by (cases us) auto
    moreover have "l_next h v = hd (vs @ [head])"
    proof -
      have "ring h (v # vs @ us)" using ring_rotate [OF r] by simp
      then have "l_next h v = hd ((vs @ us) @ [v])" by (rule ring_ends(1))
      then show ?thesis using Cons.prems(2) \<open>hd us = head\<close> by (cases vs; cases us) auto
    qed
    moreover have "list_nodes m (hd (vs @ [head])) head h = Inr vs"
      by (rule Cons.IH [of "us @ [v]"]) (use Cons.prems n in simp_all)
    moreover have "v \<noteq> 0" using r by (auto simp: ring_def)
    ultimately show ?case using n by (simp add: list_nodes.simps [of "Suc m"])
  qed
  from this [of "[head]" xs fuel] show ?thesis
    using assms ring_ends(1) [of h head xs] by (simp add: dlist_def)
qed

section \<open>Lists with a single-pointer head\<close>

text \<open>\<open>pprev\<close> points to the pointer that points to the node: the head's \<open>first\<close> or a \<open>next\<close>.\<close>

datatype link = LNull | LFirst node | LNext node

record hlist_heap =
  h_first :: "node \<Rightarrow> node"
  n_next :: "node \<Rightarrow> node"
  n_pprev :: "node \<Rightarrow> link"

definition set_first :: "node \<Rightarrow> node \<Rightarrow> hlist_heap \<Rightarrow> hlist_heap" where
  "set_first p q h = h\<lparr>h_first := (h_first h)(p := q)\<rparr>"

definition set_nnext :: "node \<Rightarrow> node \<Rightarrow> hlist_heap \<Rightarrow> hlist_heap" where
  "set_nnext p q h = h\<lparr>n_next := (n_next h)(p := q)\<rparr>"

definition set_pprev :: "node \<Rightarrow> link \<Rightarrow> hlist_heap \<Rightarrow> hlist_heap" where
  "set_pprev p l h = h\<lparr>n_pprev := (n_pprev h)(p := l)\<rparr>"

text \<open>Reading and writing a field, and \<open>*pprev = x\<close>; through NULL it is a fault.\<close>

definition get_first :: "node \<Rightarrow> hlist_heap \<Rightarrow> node res" where
  "get_first p h = bind_r (check_r NullDeref (p \<noteq> 0)) (\<lambda>_. Inr (h_first h p))"

definition get_nnext :: "node \<Rightarrow> hlist_heap \<Rightarrow> node res" where
  "get_nnext n h = bind_r (check_r NullDeref (n \<noteq> 0)) (\<lambda>_. Inr (n_next h n))"

definition get_pprev :: "node \<Rightarrow> hlist_heap \<Rightarrow> link res" where
  "get_pprev n h = bind_r (check_r NullDeref (n \<noteq> 0)) (\<lambda>_. Inr (n_pprev h n))"

definition put_first :: "node \<Rightarrow> node \<Rightarrow> hlist_heap \<Rightarrow> hlist_heap res" where
  "put_first p x h = bind_r (check_r NullDeref (p \<noteq> 0)) (\<lambda>_. Inr (set_first p x h))"

definition put_nnext :: "node \<Rightarrow> node \<Rightarrow> hlist_heap \<Rightarrow> hlist_heap res" where
  "put_nnext n x h = bind_r (check_r NullDeref (n \<noteq> 0)) (\<lambda>_. Inr (set_nnext n x h))"

definition put_pprev :: "node \<Rightarrow> link \<Rightarrow> hlist_heap \<Rightarrow> hlist_heap res" where
  "put_pprev n l h = bind_r (check_r NullDeref (n \<noteq> 0)) (\<lambda>_. Inr (set_pprev n l h))"

definition put_link :: "link \<Rightarrow> node \<Rightarrow> hlist_heap \<Rightarrow> hlist_heap res" where
  "put_link l x h = (case l of LNull \<Rightarrow> Inl NullDeref | LFirst p \<Rightarrow> put_first p x h | LNext n \<Rightarrow> put_nnext n x h)"

text \<open>What \<open>*pprev\<close> reads.\<close>

definition link_val :: "hlist_heap \<Rightarrow> link \<Rightarrow> node" where
  "link_val h l = (case l of LNull \<Rightarrow> 0 | LFirst p \<Rightarrow> h_first h p | LNext n \<Rightarrow> n_next h n)"

definition INIT_HLIST_HEAD :: "node \<Rightarrow> hlist_heap \<Rightarrow> hlist_heap res" where
  "INIT_HLIST_HEAD p h = put_first p 0 h"

definition INIT_HLIST_NODE :: "node \<Rightarrow> hlist_heap \<Rightarrow> hlist_heap res" where
  "INIT_HLIST_NODE n h = bind_r (put_nnext n 0 h) (put_pprev n LNull)"

definition hlist_empty :: "node \<Rightarrow> hlist_heap \<Rightarrow> bool res" where
  "hlist_empty p h = bind_r (get_first p h) (\<lambda>first. Inr (first = 0))"

definition hlist_add_head :: "node \<Rightarrow> node \<Rightarrow> hlist_heap \<Rightarrow> hlist_heap res" where
  "hlist_add_head n p h =
     bind_r (get_first p h) (\<lambda>first.
     bind_r (put_nnext n first h) (\<lambda>h.
     bind_r (if first \<noteq> 0 then put_pprev first (LNext n) h else Inr h) (\<lambda>h.
     bind_r (put_first p n h) (\<lambda>h. put_pprev n (LFirst p) h))))"

definition hlist_add_before :: "node \<Rightarrow> node \<Rightarrow> hlist_heap \<Rightarrow> hlist_heap res" where
  "hlist_add_before n nxt h =
     bind_r (get_pprev nxt h) (\<lambda>pprev.
     bind_r (put_pprev n pprev h) (\<lambda>h.
     bind_r (put_nnext n nxt h) (\<lambda>h.
     bind_r (put_pprev nxt (LNext n) h) (\<lambda>h.
     bind_r (get_pprev n h) (\<lambda>pprev. put_link pprev n h)))))"

definition hlist_add_after :: "node \<Rightarrow> node \<Rightarrow> hlist_heap \<Rightarrow> hlist_heap res" where
  "hlist_add_after n nxt h =
     bind_r (get_nnext n h) (\<lambda>x.
     bind_r (put_nnext nxt x h) (\<lambda>h.
     bind_r (put_nnext n nxt h) (\<lambda>h.
     bind_r (put_pprev nxt (LNext n) h) (\<lambda>h.
     bind_r (get_nnext nxt h) (\<lambda>x.
       if x \<noteq> 0 then put_pprev x (LNext nxt) h else Inr h)))))"

definition hlist_del :: "node \<Rightarrow> hlist_heap \<Rightarrow> hlist_heap res" where
  "hlist_del n h =
     bind_r (get_nnext n h) (\<lambda>nxt.
     bind_r (get_pprev n h) (\<lambda>pprev.
     bind_r (put_link pprev nxt h) (\<lambda>h.
     bind_r (if nxt \<noteq> 0 then put_pprev nxt pprev h else Inr h) (\<lambda>h. INIT_HLIST_NODE n h))))"

definition hlist_replace :: "node \<Rightarrow> node \<Rightarrow> hlist_heap \<Rightarrow> hlist_heap res" where
  "hlist_replace old new h =
     bind_r (get_nnext old h) (\<lambda>nxt.
     bind_r (get_pprev old h) (\<lambda>pprev.
     bind_r (put_nnext new nxt h) (\<lambda>h.
     bind_r (put_pprev new pprev h) (\<lambda>h.
     bind_r (put_link pprev new h) (\<lambda>h.
       if nxt \<noteq> 0 then put_pprev nxt (LNext new) h else Inr h)))))"

text \<open>\<open>hlist_for_each_entry\<close>, with fuel as above.\<close>

fun hlist_nodes :: "nat \<Rightarrow> node \<Rightarrow> hlist_heap \<Rightarrow> node list res" where
  "hlist_nodes fuel pos h =
     (if pos = 0 then Inr []
      else case fuel of 0 \<Rightarrow> Inl NoFuel
           | Suc n \<Rightarrow>
               bind_r (get_nnext pos h) (\<lambda>nxt. bind_r (hlist_nodes n nxt h) (\<lambda>ps. Inr (pos # ps))))"

declare hlist_nodes.simps [simp del]

lemma hfield_ok [simp]:
  "p \<noteq> 0 \<Longrightarrow> get_first p h = Inr (h_first h p)" "p \<noteq> 0 \<Longrightarrow> get_nnext p h = Inr (n_next h p)"
  "p \<noteq> 0 \<Longrightarrow> get_pprev p h = Inr (n_pprev h p)" "p \<noteq> 0 \<Longrightarrow> put_first p x h = Inr (set_first p x h)"
  "p \<noteq> 0 \<Longrightarrow> put_nnext p x h = Inr (set_nnext p x h)" "p \<noteq> 0 \<Longrightarrow> put_pprev p l h = Inr (set_pprev p l h)"
  by (simp_all add: get_first_def get_nnext_def get_pprev_def put_first_def put_nnext_def put_pprev_def)

lemma hset_simps [simp]:
  "h_first (set_first p q h) = (h_first h)(p := q)" "n_next (set_first p q h) = n_next h"
  "n_pprev (set_first p q h) = n_pprev h"
  "h_first (set_nnext p q h) = h_first h" "n_next (set_nnext p q h) = (n_next h)(p := q)"
  "n_pprev (set_nnext p q h) = n_pprev h"
  "h_first (set_pprev p l h) = h_first h" "n_next (set_pprev p l h) = n_next h"
  "n_pprev (set_pprev p l h) = (n_pprev h)(p := l)"
  by (simp_all add: set_first_def set_nnext_def set_pprev_def)

lemma link_val_simps [simp]:
  "link_val h (LFirst p) = h_first h p" "link_val h (LNext n) = n_next h n" "link_val h LNull = 0"
  by (simp_all add: link_val_def)

text \<open>A segment that hangs from a link, and the link behind it.\<close>

fun hopen :: "hlist_heap \<Rightarrow> link \<Rightarrow> node list \<Rightarrow> bool" where
  "hopen h l [] \<longleftrightarrow> True"
| "hopen h l (x # xs) \<longleftrightarrow> link_val h l = x \<and> n_pprev h x = l \<and> hopen h (LNext x) xs"

definition endlink :: "link \<Rightarrow> node list \<Rightarrow> link" where
  "endlink l xs = (if xs = [] then l else LNext (last xs))"

definition hlist :: "hlist_heap \<Rightarrow> node \<Rightarrow> node list \<Rightarrow> bool" where
  "hlist h p xs \<longleftrightarrow> p \<noteq> 0 \<and> distinct xs \<and> 0 \<notin> set xs \<and> hopen h (LFirst p) xs \<and> link_val h (endlink (LFirst p) xs) = 0"

lemma endlink_simps [simp]:
  "endlink l [] = l" "endlink l (x # xs) = endlink (LNext x) xs"
  "endlink l (xs @ ys) = endlink (endlink l xs) ys"
  by (auto simp: endlink_def)

lemma hopen_append: "hopen h l (us @ vs) \<longleftrightarrow> hopen h l us \<and> hopen h (endlink l us) vs"
  by (induction us arbitrary: l) auto

lemma hopen_cong:
  assumes "\<And>k. k \<in> set (butlast (l # map LNext xs)) \<Longrightarrow> link_val h' k = link_val h k"
    and "\<And>x. x \<in> set xs \<Longrightarrow> n_pprev h' x = n_pprev h x"
  shows "hopen h' l xs = hopen h l xs"
  using assms
proof (induction xs arbitrary: l)
  case (Cons x xs)
  have "hopen h' (LNext x) xs = hopen h (LNext x) xs"
    by (rule Cons.IH) (use Cons.prems in \<open>auto split: if_splits\<close>)
  then show ?case using Cons.prems(1) [of l] Cons.prems(2) [of x] by simp
qed simp

lemma endlink_in: "endlink l xs = l \<and> xs = [] \<or> (\<exists>x \<in> set xs. endlink l xs = LNext x)"
  by (cases xs rule: rev_cases) auto

lemma butlast_links: "k \<in> set (butlast (l # map LNext xs)) \<Longrightarrow> k = l \<or> (\<exists>x \<in> set (butlast xs). k = LNext x)"
  by (induction xs arbitrary: l) (auto split: if_splits)

lemma endlink_before:
  assumes "distinct us"
  shows "endlink (LFirst p) us \<notin> set (butlast (LFirst p # map LNext us))"
proof (cases us rule: rev_cases)
  case (snoc ys y)
  have "butlast (LFirst p # map LNext us) = LFirst p # map LNext ys" unfolding snoc by simp
  then show ?thesis using assms snoc by auto
qed simp

text \<open>A list around one of its nodes.\<close>

lemma hlist_at:
  assumes "hlist h p (us @ x # vs)"
  shows "hopen h (LFirst p) us" "link_val h (endlink (LFirst p) us) = x" "n_pprev h x = endlink (LFirst p) us"
    "hopen h (LNext x) vs" "link_val h (endlink (LNext x) vs) = 0" "n_next h x = hd (vs @ [0])"
    "distinct (us @ x # vs)" "0 \<notin> set (us @ x # vs)" "p \<noteq> 0"
proof -
  show "hopen h (LFirst p) us" "link_val h (endlink (LFirst p) us) = x" "n_pprev h x = endlink (LFirst p) us"
    and t: "hopen h (LNext x) vs" "link_val h (endlink (LNext x) vs) = 0"
    and "distinct (us @ x # vs)" "0 \<notin> set (us @ x # vs)" "p \<noteq> 0"
    using assms by (simp_all add: hlist_def hopen_append)
  show "n_next h x = hd (vs @ [0])" using t by (cases vs) simp_all
qed

lemma hlist_intro:
  assumes "distinct (us @ ws)" "0 \<notin> set (us @ ws)" "hopen h (LFirst p) us"
    and "\<And>l. l \<in> set (butlast (LFirst p # map LNext us)) \<Longrightarrow> link_val h' l = link_val h l"
    and "\<And>x. x \<in> set us \<Longrightarrow> n_pprev h' x = n_pprev h x"
    and "hopen h' (endlink (LFirst p) us) ws" "link_val h' (endlink (endlink (LFirst p) us) ws) = 0" "p \<noteq> 0"
  shows "hlist h' p (us @ ws)"
  using assms(1-3,6-8) hopen_cong [of "LFirst p" us h' h] assms(4,5)
  by (simp add: hlist_def hopen_append del: butlast.simps)

text \<open>The rest of a list does not notice changes to other nodes.\<close>

lemma hopen_rest:
  assumes "hopen h (LNext v) ws" "link_val h (endlink (LNext v) ws) = 0"
    and "\<And>y. y \<in> set (v # ws) \<Longrightarrow> n_next h' y = n_next h y" "\<And>y. y \<in> set ws \<Longrightarrow> n_pprev h' y = n_pprev h y"
  shows "hopen h' (LNext v) ws" "link_val h' (endlink (LNext v) ws) = 0"
proof -
  have "hopen h' (LNext v) ws = hopen h (LNext v) ws"
    by (rule hopen_cong) (use assms(3,4) in \<open>auto dest!: butlast_links in_set_butlastD simp del: butlast.simps\<close>)
  then show "hopen h' (LNext v) ws" using assms(1) by simp
  show "link_val h' (endlink (LNext v) ws) = 0"
    using assms(2,3) endlink_in [of "LNext v" ws] by auto
qed

lemma hlist_empty_iff: "hlist h p xs \<Longrightarrow> hlist_empty p h = Inr (xs = [])"
  by (cases xs) (auto simp: hlist_def hlist_empty_def)

lemma hlist_init: "p \<noteq> 0 \<Longrightarrow> \<exists>h'. INIT_HLIST_HEAD p h = Inr h' \<and> hlist h' p []"
  by (simp add: hlist_def INIT_HLIST_HEAD_def)

text \<open>Lists on other heads and nodes are left alone.\<close>

lemma hlist_other:
  assumes "hlist h q ys" "h_first h' q = h_first h q"
    and "\<And>y. y \<in> set ys \<Longrightarrow> n_next h' y = n_next h y \<and> n_pprev h' y = n_pprev h y"
  shows "hlist h' q ys"
proof -
  have "hopen h' (LFirst q) ys = hopen h (LFirst q) ys"
    by (rule hopen_cong) (use assms(2,3) in \<open>auto dest!: butlast_links in_set_butlastD simp del: butlast.simps\<close>)
  moreover have "link_val h' (endlink (LFirst q) ys) = link_val h (endlink (LFirst q) ys)"
    using endlink_in [of "LFirst q" ys] assms(2,3) by auto
  ultimately show ?thesis using assms(1) by (simp add: hlist_def)
qed

text \<open>The head \<open>p\<close> and the nodes in \<open>A\<close> are all that changes.\<close>

definition frames :: "node \<Rightarrow> node set \<Rightarrow> hlist_heap \<Rightarrow> hlist_heap \<Rightarrow> bool" where
  "frames p A h h' \<longleftrightarrow> (\<forall>q. q \<noteq> p \<longrightarrow> h_first h' q = h_first h q) \<and>
     (\<forall>y. y \<notin> A \<longrightarrow> n_next h' y = n_next h y \<and> n_pprev h' y = n_pprev h y)"

lemma frames_hlist: "frames p A h h' \<Longrightarrow> hlist h q zs \<Longrightarrow> q \<noteq> p \<Longrightarrow> set zs \<inter> A = {} \<Longrightarrow> hlist h' q zs"
  unfolding frames_def by (rule hlist_other) blast+

lemma hlist_add_head:
  assumes "hlist h p xs" "n \<notin> set xs" "n \<noteq> 0"
  shows "\<exists>h'. hlist_add_head n p h = Inr h' \<and> hlist h' p (n # xs) \<and> frames p (insert n (set xs)) h h'"
proof (cases xs)
  case Nil
  then show ?thesis using assms by (auto simp: hlist_def hlist_add_head_def frames_def)
next
  case (Cons x ys)
  have h: "hlist h p ([] @ x # ys)" using assms(1) Cons by simp
  note at = hlist_at [OF h]
  have x: "h_first h p = x" "x \<noteq> 0" "x \<noteq> n" "n \<notin> set ys" using at assms(2) Cons by auto
  let ?h = "set_pprev n (LFirst p) (set_first p n (set_pprev x (LNext n) (set_nnext n x h)))"
  have f: "n_next ?h = (n_next h)(n := x)" "n_pprev ?h = (n_pprev h)(x := LNext n, n := LFirst p)"
    "h_first ?h = (h_first h)(p := n)" by simp_all
  have "hopen ?h (LNext x) ys" "link_val ?h (endlink (LNext x) ys) = 0"
    by (rule hopen_rest [OF at(4,5)]; use x at(7) in \<open>auto simp: f\<close>)+
  then have "hlist ?h p (n # xs)" using assms x at(7-9) Cons by (simp add: hlist_def f)
  moreover have "hlist_add_head n p h = Inr ?h" using x assms(3) at(9) by (simp add: hlist_add_head_def)
  moreover have "frames p (insert n (set xs)) h ?h" using Cons by (auto simp: frames_def f)
  ultimately show ?thesis by blast
qed

lemma put_link_ok:
  assumes "l \<noteq> LNull" "l \<noteq> LFirst 0" "l \<noteq> LNext 0"
  shows "\<exists>h1. put_link l x h = Inr h1 \<and> link_val h1 l = x \<and> n_pprev h1 = n_pprev h \<and>
     (\<forall>k. k \<noteq> l \<longrightarrow> link_val h1 k = link_val h k)"
  using assms by (cases l) (auto simp: put_link_def link_val_def split: link.splits)

text \<open>The link behind \<open>us\<close> in a list can be written through.\<close>

lemma endlink_ok:
  assumes "hlist h p (us @ vs)"
  shows "endlink (LFirst p) us \<noteq> LNull" "endlink (LFirst p) us \<noteq> LFirst 0" "endlink (LFirst p) us \<noteq> LNext 0"
  using endlink_in [of "LFirst p" us] assms by (auto simp: hlist_def)

lemma hlist_del:
  assumes "hlist h p (us @ x # vs)"
  shows "\<exists>h'. hlist_del x h = Inr h' \<and> hlist h' p (us @ vs) \<and> n_next h' x = 0 \<and> n_pprev h' x = LNull \<and>
    frames p (set (us @ x # vs)) h h'"
proof -
  note at = hlist_at [OF assms]
  let ?k = "endlink (LFirst p) us" and ?nx = "hd (vs @ [0])"
  have k: "?k = LFirst p \<and> us = [] \<or> (\<exists>u \<in> set us. ?k = LNext u)" using endlink_in by blast
  obtain h1 where h1: "put_link ?k ?nx h = Inr h1" "link_val h1 ?k = ?nx" "n_pprev h1 = n_pprev h"
    "\<And>l. l \<noteq> ?k \<Longrightarrow> link_val h1 l = link_val h l"
    using put_link_ok [OF endlink_ok [OF assms], of ?nx h] by blast
  let ?h = "set_pprev x LNull (set_nnext x 0 (if ?nx \<noteq> 0 then set_pprev ?nx ?k h1 else h1))"
  have kx: "?k \<noteq> LNext x" using k at(7) by auto
  have nx: "n_next ?h = (n_next h1)(x := 0)" "h_first ?h = h_first h1" by simp_all
  have lv: "link_val ?h l = (if l = LNext x then 0 else link_val h1 l)" for l
    unfolding link_val_def nx by (auto split: link.splits)
  have "hlist ?h p (us @ vs)"
  proof (rule hlist_intro [of us vs h p])
    show "hopen h (LFirst p) us" by (rule at(1))
    show "link_val ?h l = link_val h l" if "l \<in> set (butlast (LFirst p # map LNext us))" for l
    proof -
      have "l \<noteq> ?k" using endlink_before [of us p] that at(7) by auto
      moreover have "l \<noteq> LNext x" using butlast_links [OF that] in_set_butlastD [of x us] at(7) by auto
      ultimately show ?thesis using lv h1(4) by simp
    qed
    show "n_pprev ?h y = n_pprev h y" if "y \<in> set us" for y
    proof -
      have "y \<noteq> x" "vs \<noteq> [] \<Longrightarrow> y \<noteq> hd vs" using that at(7) by (auto dest: hd_in_set)
      then show ?thesis using h1(3) by (cases vs) auto
    qed
    have "hopen ?h ?k vs \<and> link_val ?h (endlink ?k vs) = 0"
    proof (cases vs)
      case Nil
      then show ?thesis using h1(2) lv kx by simp
    next
      case (Cons v ws)
      have r: "hopen h (LNext v) ws" "link_val h (endlink (LNext v) ws) = 0" using at(4,5) Cons by simp_all
      have d: "v \<notin> set us" "x \<noteq> v" "x \<notin> set ws" "v \<notin> set ws" "v \<noteq> 0" "set us \<inter> set ws = {}"
        using at(7,8) Cons by auto
      have nn: "n_next ?h y = n_next h y" if "y \<in> set (v # ws)" for y
      proof -
        have "LNext y \<noteq> ?k" "y \<noteq> x" using k that d by auto
        then show ?thesis using h1(4) [of "LNext y"] nx by simp
      qed
      have pp: "n_pprev ?h y = n_pprev h y" if "y \<in> set ws" for y
        using that d h1(3) Cons by auto
      have "n_pprev ?h v = ?k" using d Cons by auto
      moreover have "link_val ?h ?k = v" using lv kx h1(2) Cons by simp
      ultimately show ?thesis using hopen_rest [OF r nn pp] Cons by simp
    qed
    then show "hopen ?h ?k vs" "link_val ?h (endlink ?k vs) = 0" by blast+
  qed (use at(7-9) in auto)
  moreover have "frames p (set (us @ x # vs)) h ?h"
    unfolding frames_def
  proof (intro conjI allI impI)
    fix q assume "q \<noteq> p"
    then have "LFirst q \<noteq> ?k" using k by auto
    then show "h_first ?h q = h_first h q" using lv [of "LFirst q"] h1(4) [of "LFirst q"] by simp
  next
    fix y assume "y \<notin> set (us @ x # vs)"
    then have ny: "y \<noteq> x" "y \<notin> set us" "vs \<noteq> [] \<Longrightarrow> y \<noteq> hd vs" by (auto dest: hd_in_set)
    then have "LNext y \<noteq> ?k" "LNext y \<noteq> LNext x" using k by auto
    then show "n_next ?h y = n_next h y" using lv [of "LNext y"] h1(4) [of "LNext y"] by simp
    show "n_pprev ?h y = n_pprev h y" using ny h1(3) by (cases vs) auto
  qed
  moreover have "hlist_del x h = Inr ?h" using at(3,6,8) h1(1) by (auto simp: hlist_del_def INIT_HLIST_NODE_def)
  moreover have "n_next ?h x = 0" "n_pprev ?h x = LNull" by simp_all
  ultimately show ?thesis by blast
qed

text \<open>The other updates exchange what hangs from the links around a node.\<close>

lemma hlist_add_before:
  assumes "hlist h p (us @ x # vs)" "n \<notin> set (us @ x # vs)" "n \<noteq> 0"
  shows "\<exists>h'. hlist_add_before n x h = Inr h' \<and> hlist h' p (us @ n # x # vs) \<and> frames p (insert n (set (us @ x # vs))) h h'"
proof -
  note at = hlist_at [OF assms(1)]
  let ?k = "endlink (LFirst p) us"
  let ?g = "set_pprev x (LNext n) (set_nnext n x (set_pprev n ?k h))"
  have nx: "n \<noteq> x" "n \<notin> set us" "n \<notin> set vs" "x \<notin> set us" "x \<notin> set vs" using assms(2) at(7) by auto
  have k: "?k = LFirst p \<and> us = [] \<or> (\<exists>u \<in> set us. ?k = LNext u)" using endlink_in by blast
  obtain h1 where h1: "put_link ?k n ?g = Inr h1" "link_val h1 ?k = n" "n_pprev h1 = n_pprev ?g"
    "\<And>l. l \<noteq> ?k \<Longrightarrow> link_val h1 l = link_val ?g l"
    using put_link_ok [OF endlink_ok [OF assms(1)], of n ?g] by blast
  have kn: "?k \<noteq> LNext n" "?k \<noteq> LNext x" using k nx by auto
  have lg: "link_val ?g l = (if l = LNext n then x else link_val h l)" for l
    by (auto simp: link_val_def split: link.splits)
  have run: "hlist_add_before n x h = Inr h1"
    using h1(1) at(3,8) nx assms(3) by (simp add: hlist_add_before_def)
  have "hlist h1 p (us @ n # x # vs)"
  proof (rule hlist_intro [of us _ h p])
    show "hopen h (LFirst p) us" by (rule at(1))
    show "link_val h1 l = link_val h l" if "l \<in> set (butlast (LFirst p # map LNext us))" for l
    proof -
      have "l \<noteq> ?k" using endlink_before [of us p] that at(7) by auto
      moreover have "l \<noteq> LNext n" using butlast_links [OF that] in_set_butlastD [of n us] nx by auto
      ultimately show ?thesis using lg h1(4) by simp
    qed
    show "n_pprev h1 y = n_pprev h y" if "y \<in> set us" for y using that nx h1(3) by auto
    have "hopen h1 (LNext x) vs" "link_val h1 (endlink (LNext x) vs) = 0"
    proof -
      have nn: "n_next h1 y = n_next h y" if "y \<in> set (x # vs)" for y
      proof -
        have "LNext y \<noteq> ?k" "LNext y \<noteq> LNext n" using k that nx at(7) by auto
        then show ?thesis using h1(4) [of "LNext y"] lg [of "LNext y"] by simp
      qed
      have pp: "n_pprev h1 y = n_pprev h y" if "y \<in> set vs" for y using that nx h1(3) by auto
      show "hopen h1 (LNext x) vs" "link_val h1 (endlink (LNext x) vs) = 0"
        using hopen_rest [OF at(4,5) nn pp] by blast+
    qed
    moreover have "link_val h1 (LNext n) = x" using h1(4) [of "LNext n"] kn lg by simp
    moreover have "n_pprev h1 n = ?k" "n_pprev h1 x = LNext n" using h1(3) nx by simp_all
    ultimately show "hopen h1 ?k (n # x # vs)" "link_val h1 (endlink ?k (n # x # vs)) = 0"
      using h1(2) by simp_all
  qed (use assms(2,3) at(7-9) in auto)
  moreover have "frames p (insert n (set (us @ x # vs))) h h1"
    unfolding frames_def
  proof (intro conjI allI impI)
    fix q assume "q \<noteq> p"
    then have "LFirst q \<noteq> ?k" using k by auto
    then show "h_first h1 q = h_first h q" using h1(4) [of "LFirst q"] by simp
  next
    fix y assume "y \<notin> insert n (set (us @ x # vs))"
    then have "LNext y \<noteq> ?k" "LNext y \<noteq> LNext n" "y \<noteq> n" "y \<noteq> x" using k by auto
    then show "n_next h1 y = n_next h y" "n_pprev h1 y = n_pprev h y"
      using h1(3) h1(4) [of "LNext y"] lg [of "LNext y"] by simp_all
  qed
  ultimately show ?thesis using run by blast
qed

lemma hlist_add_after:
  assumes "hlist h p (us @ x # vs)" "n \<notin> set (us @ x # vs)" "n \<noteq> 0"
  shows "\<exists>h'. hlist_add_after x n h = Inr h' \<and> hlist h' p (us @ x # n # vs) \<and> frames p (insert n (set (us @ x # vs))) h h'"
proof -
  note at = hlist_at [OF assms(1)]
  let ?k = "endlink (LFirst p) us" and ?nx = "hd (vs @ [0])"
  let ?g = "set_pprev n (LNext x) (set_nnext x n (set_nnext n ?nx h))"
  let ?h = "if ?nx = 0 then ?g else set_pprev ?nx (LNext n) ?g"
  have nx: "n \<noteq> x" "n \<notin> set us" "n \<notin> set vs" "x \<notin> set us" "x \<notin> set vs" using assms(2) at(7) by auto
  have hdv: "vs \<noteq> [] \<Longrightarrow> ?nx \<in> set vs" by (cases vs) auto
  have run: "hlist_add_after x n h = Inr ?h" using nx at(6,8) assms(3) by (auto simp: hlist_add_after_def)
  have f: "n_next ?h = (n_next h)(n := ?nx, x := n)" "h_first ?h = h_first h"
    "n_pprev ?h = (if vs = [] then (n_pprev h)(n := LNext x) else (n_pprev h)(n := LNext x, hd vs := LNext n))"
    using at(8) by (cases vs; auto)+
  have lv: "link_val ?h l = (if l = LNext x then n else if l = LNext n then ?nx else link_val h l)" for l
    unfolding link_val_def f using nx(1) by (auto split: link.splits)
  have kx: "?k \<noteq> LNext x" "?k \<noteq> LNext n" using endlink_in [of "LFirst p" us] nx by auto
  have pu: "n_pprev ?h y = n_pprev h y" if "y \<in> set us \<or> y = x" for y
    using that nx at(7) hdv unfolding f by (cases vs) auto
  have "hlist ?h p (us @ x # n # vs)"
  proof (rule hlist_intro [of us _ h p])
    show "hopen h (LFirst p) us" by (rule at(1))
    show "link_val ?h l = link_val h l" if "l \<in> set (butlast (LFirst p # map LNext us))" for l
    proof -
      have "l \<noteq> LNext x" "l \<noteq> LNext n"
        using butlast_links [OF that] in_set_butlastD [of x us] in_set_butlastD [of n us] nx by auto
      then show ?thesis using lv by simp
    qed
    have "hopen ?h (LNext n) vs \<and> link_val ?h (endlink (LNext n) vs) = 0"
    proof (cases vs)
      case Nil
      then show ?thesis using nx(1) by (simp add: f)
    next
      case (Cons v ws)
      have r: "hopen h (LNext v) ws" "link_val h (endlink (LNext v) ws) = 0" using at(4,5) Cons by simp_all
      have nn: "n_next ?h y = n_next h y" if "y \<in> set (v # ws)" for y
        using that nx Cons unfolding f by auto
      have pp: "n_pprev ?h y = n_pprev h y" if "y \<in> set ws" for y
        using that nx Cons at(7) unfolding f by auto
      show ?thesis using hopen_rest [OF r nn pp] nx Cons lv at(8) by (simp add: f)
    qed
    moreover have "n_pprev ?h n = LNext x" using nx unfolding f by (cases vs) auto
    moreover have "n_pprev ?h x = ?k" "link_val ?h ?k = x" using pu [of x] at(2,3) lv kx by simp_all
    moreover have "link_val ?h (LNext x) = n" by (simp add: f)
    ultimately show "hopen ?h ?k (x # n # vs)" "link_val ?h (endlink ?k (x # n # vs)) = 0" by simp_all
  qed (use pu assms(2,3) at(7-9) in auto)
  moreover have "frames p (insert n (set (us @ x # vs))) h ?h"
    unfolding frames_def f using hd_in_set [of vs] by auto
  ultimately show ?thesis using run by blast
qed

lemma hlist_replace:
  assumes "hlist h p (us @ x # vs)" "n \<notin> set (us @ x # vs)" "n \<noteq> 0"
  shows "\<exists>h'. hlist_replace x n h = Inr h' \<and> hlist h' p (us @ n # vs) \<and> frames p (insert n (set (us @ x # vs))) h h'"
proof -
  note at = hlist_at [OF assms(1)]
  let ?k = "endlink (LFirst p) us" and ?nx = "hd (vs @ [0])"
  let ?g = "set_pprev n ?k (set_nnext n ?nx h)"
  have nx: "n \<noteq> x" "n \<notin> set us" "n \<notin> set vs" "x \<notin> set us" "x \<notin> set vs" using assms(2) at(7) by auto
  have k: "?k = LFirst p \<and> us = [] \<or> (\<exists>u \<in> set us. ?k = LNext u)" using endlink_in by blast
  obtain h1 where h1: "put_link ?k n ?g = Inr h1" "link_val h1 ?k = n" "n_pprev h1 = n_pprev ?g"
    "\<And>l. l \<noteq> ?k \<Longrightarrow> link_val h1 l = link_val ?g l"
    using put_link_ok [OF endlink_ok [OF assms(1)], of n ?g] by blast
  let ?h = "if ?nx \<noteq> 0 then set_pprev ?nx (LNext n) h1 else h1"
  have run: "hlist_replace x n h = Inr ?h"
    using h1(1) at(3,6,8) nx assms(3) by (auto simp: hlist_replace_def)
  have lv: "link_val ?h l = (if l = ?k then n else if l = LNext n then ?nx else link_val h l)" for l
  proof -
    have "link_val ?h l = link_val h1 l" by (simp add: link_val_def split: link.splits)
    moreover have "link_val ?g l = (if l = LNext n then ?nx else link_val h l)"
      by (auto simp: link_val_def split: link.splits)
    ultimately show ?thesis using h1(2,4) by simp
  qed
  have kn: "?k \<noteq> LNext n" using k nx by auto
  have hdv: "vs \<noteq> [] \<Longrightarrow> ?nx \<in> set vs" by (cases vs) auto
  have pn: "n_pprev ?h y = (if vs \<noteq> [] \<and> y = hd vs then LNext n else if y = n then ?k else n_pprev h y)" for y
    using h1(3) hdv at(8) by (cases vs) auto
  have "hlist ?h p (us @ n # vs)"
  proof (rule hlist_intro [of us _ h p])
    show "hopen h (LFirst p) us" by (rule at(1))
    show "link_val ?h l = link_val h l" if "l \<in> set (butlast (LFirst p # map LNext us))" for l
    proof -
      have "l \<noteq> ?k" using endlink_before [of us p] that at(7) by auto
      moreover have "l \<noteq> LNext n" using butlast_links [OF that] in_set_butlastD [of n us] nx by auto
      ultimately show ?thesis using lv by simp
    qed
    show "n_pprev ?h y = n_pprev h y" if "y \<in> set us" for y
    proof -
      have "y \<noteq> n" "\<not> (vs \<noteq> [] \<and> y = hd vs)" using that nx at(7) by (auto dest: hd_in_set)
      then show ?thesis using pn [of y] by (simp only: if_False)
    qed
    have "hopen ?h (LNext n) vs \<and> link_val ?h (endlink (LNext n) vs) = 0"
    proof (cases vs)
      case Nil
      then show ?thesis using lv [of "LNext n"] kn by simp
    next
      case (Cons v ws)
      have r: "hopen h (LNext v) ws" "link_val h (endlink (LNext v) ws) = 0" using at(4,5) Cons by simp_all
      have nn: "n_next ?h y = n_next h y" if "y \<in> set (v # ws)" for y
      proof -
        have "LNext y \<noteq> ?k" "LNext y \<noteq> LNext n" using k that nx at(7) Cons by auto
        then show ?thesis using lv [of "LNext y"] by simp
      qed
      have pp: "n_pprev ?h y = n_pprev h y" if "y \<in> set ws" for y
      proof -
        have "y \<noteq> hd vs" "y \<noteq> n" using that nx at(7) Cons by auto
        then show ?thesis using pn by simp
      qed
      have "n_pprev ?h v = LNext n" using pn [of v] Cons by simp
      moreover have "link_val ?h (LNext n) = v" using lv [of "LNext n"] kn Cons by simp
      ultimately show ?thesis using hopen_rest [OF r nn pp] Cons by (simp only: hopen.simps endlink_simps)
    qed
    moreover have "n_pprev ?h n = ?k"
    proof -
      have "\<not> (vs \<noteq> [] \<and> n = hd vs)" using nx(3) by (auto dest: hd_in_set)
      then show ?thesis using pn [of n] by (simp only: if_False if_True refl)
    qed
    moreover have "link_val ?h ?k = n" using lv [of ?k] by (simp only: if_True refl)
    ultimately show "hopen ?h ?k (n # vs)" "link_val ?h (endlink ?k (n # vs)) = 0"
      by (simp_all only: hopen.simps endlink_simps)
  qed (use assms(2,3) at(7-9) in auto)
  moreover have "frames p (insert n (set (us @ x # vs))) h ?h"
    unfolding frames_def
  proof (intro conjI allI impI)
    fix q assume "q \<noteq> p"
    then have "LFirst q \<noteq> ?k" using k by auto
    then show "h_first ?h q = h_first h q" using lv [of "LFirst q"] by simp
  next
    fix y assume "y \<notin> insert n (set (us @ x # vs))"
    then have "LNext y \<noteq> ?k" "LNext y \<noteq> LNext n" "y \<noteq> n" "vs \<noteq> [] \<Longrightarrow> y \<noteq> hd vs" using k by auto
    then show "n_next ?h y = n_next h y" "n_pprev ?h y = n_pprev h y"
      using pn [of y] lv [of "LNext y"] by auto
  qed
  ultimately show ?thesis using run by blast
qed

lemma hlist_nodes_eq:
  assumes "hlist h p xs" "length xs \<le> fuel"
  shows "hlist_nodes fuel (h_first h p) h = Inr xs"
proof -
  have "hlist_nodes n (link_val h l) h = Inr vs"
    if "hopen h l vs" "link_val h (endlink l vs) = 0" "0 \<notin> set vs" "length vs \<le> n" for l vs n
    using that
  proof (induction vs arbitrary: l n)
    case Nil
    then show ?case by (simp add: hlist_nodes.simps)
  next
    case (Cons v vs)
    then obtain m where n: "n = Suc m" "length vs \<le> m" by (cases n) auto
    have "hlist_nodes m (link_val h (LNext v)) h = Inr vs" by (rule Cons.IH) (use Cons.prems n in auto)
    then show ?case using Cons.prems n by (simp add: hlist_nodes.simps [of "Suc m"])
  qed
  from this [of "LFirst p" xs fuel] show ?thesis using assms by (simp add: hlist_def)
qed

section \<open>Properties\<close>

text \<open>
  C34.  The operations of the circular lists refine those of sequences: on a list with the nodes
  \<open>us @ x # vs\<close>, adding a node at either end, replacing or removing \<open>x\<close> succeeds, without following a null
  pointer, and yields the list with the corresponding sequence, the tests answer for the sequence, and the
  iteration visits its elements in order and ends.
\<close>

theorem list_ops_refine:
  assumes "dlist h head (us @ x # vs)" "n \<notin> set (head # us @ x # vs)" "n \<noteq> 0"
  shows "(\<exists>h'. list_add n head h = Inr h' \<and> dlist h' head (n # us @ x # vs)) \<and>
    (\<exists>h'. list_add_tail n head h = Inr h' \<and> dlist h' head (us @ x # vs @ [n])) \<and>
    (\<exists>h'. list_replace x n h = Inr h' \<and> dlist h' head (us @ n # vs)) \<and>
    (\<exists>h'. list_del x h = Inr h' \<and> dlist h' head (us @ vs)) \<and>
    list_empty head h = Inr False \<and> list_is_singular head h = Inr (us @ vs = []) \<and>
    list_is_last x head h = Inr (vs = []) \<and>
    list_nodes (length (us @ x # vs)) (l_next h head) head h = Inr (us @ x # vs)"
  using dlist_add [OF assms] dlist_add_tail [OF assms] dlist_replace [OF assms] dlist_del [OF assms(1)]
    list_empty_iff [OF assms(1)] list_is_singular_iff [OF assms(1)] list_is_last_iff [OF assms(1)]
    list_nodes_eq [OF assms(1)] by auto

text \<open>Sample lists, built by the operations.\<close>

definition sample_list :: "list_heap res" where
  "sample_list = bind_r (INIT_LIST_HEAD 1 \<lparr>l_next = \<lambda>_. 0, l_prev = \<lambda>_. 0\<rparr>) (\<lambda>h.
     bind_r (list_add_tail 2 1 h) (list_add_tail 3 1))"

lemma sample_list:
  obtains h where "sample_list = Inr h" "dlist h 1 [2, 3]"
proof -
  obtain h0 where h0: "INIT_LIST_HEAD 1 \<lparr>l_next = \<lambda>_. 0, l_prev = \<lambda>_. 0\<rparr> = Inr h0" "dlist h0 1 []"
    using dlist_init [of 1] by fastforce
  obtain h1 where h1: "list_add_tail 2 1 h0 = Inr h1" "dlist h1 1 [2]" using dlist_add_tail [OF h0(2), of 2] by auto
  obtain h2 where "list_add_tail 3 1 h1 = Inr h2" "dlist h2 1 [2, 3]" using dlist_add_tail [OF h1(2), of 3] by auto
  then show thesis using that h0(1) h1(1) by (simp add: sample_list_def)
qed

theorem list_ops_refine_witness:
  "\<exists>h h1 h2. sample_list = Inr h \<and> list_replace 2 4 h = Inr h1 \<and> dlist h1 1 [4, 3] \<and>
     list_del 2 h = Inr h2 \<and> dlist h2 1 [3]"
proof -
  obtain h where h: "sample_list = Inr h" "dlist h 1 ([] @ 2 # [3])" using sample_list by auto
  then show ?thesis using list_ops_refine [OF h(2), of 4] by auto
qed

text \<open>
  Splicing a list into another, at the front or at the back, concatenates their sequences, and
  cutting the first part off again with \<open>list_cut_position\<close> restores both lists.
\<close>

lemma list_splice_cut:
  assumes "dlist h l ys" "dlist h head xs" "set (l # ys) \<inter> set (head # xs) = {}" "ys \<noteq> []"
  shows "(\<exists>h1 h2. list_splice l head h = Inr h1 \<and> dlist h1 head (ys @ xs) \<and>
      list_cut_position l head (last ys) h1 = Inr h2 \<and> dlist h2 l ys \<and> dlist h2 head xs) \<and>
    (\<exists>h1. list_splice_tail l head h = Inr h1 \<and> dlist h1 head (xs @ ys))"
proof -
  obtain h1 where h1: "list_splice l head h = Inr h1" "dlist h1 head (ys @ xs)" using dlist_splice [OF assms(1-3)] by blast
  have ys: "ys = butlast ys @ [last ys]" using assms(4) by simp
  have "ys @ xs = butlast ys @ last ys # xs" using ys by (metis append.assoc append_Cons append_Nil)
  then have "dlist h1 head (butlast ys @ last ys # xs)" using h1(2) by (simp only:)
  moreover have "l \<notin> set (head # butlast ys @ last ys # xs)" "l \<noteq> 0"
    using assms(1,3,4) by (auto simp: dlist_def ring_def dest: in_set_butlastD)
  ultimately obtain h2 where "list_cut_position l head (last ys) h1 = Inr h2" "dlist h2 l (butlast ys @ [last ys])" "dlist h2 head xs"
    using dlist_cut by blast
  then show ?thesis using h1 ys dlist_splice_tail [OF assms(1-3)] by auto
qed

text \<open>The list of the node 6 at the head 5, next to the sample list.\<close>

definition sample_lists :: "list_heap res" where
  "sample_lists = bind_r sample_list (\<lambda>h. bind_r (INIT_LIST_HEAD 5 h) (list_add 6 5))"

lemma sample_lists:
  obtains h where "sample_lists = Inr h" "dlist h 1 [2, 3]" "dlist h 5 [6]"
proof -
  obtain h where h: "sample_list = Inr h" "dlist h 1 [2, 3]" by (rule sample_list)
  let ?h1 = "set_prev 5 5 (set_next 5 5 h)"
  let ?h2 = "set_next 5 6 (set_prev 6 5 (set_next 6 5 (set_prev 5 6 ?h1)))"
  have "sample_lists = Inr ?h2"
    unfolding sample_lists_def h(1) by (simp add: INIT_LIST_HEAD_def list_add_def list_add_between_def)
  moreover have "dlist ?h2 5 [6]" by (simp add: dlist_def ring_def)
  moreover have "ring ?h2 [1, 2, 3] = ring h [1, 2, 3]" by (rule ring_frame) auto
  then have "dlist ?h2 1 [2, 3]" using h(2) by (simp add: dlist_def)
  ultimately show thesis using that by blast
qed

lemma list_splice_cut_sample:
  "\<exists>h h1 h2. sample_lists = Inr h \<and> list_splice 1 5 h = Inr h1 \<and> dlist h1 5 [2, 3, 6] \<and>
     list_cut_position 1 5 3 h1 = Inr h2 \<and> dlist h2 1 [2, 3] \<and> dlist h2 5 [6]"
proof -
  obtain h where h: "sample_lists = Inr h" "dlist h 1 [2, 3]" "dlist h 5 [6]" by (rule sample_lists)
  then show ?thesis using list_splice_cut [OF h(2,3)] by auto
qed

text \<open>
  C35.  The same for the lists with a single-pointer head, which are the chains of the inode hash table.
  On every chain, the empty one included, adding at the head is \<open>#\<close>, the test for emptiness is right, and the
  iteration visits the nodes in order and ends; and wherever a node \<open>x\<close> is in the chain, \<open>hlist_del\<close> removes it
  without being told the head, and a node can be added before it, after it or in its place.  None of the
  operations follows a null pointer, at either end of the chain, and each leaves every other chain alone.
\<close>

theorem hlist_ops_refine:
  assumes "hlist h p xs" "n \<notin> set xs" "n \<noteq> 0" "q \<noteq> p" "hlist h q zs" "set zs \<inter> insert n (set xs) = {}"
  shows "(\<exists>h'. hlist_add_head n p h = Inr h' \<and> hlist h' p (n # xs) \<and> hlist h' q zs) \<and>
    hlist_empty p h = Inr (xs = []) \<and> hlist_nodes (length xs) (h_first h p) h = Inr xs \<and>
    (\<forall>us x vs. xs = us @ x # vs \<longrightarrow>
       (\<exists>h'. hlist_del x h = Inr h' \<and> hlist h' p (us @ vs) \<and> hlist h' q zs) \<and>
       (\<exists>h'. hlist_add_before n x h = Inr h' \<and> hlist h' p (us @ n # x # vs) \<and> hlist h' q zs) \<and>
       (\<exists>h'. hlist_add_after x n h = Inr h' \<and> hlist h' p (us @ x # n # vs) \<and> hlist h' q zs) \<and>
       (\<exists>h'. hlist_replace x n h = Inr h' \<and> hlist h' p (us @ n # vs) \<and> hlist h' q zs))"
proof (intro conjI allI impI)
  note other = frames_hlist [OF _ assms(5,4)]
  have A: "set zs \<inter> set xs = {}" using assms(6) by blast
  show "\<exists>h'. hlist_add_head n p h = Inr h' \<and> hlist h' p (n # xs) \<and> hlist h' q zs"
    using hlist_add_head [OF assms(1-3)] other [OF _ assms(6)] by blast
  show "hlist_empty p h = Inr (xs = [])" by (rule hlist_empty_iff [OF assms(1)])
  show "hlist_nodes (length xs) (h_first h p) h = Inr xs" using hlist_nodes_eq [OF assms(1)] by simp
  fix us x vs assume x: "xs = us @ x # vs"
  note s = assms(1-3) [unfolded x]
  show "\<exists>h'. hlist_del x h = Inr h' \<and> hlist h' p (us @ vs) \<and> hlist h' q zs"
    using hlist_del [OF s(1)] other [OF _ A] unfolding x by blast
  show "\<exists>h'. hlist_add_before n x h = Inr h' \<and> hlist h' p (us @ n # x # vs) \<and> hlist h' q zs"
    using hlist_add_before [OF s] other [OF _ assms(6)] unfolding x by blast
  show "\<exists>h'. hlist_add_after x n h = Inr h' \<and> hlist h' p (us @ x # n # vs) \<and> hlist h' q zs"
    using hlist_add_after [OF s] other [OF _ assms(6)] unfolding x by blast
  show "\<exists>h'. hlist_replace x n h = Inr h' \<and> hlist h' p (us @ n # vs) \<and> hlist h' q zs"
    using hlist_replace [OF s] other [OF _ assms(6)] unfolding x by blast
qed

text \<open>The chain of the nodes 3 and 2 at the head 1, and an empty one at the head 4.\<close>

definition sample_hlist :: "hlist_heap res" where
  "sample_hlist = bind_r (INIT_HLIST_HEAD 1 \<lparr>h_first = \<lambda>_. 0, n_next = \<lambda>_. 0, n_pprev = \<lambda>_. LNull\<rparr>) (\<lambda>h.
     bind_r (hlist_add_head 2 1 h) (hlist_add_head 3 1))"

lemma sample_hlist:
  obtains h where "sample_hlist = Inr h" "hlist h 1 [3, 2]" "hlist h 4 []"
proof -
  let ?h = "\<lparr>h_first = \<lambda>_. 0, n_next = \<lambda>_. 0, n_pprev = \<lambda>_. LNull\<rparr>"
  have h0: "INIT_HLIST_HEAD 1 ?h = Inr (set_first 1 0 ?h)" "hlist (set_first 1 0 ?h) 1 []" "hlist (set_first 1 0 ?h) 4 []"
    by (simp_all add: INIT_HLIST_HEAD_def hlist_def)
  obtain h1 where h1: "hlist_add_head 2 1 (set_first 1 0 ?h) = Inr h1" "hlist h1 1 [2]" "frames 1 {2} (set_first 1 0 ?h) h1"
    using hlist_add_head [OF h0(2), of 2] by auto
  obtain h2 where h2: "hlist_add_head 3 1 h1 = Inr h2" "hlist h2 1 [3, 2]" "frames 1 {3, 2} h1 h2"
    using hlist_add_head [OF h1(2), of 3] by auto
  have "hlist h2 4 []" using frames_hlist [OF h2(3) frames_hlist [OF h1(3) h0(3)]] by simp
  then show thesis using that h0(1) h1(1) h2(1,2) by (simp add: sample_hlist_def)
qed

theorem hlist_ops_refine_witness:
  "\<exists>h h1 h2. sample_hlist = Inr h \<and> hlist_del 2 h = Inr h1 \<and> hlist h1 1 [3] \<and> hlist h1 4 [] \<and>
     hlist_nodes 2 (h_first h 1) h = Inr [3, 2] \<and> hlist_add_head 5 4 h = Inr h2 \<and> hlist h2 4 [5] \<and> hlist h2 1 [3, 2]"
proof -
  obtain h where h: "sample_hlist = Inr h" "hlist h 1 [3, 2]" "hlist h 4 []" by (rule sample_hlist)
  note a = hlist_ops_refine [OF h(2) _ _ _ h(3), of 5] and b = hlist_ops_refine [OF h(3) _ _ _ h(2), of 5]
  have "\<forall>us x vs. [3, 2] = us @ x # vs \<longrightarrow> (\<exists>h'. hlist_del x h = Inr h' \<and> hlist h' 1 (us @ vs) \<and> hlist h' 4 [])"
    using a by simp
  from this [rule_format, of "[3]" 2 "[]"] have "\<exists>h'. hlist_del 2 h = Inr h' \<and> hlist h' 1 ([3] @ []) \<and> hlist h' 4 []" by simp
  moreover have "hlist_nodes 2 (h_first h 1) h = Inr [3, 2]" using a by (simp add: numeral_2_eq_2)
  moreover have "\<exists>h'. hlist_add_head 5 4 h = Inr h' \<and> hlist h' 4 [5] \<and> hlist h' 1 [3, 2]" using b by simp
  ultimately show ?thesis using h(1) by auto
qed

end
