(* ===== verification/CacheOk.thy ===== *)
theory CacheOk
  imports Cache HList
begin

text \<open>
  The invariant of the inode cache (\<open>cache_ok\<close>) and what its operations do to it, seen through the
  map \<open>w_inodes\<close> from addresses to inodes: \<open>testfs_get_inode\<close> returns the one inode with the number,
  loading it from the disk when it is not cached, \<open>testfs_put_inode\<close> drops a reference and frees the
  inode with the last one.  The locale \<open>inode_cache\<close> states these laws as the interface that the
  directory and command layers use; it is interpreted by the model of \<open>src/inode.c\<close>.
\<close>

section \<open>The invariant\<close>

definition cached :: "'d world \<Rightarrow> nat \<Rightarrow> ptr \<Rightarrow> inode \<Rightarrow> bool" where
  "cached w k p ino \<longleftrightarrow> w_inodes w p = Some ino \<and> i_nr ino = int k"

definition chains_ok :: "'d world \<Rightarrow> ptr list list \<Rightarrow> bool" where
  "chains_ok w cs \<longleftrightarrow> length cs = inode_hash_size \<and>
     (\<forall>i < inode_hash_size. distinct (cs ! i) \<and>
        (\<forall>p. p \<in> set (cs ! i) \<longleftrightarrow> (\<exists>ino. w_inodes w p = Some ino \<and> inode_hashfn (i_nr ino) = i)))"

definition cache_ok :: "'d world \<Rightarrow> bool" where
  "cache_ok w \<longleftrightarrow> (\<exists>cs. w_table w = Hash cs \<and> chains_ok w cs) \<and> 0 < w_next w \<and>
     (\<forall>p ino. w_inodes w p = Some ino \<longrightarrow>
        p \<noteq> NULL \<and> p < w_next w \<and> i_sb ino = w_sb w \<and> 0 < i_count ino) \<and>
     (\<forall>p q a b. w_inodes w p = Some a \<longrightarrow> w_inodes w q = Some b \<longrightarrow> i_nr a = i_nr b \<longrightarrow> p = q)"

lemma hashfn_bound: "inode_hashfn nr < inode_hash_size"
proof -
  have "unat (drop_bit 24 w) < 2 ^ 8" for w :: "32 word"
  proof -
    have "unat w < 2 ^ 32" using unsigned_less [of w] by simp
    then have "unat w div 2 ^ 24 < 2 ^ 8" using less_mult_imp_div_less [of "unat w" "2 ^ 8" "2 ^ 24"] by simp
    then show ?thesis by (simp add: drop_bit_eq_div unat_div_distrib)
  qed
  then show ?thesis by (simp add: inode_hashfn_def hash_int_def inode_hash_size_def)
qed

lemma cache_okD:
  assumes "cache_ok w"
  shows "\<exists>cs. w_table w = Hash cs \<and> chains_ok w cs" "0 < w_next w" "w_inodes w NULL = None"
    "w_inodes w (w_next w) = None"
    "w_inodes w p = Some ino \<Longrightarrow> p \<noteq> NULL" "w_inodes w p = Some ino \<Longrightarrow> p < w_next w"
    "w_inodes w p = Some ino \<Longrightarrow> i_sb ino = w_sb w" "w_inodes w p = Some ino \<Longrightarrow> 0 < i_count ino"
    "w_inodes w p = Some a \<Longrightarrow> w_inodes w q = Some b \<Longrightarrow> i_nr a = i_nr b \<Longrightarrow> p = q"
proof -
  note c = assms [unfolded cache_ok_def]
  show "\<exists>cs. w_table w = Hash cs \<and> chains_ok w cs" "0 < w_next w" using c by blast+
  show "w_inodes w p = Some ino \<Longrightarrow> p \<noteq> NULL" "w_inodes w p = Some ino \<Longrightarrow> p < w_next w"
    "w_inodes w p = Some ino \<Longrightarrow> i_sb ino = w_sb w" "w_inodes w p = Some ino \<Longrightarrow> 0 < i_count ino" for p ino
    using c by blast+
  then show "w_inodes w NULL = None" "w_inodes w (w_next w) = None"
    by (metis not_None_eq, metis less_irrefl not_None_eq)
  show "w_inodes w p = Some a \<Longrightarrow> w_inodes w q = Some b \<Longrightarrow> i_nr a = i_nr b \<Longrightarrow> p = q"
    using c by blast
qed

lemma deref_eq: "cache_ok w \<Longrightarrow> w_inodes w p = Some ino \<Longrightarrow> deref p w = Inr ino"
  using cache_okD(5) [of w p ino] by (simp add: deref_def)

lemma deref_sb_eq: "cache_ok w \<Longrightarrow> w_inodes w p = Some ino \<Longrightarrow> deref_sb p w = Inr ino"
  using cache_okD(7) [of w p ino] by (simp add: deref_sb_def deref_eq)

lemma world_simps [simp]:
  "w_fs (store p ino w) = w_fs w" "w_sb (store p ino w) = w_sb w" "w_table (store p ino w) = w_table w"
  "w_next (store p ino w) = w_next w" "w_inodes (store p ino w) = (w_inodes w)(p \<mapsto> ino)"
  "w_fs (set_fs s w) = s" "w_sb (set_fs s w) = w_sb w" "w_table (set_fs s w) = w_table w"
  "w_next (set_fs s w) = w_next w" "w_inodes (set_fs s w) = w_inodes w"
  by (simp_all add: store_def set_fs_def)

lemma cache_ok_set_fs [simp]: "cache_ok (set_fs s w) = cache_ok w"
  by (simp add: cache_ok_def chains_ok_def)

text \<open>An update of a cached inode that keeps its identity.\<close>

lemma cache_ok_store:
  assumes "cache_ok w" "w_inodes w p = Some ino" "i_nr ino' = i_nr ino" "i_sb ino' = i_sb ino" "0 < i_count ino'"
  shows "cache_ok (store p ino' w)"
proof -
  obtain cs where cs: "w_table w = Hash cs" "chains_ok w cs" using cache_okD(1) [OF assms(1)] by blast
  have "chains_ok (store p ino' w) cs" using cs(2) assms(2,3) unfolding chains_ok_def by auto
  then show ?thesis using cs(1) assms cache_okD(2,5-8) [OF assms(1)] cache_okD(9) [OF assms(1)]
    unfolding cache_ok_def by (auto split: if_splits)
qed

section \<open>Finding, inserting, removing\<close>

lemma find_in_chain_hit:
  "(\<And>q. q \<in> set ps \<Longrightarrow> \<exists>b. deref q w = Inr b \<and> i_sb b = w_sb w \<and> (i_nr b = nr \<longleftrightarrow> q = p)) \<Longrightarrow>
   p \<in> set ps \<Longrightarrow> find_in_chain nr ps w = Inr p"
proof (induction ps)
  case (Cons q ps)
  then obtain b where "deref q w = Inr b" "i_sb b = w_sb w" "i_nr b = nr \<longleftrightarrow> q = p" by force
  then show ?case using Cons by (cases "q = p") auto
qed simp

lemma find_in_chain_miss:
  "(\<And>q. q \<in> set ps \<Longrightarrow> \<exists>b. deref q w = Inr b \<and> i_nr b \<noteq> nr) \<Longrightarrow> find_in_chain nr ps w = Inr NULL"
proof (induction ps)
  case (Cons q ps)
  then obtain b where "deref q w = Inr b" "i_nr b \<noteq> nr" by force
  then show ?case using Cons by auto
qed simp

lemma chain_at:
  assumes "cache_ok w"
  obtains cs where "w_table w = Hash cs" "chains_ok w cs" "hash_chains w = Inr cs" "length cs = 256"
    "\<And>p. p \<in> set (cs ! inode_hashfn nr) \<longleftrightarrow>
       (\<exists>ino. w_inodes w p = Some ino \<and> inode_hashfn (i_nr ino) = inode_hashfn nr)"
proof -
  obtain cs where cs: "w_table w = Hash cs" "chains_ok w cs" using cache_okD(1) [OF assms] by blast
  then show thesis
    using that [of cs] hashfn_bound [of nr] by (auto simp: hash_chains_def chains_ok_def inode_hash_size_def)
qed

lemma hash_find_hit:
  assumes ok: "cache_ok w" and p: "w_inodes w p = Some ino"
  shows "inode_hash_find (i_nr ino) w = Inr p"
proof -
  obtain cs where cs: "w_table w = Hash cs" "hash_chains w = Inr cs" "length cs = 256"
    "\<And>q. q \<in> set (cs ! inode_hashfn (i_nr ino)) \<longleftrightarrow>
       (\<exists>b. w_inodes w q = Some b \<and> inode_hashfn (i_nr b) = inode_hashfn (i_nr ino))"
    using chain_at [OF ok, of "i_nr ino"] by metis
  have "find_in_chain (i_nr ino) (cs ! inode_hashfn (i_nr ino)) w = Inr p"
  proof (rule find_in_chain_hit)
    fix q assume "q \<in> set (cs ! inode_hashfn (i_nr ino))"
    then obtain b where b: "w_inodes w q = Some b" using cs(4) by blast
    then have "i_nr b = i_nr ino \<longleftrightarrow> q = p" using cache_okD(9) [OF ok b p] p by auto
    then show "\<exists>b. deref q w = Inr b \<and> i_sb b = w_sb w \<and> (i_nr b = i_nr ino \<longleftrightarrow> q = p)"
      using deref_eq [OF ok b] cache_okD(7) [OF ok b] by blast
  qed (use cs(4) p in blast)
  then show ?thesis
    using cs(2,3) hashfn_bound [of "i_nr ino"] by (simp add: inode_hash_find_def inode_hash_size_def)
qed

lemma hash_find_miss:
  assumes ok: "cache_ok w" and m: "\<And>p ino. w_inodes w p = Some ino \<Longrightarrow> i_nr ino \<noteq> nr"
  shows "inode_hash_find nr w = Inr NULL"
proof -
  obtain cs where cs: "w_table w = Hash cs" "hash_chains w = Inr cs" "length cs = 256"
    "\<And>q. q \<in> set (cs ! inode_hashfn nr) \<longleftrightarrow>
       (\<exists>b. w_inodes w q = Some b \<and> inode_hashfn (i_nr b) = inode_hashfn nr)"
    using chain_at [OF ok, of nr] by metis
  have "find_in_chain nr (cs ! inode_hashfn nr) w = Inr NULL"
    by (rule find_in_chain_miss) (use cs(4) m deref_eq [OF ok] in blast)
  then show ?thesis
    using cs(2,3) hashfn_bound [of nr] by (simp add: inode_hash_find_def inode_hash_size_def)
qed

section \<open>Getting and putting\<close>

text \<open>The inode loaded for number \<open>k\<close>.\<close>

definition loaded :: "nat \<Rightarrow> 'd world \<Rightarrow> inode" where
  "loaded k w = \<lparr>i_flags = 0, i_in = dinode_at (w_fs w) k, i_nr = int k, i_count = 1, i_sb = w_sb w,
                i_ind = replicate 128 0\<rparr>"

text \<open>Two worlds that differ in nothing but cached inodes and addresses.\<close>

definition same_world :: "'d world \<Rightarrow> 'd world \<Rightarrow> bool" where
  "same_world w w' \<longleftrightarrow> w_fs w' = w_fs w \<and> w_sb w' = w_sb w \<and> w_next w \<le> w_next w'"

lemma get_inode_hit:
  assumes "cache_ok w" "cached w k p ino"
  shows "testfs_get_inode (int k) w = Inr (p, store p (ino\<lparr>i_count := i_count ino + 1\<rparr>) w)"
    "cache_ok (store p (ino\<lparr>i_count := i_count ino + 1\<rparr>) w)"
proof -
  have p: "w_inodes w p = Some ino" "i_nr ino = int k" using assms(2) by (simp_all add: cached_def)
  show "testfs_get_inode (int k) w = Inr (p, store p (ino\<lparr>i_count := i_count ino + 1\<rparr>) w)"
    using hash_find_hit [OF assms(1) p(1)] p(2) deref_eq [OF assms(1) p(1)] cache_okD(5) [OF assms(1) p(1)]
    by (simp add: testfs_get_inode_def)
  show "cache_ok (store p (ino\<lparr>i_count := i_count ino + 1\<rparr>) w)"
    by (rule cache_ok_store [OF assms(1) p(1)]) (use cache_okD(8) [OF assms(1) p(1)] in simp_all)
qed

lemma chains_insert:
  assumes "chains_ok w cs" "w_inodes w p = None" "w_inodes w' = (w_inodes w)(p \<mapsto> ino)"
  shows "chains_ok w' (cs[inode_hashfn (i_nr ino) := p # cs ! inode_hashfn (i_nr ino)])"
proof -
  let ?i = "inode_hashfn (i_nr ino)"
  have len: "length cs = inode_hash_size" using assms(1) by (simp add: chains_ok_def)
  have np: "p \<notin> set (cs ! j)" if "j < inode_hash_size" for j
    using assms(1,2) that by (simp add: chains_ok_def)
  show ?thesis unfolding chains_ok_def
  proof (intro conjI allI impI)
    show "length (cs[?i := p # cs ! ?i]) = inode_hash_size" using len by simp
    fix j assume j: "j < inode_hash_size"
    have old: "distinct (cs ! j)"
      "\<And>q. q \<in> set (cs ! j) \<longleftrightarrow> (\<exists>b. w_inodes w q = Some b \<and> inode_hashfn (i_nr b) = j)"
      using assms(1) j unfolding chains_ok_def by blast+
    show "distinct (cs[?i := p # cs ! ?i] ! j)"
      using old(1) np [OF j] len j by (cases "j = ?i") simp_all
    fix q
    show "(q \<in> set (cs[?i := p # cs ! ?i] ! j)) \<longleftrightarrow>
        (\<exists>b. w_inodes w' q = Some b \<and> inode_hashfn (i_nr b) = j)"
      using old(2) [of q] np [OF j] len j assms(2) unfolding assms(3)
      by (cases "j = ?i"; cases "q = p") auto
  qed
qed

text \<open>An inode that is not cached is read from its block.\<close>

lemma get_inode_load:
  assumes ok: "cache_ok w" and k: "k < NR_INODES" and m: "\<And>p ino. \<not> cached w k p ino"
    and i0: "i0 = \<lparr>i_flags = 0, i_in = zero_dinode, i_nr = int k, i_count = 1, i_sb = w_sb w, i_ind = replicate 128 0\<rparr>"
    and rd: "testfs_read_inode_block i0 (w_fs w) = Inr B" "length B = 512"
  shows "\<exists>w'. testfs_get_inode (int k) w = Inr (w_next w, w') \<and> cache_ok w' \<and> same_world w w' \<and>
    w_inodes w' = (w_inodes w)(w_next w \<mapsto> i0\<lparr>i_in := dinode_of_bytes (seg (k mod 16 * 32) 32 B)\<rparr>)"
proof -
  let ?p = "w_next w" and ?ino = "i0\<lparr>i_in := dinode_of_bytes (seg (k mod 16 * 32) 32 B)\<rparr>"
  note ib = inode_to_block_eq(2) [of i0 k, OF _ k]
  have "length (dinode_bytes zero_dinode) = 32"
    using dinode.length_enc [of zero_dinode] by (simp add: dinode_ok_def zero_dinode_def in_int32_def)
  moreover have "k mod 16 * 32 + 32 \<le> 512" using mod_less_divisor [of 16 k] by linarith
  ultimately have cp: "c_memcpy (dinode_bytes zero_dinode) 0 B (int (k mod 16 * 32)) 32 = Inr (seg (k mod 16 * 32) 32 B)"
    using c_memcpy_ok [of "dinode_bytes zero_dinode" 0 B "k mod 16 * 32" 32] rd(2) by simp
  have "inode_hash_find (int k) w = Inr NULL"
    by (rule hash_find_miss [OF ok]) (use m in \<open>auto simp: cached_def\<close>)
  then have run: "testfs_get_inode (int k) w =
      bind_r (inode_hash_insert ?p (store ?p ?ino (w\<lparr>w_next := Suc ?p\<rparr>))) (\<lambda>w. Inr (?p, w))"
    using rd ib cp unfolding i0 by (simp add: testfs_get_inode_def Let_def)
  obtain cs where cs: "w_table w = Hash cs" "chains_ok w cs" "length cs = 256"
    using chain_at [OF ok, of "int k"] by metis
  let ?w = "store ?p ?ino (w\<lparr>w_next := Suc ?p\<rparr>)"
  let ?h = "inode_hashfn (int k)"
  let ?w' = "?w\<lparr>w_table := Hash (cs[?h := ?p # cs ! ?h])\<rparr>"
  have nr: "i_nr ?ino = int k" "i_sb ?ino = w_sb w" "i_count ?ino = 1" by (simp_all add: i0)
  have "inode_hash_insert ?p ?w = Inr ?w'"
    using cs hashfn_bound [of "int k"] cache_okD(2) [OF ok] nr
    by (simp add: inode_hash_insert_def deref_def hash_chains_def inode_hash_size_def)
  moreover have "cache_ok ?w'"
  proof -
    have "chains_ok ?w' (cs[?h := ?p # cs ! ?h])"
      using chains_insert [OF cs(2) cache_okD(4) [OF ok], of ?w' ?ino] nr by simp
    moreover have "i_nr a \<noteq> int k \<and> int k \<noteq> i_nr a" if "w_inodes w q = Some a" for q a
      using m [of q a] that by (auto simp: cached_def)
    moreover note cache_okD(2-4) [OF ok] cache_okD(5-8) [OF ok] cache_okD(9) [OF ok]
    ultimately show ?thesis using nr unfolding cache_ok_def
      by (auto simp: less_SucI split: if_splits)
  qed
  ultimately show ?thesis using run by (auto simp: same_world_def)
qed

lemma get_inode_miss:
  assumes ok: "cache_ok w" and fs: "fs_ok N (w_fs w)" and k: "k < NR_INODES"
    and m: "\<And>p ino. \<not> cached w k p ino"
  shows "\<exists>w'. testfs_get_inode (int k) w = Inr (w_next w, w') \<and> cache_ok w' \<and> same_world w w' \<and>
    w_inodes w' = (w_inodes w)(w_next w \<mapsto> loaded k w)"
proof -
  let ?i0 = "\<lparr>i_flags = 0, i_in = zero_dinode, i_nr = int k, i_count = 1, i_sb = w_sb w, i_ind = replicate 128 0\<rparr>"
  note b = slot_bounds [OF fs k] and ib = inode_to_block_eq(1) [of ?i0 k, OF _ k]
  have "testfs_read_inode_block ?i0 (w_fs w) = Inr (dblk (w_fs w) (64 + k div 16))"
    using ib fs_okD(4) [OF fs] read_block [of N "w_fs w" "64 + int (k div 16)"] fs_okD(1) [OF fs] b(2)
    by (simp add: testfs_read_inode_block_def std_dsb_def nat_add_distrib)
  from get_inode_load [OF ok k m refl this b(3)] show ?thesis by (simp add: loaded_def dinode_at_def)
qed

lemma chains_remove:
  assumes "chains_ok w cs" "w_inodes w' = (w_inodes w)(p := None)"
  shows "chains_ok w' (map (remove1 p) cs)"
proof -
  have len: "length cs = inode_hash_size" using assms(1) by (simp add: chains_ok_def)
  show ?thesis unfolding chains_ok_def
  proof (intro conjI allI impI)
    show "length (map (remove1 p) cs) = inode_hash_size" using len by simp
    fix j assume j: "j < inode_hash_size"
    have old: "distinct (cs ! j)"
      "\<And>q. q \<in> set (cs ! j) \<longleftrightarrow> (\<exists>b. w_inodes w q = Some b \<and> inode_hashfn (i_nr b) = j)"
      using assms(1) j unfolding chains_ok_def by blast+
    show "distinct (map (remove1 p) cs ! j)" using old(1) len j by simp
    show "(q \<in> set (map (remove1 p) cs ! j)) \<longleftrightarrow>
        (\<exists>b. w_inodes w' q = Some b \<and> inode_hashfn (i_nr b) = j)" for q
      using old(2) [of q] set_remove1_eq [OF old(1), of p] len j unfolding assms(2) by auto
  qed
qed

lemma put_inode_eq:
  assumes ok: "cache_ok w" and p: "w_inodes w p = Some ino" and cl: "\<not> has_flag ino I_FLAGS_DIRTY"
  shows "\<exists>w'. testfs_put_inode p w = Inr w' \<and> cache_ok w' \<and> w_fs w' = w_fs w \<and> w_sb w' = w_sb w \<and>
    w_next w' = w_next w \<and>
    w_inodes w' = (w_inodes w)(p := (if i_count ino = 1 then None else Some (ino\<lparr>i_count := i_count ino - 1\<rparr>)))"
proof (cases "i_count ino = 1")
  case False
  let ?w = "store p (ino\<lparr>i_count := i_count ino - 1\<rparr>) w"
  have "0 < i_count ino" using cache_okD(8) [OF ok p] .
  then have "cache_ok ?w" using False by (intro cache_ok_store [OF ok p]) simp_all
  then show ?thesis using False cl deref_eq [OF ok p] by (auto simp: testfs_put_inode_def Let_def)
next
  case True
  let ?w = "store p (ino\<lparr>i_count := 0\<rparr>) w"
  obtain cs where cs: "w_table w = Hash cs" "chains_ok w cs" "length cs = 256"
    "p \<in> set (cs ! inode_hashfn (i_nr ino))"
    using chain_at [OF ok, of "i_nr ino"] p by metis
  have pc: "p \<in> set (concat cs)"
    using cs(3,4) hashfn_bound [of "i_nr ino"] by (auto simp: inode_hash_size_def intro!: bexI [of _ "cs ! inode_hashfn (i_nr ino)"])
  let ?w' = "?w\<lparr>w_table := Hash (map (remove1 p) cs), w_inodes := (w_inodes w)(p := None)\<rparr>"
  have "inode_hash_remove p ?w = Inr (?w\<lparr>w_table := Hash (map (remove1 p) cs)\<rparr>)"
    using cs(1) pc by (simp add: inode_hash_remove_def hash_chains_def)
  then have "testfs_put_inode p w = Inr ?w'"
    using True cl deref_eq [OF ok p] by (simp add: testfs_put_inode_def)
  moreover have "cache_ok ?w'"
  proof -
    have "chains_ok ?w' (map (remove1 p) cs)" using chains_remove [OF cs(2), of ?w' p] by simp
    then show ?thesis using cache_okD [OF ok] unfolding cache_ok_def by (auto split: if_splits)
  qed
  ultimately show ?thesis using True by auto
qed

section \<open>The cache as an interface\<close>

text \<open>
  What the directory and command layers rely on: at most one in-memory inode per number; getting a
  number yields that inode, or a clean copy of its slot on the disk; putting drops one reference and
  the inode with the last.  Neither changes anything else of the inodes or the rest of the world.
\<close>

locale inode_cache =
  fixes inv :: "'w \<Rightarrow> bool"
    and view :: "'w \<Rightarrow> ptr \<Rightarrow> inode option"
    and rest :: "'w \<Rightarrow> 'r"
    and stored :: "'r \<Rightarrow> nat \<Rightarrow> dinode"
    and get :: "int \<Rightarrow> 'w \<Rightarrow> (ptr \<times> 'w) res"
    and put :: "ptr \<Rightarrow> 'w \<Rightarrow> 'w res"
  assumes unique: "inv w \<Longrightarrow> view w p = Some a \<Longrightarrow> view w q = Some b \<Longrightarrow> i_nr a = i_nr b \<Longrightarrow> p = q"
    and counted: "inv w \<Longrightarrow> view w p = Some a \<Longrightarrow> 0 < i_count a"
    and get_cached: "inv w \<Longrightarrow> view w p = Some a \<Longrightarrow> i_nr a = int k \<Longrightarrow>
      \<exists>w'. get (int k) w = Inr (p, w') \<and> inv w' \<and> rest w' = rest w \<and>
        view w' = (view w)(p \<mapsto> a\<lparr>i_count := i_count a + 1\<rparr>)"
    and get_new: "inv w \<Longrightarrow> k < NR_INODES \<Longrightarrow> (\<And>p a. view w p = Some a \<Longrightarrow> i_nr a \<noteq> int k) \<Longrightarrow>
      \<exists>p w' a. get (int k) w = Inr (p, w') \<and> inv w' \<and> rest w' = rest w \<and>
        view w p = None \<and> view w' = (view w)(p \<mapsto> a) \<and>
        i_nr a = int k \<and> i_count a = 1 \<and> i_flags a = 0 \<and> i_in a = stored (rest w) k"
    and put_law: "inv w \<Longrightarrow> view w p = Some a \<Longrightarrow> \<not> has_flag a I_FLAGS_DIRTY \<Longrightarrow>
      \<exists>w'. put p w = Inr w' \<and> inv w' \<and> rest w' = rest w \<and>
        view w' = (view w)(p := (if i_count a = 1 then None else Some (a\<lparr>i_count := i_count a - 1\<rparr>)))"
begin

definition clean :: "nat \<Rightarrow> 'w \<Rightarrow> bool" where
  "clean k w \<longleftrightarrow> (\<forall>p a. view w p = Some a \<longrightarrow> i_nr a = int k \<longrightarrow> \<not> has_flag a I_FLAGS_DIRTY)"

lemma get_put:
  assumes "inv w" "k < NR_INODES" "clean k w"
  shows "\<exists>p w1 w2. get (int k) w = Inr (p, w1) \<and> put p w1 = Inr w2 \<and> inv w2 \<and>
    rest w1 = rest w \<and> rest w2 = rest w \<and> view w2 = view w"
proof (cases "\<exists>p a. view w p = Some a \<and> i_nr a = int k")
  case True
  then obtain p a where a: "view w p = Some a" "i_nr a = int k" by blast
  obtain w1 where w1: "get (int k) w = Inr (p, w1)" "inv w1" "rest w1 = rest w"
      "view w1 = (view w)(p \<mapsto> a\<lparr>i_count := i_count a + 1\<rparr>)"
    using get_cached [OF assms(1) a] by blast
  have "\<not> has_flag (a\<lparr>i_count := i_count a + 1\<rparr>) I_FLAGS_DIRTY"
    using assms(3) a by (simp add: clean_def has_flag_def)
  then obtain w2 where "put p w1 = Inr w2" "inv w2" "rest w2 = rest w1"
      "view w2 = (view w1)(p := (if i_count a + 1 = 1 then None else Some a))"
    using put_law [OF w1(2), of p "a\<lparr>i_count := i_count a + 1\<rparr>"] w1(4) by auto
  then show ?thesis using w1 a counted [OF assms(1) a(1)] by (auto simp: fun_upd_idem)
next
  case False
  then obtain p w1 a where w1: "get (int k) w = Inr (p, w1)" "inv w1" "rest w1 = rest w" "view w p = None"
      "view w1 = (view w)(p \<mapsto> a)" "i_count a = 1" "i_flags a = 0"
    using get_new [OF assms(1,2)] by blast
  then obtain w2 where "put p w1 = Inr w2" "inv w2" "rest w2 = rest w1" "view w2 = (view w1)(p := None)"
    using put_law [OF w1(2), of p a] by (auto simp: has_flag_def)
  then show ?thesis using w1 by (auto simp: fun_upd_idem)
qed

lemma get_get:
  assumes "inv w" "k < NR_INODES"
  shows "\<exists>p w1 w2 a. get (int k) w = Inr (p, w1) \<and> get (int k) w1 = Inr (p, w2) \<and> inv w2 \<and> rest w2 = rest w \<and>
    view w1 p = Some a \<and> i_nr a = int k \<and> view w2 = (view w1)(p \<mapsto> a\<lparr>i_count := i_count a + 1\<rparr>)"
proof -
  obtain p w1 a where w1: "get (int k) w = Inr (p, w1)" "inv w1" "rest w1 = rest w"
      "view w1 p = Some a" "i_nr a = int k"
  proof (cases "\<exists>p a. view w p = Some a \<and> i_nr a = int k")
    case True
    then obtain p a where a: "view w p = Some a" "i_nr a = int k" by blast
    show thesis using get_cached [OF assms(1) a] a that [of p _ "a\<lparr>i_count := i_count a + 1\<rparr>"] by auto
  next
    case False
    then show thesis using get_new [OF assms] that by fastforce
  qed
  then show ?thesis using get_cached [OF w1(2,4,5)] by auto
qed

end

text \<open>The model of \<open>src/inode.c\<close> provides it.\<close>

interpretation ic: inode_cache
  "\<lambda>w. cache_ok w \<and> fs_ok N (w_fs w)" w_inodes "\<lambda>w. (w_fs w, w_sb w)" "\<lambda>(s, _). dinode_at s"
  testfs_get_inode testfs_put_inode
proof (unfold_locales, goal_cases)
  case (1 w p a q b)
  then show ?case using cache_okD(9) by blast
next
  case (2 w p a)
  then show ?case using cache_okD(8) by blast
next
  case (3 w p a k)
  then have "cached w k p a" by (simp add: cached_def)
  then show ?case using get_inode_hit [of w k p a] 3 by auto
next
  case (4 w k)
  then have "\<not> cached w k p a" for p a by (auto simp: cached_def)
  then show ?case
    using get_inode_miss [of w N k] 4 cache_okD(4) [of w] by (fastforce simp: loaded_def same_world_def)
next
  case (5 w p a)
  then show ?case using put_inode_eq [of w p a] by auto
qed

end
