(* ===== verification/Ramdisk.thy ===== *)
theory Ramdisk
  imports Super
begin

text \<open>
  A concrete block device, a RAM disk, and a concrete mounted file system on it, the state right
  after \<open>mkfs\<close> (\<open>fresh_fs\<close>).  They satisfy the hypotheses of the theorems, so the witnesses apply
  the theorems to them.
\<close>

section \<open>The device\<close>

definition pad_block :: "byte list \<Rightarrow> byte list" where
  "pad_block b = take BLOCK_SIZE (b @ replicate BLOCK_SIZE 0)"

definition ram_bdev :: "nat \<Rightarrow> (nat \<Rightarrow> byte list) bdev" where
  "ram_bdev N =
     \<lparr>bdev_accepts = \<lambda>d start n. start + n \<le> N,
      bdev_read = \<lambda>d start n. concat (map (\<lambda>i. pad_block (d (start + i))) [0 ..< n]),
      bdev_write = \<lambda>d start n buf j.
        if start \<le> j \<and> j < start + n then seg (BLOCK_SIZE * (j - start)) BLOCK_SIZE buf else d j\<rparr>"

lemma length_pad_block [simp]: "length (pad_block b) = 512"
  by (simp add: pad_block_def)

lemma pad_block_id [simp]: "length b = 512 \<Longrightarrow> pad_block b = b"
  by (simp add: pad_block_def)

lemma seg_concat_blocks:
  "i < n \<Longrightarrow> (\<And>j. length (f j) = 512) \<Longrightarrow>
   seg (512 * i) 512 (concat (map f [a ..< a + n])) = f (a + i)"
proof (induction n arbitrary: i a)
  case (Suc n)
  have up: "[a ..< a + Suc n] = a # [Suc a ..< Suc a + n]" by (simp add: upt_rec)
  show ?case
  proof (cases i)
    case 0
    then show ?thesis unfolding up using Suc.prems(2) by (simp add: seg_def)
  next
    case (Suc j)
    have "seg (512 * j) 512 (concat (map f [Suc a ..< Suc a + n])) = f (Suc a + j)"
      by (rule Suc.IH) (use Suc Suc.prems in simp_all)
    then show ?thesis unfolding up using Suc.prems(2) Suc
      by (simp add: seg_def add.commute [of 512])
  qed
qed simp

lemma concat_blocks_shift:
  "concat (map (\<lambda>i. f (a + i)) [0 ..< n]) = concat (map f [a ..< a + n])"
  by (rule arg_cong [of _ _ concat], rule nth_equalityI) simp_all

lemma length_concat_blocks: "(\<And>j. length (f j) = 512) \<Longrightarrow> length (concat (map f [a ..< a + n])) = n * 512"
  by (induction n) simp_all

lemma ram_bdev_ok: "bdev_ok N (ram_bdev N)"
  unfolding bdev_ok_def
proof (intro allI impI, elim conjE, intro conjI allI impI)
  fix d :: "nat \<Rightarrow> byte list" and start n i :: nat
  assume n: "0 < n" "start + n \<le> N"
  show "bdev_accepts (ram_bdev N) d start n" using n by (simp add: ram_bdev_def)
  show "length (bdev_read (ram_bdev N) d start n) = n * 512"
    using concat_blocks_shift [of "\<lambda>j. pad_block (d j)" start n]
      length_concat_blocks [of "\<lambda>j. pad_block (d j)" start n] by (simp add: ram_bdev_def)
  show "seg (512 * i) 512 (bdev_read (ram_bdev N) d start n) = bdev_read (ram_bdev N) d (start + i) 1"
    if "i < n"
    using that concat_blocks_shift [of "\<lambda>j. pad_block (d j)" start n]
      seg_concat_blocks [of i n "\<lambda>j. pad_block (d j)" start] by (simp add: ram_bdev_def)
next
  fix d :: "nat \<Rightarrow> byte list" and start n j :: nat and buf :: "byte list"
  assume n: "0 < n" "start + n \<le> N" and b: "length buf = n * 512 \<and> j < N"
  show "bdev_read (ram_bdev N) (bdev_write (ram_bdev N) d start n buf) j 1 =
      (if start \<le> j \<and> j < start + n then seg (512 * (j - start)) 512 buf
       else bdev_read (ram_bdev N) d j 1)"
  proof (cases "start \<le> j \<and> j < start + n")
    case True
    then have "512 * (j - start) + 512 \<le> n * 512" by linarith
    then show ?thesis using True b by (simp add: ram_bdev_def)
  next
    case False
    then show ?thesis by (auto simp: ram_bdev_def)
  qed
qed

section \<open>A fresh file system\<close>

definition fresh_fs :: "(nat \<Rightarrow> byte list) fsys" where
  "fresh_fs =
     \<lparr>fs_bdev = ram_bdev 8192, fs_media = \<lambda>_. replicate 512 0,
      fs_sb = \<lparr>sb_dsb = std_dsb,
               inode_freemap = Some \<lparr>bm_nbits = 4096, bm_v = replicate 512 0\<rparr>,
               block_freemap = Some \<lparr>bm_nbits = 8192, bm_v = replicate 1024 0\<rparr>,
               tx_in_progress = TX_NONE, csum_table = Some (replicate 7680 0),
               csum_block_dirty = replicate 60 False\<rparr>,
      fs_out = []\<rparr>"

lemma zero_bitmap:
  assumes "unat n = 8 * k" "8 * k + 7 < 2 ^ 32" "length v = k"
  shows "bm_wf \<lparr>bm_nbits = n, bm_v = v\<rparr>"
proof -
  have "k = (8 * k + 7) div 8" by simp
  then show ?thesis using assms by (simp add: bm_wf_def)
qed

lemma zero_bitmap_set: "unat n \<le> 8 * k \<Longrightarrow> bm_set \<lparr>bm_nbits = n, bm_v = replicate k 0\<rparr> = {}"
  by (auto simp: bm_set_def bm_bit_def)

lemma fresh_dblk: "dblk fresh_fs i = replicate 512 0"
  by (simp add: dblk_def fresh_fs_def ram_bdev_def)

lemma fresh_fs_ok: "fs_ok 8192 fresh_fs"
proof -
  have "bm_wf \<lparr>bm_nbits = 8192, bm_v = replicate 1024 0\<rparr>" by (rule zero_bitmap [of _ 1024]) simp_all
  moreover have "bm_wf \<lparr>bm_nbits = 4096, bm_v = replicate 512 0\<rparr>" by (rule zero_bitmap [of _ 512]) simp_all
  moreover have "dev_ok 8192 fresh_fs" using ram_bdev_ok [of 8192] by (simp add: dev_ok_def fresh_fs_def)
  ultimately show ?thesis
    unfolding fs_ok_def freemaps_wf_def csum_wf_def bmap_def imap_def by (simp add: fresh_fs_def)
qed

lemma fresh_used: "used fresh_fs = {}" "iused fresh_fs = {}"
  by (simp_all add: used_def iused_def bmap_def imap_def fresh_fs_def zero_bitmap_set)

lemma fresh_synced: "freemaps_synced fresh_fs"
proof -
  have "replicate 512 (0 :: byte) @ replicate 512 0 = replicate 1024 0"
    by (simp only: replicate_add [symmetric]) simp
  then show ?thesis
    using fresh_dblk by (simp add: freemaps_synced_def) (simp add: bmap_def imap_def fresh_fs_def)
qed

lemma words_bytes_zero: "words_bytes (replicate n 0) = replicate (4 * n) 0"
proof (induction n)
  case (Suc n)
  have "le_bytes 0 = replicate 4 0" by (simp add: le_bytes_def numeral_eq_Suc)
  then have "words_bytes (replicate (Suc n) 0) = replicate 4 0 @ replicate (4 * n) 0"
    using Suc by (simp add: words_bytes_def)
  then show ?case by (simp only: replicate_add [symmetric]) simp
qed (simp add: words_bytes_def)

lemma fresh_coherent: "csum_coherent fresh_fs"
proof -
  have "csum_tblk fresh_fs i = replicate 512 0" if "i < 60" for i
    using that by (simp add: csum_tblk_def csum_table_of_def fresh_fs_def words_bytes_zero)
  then show ?thesis using fresh_dblk by (simp add: csum_coherent_def)
qed

lemma csum_of_zero: "csum_of (replicate 512 0) = 0"
proof -
  have "bytes_words 128 (replicate 512 0) = replicate 128 (0 :: 32 word)"
    by (rule nth_equalityI) (simp_all add: bytes_words_def word_at_replicate_0)
  moreover have "fold (\<lambda>w c. c XOR w) (replicate n 0) c = (c :: 32 word)" for n c
    by (induction n) simp_all
  ultimately show ?thesis by (simp add: csum_of_def)
qed

lemma fresh_csum_table: "csum_table_of fresh_fs = replicate 7680 0"
  by (simp add: csum_table_of_def fresh_fs_def)

end
