(* ===== verification/Samples.thy ===== *)
theory Samples
  imports InodeSync Ramdisk
begin

text \<open>
  Concrete inodes for the witnesses: a new, empty file (\<open>new_ino\<close>) on \<open>fresh_fs\<close>, and a file of three
  bytes (\<open>one_ino\<close>) on \<open>one_fs\<close>, a file system with one block in use.
\<close>

lemma fresh_nfree: "nfree fresh_fs = 7680"
  by (simp add: nfree_def fresh_used)

section \<open>Inodes on it\<close>

definition new_ino :: inode where
  "new_ino = \<lparr>i_flags = 0, i_in = zero_dinode\<lparr>i_type := I_FILE\<rparr>, i_nr = 1, i_count = 1, i_sb = 0,
              i_ind = replicate 128 0\<rparr>"

lemma empty_file_ok: "file_ok s (zero_dinode\<lparr>i_type := t\<rparr>)"
  by (auto simp: file_ok_def nblocks_def imap_ok_def iblks_def lblk_def zero_dinode_def nth_Cons')

text \<open>A file of three bytes in the first data block.\<close>

definition one_fs :: "(nat \<Rightarrow> byte list) fsys" where
  "one_fs = set_bmap 0 True fresh_fs"

definition one_ino :: inode where
  "one_ino = new_ino\<lparr>i_in := zero_dinode\<lparr>i_type := I_FILE, i_size := 3, i_block_nr := [192, 0, 0, 0]\<rparr>\<rparr>"

lemma one_fs_ok: "fs_ok 8192 one_fs"
  unfolding one_fs_def by (rule fs_ok_set_bmap [OF fresh_fs_ok]) simp

lemma one_used: "used one_fs = {0}" "iused one_fs = {}"
  using used_set_bmap [OF fresh_fs_ok, of 0 True] by (simp_all add: one_fs_def fresh_used)

lemma one_nfree: "nfree one_fs = 7679"
  using nfree_set_bmap [OF fresh_fs_ok, of 0] by (simp add: one_fs_def fresh_used fresh_nfree)

lemma one_dblk: "4 \<le> i \<Longrightarrow> i < 8192 \<Longrightarrow> dblk one_fs i = replicate 512 0"
  using fresh_fs_ok by (simp add: one_fs_def fresh_dblk)

lemma less_1_0: "n < Suc 0 \<longleftrightarrow> n = (0 :: nat)"
  by simp

lemma one_file_ok: "file_ok one_fs (i_in one_ino)"
proof -
  have "lblk one_fs (i_in one_ino) n = (if n = 0 then 192 else 0)" for n
    by (auto simp: lblk_def one_ino_def nth_Cons' zero_dinode_def)
  then show ?thesis
    by (simp add: file_ok_def imap_ok_def one_ino_def nblocks_def iblks_def ublocks_def one_used
        lessThan_Suc zero_dinode_def)
qed

lemma one_contents: "contents one_fs (i_in one_ino) = [0, 0, 0]"
  by (simp add: contents_def fbyte_def one_ino_def lblk_def one_dblk upt_rec)

lemma one_csums: "csums_ok one_fs (i_in one_ino) 1"
proof -
  have "csum_table_of one_fs ! 0 = 0"
    by (simp add: one_fs_def csum_table_of_def fresh_fs_def)
  moreover have "lblk one_fs (i_in one_ino) 0 = 192" by (simp add: lblk_def one_ino_def)
  ultimately show ?thesis by (simp add: csums_ok_def csum_good_def one_dblk csum_of_zero)
qed

end
