(* ===== verification/Storage.thy ===== *)
theory Storage
  imports Ramdisk
begin

text \<open>
  The properties of the storage layers: on-disk structures, the block layer, the checksum table
  and the freemaps.  Each is followed by a witness on the fresh RAM-disk file system.
\<close>

lemmas fresh_oks = fs_okD [OF fresh_fs_ok]

section \<open>On-disk structures\<close>

text \<open>
  An inode stored in slot \<open>k\<close> of a block of the inode table is read back unchanged, and the
  store leaves the inodes of the other slots as they were.
\<close>

theorem dinode_slots:
  assumes "dinode_ok d" "k < 16" "j < 16" "length block = 512"
  shows "dinode_of_bytes (seg (j * 32) 32 (blit (k * 32) (dinode_bytes d) block)) =
    (if j = k then d else dinode_of_bytes (seg (j * 32) 32 block))"
  by (rule dinode.slot_store [OF assms(1)]) (use assms in simp_all)

theorem dinode_slots_witness:
  "dinode_of_bytes (seg (3 * 32) 32 (blit (3 * 32) (dinode_bytes zero_dinode) (replicate 512 7))) = zero_dinode"
  using dinode_slots [OF dinode_ok_zero, of 3 3 "replicate 512 7"] by simp

section \<open>The block layer\<close>

text \<open>
  On a device of \<open>N\<close> blocks a write of \<open>n\<close> blocks inside it completes; a read of the same range
  returns the data written, and every block outside the range, the super block in memory and the
  output are unchanged.
\<close>

theorem read_write_blocks:
  assumes "dev_ok N s" "0 < n" "a + n \<le> N" "length b = n * 512"
  shows "\<exists>s'. write_blocks b (int a) (int n) s = Inr s' \<and> read_blocks s' (int a) (int n) = Inr b \<and>
    (\<forall>j < N. j < a \<or> a + n \<le> j \<longrightarrow> read_blocks s' (int j) 1 = read_blocks s (int j) 1) \<and>
    fs_sb s' = fs_sb s \<and> fs_out s' = fs_out s \<and> dev_ok N s'"
proof -
  let ?s = "put_blks b a n s"
  have le: "n * 512 \<le> length b" using assms(4) by simp
  have ok: "dev_ok N ?s" using assms(1) by simp
  have blk: "dblk ?s (a + i) = seg (512 * i) 512 b" if "i < n" for i
    using dblk_put_blks [OF assms(1-3) le, of "a + i"] that assms(3) by simp
  have "concat (map (dblk ?s) [a ..< a + n]) = concat (map (\<lambda>i. dblk ?s (a + i)) [0 ..< n])"
    by (rule arg_cong [of _ _ concat], rule nth_equalityI) simp_all
  also have "\<dots> = concat (map (\<lambda>i. seg (512 * i) 512 b) [0 ..< n])"
    by (rule arg_cong [of _ _ concat], rule map_cong) (simp_all add: blk)
  also have "\<dots> = b" by (rule concat_segs [OF assms(4)])
  finally have "read_blocks ?s (int a) (int n) = Inr b"
    using read_range [OF ok assms(2,3)] by simp
  moreover have "read_blocks ?s (int j) 1 = read_blocks s (int j) 1" if "j < N" "j < a \<or> a + n \<le> j" for j
    using that read_block [OF ok, of "int j"] read_block [OF assms(1), of "int j"]
      dblk_put_blks [OF assms(1-3) le that(1)] by auto
  ultimately show ?thesis using write_range [OF assms(1-3) le] ok by auto
qed

theorem read_write_blocks_witness:
  "\<exists>s'. write_blocks (replicate 1024 9) (int 300) (int 2) fresh_fs = Inr s' \<and>
     read_blocks s' (int 300) (int 2) = Inr (replicate 1024 9)"
  using read_write_blocks [OF fresh_oks(1), of 2 300 "replicate 1024 9"] by auto

text \<open>
  A synchronous write returns exactly when the device accepts the request: the code drops
  the error of a rejected request and its completion callback never runs, so the caller spins for
  ever.
\<close>

theorem write_blocks_returns:
  assumes "0 \<le> start" "start < 2 ^ 31" "0 < nr" "nr < 2 ^ 31" "nat nr * 512 \<le> length b"
  shows "write_blocks b start nr s =
    (if bdev_accepts (fs_bdev s) (fs_media s) (nat start) (nat nr)
     then Inr (put_blks b (nat start) (nat nr) s) else Inl Hang)"
  using write_blocks_eq [OF assms, of s] by (simp add: put_blks_def)

theorem write_blocks_returns_witness:
  "write_blocks (replicate 512 0) 9000 1 fresh_fs = Inl Hang"
proof -
  have "\<not> bdev_accepts (fs_bdev fresh_fs) (fs_media fresh_fs) (nat 9000) (nat 1)"
    by (simp add: fresh_fs_def ram_bdev_def)
  then show ?thesis
    using write_blocks_returns [of 9000 1 "replicate 512 0" fresh_fs] by simp
qed

text \<open>\<open>zero_blocks\<close> zeroes exactly the blocks of its range.\<close>

theorem zero_blocks_correct:
  assumes "dev_ok N s" "a + n \<le> N"
  shows "\<exists>s'. zero_blocks (int a) (int n) s = Inr s' \<and> fs_sb s' = fs_sb s \<and>
    (\<forall>j < N. dblk s' j = (if a \<le> j \<and> j < a + n then replicate 512 0 else dblk s j))"
  by (rule zero_blocks_ok [OF assms]) blast

theorem zero_blocks_correct_witness:
  "\<exists>s'. zero_blocks (int 64) (int 128) fresh_fs = Inr s' \<and> fs_sb s' = fs_sb fresh_fs \<and>
    (\<forall>j < 8192. dblk s' j = (if 64 \<le> j \<and> j < 64 + 128 then replicate 512 0 else dblk fresh_fs j))"
  by (rule zero_blocks_correct [OF fresh_oks(1)]) simp

section \<open>Checksums\<close>

lemma verify_csum_eq:
  assumes "fs_ok N s" "k < MAX_NR_CSUMS"
  shows "testfs_verify_csum (192 + int k) s =
    Inr (if csum_good s k then (0, s) else (- EINVAL, printf (ChecksumErrorAtBlock (192 + int k)) s))"
proof -
  note ok = fs_okD [OF assms(1)]
  have k: "192 + k < N" using assms(2) ok(2) by simp
  have "read_blocks s (192 + int k) 1 = Inr (dblk s (192 + k))"
    using read_block [OF ok(1), of "192 + int k"] k by (simp add: nat_add_distrib)
  moreover have "length (dblk s (192 + k)) = 512" using length_dblk [OF ok(1) k] .
  moreover have "k < length (csum_table_of s)" using csum_wfD(2) [OF ok(5)] assms(2) by simp
  ultimately show ?thesis
    using assms(2) ok(4) csum_wfD(1) [OF ok(5)] calculate_csum_eq [of "dblk s (192 + k)"]
    by (auto simp: testfs_verify_csum_def std_dsb_def csum_good_def)
qed

text \<open>
  C30.  A data block whose stored checksum is right passes \<open>testfs_verify_csum\<close>; if one 32-bit word of
  it is then changed on disk, to any other value, the change is detected and reported.
\<close>

theorem verify_detects_corruption:
  assumes "fs_ok N s" "k < MAX_NR_CSUMS" "csum_good s k"
    and "i < 128" "w \<noteq> word_at (dblk s (192 + k)) i"
  defines "t \<equiv> put_blk (words_bytes ((bytes_words 128 (dblk s (192 + k)))[i := w])) (192 + k) s"
  shows "testfs_verify_csum (192 + int k) s = Inr (0, s) \<and>
    testfs_verify_csum (192 + int k) t = Inr (- EINVAL, printf (ChecksumErrorAtBlock (192 + int k)) t)"
proof
  note ok = fs_okD [OF assms(1)]
  show "testfs_verify_csum (192 + int k) s = Inr (0, s)"
    using verify_csum_eq [OF assms(1,2)] assms(3) by simp
  let ?ws = "bytes_words 128 (dblk s (192 + k))"
  let ?b = "words_bytes (?ws[i := w])"
  have k: "192 + k < N" using assms(2) ok(2) by simp
  have old: "?ws ! i = word_at (dblk s (192 + k)) i" using assms(4) by (simp add: bytes_words_def)
  have "dblk t (192 + k) = ?b" using dblk_put_blk [OF ok(1) k k, of ?b] by (simp add: t_def)
  moreover have "bytes_words 128 ?b = ?ws[i := w]"
    using bytes_words_words_bytes [of "?ws[i := w]"] by simp
  then have "csum_of ?b = csum_of (dblk s (192 + k)) XOR ?ws ! i XOR w"
    using fold_xor_update [of i ?ws w] assms(4) by (simp add: csum_of_def)
  moreover have "x XOR y XOR w \<noteq> x" if "w \<noteq> y" for x y :: "32 word"
    using that by (metis xor.assoc xor_self_eq xor.right_neutral xor.left_neutral)
  then have "csum_of (dblk s (192 + k)) XOR ?ws ! i XOR w \<noteq> csum_of (dblk s (192 + k))"
    using assms(5) old by metis
  moreover have "csum_table_of t = csum_table_of s" by (simp add: t_def)
  ultimately have "\<not> csum_good t k"
    using assms(3) by (metis csum_good_def)
  then show "testfs_verify_csum (192 + int k) t =
      Inr (- EINVAL, printf (ChecksumErrorAtBlock (192 + int k)) t)"
    using verify_csum_eq [of N t k] assms(1,2) by (simp add: t_def)
qed

theorem verify_detects_corruption_witness:
  "testfs_verify_csum (192 + int 0)
     (put_blk (words_bytes ((bytes_words 128 (dblk fresh_fs 192))[5 := 77])) 192 fresh_fs) =
   Inr (- EINVAL, printf (ChecksumErrorAtBlock 192)
     (put_blk (words_bytes ((bytes_words 128 (dblk fresh_fs 192))[5 := 77])) 192 fresh_fs))"
proof -
  have "csum_good fresh_fs 0"
    by (simp add: csum_good_def fresh_dblk csum_of_zero fresh_csum_table)
  moreover have "(77 :: 32 word) \<noteq> word_at (dblk fresh_fs (192 + 0)) 5"
    by (simp add: fresh_dblk word_at_replicate_0)
  ultimately show ?thesis
    using verify_detects_corruption [OF fresh_fs_ok, of 0 5 77] by simp
qed

text \<open>
  \<open>testfs_put_csum\<close> is a write-through: the entry changes in memory, the table block that holds
  it is on disk, and the table on disk stays in step with the one in memory.
\<close>

theorem put_csum_write_through:
  assumes "fs_ok N s" "k < MAX_NR_CSUMS"
  shows "\<exists>s'. testfs_put_csum (192 + int k) c s = Inr s' \<and> fs_ok N s' \<and>
    csum_table_of s' = (csum_table_of s)[k := c] \<and> dblk s' (4 + k div 128) = csum_tblk s' (k div 128) \<and>
    (csum_coherent s \<longrightarrow> csum_coherent s') \<and>
    (\<forall>j < N. j \<noteq> 4 + k div 128 \<longrightarrow> dblk s' j = dblk s j)"
proof -
  note ok = fs_okD [OF assms(1)]
  have kl: "4 + k div 128 < N" using assms(2) ok(3) by (simp add: less_mult_imp_div_less)
  have "dblk (put_csum_st k c s) (4 + k div 128) = csum_tblk (put_csum_st k c s) (k div 128)"
    using dblk_put_csum [OF ok(1,5) assms(2) ok(3) kl] by (simp add: csum_tblk_def)
  then show ?thesis
    using put_csum_eq [OF ok(1,3,5,4) assms(2)] fs_ok_put_csum [OF assms(1)]
      csum_coherent_put_csum [OF ok(1,3,5) assms(2)] dblk_put_csum [OF ok(1,5) assms(2) ok(3)]
    by (intro exI [of _ "put_csum_st k c s"]) simp
qed

theorem put_csum_write_through_witness:
  "\<exists>s'. testfs_put_csum (192 + int 300) 5 fresh_fs = Inr s' \<and> dblk s' (4 + 300 div 128) = csum_tblk s' (300 div 128)"
  using put_csum_write_through [OF fresh_fs_ok, of 300 5] by auto

definition set_csums :: "(nat \<times> 32 word) list \<Rightarrow> 'd fsys \<Rightarrow> 'd fsys res" where
  "set_csums us = fold_r (\<lambda>(k, c). testfs_set_csum (192 + int k) c) us"

lemma fs_ok_set_csum:
  assumes "fs_ok N s" "csum_coherent s" "k < MAX_NR_CSUMS"
  shows "fs_ok N (set_csum_st k c s)" "csum_coherent (set_csum_st k c s)"
    "csum_table_of (set_csum_st k c s) = (csum_table_of s)[k := c]"
    "dblk (set_csum_st k c s) = dblk s"
  using assms csum_coherent_set_csum [OF fs_okD(5) [OF assms(1)] assms(3,2)]
  by (simp_all add: fs_ok_def set_csum_st_def freemaps_wf_def bmap_def imap_def csum_table_of_def)

lemma set_csums_run:
  assumes "fs_ok N s" "csum_coherent s" "\<forall>(k, c) \<in> set us. k < MAX_NR_CSUMS"
  shows "\<exists>s'. set_csums us s = Inr s' \<and> fs_ok N s' \<and> csum_coherent s' \<and> dblk s' = dblk s \<and>
    csum_table_of s' = fold (\<lambda>(k, c) t. t[k := c]) us (csum_table_of s)"
  using assms
proof (induction us arbitrary: s)
  case (Cons u us)
  obtain k c where u: "u = (k, c)" by (cases u)
  have k: "k < 7680" using Cons.prems(3) u by simp
  note st = fs_ok_set_csum [OF Cons.prems(1,2) k, of c] and ok = fs_okD [OF Cons.prems(1)]
  show ?case
    using Cons.IH [OF st(1,2)] Cons.prems(3) st(3,4) set_csum_eq [OF ok(5,4) k, of c] u
    by (auto simp: set_csums_def)
qed (simp add: set_csums_def)

text \<open>
  C31.  The deferred variant: after any sequence of \<open>testfs_set_csum\<close> calls, \<open>testfs_flush_csum\<close>
  leaves no table block dirty, every block of the table on disk equal to the table in memory, and
  the other regions of the disk alone.
\<close>

theorem flush_csum_correct:
  assumes "fs_ok N s" "csum_coherent s" "\<forall>(k, c) \<in> set us. k < MAX_NR_CSUMS"
  shows "\<exists>s'. bind_r (set_csums us s) testfs_flush_csum = Inr s' \<and> fs_ok N s' \<and>
    csum_table_of s' = fold (\<lambda>(k, c) t. t[k := c]) us (csum_table_of s) \<and>
    (\<forall>i < CSUM_TABLE_SIZE. \<not> csum_block_dirty (fs_sb s') ! i \<and> dblk s' (4 + i) = csum_tblk s' i) \<and>
    (\<forall>j < N. j < 4 \<or> 64 \<le> j \<longrightarrow> dblk s' j = dblk s j)"
proof -
  obtain t where t: "set_csums us s = Inr t" "fs_ok N t" "csum_coherent t" "dblk t = dblk s"
    "csum_table_of t = fold (\<lambda>(k, c) t. t[k := c]) us (csum_table_of s)"
    using set_csums_run [OF assms] by blast
  note ok = fs_okD [OF t(2)]
  from flush_csum_prefix [OF ok(1,3,5,4) t(3), of 60]
  obtain s' where s': "fold_r flush_csum_block [0 ..< 60] t = Inr s'" "dev_ok N s'" "csum_wf s'"
    "dsb s' = std_dsb" "csum_coherent s'" "csum_table_of s' = csum_table_of t"
    "inode_freemap (fs_sb s') = inode_freemap (fs_sb t)"
    "block_freemap (fs_sb s') = block_freemap (fs_sb t)"
    "\<forall>i < 60. \<not> csum_block_dirty (fs_sb s') ! i" "\<forall>j < N. j < 4 \<or> 64 \<le> j \<longrightarrow> dblk s' j = dblk t j"
    by auto
  have "freemaps_wf s' = freemaps_wf t" using s'(7,8) by (simp add: freemaps_wf_def bmap_def imap_def)
  then have "fs_ok N s'" using t(2) s'(2-4) by (simp add: fs_ok_def)
  moreover have "\<forall>i < 60. dblk s' (4 + i) = csum_tblk s' i"
    using s'(5,9) by (simp add: csum_coherent_def)
  ultimately show ?thesis
    using t s' by (intro exI [of _ s']) (simp add: testfs_flush_csum_def)
qed

theorem flush_csum_correct_witness:
  "\<exists>s'. bind_r (set_csums [(3, 9), (1000, 2)] fresh_fs) testfs_flush_csum = Inr s' \<and>
    (\<forall>i < 60. \<not> csum_block_dirty (fs_sb s') ! i \<and> dblk s' (4 + i) = csum_tblk s' i)"
  using flush_csum_correct [OF fresh_fs_ok fresh_coherent, of "[(3, 9), (1000, 2)]"] by auto

section \<open>Allocation\<close>

text \<open>
  \<open>testfs_alloc_block\<close> returns the lowest free data block with the caller's buffer zeroed, or
  \<open>ENOSPC\<close> when all 8192 are in use; freeing the block afterwards restores the set of blocks in use.
\<close>

theorem alloc_free_block:
  assumes "fs_ok N s"
  shows "if used s = {..< 8192} then testfs_alloc_block block s = Inr (- ENOSPC, block, s)
    else \<exists>i s'. testfs_alloc_block block s = Inr (192 + int i, replicate 512 0, s') \<and>
           i \<notin> used s \<and> (\<forall>j < 8192. j \<notin> used s \<longrightarrow> i \<le> j) \<and> fs_ok N s' \<and> used s' = insert i (used s) \<and>
           (i < MAX_NR_CSUMS \<longrightarrow>
             (\<exists>s''. testfs_free_block (192 + int i) s' = Inr (0, s'') \<and> fs_ok N s'' \<and> used s'' = used s \<and>
                    dblk s'' (192 + i) = replicate 512 0 \<and>
                    testfs_free_block (192 + int i) s'' = Inl AssertFail))"
proof (cases "used s = {..< 8192}")
  case True
  then show ?thesis using alloc_block_eq [OF assms] by simp
next
  case False
  let ?i = "next_free s" and ?s = "set_bmap (next_free s) True s"
  note i = next_free [OF assms False]
  have ok: "fs_ok N ?s" using fs_ok_set_bmap [OF assms i(1)] .
  have us: "used ?s = insert ?i (used s)" using used_set_bmap [OF assms i(1), of True] by simp
  have ok2: "fs_ok N (free_st ?i ?s)" using fs_ok_free_st [OF ok i(1)] .
  have us2: "used (free_st ?i ?s) = used s" using used_free_st [OF ok i(1)] us i(2) by auto
  have fr: "\<exists>s''. testfs_free_block (192 + int ?i) ?s = Inr (0, s'') \<and> fs_ok N s'' \<and> used s'' = used s \<and>
      dblk s'' (192 + ?i) = replicate 512 0 \<and> testfs_free_block (192 + int ?i) s'' = Inl AssertFail"
    if k: "?i < 7680"
  proof (intro exI conjI)
    show "testfs_free_block (192 + int ?i) ?s = Inr (0, free_st ?i ?s)"
      using free_block_eq [OF ok k] us by simp
    show "dblk (free_st ?i ?s) (192 + ?i) = replicate 512 0"
      using dblk_free_st [OF ok k, of "192 + ?i"] fs_okD(2) [OF ok] k by simp
    show "testfs_free_block (192 + int ?i) (free_st ?i ?s) = Inl AssertFail"
      using free_block_eq [OF ok2 k] us2 i(2) by simp
  qed (use ok2 us2 in simp_all)
  show ?thesis unfolding if_not_P [OF False]
    by (rule exI [of _ ?i], rule exI [of _ ?s], intro conjI impI allI)
      (use alloc_block_eq [OF assms] False i ok us fr in simp_all)
qed

theorem alloc_free_block_witness:
  "\<exists>i s'. testfs_alloc_block (replicate 512 1) fresh_fs = Inr (192 + int i, replicate 512 0, s') \<and>
     used s' = insert i (used fresh_fs)"
proof -
  have "(0 :: nat) \<in> {..< 8192}" by simp
  then have "used fresh_fs \<noteq> {..< 8192}" unfolding fresh_used by blast
  then show ?thesis using alloc_free_block [OF fresh_fs_ok, of "replicate 512 1"] by auto
qed

datatype freemap_op = GetBlock | PutBlock nat | GetInode | PutInode nat

fun freemap_step :: "freemap_op \<Rightarrow> 'd fsys \<Rightarrow> 'd fsys res" where
  "freemap_step GetBlock s = bind_r (testfs_get_block_freemap s) (\<lambda>(_, s). Inr s)"
| "freemap_step (PutBlock k) s = testfs_put_block_freemap (int k) s"
| "freemap_step GetInode s = bind_r (testfs_get_inode_freemap s) (\<lambda>(_, s). Inr s)"
| "freemap_step (PutInode k) s = testfs_put_inode_freemap (int k) s"

definition freemap_op_ok :: "freemap_op \<Rightarrow> bool" where
  "freemap_op_ok op = (case op of PutBlock k \<Rightarrow> k < 8192 | PutInode k \<Rightarrow> k < 4096 | _ \<Rightarrow> True)"

lemma freemap_step_synced:
  assumes "fs_ok N s" "freemaps_synced s" "freemap_op_ok op" "freemap_step op s = Inr s'"
  shows "fs_ok N s' \<and> freemaps_synced s'"
proof (cases op)
  case GetBlock
  show ?thesis
  proof (cases "used s = {..< 8192}")
    case True
    then show ?thesis using assms GetBlock get_block_freemap_full [OF assms(1)] by simp
  next
    case False
    then show ?thesis
      using assms GetBlock get_block_freemap_free [OF assms(1) False] next_free(1) [OF assms(1) False]
        fs_ok_set_bmap [OF assms(1)] freemaps_synced_set_bmap [OF assms(1) _ assms(2)] by auto
  qed
next
  case (PutBlock k)
  then show ?thesis
    using assms put_block_freemap_eq [OF assms(1)] fs_ok_set_bmap [OF assms(1)]
      freemaps_synced_set_bmap [OF assms(1) _ assms(2)]
    by (auto simp: freemap_op_ok_def split: if_splits)
next
  case GetInode
  show ?thesis
  proof (cases "iused s = {..< 4096}")
    case True
    then show ?thesis using assms GetInode get_inode_freemap_eq [OF assms(1)] by simp
  next
    case False
    then show ?thesis
      using assms GetInode get_inode_freemap_eq [OF assms(1)] next_free_inode(1) [OF assms(1) False]
        fs_ok_set_imap [OF assms(1)] freemaps_synced_set_imap [OF assms(1,2)] by auto
  qed
next
  case (PutInode k)
  then show ?thesis
    using assms put_inode_freemap_eq [OF assms(1)] fs_ok_set_imap [OF assms(1)]
      freemaps_synced_set_imap [OF assms(1,2)]
    by (auto simp: freemap_op_ok_def split: if_splits)
qed

text \<open>
  Write-through of both freemaps: whatever the sequence of requests and releases of blocks
  and inodes, the freemaps on disk are the ones in memory after each that returns.
\<close>

theorem freemap_write_through:
  assumes "fs_ok N s" "freemaps_synced s" "\<forall>op \<in> set ops. freemap_op_ok op"
    and "fold_r freemap_step ops s = Inr s'"
  shows "fs_ok N s' \<and> freemaps_synced s'"
  by (rule fold_r_invariant [OF assms(4), of "\<lambda>s. fs_ok N s \<and> freemaps_synced s"])
    (use assms freemap_step_synced in blast)+

theorem freemap_write_through_witness:
  "\<exists>s'. fold_r freemap_step [GetBlock, GetInode] fresh_fs = Inr s' \<and> freemaps_synced s'"
proof -
  obtain r s1 where s1: "testfs_get_block_freemap fresh_fs = Inr (r, s1)" "fs_ok 8192 s1"
    using bfm.get_total [OF fresh_fs_ok] by blast
  obtain r' s2 where s2: "testfs_get_inode_freemap s1 = Inr (r', s2)"
    using ifm.get_total [OF s1(2)] by blast
  have "fold_r freemap_step [GetBlock, GetInode] fresh_fs = Inr s2" using s1 s2 by simp
  then show ?thesis
    using freemap_write_through [OF fresh_fs_ok fresh_synced, of "[GetBlock, GetInode]" s2]
    by (auto simp: freemap_op_ok_def)
qed

end
