(* ===== verification/FileData.thy ===== *)
theory FileData
  imports Samples Storage
begin

text \<open>
  The properties of the data path of \<open>src/inode.c\<close>: reads, writes and truncation of one file as
  operations on its byte sequence, what they do to the other files, and the error paths.
\<close>

section \<open>Other files\<close>

definition blocks_of :: "'d fsys \<Rightarrow> dinode \<Rightarrow> int set" where
  "blocks_of s d = iblks s d (nblocks (nat (i_size d)))"

lemma other_file:
  assumes st: "inode_step N s d m s' d' m'" and ok: "fs_ok N s" and im: "imap_ok s e n"
    and dis: "iblks s e n \<inter> iblks s d m = {}"
  shows "imap_ok s' e n" "lblk s' e = lblk s e" "iblks s' e n = iblks s e n"
    "j < n \<Longrightarrow> dblk s' (nat (lblk s e j)) = dblk s (nat (lblk s e j))"
    "csums_ok s' e n = csums_ok s e n" "iblks s e n \<inter> iblks s' d' m' = {}"
proof -
  note dst = inode_stepD(1) [OF st]
  have own: "192 + int k \<notin> iblks s d m" if "192 + int k \<in> iblks s e n" for k
    using that dis by blast
  have ind: "dblk s' (nat (i_indirect e)) = dblk s (nat (i_indirect e))" if m: "4 < n"
  proof -
    obtain i where i: "i_indirect e = 192 + int i" "i < 7680" "i \<in> used s" using im m by (rule indirect_mapped)
    have "192 + int i \<in> iblks s e n" using i(1) m by (simp add: iblks_def)
    then show ?thesis using data_stepD(11) [OF dst i(3) own i(2)] i(1) by (simp add: nat_add_distrib)
  qed
  have keep: "iblks s e n \<inter> ublocks s \<subseteq> ublocks s'"
  proof
    fix b assume b: "b \<in> iblks s e n \<inter> ublocks s"
    then obtain k where k: "b = 192 + int k" "k < 7680" "k \<in> used s" by (blast elim: ublocksE)
    then have "k \<in> used s'" using data_stepD(10) [OF dst k(3) own] b by simp
    then show "b \<in> ublocks s'" using k by simp
  qed
  note fr = imap_ok_frame [OF im refl refl ind keep]
  show "imap_ok s' e n" by (rule fr(1))
  show l: "lblk s' e = lblk s e" by (rule fr(2))
  show "iblks s' e n = iblks s e n" by (rule fr(3))
  show "dblk s' (nat (lblk s e j)) = dblk s (nat (lblk s e j))" if j: "j < n" for j
  proof -
    obtain k where k: "lblk s e j = 192 + int k" "k < 7680" "k \<in> used s" using im j by (rule lblk_mapped)
    have "192 + int k \<in> iblks s e n" using lblk_in_iblks [OF j, of s e] k(1) by simp
    then show ?thesis using data_stepD(11) [OF dst k(3) own k(2)] k(1) by (simp add: nat_add_distrib)
  qed
  then have "csum_good s' (nat (lblk s e j) - 192) = csum_good s (nat (lblk s e j) - 192)" if j: "j < n" for j
  proof -
    obtain k where k: "lblk s e j = 192 + int k" "k < 7680" "k \<in> used s" using im j by (rule lblk_mapped)
    have "192 + int k \<in> iblks s e n" using lblk_in_iblks [OF j, of s e] k(1) by simp
    then show ?thesis using data_stepD(11,12) [OF dst k(3) own k(2)] k(1)
      by (simp add: nat_add_distrib csum_good_def)
  qed
  then show "csums_ok s' e n = csums_ok s e n" by (simp add: csums_ok_def l)
  show "iblks s e n \<inter> iblks s' d' m' = {}"
    using inode_stepD(5) [OF st] iblks_ablocks [OF im] dis by blast
qed

lemma other_contents:
  assumes "inode_step N s d m s' d' m'" "fs_ok N s" "file_ok s e" "blocks_of s e \<inter> iblks s d m = {}"
  shows "file_ok s' e" "contents s' e = contents s e"
proof -
  let ?n = "nblocks (nat (i_size e))"
  have im: "imap_ok s e ?n" using assms(3) by (simp add: file_ok_def)
  note of = other_file [OF assms(1,2) im assms(4) [unfolded blocks_of_def]]
  show "file_ok s' e" using of(1) assms(3) by (simp add: file_ok_def)
  have "fbyte s' e p = fbyte s e p" if "p < nat (i_size e)" for p
  proof -
    have "p < 512 * ?n" using that le_nblocks [of "nat (i_size e)"] by linarith
    then show ?thesis using of(2,4) div_512_less [of p ?n] by (simp add: fbyte_def)
  qed
  then show "contents s' e = contents s e" by (simp add: contents_def)
qed

section \<open>Properties\<close>

text \<open>
  C6.  Reading: on a well-formed file, \<open>testfs_read_data\<close> of a non-empty range inside the file
  succeeds and puts exactly the bytes of that range into the caller's buffer; the loop over direct
  and indirect blocks returns.
\<close>

theorem read_data_correct:
  assumes "fs_ok N s" "file_ok s (i_in ino)" "0 < sz" "st + sz \<le> nat (i_size (i_in ino))"
    and "sz \<le> length buf"
  shows "testfs_read_data ino (int st) buf (int sz) s =
    Inr (0, blit 0 (seg st sz (contents s (i_in ino))) buf)"
  by (rule read_data_eq [OF assms(1-5)]) (use file_size [OF assms(2)] in linarith)

theorem read_data_correct_witness:
  "testfs_read_data one_ino (int 1) [7, 7, 7] (int 2) one_fs = Inr (0, [0, 0, 7])"
  using read_data_correct [OF one_fs_ok one_file_ok, of 2 1 "[7, 7, 7]"]
  unfolding one_contents by (simp add: one_ino_def seg_def blit_def)

text \<open>
  C2.  Writing: given enough free blocks, \<open>testfs_write_data\<close> at any position up to the end of
  the file succeeds; afterwards the file holds the buffer at that position and its old bytes
  elsewhere, its size has grown to cover the range, it is well formed, every block of it has the
  right checksum, and it is marked dirty.
\<close>

theorem write_data_correct:
  assumes "fs_ok N s" "file_ok s (i_in ino)"
    and "csums_ok s (i_in ino) (nblocks (nat (i_size (i_in ino))))"
    and "0 < sz" "sz \<le> length buf" "st \<le> nat (i_size (i_in ino))" "st + sz \<le> 132 * 512"
    and "needs (nblocks (nat (i_size (i_in ino)))) (nblocks (st + sz)) \<le> nfree s"
  shows "\<exists>ino' s'. testfs_write_data ino (int st) buf (int sz) s = Inr (0, ino', s') \<and>
    contents s' (i_in ino') = overwrite st (take sz buf) (contents s (i_in ino)) \<and>
    i_size (i_in ino') = max (i_size (i_in ino)) (int (st + sz)) \<and>
    fs_ok N s' \<and> file_ok s' (i_in ino') \<and>
    csums_ok s' (i_in ino') (nblocks (nat (i_size (i_in ino')))) \<and>
    same_inode ino ino' \<and> has_flag ino' I_FLAGS_DIRTY"
  using write_data_eq [OF assms] inode_stepD(3) by metis

lemma write_new:
  assumes "sz \<le> 132 * 512"
  shows "file_ok fresh_fs (i_in new_ino)"
    "csums_ok fresh_fs (i_in new_ino) (nblocks (nat (i_size (i_in new_ino))))"
    "0 \<le> nat (i_size (i_in new_ino))" "0 + sz \<le> 132 * 512"
    "needs (nblocks (nat (i_size (i_in new_ino)))) (nblocks (0 + sz)) \<le> nfree fresh_fs"
proof -
  show "file_ok fresh_fs (i_in new_ino)" using empty_file_ok by (simp add: new_ino_def)
  show "csums_ok fresh_fs (i_in new_ino) (nblocks (nat (i_size (i_in new_ino))))"
    by (simp add: csums_ok_def new_ino_def zero_dinode_def nblocks_def)
  have "nblocks sz \<le> 132" using nblocks_le [of sz 132] assms by simp
  then show "needs (nblocks (nat (i_size (i_in new_ino)))) (nblocks (0 + sz)) \<le> nfree fresh_fs"
    unfolding needs_eq fresh_nfree by auto
qed (use assms in simp_all)

theorem write_data_correct_witness:
  "\<exists>ino' s'. testfs_write_data new_ino (int 0) (replicate 1000 5) (int 1000) fresh_fs = Inr (0, ino', s') \<and>
     contents s' (i_in ino') = replicate 1000 5"
proof -
  have "contents fresh_fs (i_in new_ino) = []"
    by (simp add: contents_def new_ino_def zero_dinode_def)
  then show ?thesis
    using write_data_correct [OF fresh_fs_ok write_new(1) [of 1000] write_new(2) [of 1000], of 1000 "replicate 1000 5" 0]
      write_new(5) [of 1000]
    by (auto simp: overwrite_def)
qed

text \<open>
  C22.  Writing is isolated: it does not touch the contents of any other file, allocates exactly
  the blocks the file now maps and loses none (the blocks in use afterwards are those of the others
  and those of the file), and keeps freemaps and checksum table in step with the disk.
\<close>

theorem write_data_isolated:
  assumes "fs_ok N s" "file_ok s (i_in ino)"
    and "csums_ok s (i_in ino) (nblocks (nat (i_size (i_in ino))))"
    and "0 < sz" "sz \<le> length buf" "st \<le> nat (i_size (i_in ino))" "st + sz \<le> 132 * 512"
    and "needs (nblocks (nat (i_size (i_in ino)))) (nblocks (st + sz)) \<le> nfree s"
    and "file_ok s e" "blocks_of s e \<inter> blocks_of s (i_in ino) = {}"
  shows "\<exists>ino' s'. testfs_write_data ino (int st) buf (int sz) s = Inr (0, ino', s') \<and>
    file_ok s' e \<and> contents s' e = contents s e \<and> blocks_of s e \<inter> blocks_of s' (i_in ino') = {} \<and>
    ablocks s' = (ablocks s - blocks_of s (i_in ino)) \<union> blocks_of s' (i_in ino') \<and>
    (freemaps_synced s \<longrightarrow> freemaps_synced s') \<and> (csum_coherent s \<longrightarrow> csum_coherent s')"
proof -
  let ?m = "nblocks (nat (i_size (i_in ino)))"
  obtain ino' s' where w: "testfs_write_data ino (int st) buf (int sz) s = Inr (0, ino', s')"
    and step: "inode_step N s (i_in ino) ?m s' (i_in ino') (nblocks (nat (i_size (i_in ino'))))"
    using write_data_eq [OF assms(1-8)] by blast
  have im: "imap_ok s e (nblocks (nat (i_size e)))" using assms(9) by (simp add: file_ok_def)
  have dis: "blocks_of s e \<inter> iblks s (i_in ino) ?m = {}" using assms(10) by (simp add: blocks_of_def)
  note oc = other_contents [OF step assms(1,9) dis]
  have "blocks_of s e \<inter> blocks_of s' (i_in ino') = {}"
    using other_file(6) [OF step assms(1) im] dis unfolding blocks_of_def by blast
  moreover have "ablocks s' = (ablocks s - blocks_of s (i_in ino)) \<union> blocks_of s' (i_in ino')"
    using inode_stepD(4) [OF step] unfolding blocks_of_def .
  ultimately show ?thesis using w oc data_stepD(7,8) [OF inode_stepD(1) [OF step]] by blast
qed

theorem write_data_isolated_witness:
  "\<exists>ino' s'. testfs_write_data new_ino (int 0) (replicate 1000 5) (int 1000) one_fs = Inr (0, ino', s') \<and>
     contents s' (i_in one_ino) = [0, 0, 0]"
proof -
  have e: "i_size (i_in new_ino) = 0" by (simp add: new_ino_def zero_dinode_def)
  have "file_ok one_fs (i_in new_ino)" using empty_file_ok by (simp add: new_ino_def)
  moreover have "csums_ok one_fs (i_in new_ino) (nblocks (nat (i_size (i_in new_ino))))"
    unfolding e by (simp add: csums_ok_def nblocks_def)
  moreover have "needs (nblocks (nat (i_size (i_in new_ino)))) (nblocks (0 + 1000)) \<le> nfree one_fs"
    unfolding e needs_eq one_nfree by (simp add: nblocks_def)
  moreover have "blocks_of one_fs (i_in one_ino) \<inter> blocks_of one_fs (i_in new_ino) = {}"
    unfolding blocks_of_def e by (simp add: iblks_def nblocks_def)
  ultimately show ?thesis
    using write_data_isolated [OF one_fs_ok, of new_ino 1000 "replicate 1000 5" 0 "i_in one_ino"]
      one_file_ok one_contents e by auto
qed

text \<open>
  Read after write: reading back the range just written returns the buffer.
\<close>

theorem read_after_write_data:
  assumes "fs_ok N s" "file_ok s (i_in ino)"
    and "csums_ok s (i_in ino) (nblocks (nat (i_size (i_in ino))))"
    and "0 < sz" "sz \<le> length buf" "st \<le> nat (i_size (i_in ino))" "st + sz \<le> 132 * 512"
    and "needs (nblocks (nat (i_size (i_in ino)))) (nblocks (st + sz)) \<le> nfree s"
    and "sz \<le> length buf'"
  shows "bind_r (testfs_write_data ino (int st) buf (int sz) s)
      (\<lambda>(r, ino', s'). testfs_read_data ino' (int st) buf' (int sz) s') =
    Inr (0, blit 0 (take sz buf) buf')"
proof -
  obtain ino' s' where w: "testfs_write_data ino (int st) buf (int sz) s = Inr (0, ino', s')"
    and c: "contents s' (i_in ino') = overwrite st (take sz buf) (contents s (i_in ino))"
    and size: "i_size (i_in ino') = max (i_size (i_in ino)) (int (st + sz))"
    and f: "file_ok s' (i_in ino')"
    and step: "inode_step N s (i_in ino) (nblocks (nat (i_size (i_in ino)))) s' (i_in ino')
      (nblocks (nat (i_size (i_in ino'))))"
    using write_data_eq [OF assms(1-8)] by blast
  have le: "st + sz \<le> nat (i_size (i_in ino'))" unfolding size by simp
  have "seg st sz (overwrite st (take sz buf) (contents s (i_in ino))) = take sz buf"
    using assms(5,6) by (simp add: seg_def overwrite_def)
  moreover have "i_size (i_in ino') < 2147483648" using file_size [OF f] by linarith
  ultimately show ?thesis
    using w read_data_eq [OF inode_stepD(3) [OF step] f assms(4) le assms(9)] c by simp
qed

theorem read_after_write_data_witness:
  "bind_r (testfs_write_data new_ino (int 0) (replicate 600 5) (int 600) fresh_fs)
     (\<lambda>(r, ino', s'). testfs_read_data ino' (int 0) (replicate 600 0) (int 600) s') =
   Inr (0, replicate 600 5)"
  using read_after_write_data [OF fresh_fs_ok write_new(1) [of 600] write_new(2) [of 600],
      of 600 "replicate 600 5" 0 "replicate 600 0"]
    write_new(5) [of 600] by simp

text \<open>
  C7.  Truncation: the file holds the prefix of its old contents, every block past it is free
  again (and the indirect block when it is no longer needed), the free blocks are exactly accounted
  for, and other files are untouched.
\<close>

theorem truncate_data_correct:
  assumes "fs_ok N s" "file_ok s (i_in ino)" "int sz < i_size (i_in ino)"
    and "file_ok s e" "blocks_of s e \<inter> blocks_of s (i_in ino) = {}"
  shows "\<exists>ino' s'. testfs_truncate_data ino (int sz) s = Inr (ino', s') \<and> fs_ok N s' \<and>
    contents s' (i_in ino') = take sz (contents s (i_in ino)) \<and> file_ok s' (i_in ino') \<and>
    nfree s' = nfree s + needs (nblocks sz) (nblocks (nat (i_size (i_in ino)))) \<and>
    ablocks s' = (ablocks s - blocks_of s (i_in ino)) \<union> blocks_of s' (i_in ino') \<and>
    file_ok s' e \<and> contents s' e = contents s e \<and>
    (freemaps_synced s \<longrightarrow> freemaps_synced s') \<and> (csum_coherent s \<longrightarrow> csum_coherent s')"
proof -
  let ?m = "nblocks (nat (i_size (i_in ino)))"
  obtain ino' s' where t: "testfs_truncate_data ino (int sz) s = Inr (ino', s')"
    "contents s' (i_in ino') = take sz (contents s (i_in ino))" "i_size (i_in ino') = int sz"
    "file_ok s' (i_in ino')" "nfree s' = nfree s + needs (nblocks sz) ?m"
    and step: "inode_step N s (i_in ino) ?m s' (i_in ino') (nblocks sz)"
    using truncate_data_eq [OF assms(1-3)] by blast
  have "blocks_of s e \<inter> iblks s (i_in ino) ?m = {}" using assms(5) by (simp add: blocks_of_def)
  note oc = other_contents [OF step assms(1,4) this]
  have "ablocks s' = (ablocks s - blocks_of s (i_in ino)) \<union> blocks_of s' (i_in ino')"
    using inode_stepD(4) [OF step] t(3) by (simp add: blocks_of_def)
  then show ?thesis
    using t oc inode_stepD(3) [OF step] data_stepD(7,8) [OF inode_stepD(1) [OF step]] by blast
qed

lemma empty_blocks_of: "i_size d = 0 \<Longrightarrow> blocks_of s d = {}"
  by (simp add: blocks_of_def iblks_def nblocks_def)

theorem truncate_data_correct_witness:
  "\<exists>ino' s'. testfs_truncate_data one_ino (int 1) one_fs = Inr (ino', s') \<and>
     contents s' (i_in ino') = [0] \<and> file_ok s' (i_in ino')"
proof -
  have e: "i_size (i_in new_ino) = 0" by (simp add: new_ino_def zero_dinode_def)
  have f: "file_ok one_fs (i_in new_ino)" using empty_file_ok by (simp add: new_ino_def)
  have "int 1 < i_size (i_in one_ino)" by (simp add: one_ino_def)
  then have "\<exists>ino' s'. testfs_truncate_data one_ino (int 1) one_fs = Inr (ino', s') \<and>
      contents s' (i_in ino') = take 1 (contents one_fs (i_in one_ino)) \<and> file_ok s' (i_in ino')"
    using truncate_data_correct [OF one_fs_ok one_file_ok _ f] empty_blocks_of [OF e, of one_fs] by blast
  then show ?thesis unfolding one_contents by simp
qed

text \<open>
  C23.  \<open>testfs_sync_inode\<close> of a well-formed file stores its inode in its slot of the inode table,
  so that reading the slot gives it back, leaves every other slot and the contents of every file
  alone, and leaves the inode clean.
\<close>

theorem sync_inode_correct:
  assumes "fs_ok N s" "file_ok s (i_in ino)" "i_nr ino = int k" "k < NR_INODES"
    and "in_int32 (i_mod_time (i_in ino))" "i_type (i_in ino) = I_FILE \<or> i_type (i_in ino) = I_DIR"
    and "has_flag ino I_FLAGS_DIRTY" "\<not> has_flag ino I_FLAGS_INDIRECT_DIRTY"
    and "file_ok s e"
  shows "\<exists>ino' s'. testfs_sync_inode ino s = Inr (ino', s') \<and> fs_ok N s' \<and>
    i_in ino' = i_in ino \<and> \<not> has_flag ino' I_FLAGS_DIRTY \<and>
    (\<forall>k' < NR_INODES. dinode_at s' k' = (if k' = k then i_in ino else dinode_at s k')) \<and>
    contents s' e = contents s e \<and> used s' = used s \<and>
    (freemaps_synced s \<longrightarrow> freemaps_synced s') \<and> (csum_coherent s \<longrightarrow> csum_coherent s')"
proof -
  have di: "dinode_ok (i_in ino)" by (rule dinode_ok_file [OF assms(1,2,5,6)])
  show ?thesis
    using sync_inode_eq [OF assms(1,3,4) di assms(7,8)] assms(1) dinode_at_sync_st [OF assms(1,4) di]
      contents_sync [OF assms(1,4) di assms(9)] data_step_sync(2,3) [OF assms(1,4) di]
    by (intro exI [of _ "clear_flag I_FLAGS_DIRTY ino"] exI [of _ "sync_st k (i_in ino) s"]) simp
qed

theorem sync_inode_correct_witness:
  "\<exists>ino' s'. testfs_sync_inode (one_ino\<lparr>i_flags := 1\<rparr>) one_fs = Inr (ino', s') \<and>
     dinode_at s' 1 = i_in one_ino"
proof -
  have "has_flag (one_ino\<lparr>i_flags := 1\<rparr>) I_FLAGS_DIRTY"
    "\<not> has_flag (one_ino\<lparr>i_flags := 1\<rparr>) I_FLAGS_INDIRECT_DIRTY"
    by (simp_all add: has_flag_def I_FLAGS_DIRTY_def I_FLAGS_INDIRECT_DIRTY_def)
  moreover have "i_nr (one_ino\<lparr>i_flags := 1\<rparr>) = int 1" by (simp add: one_ino_def new_ino_def)
  moreover have "in_int32 (i_mod_time (i_in one_ino))" "i_type (i_in one_ino) = I_FILE"
    by (simp_all add: one_ino_def zero_dinode_def in_int32_def)
  ultimately show ?thesis
    using sync_inode_correct [OF one_fs_ok, of "one_ino\<lparr>i_flags := 1\<rparr>" 1 "i_in one_ino"] one_file_ok
    by auto
qed

section \<open>Error paths\<close>

lemma alloc_block_full:
  "fs_ok N s \<Longrightarrow> used s = {..< 8192} \<Longrightarrow> testfs_alloc_block b s = Inr (- ENOSPC, b, s)"
  by (simp add: alloc_block_eq)



lemma write_loop_fails:
  assumes "testfs_allocate_block ino block ((start + bo) sdiv 512) s = Inr (r, b, ino1, s1)" "r < 0"
    and "start + bo \<le> i_size (i_in ino1)"
  shows "write_loop ino block buf sz start bo off s =
    Inr (r, set_flag I_FLAGS_DIRTY (upd_in (\<lambda>d. d\<lparr>i_size := i_size d\<rparr>) ino1), s1)"
  by (subst write_loop.simps) (use assms in \<open>simp add: max_def testfs_truncate_data_def upd_in_def\<close>)

lemma append_stops:
  assumes "testfs_allocate_block ino (replicate 512 0) (int n) s = Inr (r, b, ino1, s1)" "r < 0"
    and "i_size (i_in ino) = 512 * int n" "i_size (i_in ino1) = i_size (i_in ino)"
  shows "testfs_write_data ino (512 * int n) buf sz s =
    Inr (r, set_flag I_FLAGS_DIRTY (upd_in (\<lambda>d. d\<lparr>i_size := i_size d\<rparr>) ino1), s1)"
proof -
  have eq: "(512 * int n + 0) sdiv 512 = int n" by simp
  show ?thesis
    using write_loop_fails [where start = "512 * int n" and bo = 0, unfolded eq, OF assms(1,2)] assms(3,4)
    by (simp add: testfs_write_data_def)
qed







text \<open>The inode and the state after the fifth block took the last free block for the indirect block.\<close>

definition leak_ino :: "nat \<Rightarrow> inode \<Rightarrow> inode" where
  "leak_ino x ino = set_flag I_FLAGS_DIRTY (upd_in (\<lambda>d. d\<lparr>i_indirect := 192 + int x\<rparr>) ino)"

definition leak_fs :: "nat \<Rightarrow> 'd fsys \<Rightarrow> 'd fsys" where
  "leak_fs x s = put_blk (replicate 512 0) (192 + x) (set_bmap x True s)"

lemma one_free:
  assumes "fs_ok N s" "used s = {..< 8192} - {x}" "x < 8192"
  shows "used s \<noteq> {..< 8192}" "next_free s = x" "fs_ok N (leak_fs x s)" "used (leak_fs x s) = {..< 8192}"
proof -
  have x: "x \<notin> used s" "x < 8192" using assms(2,3) by simp_all
  then show ne: "used s \<noteq> {..< 8192}" by (metis lessThan_iff)
  have "next_free s < 8192" "next_free s \<notin> used s" using next_free [OF assms(1) ne] by simp_all
  then show "next_free s = x" using assms(2) by simp
  show "fs_ok N (leak_fs x s)" using fs_ok_set_bmap [OF assms(1) x(2)] by (simp add: leak_fs_def)
  show "used (leak_fs x s) = {..< 8192}"
    using used_set_bmap [OF assms(1) x(2), of True] assms(2) x(2) by (auto simp: leak_fs_def)
qed

lemma leak_allocate:
  assumes "fs_ok N s" "imap_ok s (i_in ino) 4" "used s = {..< 8192} - {x}" "x < 8192" "192 + x < N"
  shows "\<exists>b. testfs_allocate_block ino (replicate 512 0) 4 s = Inr (- ENOSPC, b, leak_ino x ino, leak_fs x s)"
proof -
  let ?t = "set_bmap x True s" and ?I = "replicate 512 (0 :: byte)"
  note of = one_free [OF assms(1,3,4)]
  have okt: "fs_ok N ?t" and full: "used ?t = {..< 8192}"
    using fs_ok_set_bmap [OF assms(1)] assms(4) of(4) by (simp_all add: leak_fs_def)
  obtain b where b: "testfs_get_block ino ?I 4 s = Inr (0, b)"
    using get_block_unmapped [OF assms(1,2), of 4 ?I] by auto
  have a1: "testfs_alloc_block ?I s = Inr (192 + int x, ?I, ?t)"
    using alloc_block_eq [OF assms(1)] of(1,2) by simp
  have a2: "testfs_alloc_block b ?t = Inr (- ENOSPC, b, ?t)" by (rule alloc_block_full [OF okt full])
  have "write_blocks ?I (192 + int x) 1 ?t = Inr (leak_fs x s)"
    using write_block [OF fs_okD(1) [OF okt], of "192 + int x" ?I] assms(5)
    by (simp add: nat_add_distrib leak_fs_def)
  then have "testfs_allocate_block ino ?I 4 s = Inr (- ENOSPC, b, leak_ino x ino, leak_fs x s)"
    using b a1 a2 imap_okD(3) [OF assms(2)] by (simp add: testfs_allocate_block_def ENOSPC_def leak_ino_def)
  then show ?thesis ..
qed


lemma append_leak:
  assumes "fs_ok N s" "imap_ok s (i_in ino) 4" "used s = {..< 8192} - {x}" "x < 8192" "192 + x < N"
    and sz: "i_size (i_in ino) = 2048"
  shows "\<exists>ino'. testfs_write_data ino 2048 buf sz s = Inr (- ENOSPC, ino', leak_fs x s) \<and>
    i_in ino' = i_in (leak_ino x ino) \<and> \<not> file_ok (leak_fs x s) (i_in ino') \<and>
    same_inode ino ino' \<and> has_flag ino' I_FLAGS_DIRTY"
proof -
  obtain b where al: "testfs_allocate_block ino (replicate 512 0) (int 4) s =
      Inr (- ENOSPC, b, leak_ino x ino, leak_fs x s)"
    using leak_allocate [OF assms(1-5)] by auto
  let ?ino = "set_flag I_FLAGS_DIRTY (upd_in (\<lambda>d. d\<lparr>i_size := i_size d\<rparr>) (leak_ino x ino))"
  have "testfs_write_data ino (512 * int 4) buf sz s = Inr (- ENOSPC, ?ino, leak_fs x s)"
    by (rule append_stops [OF al]) (simp_all add: ENOSPC_def assms(6) leak_ino_def)
  moreover have "i_in ?ino = i_in (leak_ino x ino)" by simp
  moreover have "\<not> file_ok (leak_fs x s) (i_in ?ino)"
    using imap_okD(3) [of "leak_fs x s" "i_in ?ino" 4] assms(6)
    by (auto simp: file_ok_def leak_ino_def nblocks_def)
  moreover have "same_inode ino ?ino"
    unfolding leak_ino_def by (rule same_inode_trans [OF same_inode_upd same_inode_upd]) simp_all
  ultimately show ?thesis by auto
qed



text \<open>A state in which every block is in use: the freemap has all bits set.\<close>

definition full_fs :: "(nat \<Rightarrow> byte list) fsys" where
  "full_fs = upd_sb (\<lambda>sb. sb\<lparr>block_freemap := Some \<lparr>bm_nbits = 8192, bm_v = replicate 1024 0xff\<rparr>\<rparr>) fresh_fs"

lemma full_fs_ok: "fs_ok 8192 full_fs" and full_used: "used full_fs = {..< 8192}"
proof -
  have b: "bmap full_fs = \<lparr>bm_nbits = 8192, bm_v = replicate 1024 0xff\<rparr>"
    by (simp add: bmap_def full_fs_def)
  have wf: "bm_wf (bmap full_fs)" unfolding b by (rule zero_bitmap [of _ 1024]) simp_all
  then show "fs_ok 8192 full_fs"
    using fresh_fs_ok by (auto simp: fs_ok_def freemaps_wf_def bmap_def imap_def csum_wf_def full_fs_def)
  have "bm_bit (bmap full_fs) i" if "i < 8192" for i
    using that byte_full_iff [of "0xff"] unfolding b bm_bit_def by (simp add: less_mult_imp_div_less)
  then show "used full_fs = {..< 8192}"
    unfolding used_def bm_set_def by (auto simp: b)
qed

text \<open>A file of four blocks on a disk with one free block.\<close>

definition tight_fs :: "(nat \<Rightarrow> byte list) fsys" where
  "tight_fs = set_bmap 100 False full_fs"

definition four_ino :: inode where
  "four_ino = new_ino\<lparr>i_in := zero_dinode\<lparr>i_type := I_FILE, i_size := 2048, i_block_nr := [192, 193, 194, 195]\<rparr>\<rparr>"

lemma tight_fs_ok: "fs_ok 8192 tight_fs" and tight_used: "used tight_fs = {..< 8192} - {100}"
  unfolding tight_fs_def using fs_ok_set_bmap [OF full_fs_ok] used_set_bmap [OF full_fs_ok, of 100 False]
  by (simp_all add: full_used)

lemma four_file_ok: "file_ok tight_fs (i_in four_ino)"
proof -
  have l: "lblk tight_fs (i_in four_ino) n = (if n < 4 then 192 + int n else 0)" for n
    by (auto simp: lblk_def four_ino_def zero_dinode_def nth_Cons' numeral_eq_Suc less_Suc_eq)
  have "lblk tight_fs (i_in four_ino) ` {..< 4} \<subseteq> ublocks tight_fs"
  proof
    fix b assume "b \<in> lblk tight_fs (i_in four_ino) ` {..< 4}"
    then obtain n where n: "n < 4" "b = 192 + int n" by (auto simp: l)
    then have "n \<in> used tight_fs" by (simp add: tight_used)
    then show "b \<in> ublocks tight_fs" using n by simp
  qed
  moreover have "inj_on (lblk tight_fs (i_in four_ino)) {..< 4}" by (rule inj_onI) (simp add: l)
  moreover have "i_size (i_in four_ino) = 2048" "length (i_block_nr (i_in four_ino)) = 4"
    "i_indirect (i_in four_ino) = 0" by (simp_all add: four_ino_def zero_dinode_def)
  ultimately show ?thesis by (simp add: file_ok_def nblocks_def imap_ok_def iblks_def l)
qed


section \<open>Two boundary cases\<close>

text \<open>
  C40.  A write of no bytes at the end of a file whose last block is full is not a no-op: the
  \<open>do \<dots> while\<close> loop allocates a block before it looks at the size, so the file maps a block its
  size does not need.
\<close>

theorem empty_write_leaks:
  assumes "fs_ok N s" "file_ok s (i_in ino)" "i_size (i_in ino) = 512 * int n" "n < 132"
    and "need n \<le> nfree s"
  shows "\<exists>ino' s'. testfs_write_data ino (512 * int n) buf 0 s = Inr (0, ino', s') \<and>
    i_size (i_in ino') = i_size (i_in ino) \<and> nfree s' < nfree s \<and> \<not> file_ok s' (i_in ino')"
proof -
  have nb: "nblocks (nat (i_size (i_in ino))) = n"
    unfolding assms(3) nblocks_def by (simp add: nat_mult_distrib)
  then have im: "imap_ok s (i_in ino) n" using assms(2) by (simp add: file_ok_def)
  obtain k ino1 s1 where al: "testfs_allocate_block ino (replicate 512 0) (int n) s =
      Inr (192 + int k, replicate 512 0, ino1, s1)" and post: "alloc_post N ino n s k ino1 s1"
    using allocate_next [OF assms(1) im assms(4,5), of "replicate 512 0"] by auto
  have p: "k < 7680" "imap_ok s1 (i_in ino1) (Suc n)" "i_size (i_in ino1) = i_size (i_in ino)"
    "nfree s = nfree s1 + need n" "lblk s1 (i_in ino1) n = 192 + int k"
    "data_step N {i_indirect (i_in ino)} s s1"
    using post assms(4) unfolding alloc_post_def by auto
  have ok1: "fs_ok N s1" using data_stepD(1) [OF p(6)] .
  let ?B = "replicate 512 (0 :: byte)"
  let ?s = "put_data k ?B s1"
  have len: "length ?B = 512" by simp
  note pr = put_data_run [OF ok1 p(1) len] and ps = put_data_step [OF ok1 p(1) len]
    and pf = put_data_file [OF ok1 p(2) _ p(5,1) len]
  let ?ino = "set_flag I_FLAGS_DIRTY (upd_in (\<lambda>d. d\<lparr>i_size := max (i_size d) (512 * int n)\<rparr>) ino1)"
  have cp: "copy_size 0 0 0 = 0" "last_round 0 0 0" by (simp_all add: copy_size_def last_round_def)
  have "c_memcpy ?B 0 buf 0 0 = Inr ?B" by (simp add: c_memcpy_def blit_def seg_def)
  then have "testfs_write_data ino (512 * int n) buf 0 s = Inr (0, ?ino, ?s)"
    unfolding testfs_write_data_def
    by (subst write_loop.simps) (use al pr calculate_csum_eq [OF len] assms(3) in \<open>simp add: cp\<close>)
  moreover have size: "i_size (i_in ?ino) = i_size (i_in ino)" using p(3) assms(3) by simp
  moreover have "nfree ?s < nfree s" using ps(3) p(4) by (simp add: need_def split: if_splits)
  moreover have "\<not> file_ok ?s (i_in ?ino)"
  proof
    assume "file_ok ?s (i_in ?ino)"
    then have "imap_ok ?s (i_in ?ino) n" unfolding file_ok_def size nb by simp
    then have "lblk ?s (i_in ?ino) n = 0" using imap_okD(4) assms(4) by blast
    moreover have "imap_ok ?s (i_in ?ino) (Suc n)" using inode_stepD(2) [OF pf(1)] by simp
    from this lessI have "lblk ?s (i_in ?ino) n \<noteq> 0" by (rule lblk_mapped) simp
    ultimately show False by simp
  qed
  ultimately show ?thesis by blast
qed

theorem empty_write_leaks_witness:
  "\<exists>ino' s'. testfs_write_data new_ino (512 * int 0) [] 0 fresh_fs = Inr (0, ino', s') \<and>
     i_size (i_in ino') = 0 \<and> nfree s' < 7680 \<and> \<not> file_ok s' (i_in ino')"
proof -
  have "i_size (i_in new_ino) = 512 * int 0" by (simp add: new_ino_def zero_dinode_def)
  then show ?thesis
    using empty_write_leaks [OF fresh_fs_ok write_new(1) [of 0], of 0 "[]"]
    by (simp add: fresh_nfree need_def)
qed

lemma leak_truncate:
  assumes "fs_ok N s" "imap_ok s (i_in ino) 4" "used s = {..< 8192} - {x}" "x < MAX_NR_CSUMS"
    and e: "i_size (i_in e) = 2048" "i_indirect (i_in e) = 192 + int x" "i_block_nr (i_in e) = i_block_nr (i_in ino)"
  shows "testfs_truncate_data e 0 (leak_fs x s) = Inl AssertFail"
proof -
  let ?d = "i_in ino"
  have x: "x < 8192" using assms(4) by simp
  note of = one_free [OF assms(1,3) x]
  have len: "length (i_block_nr ?d) = 4" using imap_okD(2) [OF assms(2)] .
  have "freeable (map (\<lambda>j. nat (i_block_nr ?d ! j) - 192) [0 ..< 4]) s"
    using own_freeable(1) [OF assms(2), of 0] dnums_direct [of 4 s ?d 0] by simp
  then have fr: "freeable (map (\<lambda>j. nat (i_block_nr (i_in e) ! j) - 192) [0 ..< min 4 4]) (leak_fs x s)"
    using of(4) e(3) by (auto simp: freeable_def)
  have "192 \<le> i_block_nr ?d ! j" if "j < 4" for j
    using own_freeable(2) [OF assms(2), of j] that by (simp add: lblk_def)
  then obtain ino3 s3 where "trunc_direct (int 0) (int 4) e (leak_fs x s) = Inr (ino3, s3)"
      "i_indirect (i_in ino3) = 192 + int x"
    using trunc_direct_eq [OF of(3) _ _ fr] len e by (auto simp: cut_ino_props)
  moreover have "DIVROUNDUP 0 512 = 0" "DIVROUNDUP 2048 512 = 4" by (simp_all add: DIVROUNDUP_def)
  ultimately show ?thesis using e(1) by (simp add: testfs_truncate_data_def)
qed

text \<open>
  C39.  When exactly one block is free, appending the fifth block takes it for the indirect block
  and then fails with \<open>ENOSPC\<close>: the file keeps an indirect block although its size needs none, and a
  later truncation (removing the file, say) aborts in \<open>assert(in->in.i_indirect == 0)\<close>.
\<close>

theorem indirect_leak_aborts:
  assumes "fs_ok N s" "file_ok s (i_in ino)" "i_size (i_in ino) = 2048"
    and "used s = {..< 8192} - {x}" "x < MAX_NR_CSUMS"
  shows "\<exists>ino' s'. testfs_write_data ino 2048 buf sz s = Inr (- ENOSPC, ino', s') \<and>
    i_size (i_in ino') = 2048 \<and> i_indirect (i_in ino') \<noteq> 0 \<and>
    testfs_truncate_data ino' 0 s' = Inl AssertFail"
proof -
  have im: "imap_ok s (i_in ino) 4" using assms(2,3) by (simp add: file_ok_def nblocks_def)
  have x: "x < 8192" "192 + x < N" using assms(5) data_block_bound(1) [OF assms(1,5)] by simp_all
  obtain ino' where run: "testfs_write_data ino 2048 buf sz s = Inr (- ENOSPC, ino', leak_fs x s)"
    and i: "i_in ino' = i_in (leak_ino x ino)"
    using append_leak [OF assms(1) im assms(4) x assms(3)] by blast
  have "testfs_truncate_data ino' 0 (leak_fs x s) = Inl AssertFail"
    by (rule leak_truncate [OF assms(1) im assms(4,5)]) (simp_all add: i leak_ino_def assms(3))
  then show ?thesis using run i assms(3) by (auto simp: leak_ino_def)
qed

theorem indirect_leak_aborts_witness:
  "\<exists>ino' s'. testfs_write_data four_ino 2048 [1] 1 tight_fs = Inr (- ENOSPC, ino', s') \<and>
     testfs_truncate_data ino' 0 s' = Inl AssertFail"
proof -
  have "i_size (i_in four_ino) = 2048" by (simp add: four_ino_def)
  then show ?thesis
    using indirect_leak_aborts [OF tight_fs_ok four_file_ok _ tight_used, of "[1]" 1] by auto
qed

end
