(* ===== verification/Volume.thy ===== *)
theory Volume
  imports CacheOk FileData
begin

text \<open>
  The mounted volume as a map from inode numbers to files.  The current inode of number \<open>k\<close>
  (\<open>cur w k\<close>) is the one in the cache, or else the one in its slot on the disk; \<open>files w k\<close> is its
  type and contents.  \<open>vol_ok\<close> is the invariant of the whole volume: every allocated number has a
  well-formed inode with right checksums, no block belongs to two of them, the blocks in use are
  exactly theirs (none is leaked), free slots are zero, freemaps and checksum table are on the disk.

  The operations on one inode refine updates of the map: a write or truncation changes the entry of
  its inode, getting, putting and syncing change nothing, creating adds an empty file under the
  lowest free number, removing takes an entry away.
\<close>

section \<open>The invariant\<close>

definition cur :: "'d world \<Rightarrow> nat \<Rightarrow> dinode" where
  "cur w k = (case inode_hash_find (int k) w of
     Inr p \<Rightarrow> (if p = NULL then dinode_at (w_fs w) k else i_in (the (w_inodes w p)))
   | Inl _ \<Rightarrow> dinode_at (w_fs w) k)"

definition inode_good :: "'d fsys \<Rightarrow> dinode \<Rightarrow> bool" where
  "inode_good s d \<longleftrightarrow> dinode_ok d \<and> file_ok s d \<and> csums_ok s d (nblocks (nat (i_size d)))"

definition cached_ok :: "'d fsys \<Rightarrow> inode \<Rightarrow> bool" where
  "cached_ok s a \<longleftrightarrow> 0 \<le> i_nr a \<and> nat (i_nr a) \<in> iused s \<and> \<not> has_flag a I_FLAGS_INDIRECT_DIRTY \<and>
     (has_flag a I_FLAGS_DIRTY \<or> i_in a = dinode_at s (nat (i_nr a)))"

text \<open>The freemaps and the checksum table on the disk are those in memory.\<close>

definition synced :: "'d fsys \<Rightarrow> bool" where
  "synced s \<longleftrightarrow> freemaps_synced s \<and> csum_coherent s \<and> csum_block_dirty (fs_sb s) = replicate CSUM_TABLE_SIZE False"

text \<open>
  Between a write of the alternate path and the flushes after it, the block freemap and the dirty blocks of the
  checksum table are only in memory: \<open>kept False\<close>.
\<close>

definition kept :: "bool \<Rightarrow> 'd fsys \<Rightarrow> bool" where
  "kept saved s \<longleftrightarrow> (if saved then synced s else csum_coherent s \<and> dblk s 1 = bm_v (imap s))"

lemma kept_True [simp]: "kept True s = synced s"
  by (simp add: kept_def)

lemma kept_step:
  assumes "data_step N A s s'" "fs_ok N s" "kept sv s"
  shows "kept sv s'"
  using assms(3) data_stepD(4,6-8) [OF assms(1)] data_stepD(9) [OF assms(1), of 1] fs_okD(3) [OF assms(2)]
  by (auto simp: kept_def synced_def split: if_splits)

lemma kept_sync:
  assumes "fs_ok N s" "k < NR_INODES" "dinode_ok d"
  shows "kept sv (sync_st k d s) = kept sv s"
  using data_step_sync(2,3) [OF assms] dblk_sync_st [OF assms, of 1] fs_okD(3) [OF assms(1)]
  by (simp add: kept_def synced_def)

lemma kept_set_imap:
  assumes "fs_ok N s" "kept sv s"
  shows "kept sv (set_imap i on s)"
proof -
  have "csum_coherent (set_imap i on s) = csum_coherent s"
    using dblk_set_imap [OF assms(1)] fs_okD(2) [OF assms(1)] by (simp add: csum_coherent_def csum_tblk_def)
  moreover have "dblk (set_imap i on s) 1 = bm_v (imap (set_imap i on s))"
    using dblk_set_imap [OF assms(1), of 1] fs_okD(3) [OF assms(1)] by simp
  ultimately show ?thesis
    using freemaps_synced_set_imap [OF assms(1)] assms(2) by (auto simp: kept_def synced_def split: if_splits)
qed

definition vol_at :: "bool \<Rightarrow> nat \<Rightarrow> 'd world \<Rightarrow> bool" where
  "vol_at saved N w \<longleftrightarrow> cache_ok w \<and> fs_ok N (w_fs w) \<and> kept saved (w_fs w) \<and> iused (w_fs w) \<subseteq> {..< NR_INODES} \<and>
     (\<forall>p a. w_inodes w p = Some a \<longrightarrow> cached_ok (w_fs w) a) \<and>
     (\<forall>k \<in> iused (w_fs w). inode_good (w_fs w) (cur w k)) \<and>
     (\<forall>j \<in> iused (w_fs w). \<forall>k \<in> iused (w_fs w). j \<noteq> k \<longrightarrow>
        blocks_of (w_fs w) (cur w j) \<inter> blocks_of (w_fs w) (cur w k) = {}) \<and>
     ablocks (w_fs w) = (\<Union>k \<in> iused (w_fs w). blocks_of (w_fs w) (cur w k)) \<and>
     (\<forall>k < NR_INODES. k \<notin> iused (w_fs w) \<longrightarrow> dinode_at (w_fs w) k = zero_dinode)"

abbreviation vol_ok :: "nat \<Rightarrow> 'd world \<Rightarrow> bool" where
  "vol_ok \<equiv> vol_at True"

definition files :: "'d world \<Rightarrow> nat \<Rightarrow> (inode_type \<times> byte list) option" where
  "files w k = (if k \<in> iused (w_fs w) then Some (i_type (cur w k), contents (w_fs w) (cur w k)) else None)"

lemma vol_okD:
  assumes "vol_at sv N w"
  shows "cache_ok w" "fs_ok N (w_fs w)" "k \<in> iused (w_fs w) \<Longrightarrow> k < NR_INODES"
    "w_inodes w p = Some a \<Longrightarrow> cached_ok (w_fs w) a"
    "k \<in> iused (w_fs w) \<Longrightarrow> inode_good (w_fs w) (cur w k)"
    "j \<in> iused (w_fs w) \<Longrightarrow> k \<in> iused (w_fs w) \<Longrightarrow> j \<noteq> k \<Longrightarrow>
       blocks_of (w_fs w) (cur w j) \<inter> blocks_of (w_fs w) (cur w k) = {}"
    "k < NR_INODES \<Longrightarrow> k \<notin> iused (w_fs w) \<Longrightarrow> dinode_at (w_fs w) k = zero_dinode"
    "ablocks (w_fs w) = (\<Union>k \<in> iused (w_fs w). blocks_of (w_fs w) (cur w k))" "kept sv (w_fs w)"
proof -
  have c: "iused (w_fs w) \<subseteq> {..< NR_INODES}" "\<forall>p a. w_inodes w p = Some a \<longrightarrow> cached_ok (w_fs w) a"
    "\<forall>k \<in> iused (w_fs w). inode_good (w_fs w) (cur w k)"
    "\<forall>j \<in> iused (w_fs w). \<forall>k \<in> iused (w_fs w). j \<noteq> k \<longrightarrow>
        blocks_of (w_fs w) (cur w j) \<inter> blocks_of (w_fs w) (cur w k) = {}"
    "\<forall>k < NR_INODES. k \<notin> iused (w_fs w) \<longrightarrow> dinode_at (w_fs w) k = zero_dinode"
    using assms unfolding vol_at_def by - (elim conjE, assumption)+
  show "cache_ok w" "fs_ok N (w_fs w)"
    "ablocks (w_fs w) = (\<Union>k \<in> iused (w_fs w). blocks_of (w_fs w) (cur w k))"
    using assms unfolding vol_at_def by - (elim conjE, assumption)+
  show "kept sv (w_fs w)" using assms by (simp add: vol_at_def)
  show "k \<in> iused (w_fs w) \<Longrightarrow> k < NR_INODES" using c(1) by blast
  show "w_inodes w p = Some a \<Longrightarrow> cached_ok (w_fs w) a" using c(2) by blast
  show "k \<in> iused (w_fs w) \<Longrightarrow> inode_good (w_fs w) (cur w k)" using c(3) by blast
  show "j \<in> iused (w_fs w) \<Longrightarrow> k \<in> iused (w_fs w) \<Longrightarrow> j \<noteq> k \<Longrightarrow>
       blocks_of (w_fs w) (cur w j) \<inter> blocks_of (w_fs w) (cur w k) = {}" using c(4) by blast
  show "k < NR_INODES \<Longrightarrow> k \<notin> iused (w_fs w) \<Longrightarrow> dinode_at (w_fs w) k = zero_dinode" using c(5) by blast
qed

lemma cur_cached: "cache_ok w \<Longrightarrow> w_inodes w p = Some a \<Longrightarrow> i_nr a = int k \<Longrightarrow> cur w k = i_in a"
  using hash_find_hit [of w p a] cache_okD(5) [of w p a] by (simp add: cur_def)

lemma cur_disk:
  "cache_ok w \<Longrightarrow> (\<And>p a. w_inodes w p = Some a \<Longrightarrow> i_nr a \<noteq> int k) \<Longrightarrow> cur w k = dinode_at (w_fs w) k"
  using hash_find_miss [of w "int k"] by (simp add: cur_def)

lemma cached_at:
  assumes "vol_at sv N w" "w_inodes w p = Some a"
  shows "\<exists>k. i_nr a = int k \<and> k \<in> iused (w_fs w) \<and> k < NR_INODES \<and> cur w k = i_in a"
proof -
  obtain k where k: "i_nr a = int k"
    using vol_okD(4) [OF assms] unfolding cached_ok_def by (elim conjE nonneg_int_cases)
  then have i: "k \<in> iused (w_fs w)" using vol_okD(4) [OF assms] by (simp add: cached_ok_def)
  show ?thesis
    by (rule exI [of _ k]) (intro conjI k i vol_okD(3) [OF assms(1) i] cur_cached [OF vol_okD(1) [OF assms(1)] assms(2) k])
qed

text \<open>The current inode of a number is decided by the cached inodes with that number.\<close>

lemma cur_cong:
  assumes "cache_ok w" "cache_ok w'"
    and "\<And>p a. i_nr a = int k \<Longrightarrow> w_inodes w' p = Some a \<longleftrightarrow> w_inodes w p = Some a"
    and "dinode_at (w_fs w') k = dinode_at (w_fs w) k"
  shows "cur w' k = cur w k"
proof (cases "\<exists>p a. w_inodes w p = Some a \<and> i_nr a = int k")
  case True
  then obtain p a where a: "w_inodes w p = Some a" "i_nr a = int k" by blast
  then show ?thesis using cur_cached [OF assms(1) a] cur_cached [OF assms(2) _ a(2), of p] assms(3) by simp
next
  case False
  then have w: "\<And>p a. w_inodes w p = Some a \<Longrightarrow> i_nr a \<noteq> int k" by blast
  have w': "\<And>p a. w_inodes w' p = Some a \<Longrightarrow> i_nr a \<noteq> int k"
  proof
    fix p a assume "w_inodes w' p = Some a" "i_nr a = int k"
    then show False using assms(3) w by simp
  qed
  have "cur w k = dinode_at (w_fs w) k" by (rule cur_disk [OF assms(1)]) (rule w)
  moreover have "cur w' k = dinode_at (w_fs w') k" by (rule cur_disk [OF assms(2)]) (rule w')
  ultimately show ?thesis using assms(4) by simp
qed

lemma files_in: "files w k = Some x \<Longrightarrow> k \<in> iused (w_fs w)"
  by (simp add: files_def split: if_splits)

section \<open>Steps that keep the files\<close>

lemma vol_cong:
  assumes "vol_at sv N w" "cache_ok w'" "fs_ok N (w_fs w')" "iused (w_fs w') = iused (w_fs w)"
    and "\<And>p a. w_inodes w' p = Some a \<Longrightarrow> cached_ok (w_fs w') a"
    and "\<And>k. k \<in> iused (w_fs w) \<Longrightarrow> cur w' k = cur w k"
    and "\<And>d. file_ok (w_fs w) d \<Longrightarrow> file_ok (w_fs w') d \<and> contents (w_fs w') d = contents (w_fs w) d \<and>
           blocks_of (w_fs w') d = blocks_of (w_fs w) d \<and>
           (csums_ok (w_fs w) d (nblocks (nat (i_size d))) \<longrightarrow> csums_ok (w_fs w') d (nblocks (nat (i_size d))))"
    and "\<And>k. k < NR_INODES \<Longrightarrow> k \<notin> iused (w_fs w) \<Longrightarrow> dinode_at (w_fs w') k = dinode_at (w_fs w) k"
    and "used (w_fs w') = used (w_fs w)" "kept sv (w_fs w')"
  shows "vol_at sv N w'" "files w' = files w"
proof -
  note v = vol_okD [OF assms(1)]
  have good: "inode_good (w_fs w') (cur w' k)" "contents (w_fs w') (cur w' k) = contents (w_fs w) (cur w k)"
    "blocks_of (w_fs w') (cur w' k) = blocks_of (w_fs w) (cur w k)"
    if "k \<in> iused (w_fs w)" for k
    using v(5) [OF that] assms(7) [of "cur w k"] assms(6) [OF that] by (auto simp: inode_good_def)
  have "iused (w_fs w) \<subseteq> {..< NR_INODES}" using v(3) by blast
  then show "vol_at sv N w'"
    unfolding vol_at_def assms(4) using assms(2,3,5,8,9,10) good v(6,7,8) by (simp add: ablocks_def)
  show "files w' = files w" using good(2) assms(6) by (auto simp: files_def assms(4) fun_eq_iff)
qed

text \<open>Storing an inode in another state of the reference count or the flags.\<close>

lemma vol_same_fs:
  assumes "vol_at sv N w" "cache_ok w'" "w_fs w' = w_fs w"
    and "\<And>p a. w_inodes w' p = Some a \<Longrightarrow> cached_ok (w_fs w) a"
    and "\<And>k. k \<in> iused (w_fs w) \<Longrightarrow> cur w' k = cur w k"
  shows "vol_at sv N w'" "files w' = files w"
  by (rule vol_cong [OF assms(1,2)]; use assms vol_okD(2,9) [OF assms(1)] in simp)+

text \<open>Transactions and output.\<close>

definition tx_out :: "tx_type \<Rightarrow> message list \<Rightarrow> 'd fsys \<Rightarrow> 'd fsys" where
  "tx_out t out s = s\<lparr>fs_sb := (fs_sb s)\<lparr>tx_in_progress := t\<rparr>, fs_out := out\<rparr>"

lemma tx_out_simps [simp]:
  "dblk (tx_out t m s) = dblk s" "used (tx_out t m s) = used s" "iused (tx_out t m s) = iused s"
  "dinode_at (tx_out t m s) = dinode_at s" "fs_ok N (tx_out t m s) = fs_ok N s"
  "csum_table_of (tx_out t m s) = csum_table_of s" "tx_in_progress (fs_sb (tx_out t m s)) = t"
  "fs_out (tx_out t m s) = m" "nfree (tx_out t m s) = nfree s" "kept sv (tx_out t m s) = kept sv s"
  "synced (tx_out t m s) = synced s"
  by (simp_all add: tx_out_def dblk_def used_def iused_def bmap_def imap_def dinode_at_def fun_eq_iff fs_ok_def
      freemaps_wf_def csum_wf_def dev_ok_def csum_table_of_def nfree_def kept_def synced_def freemaps_synced_def
      csum_coherent_def csum_tblk_def)

lemma tx_out_file [simp]:
  "lblk (tx_out t m s) = lblk s" "iblks (tx_out t m s) = iblks s" "file_ok (tx_out t m s) = file_ok s"
  "contents (tx_out t m s) = contents s" "blocks_of (tx_out t m s) = blocks_of s"
  "csums_ok (tx_out t m s) = csums_ok s"
proof -
  show l: "lblk (tx_out t m s) = lblk s" by (simp add: lblk_def fun_eq_iff)
  then show i: "iblks (tx_out t m s) = iblks s" by (simp add: iblks_def fun_eq_iff)
  have "ublocks (tx_out t m s) = ublocks s" by (simp add: ublocks_def)
  then show "file_ok (tx_out t m s) = file_ok s" by (simp add: file_ok_def imap_ok_def fun_eq_iff l i)
  show "contents (tx_out t m s) = contents s" by (simp add: contents_def fbyte_def fun_eq_iff l)
  show "blocks_of (tx_out t m s) = blocks_of s" by (simp add: blocks_of_def fun_eq_iff i)
  show "csums_ok (tx_out t m s) = csums_ok s" by (simp add: csums_ok_def csum_good_def fun_eq_iff l)
qed

lemma vol_tx_out:
  assumes "vol_at sv N w"
  shows "vol_at sv N (set_fs (tx_out t m (w_fs w)) w)" "files (set_fs (tx_out t m (w_fs w)) w) = files w"
proof -
  let ?w = "set_fs (tx_out t m (w_fs w)) w"
  have "cur ?w k = cur w k" for k
    by (rule cur_cong) (use vol_okD(1) [OF assms] in simp_all)
  moreover have "cached_ok (w_fs ?w) a" if "w_inodes ?w p = Some a" for p a
    using vol_okD(4) [OF assms, of p a] that by (simp add: cached_ok_def)
  ultimately show "vol_at sv N ?w" "files ?w = files w"
    by (intro vol_cong [OF assms], use vol_okD(1,2,9) [OF assms] in simp_all)+
qed

text \<open>Getting and putting a reference.\<close>

definition got :: "'d world \<Rightarrow> nat \<Rightarrow> ptr \<Rightarrow> inode \<Rightarrow> 'd world \<Rightarrow> bool" where
  "got w k p a w' \<longleftrightarrow> w_fs w' = w_fs w \<and> w_sb w' = w_sb w \<and> w_inodes w' = (w_inodes w)(p \<mapsto> a) \<and>
     i_nr a = int k \<and> i_in a = cur w k \<and>
     (case w_inodes w p of Some b \<Rightarrow> a = b\<lparr>i_count := i_count b + 1\<rparr>
      | None \<Rightarrow> i_count a = 1 \<and> i_flags a = 0)"

lemma cur_other:
  assumes "cache_ok w" "cache_ok w'" "j \<noteq> k" "dinode_at (w_fs w') j = dinode_at (w_fs w) j"
    and "w_inodes w' = (w_inodes w)(p := x)" "\<And>a. w_inodes w p = Some a \<Longrightarrow> i_nr a = int k"
    and "\<And>a. x = Some a \<Longrightarrow> i_nr a = int k"
  shows "cur w' j = cur w j"
proof (rule cur_cong [OF assms(1,2) _ assms(4)])
  fix q and a :: inode assume "i_nr a = int j"
  then show "w_inodes w' q = Some a \<longleftrightarrow> w_inodes w q = Some a"
    using assms(3,6,7) by (cases "q = p") (auto simp: assms(5))
qed

lemma vol_get:
  assumes v: "vol_at sv N w" and k: "k \<in> iused (w_fs w)"
  shows "\<exists>p a w'. testfs_get_inode (int k) w = Inr (p, w') \<and> got w k p a w' \<and> vol_at sv N w' \<and> files w' = files w"
proof -
  note c = vol_okD(1,2) [OF v] and kk = vol_okD(3) [OF v k]
  have "\<exists>p a w'. testfs_get_inode (int k) w = Inr (p, w') \<and> got w k p a w' \<and> cache_ok w' \<and>
    cached_ok (w_fs w) a \<and> i_in a = cur w k \<and> (\<forall>b. w_inodes w p = Some b \<longrightarrow> i_nr b = int k)"
  proof (cases "\<exists>p a. w_inodes w p = Some a \<and> i_nr a = int k")
    case True
    then obtain p a where a: "w_inodes w p = Some a" "i_nr a = int k" by blast
    let ?a = "a\<lparr>i_count := i_count a + 1\<rparr>"
    obtain w' where "testfs_get_inode (int k) w = Inr (p, w')" "cache_ok w'" "w_fs w' = w_fs w" "w_sb w' = w_sb w"
      "w_inodes w' = (w_inodes w)(p \<mapsto> ?a)"
      using ic.get_cached [OF conjI [OF c] a] by auto
    moreover have "cached_ok (w_fs w) ?a" using vol_okD(4) [OF v a(1)] by (simp add: cached_ok_def has_flag_def)
    ultimately show ?thesis using a cur_cached [OF c(1) a] unfolding got_def by auto
  next
    case False
    then have no: "\<And>p a. w_inodes w p = Some a \<Longrightarrow> i_nr a \<noteq> int k" by blast
    have "\<exists>p w' a. testfs_get_inode (int k) w = Inr (p, w') \<and> (cache_ok w' \<and> fs_ok N (w_fs w')) \<and>
        (w_fs w', w_sb w') = (w_fs w, w_sb w) \<and> w_inodes w p = None \<and> w_inodes w' = (w_inodes w)(p \<mapsto> a) \<and>
        i_nr a = int k \<and> i_count a = 1 \<and> i_flags a = 0 \<and> i_in a = (case (w_fs w, w_sb w) of (s, _) \<Rightarrow> dinode_at s) k"
      by (rule ic.get_new [OF conjI [OF c] kk]) (rule no)
    then obtain p w' a where "testfs_get_inode (int k) w = Inr (p, w')" "cache_ok w'" "w_fs w' = w_fs w"
      "w_sb w' = w_sb w" "w_inodes w p = None" "w_inodes w' = (w_inodes w)(p \<mapsto> a)" "i_nr a = int k"
      "i_count a = 1" "i_flags a = 0" "i_in a = dinode_at (w_fs w) k"
      unfolding prod.case prod.inject by blast
    moreover have "cached_ok (w_fs w) a" using calculation k by (simp add: cached_ok_def has_flag_def)
    ultimately show ?thesis using cur_disk [OF c(1) no] unfolding got_def by auto
  qed
  then obtain p a w' where g: "testfs_get_inode (int k) w = Inr (p, w')" "got w k p a w'" "cache_ok w'"
    "cached_ok (w_fs w) a" "i_in a = cur w k" "\<And>b. w_inodes w p = Some b \<Longrightarrow> i_nr b = int k" by blast
  note g' = g(2) [unfolded got_def]
  have cur: "cur w' j = cur w j" for j
  proof (cases "j = k")
    case True
    then show ?thesis using cur_cached [OF g(3), of p a k] g' by simp
  next
    case False
    show ?thesis
      by (rule cur_other [OF c(1) g(3) False, of p "Some a"]) (use g' g(6) in auto)
  qed
  have "cached_ok (w_fs w) b" if "w_inodes w' q = Some b" for q b
    using that g(4) g' vol_okD(4) [OF v, of q b] by (auto split: if_splits)
  then have "vol_at sv N w'" "files w' = files w"
    using vol_same_fs [OF v g(3)] cur g' by blast+
  then show ?thesis using g by blast
qed

lemma vol_put:
  assumes v: "vol_at sv N w" and p: "w_inodes w p = Some a" and cl: "\<not> has_flag a I_FLAGS_DIRTY"
  shows "\<exists>w'. testfs_put_inode p w = Inr w' \<and> vol_at sv N w' \<and> files w' = files w \<and> w_fs w' = w_fs w \<and>
    w_sb w' = w_sb w \<and>
    w_inodes w' = (w_inodes w)(p := (if i_count a = 1 then None else Some (a\<lparr>i_count := i_count a - 1\<rparr>)))"
proof -
  note c = vol_okD(1,2) [OF v]
  let ?x = "if i_count a = 1 then None else Some (a\<lparr>i_count := i_count a - 1\<rparr>)"
  obtain w' where w': "testfs_put_inode p w = Inr w'" "cache_ok w'" "w_fs w' = w_fs w" "w_sb w' = w_sb w"
    "w_inodes w' = (w_inodes w)(p := ?x)"
    using ic.put_law [OF conjI [OF c] p cl] by auto
  obtain k where k: "i_nr a = int k" "cur w k = i_in a" using cached_at [OF v p] by blast
  have co: "cached_ok (w_fs w) a" by (rule vol_okD(4) [OF v p])
  have cur: "cur w' j = cur w j" for j
  proof (cases "j = k")
    case True
    show ?thesis
    proof (cases "i_count a = 1")
      case False
      then show ?thesis using cur_cached [OF w'(2), of p "a\<lparr>i_count := i_count a - 1\<rparr>" k] w'(5) k True by simp
    next
      case gone: True
      have "i_nr b \<noteq> int k" if "w_inodes w' q = Some b" for q b
        using that w'(5) gone cache_okD(9) [OF c(1) _ p, of q b] k(1) by (auto split: if_splits)
      then have "cur w' k = dinode_at (w_fs w) k" using cur_disk [OF w'(2)] w'(3) by simp
      then show ?thesis using True k co cl by (simp add: cached_ok_def)
    qed
  next
    case False
    show ?thesis
      by (rule cur_other [OF c(1) w'(2) False, of p ?x]) (use w' p k in \<open>auto split: if_splits\<close>)
  qed
  have "cached_ok (w_fs w) b" if "w_inodes w' q = Some b" for q b
    using that co w'(5) vol_okD(4) [OF v, of q b] by (auto simp: cached_ok_def has_flag_def split: if_splits)
  then have "vol_at sv N w'" "files w' = files w"
    using vol_same_fs [OF v w'(2,3)] cur by blast+
  then show ?thesis using w' by blast
qed

text \<open>A reference that is dropped again leaves the cache as it was.\<close>

lemma vol_put_back:
  assumes "vol_at sv N w" "got w k p a w'" "vol_at sv N w''" "w_inodes w'' = w_inodes w'" "w_sb w'' = w_sb w'"
    and "\<not> has_flag a I_FLAGS_DIRTY"
  shows "\<exists>w3. testfs_put_inode p w'' = Inr w3 \<and> vol_at sv N w3 \<and> files w3 = files w'' \<and> w_fs w3 = w_fs w'' \<and>
    w_sb w3 = w_sb w \<and> w_inodes w3 = w_inodes w"
proof -
  note g = assms(2) [unfolded got_def]
  have p: "w_inodes w'' p = Some a" using g assms(4) by simp
  obtain w3 where w3: "testfs_put_inode p w'' = Inr w3" "vol_at sv N w3" "files w3 = files w''" "w_fs w3 = w_fs w''"
    "w_sb w3 = w_sb w''"
    "w_inodes w3 = (w_inodes w'')(p := (if i_count a = 1 then None else Some (a\<lparr>i_count := i_count a - 1\<rparr>)))"
    using vol_put [OF assms(3) p assms(6)] by blast
  have "w_inodes w3 = w_inodes w"
  proof (cases "w_inodes w p")
    case None
    then show ?thesis using g w3(6) assms(4) by (simp add: fun_upd_idem)
  next
    case (Some b)
    then show ?thesis using g w3(6) assms(4) cache_okD(8) [OF vol_okD(1) [OF assms(1)] Some]
      by (simp add: fun_upd_idem)
  qed
  then show ?thesis using w3 g assms(5) by auto
qed

section \<open>Changing one inode\<close>

lemma dinode_at_step:
  assumes "data_step N A s s'" "fs_ok N s" "k < NR_INODES"
  shows "dinode_at s' k = dinode_at s k"
  using data_stepD(9) [OF assms(1), of "64 + k div 16"] slot_bounds(1,2) [OF assms(2,3)]
  by (simp add: dinode_at_def)

lemma UN_split: "k \<in> A \<Longrightarrow> (\<Union>j \<in> A. f j) = f k \<union> (\<Union>j \<in> A - {k}. f j)"
  by auto

lemma vol_step:
  assumes v: "vol_at sv N w" and p: "w_inodes w p = Some a" and nr: "i_nr a = int k"
    and st: "inode_step N (w_fs w) (i_in a) (nblocks (nat (i_size (i_in a)))) s' (i_in a')
      (nblocks (nat (i_size (i_in a'))))"
    and good: "inode_good s' (i_in a')"
    and a': "i_nr a' = i_nr a" "i_sb a' = i_sb a" "0 < i_count a'"
      "has_flag a' I_FLAGS_DIRTY \<or> i_in a' = dinode_at (w_fs w) k" "\<not> has_flag a' I_FLAGS_INDIRECT_DIRTY"
  shows "vol_at sv N (set_fs s' (store p a' w))"
    "files (set_fs s' (store p a' w)) = (files w)(k \<mapsto> (i_type (i_in a'), contents s' (i_in a')))"
    "j < NR_INODES \<Longrightarrow> cur (set_fs s' (store p a' w)) j = ((cur w)(k := i_in a')) j"
proof -
  let ?w = "set_fs s' (store p a' w)" and ?s = "w_fs w"
  note c = vol_okD(1,2) [OF v] and ds = inode_stepD(1) [OF st]
  have k: "k \<in> iused ?s" "k < NR_INODES" "cur w k = i_in a" using cached_at [OF v p] nr by auto
  have iu: "iused s' = iused ?s" using data_stepD(4) [OF ds] by (simp add: iused_def)
  have ok': "cache_ok ?w" unfolding cache_ok_set_fs by (rule cache_ok_store [OF c(1) p]) (use a' in simp_all)
  have di: "dinode_at s' j = dinode_at ?s j" if "j < NR_INODES" for j
    by (rule dinode_at_step [OF ds c(2) that])
  have ck: "cur ?w k = i_in a'" using cur_cached [OF ok', of p a' k] a'(1) nr by simp
  have cj: "cur ?w j = cur w j" if "j \<noteq> k" "j < NR_INODES" for j
    by (rule cur_other [OF c(1) ok' that(1), of p "Some a'"]) (use di that p nr a'(1) in auto)
  have other: "inode_good s' (cur w j)" "contents s' (cur w j) = contents ?s (cur w j)"
    "blocks_of s' (cur w j) = blocks_of ?s (cur w j)" "blocks_of ?s (cur w j) \<inter> blocks_of s' (i_in a') = {}"
    if j: "j \<noteq> k" "j \<in> iused ?s" for j
  proof -
    note g = vol_okD(5) [OF v j(2), unfolded inode_good_def]
    have dis: "blocks_of ?s (cur w j) \<inter> iblks ?s (i_in a) (nblocks (nat (i_size (i_in a)))) = {}"
      using vol_okD(6) [OF v j(2) k(1) j(1)] k(3) by (simp add: blocks_of_def)
    have im: "imap_ok ?s (cur w j) (nblocks (nat (i_size (cur w j))))" using g by (simp add: file_ok_def)
    note of = other_file [OF st c(2) im dis [unfolded blocks_of_def]]
      and oc = other_contents [OF st c(2) _ dis]
    show "inode_good s' (cur w j)" "contents s' (cur w j) = contents ?s (cur w j)"
      using g of(5) oc by (simp_all add: inode_good_def)
    show "blocks_of s' (cur w j) = blocks_of ?s (cur w j)" "blocks_of ?s (cur w j) \<inter> blocks_of s' (i_in a') = {}"
      using of(3,6) by (simp_all add: blocks_of_def)
  qed
  have lt: "j < NR_INODES" if "j \<in> iused ?s" for j using vol_okD(3) [OF v that] .
  have cur: "cur ?w j = ((cur w)(k := i_in a')) j" if "j \<in> iused ?s" for j using ck cj lt [OF that] by simp
  have "\<forall>j \<in> iused ?s. inode_good s' (((cur w)(k := i_in a')) j)" using good other(1) by simp
  moreover have "blocks_of s' (((cur w)(k := i_in a')) i) \<inter> blocks_of s' (((cur w)(k := i_in a')) j) = {}"
    if "i \<in> iused ?s" "j \<in> iused ?s" "i \<noteq> j" for i j
    using that other(3,4) [of i] other(3,4) [of j] vol_okD(6) [OF v that]
    by (cases "i = k"; cases "j = k") (simp_all add: Int_commute)
  moreover have "ablocks s' = (\<Union>j \<in> iused ?s. blocks_of s' (((cur w)(k := i_in a')) j))"
  proof -
    let ?rest = "\<Union>j \<in> iused ?s - {k}. blocks_of ?s (cur w j)"
    have "ablocks ?s = blocks_of ?s (cur w k) \<union> ?rest"
      unfolding vol_okD(8) [OF v] by (rule UN_split [OF k(1)])
    moreover have "\<forall>j \<in> iused ?s - {k}. blocks_of ?s (cur w j) \<inter> blocks_of ?s (cur w k) = {}"
      using vol_okD(6) [OF v _ k(1)] by simp
    then have "?rest \<inter> blocks_of ?s (cur w k) = {}" by blast
    ultimately have "ablocks ?s - blocks_of ?s (cur w k) = ?rest" by (simp add: Un_Diff Diff_triv)
    then have "ablocks s' = blocks_of s' (i_in a') \<union> ?rest"
      using inode_stepD(4) [OF st] k(3) unfolding blocks_of_def [symmetric] by (simp add: Un_commute)
    also have "?rest = (\<Union>j \<in> iused ?s - {k}. blocks_of s' (cur w j))"
      by (rule SUP_cong) (use other(3) in auto)
    also have "\<dots> = (\<Union>j \<in> iused ?s - {k}. blocks_of s' (((cur w)(k := i_in a')) j))" by (rule SUP_cong) auto
    finally show ?thesis by (simp add: UN_split [OF k(1)])
  qed
  moreover have "cached_ok s' b" if "w_inodes ?w q = Some b" for q b
  proof (cases "q = p")
    case True
    then show ?thesis using that a' nr k di by (simp add: cached_ok_def iu)
  next
    case False
    then have "cached_ok ?s b" using that vol_okD(4) [OF v, of q b] by simp
    then show ?thesis using lt di by (simp add: cached_ok_def iu)
  qed
  moreover have "kept sv s'" by (rule kept_step [OF ds c(2) vol_okD(9) [OF v]])
  ultimately show "vol_at sv N ?w"
    unfolding vol_at_def using ok' data_stepD(1) [OF ds] lt cur vol_okD(7) [OF v] di
    by (simp add: iu subset_iff)
  show "files ?w = (files w)(k \<mapsto> (i_type (i_in a'), contents s' (i_in a')))"
    using k(1) ck cj lt other(2) by (auto simp: files_def fun_eq_iff iu)
  show "cur ?w j = ((cur w)(k := i_in a')) j" if "j < NR_INODES" for j
    using ck cj [OF _ that] by simp
qed

section \<open>Steps outside the data blocks\<close>

lemma file_frame:
  assumes ok: "fs_ok N s" and u: "used s' = used s" "csum_table_of s' = csum_table_of s"
    and d: "\<And>j. j < N \<Longrightarrow> 192 \<le> j \<Longrightarrow> dblk s' j = dblk s j" and f: "file_ok s e"
  shows "file_ok s' e" "contents s' e = contents s e" "blocks_of s' e = blocks_of s e"
    "csums_ok s' e (nblocks (nat (i_size e))) = csums_ok s e (nblocks (nat (i_size e)))"
proof -
  let ?m = "nblocks (nat (i_size e))"
  have im: "imap_ok s e ?m" using f by (simp add: file_ok_def)
  have dk: "dblk s' (192 + k) = dblk s (192 + k)" if "k < MAX_NR_CSUMS" for k
    by (rule d) (use that fs_okD(2) [OF ok] in simp_all)
  have ind: "dblk s' (nat (i_indirect e)) = dblk s (nat (i_indirect e))" if m: "4 < ?m"
  proof -
    obtain k where "i_indirect e = 192 + int k" "k < MAX_NR_CSUMS" using im m by (rule indirect_mapped)
    then show ?thesis using dk by (simp add: nat_add_distrib)
  qed
  have "iblks s e ?m \<inter> ublocks s \<subseteq> ublocks s'" by (simp add: ublocks_def u(1))
  note fr = imap_ok_frame [OF im refl refl ind this]
  show "file_ok s' e" using fr(1) f by (simp add: file_ok_def)
  show "blocks_of s' e = blocks_of s e" using fr(3) by (simp add: blocks_of_def)
  have blk: "dblk s' (nat (lblk s e n)) = dblk s (nat (lblk s e n)) \<and>
      csum_good s' (nat (lblk s e n) - 192) = csum_good s (nat (lblk s e n) - 192)" if n: "n < ?m" for n
  proof -
    obtain k where "lblk s e n = 192 + int k" "k < MAX_NR_CSUMS" using im n by (rule lblk_mapped)
    then show ?thesis using dk by (simp add: nat_add_distrib csum_good_def u(2))
  qed
  then show "csums_ok s' e ?m = csums_ok s e ?m" by (simp add: csums_ok_def fr(2))
  have "fbyte s' e q = fbyte s e q" if "q < nat (i_size e)" for q
  proof -
    have "q < 512 * ?m" using that le_nblocks [of "nat (i_size e)"] by linarith
    then show ?thesis using blk [of "q div 512"] div_512_less [of q ?m] by (simp add: fbyte_def fr(2))
  qed
  then show "contents s' e = contents s e" by (simp add: contents_def)
qed

lemma sync_frame:
  assumes "fs_ok N s" "k < NR_INODES" "dinode_ok d" "j < N" "192 \<le> j"
  shows "dblk (sync_st k d s) j = dblk s j"
  using dblk_sync_st [OF assms(1-4)] slot_bounds(1) [OF assms(1,2)] assms(5) by simp

lemma vol_sync:
  assumes v: "vol_at sv N w" and p: "w_inodes w p = Some a" and nr: "i_nr a = int k" and di: "has_flag a I_FLAGS_DIRTY"
  shows "sync_inode p w = Inr (set_fs (sync_st k (i_in a) (w_fs w)) (store p (clear_flag I_FLAGS_DIRTY a) w))"
    "vol_at sv N (set_fs (sync_st k (i_in a) (w_fs w)) (store p (clear_flag I_FLAGS_DIRTY a) w))"
    "files (set_fs (sync_st k (i_in a) (w_fs w)) (store p (clear_flag I_FLAGS_DIRTY a) w)) = files w"
proof -
  let ?s = "w_fs w" and ?a = "clear_flag I_FLAGS_DIRTY a" and ?d = "i_in a"
  let ?w = "set_fs (sync_st k ?d ?s) (store p ?a w)"
  note c = vol_okD(1,2) [OF v]
  have k: "k \<in> iused ?s" "k < NR_INODES" "cur w k = ?d" using cached_at [OF v p] nr by auto
  have dok: "dinode_ok ?d" using vol_okD(5) [OF v k(1)] k(3) by (simp add: inode_good_def)
  have cp: "cached_ok ?s a" by (rule vol_okD(4) [OF v p])
  then show "sync_inode p w = Inr ?w"
    using sync_inode_eq [OF c(2) nr k(2) dok di] deref_sb_eq [OF c(1) p]
    by (simp add: sync_inode_def on_inode_def cached_ok_def)
  have ok': "cache_ok ?w" unfolding cache_ok_set_fs
    by (rule cache_ok_store [OF c(1) p]) (use cache_okD(8) [OF c(1) p] in simp_all)
  have cur: "cur ?w j = cur w j" if j: "j \<in> iused ?s" for j
  proof (cases "j = k")
    case True
    then show ?thesis using cur_cached [OF ok', of p ?a k] nr k(3) by simp
  next
    case False
    have "dinode_at (sync_st k ?d ?s) j = dinode_at ?s j"
      using dinode_at_sync_st [OF c(2) k(2) dok vol_okD(3) [OF v j]] False by simp
    then show ?thesis
      by (intro cur_other [OF c(1) ok' False, of p "Some ?a"]) (use p nr in auto)
  qed
  have "cached_ok (sync_st k ?d ?s) b" if "w_inodes ?w q = Some b" for q b
  proof (cases "q = p")
    case True
    then show ?thesis using that cp nr k(2) dinode_at_sync_st [OF c(2) k(2) dok k(2)] by (auto simp: cached_ok_def)
  next
    case False
    then have b: "w_inodes w q = Some b" using that by simp
    obtain j where j: "i_nr b = int j" "j < NR_INODES" using cached_at [OF v b] by blast
    have "j \<noteq> k" using cache_okD(9) [OF c(1) b p] j(1) nr False by auto
    then show ?thesis using vol_okD(4) [OF v b] j dinode_at_sync_st [OF c(2) k(2) dok j(2)]
      by (simp add: cached_ok_def)
  qed
  moreover have "dinode_at (sync_st k ?d ?s) j = dinode_at ?s j" if "j < NR_INODES" "j \<notin> iused ?s" for j
    using dinode_at_sync_st [OF c(2) k(2) dok that(1)] that(2) k(1) by auto
  moreover note file_frame [OF c(2), of "sync_st k ?d ?s", OF _ _ sync_frame [OF c(2) k(2) dok]]
  ultimately show "vol_at sv N ?w" "files ?w = files w"
    using c(2) cur vol_okD(9) [OF v] kept_sync [OF c(2) k(2) dok]
    by (intro vol_cong [OF v ok']; simp)+
qed

lemma set_imap_dinode_at: "fs_ok N s \<Longrightarrow> k < NR_INODES \<Longrightarrow> dinode_at (set_imap i on s) k = dinode_at s k"
  using slot_bounds(2) [of N s k] by (simp add: dinode_at_def dblk_set_imap)

section \<open>Writing and truncating\<close>

text \<open>What an operation leaves alone besides the files.\<close>

definition same_env :: "'d world \<Rightarrow> 'd world \<Rightarrow> bool" where
  "same_env w w' \<longleftrightarrow> w_sb w' = w_sb w \<and> fs_out (w_fs w') = fs_out (w_fs w) \<and>
     tx_in_progress (fs_sb (w_fs w')) = tx_in_progress (fs_sb (w_fs w))"

lemma same_env_refl [simp]: "same_env w w"
  by (simp add: same_env_def)

lemma same_env_trans: "same_env w w' \<Longrightarrow> same_env w' w'' \<Longrightarrow> same_env w w''"
  by (simp add: same_env_def)

lemma files_at:
  assumes "vol_at sv N w" "w_inodes w p = Some a" "i_nr a = int k"
  shows "files w k = Some (i_type (i_in a), contents (w_fs w) (i_in a))" "inode_good (w_fs w) (i_in a)"
    "k \<in> iused (w_fs w)" "k < NR_INODES"
  using cached_at [OF assms(1,2)] assms(3) vol_okD(5) [OF assms(1), of k] by (auto simp: files_def)

lemma vol_write:
  assumes v: "vol_at sv N w" and p: "w_inodes w p = Some a" and nr: "i_nr a = int k"
    and f: "files w k = Some (t, c)"
    and sz: "0 < sz" "sz \<le> length buf" "st \<le> length c" "st + sz \<le> 132 * 512"
    and free: "needs (nblocks (length c)) (nblocks (st + sz)) \<le> nfree (w_fs w)"
  shows "\<exists>a' w'. write_data p (int st) buf (int sz) w = Inr (0, w') \<and> vol_at sv N w' \<and> same_env w w' \<and>
    files w' = (files w)(k \<mapsto> (t, overwrite st (take sz buf) c)) \<and>
    w_inodes w' = (w_inodes w)(p \<mapsto> a') \<and> i_nr a' = i_nr a \<and> i_count a' = i_count a \<and> has_flag a' I_FLAGS_DIRTY \<and>
    nfree (w_fs w) = nfree (w_fs w') + needs (nblocks (length c)) (nblocks (max (length c) (st + sz)))"
proof -
  note c = vol_okD(1,2) [OF v] and fa = files_at [OF v p nr]
  have tc: "t = i_type (i_in a)" "c = contents (w_fs w) (i_in a)" using fa(1) f by simp_all
  have g: "dinode_ok (i_in a)" "file_ok (w_fs w) (i_in a)"
    "csums_ok (w_fs w) (i_in a) (nblocks (nat (i_size (i_in a))))"
    using fa(2) by (simp_all add: inode_good_def)
  obtain a' s' where w: "testfs_write_data a (int st) buf (int sz) (w_fs w) = Inr (0, a', s')"
    "contents s' (i_in a') = overwrite st (take sz buf) c" "i_size (i_in a') = max (i_size (i_in a)) (int (st + sz))"
    "file_ok s' (i_in a')" "csums_ok s' (i_in a') (nblocks (nat (i_size (i_in a'))))" "same_inode a a'"
    "has_flag a' I_FLAGS_DIRTY"
    "nfree (w_fs w) = nfree s' + needs (nblocks (nat (i_size (i_in a)))) (nblocks (nat (i_size (i_in a'))))"
    and st: "inode_step N (w_fs w) (i_in a) (nblocks (nat (i_size (i_in a)))) s' (i_in a')
      (nblocks (nat (i_size (i_in a'))))"
    using write_data_eq [OF c(2) g(2,3) sz(1,2)] sz(3,4) free unfolding tc(2) length_contents by blast
  note sm = w(6) [unfolded same_inode_def]
  have "dinode_ok (i_in a')" using dinode_ok_same [OF inode_stepD(3) [OF st] w(4) g(1)] sm by simp
  then have good: "inode_good s' (i_in a')" using w(4,5) by (simp add: inode_good_def)
  have ind: "\<not> has_flag a' I_FLAGS_INDIRECT_DIRTY" using vol_okD(4) [OF v p] sm by (simp add: cached_ok_def)
  have cnt: "0 < i_count a'" using cache_okD(8) [OF c(1) p] sm by simp
  have sm': "i_nr a' = i_nr a" "i_sb a' = i_sb a" using sm by simp_all
  note vs = vol_step [OF v p nr st good sm' cnt disjI1 [OF w(7)] ind]
  let ?w = "set_fs s' (store p a' w)"
  have "write_data p (int st) buf (int sz) w = Inr (0, ?w)"
    using w(1) deref_sb_eq [OF c(1) p] by (simp add: write_data_def)
  moreover have "files ?w = (files w)(k \<mapsto> (t, overwrite st (take sz buf) c))" using vs(2) w(2) sm tc by simp
  moreover have "same_env w ?w" using data_stepD(3,5) [OF inode_stepD(1) [OF st]] by (simp add: same_env_def)
  moreover have "nat (i_size (i_in a')) = max (length c) (st + sz)"
    using file_size [OF g(2)] unfolding w(3) tc(2) length_contents by linarith
  ultimately show ?thesis
    using vs(1) sm w(7,8) unfolding tc(2) length_contents by (intro exI [of _ a'] exI [of _ ?w]) simp
qed

lemma vol_truncate:
  assumes v: "vol_at sv N w" and p: "w_inodes w p = Some a" and nr: "i_nr a = int k"
    and f: "files w k = Some (t, c)"
  shows "\<exists>a' w'. truncate_data p (int sz) w = Inr w' \<and> vol_at sv N w' \<and> same_env w w' \<and>
    files w' = (files w)(k \<mapsto> (t, take sz c)) \<and>
    w_inodes w' = (w_inodes w)(p \<mapsto> a') \<and> i_nr a' = i_nr a \<and> i_count a' = i_count a \<and> i_sb a' = i_sb a \<and>
    (sz < length c \<longrightarrow> has_flag a' I_FLAGS_DIRTY) \<and> (length c \<le> sz \<longrightarrow> w' = w) \<and>
    i_in a' = cur w' k \<and>
    nfree (w_fs w') = nfree (w_fs w) + (if sz < length c then needs (nblocks sz) (nblocks (length c)) else 0)"
proof -
  note c = vol_okD(1,2) [OF v] and fa = files_at [OF v p nr]
  have tc: "t = i_type (i_in a)" "c = contents (w_fs w) (i_in a)" using fa(1) f by simp_all
  have g: "dinode_ok (i_in a)" "file_ok (w_fs w) (i_in a)"
    "csums_ok (w_fs w) (i_in a) (nblocks (nat (i_size (i_in a))))"
    using fa(2) by (simp_all add: inode_good_def)
  have nn: "0 \<le> i_size (i_in a)" using file_size [OF g(2)] by blast
  show ?thesis
  proof (cases "sz < length c")
    case False
    then have "i_size (i_in a) \<le> int sz" "take sz c = c" using nn unfolding tc(2) length_contents by auto
    then have "truncate_data p (int sz) w = Inr (set_fs (w_fs w) (store p a w))"
      using truncate_data_noop [of a "int sz" "w_fs w"] deref_sb_eq [OF c(1) p] by (simp add: truncate_data_def on_inode_def)
    moreover have "set_fs (w_fs w) (store p a w) = w" using p by (simp add: set_fs_def store_def fun_upd_idem)
    ultimately show ?thesis
      using False p v f \<open>take sz c = c\<close> cur_cached [OF c(1) p nr]
      by (intro exI [of _ a] exI [of _ w]) (simp add: fun_upd_idem)
  next
    case True
    then have lt: "int sz < i_size (i_in a)" unfolding tc(2) length_contents by linarith
    obtain a' s' where w: "testfs_truncate_data a (int sz) (w_fs w) = Inr (a', s')"
      "contents s' (i_in a') = take sz c" "i_size (i_in a') = int sz" "file_ok s' (i_in a')"
      "csums_ok s' (i_in a') (nblocks sz)" "same_inode a a'" "has_flag a' I_FLAGS_DIRTY"
      "nfree s' = nfree (w_fs w) + needs (nblocks sz) (nblocks (nat (i_size (i_in a))))"
      and st: "inode_step N (w_fs w) (i_in a) (nblocks (nat (i_size (i_in a)))) s' (i_in a') (nblocks sz)"
      using truncate_data_eq [OF c(2) g(2) lt] g(3) unfolding tc(2) by blast
    have ns: "nat (i_size (i_in a')) = sz" using w(3) by simp
    note sm = w(6) [unfolded same_inode_def]
    have "dinode_ok (i_in a')" using dinode_ok_same [OF inode_stepD(3) [OF st] w(4) g(1)] sm by simp
    then have good: "inode_good s' (i_in a')" using w(4,5) ns by (simp add: inode_good_def)
    have ind: "\<not> has_flag a' I_FLAGS_INDIRECT_DIRTY" using vol_okD(4) [OF v p] sm by (simp add: cached_ok_def)
    have cnt: "0 < i_count a'" using cache_okD(8) [OF c(1) p] sm by simp
    have sm': "i_nr a' = i_nr a" "i_sb a' = i_sb a" using sm by simp_all
    have st': "inode_step N (w_fs w) (i_in a) (nblocks (nat (i_size (i_in a)))) s' (i_in a')
      (nblocks (nat (i_size (i_in a'))))" using st unfolding ns .
    note vs = vol_step [OF v p nr st' good sm' cnt disjI1 [OF w(7)] ind]
    let ?w = "set_fs s' (store p a' w)"
    have "truncate_data p (int sz) w = Inr ?w"
      using w(1) deref_sb_eq [OF c(1) p] by (simp add: truncate_data_def on_inode_def)
    moreover have "files ?w = (files w)(k \<mapsto> (t, take sz c))" using vs(2) w(2) sm tc by simp
    moreover have "same_env w ?w" using data_stepD(3,5) [OF inode_stepD(1) [OF st]] by (simp add: same_env_def)
    moreover have "cur ?w k = i_in a'" using vs(3) [OF fa(4)] by simp
    moreover have "nfree s' = nfree (w_fs w) + needs (nblocks sz) (nblocks (length c))"
      using w(8) unfolding tc(2) length_contents .
    ultimately show ?thesis
      using True vs(1) sm w(7) by (intro exI [of _ a'] exI [of _ ?w]) simp
  qed
qed

section \<open>Creating and removing\<close>

lemma set_imap_frame:
  assumes "fs_ok N s" "j < N" "192 \<le> j"
  shows "dblk (set_imap i on s) j = dblk s j"
  using assms by (simp add: dblk_set_imap)

lemma type_frame [simp]:
  "lblk s (d\<lparr>i_type := t\<rparr>) = lblk s d" "iblks s (d\<lparr>i_type := t\<rparr>) = iblks s d"
  "imap_ok s (d\<lparr>i_type := t\<rparr>) = imap_ok s d" "file_ok s (d\<lparr>i_type := t\<rparr>) = file_ok s d"
  "csums_ok s (d\<lparr>i_type := t\<rparr>) = csums_ok s d" "contents s (d\<lparr>i_type := t\<rparr>) = contents s d"
  "blocks_of s (d\<lparr>i_type := t\<rparr>) = blocks_of s d"
proof -
  show l: "lblk s (d\<lparr>i_type := t\<rparr>) = lblk s d" by (simp add: lblk_def fun_eq_iff)
  then show i: "iblks s (d\<lparr>i_type := t\<rparr>) = iblks s d" by (simp add: iblks_def fun_eq_iff)
  show m: "imap_ok s (d\<lparr>i_type := t\<rparr>) = imap_ok s d" by (simp add: imap_ok_def fun_eq_iff l i)
  show "file_ok s (d\<lparr>i_type := t\<rparr>) = file_ok s d" by (simp add: file_ok_def m)
  show "csums_ok s (d\<lparr>i_type := t\<rparr>) = csums_ok s d" by (simp add: csums_ok_def fun_eq_iff l)
  show "contents s (d\<lparr>i_type := t\<rparr>) = contents s d" by (simp add: contents_def fbyte_def l)
  show "blocks_of s (d\<lparr>i_type := t\<rparr>) = blocks_of s d" by (simp add: blocks_of_def i)
qed

lemma zero_good: "inode_good s zero_dinode" "blocks_of s zero_dinode = {}" "contents s zero_dinode = []"
proof -
  have "zero_dinode = zero_dinode\<lparr>i_type := I_NONE\<rparr>" by (simp add: zero_dinode_def)
  then have "file_ok s zero_dinode" by (metis empty_file_ok)
  then show "inode_good s zero_dinode"
    using dinode_ok_zero by (simp add: inode_good_def csums_ok_def zero_dinode_def nblocks_def)
  show "blocks_of s zero_dinode = {}" by (rule empty_blocks_of) (simp add: zero_dinode_def)
  show "contents s zero_dinode = []" by (simp add: contents_def zero_dinode_def)
qed

text \<open>Taking a free inode number: its slot holds a zero inode, the empty file of no type.\<close>

lemma vol_alloc:
  assumes v: "vol_at sv N w" and k: "k < NR_INODES" "k \<notin> iused (w_fs w)"
  shows "vol_at sv N (set_fs (set_imap k True (w_fs w)) w)"
    "files (set_fs (set_imap k True (w_fs w)) w) = (files w)(k \<mapsto> (I_NONE, []))"
    "w_inodes w p = Some a \<Longrightarrow> i_nr a \<noteq> int k" "cur (set_fs (set_imap k True (w_fs w)) w) k = zero_dinode"
proof -
  let ?s = "w_fs w" and ?s' = "set_imap k True (w_fs w)"
  let ?w = "set_fs ?s' w"
  note c = vol_okD(1,2) [OF v]
  have no: "i_nr a \<noteq> int k" if "w_inodes w p = Some a" for p a
    using vol_okD(4) [OF v that] k(2) by (auto simp: cached_ok_def)
  then show "w_inodes w p = Some a \<Longrightarrow> i_nr a \<noteq> int k" .
  have ok': "cache_ok ?w" "fs_ok N ?s'" using c k(1) fs_ok_set_imap [OF c(2), of k True] by simp_all
  have iu: "iused ?s' = insert k (iused ?s)" using iused_set_imap [OF c(2), of k] k(1) by simp
  have di: "dinode_at ?s' j = dinode_at ?s j" if "j < NR_INODES" for j by (rule set_imap_dinode_at [OF c(2) that])
  note ff = file_frame [OF c(2), of ?s', OF _ _ set_imap_frame [OF c(2)]]
  have lt: "j < NR_INODES" if "j \<in> iused ?s" for j using vol_okD(3) [OF v that] .
  have cj: "cur ?w j = cur w j" if "j < NR_INODES" for j
    by (rule cur_cong [OF c(1) ok'(1)]) (use di [OF that] in simp_all)
  have "cur w k = dinode_at ?s k" by (rule cur_disk [OF c(1)]) (rule no)
  then show ck: "cur ?w k = zero_dinode" using cj [OF k(1)] vol_okD(7) [OF v k] by simp
  have old: "inode_good ?s' (cur w j)" "contents ?s' (cur w j) = contents ?s (cur w j)"
    "blocks_of ?s' (cur w j) = blocks_of ?s (cur w j)" if "j \<in> iused ?s" for j
    using vol_okD(5) [OF v that] ff [of "cur w j"] by (simp_all add: inode_good_def)
  have "inode_good ?s' (cur ?w j)" if "j \<in> iused ?s'" for j
    using that old(1) cj lt ck by (auto simp: iu zero_good(1))
  moreover have "blocks_of ?s' (cur ?w i) \<inter> blocks_of ?s' (cur ?w j) = {}"
    if "i \<in> iused ?s'" "j \<in> iused ?s'" "i \<noteq> j" for i j
    using that old(3) cj lt ck vol_okD(6) [OF v, of i j]
    by (cases "i = k"; cases "j = k") (simp_all add: iu zero_good(2))
  moreover have "ablocks ?s' = (\<Union>j \<in> iused ?s'. blocks_of ?s' (cur ?w j))"
  proof -
    have "(\<Union>j \<in> iused ?s'. blocks_of ?s' (cur ?w j)) = (\<Union>j \<in> iused ?s. blocks_of ?s' (cur ?w j))"
      using ck by (simp add: iu zero_good(2))
    also have "\<dots> = (\<Union>j \<in> iused ?s. blocks_of ?s (cur w j))"
      by (rule SUP_cong) (use old(3) cj lt in simp_all)
    finally show ?thesis using vol_okD(8) [OF v] by (simp add: ablocks_def)
  qed
  moreover have "cached_ok ?s' a" if "w_inodes w p = Some a" for p a
    using vol_okD(4) [OF v that] lt di by (simp add: cached_ok_def iu)
  moreover have "kept sv ?s'" using kept_set_imap [OF c(2) vol_okD(9) [OF v]] by simp
  ultimately show "vol_at sv N ?w"
    unfolding vol_at_def using ok' lt k di vol_okD(7) [OF v] by (simp add: iu subset_iff)
  show "files ?w = (files w)(k \<mapsto> (I_NONE, []))"
    using cj lt ck old(2) by (auto simp: files_def fun_eq_iff iu zero_good(3)) (simp_all add: zero_dinode_def)
qed

lemma vol_create:
  assumes v: "vol_at sv N w" and k: "next_free_inode (w_fs w) = k" "k < NR_INODES" and t: "t = I_FILE \<or> t = I_DIR"
  shows "\<exists>p a w'. testfs_create_inode t w = Inr (0, p, w') \<and> vol_at sv N w' \<and> same_env w w' \<and>
    files w' = (files w)(k \<mapsto> (t, [])) \<and> k \<notin> iused (w_fs w) \<and> w_inodes w p = None \<and>
    w_inodes w' = (w_inodes w)(p \<mapsto> a) \<and> i_nr a = int k \<and> i_count a = 1 \<and> has_flag a I_FLAGS_DIRTY \<and>
    nfree (w_fs w') = nfree (w_fs w) \<and> iused (w_fs w') = insert k (iused (w_fs w))"
proof -
  note c = vol_okD(1,2) [OF v]
  have "iused (w_fs w) \<noteq> {..< 4096}"
  proof
    assume "iused (w_fs w) = {..< 4096}"
    then have "(3000 :: nat) \<in> iused (w_fs w)" by simp
    then show False using vol_okD(3) [OF v, of 3000] by simp
  qed
  then have fm: "testfs_get_inode_freemap (w_fs w) = Inr (int k, set_imap k True (w_fs w))"
    "k \<notin> iused (w_fs w)"
    using get_inode_freemap_eq [OF c(2)] next_free_inode(2) [OF c(2)] k(1) by simp_all
  let ?w1 = "set_fs (set_imap k True (w_fs w)) w"
  note va = vol_alloc [OF v k(2) fm(2)]
  have ku: "k \<in> iused (w_fs ?w1)" using iused_set_imap [OF c(2), of k True] k(2) by simp
  obtain p a w2 where g: "testfs_get_inode (int k) ?w1 = Inr (p, w2)" "got ?w1 k p a w2" "vol_at sv N w2"
    "files w2 = files ?w1"
    using vol_get [OF va(1) ku] by blast
  note g' = g(2) [unfolded got_def]
  have "w_inodes w p \<noteq> Some b" for b using va(3) [of p b] g' by (auto split: option.splits)
  then have new: "w_inodes w p = None" by (cases "w_inodes w p") auto
  then have a: "i_nr a = int k" "i_in a = zero_dinode" "i_count a = 1" "i_flags a = 0" using g' va(4) by simp_all
  let ?a = "set_flag I_FLAGS_DIRTY (upd_in (\<lambda>d. d\<lparr>i_type := t\<rparr>) a)"
  have p2: "w_inodes w2 p = Some a" using g' by simp
  have d: "i_in ?a = zero_dinode\<lparr>i_type := t\<rparr>" using a(2) by (simp add: upd_in_def set_flag_def)
  have im: "imap_ok (w_fs w2) zero_dinode 0"
    using zero_good(1) [of "w_fs w2"] by (simp add: inode_good_def file_ok_def zero_dinode_def nblocks_def)
  have nb: "nblocks (nat (i_size (i_in a))) = 0" "nblocks (nat (i_size (i_in ?a))) = 0"
    unfolding d a(2) by (simp_all add: zero_dinode_def nblocks_def)
  have st: "inode_step N (w_fs w2) (i_in a) (nblocks (nat (i_size (i_in a)))) (w_fs w2) (i_in ?a)
      (nblocks (nat (i_size (i_in ?a))))"
    using inode_step_refl [OF vol_okD(2) [OF g(3)] im]
    unfolding nb unfolding d a(2) by (simp only: inode_step_def type_frame)
  have "dinode_ok (zero_dinode\<lparr>i_type := t\<rparr>)" using t dinode_ok_zero by (auto simp: dinode_ok_def)
  then have good: "inode_good (w_fs w2) (i_in ?a)"
    using zero_good(1) [of "w_fs w2"] unfolding d by (simp add: inode_good_def)
  have fl: "i_nr ?a = i_nr a" "i_sb ?a = i_sb a" "0 < i_count ?a"
      "has_flag ?a I_FLAGS_DIRTY \<or> i_in ?a = dinode_at (w_fs w2) k" "\<not> has_flag ?a I_FLAGS_INDIRECT_DIRTY"
    using a(3,4) by (simp_all add: upd_in_def has_flag_def set_flag_def I_FLAGS_DIRTY_def I_FLAGS_INDIRECT_DIRTY_def)
  note vs = vol_step [OF g(3) p2 a(1) st good fl]
  let ?w = "set_fs (w_fs w2) (store p ?a w2)"
  have w: "?w = store p ?a w2" by (simp add: set_fs_def store_def)
  have "testfs_create_inode t w = Inr (0, p, ?w)"
    using fm(1) g(1) deref_eq [OF vol_okD(1) [OF g(3)] p2] unfolding w by (simp add: testfs_create_inode_def Let_def)
  moreover have "files ?w = (files w)(k \<mapsto> (t, []))"
    using vs(2) g(4) va(2) zero_good(3) [of "w_fs w2"] unfolding d by simp
  moreover have "same_env w ?w" "nfree (w_fs ?w) = nfree (w_fs w)" "w_inodes ?w = (w_inodes w)(p \<mapsto> ?a)"
    "iused (w_fs ?w) = insert k (iused (w_fs w))"
    using g' iused_set_imap [OF c(2), of k True] k(2) by (simp_all add: same_env_def nfree_def) 
  ultimately show ?thesis
    using vs(1) new fm(2) a(1,3) fl(1,4) by (intro exI [of _ p] exI [of _ ?a] exI [of _ ?w]) (simp add: upd_in_def)
qed

text \<open>Giving a number back: the slot is zeroed and the in-memory inode is gone.\<close>

lemma vol_free:
  assumes v: "vol_at sv N w" and p: "w_inodes w p = Some a" and nr: "i_nr a = int k" and f: "files w k = Some (t, [])"
    and ok': "cache_ok w'" and s': "w_fs w' = sync_st k zero_dinode (set_imap k False (w_fs w))"
    and i': "w_inodes w' = (w_inodes w)(p := None)"
  shows "vol_at sv N w'" "files w' = (files w)(k := None)"
proof -
  let ?s = "w_fs w" and ?s1 = "set_imap k False (w_fs w)" and ?s' = "w_fs w'"
  note c = vol_okD(1,2) [OF v] and fa = files_at [OF v p nr]
  have ck: "cur w k = i_in a" using cur_cached [OF c(1) p nr] .
  have ok1: "fs_ok N ?s1" using c fa(4) fs_ok_set_imap [OF c(2), of k False] by simp
  then have okf: "fs_ok N ?s'" unfolding s' by simp
  have iu: "iused ?s' = iused ?s - {k}" using iused_set_imap [OF c(2), of k] fa(4) unfolding s' by simp
  have di: "dinode_at ?s' j = (if j = k then zero_dinode else dinode_at ?s j)" if "j < NR_INODES" for j
    using dinode_at_sync_st [OF ok1 fa(4) dinode_ok_zero that] set_imap_dinode_at [OF c(2) that] unfolding s' by simp
  have "dblk ?s' j = dblk ?s j" if "j < N" "192 \<le> j" for j
    using sync_frame [OF ok1 fa(4) dinode_ok_zero that] set_imap_frame [OF c(2) that] unfolding s' by simp
  moreover have "used ?s' = used ?s" "csum_table_of ?s' = csum_table_of ?s" unfolding s' by simp_all
  ultimately have ff: "file_ok ?s' e" "contents ?s' e = contents ?s e" "blocks_of ?s' e = blocks_of ?s e"
    "csums_ok ?s' e (nblocks (nat (i_size e))) = csums_ok ?s e (nblocks (nat (i_size e)))"
    if "file_ok ?s e" for e
    using file_frame [OF c(2) _ _ _ that, of ?s'] by blast+
  have lt: "j < NR_INODES" if "j \<in> iused ?s" for j using vol_okD(3) [OF v that] .
  have cj: "cur w' j = cur w j" if "j \<in> iused ?s" "j \<noteq> k" for j
    by (rule cur_other [OF c(1) ok' that(2), of p None]) (use di [OF lt [OF that(1)]] that(2) i' p nr in auto)
  have old: "inode_good ?s' (cur w j)" "contents ?s' (cur w j) = contents ?s (cur w j)"
    "blocks_of ?s' (cur w j) = blocks_of ?s (cur w j)" if "j \<in> iused ?s" for j
    using vol_okD(5) [OF v that] ff [of "cur w j"] by (simp_all add: inode_good_def)
  have "contents ?s (i_in a) = []" using fa(1) f by simp
  then have "nat (i_size (i_in a)) = 0" using length_contents [of ?s "i_in a"] by simp
  moreover have "0 \<le> i_size (i_in a)" using fa(2) by (simp add: inode_good_def file_ok_def)
  ultimately have empty: "blocks_of ?s (cur w k) = {}" unfolding ck by (intro empty_blocks_of) simp
  have "ablocks ?s' = (\<Union>j \<in> iused ?s'. blocks_of ?s' (cur w' j))"
  proof -
    have "(\<Union>j \<in> iused ?s'. blocks_of ?s' (cur w' j)) = (\<Union>j \<in> iused ?s - {k}. blocks_of ?s (cur w j))"
      unfolding iu by (rule SUP_cong) (use old(3) cj in simp_all)
    also have "\<dots> = ablocks ?s" using vol_okD(8) [OF v] UN_split [OF fa(3), of "\<lambda>j. blocks_of ?s (cur w j)"] empty by simp
    also have "ablocks ?s = ablocks ?s'" unfolding s' by (simp add: ablocks_def)
    finally show ?thesis by simp
  qed
  moreover have "cached_ok ?s' b" if b: "w_inodes w' q = Some b" for q b
  proof -
    have q: "w_inodes w q = Some b" "q \<noteq> p" using b i' by (simp_all split: if_splits)
    then have "i_nr b \<noteq> int k" using cache_okD(9) [OF c(1) q(1) p] nr by auto
    then show ?thesis using vol_okD(4) [OF v q(1)] di lt by (auto simp: cached_ok_def iu)
  qed
  moreover have "inode_good ?s' (cur w' j)" if "j \<in> iused ?s'" for j
    using that old(1) cj by (simp add: iu)
  moreover have "blocks_of ?s' (cur w' i) \<inter> blocks_of ?s' (cur w' j) = {}"
    if "i \<in> iused ?s'" "j \<in> iused ?s'" "i \<noteq> j" for i j
    using that old(3) cj vol_okD(6) [OF v, of i j] by (simp add: iu)
  moreover have "kept sv ?s1" using kept_set_imap [OF c(2) vol_okD(9) [OF v]] by simp
  then have "kept sv ?s'" using kept_sync [OF ok1 fa(4) dinode_ok_zero] unfolding s' by simp
  ultimately show "vol_at sv N w'"
    unfolding vol_at_def using ok' okf lt di vol_okD(7) [OF v] by (auto simp: iu)
  show "files w' = (files w)(k := None)"
    using cj old(2) by (auto simp: files_def fun_eq_iff iu)
qed

lemma vol_remove:
  assumes v: "vol_at sv N w" and p: "w_inodes w p = Some a" and nr: "i_nr a = int k" and one: "i_count a = 1"
  shows "\<exists>w'. testfs_remove_inode p w = Inr w' \<and> vol_at sv N w' \<and> same_env w w' \<and> files w' = (files w)(k := None) \<and>
    w_inodes w' = (w_inodes w)(p := None) \<and> iused (w_fs w') = iused (w_fs w) - {k}"
proof -
  note fa = files_at [OF v p nr]
  obtain a1 w1 where t: "truncate_data p (int 0) w = Inr w1" "vol_at sv N w1" "same_env w w1"
    "files w1 = (files w)(k \<mapsto> (i_type (i_in a), []))" "w_inodes w1 = (w_inodes w)(p \<mapsto> a1)" "i_nr a1 = i_nr a"
    "i_count a1 = i_count a"
    using vol_truncate [OF v p nr fa(1), of 0] by auto
  note c = vol_okD(1,2) [OF t(2)]
  have p1: "w_inodes w1 p = Some a1" using t(5) by simp
  have nr1: "i_nr a1 = int k" using t(6) nr by simp
  note fb = files_at [OF t(2) p1 nr1]
  let ?a = "set_flag I_FLAGS_DIRTY (a1\<lparr>i_in := zero_dinode\<rparr>)"
  let ?s1 = "set_imap k False (w_fs w1)"
  let ?w2 = "set_fs ?s1 (store p ?a w1)" and ?b = "clear_flag I_FLAGS_DIRTY ?a"
  let ?w3 = "set_fs (sync_st k zero_dinode ?s1) (store p ?b ?w2)"
  have ind: "\<not> has_flag ?a I_FLAGS_INDIRECT_DIRTY" "i_in ?a = zero_dinode" "i_in ?b = zero_dinode"
    using vol_okD(4) [OF t(2) p1] by (simp_all add: cached_ok_def has_flag_def set_flag_def clear_flag_def
      I_FLAGS_DIRTY_def I_FLAGS_INDIRECT_DIRTY_def word_ao_dist)
  have same: "i_nr ?a = i_nr a1" "i_sb ?a = i_sb a1" "i_count ?a = i_count a1" by (simp_all)
  have cnt: "0 < i_count a1" using cache_okD(8) [OF c(1) p1] .
  have ok1: "fs_ok N ?s1" using c fb(4) fs_ok_set_imap [OF c(2), of k False] by simp
  have w2: "cache_ok ?w2" "w_inodes ?w2 p = Some ?a" "w_fs ?w2 = ?s1"
    unfolding cache_ok_set_fs using cache_ok_store [OF c(1) p1, of ?a] same cnt by simp_all
  have w3: "cache_ok ?w3" "w_inodes ?w3 p = Some ?b" "w_fs ?w3 = sync_st k zero_dinode ?s1"
    unfolding cache_ok_set_fs using cache_ok_store [OF w2(1,2), of ?b] same cnt by simp_all
  have "sync_inode p ?w2 = Inr ?w3"
    using sync_inode_eq [OF ok1, of ?a k] ind nr1 same(1) fb(4) dinode_ok_zero deref_sb_eq [OF w2(1,2)] w2(3)
    by (simp add: sync_inode_def on_inode_def)
  moreover have "testfs_put_inode_freemap (int k) (w_fs w1) = Inr ?s1"
    using put_inode_freemap_eq [OF c(2), of k] fb(3,4) by simp
  moreover obtain w4 where w4: "testfs_put_inode p ?w3 = Inr w4" "cache_ok w4" "w_fs w4 = w_fs ?w3" "w_sb w4 = w_sb ?w3"
    "w_inodes w4 = (w_inodes ?w3)(p := None)"
  proof -
    have inv: "cache_ok ?w3 \<and> fs_ok N (w_fs ?w3)" using w3 ok1 by simp
    have "\<not> has_flag ?b I_FLAGS_DIRTY" "i_count ?b = 1" using same(3) t(7) one by simp_all
    then show thesis using ic.put_law [OF inv w3(2)] that by auto
  qed
  ultimately have "testfs_remove_inode p w = Inr w4"
    using t(1) deref_sb_eq [OF c(1) p1] nr1 same(1) by (simp add: testfs_remove_inode_def)
  moreover have "w_inodes w4 = (w_inodes w)(p := None)" "w_inodes w4 = (w_inodes w1)(p := None)"
    using w4(5) t(5) by simp_all
  moreover have f1: "files w1 k = Some (i_type (i_in a), [])" using t(4) by simp
  note vf = vol_free [OF t(2) p1 nr1 f1 w4(2)]
  moreover have "w_fs w4 = sync_st k zero_dinode ?s1" using w4(3) w3(3) by simp
  moreover have "same_env w w4" using t(3) w4(3,4) w3(3) by (simp add: same_env_def)
  moreover have "iused (w_fs w1) = iused (w_fs w)"
  proof -
    have "iused (w_fs w) = dom (files w)" "iused (w_fs w1) = dom (files w1)" by (auto simp: files_def split: if_splits)
    then show ?thesis using t(4) fa(1) by auto
  qed
  moreover have "iused (w_fs w4) = iused (w_fs w1) - {k}"
    using iused_set_imap [OF c(2), of k False] fb(4) w4(3) w3(3) by simp
  ultimately show ?thesis using t(4) by (intro exI [of _ w4]) simp
qed

end
