(* ===== verification/DirOk.thy ===== *)
theory DirOk
  imports Volume DirOps
begin

text \<open>
  Directories as lists of entries.  \<open>dir_at N w p k es\<close>: the cached inode at \<open>p\<close> is the directory with
  number \<open>k\<close> and its data is the encoding of the entries \<open>es\<close>.  \<open>testfs_next_dirent\<close> walks along
  this list (\<open>scans\<close>), so every loop of \<open>dir.c\<close> becomes a recursion on it; on the abstract side
  \<open>dir_lookup\<close> reads the list as a map from names to inode numbers, which adding and removing entries
  update.
\<close>

section \<open>Entries\<close>

definition live :: "dirent \<Rightarrow> bool" where "live d \<longleftrightarrow> 0 \<le> d_inode_nr d"
definition dname :: "dirent \<Rightarrow> byte list" where "dname d = butlast (d_name d)"

definition dirent_ok :: "dirent \<Rightarrow> bool" where
  "dirent_ok d \<longleftrightarrow> d_name_len d = int (length (d_name d)) \<and> in_int32 (d_inode_nr d) \<and>
     d_name d \<noteq> [] \<and> last (d_name d) = 0 \<and> 0 \<notin> set (dname d)"

definition new_dirent :: "byte list \<Rightarrow> int \<Rightarrow> dirent" where
  "new_dirent nm k = \<lparr>d_name_len = int (length nm) + 1, d_inode_nr = k, d_name = nm @ [0]\<rparr>"

definition dir_bytes :: "dirent list \<Rightarrow> byte list" where
  "dir_bytes es = concat (map dirent_bytes es)"

lemma dir_bytes_simps [simp]:
  "dir_bytes [] = []" "dir_bytes (d # es) = dirent_bytes d @ dir_bytes es"
  "dir_bytes (es @ es') = dir_bytes es @ dir_bytes es'"
  by (simp_all add: dir_bytes_def)

lemma length_dirent_bytes [simp]: "length (dirent_bytes d) = 8 + length (d_name d)"
  by (simp add: dirent_bytes_def)

lemma new_dirent_simps [simp]:
  "d_name_len (new_dirent nm k) = int (length nm) + 1" "d_inode_nr (new_dirent nm k) = k"
  "d_name (new_dirent nm k) = nm @ [0]" "dname (new_dirent nm k) = nm"
  by (simp_all add: new_dirent_def dname_def)

lemma dirent_ok_new: "0 \<notin> set nm \<Longrightarrow> in_int32 k \<Longrightarrow> dirent_ok (new_dirent nm k)"
  by (simp add: dirent_ok_def)

lemma dirent_ok_kill: "dirent_ok d \<Longrightarrow> dirent_ok (d\<lparr>d_inode_nr := - 1\<rparr>)"
  by (simp add: dirent_ok_def in_int32_def dname_def)

lemma d_name_eq: "dirent_ok d \<Longrightarrow> d_name d = dname d @ [0]"
  unfolding dirent_ok_def dname_def by (metis append_butlast_last_id)

lemma length_d_name: "dirent_ok d \<Longrightarrow> length (d_name d) = Suc (length (dname d))"
  by (simp add: d_name_eq)

lemma int_at_dirent:
  "in_int32 x \<Longrightarrow> int_at (int_bytes x @ int_bytes y @ zs) 0 = x"
  "in_int32 y \<Longrightarrow> int_at (int_bytes x @ int_bytes y @ zs) 1 = y"
  by (simp_all add: int_at_def word_at_def seg_def) (simp_all add: int_bytes_def sint_of_int32)

lemma strcmp_eq_names: "0 \<notin> set as \<Longrightarrow> 0 \<notin> set bs \<Longrightarrow> strcmp_eq (as @ [0]) (bs @ [0]) = Inr (as = bs)"
proof (induction as arbitrary: bs)
  case Nil
  then show ?case by (cases bs) auto
next
  case (Cons a as)
  then show ?case by (cases bs) auto
qed

lemma dname_0: "dirent_ok d \<Longrightarrow> 0 \<notin> set (dname d)"
  by (simp add: dirent_ok_def)

lemma strcmp_name: "dirent_ok d \<Longrightarrow> 0 \<notin> set nm \<Longrightarrow> strcmp (d_name d) (Some nm) = Inr (dname d = nm)"
  by (simp add: d_name_eq strcmp_def c_mem_def strcmp_eq_names dname_0)

lemma c_string_name: "dirent_ok d \<Longrightarrow> c_string (d_name d) = Inr (dname d)"
  using dname_0 [of d] takeWhile_append2 [of "dname d" "\<lambda>b. b \<noteq> 0" "[0]"]
  by (fastforce simp: c_string_def d_name_eq)

section \<open>Walking along a directory\<close>

definition dir_at :: "nat \<Rightarrow> 'd world \<Rightarrow> ptr \<Rightarrow> nat \<Rightarrow> dirent list \<Rightarrow> bool" where
  "dir_at N w p k es \<longleftrightarrow> vol_ok N w \<and> (\<exists>a. w_inodes w p = Some a \<and> i_nr a = int k) \<and>
     files w k = Some (I_DIR, dir_bytes es) \<and> list_all dirent_ok es"

definition off :: "dirent list \<Rightarrow> int" where "off us = int (length (dir_bytes us))"

definition scans :: "ptr \<Rightarrow> 'd world \<Rightarrow> dirent list \<Rightarrow> bool" where
  "scans p w es \<longleftrightarrow> list_all dirent_ok es \<and>
     (\<forall>us vs. es = us @ vs \<longrightarrow> testfs_next_dirent p (off us) w =
        Inr (case vs of [] \<Rightarrow> (None, off us) | d # _ \<Rightarrow> (Some d, off (us @ [d]))))"

lemma vol_read:
  assumes v: "vol_ok N w" and p: "w_inodes w p = Some a" and nr: "i_nr a = int k"
    and f: "files w k = Some (t, c)" and sz: "0 < sz" "st + sz \<le> length c" "sz \<le> length buf"
  shows "read_data p (int st) buf (int sz) w = Inr (0, blit 0 (seg st sz c) buf)"
proof -
  note c = vol_okD(1,2) [OF v] and fa = files_at [OF v p nr]
  have "c = contents (w_fs w) (i_in a)" "file_ok (w_fs w) (i_in a)" using fa f by (simp_all add: inode_good_def)
  moreover from this have "st + sz \<le> nat (i_size (i_in a))" using sz(2) by simp
  moreover have "i_size (i_in a) < 2147483648" using file_size [OF calculation(2)] by linarith
  ultimately show ?thesis
    using read_data_eq [OF c(2), of a sz st buf] sz(1,3) deref_sb_eq [OF c(1) p] by (simp add: read_data_def)
qed

lemma dir_fields:
  assumes "dir_at N w p k es"
  shows "vol_ok N w" "\<exists>a. w_inodes w p = Some a \<and> i_nr a = int k" "files w k = Some (I_DIR, dir_bytes es)"
    "list_all dirent_ok es" "p \<noteq> NULL" "testfs_inode_get_type p w = Inr I_DIR"
    "testfs_inode_get_size p w = Inr (off es)" "testfs_inode_get_nr p w = Inr (int k)"
    "length (dir_bytes es) \<le> 132 * 512" "dir_size p w = off es" "k < NR_INODES"
proof -
  show d: "vol_ok N w" "\<exists>a. w_inodes w p = Some a \<and> i_nr a = int k" "files w k = Some (I_DIR, dir_bytes es)"
    "list_all dirent_ok es"
    using assms by (simp_all add: dir_at_def)
  obtain a where a: "w_inodes w p = Some a" "i_nr a = int k" using d(2) by blast
  note fa = files_at [OF d(1) a] and c = vol_okD(1) [OF d(1)]
  have de: "deref p w = Inr a" using deref_eq [OF c a(1)] .
  have sz: "0 \<le> i_size (i_in a)" "nat (i_size (i_in a)) \<le> 132 * 512"
    using fa(2) file_size by (auto simp: inode_good_def)
  have "dir_bytes es = contents (w_fs w) (i_in a)" using fa(1) d(3) by simp
  then have "length (dir_bytes es) = nat (i_size (i_in a))" by simp
  then show "p \<noteq> NULL" "testfs_inode_get_type p w = Inr I_DIR" "testfs_inode_get_size p w = Inr (off es)"
    "testfs_inode_get_nr p w = Inr (int k)" "length (dir_bytes es) \<le> 132 * 512" "dir_size p w = off es" "k < NR_INODES"
    using de sz fa a cache_okD(5) [OF c a(1)] d(3)
    by (auto simp: testfs_inode_get_type_def testfs_inode_get_size_def testfs_inode_get_nr_def dir_size_def off_def)
qed

lemma dir_scans:
  assumes d: "dir_at N w p k es"
  shows "scans p w es"
proof -
  note f = dir_fields [OF d]
  obtain a where a: "w_inodes w p = Some a" "i_nr a = int k" using f(2) by blast
  have "testfs_next_dirent p (off us) w =
      Inr (case vs of [] \<Rightarrow> (None, off us) | d # _ \<Rightarrow> (Some d, off (us @ [d])))" if es: "es = us @ vs" for us vs
  proof (cases vs)
    case Nil
    then show ?thesis using f es by (simp add: testfs_next_dirent_def)
  next
    case (Cons e vs')
    let ?c = "dir_bytes es" and ?o = "length (dir_bytes us)"
    have e: "dirent_ok e" using f(4) es Cons by simp
    have len: "?o + 8 + length (d_name e) \<le> length ?c" using es Cons by simp
    have dn: "d_name_len e = int (length (d_name e))" "0 < length (d_name e)" "in_int32 (d_inode_nr e)"
      using e by (simp_all add: dirent_ok_def)
    have i32: "in_int32 (d_name_len e)" using f(9) len unfolding dn(1) in_int32_def by linarith
    let ?h = "int_bytes (d_name_len e) @ int_bytes (d_inode_nr e)"
    have c: "?c = dir_bytes us @ ?h @ d_name e @ dir_bytes vs'" using es Cons by (simp add: dirent_bytes_def)
    have "seg ?o 8 ?c = ?h" "seg (?o + 8) (length (d_name e)) ?c = d_name e" by (simp_all add: c seg_def)
    then have r1: "read_data p (int ?o) (replicate 8 0) 8 w = Inr (0, ?h)"
      and r2: "read_data p (int ?o + 8) (replicate (length (d_name e)) 0) (int (length (d_name e))) w = Inr (0, d_name e)"
      using vol_read [OF f(1) a f(3), of 8 ?o "replicate 8 0"] len dn(2)
        vol_read [OF f(1) a f(3), of "length (d_name e)" "?o + 8" "replicate (length (d_name e)) 0"]
      by simp_all
    have ia: "int_at ?h 0 = d_name_len e" "int_at ?h 1 = d_inode_nr e"
      using int_at_dirent [OF i32, of "d_inode_nr e" "[]"] int_at_dirent(2) [OF dn(3), of "d_name_len e" "[]"] by simp_all
    have lt: "off us < off es" using es Cons dn(2) by (simp add: off_def)
    show ?thesis
      using f(5-7) lt r1 r2 ia dn Cons unfolding testfs_next_dirent_def by (simp add: off_def Let_def del: One_nat_def)
  qed
  then show ?thesis using f(4) by (simp add: scans_def)
qed

section \<open>The map from names to numbers\<close>

definition names :: "byte list \<Rightarrow> dirent \<Rightarrow> bool" where
  "names nm d \<longleftrightarrow> live d \<and> dname d = nm"

definition dir_lookup :: "dirent list \<Rightarrow> byte list \<Rightarrow> int option" where
  "dir_lookup es nm = map_option d_inode_nr (find (names nm) es)"

lemma dir_lookup_simps [simp]:
  "dir_lookup [] nm = None"
  "dir_lookup (d # es) nm = (if names nm d then Some (d_inode_nr d) else dir_lookup es nm)"
  by (simp_all add: dir_lookup_def)

lemma dir_lookup_nonneg: "dir_lookup es nm = Some k \<Longrightarrow> 0 \<le> k"
  by (induction es) (auto simp: names_def live_def split: if_splits)

lemma dir_lookup_in: "dir_lookup es nm = Some k \<Longrightarrow> \<exists>us d vs. es = us @ d # vs \<and> names nm d \<and> d_inode_nr d = k \<and> list_all (\<lambda>d. \<not> names nm d) us"
proof (induction es)
  case (Cons e es)
  show ?case
  proof (cases "names nm e")
    case True
    then show ?thesis using Cons.prems by (intro exI [of _ "[]"] exI [of _ e] exI [of _ es]) simp
  next
    case False
    then obtain us d vs where "es = us @ d # vs" "names nm d" "d_inode_nr d = k" "list_all (\<lambda>d. \<not> names nm d) us"
      using Cons by auto
    then show ?thesis using False by (intro exI [of _ "e # us"] exI [of _ d] exI [of _ vs]) simp
  qed
qed simp

lemma names_strcmp:
  assumes "dirent_ok d" "0 \<notin> set nm"
  shows "(if d_inode_nr d < 0 then Inr False else strcmp (d_name d) (Some nm)) = Inr (names nm d)"
    "(if 0 \<le> d_inode_nr d then strcmp (d_name d) (Some nm) else Inr False) = Inr (names nm d)"
  using strcmp_name [OF assms] by (auto simp: names_def live_def)

lemma scan_step:
  assumes "scans p w es" "es = us @ d # vs"
  shows "testfs_next_dirent p (off us) w = Inr (Some d, off (us @ [d]))" "dirent_ok d"
  using assms by (auto simp: scans_def)

lemma scan_end: "scans p w es \<Longrightarrow> testfs_next_dirent p (off es) w = Inr (None, off es)"
  by (simp add: scans_def)

lemma name_loop_eq:
  assumes s: "scans p w (us @ vs)" and nm: "0 \<notin> set nm"
  shows "name_loop p (Some nm) (off us) w = Inr (case dir_lookup vs nm of None \<Rightarrow> - ENOENT | Some k \<Rightarrow> k)"
  using s
proof (induction vs arbitrary: us)
  case Nil
  then show ?case using scan_end [of p w us] by (subst name_loop.simps) simp
next
  case (Cons d vs)
  note st = scan_step [OF Cons.prems refl]
  show ?case
    using st names_strcmp [OF st(2) nm] Cons.IH [of "us @ [d]"] Cons.prems by (subst name_loop.simps) simp
qed

lemma name_to_nr:
  assumes "dir_at N w p k es" "0 \<notin> set nm"
  shows "testfs_dir_name_to_inode_nr p (Some nm) w =
    Inr (case dir_lookup es nm of None \<Rightarrow> - ENOENT | Some k \<Rightarrow> k)"
  using dir_fields [OF assms(1)] name_loop_eq [of p w "[]" es nm] dir_scans [OF assms(1)] assms(2)
  by (simp add: testfs_dir_name_to_inode_nr_def off_def)

lemma find_loop_eq:
  assumes "scans p w (us @ vs)"
  shows "find_dirent_loop p nr (off us) w = Inr (find (\<lambda>d. d_inode_nr d = nr) vs)"
  using assms
proof (induction vs arbitrary: us)
  case Nil
  then show ?case using scan_end [of p w us] by (subst find_dirent_loop.simps) simp
next
  case (Cons d vs)
  then show ?case using scan_step [OF Cons.prems refl] Cons.IH [of "us @ [d]"] by (subst find_dirent_loop.simps) simp
qed

lemma find_dirent:
  assumes "dir_at N w p k es" "0 \<le> nr"
  shows "testfs_find_dirent p nr w = Inr (find (\<lambda>d. d_inode_nr d = nr) es)"
  using dir_fields [OF assms(1)] find_loop_eq [of p w "[]" es nr] dir_scans [OF assms(1)] assms(2)
  by (simp add: testfs_find_dirent_def off_def)

section \<open>Adding an entry\<close>

text \<open>
  The place for a new entry: the first removed entry with a name of the same length, or the end;
  none if a live entry with the name comes first.
\<close>

fun dir_slot :: "byte list \<Rightarrow> dirent list \<Rightarrow> (dirent list \<times> dirent list) option" where
  "dir_slot nm [] = Some ([], [])"
| "dir_slot nm (d # es) =
     (if names nm d then None
      else if live d \<or> d_name_len d \<noteq> int (length nm) + 1
           then map_option (\<lambda>(us, vs). (d # us, vs)) (dir_slot nm es)
      else Some ([], d # es))"

definition dir_insert :: "byte list \<Rightarrow> int \<Rightarrow> dirent list \<Rightarrow> dirent list option" where
  "dir_insert nm k es = map_option (\<lambda>(us, vs). us @ new_dirent nm k # tl vs) (dir_slot nm es)"

lemma dir_slot:
  "dir_slot nm es = Some (us, vs) \<Longrightarrow> es = us @ vs \<and> list_all (\<lambda>d. \<not> names nm d) us \<and>
     (vs \<noteq> [] \<longrightarrow> \<not> live (hd vs) \<and> d_name_len (hd vs) = int (length nm) + 1)"
proof (induction es arbitrary: us)
  case (Cons d es)
  then show ?case by (fastforce split: if_splits)
qed simp

lemma dir_slot_exists: "dir_lookup es nm = None \<Longrightarrow> dir_slot nm es \<noteq> None"
  by (induction es) (auto split: if_splits)

lemma add_loop_eq:
  assumes s: "scans p w (us @ vs)" and nm: "0 \<notin> set nm"
  shows "add_dirent_loop p (Some nm) (int (length nm) + 1) (off us) w =
    Inr (case dir_slot nm vs of None \<Rightarrow> (- EEXIST, False, off (us @ takeWhile (\<lambda>d. \<not> names nm d) vs))
         | Some (us', vs') \<Rightarrow> (0, vs' \<noteq> [], off (us @ us')))"
  using s
proof (induction vs arbitrary: us)
  case Nil
  then show ?case using scan_end [of p w us] by (subst add_dirent_loop.simps) simp
next
  case (Cons d vs)
  note st = scan_step [OF Cons.prems refl]
  show ?case
    using st names_strcmp(2) [OF st(2) nm] Cons.IH [of "us @ [d]"] Cons.prems
    by (subst add_dirent_loop.simps) (auto simp: live_def names_def split: option.splits)
qed

text \<open>Room for a directory to grow from \<open>es\<close> to \<open>es'\<close>.\<close>

definition room :: "'d world \<Rightarrow> dirent list \<Rightarrow> dirent list \<Rightarrow> bool" where
  "room w es es' \<longleftrightarrow> length (dir_bytes es') \<le> 132 * 512 \<and>
     needs (nblocks (length (dir_bytes es))) (nblocks (length (dir_bytes es'))) \<le> nfree (w_fs w)"

text \<open>Replacing or appending one entry on the disk.\<close>

lemma overwrite_dir:
  assumes "vs \<noteq> [] \<longrightarrow> length (d_name (hd vs)) = length (d_name d)"
  shows "overwrite (length (dir_bytes us)) (dirent_bytes d) (dir_bytes (us @ vs)) = dir_bytes (us @ d # tl vs)"
    "length (dir_bytes (us @ d # tl vs)) =
     max (length (dir_bytes (us @ vs))) (length (dir_bytes us) + length (dirent_bytes d))"
  using assms by (cases vs; simp add: overwrite_def)+

lemma needs_0: "b \<le> a \<Longrightarrow> needs a b = 0"
  by (simp add: needs_eq)

lemma nblocks_mono: "a \<le> b \<Longrightarrow> nblocks a \<le> nblocks b"
  by (simp add: nblocks_def div_le_mono)

lemma dir_write:
  assumes d: "dir_at N w p k (us @ vs)" and e: "dirent_ok e"
    and l: "vs \<noteq> [] \<longrightarrow> length (d_name (hd vs)) = length (d_name e)"
    and r: "room w (us @ vs) (us @ e # tl vs)" and p: "w_inodes w p = Some a"
  shows "\<exists>a' w'. write_data p (off us) (dirent_bytes e) (8 + d_name_len e) w = Inr (0, w') \<and>
    dir_at N w' p k (us @ e # tl vs) \<and> same_env w w' \<and>
    files w' = (files w)(k \<mapsto> (I_DIR, dir_bytes (us @ e # tl vs))) \<and>
    w_inodes w' = (w_inodes w)(p \<mapsto> a') \<and> i_nr a' = int k \<and> i_count a' = i_count a \<and> has_flag a' I_FLAGS_DIRTY \<and>
    nfree (w_fs w) = nfree (w_fs w') +
      needs (nblocks (length (dir_bytes (us @ vs)))) (nblocks (length (dir_bytes (us @ e # tl vs))))"
proof -
  note f = dir_fields [OF d]
  let ?c = "dir_bytes (us @ vs)" and ?c' = "dir_bytes (us @ e # tl vs)" and ?o = "length (dir_bytes us)"
  have nr: "i_nr a = int k" using f(2) p by auto
  note ow = overwrite_dir [OF l, of us]
  have len: "length (dirent_bytes e) = 8 + length (d_name e)" "d_name_len e = int (length (d_name e))"
    using e by (simp_all add: dirent_ok_def)
  have n: "?o \<le> length ?c" "?o + length (dirent_bytes e) \<le> 132 * 512"
    "needs (nblocks (length ?c)) (nblocks (?o + length (dirent_bytes e))) \<le> nfree (w_fs w)"
  proof -
    show "?o \<le> length ?c" by simp
    show "?o + length (dirent_bytes e) \<le> 132 * 512" using r ow(2) unfolding room_def by linarith
    show "needs (nblocks (length ?c)) (nblocks (?o + length (dirent_bytes e))) \<le> nfree (w_fs w)"
    proof (cases "?o + length (dirent_bytes e) \<le> length ?c")
      case True
      then show ?thesis using needs_0 [OF nblocks_mono [OF True]] by simp
    next
      case False
      then show ?thesis using r ow(2) unfolding room_def by (simp add: max_def)
    qed
  qed
  have pos: "0 < length (dirent_bytes e)" by simp
  obtain a' w' where w: "write_data p (int ?o) (dirent_bytes e) (int (length (dirent_bytes e))) w = Inr (0, w')"
    "vol_ok N w'" "same_env w w'"
    "files w' = (files w)(k \<mapsto> (I_DIR, overwrite ?o (take (length (dirent_bytes e)) (dirent_bytes e)) ?c))"
    "w_inodes w' = (w_inodes w)(p \<mapsto> a')" "i_nr a' = i_nr a" "i_count a' = i_count a" "has_flag a' I_FLAGS_DIRTY"
    "nfree (w_fs w) = nfree (w_fs w') + needs (nblocks (length ?c)) (nblocks (max (length ?c) (?o + length (dirent_bytes e))))"
    using vol_write [OF f(1) p nr f(3) pos order_refl n] by blast
  have fl: "files w' = (files w)(k \<mapsto> (I_DIR, ?c'))" unfolding w(4) take_all [OF order_refl] ow(1) ..
  have "list_all dirent_ok (us @ e # tl vs)" using f(4) e by (cases vs) simp_all
  then have "dir_at N w' p k (us @ e # tl vs)" using w(2,5,6) nr fl by (simp add: dir_at_def)
  moreover have "int (length (dirent_bytes e)) = 8 + d_name_len e" using len by simp
  ultimately show ?thesis using w fl nr unfolding ow(2) [symmetric] off_def by auto
qed

lemma c_memcpy_all: "length src = n \<Longrightarrow> c_memcpy (replicate n 0) 0 src 0 (int n) = Inr src"
  using c_memcpy_ok [of "replicate n 0" 0 src 0 n] by simp

lemma write_dirent_eq:
  "0 \<le> j \<Longrightarrow> testfs_write_dirent p (Some nm) (int (length nm) + 1) j o' w =
     write_data p o' (dirent_bytes (new_dirent nm j)) (8 + d_name_len (new_dirent nm j)) w"
  using c_memcpy_all [of "nm @ [0]" "Suc (length nm)"]
  by (simp add: testfs_write_dirent_def c_mem_def new_dirent_def nat_add_distrib add.commute)

lemma add_dirent_exists:
  assumes "dir_at N w p k es" "0 \<notin> set nm" "dir_slot nm es = None"
  shows "testfs_add_dirent p (Some nm) j w = Inr (- EEXIST, w)"
  using dir_fields [OF assms(1)] add_loop_eq [of p w "[]" es nm] dir_scans [OF assms(1)] assms(2,3)
  by (simp add: testfs_add_dirent_def c_mem_def off_def Let_def add.commute EEXIST_def)

lemma add_dirent_new:
  assumes d: "dir_at N w p k es" and nm: "0 \<notin> set nm" and ins: "dir_insert nm (int j) es = Some es'"
    and j: "j < NR_INODES" and r: "room w es es'" and p: "w_inodes w p = Some a"
  shows "\<exists>a' w'. testfs_add_dirent p (Some nm) (int j) w = Inr (0, w') \<and> dir_at N w' p k es' \<and> same_env w w' \<and>
    files w' = (files w)(k \<mapsto> (I_DIR, dir_bytes es')) \<and>
    w_inodes w' = (w_inodes w)(p \<mapsto> a') \<and> i_nr a' = int k \<and> i_count a' = i_count a \<and> has_flag a' I_FLAGS_DIRTY \<and>
    nfree (w_fs w) = nfree (w_fs w') +
      needs (nblocks (length (dir_bytes es))) (nblocks (length (dir_bytes es')))"
proof -
  note f = dir_fields [OF d]
  obtain us vs where sl: "dir_slot nm es = Some (us, vs)" "es' = us @ new_dirent nm (int j) # tl vs"
    using ins by (auto simp: dir_insert_def)
  note ds = dir_slot [OF sl(1)]
  let ?e = "new_dirent nm (int j)"
  have e: "dirent_ok ?e" using nm j by (intro dirent_ok_new) (simp_all add: in_int32_def)
  have l: "vs \<noteq> [] \<longrightarrow> length (d_name (hd vs)) = length (d_name ?e)"
  proof
    assume "vs \<noteq> []"
    then obtain v vs' where v: "vs = v # vs'" by (cases vs) auto
    then have "dirent_ok v" "d_name_len v = int (length nm) + 1" using ds f(4) by auto
    then show "length (d_name (hd vs)) = length (d_name ?e)" using v by (simp add: dirent_ok_def)
  qed
  have es: "es = us @ vs" using ds by blast
  obtain a' w' where w: "write_data p (off us) (dirent_bytes ?e) (8 + d_name_len ?e) w = Inr (0, w')"
    and post: "dir_at N w' p k es'" "same_env w w'" "files w' = (files w)(k \<mapsto> (I_DIR, dir_bytes es'))"
    "w_inodes w' = (w_inodes w)(p \<mapsto> a')" "i_nr a' = int k" "i_count a' = i_count a" "has_flag a' I_FLAGS_DIRTY"
    "nfree (w_fs w) = nfree (w_fs w') + needs (nblocks (length (dir_bytes es))) (nblocks (length (dir_bytes es')))"
    using dir_write [OF d [unfolded es] e l r [unfolded es sl(2)] p] unfolding es sl(2) by blast
  have "testfs_add_dirent p (Some nm) (int j) w =
      testfs_write_dirent p (Some nm) (int (length nm) + 1) (int j) (off us) w"
    using f add_loop_eq [of p w "[]" es nm] dir_scans [OF d] nm sl(1) ds
    by (simp add: testfs_add_dirent_def c_mem_def off_def Let_def add.commute)
  then show ?thesis using write_dirent_eq [of "int j" p nm "off us" w] w post by auto
qed

section \<open>Adding and removing on the map\<close>

definition distinct_names :: "dirent list \<Rightarrow> bool" where
  "distinct_names es \<longleftrightarrow> distinct (map dname (filter live es))"

fun dir_remove :: "byte list \<Rightarrow> dirent list \<Rightarrow> dirent list" where
  "dir_remove nm [] = []"
| "dir_remove nm (d # es) = (if names nm d then d\<lparr>d_inode_nr := - 1\<rparr> # es else d # dir_remove nm es)"

lemma dir_lookup_append:
  "dir_lookup (us @ vs) nm = (case dir_lookup us nm of None \<Rightarrow> dir_lookup vs nm | Some k \<Rightarrow> Some k)"
  by (induction us) auto

lemma dir_lookup_None: "dir_lookup es nm = None \<longleftrightarrow> nm \<notin> set (map dname (filter live es))"
  by (induction es) (auto simp: names_def)

lemma dir_insert_lookup:
  assumes "dir_insert nm k es = Some es'" "dir_lookup es nm = None" "0 \<le> k"
  shows "dir_lookup es' = (dir_lookup es)(nm \<mapsto> k)" "distinct_names es \<Longrightarrow> distinct_names es'"
proof -
  obtain us vs where sl: "dir_slot nm es = Some (us, vs)" "es' = us @ new_dirent nm k # tl vs"
    using assms(1) by (auto simp: dir_insert_def)
  note ds = dir_slot [OF sl(1)]
  have es: "es = us @ vs" using ds by blast
  have dead: "filter live vs = filter live (tl vs)" using ds by (cases vs) auto
  have lk: "dir_lookup vs n = dir_lookup (tl vs) n" for n using ds by (cases vs) (auto simp: names_def)
  have u: "dir_lookup us nm = None" using assms(2) unfolding es dir_lookup_append by (auto split: option.splits)
  show "dir_lookup es' = (dir_lookup es)(nm \<mapsto> k)"
    using u assms(3) unfolding es sl(2)
    by (auto simp: dir_lookup_append lk fun_eq_iff names_def live_def split: option.splits)
  have "nm \<notin> set (map dname (filter live es))" using assms(2) dir_lookup_None by blast
  then show "distinct_names es'" if "distinct_names es"
    using that assms(3) unfolding distinct_names_def es sl(2) by (auto simp: dead live_def)
qed

lemma dir_remove_split:
  "list_all (\<lambda>d. \<not> names nm d) us \<Longrightarrow> names nm d \<Longrightarrow>
   dir_remove nm (us @ d # vs) = us @ d\<lparr>d_inode_nr := - 1\<rparr> # vs"
  by (induction us) auto

lemma live_set_dname: "dir_lookup es nm \<noteq> None \<Longrightarrow> nm \<in> dname ` {d \<in> set es. live d}"
  using dir_lookup_None [of es nm] by auto

lemma dir_remove_lookup:
  assumes "distinct_names es"
  shows "dir_lookup (dir_remove nm es) = (dir_lookup es)(nm := None)" "distinct_names (dir_remove nm es)"
proof -
  have "dir_lookup (dir_remove nm es) = (dir_lookup es)(nm := None) \<and> distinct_names (dir_remove nm es) \<and>
      set (map dname (filter live (dir_remove nm es))) \<subseteq> set (map dname (filter live es))"
    using assms
  proof (induction es)
    case (Cons d es)
    have dn: "distinct_names es" "live d \<Longrightarrow> dname d \<notin> set (map dname (filter live es))"
      using Cons.prems by (auto simp: distinct_names_def split: if_splits)
    note ih = Cons.IH [OF dn(1)]
    show ?case
    proof (cases "names nm d")
      case True
      then have "live d" "dname d = nm" by (simp_all add: names_def)
      then have "dir_lookup es nm = None" using dn(2) dir_lookup_None [of es nm] by simp
      then show ?thesis using True dn(1) \<open>dname d = nm\<close>
        by (auto simp: fun_eq_iff distinct_names_def names_def live_def)
    next
      case False
      then show ?thesis using ih dn(2) by (auto simp: fun_eq_iff distinct_names_def names_def)
    qed
  qed (simp add: distinct_names_def fun_eq_iff)
  then show "dir_lookup (dir_remove nm es) = (dir_lookup es)(nm := None)" "distinct_names (dir_remove nm es)"
    by blast+
qed

section \<open>Removing an entry\<close>

definition dead_entry :: "dirent \<Rightarrow> bool" where
  "dead_entry d \<longleftrightarrow> \<not> live d \<or> dname d = [46] \<or> dname d = [46, 46]"

lemma skip_entry_eq: "dirent_ok d \<Longrightarrow> skip_entry d = Inr (dead_entry d)"
  using strcmp_name [of d "[46]"] strcmp_name [of d "[46, 46]"]
  by (simp add: skip_entry_def dead_entry_def live_def dot_def dotdot_def)

lemma removable_loop_eq:
  assumes "scans p w (us @ vs)"
  shows "removable_loop p (off us) w = Inr (if list_all dead_entry vs then 0 else - ENOTEMPTY)"
  using assms
proof (induction vs arbitrary: us)
  case Nil
  then show ?case using scan_end [of p w us] by (subst removable_loop.simps) simp
next
  case (Cons d vs)
  note st = scan_step [OF Cons.prems refl]
  show ?case using st skip_entry_eq [OF st(2)] Cons.IH [of "us @ [d]"] Cons.prems
    by (subst removable_loop.simps) simp
qed

definition clean_at :: "'d world \<Rightarrow> nat \<Rightarrow> bool" where
  "clean_at w k \<longleftrightarrow> (\<forall>p a. w_inodes w p = Some a \<longrightarrow> i_nr a = int k \<longrightarrow> \<not> has_flag a I_FLAGS_DIRTY)"

lemma got_clean: "clean_at w k \<Longrightarrow> got w k p a w' \<Longrightarrow> \<not> has_flag a I_FLAGS_DIRTY"
  by (auto simp: got_def clean_at_def has_flag_def split: option.splits)

lemma remove_allowed:
  assumes v: "vol_ok N w" and f: "files w j = Some (t, c)" and cl: "clean_at w j"
    and dir: "t = I_DIR \<Longrightarrow> c = dir_bytes cs \<and> list_all dirent_ok cs"
  shows "\<exists>w'. testfs_remove_dirent_allowed (int j) w =
      Inr (if t = I_DIR \<and> \<not> list_all dead_entry cs then - ENOTEMPTY else 0, w') \<and>
    vol_ok N w' \<and> files w' = files w \<and> w_fs w' = w_fs w \<and> w_sb w' = w_sb w \<and> w_inodes w' = w_inodes w"
proof -
  obtain p a w1 where g: "testfs_get_inode (int j) w = Inr (p, w1)" "got w j p a w1" "vol_ok N w1" "files w1 = files w"
    using vol_get [OF v files_in [OF f]] by blast
  note g' = g(2) [unfolded got_def]
  have p1: "w_inodes w1 p = Some a" "i_nr a = int j" using g' by simp_all
  obtain w2 where w2: "testfs_put_inode p w1 = Inr w2" "vol_ok N w2" "files w2 = files w1" "w_fs w2 = w_fs w1"
    "w_sb w2 = w_sb w" "w_inodes w2 = w_inodes w"
    using vol_put_back [OF v g(2,3) refl refl got_clean [OF cl g(2)]] by blast
  have ty: "testfs_inode_get_type p w1 = Inr t"
    using files_at(1) [OF g(3) p1] f g(4) deref_eq [OF vol_okD(1) [OF g(3)] p1(1)]
    by (simp add: testfs_inode_get_type_def)
  have "removable_loop p 0 w1 = Inr (if list_all dead_entry cs then 0 else - ENOTEMPTY)" if "t = I_DIR"
  proof -
    have "dir_at N w1 p j cs" using g(3,4) p1 f dir [OF that] that by (simp add: dir_at_def)
    then show ?thesis using removable_loop_eq [of p w1 "[]" cs] dir_scans [of N w1 p j cs] by (simp add: off_def)
  qed
  then have "testfs_remove_dirent_allowed (int j) w =
      Inr (if t = I_DIR \<and> \<not> list_all dead_entry cs then - ENOTEMPTY else 0, w2)"
    using g(1) ty w2(1) by (auto simp: testfs_remove_dirent_allowed_def)
  then show ?thesis using w2 g(4) g' by auto
qed

lemma remove_loop_skip:
  assumes "scans p w (us @ ws @ vs)" "list_all (\<lambda>d. \<not> names nm d) ws" "0 \<notin> set nm"
  shows "remove_dirent_loop p (Some nm) (off us) w = remove_dirent_loop p (Some nm) (off (us @ ws)) w"
  using assms(1,2)
proof (induction ws arbitrary: us)
  case (Cons d ws)
  have s: "scans p w (us @ d # (ws @ vs))" using Cons.prems by simp
  note st = scan_step [OF s refl]
  have "remove_dirent_loop p (Some nm) (off us) w = remove_dirent_loop p (Some nm) (off (us @ [d])) w"
    using st names_strcmp(1) [OF st(2) assms(3)] Cons.prems(2) by (subst remove_dirent_loop.simps) simp
  also have "\<dots> = remove_dirent_loop p (Some nm) (off ((us @ [d]) @ ws)) w"
    by (rule Cons.IH) (use Cons.prems in simp_all)
  finally show ?case by simp
qed simp

lemma remove_special:
  assumes "p \<noteq> NULL" "nm = [46] \<or> nm = [46, 46]"
  shows "testfs_remove_dirent p (Some nm) w = Inr (- EINVAL, w)"
  using assms strcmp_eq_names [of nm "[46]"] strcmp_eq_names [of nm "[46, 46]"]
  by (auto simp: testfs_remove_dirent_def c_mem_def strcmp_def dot_def dotdot_def)

lemma remove_start:
  assumes "p \<noteq> NULL" "0 \<notin> set nm" "nm \<noteq> [46]" "nm \<noteq> [46, 46]"
  shows "testfs_remove_dirent p (Some nm) w = remove_dirent_loop p (Some nm) 0 w"
  using assms strcmp_eq_names [of nm "[46]"] strcmp_eq_names [of nm "[46, 46]"]
  by (simp add: testfs_remove_dirent_def c_mem_def strcmp_def dot_def dotdot_def)

lemma remove_missing:
  assumes d: "dir_at N w p k es" and nm: "0 \<notin> set nm" "nm \<noteq> [46]" "nm \<noteq> [46, 46]" and l: "dir_lookup es nm = None"
  shows "testfs_remove_dirent p (Some nm) w = Inr (- ENOENT, w)"
proof -
  have "list_all (\<lambda>d. \<not> names nm d) es" using l by (induction es) (auto split: if_splits)
  then have "remove_dirent_loop p (Some nm) (off []) w = remove_dirent_loop p (Some nm) (off ([] @ es)) w"
    using remove_loop_skip [of p w "[]" es "[]" nm] dir_scans [OF d] nm(1) by simp
  also have "\<dots> = Inr (- ENOENT, w)"
    using scan_end [OF dir_scans [OF d]] by (subst remove_dirent_loop.simps) simp
  finally show ?thesis using remove_start [OF dir_fields(5) [OF d] nm, of w] by (simp add: off_def)
qed

lemma remove_dirent_eq:
  assumes d: "dir_at N w p k es" and nm: "0 \<notin> set nm" "nm \<noteq> [46]" "nm \<noteq> [46, 46]"
    and l: "dir_lookup es nm = Some (int j)" and f: "files w j = Some (t, c)" and cl: "clean_at w j"
    and dir: "t = I_DIR \<Longrightarrow> c = dir_bytes cs \<and> list_all dirent_ok cs" and p: "w_inodes w p = Some a"
  shows "t = I_DIR \<Longrightarrow> \<not> list_all dead_entry cs \<Longrightarrow>
      \<exists>w'. testfs_remove_dirent p (Some nm) w = Inr (- ENOTEMPTY, w') \<and> vol_ok N w' \<and> files w' = files w \<and>
        same_env w w' \<and> w_inodes w' = w_inodes w"
    "t \<noteq> I_DIR \<or> list_all dead_entry cs \<Longrightarrow>
      \<exists>a' w'. testfs_remove_dirent p (Some nm) w = Inr (int j, w') \<and> dir_at N w' p k (dir_remove nm es) \<and> same_env w w' \<and>
        files w' = (files w)(k \<mapsto> (I_DIR, dir_bytes (dir_remove nm es))) \<and>
        w_inodes w' = (w_inodes w)(p \<mapsto> a') \<and> i_nr a' = int k \<and> i_count a' = i_count a \<and> has_flag a' I_FLAGS_DIRTY"
proof -
  obtain us e vs where es: "es = us @ e # vs" "names nm e" "d_inode_nr e = int j" "list_all (\<lambda>d. \<not> names nm d) us"
    using dir_lookup_in [OF l] by blast
  note sc = dir_scans [OF d]
  have e: "dirent_ok e" using dir_fields(4) [OF d] es(1) by simp
  obtain w1 where w1: "testfs_remove_dirent_allowed (int j) w =
      Inr (if t = I_DIR \<and> \<not> list_all dead_entry cs then - ENOTEMPTY else 0, w1)"
    "vol_ok N w1" "files w1 = files w" "w_fs w1 = w_fs w" "w_sb w1 = w_sb w" "w_inodes w1 = w_inodes w"
    using remove_allowed [OF dir_fields(1) [OF d] f cl dir] by blast
  have "scans p w ([] @ us @ e # vs)" using sc es(1) by simp
  then have "testfs_remove_dirent p (Some nm) w = remove_dirent_loop p (Some nm) (off us) w"
    using remove_start [OF dir_fields(5) [OF d] nm, of w] remove_loop_skip [of p w "[]" us "e # vs" nm] es(4) nm(1)
    by (simp add: off_def)
  also have "\<dots> = bind_r (testfs_remove_dirent_allowed (int j) w) (\<lambda>(ret, w).
      if ret < 0 then Inr (ret, w)
      else bind_r (write_data p (off us) (dirent_bytes (e\<lparr>d_inode_nr := - 1\<rparr>)) (8 + d_name_len e) w)
        (\<lambda>(ret, w). Inr (if 0 \<le> ret then int j else ret, w)))"
    using scan_step(1) [OF sc es(1)] names_strcmp(1) [OF e nm(1)] es(2,3)
    by (subst remove_dirent_loop.simps) (simp cong: if_cong)
  finally have run: "testfs_remove_dirent p (Some nm) w = \<dots>" .
  show "\<exists>w'. testfs_remove_dirent p (Some nm) w = Inr (- ENOTEMPTY, w') \<and> vol_ok N w' \<and> files w' = files w \<and>
        same_env w w' \<and> w_inodes w' = w_inodes w" if "t = I_DIR" "\<not> list_all dead_entry cs"
    using run w1 that by (intro exI [of _ w1]) (simp add: same_env_def ENOTEMPTY_def)
  let ?e = "e\<lparr>d_inode_nr := - 1\<rparr>"
  show "\<exists>a' w'. testfs_remove_dirent p (Some nm) w = Inr (int j, w') \<and> dir_at N w' p k (dir_remove nm es) \<and> same_env w w' \<and>
        files w' = (files w)(k \<mapsto> (I_DIR, dir_bytes (dir_remove nm es))) \<and>
        w_inodes w' = (w_inodes w)(p \<mapsto> a') \<and> i_nr a' = int k \<and> i_count a' = i_count a \<and> has_flag a' I_FLAGS_DIRTY"
    if "t \<noteq> I_DIR \<or> list_all dead_entry cs"
  proof -
    have rm: "dir_remove nm es = us @ ?e # vs" using dir_remove_split [OF es(4,2)] es(1) by simp
    have d1: "dir_at N w1 p k (us @ e # vs)" using d w1 es(1) by (simp add: dir_at_def)
    have r: "room w1 (us @ e # vs) (us @ ?e # tl (e # vs))"
      using dir_fields(9) [OF d] es(1) by (simp add: room_def needs_0)
    obtain a' w' where w': "write_data p (off us) (dirent_bytes ?e) (8 + d_name_len ?e) w1 = Inr (0, w')"
      "dir_at N w' p k (us @ ?e # vs)" "same_env w1 w'" "files w' = (files w1)(k \<mapsto> (I_DIR, dir_bytes (us @ ?e # vs)))"
      "w_inodes w' = (w_inodes w1)(p \<mapsto> a')" "i_nr a' = int k" "i_count a' = i_count a" "has_flag a' I_FLAGS_DIRTY"
      using dir_write [OF d1 dirent_ok_kill [OF e] _ r, of a] p w1(6) by auto
    then show ?thesis using run w1 that unfolding rm by (intro exI [of _ a'] exI [of _ w']) (auto simp: same_env_def)
  qed
qed

end
