(* ===== verification/DirCmds.thy ===== *)
theory DirCmds
  imports DirOk
begin

text \<open>
  The commands of \<open>dir.c\<close> on a volume at rest: creating a file or a directory adds one entry to
  the current directory and one new file to the volume, removing takes both away again, listing prints
  the live entries, and the failing cases change nothing.
\<close>

section \<open>Transactions and output\<close>

definition tx :: "tx_type \<Rightarrow> 'd world \<Rightarrow> 'd world" where
  "tx t w = set_fs (tx_out t (fs_out (w_fs w)) (w_fs w)) w"

lemma tx_simps [simp]:
  "w_fs (tx t w) = tx_out t (fs_out (w_fs w)) (w_fs w)" "w_sb (tx t w) = w_sb w" "w_inodes (tx t w) = w_inodes w"
  by (simp_all add: tx_def)

lemma next_free_tx [simp]: "next_free_inode (tx_out t m s) = next_free_inode s"
  by (simp add: next_free_inode_def imap_def tx_out_def)

lemma tx_start: "tx_in_progress (fs_sb (w_fs w)) = TX_NONE \<Longrightarrow> on_fs (testfs_tx_start t) w = Inr (tx t w)"
  by (simp add: on_fs_def tx_start_eq tx_def tx_out_def upd_sb_def)

lemma tx_commit: "tx_in_progress (fs_sb (w_fs w)) = t \<Longrightarrow> on_fs (testfs_tx_commit t) w = Inr (tx TX_NONE w)"
  by (simp add: on_fs_def tx_commit_eq tx_def tx_out_def upd_sb_def)

lemma vol_tx: "vol_at sv N w \<Longrightarrow> vol_at sv N (tx t w)" "vol_at sv N w \<Longrightarrow> files (tx t w) = files w"
  using vol_tx_out [of sv N w t "fs_out (w_fs w)"] by (simp_all add: tx_def)

lemma dir_at_tx: "dir_at N w p k es \<Longrightarrow> dir_at N (tx t w) p k es"
  using vol_tx [of True N w t] by (simp add: dir_at_def)

lemma print_eq: "print m w = set_fs (tx_out (tx_in_progress (fs_sb (w_fs w))) (fs_out (w_fs w) @ [m]) (w_fs w)) w"
  by (simp add: print_def printf_def tx_out_def)

lemma vol_print:
  assumes "vol_at sv N w"
  shows "vol_at sv N (print m w)" "files (print m w) = files w"
  using vol_tx_out [OF assms] by (simp_all add: print_eq)

lemma print_simps [simp]:
  "w_inodes (print m w) = w_inodes w" "w_sb (print m w) = w_sb w" "fs_out (w_fs (print m w)) = fs_out (w_fs w) @ [m]"
  "tx_in_progress (fs_sb (w_fs (print m w))) = tx_in_progress (fs_sb (w_fs w))"
  by (simp_all add: print_def)

section \<open>Creating\<close>

text \<open>The end of a creation: the new inode is written to its slot and dropped.\<close>

lemma sync_put:
  assumes v: "vol_at sv N w" and q: "w_inodes w q = Some b" "i_nr b = int j" "i_count b = 1" "has_flag b I_FLAGS_DIRTY"
  shows "\<exists>w'. bind_r (sync_inode q w) (testfs_put_inode q) = Inr w' \<and> vol_at sv N w' \<and> files w' = files w \<and>
    same_env w w' \<and> w_inodes w' = (w_inodes w)(q := None) \<and> nfree (w_fs w') = nfree (w_fs w)"
proof -
  note s = vol_sync [OF v q(1,2,4)]
  let ?w = "set_fs (sync_st j (i_in b) (w_fs w)) (store q (clear_flag I_FLAGS_DIRTY b) w)"
  obtain w' where "testfs_put_inode q ?w = Inr w'" "vol_at sv N w'" "files w' = files ?w" "w_fs w' = w_fs ?w"
    "w_sb w' = w_sb ?w" "w_inodes w' = (w_inodes ?w)(q := None)"
    using vol_put [OF s(2), of q "clear_flag I_FLAGS_DIRTY b"] q(3) by auto
  then show ?thesis using s by (intro exI [of _ w']) (simp add: same_env_def)
qed

lemma sync_one:
  assumes v: "vol_at sv N w" and p: "w_inodes w p = Some a" "i_nr a = int k" "has_flag a I_FLAGS_DIRTY"
  shows "\<exists>w' a'. sync_inode p w = Inr w' \<and> vol_at sv N w' \<and> files w' = files w \<and>
    same_env w w' \<and> w_inodes w' = (w_inodes w)(p \<mapsto> a') \<and> i_nr a' = i_nr a \<and> i_count a' = i_count a \<and>
    \<not> has_flag a' I_FLAGS_DIRTY \<and> nfree (w_fs w') = nfree (w_fs w)"
  using vol_sync [OF v p] by (simp add: same_env_def) (rule exI [of _ "clear_flag I_FLAGS_DIRTY a"], simp)

text \<open>What \<open>testfs_create_file_or_dir\<close> does after the new inode has its contents.\<close>

lemma link_new:
  assumes d: "dir_at N w p k es" and nm: "0 \<notin> set nm" and ins: "dir_insert nm (int j) es = Some es'"
    and r: "room w es es'" and p: "w_inodes w p = Some a" and pq: "p \<noteq> q"
    and q: "w_inodes w q = Some b" "i_nr b = int j" "i_count b = 1" "has_flag b I_FLAGS_DIRTY"
    and j: "j < NR_INODES" and tr: "tx_in_progress (fs_sb (w_fs w)) = TX_CREATE"
  shows "\<exists>w1 w2 w3 w4 a'. testfs_add_dirent p (Some nm) (int j) w = Inr (0, w1) \<and> sync_inode p w1 = Inr w2 \<and>
    sync_inode q w2 = Inr w3 \<and> testfs_put_inode q w3 = Inr w4 \<and> on_fs (testfs_tx_commit TX_CREATE) w4 = Inr (tx TX_NONE w4) \<and>
    dir_at N (tx TX_NONE w4) p k es' \<and> files (tx TX_NONE w4) = (files w)(k \<mapsto> (I_DIR, dir_bytes es')) \<and>
    w_inodes w4 = (w_inodes w)(p \<mapsto> a', q := None) \<and> i_nr a' = int k \<and> i_count a' = i_count a \<and>
    \<not> has_flag a' I_FLAGS_DIRTY \<and> w_sb w4 = w_sb w \<and> fs_out (w_fs w4) = fs_out (w_fs w) \<and>
    nfree (w_fs w) = nfree (w_fs w4) + needs (nblocks (length (dir_bytes es))) (nblocks (length (dir_bytes es')))"
proof -
  obtain a1 w1 where w1: "testfs_add_dirent p (Some nm) (int j) w = Inr (0, w1)" "dir_at N w1 p k es'" "same_env w w1"
    "files w1 = (files w)(k \<mapsto> (I_DIR, dir_bytes es'))" "w_inodes w1 = (w_inodes w)(p \<mapsto> a1)" "i_nr a1 = int k"
    "i_count a1 = i_count a" "has_flag a1 I_FLAGS_DIRTY"
    "nfree (w_fs w) = nfree (w_fs w1) + needs (nblocks (length (dir_bytes es))) (nblocks (length (dir_bytes es')))"
    using add_dirent_new [OF d nm ins j r p] by blast
  have "w_inodes w1 p = Some a1" using w1(5) by simp
  then obtain w2 a2 where w2: "sync_inode p w1 = Inr w2" "vol_ok N w2" "files w2 = files w1" "same_env w1 w2"
    "w_inodes w2 = (w_inodes w1)(p \<mapsto> a2)" "i_nr a2 = i_nr a1" "i_count a2 = i_count a1" "\<not> has_flag a2 I_FLAGS_DIRTY"
    "nfree (w_fs w2) = nfree (w_fs w1)"
    using sync_one [OF dir_fields(1) [OF w1(2)] _ w1(6,8)] by blast
  have "w_inodes w2 q = Some b" using q(1) w1(5) w2(5) pq by simp
  then obtain w4 where "bind_r (sync_inode q w2) (testfs_put_inode q) = Inr w4" and w4: "vol_ok N w4" "files w4 = files w2"
    "same_env w2 w4" "w_inodes w4 = (w_inodes w2)(q := None)" "nfree (w_fs w4) = nfree (w_fs w2)"
    using sync_put [OF w2(2) _ q(2-4)] by blast
  then obtain w3 where w3: "sync_inode q w2 = Inr w3" "testfs_put_inode q w3 = Inr w4" by (auto elim: bind_r_InrE)
  have env: "same_env w w4" using w1(3) w2(4) w4(3) same_env_trans by blast
  have ino: "w_inodes w4 = (w_inodes w)(p \<mapsto> a2, q := None)" using w1(5) w2(5) w4(4) by simp
  have fl: "files w4 = (files w)(k \<mapsto> (I_DIR, dir_bytes es'))" using w1(4) w2(3) w4(2) by simp
  have d4: "dir_at N w4 p k es'" using w1(2) w1(6) w2(6) w4(1) fl ino pq by (simp add: dir_at_def)
  have "on_fs (testfs_tx_commit TX_CREATE) w4 = Inr (tx TX_NONE w4)"
    by (rule tx_commit) (use env tr in \<open>simp add: same_env_def\<close>)
  then show ?thesis
    using w1(1,6,7,9) w2(1,6-9) w4(5) w3 dir_at_tx [OF d4] vol_tx(2) [OF w4(1)] fl ino env
    by (intro exI [of _ w1] exI [of _ w2] exI [of _ w3] exI [of _ w4] exI [of _ a2]) (simp add: same_env_def)
qed

text \<open>The volume before a new name is created in it, and where the new inode goes.\<close>

definition can_create :: "nat \<Rightarrow> 'd world \<Rightarrow> ptr \<Rightarrow> nat \<Rightarrow> dirent list \<Rightarrow> byte list \<Rightarrow> nat \<Rightarrow> dirent list \<Rightarrow> bool" where
  "can_create N w p k es nm j es' \<longleftrightarrow> dir_at N w p k es \<and> tx_in_progress (fs_sb (w_fs w)) = TX_NONE \<and>
     0 \<notin> set nm \<and> dir_lookup es nm = None \<and> dir_insert nm (int j) es = Some es' \<and>
     next_free_inode (w_fs w) = j \<and> j < NR_INODES"

lemma create_inode_in:
  assumes c: "can_create N w p k es nm j es'" and t: "t = I_FILE \<or> t = I_DIR"
  shows "\<exists>q b w2. testfs_dir_name_to_inode_nr p (Some nm) w = Inr (- ENOENT) \<and>
    on_fs (testfs_tx_start TX_CREATE) w = Inr (tx TX_CREATE w) \<and>
    testfs_create_inode t (tx TX_CREATE w) = Inr (0, q, w2) \<and> dir_at N w2 p k es \<and> p \<noteq> q \<and> k \<noteq> j \<and> files w j = None \<and>
    files w2 = (files w)(j \<mapsto> (t, [])) \<and> w_inodes w q = None \<and> w_inodes w2 = (w_inodes w)(q \<mapsto> b) \<and>
    i_nr b = int j \<and> i_count b = 1 \<and> has_flag b I_FLAGS_DIRTY \<and> w_sb w2 = w_sb w \<and>
    fs_out (w_fs w2) = fs_out (w_fs w) \<and> tx_in_progress (fs_sb (w_fs w2)) = TX_CREATE \<and> nfree (w_fs w2) = nfree (w_fs w)"
proof -
  have d: "dir_at N w p k es" and nm: "0 \<notin> set nm" "dir_lookup es nm = None"
    and tr: "tx_in_progress (fs_sb (w_fs w)) = TX_NONE" and j: "next_free_inode (w_fs (tx TX_CREATE w)) = j" "j < NR_INODES"
    using c by (simp_all add: can_create_def)
  have v: "vol_ok N (tx TX_CREATE w)" by (rule vol_tx(1) [OF dir_fields(1) [OF d]])
  obtain q b w2 where w2: "testfs_create_inode t (tx TX_CREATE w) = Inr (0, q, w2)" "vol_ok N w2"
    "same_env (tx TX_CREATE w) w2" "files w2 = (files (tx TX_CREATE w))(j \<mapsto> (t, []))" "j \<notin> iused (w_fs (tx TX_CREATE w))"
    "w_inodes (tx TX_CREATE w) q = None" "w_inodes w2 = (w_inodes (tx TX_CREATE w))(q \<mapsto> b)" "i_nr b = int j"
    "i_count b = 1" "has_flag b I_FLAGS_DIRTY" "nfree (w_fs w2) = nfree (w_fs (tx TX_CREATE w))"
    using vol_create [OF v j t] by blast
  have fk: "files w k = Some (I_DIR, dir_bytes es)" by (rule dir_fields(3) [OF d])
  have jn: "j \<notin> iused (w_fs w)" "files w j = None" using w2(5) by (simp_all add: files_def)
  have kj: "k \<noteq> j" using fk jn by auto
  obtain a where a: "w_inodes w p = Some a" "i_nr a = int k" using dir_fields(2) [OF d] by blast
  have pq: "p \<noteq> q" using a(1) w2(6) by auto
  have f2: "files w2 = (files w)(j \<mapsto> (t, []))" using w2(4) vol_tx(2) [OF dir_fields(1) [OF d]] by simp
  have "dir_at N w2 p k es"
    using d w2(2,7) a pq kj f2 by (simp add: dir_at_def)
  then show ?thesis
    using w2 f2 jn kj pq name_to_nr [OF d nm(1)] nm(2) tx_start [OF tr, of TX_CREATE]
    by (intro exI [of _ q] exI [of _ b] exI [of _ w2]) (simp add: same_env_def)
qed

lemma create_file:
  assumes c: "can_create N w p k es nm j es'" and r: "room w es es'" and p: "w_inodes w p = Some a"
  shows "\<exists>w' a'. testfs_create_file_or_dir p I_FILE (Some nm) w = Inr (0, w') \<and> dir_at N w' p k es' \<and>
    files w' = (files w)(k \<mapsto> (I_DIR, dir_bytes es'), j \<mapsto> (I_FILE, [])) \<and> files w j = None \<and> j \<noteq> k \<and> same_env w w' \<and>
    w_inodes w' = (w_inodes w)(p \<mapsto> a') \<and> i_nr a' = int k \<and> i_count a' = i_count a \<and> \<not> has_flag a' I_FLAGS_DIRTY \<and>
    nfree (w_fs w) = nfree (w_fs w') + needs (nblocks (length (dir_bytes es))) (nblocks (length (dir_bytes es')))"
proof -
  have nm: "0 \<notin> set nm" and ins: "dir_insert nm (int j) es = Some es'" and j: "j < NR_INODES"
    and tr: "tx_in_progress (fs_sb (w_fs w)) = TX_NONE" and pn: "p \<noteq> NULL"
    using c dir_fields(5) by (auto simp: can_create_def)
  obtain q b w2 where w2: "testfs_dir_name_to_inode_nr p (Some nm) w = Inr (- ENOENT)"
    "on_fs (testfs_tx_start TX_CREATE) w = Inr (tx TX_CREATE w)"
    "testfs_create_inode I_FILE (tx TX_CREATE w) = Inr (0, q, w2)" "dir_at N w2 p k es" "p \<noteq> q" "k \<noteq> j" "files w j = None"
    "files w2 = (files w)(j \<mapsto> (I_FILE, []))" "w_inodes w q = None" "w_inodes w2 = (w_inodes w)(q \<mapsto> b)"
    "i_nr b = int j" "i_count b = 1" "has_flag b I_FLAGS_DIRTY" "w_sb w2 = w_sb w"
    "fs_out (w_fs w2) = fs_out (w_fs w)" "tx_in_progress (fs_sb (w_fs w2)) = TX_CREATE" "nfree (w_fs w2) = nfree (w_fs w)"
    using create_inode_in [OF c, of I_FILE] by blast
  have r2: "room w2 es es'" using r w2(17) by (simp add: room_def)
  have p2: "w_inodes w2 p = Some a" "w_inodes w2 q = Some b" using p w2(5,10) by simp_all
  obtain w3 w4 w5 w6 a' where l: "testfs_add_dirent p (Some nm) (int j) w2 = Inr (0, w3)" "sync_inode p w3 = Inr w4"
    "sync_inode q w4 = Inr w5" "testfs_put_inode q w5 = Inr w6" "on_fs (testfs_tx_commit TX_CREATE) w6 = Inr (tx TX_NONE w6)"
    and e: "dir_at N (tx TX_NONE w6) p k es'" "files (tx TX_NONE w6) = (files w2)(k \<mapsto> (I_DIR, dir_bytes es'))"
    "w_inodes w6 = (w_inodes w2)(p \<mapsto> a', q := None)" "i_nr a' = int k" "i_count a' = i_count a"
    "\<not> has_flag a' I_FLAGS_DIRTY" "w_sb w6 = w_sb w2" "fs_out (w_fs w6) = fs_out (w_fs w2)"
    "nfree (w_fs w2) = nfree (w_fs w6) + needs (nblocks (length (dir_bytes es))) (nblocks (length (dir_bytes es')))"
    using link_new [OF w2(4) nm ins r2 p2(1) w2(5) p2(2) w2(11-13) j w2(16)] by blast
  have nr: "testfs_inode_get_nr q w2 = Inr (int j)"
    using deref_eq [OF vol_okD(1) [OF dir_fields(1) [OF w2(4)]] p2(2)] w2(11) by (simp add: testfs_inode_get_nr_def)
  have "testfs_create_file_or_dir p I_FILE (Some nm) w = Inr (0, tx TX_NONE w6)"
    using w2(1-3) nr l pn by (simp add: testfs_create_file_or_dir_def ENOENT_def)
  moreover have "w_inodes (tx TX_NONE w6) = (w_inodes w)(p \<mapsto> a')" using e(3) w2(5,9,10) by (auto simp: fun_eq_iff)
  moreover have "same_env w (tx TX_NONE w6)" using e(7,8) w2(14,15) tr by (simp add: same_env_def)
  ultimately show ?thesis
    using e w2(6-8,17) by (intro exI [of _ "tx TX_NONE w6"] exI [of _ a']) (simp add: fun_upd_twist)
qed

text \<open>A new directory holds \<open>.\<close> and \<open>..\<close>.\<close>

definition empty_dir :: "nat \<Rightarrow> nat \<Rightarrow> dirent list" where
  "empty_dir j k = [new_dirent [46] (int j), new_dirent [46, 46] (int k)]"

lemma empty_dir_eq:
  assumes d: "dir_at N w q j []" and q: "w_inodes w q = Some b" and k: "k < NR_INODES" and free: "0 < nfree (w_fs w)"
  shows "\<exists>b' w'. testfs_create_empty_dir (int k) q w = Inr (0, w') \<and> dir_at N w' q j (empty_dir j k) \<and> same_env w w' \<and>
    files w' = (files w)(j \<mapsto> (I_DIR, dir_bytes (empty_dir j k))) \<and> w_inodes w' = (w_inodes w)(q \<mapsto> b') \<and>
    i_nr b' = int j \<and> i_count b' = i_count b \<and> has_flag b' I_FLAGS_DIRTY \<and> nfree (w_fs w) = Suc (nfree (w_fs w'))"
proof -
  note f = dir_fields [OF d]
  let ?d = "[new_dirent [46] (int j)]"
  have nb: "nblocks 10 = 1" "nblocks 21 = 1" by (simp_all add: nblocks_def)
  have i1: "dir_insert [46] (int j) [] = Some ?d" by (simp add: dir_insert_def)
  have "room w [] ?d" using free nb(1) by (simp add: room_def needs_eq nblocks_def)
  from add_dirent_new [OF d _ i1 f(11) this q] obtain b1 w1 where w1: "testfs_add_dirent q (Some [46]) (int j) w = Inr (0, w1)"
    "dir_at N w1 q j ?d" "same_env w w1" "files w1 = (files w)(j \<mapsto> (I_DIR, dir_bytes ?d))" "w_inodes w1 = (w_inodes w)(q \<mapsto> b1)"
    "i_nr b1 = int j" "i_count b1 = i_count b"
    "nfree (w_fs w) = nfree (w_fs w1) + needs (nblocks (length (dir_bytes []))) (nblocks (length (dir_bytes ?d)))"
    by auto
  have i2: "dir_insert [46, 46] (int k) ?d = Some (empty_dir j k)"
    by (simp add: dir_insert_def names_def live_def empty_dir_def)
  have "room w1 ?d (empty_dir j k)" using nb by (simp add: room_def empty_dir_def needs_0)
  from add_dirent_new [OF w1(2) _ i2 k this, of b1] obtain b' w' where w': "testfs_add_dirent q (Some [46, 46]) (int k) w1 = Inr (0, w')"
    "dir_at N w' q j (empty_dir j k)" "same_env w1 w'" "files w' = (files w1)(j \<mapsto> (I_DIR, dir_bytes (empty_dir j k)))"
    "w_inodes w' = (w_inodes w1)(q \<mapsto> b')" "i_nr b' = int j" "i_count b' = i_count b1" "has_flag b' I_FLAGS_DIRTY"
    "nfree (w_fs w1) = nfree (w_fs w') + needs (nblocks (length (dir_bytes ?d))) (nblocks (length (dir_bytes (empty_dir j k))))"
    using w1(5) by auto
  have "testfs_create_empty_dir (int k) q w = Inr (0, w')"
    using f(6,8) w1(1) w'(1) by (simp add: testfs_create_empty_dir_def dot_def dotdot_def)
  moreover have "nfree (w_fs w) = Suc (nfree (w_fs w'))"
    using w1(8) w'(9) nb by (simp add: empty_dir_def needs_eq nblocks_def)
  ultimately show ?thesis
    using w1 w' same_env_trans [OF w1(3) w'(3)] by (intro exI [of _ b'] exI [of _ w']) simp
qed

text \<open>One block more than the entry needs: the one of the new directory.\<close>

definition room_for_dir :: "'d world \<Rightarrow> dirent list \<Rightarrow> dirent list \<Rightarrow> bool" where
  "room_for_dir w es es' \<longleftrightarrow> length (dir_bytes es') \<le> 132 * 512 \<and>
     Suc (needs (nblocks (length (dir_bytes es))) (nblocks (length (dir_bytes es')))) \<le> nfree (w_fs w)"

lemma dir_at_other:
  assumes "dir_at N w p k es" "vol_ok N w'" "files w' k = files w k" "w_inodes w' p = w_inodes w p"
  shows "dir_at N w' p k es"
  using assms by (simp add: dir_at_def)

lemma create_dir:
  assumes c: "can_create N w p k es nm j es'" and r: "room_for_dir w es es'" and p: "w_inodes w p = Some a"
  shows "\<exists>w' a'. testfs_create_file_or_dir p I_DIR (Some nm) w = Inr (0, w') \<and> dir_at N w' p k es' \<and>
    files w' = (files w)(k \<mapsto> (I_DIR, dir_bytes es'), j \<mapsto> (I_DIR, dir_bytes (empty_dir j k))) \<and>
    files w j = None \<and> j \<noteq> k \<and> same_env w w' \<and>
    w_inodes w' = (w_inodes w)(p \<mapsto> a') \<and> i_nr a' = int k \<and> i_count a' = i_count a \<and> \<not> has_flag a' I_FLAGS_DIRTY"
proof -
  have nm: "0 \<notin> set nm" and ins: "dir_insert nm (int j) es = Some es'" and j: "j < NR_INODES"
    and tr: "tx_in_progress (fs_sb (w_fs w)) = TX_NONE" and pn: "p \<noteq> NULL" and kl: "k < NR_INODES"
    using c dir_fields(5,11) by (auto simp: can_create_def)
  obtain q b w2 where w2: "testfs_dir_name_to_inode_nr p (Some nm) w = Inr (- ENOENT)"
    "on_fs (testfs_tx_start TX_CREATE) w = Inr (tx TX_CREATE w)"
    "testfs_create_inode I_DIR (tx TX_CREATE w) = Inr (0, q, w2)" "dir_at N w2 p k es" "p \<noteq> q" "k \<noteq> j" "files w j = None"
    "files w2 = (files w)(j \<mapsto> (I_DIR, []))" "w_inodes w q = None" "w_inodes w2 = (w_inodes w)(q \<mapsto> b)"
    "i_nr b = int j" "i_count b = 1" "has_flag b I_FLAGS_DIRTY" "w_sb w2 = w_sb w"
    "fs_out (w_fs w2) = fs_out (w_fs w)" "tx_in_progress (fs_sb (w_fs w2)) = TX_CREATE" "nfree (w_fs w2) = nfree (w_fs w)"
    using create_inode_in [OF c, of I_DIR] by blast
  have p2: "w_inodes w2 p = Some a" "w_inodes w2 q = Some b" using p w2(5,10) by simp_all
  have dq: "dir_at N w2 q j []" using w2(4,8,11) p2(2) by (simp add: dir_at_def)
  have "0 < nfree (w_fs w2)" using r w2(17) by (simp add: room_for_dir_def)
  from empty_dir_eq [OF dq p2(2) kl this] obtain b' w3 where w3: "testfs_create_empty_dir (int k) q w2 = Inr (0, w3)"
    "dir_at N w3 q j (empty_dir j k)" "same_env w2 w3" "files w3 = (files w2)(j \<mapsto> (I_DIR, dir_bytes (empty_dir j k)))"
    "w_inodes w3 = (w_inodes w2)(q \<mapsto> b')" "i_nr b' = int j" "i_count b' = i_count b" "has_flag b' I_FLAGS_DIRTY"
    "nfree (w_fs w2) = Suc (nfree (w_fs w3))"
    by blast
  have d3: "dir_at N w3 p k es"
    by (rule dir_at_other [OF w2(4)]) (use w3 w2(5,6) dir_fields(1) [OF w3(2)] in simp_all)
  have r3: "room w3 es es'" using r w2(17) w3(9) by (simp add: room_def room_for_dir_def)
  have p3: "w_inodes w3 p = Some a" "w_inodes w3 q = Some b'" using p2 w3(5) w2(5) by simp_all
  have cnt: "i_count b' = 1" using w3(7) w2(12) by simp
  have tr3: "tx_in_progress (fs_sb (w_fs w3)) = TX_CREATE" using w3(3) w2(16) by (simp add: same_env_def)
  obtain w4 w5 w6 w7 a' where l: "testfs_add_dirent p (Some nm) (int j) w3 = Inr (0, w4)" "sync_inode p w4 = Inr w5"
    "sync_inode q w5 = Inr w6" "testfs_put_inode q w6 = Inr w7" "on_fs (testfs_tx_commit TX_CREATE) w7 = Inr (tx TX_NONE w7)"
    and e: "dir_at N (tx TX_NONE w7) p k es'" "files (tx TX_NONE w7) = (files w3)(k \<mapsto> (I_DIR, dir_bytes es'))"
    "w_inodes w7 = (w_inodes w3)(p \<mapsto> a', q := None)" "i_nr a' = int k" "i_count a' = i_count a"
    "\<not> has_flag a' I_FLAGS_DIRTY" "w_sb w7 = w_sb w3" "fs_out (w_fs w7) = fs_out (w_fs w3)"
    using link_new [OF d3 nm ins r3 p3(1) w2(5) p3(2) w3(6) cnt w3(8) j tr3] by blast
  have nr: "testfs_inode_get_nr q w2 = Inr (int j)" "testfs_inode_get_nr p w2 = Inr (int k)"
    using dir_fields(8) [OF dq] dir_fields(8) [OF w2(4)] by simp_all
  have "testfs_create_file_or_dir p I_DIR (Some nm) w = Inr (0, tx TX_NONE w7)"
    using w2(1-3) nr l pn w3(1) by (simp add: testfs_create_file_or_dir_def ENOENT_def)
  moreover have "w_inodes (tx TX_NONE w7) = (w_inodes w)(p \<mapsto> a')" using e(3) w3(5) w2(5,9,10) by (auto simp: fun_eq_iff)
  moreover have "same_env w (tx TX_NONE w7)" using e(7,8) w3(3) w2(14,15) tr by (simp add: same_env_def)
  ultimately show ?thesis
    using e w2(6-8) w3(4) by (intro exI [of _ "tx TX_NONE w7"] exI [of _ a']) (simp add: fun_upd_twist)
qed

lemma create_exists:
  assumes d: "dir_at N w p k es" and nm: "0 \<notin> set nm" and l: "dir_lookup es nm \<noteq> None"
  shows "testfs_create_file_or_dir p t (Some nm) w = Inr (- EEXIST, w)"
  using name_to_nr [OF d nm] l dir_fields(5) [OF d] dir_lookup_nonneg [of es nm]
  by (auto simp: testfs_create_file_or_dir_def)

text \<open>The inode freemap has 4096 bits but the inode table only 2048 slots.\<close>

lemma create_no_slot:
  assumes d: "dir_at N w p k es" and nm: "0 \<notin> set nm" "dir_lookup es nm = None"
    and tr: "tx_in_progress (fs_sb (w_fs w)) = TX_NONE" and full: "iused (w_fs w) = {..< NR_INODES}"
  shows "testfs_create_file_or_dir p t (Some nm) w = Inl AssertFail"
proof -
  let ?w = "tx TX_CREATE w"
  have v: "vol_ok N ?w" by (rule vol_tx(1) [OF dir_fields(1) [OF d]])
  note ok = vol_okD(1,2) [OF v]
  have "iused (w_fs ?w) \<noteq> {..< 4096}"
  proof
    assume "iused (w_fs ?w) = {..< 4096}"
    then have "(3000 :: nat) \<in> iused (w_fs w)" by simp
    then show False using full by simp
  qed
  note nf = next_free_inode [OF ok(2) this] get_inode_freemap_eq [OF ok(2)]
  have "next_free_inode (w_fs ?w) = 2048"
    using nf(1,2) nf(3) [of 2048] full by auto
  then have g: "testfs_get_inode_freemap (w_fs ?w) = Inr (2048, set_imap 2048 True (w_fs ?w))"
    using nf(4) \<open>iused (w_fs ?w) \<noteq> {..< 4096}\<close> by simp
  let ?w1 = "set_fs (set_imap 2048 True (w_fs ?w)) ?w"
  have c1: "cache_ok ?w1" unfolding cache_ok_set_fs by (rule ok(1))
  have "i_nr a \<noteq> 2048" if "w_inodes ?w1 q = Some a" for q a
    using cached_at [OF v, of q a] that by auto
  then have m: "inode_hash_find 2048 ?w1 = Inr NULL" by (rule hash_find_miss [OF c1])
  have "testfs_get_inode 2048 ?w1 = Inl AssertFail"
    using m inode_to_block_eq(3) [of _ 2048] by (simp add: testfs_get_inode_def testfs_read_inode_block_def Let_def)
  then show ?thesis
    using name_to_nr [OF d nm(1)] nm(2) dir_fields(5) [OF d] tx_start [OF tr, of TX_CREATE] g
    by (simp add: testfs_create_file_or_dir_def testfs_create_inode_def ENOENT_def Let_def)
qed

section \<open>At the prompt\<close>

text \<open>
  Between two commands no transaction runs and exactly one inode is cached: the clean current directory,
  with one reference.
\<close>

definition session :: "nat \<Rightarrow> cmd_context \<Rightarrow> 'd world \<Rightarrow> nat \<Rightarrow> dirent list \<Rightarrow> bool" where
  "session N c w k es \<longleftrightarrow> dir_at N w (cur_dir c) k es \<and> tx_in_progress (fs_sb (w_fs w)) = TX_NONE \<and>
     (\<exists>a. w_inodes w = [cur_dir c \<mapsto> a] \<and> i_nr a = int k \<and> i_count a = 1 \<and> \<not> has_flag a I_FLAGS_DIRTY)"

lemma sessionD:
  assumes "session N c w k es"
  shows "dir_at N w (cur_dir c) k es" "tx_in_progress (fs_sb (w_fs w)) = TX_NONE"
    "\<exists>a. w_inodes w = [cur_dir c \<mapsto> a] \<and> i_nr a = int k \<and> i_count a = 1 \<and> \<not> has_flag a I_FLAGS_DIRTY"
    "clean_at w j" "w_inodes w q = Some b \<Longrightarrow> i_nr b = int k" "vol_ok N w"
  using assms dir_fields(1) unfolding session_def by (auto simp: clean_at_def split: if_splits)

lemma session_next:
  assumes "session N c w k es" "dir_at N w' (cur_dir c) k es'" "same_env w w'"
    and "w_inodes w' = [cur_dir c \<mapsto> a']" "i_nr a' = int k" "i_count a' = 1" "\<not> has_flag a' I_FLAGS_DIRTY"
  shows "session N c w' k es'"
  using sessionD(2) [OF assms(1)] assms(2-) by (auto simp: session_def same_env_def)

definition arg_is :: "cmd_context \<Rightarrow> byte list \<Rightarrow> bool" where
  "arg_is c nm \<longleftrightarrow> nargs c = 2 \<and> cmd_arg c 1 = Inr (Some nm)"

lemma session_create:
  assumes s: "session N c w k es" and cc: "can_create N w (cur_dir c) k es nm j es'" and r: "room w es es'"
  shows "\<exists>w'. testfs_create_file_or_dir (cur_dir c) I_FILE (Some nm) w = Inr (0, w') \<and> session N c w' k es' \<and>
    same_env w w' \<and> files w j = None \<and> files w' = (files w)(k \<mapsto> (I_DIR, dir_bytes es'), j \<mapsto> (I_FILE, []))"
proof -
  obtain a0 where a0: "w_inodes w = [cur_dir c \<mapsto> a0]" "i_nr a0 = int k" "i_count a0 = 1" using sessionD(3) [OF s] by blast
  obtain w' a' where w': "testfs_create_file_or_dir (cur_dir c) I_FILE (Some nm) w = Inr (0, w')"
    "dir_at N w' (cur_dir c) k es'" "files w' = (files w)(k \<mapsto> (I_DIR, dir_bytes es'), j \<mapsto> (I_FILE, []))" "files w j = None"
    "same_env w w'" "w_inodes w' = (w_inodes w)(cur_dir c \<mapsto> a')" "i_nr a' = int k" "i_count a' = i_count a0"
    "\<not> has_flag a' I_FLAGS_DIRTY"
    using create_file [OF cc r, of a0] a0(1) by auto
  moreover have "session N c w' k es'" by (rule session_next [OF s w'(2,5), of a']) (use w' a0 in simp_all)
  ultimately show ?thesis by blast
qed

lemma cmd_create_eq:
  assumes s: "session N c w k es" and a: "arg_is c nm" and cc: "can_create N w (cur_dir c) k es nm j es'"
    and r: "room w es es'"
  shows "\<exists>w'. cmd_create c w = Inr (0, c, w') \<and> session N c w' k es' \<and> same_env w w' \<and> files w j = None \<and>
    files w' = (files w)(k \<mapsto> (I_DIR, dir_bytes es'), j \<mapsto> (I_FILE, []))"
  using session_create [OF s cc r] a by (auto simp: arg_is_def cmd_create_def upto_rec1)

lemma cmd_mkdir_eq:
  assumes s: "session N c w k es" and a: "arg_is c nm" and cc: "can_create N w (cur_dir c) k es nm j es'"
    and r: "room_for_dir w es es'"
  shows "\<exists>w'. cmd_mkdir c w = Inr (0, c, w') \<and> session N c w' k es' \<and> same_env w w' \<and> files w j = None \<and>
    files w' = (files w)(k \<mapsto> (I_DIR, dir_bytes es'), j \<mapsto> (I_DIR, dir_bytes (empty_dir j k)))"
proof -
  obtain a0 where a0: "w_inodes w = [cur_dir c \<mapsto> a0]" "i_nr a0 = int k" "i_count a0 = 1" using sessionD(3) [OF s] by blast
  obtain w' a' where w': "testfs_create_file_or_dir (cur_dir c) I_DIR (Some nm) w = Inr (0, w')"
    "dir_at N w' (cur_dir c) k es'"
    "files w' = (files w)(k \<mapsto> (I_DIR, dir_bytes es'), j \<mapsto> (I_DIR, dir_bytes (empty_dir j k)))" "files w j = None"
    "same_env w w'" "w_inodes w' = (w_inodes w)(cur_dir c \<mapsto> a')" "i_nr a' = int k" "i_count a' = i_count a0"
    "\<not> has_flag a' I_FLAGS_DIRTY"
    using create_dir [OF cc r, of a0] a0(1) by auto
  have "cmd_mkdir c w = Inr (0, c, w')" using a w'(1) by (simp add: arg_is_def cmd_mkdir_def)
  moreover have "session N c w' k es'" by (rule session_next [OF s w'(2,5), of a']) (use w' a0 in simp_all)
  ultimately show ?thesis using w' by blast
qed

text \<open>Removing a file or an empty directory.\<close>

lemma cmd_rm_eq:
  assumes s: "session N c w k es" and a: "arg_is c nm" and nm: "0 \<notin> set nm" "nm \<noteq> [46]" "nm \<noteq> [46, 46]"
    and l: "dir_lookup es nm = Some (int j)" "j \<noteq> k" and f: "files w j = Some (t, x)"
    and dir: "t = I_DIR \<Longrightarrow> x = dir_bytes cs \<and> list_all dirent_ok cs \<and> list_all dead_entry cs"
  shows "\<exists>w'. cmd_rm c w = Inr (0, c, w') \<and> session N c w' k (dir_remove nm es) \<and> same_env w w' \<and>
    files w' = (files w)(k \<mapsto> (I_DIR, dir_bytes (dir_remove nm es)), j := None)"
proof -
  let ?p = "cur_dir c" and ?es = "dir_remove nm es"
  note d = sessionD(1) [OF s] and tr = sessionD(2) [OF s]
  obtain a0 where a0: "w_inodes w = [?p \<mapsto> a0]" "i_nr a0 = int k" "i_count a0 = 1" using sessionD(3) [OF s] by blast
  let ?w = "tx TX_RM w"
  have d0: "dir_at N ?w ?p k es" by (rule dir_at_tx [OF d])
  have f0: "files ?w = files w" by (rule vol_tx(2) [OF sessionD(6) [OF s]])
  have cl: "clean_at ?w j" using sessionD(4) [OF s, of j] by (simp add: clean_at_def)
  have p0: "w_inodes ?w ?p = Some a0" "files ?w j = Some (t, x)" using a0(1) f f0 by simp_all
  have dir': "x = dir_bytes cs \<and> list_all dirent_ok cs" if "t = I_DIR" using dir [OF that] by simp
  have em: "t \<noteq> I_DIR \<or> list_all dead_entry cs" using dir by blast
  obtain a1 w1 where w1: "testfs_remove_dirent ?p (Some nm) ?w = Inr (int j, w1)" "dir_at N w1 ?p k ?es" "same_env ?w w1"
    "files w1 = (files ?w)(k \<mapsto> (I_DIR, dir_bytes ?es))" "w_inodes w1 = (w_inodes ?w)(?p \<mapsto> a1)" "i_nr a1 = int k"
    "i_count a1 = i_count a0" "has_flag a1 I_FLAGS_DIRTY"
    using remove_dirent_eq(2) [OF d0 nm l(1) p0(2) cl dir' p0(1) em] by blast
  have fj: "files w1 j = Some (t, x)" using w1(4) f f0 l(2) by simp
  obtain q b w2 where g: "testfs_get_inode (int j) w1 = Inr (q, w2)" "got w1 j q b w2" "vol_ok N w2" "files w2 = files w1"
    using vol_get [OF dir_fields(1) [OF w1(2)] files_in [OF fj]] by blast
  note g' = g(2) [unfolded got_def]
  have i1: "w_inodes w1 = [?p \<mapsto> a1]" using w1(5) a0(1) by simp
  have qn: "w_inodes w1 q = None" using g' i1 w1(6) l(2) by (auto split: option.splits if_splits)
  have b: "w_inodes w2 q = Some b" "i_nr b = int j" "i_count b = 1" using g' qn by simp_all
  obtain w3 where w3: "testfs_remove_inode q w2 = Inr w3" "vol_ok N w3" "same_env w2 w3" "files w3 = (files w2)(j := None)"
    "w_inodes w3 = (w_inodes w2)(q := None)"
    using vol_remove [OF g(3) b] by blast
  have i3: "w_inodes w3 = w_inodes w1" using w3(5) g' qn by (simp add: fun_upd_idem)
  then have p3: "w_inodes w3 ?p = Some a1" using i1 by simp
  obtain w4 a4 where w4: "sync_inode ?p w3 = Inr w4" "vol_ok N w4" "files w4 = files w3" "same_env w3 w4"
    "w_inodes w4 = (w_inodes w3)(?p \<mapsto> a4)" "i_nr a4 = i_nr a1" "i_count a4 = i_count a1" "\<not> has_flag a4 I_FLAGS_DIRTY"
    using sync_one [OF w3(2) p3 w1(6,8)] by blast
  have "same_env w1 w2" using g' by (simp add: same_env_def)
  then have env: "same_env ?w w4" using w1(3) w3(3) w4(4) by (simp add: same_env_def)
  have cm: "on_fs (testfs_tx_commit TX_RM) w4 = Inr (tx TX_NONE w4)"
    by (rule tx_commit) (use env in \<open>simp add: same_env_def\<close>)
  let ?w5 = "tx TX_NONE w4"
  have fin: "files ?w5 = (files w)(k \<mapsto> (I_DIR, dir_bytes ?es), j := None)"
    using vol_tx(2) [OF w4(2)] w4(3) w3(4) g(4) w1(4) f0 by simp
  have "cmd_rm c w = Inr (0, c, ?w5)"
    using a tx_start [OF tr, of TX_RM] w1(1) g(1) w3(1) w4(1) cm by (simp add: arg_is_def cmd_rm_def)
  moreover have "dir_at N ?w5 ?p k ?es"
    using vol_tx(1) [OF w4(2)] fin dir_fields(4) [OF w1(2)] l(2) w4(5,6) w1(6) by (simp add: dir_at_def)
  moreover have "same_env w ?w5" using env tr by (simp add: same_env_def)
  moreover have "w_inodes ?w5 = (w_inodes w)(?p \<mapsto> a4)" using w4(5) i3 i1 a0(1) by simp
  ultimately show ?thesis
    using fin session_next [OF s, of ?w5 ?es a4] a0 w4(6-8) w1(6,7) by (intro exI [of _ ?w5]) simp
qed

lemma cmd_rm_refused:
  assumes s: "session N c w k es" and a: "arg_is c nm"
  shows "nm = [46] \<or> nm = [46, 46] \<Longrightarrow> cmd_rm c w = Inr (- EINVAL, c, tx TX_NONE (tx TX_RM w))"
    "0 \<notin> set nm \<Longrightarrow> nm \<noteq> [46] \<Longrightarrow> nm \<noteq> [46, 46] \<Longrightarrow> dir_lookup es nm = None \<Longrightarrow>
      cmd_rm c w = Inr (- ENOENT, c, tx TX_NONE (tx TX_RM w))"
    "0 \<notin> set nm \<Longrightarrow> nm \<noteq> [46] \<Longrightarrow> nm \<noteq> [46, 46] \<Longrightarrow> dir_lookup es nm = Some (int j) \<Longrightarrow>
      files w j = Some (I_DIR, dir_bytes cs) \<Longrightarrow> list_all dirent_ok cs \<Longrightarrow> \<not> list_all dead_entry cs \<Longrightarrow>
      \<exists>w'. cmd_rm c w = Inr (- ENOTEMPTY, c, w') \<and> session N c w' k es \<and> same_env w w' \<and> files w' = files w"
proof -
  let ?p = "cur_dir c" and ?w = "tx TX_RM w"
  note d = sessionD(1) [OF s] and tr = sessionD(2) [OF s]
  have d0: "dir_at N ?w ?p k es" by (rule dir_at_tx [OF d])
  note st = tx_start [OF tr, of TX_RM]
  have cm: "on_fs (testfs_tx_commit TX_RM) ?w = Inr (tx TX_NONE ?w)" by (rule tx_commit) simp
  show "cmd_rm c w = Inr (- EINVAL, c, tx TX_NONE ?w)" if "nm = [46] \<or> nm = [46, 46]"
    using a st cm remove_special [OF dir_fields(5) [OF d] that, of ?w] by (simp add: arg_is_def cmd_rm_def EINVAL_def)
  show "cmd_rm c w = Inr (- ENOENT, c, tx TX_NONE ?w)"
    if "0 \<notin> set nm" "nm \<noteq> [46]" "nm \<noteq> [46, 46]" "dir_lookup es nm = None"
    using a st cm remove_missing [OF d0 that] by (simp add: arg_is_def cmd_rm_def ENOENT_def)
  show "\<exists>w'. cmd_rm c w = Inr (- ENOTEMPTY, c, w') \<and> session N c w' k es \<and> same_env w w' \<and> files w' = files w"
    if nm: "0 \<notin> set nm" "nm \<noteq> [46]" "nm \<noteq> [46, 46]" and l: "dir_lookup es nm = Some (int j)"
      and f: "files w j = Some (I_DIR, dir_bytes cs)" and cs: "list_all dirent_ok cs" "\<not> list_all dead_entry cs"
  proof -
    have cl: "clean_at ?w j" using sessionD(4) [OF s, of j] by (simp add: clean_at_def)
    have f0: "files ?w = files w" by (rule vol_tx(2) [OF sessionD(6) [OF s]])
    obtain a0 where a0: "w_inodes w = [?p \<mapsto> a0]" "i_nr a0 = int k" "i_count a0 = 1" "\<not> has_flag a0 I_FLAGS_DIRTY"
      using sessionD(3) [OF s] by blast
    have p0: "w_inodes ?w ?p = Some a0" "files ?w j = Some (I_DIR, dir_bytes cs)" using a0(1) f f0 by simp_all
    have cs': "dir_bytes cs = dir_bytes cs \<and> list_all dirent_ok cs" using cs by simp
    obtain w1 where w1: "testfs_remove_dirent ?p (Some nm) ?w = Inr (- ENOTEMPTY, w1)" "vol_ok N w1" "files w1 = files ?w"
      "same_env ?w w1" "w_inodes w1 = w_inodes ?w"
      using remove_dirent_eq(1) [OF d0 nm l p0(2) cl cs' p0(1) refl cs(2)] by blast
    have cm1: "on_fs (testfs_tx_commit TX_RM) w1 = Inr (tx TX_NONE w1)"
      by (rule tx_commit) (use w1(4) in \<open>simp add: same_env_def\<close>)
    let ?w2 = "tx TX_NONE w1"
    have "cmd_rm c w = Inr (- ENOTEMPTY, c, ?w2)"
      using a st w1(1) cm1 by (simp add: arg_is_def cmd_rm_def ENOTEMPTY_def)
    moreover have "dir_at N ?w2 ?p k es"
      by (rule dir_at_other [OF d vol_tx(1) [OF w1(2)]]) (use vol_tx(2) [OF w1(2)] w1(3,5) f0 in simp_all)
    moreover have "same_env w ?w2" using w1(4) tr by (simp add: same_env_def)
    moreover have "w_inodes ?w2 = [?p \<mapsto> a0]" using w1(5) a0 by simp
    ultimately show ?thesis
      using a0 vol_tx(2) [OF w1(2)] w1(3) f0 session_next [OF s, of ?w2 es a0] by (intro exI [of _ ?w2]) simp
  qed
qed

section \<open>Listing\<close>

text \<open>
  \<open>listing r F es ms n\<close>: a listing of the entries \<open>es\<close> on the volume \<open>F\<close> prints \<open>ms\<close> and takes fuel \<open>n\<close>;
  a recursive one (\<open>r\<close>) descends into the directories other than \<open>.\<close> and \<open>..\<close>.
\<close>

inductive listing :: "bool \<Rightarrow> (nat \<Rightarrow> (inode_type \<times> byte list) option) \<Rightarrow> dirent list \<Rightarrow> message list \<Rightarrow> nat \<Rightarrow> bool"
  for r F where
  nil: "listing r F [] [] 1"
| dead: "\<not> live d \<Longrightarrow> listing r F es ms n \<Longrightarrow> listing r F (d # es) ms (Suc n)"
| leaf: "d_inode_nr d = int j \<Longrightarrow> F j = Some (t, x) \<Longrightarrow> \<not> r \<or> t \<noteq> I_DIR \<or> dead_entry d \<Longrightarrow>
    listing r F es ms n \<Longrightarrow> listing r F (d # es) (LsEntry (dname d) (t = I_DIR) # ms) (Suc n)"
| sub: "d_inode_nr d = int j \<Longrightarrow> F j = Some (I_DIR, dir_bytes cs) \<Longrightarrow> list_all dirent_ok cs \<Longrightarrow>
    r \<Longrightarrow> \<not> dead_entry d \<Longrightarrow> listing r F cs ms' n' \<Longrightarrow> listing r F es ms n \<Longrightarrow>
    listing r F (d # es) (LsEntry (dname d) True # ms' @ ms) (Suc (max n' n))"

definition all_clean :: "'d world \<Rightarrow> bool" where
  "all_clean w \<longleftrightarrow> (\<forall>p a. w_inodes w p = Some a \<longrightarrow> \<not> has_flag a I_FLAGS_DIRTY)"

text \<open>Nothing changed but the output.\<close>

definition printed :: "message list \<Rightarrow> nat \<Rightarrow> 'd world \<Rightarrow> 'd world \<Rightarrow> bool" where
  "printed ms N w w' \<longleftrightarrow> vol_ok N w' \<and> files w' = files w \<and> w_inodes w' = w_inodes w \<and> w_sb w' = w_sb w \<and>
     fs_out (w_fs w') = fs_out (w_fs w) @ ms \<and> tx_in_progress (fs_sb (w_fs w')) = tx_in_progress (fs_sb (w_fs w))"

lemma printed_trans: "printed ms N w w' \<Longrightarrow> printed ms' N w' w'' \<Longrightarrow> printed (ms @ ms') N w w''"
  by (simp add: printed_def)

lemma printed_clean: "printed ms N w w' \<Longrightarrow> all_clean w \<Longrightarrow> all_clean w'"
  by (simp add: printed_def all_clean_def)

lemma printed_dir: "printed ms N w w' \<Longrightarrow> dir_at N w p k es \<Longrightarrow> dir_at N w' p k es"
  by (simp add: printed_def dir_at_def)

text \<open>Looking at the inode of an entry between a get and a put.\<close>

lemma get_for:
  assumes v: "vol_ok N w" and cl: "all_clean w" and f: "files w j = Some (t, x)"
  shows "\<exists>q b w1. testfs_get_inode (int j) w = Inr (q, w1) \<and> testfs_inode_get_type q w1 = Inr t \<and>
    got w j q b w1 \<and> vol_ok N w1 \<and> files w1 = files w \<and> all_clean w1 \<and> w_inodes w1 q = Some b \<and> i_nr b = int j \<and>
    fs_out (w_fs w1) = fs_out (w_fs w) \<and>
    (\<forall>w2 ms. printed ms N w1 w2 \<longrightarrow> (\<exists>w3. testfs_put_inode q w2 = Inr w3 \<and> printed ms N w w3))"
proof -
  obtain q b w1 where g: "testfs_get_inode (int j) w = Inr (q, w1)" "got w j q b w1" "vol_ok N w1" "files w1 = files w"
    using vol_get [OF v files_in [OF f]] by blast
  note g' = g(2) [unfolded got_def]
  have q1: "w_inodes w1 q = Some b" "i_nr b = int j" using g' by simp_all
  have "clean_at w j" using cl by (simp add: all_clean_def clean_at_def)
  then have cb: "\<not> has_flag b I_FLAGS_DIRTY" using got_clean g(2) by blast
  have "all_clean w1" using cl cb g' by (auto simp: all_clean_def)
  moreover have "testfs_inode_get_type q w1 = Inr t"
    using files_at(1) [OF g(3) q1] f g(4) deref_eq [OF vol_okD(1) [OF g(3)] q1(1)]
    by (simp add: testfs_inode_get_type_def)
  moreover have "\<exists>w3. testfs_put_inode q w2 = Inr w3 \<and> printed ms N w w3" if pr: "printed ms N w1 w2" for w2 ms
  proof -
    note pr' = pr [unfolded printed_def]
    have "vol_ok N w2" "w_inodes w2 = w_inodes w1" "w_sb w2 = w_sb w1" using pr' by blast+
    then obtain w3 where "testfs_put_inode q w2 = Inr w3" "vol_ok N w3" "files w3 = files w2" "w_fs w3 = w_fs w2"
      "w_sb w3 = w_sb w" "w_inodes w3 = w_inodes w"
      using vol_put_back [OF v g(2) _ _ _ cb] by blast
    then show ?thesis using pr' g' g(4) by (intro exI [of _ w3]) (simp add: printed_def)
  qed
  ultimately show ?thesis using g q1 g' by (intro exI [of _ q] exI [of _ b] exI [of _ w1]) simp
qed

lemma ls_eq:
  assumes "listing r (files w) vs ms n" "dir_at N w p k (us @ vs)" "all_clean w" "n \<le> fuel"
  shows "\<exists>w'. testfs_ls fuel p (off us) r w = Inr w' \<and> printed ms N w w'"
proof -
  have "\<exists>w'. testfs_ls fuel p (off us) r w = Inr w' \<and> printed ms N w w'"
    if "listing r F vs ms n" "F = files w" "dir_at N w p k (us @ vs)" "all_clean w" "n \<le> fuel"
    for F and w :: "'a world" and vs ms n p k us fuel
    using that
  proof (induction arbitrary: w p k us fuel rule: listing.induct)
    case nil
    obtain m where m: "fuel = Suc m" using nil(4) by (cases fuel) auto
    have "dir_at N w p k us" using nil(2) by simp
    from scan_end [OF dir_scans [OF this]] show ?case using dir_fields(1) [OF nil(2)] m by (simp add: printed_def)
  next
    case (dead d es ms n)
    obtain m where m: "fuel = Suc m" "n \<le> m" using dead(7) by (cases fuel) auto
    note st = scan_step [OF dir_scans [OF dead(5)] refl]
    show ?case using dead(3) [of w p k "us @ [d]" m] dead(1,4-6) st m by (simp add: live_def)
  next
    case (leaf d j t x es ms n)
    obtain m where m: "fuel = Suc m" "n \<le> m" using leaf(9) by (cases fuel) auto
    note st = scan_step [OF dir_scans [OF leaf(7)] refl]
    have f: "files w j = Some (t, x)" using leaf(2,6) by simp
    obtain q b w1 where g: "testfs_get_inode (int j) w = Inr (q, w1)" "testfs_inode_get_type q w1 = Inr t" "vol_ok N w1"
      "files w1 = files w"
      "\<And>w2 ms. printed ms N w1 w2 \<Longrightarrow> \<exists>w3. testfs_put_inode q w2 = Inr w3 \<and> printed ms N w w3"
      using get_for [OF dir_fields(1) [OF leaf(7)] leaf(8) f] by blast
    let ?msg = "LsEntry (dname d) (t = I_DIR)"
    have "printed [?msg] N w1 (print ?msg w1)" using vol_print [OF g(3)] by (simp add: printed_def)
    then obtain w3 where w3: "testfs_put_inode q (print ?msg w1) = Inr w3" "printed [?msg] N w w3" using g(5) by blast
    have fw: "F = files w3" using w3(2) leaf(6) by (simp add: printed_def)
    have "dir_at N w3 p k ((us @ [d]) @ es)" using printed_dir [OF w3(2) leaf(7)] by simp
    from leaf(5) [OF fw this printed_clean [OF w3(2) leaf(8)] m(2)] obtain w4
      where w4: "testfs_ls m p (off (us @ [d])) r w3 = Inr w4" "printed ms N w3 w4" by blast
    have sk: "bind_r (if r \<and> t = I_DIR then skip_entry d else Inr True) f = f True" for f :: "bool \<Rightarrow> 'a world res"
      using leaf(3) skip_entry_eq [OF st(2)] by auto
    have "testfs_ls fuel p (off us) r w = Inr w4"
      using st(1) g(1,2) w3(1) w4(1) m(1) c_string_name [OF st(2)] leaf(1) by (simp add: Let_def sk)
    then show ?case using printed_trans [OF w3(2) w4(2)] by simp
  next
    case (sub d j cs ms' n' es ms n)
    obtain m where m: "fuel = Suc m" "n \<le> m" "n' \<le> m" using sub(13) by (cases fuel) auto
    note st = scan_step [OF dir_scans [OF sub(11)] refl]
    have f: "files w j = Some (I_DIR, dir_bytes cs)" using sub(2,10) by simp
    obtain q b w1 where g: "testfs_get_inode (int j) w = Inr (q, w1)" "testfs_inode_get_type q w1 = Inr I_DIR" "vol_ok N w1"
      "files w1 = files w" "all_clean w1" "w_inodes w1 q = Some b" "i_nr b = int j"
      "\<And>w2 ms. printed ms N w1 w2 \<Longrightarrow> \<exists>w3. testfs_put_inode q w2 = Inr w3 \<and> printed ms N w w3"
      using get_for [OF dir_fields(1) [OF sub(11)] sub(12) f] by blast
    let ?msg = "LsEntry (dname d) True"
    let ?w1 = "print ?msg w1"
    have p1: "printed [?msg] N w1 ?w1" using vol_print [OF g(3)] by (simp add: printed_def)
    have f1: "F = files ?w1" using vol_print(2) [OF g(3)] g(4) sub(10) by simp
    have d1: "dir_at N ?w1 q j ([] @ cs)"
      using vol_print [OF g(3)] g(4,6,7) f sub(3) by (simp add: dir_at_def)
    from sub(8) [OF f1 d1 printed_clean [OF p1 g(5)] m(3)] obtain w2
      where w2: "testfs_ls m q 0 r ?w1 = Inr w2" "printed ms' N ?w1 w2" by (auto simp: off_def)
    then obtain w3 where w3: "testfs_put_inode q w2 = Inr w3" "printed (?msg # ms') N w w3"
      using g(8) [OF printed_trans [OF p1 w2(2)]] by auto
    have fw: "F = files w3" using w3(2) sub(10) by (simp add: printed_def)
    have "dir_at N w3 p k ((us @ [d]) @ es)" using printed_dir [OF w3(2) sub(11)] by simp
    from sub(9) [OF fw this printed_clean [OF w3(2) sub(12)] m(2)] obtain w4
      where w4: "testfs_ls m p (off (us @ [d])) r w3 = Inr w4" "printed ms N w3 w4" by blast
    have "testfs_ls fuel p (off us) r w = Inr w4"
      using st(1) g(1,2) w2(1) w3(1) w4(1) m(1) c_string_name [OF st(2)] skip_entry_eq [OF st(2)] sub(1,4,5)
      by (simp add: Let_def)
    then show ?case using printed_trans [OF w3(2) w4(2)] by simp
  qed
  then show ?thesis using assms by blast
qed

lemma printed_refl: "vol_ok N w \<Longrightarrow> printed [] N w w"
  by (simp add: printed_def)

lemma printed_print: "vol_ok N w \<Longrightarrow> printed [m] N w (print m w)"
  using vol_print [of True N w m] by (simp add: printed_def)

lemma session_printed:
  assumes "session N c w k es" "printed ms N w w'"
  shows "session N c w' k es"
  using assms printed_dir [OF assms(2) sessionD(1) [OF assms(1)]] by (simp add: session_def printed_def)

lemma session_clean: "session N c w k es \<Longrightarrow> all_clean w"
  by (auto simp: session_def all_clean_def split: if_splits)

definition ls_arg :: "cmd_context \<Rightarrow> byte list \<Rightarrow> bool" where
  "ls_arg c nm \<longleftrightarrow> nargs c = 1 \<and> nm = [46] \<or> arg_is c nm"

lemma ls_command_eq:
  assumes s: "session N c w k es" and a: "ls_arg c nm" "0 \<notin> set nm"
    and l: "dir_lookup es nm = Some (int j)" and f: "files w j = Some (I_DIR, dir_bytes cs)" "list_all dirent_ok cs"
    and ls: "listing r (files w) cs ms n" "n \<le> fuel"
  shows "\<exists>w'. ls_command r fuel c w = Inr (0, c, w') \<and> session N c w' k es \<and> printed ms N w w'"
proof -
  note d = sessionD(1) [OF s]
  obtain q b w1 where g: "testfs_get_inode (int j) w = Inr (q, w1)" "vol_ok N w1"
    "files w1 = files w" "all_clean w1" "w_inodes w1 q = Some b" "i_nr b = int j"
    "\<And>w2 ms. printed ms N w1 w2 \<Longrightarrow> \<exists>w3. testfs_put_inode q w2 = Inr w3 \<and> printed ms N w w3"
    using get_for [OF sessionD(6) [OF s] session_clean [OF s] f(1)] by blast
  have d1: "dir_at N w1 q j ([] @ cs)" using g f by (simp add: dir_at_def)
  obtain w2 where w2: "testfs_ls fuel q 0 r w1 = Inr w2" "printed ms N w1 w2"
    using ls_eq [OF ls(1) [folded g(3)] d1 g(4) ls(2)] by (auto simp: off_def)
  obtain w3 where w3: "testfs_put_inode q w2 = Inr w3" "printed ms N w w3" using g(7) [OF w2(2)] by blast
  have "ls_command r fuel c w = Inr (0, c, w3)"
    using a(1) name_to_nr [OF d a(2)] l dir_fields(5) [OF d] g(1) w2(1) w3(1)
    by (auto simp: ls_command_def ls_arg_def arg_is_def dot_def)
  then show ?thesis using w3(2) session_printed [OF s w3(2)] by blast
qed

section \<open>The path of the current directory\<close>

text \<open>\<open>path_to F k es ns\<close>: from directory \<open>k\<close> with the entries \<open>es\<close>, \<open>..\<close> leads up to the root along the names \<open>ns\<close>.\<close>

inductive path_to :: "(nat \<Rightarrow> (inode_type \<times> byte list) option) \<Rightarrow> nat \<Rightarrow> dirent list \<Rightarrow> byte list list \<Rightarrow> bool"
  for F where
  root: "dir_lookup es [46, 46] = Some (int k) \<Longrightarrow> path_to F k es []"
| up: "dir_lookup es [46, 46] = Some (int j) \<Longrightarrow> j \<noteq> k \<Longrightarrow> F j = Some (I_DIR, dir_bytes ps) \<Longrightarrow> list_all dirent_ok ps \<Longrightarrow>
    find (\<lambda>d. d_inode_nr d = int k) ps = Some d \<Longrightarrow> path_to F j ps ns \<Longrightarrow> path_to F k es (ns @ [dname d])"

definition pwd_out :: "byte list list \<Rightarrow> message list" where
  "pwd_out ns = PwdRoot # (case ns of [] \<Rightarrow> [] | n # ns \<Rightarrow> PwdEntry False n # map (PwdEntry True) ns)"

lemma pwd_out_snoc: "pwd_out (ns @ [nm]) = pwd_out ns @ [PwdEntry (ns \<noteq> []) nm]"
  by (cases ns) (simp_all add: pwd_out_def)

lemma pwd_eq:
  assumes "path_to (files w) k es ns" "dir_at N w p k es" "all_clean w" "length ns < fuel"
  shows "\<exists>w'. testfs_pwd fuel p w = Inr (if ns = [] then 1 else 0, w') \<and> printed (pwd_out ns) N w w'"
proof -
  have "\<exists>w'. testfs_pwd fuel p w = Inr (if ns = [] then 1 else 0, w') \<and> printed (pwd_out ns) N w w'"
    if "path_to F k es ns" "F = files w" "dir_at N w p k es" "all_clean w" "length ns < fuel"
    for F and w :: "'a world" and k es ns p fuel
    using that
  proof (induction arbitrary: w p fuel rule: path_to.induct)
    case (root es k)
    obtain m where m: "fuel = Suc m" using root(5) by (cases fuel) auto
    note f = dir_fields [OF root(3)]
    show ?case
      using f(5,8) name_to_nr [OF root(3), of "[46, 46]"] root(1) printed_print [OF f(1), of PwdRoot] m
      by (auto simp: dotdot_def pwd_out_def)
  next
    case (up es j k ps d ns)
    obtain m where m: "fuel = Suc m" "length ns < m" using up(11) by (cases fuel) auto
    note f = dir_fields [OF up(9)]
    have fj: "files w j = Some (I_DIR, dir_bytes ps)" using up(3,8) by simp
    obtain q b w1 where g: "testfs_get_inode (int j) w = Inr (q, w1)" "vol_ok N w1"
      "files w1 = files w" "all_clean w1" "w_inodes w1 q = Some b" "i_nr b = int j"
      "\<And>w2 ms. printed ms N w1 w2 \<Longrightarrow> \<exists>w3. testfs_put_inode q w2 = Inr w3 \<and> printed ms N w w3"
      using get_for [OF f(1) up(10) fj] by blast
    have d1: "dir_at N w1 q j ps" using g fj up(4) by (simp add: dir_at_def)
    have fd: "testfs_find_dirent q (int k) w1 = Inr (Some d)" using find_dirent [OF d1, of "int k"] up(5) by simp
    have "d \<in> set ps" using up(5) by (auto simp: find_Some_iff)
    then have okd: "dirent_ok d" using up(4) by (simp add: list_all_iff)
    obtain w2 where w2: "testfs_pwd m q w1 = Inr (if ns = [] then 1 else 0, w2)" "printed (pwd_out ns) N w1 w2"
      using up(7) [of w1 q m] up(8) g(3,4) d1 m(2) by auto
    obtain w3 where w3: "testfs_put_inode q w2 = Inr w3" "printed (pwd_out ns) N w w3" using g(7) [OF w2(2)] by blast
    let ?m = "PwdEntry (ns \<noteq> []) (dname d)"
    have "vol_ok N w3" using w3(2) by (simp add: printed_def)
    from printed_trans [OF w3(2) printed_print [OF this, of ?m]]
    have "printed (pwd_out (ns @ [dname d])) N w (print ?m w3)" by (simp add: pwd_out_snoc)
    moreover have "testfs_pwd fuel p w = Inr (0, print ?m w3)"
      using f(5,8) name_to_nr [OF up(9), of "[46, 46]"] up(1,2) g(1) fd w2(1) w3(1) c_string_name [OF okd] m(1)
      by (simp add: dotdot_def)
    ultimately show ?case by simp
  qed
  then show ?thesis using assms by blast
qed

lemma cmd_pwd_eq:
  assumes s: "session N c w k es" and a: "nargs c = 1" and pt: "path_to (files w) k es ns" "length ns < fuel"
  shows "\<exists>w'. cmd_pwd fuel c w = Inr (0, c, w') \<and> session N c w' k es \<and> printed (pwd_out ns @ [PwdEnd]) N w w'"
proof -
  obtain w1 where w1: "testfs_pwd fuel (cur_dir c) w = Inr (if ns = [] then 1 else 0, w1)" "printed (pwd_out ns) N w w1"
    using pwd_eq [OF pt(1) sessionD(1) [OF s] session_clean [OF s] pt(2)] by blast
  have "vol_ok N w1" using w1(2) by (simp add: printed_def)
  note pr = printed_trans [OF w1(2) printed_print [OF this, of PwdEnd]]
  have "cmd_pwd fuel c w = Inr (0, c, print PwdEnd w1)" using a w1(1) by (simp add: cmd_pwd_def)
  then show ?thesis using pr session_printed [OF s pr] by blast
qed

section \<open>Changing the directory\<close>

lemma cmd_cd_eq:
  assumes s: "session N c w k es" and a: "arg_is c nm" "0 \<notin> set nm"
    and l: "nm = [47] \<and> j = 0 \<or> nm \<noteq> [47] \<and> dir_lookup es nm = Some (int j)"
    and f: "files w j = Some (I_DIR, dir_bytes cs)" "list_all dirent_ok cs"
  shows "\<exists>w' q. cmd_cd c w = Inr (0, c\<lparr>cur_dir := q\<rparr>, w') \<and> session N (c\<lparr>cur_dir := q\<rparr>) w' j cs \<and>
    files w' = files w \<and> same_env w w'"
proof -
  let ?p = "cur_dir c"
  note d = sessionD(1) [OF s] and v = sessionD(6) [OF s]
  obtain a0 where a0: "w_inodes w = [?p \<mapsto> a0]" "i_nr a0 = int k" "i_count a0 = 1" "\<not> has_flag a0 I_FLAGS_DIRTY"
    using sessionD(3) [OF s] by blast
  obtain q b w1 where g: "testfs_get_inode (int j) w = Inr (q, w1)" "got w j q b w1" "vol_ok N w1" "files w1 = files w"
    using vol_get [OF v files_in [OF f(1)]] by blast
  note g' = g(2) [unfolded got_def]
  have q1: "w_inodes w1 q = Some b" "i_nr b = int j" using g' by simp_all
  have ty: "testfs_inode_get_type q w1 = Inr I_DIR"
    using files_at(1) [OF g(3) q1] f g(4) deref_eq [OF vol_okD(1) [OF g(3)] q1(1)]
    by (simp add: testfs_inode_get_type_def)
  have cb: "\<not> has_flag b I_FLAGS_DIRTY" using got_clean [OF sessionD(4) [OF s] g(2)] .
  define pa where "pa = (if q = ?p then b else a0)"
  have p1: "w_inodes w1 ?p = Some pa" using g' a0(1) by (simp add: pa_def)
  have pc: "\<not> has_flag pa I_FLAGS_DIRTY" using cb a0(4) by (simp add: pa_def)
  obtain w2 where w2: "testfs_put_inode ?p w1 = Inr w2" "vol_ok N w2" "files w2 = files w1" "w_fs w2 = w_fs w1"
    "w_sb w2 = w_sb w1"
    "w_inodes w2 = (w_inodes w1)(?p := (if i_count pa = 1 then None else Some (pa\<lparr>i_count := i_count pa - 1\<rparr>)))"
    using vol_put [OF g(3) p1 pc] by blast
  have "\<exists>b'. w_inodes w2 = [q \<mapsto> b'] \<and> i_nr b' = int j \<and> i_count b' = 1 \<and> \<not> has_flag b' I_FLAGS_DIRTY"
  proof (cases "q = ?p")
    case True
    then have b: "b = a0\<lparr>i_count := 2\<rparr>" using g' a0(1,3) by simp
    then have "w_inodes w2 = [q \<mapsto> a0\<lparr>i_count := 1\<rparr>]" using True w2(6) g' a0(1,3) by (simp add: pa_def)
    moreover have "i_nr a0 = int j" using q1(2) b by simp
    ultimately show ?thesis using a0(4) by (intro exI [of _ "a0\<lparr>i_count := 1\<rparr>"]) (simp add: has_flag_def)
  next
    case False
    then have "i_count b = 1" "w_inodes w2 = [q \<mapsto> b]" using w2(6) g' a0(1,3) by (auto simp: pa_def fun_eq_iff)
    then show ?thesis using q1(2) cb by blast
  qed
  then obtain b' where b': "w_inodes w2 = [q \<mapsto> b']" "i_nr b' = int j" "i_count b' = 1" "\<not> has_flag b' I_FLAGS_DIRTY"
    by blast
  have "bind_r (c_mem (Some nm)) (\<lambda>buf. strcmp buf slash) = Inr (nm = [47])"
    using strcmp_eq_names [of nm "[47]"] a(2) by (simp add: c_mem_def strcmp_def slash_def)
  then have "cmd_cd c w = Inr (0, c\<lparr>cur_dir := q\<rparr>, w2)"
    using a(1) l name_to_nr [OF d a(2)] g(1) ty w2(1) by (auto simp: cmd_cd_def arg_is_def c_mem_def)
  moreover have "dir_at N w2 q j cs" using w2(2,3) g(4) f b' by (simp add: dir_at_def)
  moreover have "same_env w w2" using g' w2(4,5) by (simp add: same_env_def)
  ultimately show ?thesis
    using b' w2(3) g(4) sessionD(2) [OF s] by (intro exI [of _ w2] exI [of _ q]) (auto simp: session_def same_env_def)
qed

section \<open>The root directory\<close>

lemma make_root:
  assumes v: "vol_ok N w" and tr: "tx_in_progress (fs_sb (w_fs w)) = TX_NONE"
    and j: "next_free_inode (w_fs w) = j" "j < NR_INODES" and free: "0 < nfree (w_fs w)"
  shows "\<exists>w'. testfs_make_root_dir w = Inr (0, w') \<and> vol_ok N w' \<and> same_env w w' \<and>
    files w' = (files w)(j \<mapsto> (I_DIR, dir_bytes (empty_dir j j))) \<and> w_inodes w' = w_inodes w \<and>
    nfree (w_fs w) = Suc (nfree (w_fs w'))"
proof -
  let ?w = "tx TX_CREATE w"
  have v0: "vol_ok N ?w" and nf: "next_free_inode (w_fs ?w) = j" using vol_tx(1) [OF v] j by simp_all
  obtain q b w2 where w2: "testfs_create_inode I_DIR ?w = Inr (0, q, w2)" "vol_ok N w2"
    "same_env ?w w2" "files w2 = (files ?w)(j \<mapsto> (I_DIR, []))" "w_inodes ?w q = None" "w_inodes w2 = (w_inodes ?w)(q \<mapsto> b)"
    "i_nr b = int j" "i_count b = 1" "has_flag b I_FLAGS_DIRTY" "nfree (w_fs w2) = nfree (w_fs ?w)"
    using vol_create [OF v0 nf j(2), of I_DIR] by blast
  have d2: "dir_at N w2 q j []" using w2 by (simp add: dir_at_def)
  have q2: "w_inodes w2 q = Some b" "0 < nfree (w_fs w2)" using w2(6,10) free by simp_all
  obtain b' w3 where w3: "testfs_create_empty_dir (int j) q w2 = Inr (0, w3)" "dir_at N w3 q j (empty_dir j j)" "same_env w2 w3"
    "files w3 = (files w2)(j \<mapsto> (I_DIR, dir_bytes (empty_dir j j)))" "w_inodes w3 = (w_inodes w2)(q \<mapsto> b')"
    "i_nr b' = int j" "i_count b' = i_count b" "has_flag b' I_FLAGS_DIRTY" "nfree (w_fs w2) = Suc (nfree (w_fs w3))"
    using empty_dir_eq [OF d2 q2(1) j(2) q2(2)] by blast
  have q3: "w_inodes w3 q = Some b'" "i_count b' = 1" using w3(5,7) w2(8) by simp_all
  obtain w5 where "bind_r (sync_inode q w3) (testfs_put_inode q) = Inr w5" and w5: "vol_ok N w5" "files w5 = files w3"
    "same_env w3 w5" "w_inodes w5 = (w_inodes w3)(q := None)" "nfree (w_fs w5) = nfree (w_fs w3)"
    using sync_put [OF dir_fields(1) [OF w3(2)] q3(1) w3(6) q3(2) w3(8)] by blast
  then obtain w4 where w4: "sync_inode q w3 = Inr w4" "testfs_put_inode q w4 = Inr w5" by (auto elim: bind_r_InrE)
  have env: "same_env ?w w5" using w2(3) w3(3) w5(3) by (simp add: same_env_def)
  have cm: "on_fs (testfs_tx_commit TX_CREATE) w5 = Inr (tx TX_NONE w5)"
    by (rule tx_commit) (use env in \<open>simp add: same_env_def\<close>)
  let ?w6 = "tx TX_NONE w5"
  have "testfs_make_root_dir w = Inr (0, ?w6)"
    using tx_start [OF tr, of TX_CREATE] w2(1) dir_fields(8) [OF d2] w3(1) w4 cm
    by (simp add: testfs_make_root_dir_def testfs_create_file_or_dir_def ENOENT_def)
  moreover have "same_env w ?w6" using env tr by (simp add: same_env_def)
  moreover have "files ?w6 = (files w)(j \<mapsto> (I_DIR, dir_bytes (empty_dir j j)))"
    using vol_tx(2) [OF w5(1)] w5(2) w3(4) w2(4) vol_tx(2) [OF v] by simp
  moreover have "w_inodes ?w6 = w_inodes w" using w5(4) w3(5) w2(5,6) by (auto simp: fun_eq_iff)
  moreover have "nfree (w_fs w) = Suc (nfree (w_fs ?w6))" using w5(5) w3(9) w2(10) by simp
  ultimately show ?thesis using vol_tx(1) [OF w5(1)] by blast
qed

end
