(* ===== verification/FileSystem.thy ===== *)
theory FileSystem
  imports DirCmds
begin

text \<open>
  The properties of the inode cache, of the volume and of the directory commands, with their witnesses
  on a small volume: \<open>empty_world\<close> has no file, \<open>root_world\<close> is what \<open>testfs_make_root_dir\<close> makes of
  it, \<open>start_world\<close> is that volume at the prompt, with the root directory as the current directory.
\<close>

section \<open>A small volume\<close>

type_synonym ram_world = "(nat \<Rightarrow> byte list) world"

definition empty_world :: ram_world where
  "empty_world = inode_hash_init \<lparr>w_fs = fresh_fs, w_sb = 1, w_table = HashNull, w_inodes = \<lambda>_. None, w_next = 2\<rparr>"

lemma empty_world_simps [simp]:
  "w_fs empty_world = fresh_fs" "w_sb empty_world = 1" "w_inodes empty_world = (\<lambda>_. None)"
  by (simp_all add: empty_world_def inode_hash_init_def)

lemma cache_ok_empty:
  assumes "w_table w = Hash (replicate inode_hash_size [])" "w_inodes w = (\<lambda>_. None)" "0 < w_next w"
  shows "cache_ok w"
  using assms by (simp add: cache_ok_def chains_ok_def)

lemma dinode_at_zero: "seg (k mod 16 * 32) 32 (dblk s (64 + k div 16)) = replicate 32 0 \<Longrightarrow> dinode_at s k = zero_dinode"
proof -
  have "dinode_bytes zero_dinode = replicate 32 0"
    using words_bytes_zero [of 8] by (simp add: dinode_bytes_def zero_dinode_def type_code_def numeral_eq_Suc)
  then show "seg (k mod 16 * 32) 32 (dblk s (64 + k div 16)) = replicate 32 0 \<Longrightarrow> dinode_at s k = zero_dinode"
    using dinode.dec_enc [OF dinode_ok_zero] by (simp add: dinode_at_def)
qed

lemma seg_replicate: "a + n \<le> m \<Longrightarrow> seg a n (replicate m x) = replicate n x"
  by (simp add: seg_def)

text \<open>A volume with no file.\<close>

lemma vol_ok_empty:
  assumes "cache_ok w" "w_inodes w = (\<lambda>_. None)" "fs_ok N (w_fs w)" "used (w_fs w) = {}" "iused (w_fs w) = {}"
    and "synced (w_fs w)" "\<And>i. 64 \<le> i \<Longrightarrow> i < 192 \<Longrightarrow> dblk (w_fs w) i = replicate 512 0"
  shows "vol_ok N w" "files w = (\<lambda>_. None)"
proof -
  have "dinode_at (w_fs w) k = zero_dinode" if "k < NR_INODES" for k
    using assms(7) [of "64 + k div 16"] slot_bounds [OF assms(3) that] by (intro dinode_at_zero) (simp add: seg_replicate)
  then show "vol_ok N w" using assms by (simp add: vol_at_def ablocks_def)
  show "files w = (\<lambda>_. None)" using assms(5) by (simp add: files_def fun_eq_iff)
qed

lemma empty_world_ok: "vol_ok 8192 empty_world" "files empty_world = (\<lambda>_. None)"
proof -
  have c: "cache_ok empty_world" by (rule cache_ok_empty) (simp_all add: empty_world_def inode_hash_init_def)
  show "vol_ok 8192 empty_world" "files empty_world = (\<lambda>_. None)"
    using vol_ok_empty [OF c _ fresh_fs_ok [folded empty_world_simps(1)]] fresh_synced fresh_coherent
    by (simp_all add: fresh_used fresh_dblk synced_def) (simp_all add: fresh_fs_def)
qed

lemma next_free_first: "fs_ok N s \<Longrightarrow> iused s = {} \<Longrightarrow> next_free_inode s = 0"
  using next_free_inode(3) [of N s 0] lessThan_iff [of 0 "4096 :: nat"] by (metis empty_iff le_zero_eq zero_less_numeral)

definition root_world :: ram_world where
  "root_world = snd (projr (testfs_make_root_dir empty_world))"

lemma root_world_ok:
  "vol_ok 8192 root_world" "files root_world = [0 \<mapsto> (I_DIR, dir_bytes (empty_dir 0 0))]"
  "w_inodes root_world = (\<lambda>_. None)" "tx_in_progress (fs_sb (w_fs root_world)) = TX_NONE"
  "nfree (w_fs root_world) = 7679"
proof -
  have nf: "next_free_inode (w_fs empty_world) = 0" by (rule next_free_first [OF fresh_fs_ok [folded empty_world_simps(1)]]) (simp add: fresh_used)
  have tr: "tx_in_progress (fs_sb (w_fs empty_world)) = TX_NONE" by (simp add: fresh_fs_def)
  obtain w' where "testfs_make_root_dir empty_world = Inr (0, w')" "vol_ok 8192 w'" "same_env empty_world w'"
    "files w' = (files empty_world)(0 \<mapsto> (I_DIR, dir_bytes (empty_dir 0 0)))" "w_inodes w' = w_inodes empty_world"
    "nfree (w_fs w') = 7679"
    using make_root [OF empty_world_ok(1) tr nf] fresh_nfree by auto
  then show "vol_ok 8192 root_world" "files root_world = [0 \<mapsto> (I_DIR, dir_bytes (empty_dir 0 0))]"
    "w_inodes root_world = (\<lambda>_. None)" "tx_in_progress (fs_sb (w_fs root_world)) = TX_NONE"
    "nfree (w_fs root_world) = 7679"
    using tr by (simp_all add: root_world_def empty_world_ok(2) same_env_def)
qed

definition start_world :: ram_world where
  "start_world = snd (projr (testfs_get_inode (int 0) root_world))"

definition start_dir :: ptr where
  "start_dir = fst (projr (testfs_get_inode (int 0) root_world))"

definition start_ctx :: "byte list \<Rightarrow> cmd_context" where
  "start_ctx nm = \<lparr>nargs = 2, cmd = [Some [120], Some nm], cur_dir = start_dir\<rparr>"

lemma start_ctx_simps [simp]: "cur_dir (start_ctx nm) = start_dir" "arg_is (start_ctx nm) nm"
  by (simp_all add: start_ctx_def arg_is_def cmd_arg_def)

lemma start_session:
  "session 8192 (start_ctx nm) start_world 0 (empty_dir 0 0)"
  "files start_world = [0 \<mapsto> (I_DIR, dir_bytes (empty_dir 0 0))]" "iused (w_fs start_world) = {0}"
  "w_fs start_world = w_fs root_world"
proof -
  have d: "dirent_ok (new_dirent [46] 0)" "dirent_ok (new_dirent [46, 46] 0)"
    by (rule dirent_ok_new; simp add: in_int32_def)+
  have "0 \<in> iused (w_fs root_world)" using files_in [of root_world 0] root_world_ok(2) by simp
  then obtain p a w' where g: "testfs_get_inode (int 0) root_world = Inr (p, w')" "got root_world 0 p a w'" "vol_ok 8192 w'"
    "files w' = files root_world"
    using vol_get [OF root_world_ok(1)] by blast
  have eq: "start_world = w'" "start_dir = p" using g(1) by (simp_all add: start_world_def start_dir_def)
  note g' = g(2) [unfolded got_def]
  show f: "files start_world = [0 \<mapsto> (I_DIR, dir_bytes (empty_dir 0 0))]" using g(4) root_world_ok(2) eq by simp
  show "session 8192 (start_ctx nm) start_world 0 (empty_dir 0 0)"
    using g' g(3) f d root_world_ok(3,4) unfolding eq by (auto simp: session_def dir_at_def empty_dir_def has_flag_def eq)
  have "iused (w_fs start_world) = dom (files start_world)" by (auto simp: files_def split: if_splits)
  then show "iused (w_fs start_world) = {0}" using f by simp
  show "w_fs start_world = w_fs root_world" using g' eq by simp
qed

lemma next_free_second: "fs_ok N s \<Longrightarrow> iused s = {0} \<Longrightarrow> next_free_inode s = 1"
proof -
  assume ok: "fs_ok N s" and u: "iused s = {0}"
  have "(1 :: nat) \<in> {..< 4096}" "(1 :: nat) \<notin> {0}" by simp_all
  then have "iused s \<noteq> {..< 4096}" unfolding u by blast
  then have "next_free_inode s \<le> 1" "next_free_inode s \<notin> {0}"
    using next_free_inode(2) [OF ok] next_free_inode(3) [OF ok, of 1] u by auto
  then show "next_free_inode s = 1" by simp
qed

lemma start_free: "next_free_inode (w_fs start_world) = 1"
  using next_free_second vol_okD(2) [OF sessionD(6) [OF start_session(1)]] start_session(3) by blast

text \<open>The root directory after \<open>a\<close> has been created in it.\<close>

definition root_with :: "nat \<Rightarrow> dirent list" where
  "root_with j = empty_dir 0 0 @ [new_dirent [97] (int j)]"

lemma root_with: "dir_insert [97] (int j) (empty_dir 0 0) = Some (root_with j)"
  "dir_lookup (empty_dir 0 0) [97] = None" "dir_lookup (root_with j) [97] = Some (int j)"
  "length (dir_bytes (root_with j)) = 31" "length (dir_bytes (empty_dir 0 0)) = 21"
  by (simp_all add: dir_insert_def empty_dir_def root_with_def names_def live_def)

lemma start_can_create: "can_create 8192 start_world start_dir 0 (empty_dir 0 0) [97] 1 (root_with 1)"
  using sessionD(1,2) [OF start_session(1)] root_with(1) [of 1] root_with(2) start_free by (simp add: can_create_def)

lemma one_block: "0 < n \<Longrightarrow> n \<le> 512 \<Longrightarrow> nblocks n = 1"
proof -
  assume n: "0 < n" "n \<le> 512"
  define m where "m = n - 1"
  have "n = Suc m" "m < 512" using n by (simp_all add: m_def)
  then show ?thesis by (simp add: nblocks_def)
qed

lemma start_room: "room start_world (empty_dir 0 0) (root_with 1)"
  by (simp add: room_def root_with one_block needs_eq)

section \<open>Properties of the inode cache and the volume\<close>

text \<open>
  C26.  The inode cache: two gets of a number return the same in-memory inode with two references, and a
  get followed by a put leaves the cached inodes, the file system and the invariant as they were.
\<close>

theorem inode_cache_correct:
  assumes "cache_ok w" "fs_ok N (w_fs w)" "k < NR_INODES" "clean_at w k"
  shows "(\<exists>p w1 w2 a. testfs_get_inode (int k) w = Inr (p, w1) \<and> testfs_get_inode (int k) w1 = Inr (p, w2) \<and>
      cache_ok w2 \<and> w_fs w2 = w_fs w \<and> w_inodes w1 p = Some a \<and> i_nr a = int k \<and>
      w_inodes w2 = (w_inodes w1)(p \<mapsto> a\<lparr>i_count := i_count a + 1\<rparr>)) \<and>
    (\<exists>p w1 w2. testfs_get_inode (int k) w = Inr (p, w1) \<and> testfs_put_inode p w1 = Inr w2 \<and>
      cache_ok w2 \<and> w_fs w2 = w_fs w \<and> w_inodes w2 = w_inodes w)"
proof -
  have inv: "cache_ok w \<and> fs_ok N (w_fs w)" using assms(1,2) by simp
  have "ic.clean k w" using assms(4) by (simp add: ic.clean_def clean_at_def)
  then show ?thesis using ic.get_get [OF inv assms(3)] ic.get_put [OF inv assms(3)] by fastforce
qed

theorem inode_cache_correct_witness:
  "\<exists>p w1 w2. testfs_get_inode (int 7) empty_world = Inr (p, w1) \<and> testfs_put_inode p w1 = Inr w2 \<and>
     w_inodes w2 = (\<lambda>_. None)"
  using inode_cache_correct [OF vol_okD(1,2) [OF empty_world_ok(1)], of 7] by (auto simp: clean_at_def)

text \<open>
  C15.  The operations on the data of one inode refine updates of the map from inode numbers to files: a
  write overwrites the bytes of the file with this number and no other, a truncation takes its prefix, and
  storing the inode on the disk changes no file but makes the slot current.  The invariant of the volume
  is kept: well-formed inodes, right checksums, no shared and no leaked block.
\<close>

theorem inode_data_refines:
  assumes "vol_ok N w" "w_inodes w p = Some a" "i_nr a = int k" "files w k = Some (t, c)"
    and "0 < sz" "sz \<le> length buf" "st \<le> length c" "st + sz \<le> 132 * 512"
    and "needs (nblocks (length c)) (nblocks (st + sz)) \<le> nfree (w_fs w)"
  shows "(\<exists>w1 w2. write_data p (int st) buf (int sz) w = Inr (0, w1) \<and> vol_ok N w1 \<and>
      files w1 = (files w)(k \<mapsto> (t, overwrite st (take sz buf) c)) \<and>
      sync_inode p w1 = Inr w2 \<and> vol_ok N w2 \<and> files w2 = files w1 \<and> dinode_at (w_fs w2) k = cur w2 k) \<and>
    (\<exists>w1. truncate_data p (int n) w = Inr w1 \<and> vol_ok N w1 \<and> files w1 = (files w)(k \<mapsto> (t, take n c)))"
proof -
  obtain a1 w1 where w1: "write_data p (int st) buf (int sz) w = Inr (0, w1)" "vol_ok N w1"
    "files w1 = (files w)(k \<mapsto> (t, overwrite st (take sz buf) c))" "w_inodes w1 = (w_inodes w)(p \<mapsto> a1)" "i_nr a1 = i_nr a"
    "has_flag a1 I_FLAGS_DIRTY"
    using vol_write [OF assms] by blast
  have p1: "w_inodes w1 p = Some a1" "i_nr a1 = int k" using w1(4,5) assms(3) by simp_all
  obtain w2 a2 where w2: "sync_inode p w1 = Inr w2" "vol_ok N w2" "files w2 = files w1"
    "w_inodes w2 = (w_inodes w1)(p \<mapsto> a2)" "i_nr a2 = i_nr a1" "\<not> has_flag a2 I_FLAGS_DIRTY"
    using sync_one [OF w1(2) p1 w1(6)] by blast
  have p2: "w_inodes w2 p = Some a2" "i_nr a2 = int k" using w2(4,5) p1(2) by simp_all
  have "dinode_at (w_fs w2) k = cur w2 k"
    using vol_okD(4) [OF w2(2) p2(1)] cur_cached [OF vol_okD(1) [OF w2(2)] p2] p2(2) w2(6) by (simp add: cached_ok_def)
  then show ?thesis using w1(1-3) w2(1-3) vol_truncate [OF assms(1-4), of n] by blast
qed

lemma start_cached:
  "\<exists>a. w_inodes start_world start_dir = Some a \<and> i_nr a = int 0" "vol_ok 8192 start_world"
  "files start_world 0 = Some (I_DIR, dir_bytes (empty_dir 0 0))"
  using dir_fields(1-3) [OF sessionD(1) [OF start_session(1)]] by simp_all

theorem inode_data_refines_witness:
  "\<exists>w1 w2. write_data start_dir (int 3) [1, 2] (int 2) start_world = Inr (0, w1) \<and>
     sync_inode start_dir w1 = Inr w2 \<and>
     files w2 0 = Some (I_DIR, overwrite 3 [1, 2] (dir_bytes (empty_dir 0 0)))"
proof -
  obtain a where a: "w_inodes start_world start_dir = Some a" "i_nr a = int 0" using start_cached(1) by blast
  show ?thesis
    using inode_data_refines [OF start_cached(2) a start_cached(3), of 2 "[1, 2]" 3 0]
    by (auto simp: root_with one_block needs_0)
qed

text \<open>
  \<open>testfs_create_inode\<close> adds an empty file under the lowest free inode number, in a new in-memory
  inode; \<open>testfs_remove_inode\<close> takes it away again, from the cache, the slot and the freemap, which restores the
  volume.
\<close>

theorem create_remove_inode:
  assumes "vol_ok N w" "next_free_inode (w_fs w) = k" "k < NR_INODES" "t = I_FILE \<or> t = I_DIR"
  shows "\<exists>p w1 w2. testfs_create_inode t w = Inr (0, p, w1) \<and> vol_ok N w1 \<and> files w k = None \<and>
    files w1 = (files w)(k \<mapsto> (t, [])) \<and> w_inodes w p = None \<and>
    testfs_remove_inode p w1 = Inr w2 \<and> vol_ok N w2 \<and> files w2 = files w \<and> w_inodes w2 = w_inodes w \<and>
    iused (w_fs w2) = iused (w_fs w)"
proof -
  obtain p a w1 where c: "testfs_create_inode t w = Inr (0, p, w1)" "vol_ok N w1" "files w1 = (files w)(k \<mapsto> (t, []))"
    "k \<notin> iused (w_fs w)" "w_inodes w p = None" "w_inodes w1 = (w_inodes w)(p \<mapsto> a)" "i_nr a = int k" "i_count a = 1"
    "iused (w_fs w1) = insert k (iused (w_fs w))"
    using vol_create [OF assms] by blast
  have p: "w_inodes w1 p = Some a" using c(6) by simp
  obtain w2 where "testfs_remove_inode p w1 = Inr w2" "vol_ok N w2" "files w2 = (files w1)(k := None)"
    "w_inodes w2 = (w_inodes w1)(p := None)" "iused (w_fs w2) = iused (w_fs w1) - {k}"
    using vol_remove [OF c(2) p c(7,8)] by blast
  moreover have "files w k = None" using c(4) by (simp add: files_def)
  ultimately show ?thesis using c by (intro exI [of _ p] exI [of _ w1] exI [of _ w2]) (simp add: fun_upd_idem)
qed

theorem create_remove_inode_witness:
  "\<exists>p w1 w2. testfs_create_inode I_FILE start_world = Inr (0, p, w1) \<and> files w1 1 = Some (I_FILE, []) \<and>
     testfs_remove_inode p w1 = Inr w2 \<and> files w2 = [0 \<mapsto> (I_DIR, dir_bytes (empty_dir 0 0))]"
  using create_remove_inode [OF start_cached(2) start_free, of I_FILE] start_session(2) by auto

section \<open>Properties of directories\<close>

text \<open>
  C17.  A directory refines a finite map from names to inode numbers: a lookup reads the map,
  \<open>testfs_add_dirent\<close> of a new name updates it (in a removed entry of the same length or at the end),
  \<open>testfs_remove_dirent\<close> of a file deletes the name, and no name occurs twice.
\<close>

theorem dir_ops_refine:
  assumes "dir_at N w p k es" "distinct_names es" "0 \<notin> set nm" "dir_lookup es nm = None"
    and "dir_insert nm (int j) es = Some es'" "room w es es'" "j \<noteq> k" "files w j = Some (I_FILE, x)" "clean_at w j"
    and "nm \<noteq> [46]" "nm \<noteq> [46, 46]"
  shows "\<exists>w1 w2. testfs_dir_name_to_inode_nr p (Some nm) w = Inr (- ENOENT) \<and>
    testfs_add_dirent p (Some nm) (int j) w = Inr (0, w1) \<and> dir_at N w1 p k es' \<and> distinct_names es' \<and>
    dir_lookup es' = (dir_lookup es)(nm \<mapsto> int j) \<and>
    testfs_dir_name_to_inode_nr p (Some nm) w1 = Inr (int j) \<and>
    testfs_remove_dirent p (Some nm) w1 = Inr (int j, w2) \<and> dir_at N w2 p k (dir_remove nm es') \<and>
    dir_lookup (dir_remove nm es') = dir_lookup es \<and> distinct_names (dir_remove nm es')"
proof -
  have jb: "j < NR_INODES" using vol_okD(3) [OF dir_fields(1) [OF assms(1)] files_in [OF assms(8)]] .
  obtain a where a: "w_inodes w p = Some a" "i_nr a = int k" using dir_fields(2) [OF assms(1)] by blast
  obtain a1 w1 where w1: "testfs_add_dirent p (Some nm) (int j) w = Inr (0, w1)" "dir_at N w1 p k es'"
    "files w1 = (files w)(k \<mapsto> (I_DIR, dir_bytes es'))" "w_inodes w1 = (w_inodes w)(p \<mapsto> a1)" "i_nr a1 = int k"
    using add_dirent_new [OF assms(1,3,5) jb assms(6) a(1)] by blast
  have il: "dir_lookup es' = (dir_lookup es)(nm \<mapsto> int j)" "distinct_names es'"
    using dir_insert_lookup [OF assms(5,4)] assms(2) by simp_all
  have l: "dir_lookup es' nm = Some (int j)" using il(1) by simp
  have "clean_at w1 j" using assms(7,9) w1(4,5) by (auto simp: clean_at_def)
  moreover have "files w1 j = Some (I_FILE, x)" "w_inodes w1 p = Some a1" using w1(3,4) assms(7,8) by simp_all
  ultimately obtain w2 where w2: "testfs_remove_dirent p (Some nm) w1 = Inr (int j, w2)" "dir_at N w2 p k (dir_remove nm es')"
    using remove_dirent_eq(2) [OF w1(2) assms(3,10,11) l, of I_FILE x "[]" a1] by auto
  have "(dir_lookup es)(nm \<mapsto> int j, nm := None) = dir_lookup es" using assms(4) by (simp add: fun_upd_idem)
  then show ?thesis
    using name_to_nr [OF assms(1,3)] name_to_nr [OF w1(2) assms(3)] assms(4) l il w1(1,2) w2 dir_remove_lookup [OF il(2), of nm]
    by simp
qed

text \<open>The volume with a file in the root directory.\<close>

lemma start_create:
  "\<exists>w. cmd_create (start_ctx [97]) start_world = Inr (0, start_ctx [97], w) \<and>
     session 8192 (start_ctx [97]) w 0 (root_with 1) \<and> files w 1 = Some (I_FILE, [])"
  using cmd_create_eq [OF start_session(1) start_ctx_simps(2), of "[97]" 1 "root_with 1"] start_can_create start_room by auto

theorem dir_ops_refine_witness:
  "\<exists>(w :: ram_world) w1 w2. testfs_add_dirent start_dir (Some [98]) (int 1) w = Inr (0, w1) \<and>
     testfs_dir_name_to_inode_nr start_dir (Some [98]) w1 = Inr (int 1) \<and>
     testfs_remove_dirent start_dir (Some [98]) w1 = Inr (int 1, w2)"
proof -
  obtain w :: ram_world where w: "session 8192 (start_ctx [97]) w 0 (root_with 1)" "files w 1 = Some (I_FILE, [])"
    using start_create by blast
  let ?es = "root_with 1 @ [new_dirent [98] (int 1)]"
  have "distinct_names (root_with 1)" "dir_lookup (root_with 1) [98] = None"
    "dir_insert [98] (int 1) (root_with 1) = Some ?es"
    by (simp_all add: distinct_names_def root_with_def empty_dir_def live_def names_def dir_insert_def)
  moreover have "room w (root_with 1) ?es" by (simp add: room_def root_with one_block needs_0)
  ultimately show ?thesis
    using dir_ops_refine [OF sessionD(1) [OF w(1)], of "[98]" 1 ?es "[]"] w(2) sessionD(4) [OF w(1)] by auto
qed

text \<open>
  C3.  \<open>cmd_create\<close> of a name that is not in the current directory adds one entry for it and one empty
  file under the lowest free inode number; every other file and the other entries are untouched, the volume
  stays well formed, and the prompt state is restored.
\<close>

theorem create_correct:
  assumes "session N c w k es" "arg_is c nm" "can_create N w (cur_dir c) k es nm j es'" "room w es es'"
  shows "\<exists>w'. cmd_create c w = Inr (0, c, w') \<and> session N c w' k es' \<and> same_env w w' \<and> files w j = None \<and>
    files w' = (files w)(k \<mapsto> (I_DIR, dir_bytes es'), j \<mapsto> (I_FILE, [])) \<and>
    dir_lookup es' = (dir_lookup es)(nm \<mapsto> int j)"
  using cmd_create_eq [OF assms] assms(3) dir_insert_lookup(1) [of nm "int j" es es'] by (auto simp: can_create_def)

theorem create_correct_witness:
  "\<exists>w'. cmd_create (start_ctx [97]) start_world = Inr (0, start_ctx [97], w') \<and>
     files w' 1 = Some (I_FILE, []) \<and> files w' 0 = Some (I_DIR, dir_bytes (root_with 1))"
  using create_correct [OF start_session(1) start_ctx_simps(2), of "[97]" 1 "root_with 1"] start_can_create start_room by auto

text \<open>
  C16.  \<open>cmd_mkdir\<close> adds an entry and a new directory that holds exactly \<open>.\<close>, its own number, and \<open>..\<close>, the
  number of the directory it is in.
\<close>

theorem mkdir_correct:
  assumes "session N c w k es" "arg_is c nm" "can_create N w (cur_dir c) k es nm j es'" "room_for_dir w es es'"
  shows "\<exists>w'. cmd_mkdir c w = Inr (0, c, w') \<and> session N c w' k es' \<and> same_env w w' \<and> files w j = None \<and>
    files w' = (files w)(k \<mapsto> (I_DIR, dir_bytes es'), j \<mapsto> (I_DIR, dir_bytes (empty_dir j k))) \<and>
    dir_lookup es' = (dir_lookup es)(nm \<mapsto> int j) \<and>
    dir_lookup (empty_dir j k) = [[46] \<mapsto> int j, [46, 46] \<mapsto> int k]"
  using cmd_mkdir_eq [OF assms] assms(3) dir_insert_lookup(1) [of nm "int j" es es']
  by (auto simp: can_create_def empty_dir_def names_def live_def fun_eq_iff)

lemma start_room_dir: "room_for_dir start_world (empty_dir 0 0) (root_with 1)"
  by (simp add: room_for_dir_def root_with one_block needs_0 start_session(4) root_world_ok(5))

theorem mkdir_correct_witness:
  "\<exists>w'. cmd_mkdir (start_ctx [97]) start_world = Inr (0, start_ctx [97], w') \<and>
     files w' 1 = Some (I_DIR, dir_bytes (empty_dir 1 0))"
  using mkdir_correct [OF start_session(1) start_ctx_simps(2), of "[97]" 1 "root_with 1"] start_can_create start_room_dir
  by auto

text \<open>
  C4.  \<open>cmd_rm\<close> of a file, or of a directory with no entry but \<open>.\<close> and \<open>..\<close>, deletes the name from the current
  directory and the file from the volume, frees its blocks and its number, and touches nothing else.
\<close>

theorem rm_correct:
  assumes "session N c w k es" "arg_is c nm" "0 \<notin> set nm" "nm \<noteq> [46]" "nm \<noteq> [46, 46]" "distinct_names es"
    and "dir_lookup es nm = Some (int j)" "j \<noteq> k" "files w j = Some (t, x)"
    and "t = I_DIR \<Longrightarrow> x = dir_bytes cs \<and> list_all dirent_ok cs \<and> list_all dead_entry cs"
  shows "\<exists>w'. cmd_rm c w = Inr (0, c, w') \<and> session N c w' k (dir_remove nm es) \<and> same_env w w' \<and>
    files w' = (files w)(k \<mapsto> (I_DIR, dir_bytes (dir_remove nm es)), j := None) \<and>
    dir_lookup (dir_remove nm es) = (dir_lookup es)(nm := None)"
  using cmd_rm_eq [OF assms(1-5,7-10)] dir_remove_lookup(1) [OF assms(6)] by blast

theorem rm_correct_witness:
  "\<exists>w w'. cmd_create (start_ctx [97]) start_world = Inr (0, start_ctx [97], w) \<and> files w 1 = Some (I_FILE, []) \<and>
     cmd_rm (start_ctx [97]) w = Inr (0, start_ctx [97], w') \<and> files w' 1 = None"
proof -
  obtain w :: ram_world where w: "cmd_create (start_ctx [97]) start_world = Inr (0, start_ctx [97], w)"
    "session 8192 (start_ctx [97]) w 0 (root_with 1)" "files w 1 = Some (I_FILE, [])"
    using start_create by blast
  have "distinct_names (root_with 1)" by (simp add: distinct_names_def root_with_def empty_dir_def live_def)
  then show ?thesis
    using w rm_correct [OF w(2) start_ctx_simps(2), of 1 I_FILE "[]" "[]"] root_with(3) [of 1] by auto
qed

text \<open>
  C24.  What the commands refuse changes no file: creating a name that is there (EEXIST), removing \<open>.\<close> or \<open>..\<close>
  (EINVAL), a name that is not there (ENOENT) or a directory that is not empty (ENOTEMPTY).
\<close>

theorem refused_commands:
  assumes "session N c w k es" "arg_is c nm" "0 \<notin> set nm"
  shows "(dir_lookup es nm \<noteq> None \<longrightarrow>
      cmd_create c w = Inr (- EEXIST, c, w) \<and> cmd_mkdir c w = Inr (- EEXIST, c, w)) \<and>
    (nm = [46] \<or> nm = [46, 46] \<longrightarrow>
      (\<exists>w'. cmd_rm c w = Inr (- EINVAL, c, w') \<and> session N c w' k es \<and> files w' = files w)) \<and>
    (nm \<noteq> [46] \<and> nm \<noteq> [46, 46] \<and> dir_lookup es nm = None \<longrightarrow>
      (\<exists>w'. cmd_rm c w = Inr (- ENOENT, c, w') \<and> session N c w' k es \<and> files w' = files w)) \<and>
    (nm \<noteq> [46] \<and> nm \<noteq> [46, 46] \<and> dir_lookup es nm = Some (int j) \<and> files w j = Some (I_DIR, dir_bytes cs) \<and>
      list_all dirent_ok cs \<and> \<not> list_all dead_entry cs \<longrightarrow>
      (\<exists>w'. cmd_rm c w = Inr (- ENOTEMPTY, c, w') \<and> session N c w' k es \<and> files w' = files w))"
proof -
  have ex: "cmd_create c w = Inr (- EEXIST, c, w) \<and> cmd_mkdir c w = Inr (- EEXIST, c, w)" if "dir_lookup es nm \<noteq> None"
    using create_exists [OF sessionD(1) [OF assms(1)] assms(3) that] assms(2)
    by (simp add: cmd_create_def cmd_mkdir_def arg_is_def upto_rec1 EEXIST_def)
  let ?w = "tx TX_NONE (tx TX_RM w)"
  have same: "session N c ?w k es" "files ?w = files w"
  proof -
    have "?w = w" using sessionD(2) [OF assms(1)] by (simp add: tx_def tx_out_def set_fs_def)
    then show "session N c ?w k es" "files ?w = files w" using assms(1) by simp_all
  qed
  show ?thesis
    using ex same cmd_rm_refused [OF assms(1,2)] assms(3) by blast
qed

theorem refused_commands_witness:
  "cmd_create (start_ctx [46]) start_world = Inr (- EEXIST, start_ctx [46], start_world) \<and>
   (\<exists>w'. cmd_rm (start_ctx [46]) start_world = Inr (- EINVAL, start_ctx [46], w') \<and> files w' = files start_world)"
proof -
  have "dir_lookup (empty_dir 0 0) [46] \<noteq> None" by (simp add: empty_dir_def names_def live_def)
  then show ?thesis using refused_commands [OF start_session(1) start_ctx_simps(2), of "[46]"] by auto
qed

text \<open>
  C38.  A full inode table is not an error but an abort: the inode freemap has 4096 bits for 2048 slots, so
  creating the 2049th inode succeeds in the freemap and fails the assert in \<open>testfs_inode_to_block_nr\<close>.
\<close>

theorem full_inode_table_aborts:
  assumes "session N c w k es" "arg_is c nm" "0 \<notin> set nm" "dir_lookup es nm = None"
    and "iused (w_fs w) = {..< NR_INODES}"
  shows "cmd_create c w = Inl AssertFail \<and> cmd_mkdir c w = Inl AssertFail"
  using create_no_slot [OF sessionD(1) [OF assms(1)] assms(3,4) sessionD(2) [OF assms(1)] assms(5)] assms(2)
  by (simp add: cmd_create_def cmd_mkdir_def arg_is_def upto_rec1)

text \<open>A volume with all inode numbers taken.\<close>

lemma full_volume:
  assumes "0 < n" "n \<le> NR_INODES"
  shows "\<exists>w :: ram_world. session 8192 (start_ctx nm) w 0 (empty_dir 0 0) \<and> iused (w_fs w) = {..< n}"
  using assms
proof (induction n)
  case (Suc n)
  show ?case
  proof (cases "n = 0")
    case True
    then show ?thesis using start_session(1) [of nm] start_session(3) by (intro exI [of _ start_world]) auto
  next
    case False
    then obtain w :: ram_world where w: "session 8192 (start_ctx nm) w 0 (empty_dir 0 0)" "iused (w_fs w) = {..< n}"
      using Suc by auto
    note v = sessionD(6) [OF w(1)]
    have n: "n < NR_INODES" "n \<notin> iused (w_fs w)" using Suc.prems w(2) by simp_all
    let ?w = "set_fs (set_imap n True (w_fs w)) w"
    note va = vol_alloc(1,2) [OF v n]
    have "session 8192 (start_ctx nm) ?w 0 (empty_dir 0 0)"
      using w(1) va False by (simp add: session_def dir_at_def)
    moreover have "iused (w_fs ?w) = {..< Suc n}"
      using iused_set_imap [OF vol_okD(2) [OF v], of n True] n(1) w(2) by (simp add: lessThan_Suc)
    ultimately show ?thesis by blast
  qed
qed simp

theorem full_inode_table_aborts_witness:
  "\<exists>w :: ram_world. cmd_create (start_ctx [97]) w = Inl AssertFail"
proof -
  obtain w :: ram_world where "session 8192 (start_ctx [97]) w 0 (empty_dir 0 0)" "iused (w_fs w) = {..< NR_INODES}"
    using full_volume [of NR_INODES "[97]"] by auto
  then show ?thesis using full_inode_table_aborts [of 8192 "start_ctx [97]" w 0 "empty_dir 0 0" "[97]"] root_with(2) by auto
qed

text \<open>
  C27.  Listing terminates and prints one line for each live entry, in order; the recursive listing descends
  into every directory but \<open>.\<close> and \<open>..\<close>.  Fuel for the deepest chain of rounds and calls (\<open>n\<close>) is enough, and
  only the output changes.
\<close>

theorem ls_correct:
  assumes "session N c w k es" "ls_arg c nm" "0 \<notin> set nm" "dir_lookup es nm = Some (int j)"
    and "files w j = Some (I_DIR, dir_bytes cs)" "list_all dirent_ok cs"
    and "listing False (files w) cs ms n" "listing True (files w) cs ms' n'" "n \<le> fuel" "n' \<le> fuel"
  shows "(\<exists>w'. cmd_ls fuel c w = Inr (0, c, w') \<and> session N c w' k es \<and> printed ms N w w') \<and>
    (\<exists>w'. cmd_lsr fuel c w = Inr (0, c, w') \<and> session N c w' k es \<and> printed ms' N w w')"
  using ls_command_eq [OF assms(1-7,9)] ls_command_eq [OF assms(1-6,8,10)] by (simp add: cmd_ls_def cmd_lsr_def)

lemma list_all_empty_dir: "j < NR_INODES \<Longrightarrow> k < NR_INODES \<Longrightarrow> list_all dirent_ok (empty_dir j k)"
  unfolding empty_dir_def list.pred_inject by (intro conjI dirent_ok_new TrueI) (simp_all add: in_int32_def)

lemma listing_empty_dir:
  assumes "F j = Some (I_DIR, x)" "F k = Some (I_DIR, y)"
  shows "listing r F (empty_dir j k) [LsEntry [46] True, LsEntry [46, 46] True] 3"
proof -
  note nil = listing.nil [of r F]
  have d2: "d_inode_nr (new_dirent [46, 46] (int k)) = int k" "dead_entry (new_dirent [46, 46] (int k))"
    and d1: "d_inode_nr (new_dirent [46] (int j)) = int j" "dead_entry (new_dirent [46] (int j))"
    by (simp_all add: dead_entry_def)
  show ?thesis
    using listing.leaf [OF d1(1) assms(1) disjI2 [OF disjI2 [OF d1(2)]] listing.leaf [OF d2(1) assms(2) disjI2 [OF disjI2 [OF d2(2)]] nil]]
    by (simp add: empty_dir_def numeral_eq_Suc)
qed

theorem ls_correct_witness:
  "\<exists>w'. cmd_lsr 3 (start_ctx [46]) start_world = Inr (0, start_ctx [46], w') \<and>
     fs_out (w_fs w') = fs_out (w_fs start_world) @ [LsEntry [46] True, LsEntry [46, 46] True]"
proof -
  have f: "files start_world 0 = Some (I_DIR, dir_bytes (empty_dir 0 0))" using start_session(2) by simp
  have ls: "listing r (files start_world) (empty_dir 0 0) [LsEntry [46] True, LsEntry [46, 46] True] 3" for r
    by (rule listing_empty_dir; rule f)
  have a: "ls_arg (start_ctx [46]) [46]" by (simp add: ls_arg_def)
  have l: "dir_lookup (empty_dir 0 0) [46] = Some (int 0)" by (simp add: empty_dir_def names_def live_def)
  show ?thesis
    using ls_correct [OF start_session(1) a _ l f list_all_empty_dir ls [of False] ls [of True], of 3]
    by (auto simp: printed_def)
qed

text \<open>
  C28.  \<open>cmd_pwd\<close> terminates on every directory from which \<open>..\<close> leads to the root, with fuel for one call more
  than there are steps, and prints the names along the way from the root.
\<close>

theorem pwd_correct:
  assumes "session N c w k es" "nargs c = 1" "path_to (files w) k es ns" "length ns < fuel"
  shows "\<exists>w'. cmd_pwd fuel c w = Inr (0, c, w') \<and> session N c w' k es \<and> printed (pwd_out ns @ [PwdEnd]) N w w'"
  by (rule cmd_pwd_eq [OF assms])

text \<open>
  C29.  \<open>cmd_cd\<close> to a directory makes it the current directory with exactly one reference, drops the
  reference to the old one, and changes no file.
\<close>

theorem cd_correct:
  assumes "session N c w k es" "arg_is c nm" "0 \<notin> set nm"
    and "nm = [47] \<and> j = 0 \<or> nm \<noteq> [47] \<and> dir_lookup es nm = Some (int j)"
    and "files w j = Some (I_DIR, dir_bytes cs)" "list_all dirent_ok cs"
  shows "\<exists>w' q. cmd_cd c w = Inr (0, c\<lparr>cur_dir := q\<rparr>, w') \<and> session N (c\<lparr>cur_dir := q\<rparr>) w' j cs \<and>
    files w' = files w \<and> same_env w w'"
  by (rule cmd_cd_eq [OF assms])

text \<open>The volume with the directory \<open>a\<close>, and \<open>a\<close> as the current directory.\<close>

lemma start_mkdir:
  "\<exists>w. cmd_mkdir (start_ctx [97]) start_world = Inr (0, start_ctx [97], w) \<and>
     session 8192 (start_ctx [97]) w 0 (root_with 1) \<and>
     files w = [0 \<mapsto> (I_DIR, dir_bytes (root_with 1)), 1 \<mapsto> (I_DIR, dir_bytes (empty_dir 1 0))]"
  using cmd_mkdir_eq [OF start_session(1) start_ctx_simps(2), of "[97]" 1 "root_with 1"] start_can_create start_room_dir
    start_session(2) by auto

lemma cd_start:
  assumes "session 8192 (start_ctx [97]) w 0 (root_with 1)"
    and "files w = [0 \<mapsto> (I_DIR, dir_bytes (root_with 1)), 1 \<mapsto> (I_DIR, dir_bytes (empty_dir 1 0))]"
  shows "[97] = [47] \<and> (1 :: nat) = 0 \<or> [97] \<noteq> [47 :: byte] \<and> dir_lookup (root_with 1) [97] = Some (int 1)"
    "files w 1 = Some (I_DIR, dir_bytes (empty_dir 1 0))" "list_all dirent_ok (empty_dir 1 0)" "0 \<notin> set [97 :: byte]"
  using root_with(3) [of 1] assms(2) list_all_empty_dir [of 1 0] by simp_all

theorem cd_correct_witness:
  "\<exists>w w' q. cmd_mkdir (start_ctx [97]) start_world = Inr (0, start_ctx [97], w) \<and>
     cmd_cd (start_ctx [97]) w = Inr (0, (start_ctx [97])\<lparr>cur_dir := q\<rparr>, w') \<and> files w' = files w"
proof -
  obtain w :: ram_world where w: "cmd_mkdir (start_ctx [97]) start_world = Inr (0, start_ctx [97], w)"
    "session 8192 (start_ctx [97]) w 0 (root_with 1)"
    "files w = [0 \<mapsto> (I_DIR, dir_bytes (root_with 1)), 1 \<mapsto> (I_DIR, dir_bytes (empty_dir 1 0))]"
    using start_mkdir by blast
  note h = cd_start [OF w(2,3)]
  show ?thesis using w(1) cd_correct [OF w(2) start_ctx_simps(2) h(4,1-3)] by blast
qed

theorem pwd_correct_witness:
  "\<exists>(w :: ram_world) w' c. cmd_pwd 2 c w = Inr (0, c, w') \<and>
     fs_out (w_fs w') = fs_out (w_fs w) @ [PwdRoot, PwdEntry False [97], PwdEnd]"
proof -
  obtain w :: ram_world where w: "session 8192 (start_ctx [97]) w 0 (root_with 1)"
    "files w = [0 \<mapsto> (I_DIR, dir_bytes (root_with 1)), 1 \<mapsto> (I_DIR, dir_bytes (empty_dir 1 0))]"
    using start_mkdir by blast
  note h = cd_start [OF w]
  obtain w' :: ram_world and q where w': "session 8192 ((start_ctx [97])\<lparr>cur_dir := q\<rparr>) w' 1 (empty_dir 1 0)" "files w' = files w"
    using cmd_cd_eq [OF w(1) start_ctx_simps(2) h(4,1-3)] by blast
  let ?c = "(start_ctx [97])\<lparr>cur_dir := q, nargs := 1\<rparr>"
  have s: "session 8192 ?c w' 1 (empty_dir 1 0)" using w'(1) by (simp add: session_def)
  have "path_to (files w') 0 (root_with 1) []"
    by (rule path_to.root) (simp add: root_with_def empty_dir_def names_def live_def)
  moreover have "dir_lookup (empty_dir 1 0) [46, 46] = Some (int 0)" by (simp add: empty_dir_def names_def live_def)
  moreover have "find (\<lambda>d. d_inode_nr d = int 1) (root_with 1) = Some (new_dirent [97] (int 1))"
    by (simp add: root_with_def empty_dir_def)
  moreover have "list_all dirent_ok (root_with 1)" using dir_fields(4) [OF sessionD(1) [OF w(1)]] .
  ultimately have "path_to (files w') 1 (empty_dir 1 0) ([] @ [dname (new_dirent [97] (int 1))])"
    using w(2) w'(2) by (intro path_to.up [of _ 0 _ _ "root_with 1"]) simp_all
  then have p: "path_to (files w') 1 (empty_dir 1 0) [[97]]" by simp
  show ?thesis
    using pwd_correct [OF s _ p, of 2] by (auto simp: printed_def pwd_out_def)
qed

end
