(* ===== verification/ShellOk.thy ===== *)
theory ShellOk
  imports Shell FileSystem
begin

text \<open>
  What the tokeniser of command lines hands to a command (\<open>args_ok\<close>), and which commands run.
\<close>

section \<open>Tokens\<close>

definition token_ok :: "byte list \<Rightarrow> bool" where
  "token_ok t \<longleftrightarrow> t \<noteq> [] \<and> 10 \<notin> set t"

lemma strtok_token:
  assumes "strtok s delims saved = (Some t, rest)" "10 \<in> set delims"
  shows "token_ok t"
proof -
  let ?r = "dropWhile (\<lambda>b. b \<in> set delims) (case s of None \<Rightarrow> saved | Some s \<Rightarrow> s)"
  have r: "?r \<noteq> []" and t: "t = takeWhile (\<lambda>b. b \<notin> set delims) ?r"
    using assms(1) by (auto simp: strtok_def Let_def split: if_splits)
  have "hd ?r \<notin> set delims" using hd_dropWhile [OF r] .
  then have "t \<noteq> []" using r t by (cases ?r) auto
  moreover have "10 \<notin> set t" using assms(2) t by (auto dest: set_takeWhileD)
  ultimately show ?thesis by (simp add: token_ok_def)
qed

text \<open>The arguments a command may look at: those below \<open>nargs\<close>.\<close>

definition argv_ok :: "nat \<Rightarrow> cstr list \<Rightarrow> bool" where
  "argv_ok j argv \<longleftrightarrow> length argv = Suc MAX_ARGS \<and> j \<le> Suc MAX_ARGS \<and>
     (\<forall>i < j. \<exists>t. argv ! i = Some t \<and> token_ok t)"

definition args_ok :: "cmd_context \<Rightarrow> bool" where
  "args_ok c \<longleftrightarrow> 1 \<le> nargs c \<and> nargs c \<le> int (Suc MAX_ARGS) \<and> argv_ok (nat (nargs c)) (cmd c)"

lemma split_args_ok:
  assumes "argv_ok j argv" "j \<le> MAX_ARGS" "max_args \<le> MAX_ARGS"
  shows "\<exists>j' token' saved' argv'. split_args max_args j token saved argv = Inr (j', token', saved', argv') \<and>
    argv_ok j' argv' \<and> j \<le> j' \<and> j' \<le> max j max_args \<and> (0 < j \<longrightarrow> argv' ! 0 = argv ! 0)"
  using assms
proof (induction max_args j token saved argv rule: split_args.induct)
  case (1 max_args j token saved argv)
  show ?case
  proof (cases "j < max_args")
    case True
    obtain t saved' where st: "strtok token blanks saved = (t, saved')" by (cases "strtok token blanks saved")
    have nth: "nth_r argv (int j) = Inr (argv ! j)" using 1(2,3) by (simp add: argv_ok_def)
    show ?thesis
    proof (cases t)
      case None
      then have "split_args max_args j token saved argv = Inr (j, token, saved', argv[j := None])"
        using True st nth by (subst split_args.simps) simp
      moreover have "argv_ok j (argv[j := None])" using 1(2) by (simp add: argv_ok_def)
      ultimately show ?thesis using True by auto
    next
      case (Some u)
      have "token_ok u" using strtok_token [of token blanks saved u saved'] st Some by (simp add: blanks_def)
      then have ok: "argv_ok (Suc j) (argv[j := t])"
        using 1(2,3) Some by (auto simp: argv_ok_def nth_list_update less_Suc_eq)
      have eq: "split_args max_args j token saved argv = split_args max_args (Suc j) None saved' (argv[j := t])"
        using True st nth Some by (subst split_args.simps) simp
      have "Suc j \<le> MAX_ARGS" using True 1(4) by simp
      then show ?thesis
        unfolding eq using 1(1) [OF True st [symmetric] nth] Some ok 1(4) True by fastforce
    qed
  next
    case False
    then show ?thesis using 1(2) by (subst split_args.simps) auto
  qed
qed

lemma parse_args_ok:
  assumes "argv_ok 1 (cmd c)" "1 \<le> max_args" "max_args \<le> MAX_ARGS"
  shows "\<exists>c'. parse_args max_args args saved c = Inr c' \<and> args_ok c' \<and> cur_dir c' = cur_dir c \<and>
    cmd c' ! 0 = cmd c ! 0 \<and> nargs c' \<le> int (Suc max_args)"
proof -
  obtain j token saved' argv where sp: "split_args max_args 1 args saved (cmd c) = Inr (j, token, saved', argv)"
    "argv_ok j argv" "1 \<le> j" "j \<le> max_args" "argv ! 0 = cmd c ! 0"
    using split_args_ok [OF assms(1) _ assms(3), of args saved] assms(2) by auto
  obtain t rest where st: "strtok token newline saved' = (t, rest)" by (cases "strtok token newline saved'")
  have l: "length argv = 6" "j \<le> 5" using sp(2,4) assms(3) by (simp_all add: argv_ok_def)
  define j' where "j' = (if t \<noteq> None then Suc j else j)"
  let ?argv = "take (Suc j') (argv[j := t]) @ replicate (5 - j') None"
  have eq: "parse_args max_args args saved c = Inr (c\<lparr>nargs := int j', cmd := ?argv\<rparr>)"
    using sp(1) st l by (simp add: parse_args_def Let_def j'_def)
  have "argv_ok j' ?argv"
  proof (cases t)
    case None
    then show ?thesis using sp(2) l by (simp add: argv_ok_def j'_def nth_append min_def)
  next
    case (Some u)
    have "token_ok u" using strtok_token [of token newline saved' u rest] st Some by (simp add: newline_def)
    then show ?thesis using sp(2) l Some
      by (auto simp: argv_ok_def j'_def nth_append min_def nth_list_update less_Suc_eq)
  qed
  moreover have "?argv ! 0 = cmd c ! 0" "1 \<le> j'" "j' \<le> Suc max_args" "j' \<le> 6"
    using sp(3,4,5) l assms(3) by (simp_all add: nth_append j'_def)
  ultimately show ?thesis unfolding eq by (simp add: args_ok_def)
qed

section \<open>Property\<close>

text \<open>What \<open>handle_command\<close> does with the result of a command.\<close>

definition report_errno :: "(int \<times> 'd shell) \<Rightarrow> 'd shell res" where
  "report_errno r = (case r of (ret, sh) \<Rightarrow>
     if ret < 0 then bind_r (cmd_arg (sh_ctx sh) 0) (\<lambda>nm. bind_r (the_r NullDeref nm) (\<lambda>nm.
       Inr (sh\<lparr>sh_world := print (Warning nm (- ret)) (sh_world sh)\<rparr>)))
     else Inr sh)"

text \<open>A line with a known command that may run: its echo, its arguments, the command, its error.\<close>

lemma run_line_known:
  assumes "length (cmd (sh_ctx sh)) = Suc MAX_ARGS" "fs_exists (sh_ctx sh) (sh_world sh) = Inr ex"
    and "strtok (Some line) blanks [] = (Some nm, rest)" "strtok None newline rest = (args, saved)"
    and "map_of cmdtable nm = Some (command, k)" "ex \<or> nm \<in> set non_fs_commands"
    and "parse_args k args saved ((sh_ctx sh)\<lparr>cmd := (cmd (sh_ctx sh))[0 := Some nm]\<rparr>) = Inr c'"
  shows "run_line e line sh = bind_r (run_command e command
    (sh\<lparr>sh_world := print (CommandEcho line) (sh_world sh), sh_ctx := c'\<rparr>)) report_errno"
proof -
  let ?c = "(sh_ctx sh)\<lparr>cmd := (cmd (sh_ctx sh))[0 := Some nm]\<rparr>"
  have "fs_exists ?c (print (CommandEcho line) (sh_world sh)) = fs_exists (sh_ctx sh) (sh_world sh)"
    by (simp add: fs_exists_def testfs_inode_get_type_def deref_def)
  then have "fs_exists ?c (print (CommandEcho line) (sh_world sh)) = Inr ex" using assms(2) by (simp only:)
  then show ?thesis
    using assms(1,3-7) by (auto simp: run_line_def handle_command_def can_execute_command_def report_errno_def
        case_prod_unfold cong: bind_r_cong)
qed

text \<open>
  C19.  Every command runs on well-typed arguments.  For any command line, the splitting into arguments
  stays inside the array of \<open>MAX_ARGS + 1\<close> pointers, and the command sees at least its name and at most
  the number of arguments of its table entry plus one, all of them non-NULL, non-empty and without a newline; while the
  current inode is not a directory, that is before \<open>mkfs\<close>, only the five commands of \<open>non_fs_commands\<close> run and
  any other leaves the file system alone; an unknown command only prints that it is unknown.
\<close>

theorem command_line_typed:
  assumes "length (cmd (sh_ctx sh)) = Suc MAX_ARGS" "fs_exists (sh_ctx sh) (sh_world sh) = Inr ex"
    and "strtok (Some line) blanks [] = (Some nm, rest)" "strtok None newline rest = (args, saved)"
  shows "\<exists>c. cmd c = (cmd (sh_ctx sh))[0 := Some nm] \<and> cur_dir c = cur_dir (sh_ctx sh) \<and>
    (case map_of cmdtable nm of
       None \<Rightarrow> run_line e line sh =
         Inr (sh\<lparr>sh_world := print (CommandNotFound nm) (print (CommandEcho line) (sh_world sh)), sh_ctx := c\<rparr>)
     | Some (command, max_args) \<Rightarrow>
         if \<not> ex \<and> nm \<notin> set non_fs_commands
         then run_line e line sh =
           Inr (sh\<lparr>sh_world := print (FsDoesNotExist nm) (print (CommandEcho line) (sh_world sh)), sh_ctx := c\<rparr>)
         else \<exists>c'. args_ok c' \<and> cur_dir c' = cur_dir c \<and> cmd c' ! 0 = Some nm \<and> nargs c' \<le> int (Suc max_args) \<and>
           run_line e line sh = bind_r (run_command e command
             (sh\<lparr>sh_world := print (CommandEcho line) (sh_world sh), sh_ctx := c'\<rparr>)) report_errno)"
proof -
  let ?c = "(sh_ctx sh)\<lparr>cmd := (cmd (sh_ctx sh))[0 := Some nm]\<rparr>"
  let ?w = "print (CommandEcho line) (sh_world sh)"
  let ?sh = "sh\<lparr>sh_world := ?w, sh_ctx := ?c\<rparr>"
  have tok: "token_ok nm" using strtok_token [OF assms(3)] by (simp add: blanks_def)
  have len: "length (cmd ?c) = 6" "0 < length (cmd (sh_ctx sh))" using assms(1) by simp_all
  then have ok: "argv_ok 1 (cmd ?c)" using tok by (simp add: argv_ok_def)
  have "fs_exists ?c ?w = fs_exists (sh_ctx sh) (sh_world sh)"
    by (simp add: fs_exists_def testfs_inode_get_type_def deref_def)
  then have ex: "fs_exists ?c ?w = Inr ex" using assms(2) by (simp only:)
  have run: "run_line e line sh = handle_command e (Some nm) args saved (sh\<lparr>sh_world := ?w\<rparr>)"
    using assms(3,4) by (simp add: run_line_def)
  have small: "1 \<le> k \<and> k \<le> MAX_ARGS" if "map_of cmdtable nm = Some (command, k)" for command k
    using map_of_SomeD [OF that] by (auto simp: cmdtable_def)
  show ?thesis
  proof (cases "map_of cmdtable nm")
    case None
    then show ?thesis using len(2) by (intro exI [of _ ?c]) (simp add: run handle_command_def)
  next
    case (Some x)
    then obtain command k where x: "x = (command, k)" "map_of cmdtable nm = Some (command, k)" by (cases x) simp
    show ?thesis
    proof (cases "\<not> ex \<and> nm \<notin> set non_fs_commands")
      case True
      then show ?thesis using x len(2) ex
        by (intro exI [of _ ?c]) (simp add: run handle_command_def can_execute_command_def)
    next
      case False
      obtain c' where c': "parse_args k args saved ?c = Inr c'" "args_ok c'" "cur_dir c' = cur_dir ?c" "cmd c' ! 0 = cmd ?c ! 0"
        "nargs c' \<le> int (Suc k)"
        using parse_args_ok [OF ok] small [OF x(2)] by blast
      have "run_line e line sh = bind_r (run_command e command (sh\<lparr>sh_world := ?w, sh_ctx := c'\<rparr>)) report_errno"
        by (rule run_line_known [OF assms x(2) _ c'(1)]) (use False in blast)
      moreover have "cmd c' ! 0 = Some nm" using c'(4) len(2) by simp
      ultimately show ?thesis using False x(2) c'(2,3,5) by (intro exI [of _ ?c]) auto
    qed
  qed
qed

text \<open>The shell at the prompt of the small volume.\<close>

definition start_shell :: "(nat \<Rightarrow> byte list) shell" where
  "start_shell = \<lparr>sh_world = start_world, sh_ctx = (start_ctx [97])\<lparr>cmd := replicate (Suc MAX_ARGS) None\<rparr>,
     sh_host = \<lparr>h_files = (\<lambda>_. None), h_writable = (\<lambda>_. False)\<rparr>,
     sh_bench = \<lparr>b_clock = (\<lambda>_. (0, 0)), b_calls = 0, b_rand = (\<lambda>_. 0), b_rands = 0, b_sched = (\<lambda>_. []), b_waits = 0,
       b_stack = (\<lambda>_ _. 0), b_frames = 0, b_csv = (\<lambda>_. [])\<rparr>, sh_can_quit = False\<rparr>"

definition start_env :: env where
  "start_env = \<lparr>e_fuel = 10, e_sched1 = [], e_sched2 = [], e_junk = 0\<rparr>"

theorem command_line_typed_witness:
  "\<exists>c. args_ok c \<and> cmd c ! 0 = Some (str ''mkdir'') \<and> nargs c \<le> 3 \<and>
     run_line start_env (str ''mkdir a'') start_shell = bind_r (run_command start_env Mkdir
       (start_shell\<lparr>sh_world := print (CommandEcho (str ''mkdir a'')) start_world, sh_ctx := c\<rparr>)) report_errno"
proof -
  have l: "strtok (Some (str ''mkdir a'')) blanks [] = (Some (str ''mkdir''), [97])" "strtok None newline [97] = (Some [97], [])"
    by (simp_all add: strtok_def blanks_def newline_def str_def)
  have ex: "fs_exists (sh_ctx start_shell) (sh_world start_shell) = Inr True"
    using dir_fields [OF sessionD(1) [OF start_session(1)]] by (simp add: start_shell_def fs_exists_def start_ctx_def)
  have m: "map_of cmdtable (str ''mkdir'') = Some (Mkdir, 2)" by (simp add: cmdtable_def str_def)
  show ?thesis
    using command_line_typed [OF _ ex l, of start_env] by (simp add: m start_shell_def) (metis)
qed

end
