(* ===== verification/MountOk.thy ===== *)
theory MountOk
  imports MountOps FileSystem
begin

text \<open>
  Mounting and unmounting.  \<open>testfs_flush_super_block\<close> leaves the freemaps on the disk,
  \<open>testfs_init_super_block\<close> reads them and the checksum table back (\<open>mounted_sb\<close>): a volume survives
  being unmounted and mounted again, and \<open>cmd_mkfs\<close> makes a volume with the root directory out of any
  device that is large enough.
\<close>

section \<open>Reading the super block\<close>

definition csum_bytes :: "'d fsys \<Rightarrow> byte list" where
  "csum_bytes s = concat (map (dblk s) [4 ..< 64])"

definition mounted_sb :: "'d fsys \<Rightarrow> super_block" where
  "mounted_sb s = \<lparr>sb_dsb = std_dsb, inode_freemap = Some \<lparr>bm_nbits = 4096, bm_v = dblk s 1\<rparr>,
     block_freemap = Some \<lparr>bm_nbits = 8192, bm_v = dblk s 2 @ dblk s 3\<rparr>, tx_in_progress = TX_NONE,
     csum_table = Some (bytes_words MAX_NR_CSUMS (csum_bytes s)),
     csum_block_dirty = replicate CSUM_TABLE_SIZE False\<rparr>"

definition mounted :: "'d world \<Rightarrow> 'd world" where
  "mounted w = inode_hash_init (w\<lparr>w_sb := w_next w, w_next := Suc (w_next w),
                                  w_fs := upd_sb (\<lambda>_. mounted_sb (w_fs w)) (w_fs w)\<rparr>)"

lemma std_dsb_codec: "dsuper_of_bytes (dsuper_bytes std_dsb) = std_dsb" "length (dsuper_bytes std_dsb) = 24"
  using dsuper.dec_enc [of std_dsb] dsuper.length_enc [of std_dsb]
  by (simp_all add: dsuper_ok_def std_dsb_def in_int32_def)

lemma read_freemap_eq:
  assumes "dev_ok N s" "0 < n" "a + n \<le> N"
    and bc: "bitmap_create True True (word_of_int (BLOCK_SIZE * int n * 8)) =
      Inr (Inr \<lparr>bm_nbits = b, bm_v = replicate (n * BLOCK_SIZE) 0\<rparr>)"
    and len: "length (concat (map (dblk s) [a ..< a + n])) = n * BLOCK_SIZE"
  shows "read_freemap (int a) (int n) s = Inr (Inr \<lparr>bm_nbits = b, bm_v = concat (map (dblk s) [a ..< a + n])\<rparr>)"
proof -
  have "c_memcpy (replicate (n * BLOCK_SIZE) 0) (int 0) (concat (map (dblk s) [a ..< a + n])) (int 0) (int (n * BLOCK_SIZE)) =
      Inr (concat (map (dblk s) [a ..< a + n]))"
    unfolding c_memcpy_ok by (simp only: len length_replicate seg_all blit_all) simp
  then show ?thesis
    using read_range [OF assms(1-3)] bc by (simp add: read_freemap_def bitmap_getdata_def)
qed

lemma read_freemaps:
  assumes "dev_ok N s" "4 \<le> N"
  shows "read_freemap 1 1 s = Inr (Inr \<lparr>bm_nbits = 4096, bm_v = dblk s 1\<rparr>)"
    "read_freemap 2 2 s = Inr (Inr \<lparr>bm_nbits = 8192, bm_v = dblk s 2 @ dblk s 3\<rparr>)"
proof -
  have "bitmap_create True True 4096 = Inr (Inr \<lparr>bm_nbits = 4096, bm_v = replicate 512 0\<rparr>)"
    "bitmap_create True True 8192 = Inr (Inr \<lparr>bm_nbits = 8192, bm_v = replicate 1024 0\<rparr>)"
    by (subst bitmap_create_exact; simp)+
  then show "read_freemap 1 1 s = Inr (Inr \<lparr>bm_nbits = 4096, bm_v = dblk s 1\<rparr>)"
    "read_freemap 2 2 s = Inr (Inr \<lparr>bm_nbits = 8192, bm_v = dblk s 2 @ dblk s 3\<rparr>)"
    using read_freemap_eq [OF assms(1), of 1 1 4096] read_freemap_eq [OF assms(1), of 2 2 8192]
      length_dblk [OF assms(1)] assms(2) by (simp_all add: upt_rec)
qed

lemma std_starts [simp]:
  "inode_freemap_start std_dsb = 1" "block_freemap_start std_dsb = 2" "csum_table_start std_dsb = 4"
  "inode_blocks_start std_dsb = 64" "data_blocks_start std_dsb = 192"
  by (simp_all add: std_dsb_def)

lemma init_eq:
  assumes "dev_ok N (w_fs w)" "7872 \<le> N" "take 24 (dblk (w_fs w) 0) = dsuper_bytes std_dsb"
  shows "testfs_init_super_block w = Inr (0, mounted w)"
proof -
  let ?s = "w_fs w"
  have r0: "read_blocks ?s 0 1 = Inr (dblk ?s 0)" using read_block [OF assms(1), of 0] assms(2) by simp
  have l0: "length (dblk ?s 0) = 512" using length_dblk [OF assms(1)] assms(2) by simp
  have cp: "c_memcpy (replicate 24 0) 0 (dblk ?s 0) 0 24 = Inr (dsuper_bytes std_dsb)"
    using c_memcpy_ok [of "replicate 24 0" 0 "dblk ?s 0" 0 24] l0 assms(3) std_dsb_codec(2) by (simp add: seg_def)
  let ?s1 = "upd_sb (\<lambda>sb. sb\<lparr>sb_dsb := std_dsb\<rparr>) ?s"
  have d1: "dev_ok N ?s1" "dsb ?s1 = std_dsb" using assms(1) by simp_all
  have rf: "read_freemap 1 1 ?s1 = Inr (Inr \<lparr>bm_nbits = 4096, bm_v = dblk ?s 1\<rparr>)"
    "read_freemap 2 2 ?s1 = Inr (Inr \<lparr>bm_nbits = 8192, bm_v = dblk ?s 2 @ dblk ?s 3\<rparr>)"
    using read_freemaps [OF d1(1)] assms(2) by simp_all
  have rt: "read_blocks ?s1 4 60 = Inr (csum_bytes ?s)"
    using read_range [OF d1(1), of 60 4] assms(2) by (simp add: csum_bytes_def)
  show ?thesis
    using r0 cp rf rt d1(2)
    by (simp add: testfs_init_super_block_def Let_def std_dsb_codec mounted_def mounted_sb_def)
      (simp add: set_fs_def upd_sb_def)
qed

section \<open>Flushing\<close>

text \<open>
  Before the flush both freemaps are in memory and as on the disk, or there are none yet: afterwards
  there are none in memory and the disk is as before, but for block 0.
\<close>

definition flushable :: "'d fsys \<Rightarrow> bool" where
  "flushable s \<longleftrightarrow> inode_freemap (fs_sb s) = None \<and> block_freemap (fs_sb s) = None \<or> freemaps_wf s \<and> freemaps_synced s"

definition flushed :: "nat \<Rightarrow> 'd fsys \<Rightarrow> 'd fsys \<Rightarrow> bool" where
  "flushed N s s' \<longleftrightarrow> dev_ok N s' \<and> fs_out s' = fs_out s \<and> take 24 (dblk s' 0) = dsuper_bytes std_dsb \<and>
     (\<forall>i. 0 < i \<longrightarrow> i < N \<longrightarrow> dblk s' i = dblk s i)"

lemma write_super_eq:
  assumes "dev_ok N s" "192 \<le> N" "dsb s = std_dsb"
  shows "\<exists>s'. testfs_write_super_block s = Inr s' \<and> flushed N s s' \<and> fs_sb s' = fs_sb s"
proof -
  let ?b = "blit 0 (dsuper_bytes std_dsb) (replicate BLOCK_SIZE 0)"
  have "c_memcpy (replicate BLOCK_SIZE 0) 0 (dsuper_bytes std_dsb) 0 24 = Inr ?b"
    using c_memcpy_ok [of "replicate BLOCK_SIZE 0" 0 "dsuper_bytes std_dsb" 0 24] std_dsb_codec(2) by (simp add: seg_def)
  moreover have l: "length ?b = BLOCK_SIZE" "take 24 ?b = dsuper_bytes std_dsb" using std_dsb_codec(2) by (simp_all add: blit_def)
  ultimately have "testfs_write_super_block s = Inr (put_blk ?b 0 s)"
    using write_block [of N s 0 ?b] assms by (simp add: testfs_write_super_block_def)
  then show ?thesis
    using assms dblk_put_blk [OF assms(1), of 0 _ ?b] l by (auto simp: flushed_def)
qed

lemma flush_inode_freemap_unmount:
  assumes "dev_ok N s" "192 \<le> N" "dsb s = std_dsb" "flushable s"
  shows "\<exists>s'. flush_inode_freemap s = Inr s' \<and> dev_ok N s' \<and> fs_out s' = fs_out s \<and> (\<forall>i < N. dblk s' i = dblk s i) \<and>
    fs_sb s' = (fs_sb s)\<lparr>inode_freemap := None\<rparr>"
proof (cases "inode_freemap (fs_sb s)")
  case None
  then show ?thesis using assms by (simp add: flush_inode_freemap_def)
next
  case (Some b)
  then have b: "b = imap s" "freemaps_wf s" "freemaps_synced s" using assms(4) by (simp_all add: flushable_def imap_def)
  have l: "length (bm_v b) = 512" using b by (simp add: freemaps_wf_def bm_wf_def)
  let ?s = "put_blks (bm_v b) 1 1 s"
  have "flush_inode_freemap s = Inr (upd_sb (\<lambda>sb. sb\<lparr>inode_freemap := None\<rparr>) ?s)"
    using Some write_range [OF assms(1), of 1 1 "bm_v b"] assms(2,3) l by (simp add: flush_inode_freemap_def bitmap_getdata_def)
  moreover have "1 \<le> i \<and> i < 1 + 1 \<longleftrightarrow> i = 1" for i :: nat by linarith
  then have "dblk ?s i = dblk s i" if "i < N" for i
    using dblk_put_blks [OF assms(1) _ _ _ that, of 1 1 "bm_v b"] assms(2) l b(1,3)
    by (cases "i = 1") (simp_all add: freemaps_synced_def seg_def)
  ultimately show ?thesis using assms(1) by simp
qed

lemma flush_block_freemap_unmount:
  assumes "dev_ok N s" "192 \<le> N" "dsb s = std_dsb"
    and "block_freemap (fs_sb s) = None \<or> block_freemap (fs_sb s) = Some b \<and> length (bm_v b) = 1024 \<and> dblk s 2 @ dblk s 3 = bm_v b"
  shows "\<exists>s'. flush_block_freemap s = Inr s' \<and> dev_ok N s' \<and> fs_out s' = fs_out s \<and> (\<forall>i < N. dblk s' i = dblk s i) \<and>
    fs_sb s' = (fs_sb s)\<lparr>block_freemap := None\<rparr>"
proof (cases "block_freemap (fs_sb s)")
  case None
  then show ?thesis using assms by (simp add: flush_block_freemap_def)
next
  case Some
  then have b: "block_freemap (fs_sb s) = Some b" "length (bm_v b) = 1024" "dblk s 2 @ dblk s 3 = bm_v b"
    using assms(4) by simp_all
  let ?s = "put_blks (bm_v b) 2 2 s"
  have "flush_block_freemap s = Inr (upd_sb (\<lambda>sb. sb\<lparr>block_freemap := None\<rparr>) ?s)"
    using b write_range [OF assms(1), of 2 2 "bm_v b"] assms(2,3) by (simp add: flush_block_freemap_def bitmap_getdata_def)
  moreover have "seg (512 * (i - 2)) 512 (bm_v b) = dblk s i" if "2 \<le> i" "i < 4" for i
  proof -
    have "i = 2 \<or> i = 3" using that by linarith
    then show ?thesis
      using length_dblk [OF assms(1), of 2] length_dblk [OF assms(1), of 3] assms(2) by (auto simp: seg_def b(3) [symmetric])
  qed
  then have "dblk ?s i = dblk s i" if "i < N" for i
    using dblk_put_blks [OF assms(1) _ _ _ that, of 2 2 "bm_v b"] assms(2) b(2) that by simp
  ultimately show ?thesis using assms(1) by simp
qed

lemma inode_hash_destroy_eq:
  assumes "cache_ok w" "w_inodes w = (\<lambda>_. None)"
  shows "inode_hash_destroy w = Inr (w\<lparr>w_table := HashFreed\<rparr>)"
proof -
  obtain cs where cs: "w_table w = Hash cs" "chains_ok w cs" using assms(1) by (auto simp: cache_ok_def)
  have "c = []" if "c \<in> set cs" for c
    using cs(2) assms(2) that by (fastforce simp: chains_ok_def in_set_conv_nth)
  then have "fold_r (\<lambda>c _. assert_r (c = [])) cs () = Inr ()" by (induction cs) simp_all
  then show ?thesis using cs(1) by (simp add: inode_hash_destroy_def hash_chains_def)
qed

lemma flush_eq:
  assumes "cache_ok w" "w_inodes w = (\<lambda>_. None)" "tx_in_progress (fs_sb (w_fs w)) = TX_NONE"
    and "dev_ok N (w_fs w)" "192 \<le> N" "dsb (w_fs w) = std_dsb" "flushable (w_fs w)"
  shows "\<exists>s'. testfs_flush_super_block w = Inr (w\<lparr>w_fs := s', w_table := HashFreed\<rparr>) \<and> flushed N (w_fs w) s'"
proof -
  let ?s = "w_fs (tx TX_UMOUNT w)"
  have d: "dev_ok N ?s" "dsb ?s = std_dsb" using assms(4,6) by (simp_all add: tx_out_def dev_ok_def)
  obtain s1 where s1: "testfs_write_super_block ?s = Inr s1" "flushed N ?s s1" "fs_sb s1 = fs_sb ?s"
    using write_super_eq [OF d(1) assms(5) d(2)] by blast
  have d1: "dev_ok N s1" "dsb s1 = std_dsb" and b1: "\<And>i. 0 < i \<Longrightarrow> i < N \<Longrightarrow> dblk s1 i = dblk (w_fs w) i"
    using s1(2,3) d(2) by (simp_all add: flushed_def)
  have f1: "flushable s1"
    using assms(7) b1 assms(5) s1(3) by (simp add: flushable_def freemaps_wf_def freemaps_synced_def bmap_def imap_def tx_out_def)
  obtain s2 where s2: "flush_inode_freemap s1 = Inr s2" "dev_ok N s2" "fs_out s2 = fs_out s1" "\<forall>i < N. dblk s2 i = dblk s1 i"
    "fs_sb s2 = (fs_sb s1)\<lparr>inode_freemap := None\<rparr>"
    using flush_inode_freemap_unmount [OF d1(1) assms(5) d1(2) f1] by blast
  have f2: "block_freemap (fs_sb s2) = None \<or> block_freemap (fs_sb s2) = Some (bmap s1) \<and> length (bm_v (bmap s1)) = 1024 \<and>
      dblk s2 2 @ dblk s2 3 = bm_v (bmap s1)"
    using f1 s2(4,5) assms(5) by (auto simp: flushable_def freemaps_wf_def freemaps_synced_def bmap_def bm_wf_def)
  obtain s3 where s3: "flush_block_freemap s2 = Inr s3" "dev_ok N s3" "fs_out s3 = fs_out s2" "\<forall>i < N. dblk s3 i = dblk s2 i"
    "fs_sb s3 = (fs_sb s2)\<lparr>block_freemap := None\<rparr>"
    using flush_block_freemap_unmount [OF s2(2) assms(5) _ f2] s2(5) d1(2) by auto
  let ?s4 = "upd_sb (\<lambda>sb. sb\<lparr>tx_in_progress := TX_NONE\<rparr>) s3"
  have t: "tx_in_progress (fs_sb s3) = TX_UMOUNT" using s3(5) s2(5) s1(3) by simp
  let ?w1 = "set_fs s1 (tx TX_UMOUNT w)"
  have h: "inode_hash_destroy ?w1 = Inr (?w1\<lparr>w_table := HashFreed\<rparr>)"
    by (rule inode_hash_destroy_eq) (use assms(1,2) in \<open>simp_all add: tx_def\<close>)
  have "testfs_flush_super_block w = Inr (w\<lparr>w_fs := ?s4, w_table := HashFreed\<rparr>)"
    unfolding testfs_flush_super_block_def tx_start [OF assms(3)]
    using s1(1) h s2(1) s3(1) t by (simp add: on_fs_def tx_commit_eq) (simp add: set_fs_def tx_def)
  moreover have "flushed N (w_fs w) ?s4"
    using s1(2) s2(3,4) s3(2-4) assms(5) by (simp add: flushed_def)
  ultimately show ?thesis by blast
qed

section \<open>Mounting again\<close>

text \<open>A volume whose checksum table, freemaps and slots are on the disk is read back as it was.\<close>

lemma mounted_simps [simp]:
  "w_fs (mounted w) = upd_sb (\<lambda>_. mounted_sb (w_fs w)) (w_fs w)" "w_inodes (mounted w) = w_inodes w"
  "w_sb (mounted w) = w_next w"
  by (simp_all add: mounted_def inode_hash_init_def)

lemma mounted_cache: "w_inodes w = (\<lambda>_. None) \<Longrightarrow> cache_ok (mounted w)"
  by (rule cache_ok_empty) (simp_all add: mounted_def inode_hash_init_def)

lemma concat_blocks:
  assumes "\<And>i. i < n \<Longrightarrow> length (f (a + i)) = m"
  shows "length (concat (map f [a ..< a + n])) = n * m \<and>
    (\<forall>i < n. seg (m * i) m (concat (map f [a ..< a + n])) = f (a + i))"
  using assms
proof (induction n)
  case (Suc n)
  let ?c = "concat (map f [a ..< a + n])"
  have l: "length ?c = n * m" "\<forall>i < n. seg (m * i) m ?c = f (a + i)" and fn: "length (f (a + n)) = m"
    using Suc by simp_all
  have e: "concat (map f [a ..< a + Suc n]) = ?c @ f (a + n)" by simp
  have "seg (m * i) m (?c @ f (a + n)) = f (a + i)" if "i < Suc n" for i
  proof (cases "i = n")
    case True
    then show ?thesis using l fn by (simp add: seg_def mult.commute)
  next
    case False
    then have "i < n" using that by simp
    then have "m * i + m \<le> n * m" using mult_le_mono [of "Suc i" n m m] by (simp add: mult.commute)
    then show ?thesis using l \<open>i < n\<close> by (simp add: seg_def)
  qed
  then show ?case using l fn unfolding e by simp
qed simp

lemma csum_bytes_blocks:
  assumes "dev_ok N s" "7872 \<le> N"
  shows "length (csum_bytes s) = 30720" "i < 60 \<Longrightarrow> seg (512 * i) 512 (csum_bytes s) = dblk s (4 + i)"
  using concat_blocks [of 60 "dblk s" 4 512] length_dblk [OF assms(1)] assms(2) unfolding csum_bytes_def
  by simp_all

lemma mounted_fs:
  assumes "dev_ok N s" "7872 \<le> N"
  shows "fs_ok N (upd_sb (\<lambda>_. mounted_sb s) s)" "synced (upd_sb (\<lambda>_. mounted_sb s) s)"
proof -
  let ?s = "upd_sb (\<lambda>_. mounted_sb s) s"
  have l: "length (dblk s 1) = 512" "length (dblk s 2 @ dblk s 3) = 1024" using length_dblk [OF assms(1)] assms(2) by simp_all
  show "fs_ok N ?s"
    using assms l by (simp add: fs_ok_def mounted_sb_def freemaps_wf_def bmap_def imap_def bm_wf_def csum_wf_def)
  have t: "csum_table_of ?s = bytes_words MAX_NR_CSUMS (csum_bytes s)" by (simp add: csum_table_of_def mounted_sb_def)
  have "dblk s (4 + i) = csum_tblk ?s i" if "i < 60" for i
  proof -
    have "csum_tblk ?s i = seg (512 * i) 512 (words_bytes (csum_table_of ?s))"
      using words_bytes_drop [of "128 * i" "csum_table_of ?s"] words_bytes_take [of 128 "drop (128 * i) (csum_table_of ?s)"]
      by (simp add: seg_def csum_tblk_def)
    also have "words_bytes (csum_table_of ?s) = csum_bytes s"
      unfolding t by (rule words_bytes_bytes_words) (simp add: csum_bytes_blocks(1) [OF assms])
    also have "seg (512 * i) 512 (csum_bytes s) = dblk s (4 + i)"
      by (rule csum_bytes_blocks(2) [OF assms that])
    finally show ?thesis by simp
  qed
  then show "synced ?s"
    by (simp add: synced_def freemaps_synced_def csum_coherent_def mounted_sb_def bmap_def imap_def)
qed

lemma bitmap_eta: "bm_nbits b = n \<Longrightarrow> bm_v b = v \<Longrightarrow> \<lparr>bm_nbits = n, bm_v = v\<rparr> = b"
  by simp

lemma csum_bytes_coherent:
  assumes "fs_ok N s" "synced s"
  shows "bytes_words MAX_NR_CSUMS (csum_bytes s) = csum_table_of s"
proof -
  have len: "length (csum_table_of s) = MAX_NR_CSUMS" using csum_wfD(2) [OF fs_okD(5) [OF assms(1)]] .
  then have l: "length (words_bytes (csum_table_of s)) = 60 * BLOCK_SIZE" by simp
  have b: "dblk s (4 + i) = seg (BLOCK_SIZE * i) BLOCK_SIZE (words_bytes (csum_table_of s))" if "i < 60" for i
    using assms(2) that words_bytes_drop [of "128 * i" "csum_table_of s"]
      words_bytes_take [of 128 "drop (128 * i) (csum_table_of s)"]
    by (simp add: synced_def csum_coherent_def csum_tblk_def seg_def)
  have "csum_bytes s = concat (map (\<lambda>i. dblk s (4 + i)) [0 ..< 60])"
    unfolding csum_bytes_def by (rule arg_cong [of _ _ concat], rule nth_equalityI) (simp_all del: upt_rec_numeral)
  also have "\<dots> = words_bytes (csum_table_of s)"
    using concat_segs [OF l] b by (subst map_cong [OF refl b]) (simp_all del: upt_rec_numeral)
  finally show ?thesis using bytes_words_words_bytes [of "csum_table_of s"] len by simp
qed

lemma mounted_after_flush:
  assumes v: "vol_ok N w" and none: "w_inodes w = (\<lambda>_. None)" and fl: "flushed N (w_fs w) s'"
    and w1: "w_fs w1 = s'" "w_inodes w1 = w_inodes w"
  shows "vol_ok N (mounted w1)" "files (mounted w1) = files w" "nfree (w_fs (mounted w1)) = nfree (w_fs w)"
proof -
  let ?s = "w_fs w" and ?w = "mounted w1"
  note c = vol_okD(1,2) [OF v] vol_okD(9) [OF v, unfolded kept_True]
  have N: "7872 \<le> N" using fs_okD(2) [OF c(2)] by simp
  have d: "dev_ok N s'" "\<And>i. 0 < i \<Longrightarrow> i < N \<Longrightarrow> dblk s' i = dblk ?s i" using fl by (simp_all add: flushed_def)
  have "csum_bytes s' = csum_bytes ?s"
    unfolding csum_bytes_def by (rule arg_cong [of _ _ concat], rule map_cong) (use d(2) N in \<open>simp_all del: upt_rec_numeral\<close>)
  then have t: "csum_table_of (w_fs ?w) = csum_table_of ?s"
    using csum_bytes_coherent [OF c(2,3)] w1 by (simp add: csum_table_of_def mounted_sb_def)
  have maps: "bmap (w_fs ?w) = bmap ?s" "imap (w_fs ?w) = imap ?s"
    using fs_okD [OF c(2)] c(3) d(2) N w1
    by (simp_all add: bmap_def imap_def mounted_sb_def synced_def freemaps_synced_def)
  have u: "used (w_fs ?w) = used ?s" "iused (w_fs ?w) = iused ?s" by (simp_all only: used_def iused_def maps)
  have di: "dinode_at (w_fs ?w) k = dinode_at ?s k" if "k < NR_INODES" for k
    using d(2) [of "64 + k div 16"] slot_bounds [OF c(2) that] w1 by (simp add: dinode_at_def)
  have dd: "dblk (w_fs ?w) j = dblk ?s j" if "j < N" "192 \<le> j" for j using d(2) [of j] that w1 by simp
  have cj: "cur ?w k = cur w k" if "k \<in> iused ?s" for k
    by (rule cur_cong [OF c(1) mounted_cache]) (use di vol_okD(3) [OF v that] none w1 in simp_all)
  note ff = file_frame [OF c(2) u(1) t dd]
  have ok: "cache_ok ?w" "fs_ok N (w_fs ?w)" "synced (w_fs ?w)"
    using mounted_cache [of w1] mounted_fs [OF d(1) N] none w1 by simp_all
  show "vol_ok N ?w" "files ?w = files w"
    by (intro vol_cong [OF v ok(1,2) u(2)], use cj ff di u ok(3) none w1 in simp_all)+
  show "nfree (w_fs ?w) = nfree ?s" using u by (simp add: nfree_def)
qed

lemma remount_eq:
  assumes v: "vol_ok N w" and none: "w_inodes w = (\<lambda>_. None)" and tr: "tx_in_progress (fs_sb (w_fs w)) = TX_NONE"
  shows "\<exists>w1. testfs_flush_super_block w = Inr w1 \<and> fs_out (w_fs w1) = fs_out (w_fs w) \<and>
    (\<forall>a. \<exists>w2. testfs_init_super_block (w1\<lparr>w_sb := a\<rparr>) = Inr (0, w2) \<and>
    vol_ok N w2 \<and> files w2 = files w \<and> w_inodes w2 = (\<lambda>_. None) \<and> tx_in_progress (fs_sb (w_fs w2)) = TX_NONE \<and>
    fs_out (w_fs w2) = fs_out (w_fs w) \<and> nfree (w_fs w2) = nfree (w_fs w))"
proof -
  note c = vol_okD(1,2) [OF v] vol_okD(9) [OF v, unfolded kept_True]
  have N: "7872 \<le> N" "192 \<le> N" using fs_okD(2) [OF c(2)] by simp_all
  have "flushable (w_fs w)" using c(2,3) by (simp add: flushable_def fs_ok_def synced_def)
  then obtain s' where s': "testfs_flush_super_block w = Inr (w\<lparr>w_fs := s', w_table := HashFreed\<rparr>)" "flushed N (w_fs w) s'"
    using flush_eq [OF c(1) none tr fs_okD(1) [OF c(2)] N(2) fs_okD(4) [OF c(2)]] by blast
  have out: "fs_out s' = fs_out (w_fs w)" using s'(2) by (simp add: flushed_def)
  have "\<exists>w2. testfs_init_super_block (w\<lparr>w_fs := s', w_table := HashFreed, w_sb := a\<rparr>) = Inr (0, w2) \<and>
    vol_ok N w2 \<and> files w2 = files w \<and> w_inodes w2 = (\<lambda>_. None) \<and> tx_in_progress (fs_sb (w_fs w2)) = TX_NONE \<and>
    fs_out (w_fs w2) = fs_out (w_fs w) \<and> nfree (w_fs w2) = nfree (w_fs w)" for a
  proof -
    let ?w1 = "w\<lparr>w_fs := s', w_table := HashFreed, w_sb := a\<rparr>"
    have "testfs_init_super_block ?w1 = Inr (0, mounted ?w1)"
      by (rule init_eq [of N]) (use s'(2) N(1) in \<open>simp_all add: flushed_def\<close>)
    then show ?thesis using mounted_after_flush [OF v none s'(2), of ?w1] out none
      by (intro exI [of _ "mounted ?w1"]) (simp add: mounted_sb_def)
  qed
  then show ?thesis using s'(1) out by simp
qed

section \<open>Making a file system\<close>

definition fresh_sb :: super_block where
  "fresh_sb = \<lparr>sb_dsb = std_dsb, inode_freemap = None, block_freemap = None, tx_in_progress = TX_NONE,
     csum_table = None, csum_block_dirty = replicate CSUM_TABLE_SIZE False\<rparr>"

text \<open>The empty super block and the zeroed regions before the first flush.\<close>

definition zeroed :: "nat \<Rightarrow> 'd fsys \<Rightarrow> bool" where
  "zeroed N s \<longleftrightarrow> dev_ok N s \<and> fs_sb s = fresh_sb \<and> (\<forall>i. 0 < i \<longrightarrow> i < 192 \<longrightarrow> dblk s i = replicate 512 0)"

lemma make_regions:
  assumes "dev_ok N s" "7872 \<le> N" "fs_sb s = fresh_sb"
  shows "\<exists>s1 s2 s3 s4. testfs_make_inode_freemap s = Inr s1 \<and> testfs_make_block_freemap s1 = Inr s2 \<and>
    testfs_make_csum_table s2 = Inr s3 \<and> testfs_make_inode_blocks s3 = Inr s4 \<and> zeroed N s4 \<and> fs_out s4 = fs_out s"
proof -
  have d: "dsb s = std_dsb" using assms(3) by (simp add: fresh_sb_def)
  obtain s1 where s1: "zero_blocks (int 1) (int 1) s = Inr s1" "dev_ok N s1" "fs_sb s1 = fs_sb s" "fs_out s1 = fs_out s"
    "\<And>j. j < N \<Longrightarrow> dblk s1 j = (if 1 \<le> j \<and> j < 1 + 1 then replicate BLOCK_SIZE 0 else dblk s j)"
    using zero_blocks_ok [OF assms(1), of 1 1] assms(2) by auto
  obtain s2 where s2: "zero_blocks (int 2) (int 2) s1 = Inr s2" "dev_ok N s2" "fs_sb s2 = fs_sb s1" "fs_out s2 = fs_out s1"
    "\<And>j. j < N \<Longrightarrow> dblk s2 j = (if 2 \<le> j \<and> j < 2 + 2 then replicate BLOCK_SIZE 0 else dblk s1 j)"
    using zero_blocks_ok [OF s1(2), of 2 2] assms(2) by auto
  obtain s3 where s3: "zero_blocks (int 4) (int 60) s2 = Inr s3" "dev_ok N s3" "fs_sb s3 = fs_sb s2" "fs_out s3 = fs_out s2"
    "\<And>j. j < N \<Longrightarrow> dblk s3 j = (if 4 \<le> j \<and> j < 4 + 60 then replicate BLOCK_SIZE 0 else dblk s2 j)"
    using zero_blocks_ok [OF s2(2), of 4 60] assms(2) by auto
  obtain s4 where s4: "zero_blocks (int 64) (int 128) s3 = Inr s4" "dev_ok N s4" "fs_sb s4 = fs_sb s3" "fs_out s4 = fs_out s3"
    "\<And>j. j < N \<Longrightarrow> dblk s4 j = (if 64 \<le> j \<and> j < 64 + 128 then replicate BLOCK_SIZE 0 else dblk s3 j)"
    using zero_blocks_ok [OF s3(2), of 64 128] assms(2) by auto
  have "dblk s4 i = replicate 512 0" if "0 < i" "i < 192" for i
    using s1(5) s2(5) s3(5) s4(5) assms(2) that by simp
  then have "zeroed N s4" using s1(3) s2(3) s3(3) s4(2,3) assms(3) by (simp add: zeroed_def)
  then show ?thesis
    using s1 s2 s3 s4 d
    by (intro exI [of _ s1] exI [of _ s2] exI [of _ s3] exI [of _ s4])
      (simp add: testfs_make_inode_freemap_def testfs_make_block_freemap_def testfs_make_csum_table_def testfs_make_inode_blocks_def)
qed

text \<open>Mounting what \<open>mkfs\<close> has flushed gives the empty volume.\<close>

lemma mount_zeroed:
  assumes "zeroed N s" "flushed N s s'" "7872 \<le> N" "w_fs w = s'" "w_inodes w = (\<lambda>_. None)"
  shows "testfs_init_super_block w = Inr (0, mounted w)" "vol_ok N (mounted w)" "files (mounted w) = (\<lambda>_. None)"
    "next_free_inode (w_fs (mounted w)) = 0" "nfree (w_fs (mounted w)) = 7680"
proof -
  have d: "dev_ok N s'" and z: "\<And>i. 0 < i \<Longrightarrow> i < 192 \<Longrightarrow> dblk s' i = replicate 512 0"
    using assms(1-3) by (simp_all add: zeroed_def flushed_def)
  show "testfs_init_super_block w = Inr (0, mounted w)"
    by (rule init_eq) (use assms(2-4) d in \<open>simp_all add: flushed_def\<close>)
  let ?s = "upd_sb (\<lambda>_. mounted_sb s') s'"
  have "replicate 512 (0 :: byte) @ replicate 512 0 = replicate 1024 0" using replicate_add [of 512 512 "0 :: byte"] by simp
  then have u: "used ?s = {}" "iused ?s = {}"
    using z by (simp_all add: used_def iused_def bmap_def imap_def mounted_sb_def zero_bitmap_set)
  note ok = mounted_fs [OF d assms(3)]
  show "vol_ok N (mounted w)" "files (mounted w) = (\<lambda>_. None)"
    by (rule vol_ok_empty [OF mounted_cache [OF assms(5)]]; use ok u z assms(4,5) in simp)+
  show "next_free_inode (w_fs (mounted w)) = 0" using next_free_first [OF ok(1) u(2)] assms(4) by simp
  show "nfree (w_fs (mounted w)) = 7680" using u(1) assms(4) by (simp add: nfree_def)
qed

lemma make_super_eq:
  assumes "dev_ok N (w_fs w)" "7872 \<le> N" "w_inodes w = (\<lambda>_. None)"
  shows "\<exists>w'. testfs_make_super_block w = Inr w' \<and> dev_ok N (w_fs w') \<and> fs_sb (w_fs w') = fresh_sb \<and>
    w_inodes w' = (\<lambda>_. None) \<and> cache_ok w' \<and> fs_out (w_fs w') = fs_out (w_fs w)"
proof -
  let ?s = "upd_sb (\<lambda>_. fresh_sb) (w_fs w)"
  let ?w = "w\<lparr>w_sb := w_next w, w_next := Suc (w_next w), w_fs := ?s\<rparr>"
  obtain s' where s': "testfs_write_super_block ?s = Inr s'" "flushed N ?s s'" "fs_sb s' = fs_sb ?s"
    using write_super_eq [of N ?s] assms(1,2) by (auto simp: fresh_sb_def)
  have "testfs_make_super_block w = Inr (inode_hash_init (set_fs s' ?w))"
    using s'(1) unfolding testfs_make_super_block_def Let_def by (simp add: on_fs_def fresh_sb_def std_dsb_def)
  moreover have "cache_ok (inode_hash_init (set_fs s' ?w))"
    by (rule cache_ok_empty) (use assms(3) in \<open>simp_all add: inode_hash_init_def set_fs_def\<close>)
  moreover have "w_fs (inode_hash_init (set_fs s' ?w)) = s'" "w_inodes (inode_hash_init (set_fs s' ?w)) = (\<lambda>_. None)"
    using assms(3) by (simp_all add: inode_hash_init_def)
  ultimately show ?thesis using s'(2,3) by (simp add: flushed_def)
qed

text \<open>The first prompt of a mounted volume: the current directory is the root.\<close>

lemma first_prompt:
  assumes v: "vol_ok N w" "w_inodes w = (\<lambda>_. None)" "tx_in_progress (fs_sb (w_fs w)) = TX_NONE"
    and f: "files w 0 = Some (I_DIR, dir_bytes rs)" "list_all dirent_ok rs"
  shows "\<exists>p w'. testfs_get_inode 0 w = Inr (p, w') \<and> session N (c\<lparr>cur_dir := p\<rparr>) w' 0 rs \<and> files w' = files w \<and>
    w_fs w' = w_fs w"
proof -
  have "0 \<in> iused (w_fs w)" using files_in [of w 0] f(1) by simp
  then obtain p a w' where "testfs_get_inode (int 0) w = Inr (p, w')" "got w 0 p a w'" "vol_ok N w'" "files w' = files w"
    using vol_get [OF v(1)] by blast
  then show ?thesis using v(2,3) f by (auto simp: session_def dir_at_def got_def has_flag_def)
qed

text \<open>\<open>cmd_mkfs\<close> up to the empty volume, and with the root directory.\<close>

lemma mkfs_empty:
  assumes "dev_ok N (w_fs w)" "7872 \<le> N" "w_inodes w = (\<lambda>_. None)"
  shows "\<exists>w1 s1 s2 s3 s4 w2 w3. testfs_make_super_block w = Inr w1 \<and> testfs_make_inode_freemap (w_fs w1) = Inr s1 \<and>
    testfs_make_block_freemap s1 = Inr s2 \<and> testfs_make_csum_table s2 = Inr s3 \<and> testfs_make_inode_blocks s3 = Inr s4 \<and>
    testfs_flush_super_block (set_fs s4 w1) = Inr w2 \<and> testfs_init_super_block (w2\<lparr>w_sb := NULL\<rparr>) = Inr (0, w3) \<and>
    vol_ok N w3 \<and> files w3 = (\<lambda>_. None) \<and> next_free_inode (w_fs w3) = 0 \<and> nfree (w_fs w3) = 7680 \<and>
    w_inodes w3 = (\<lambda>_. None) \<and> tx_in_progress (fs_sb (w_fs w3)) = TX_NONE \<and> fs_out (w_fs w3) = fs_out (w_fs w)"
proof -
  obtain w1 where w1: "testfs_make_super_block w = Inr w1" "dev_ok N (w_fs w1)" "fs_sb (w_fs w1) = fresh_sb"
    "w_inodes w1 = (\<lambda>_. None)" "cache_ok w1" "fs_out (w_fs w1) = fs_out (w_fs w)"
    using make_super_eq [OF assms] by blast
  obtain s1 s2 s3 s4 where m: "testfs_make_inode_freemap (w_fs w1) = Inr s1" "testfs_make_block_freemap s1 = Inr s2"
    "testfs_make_csum_table s2 = Inr s3" "testfs_make_inode_blocks s3 = Inr s4" "zeroed N s4" "fs_out s4 = fs_out (w_fs w1)"
    using make_regions [OF w1(2) assms(2) w1(3)] by blast
  let ?w4 = "set_fs s4 w1"
  have z: "dev_ok N s4" "fs_sb s4 = fresh_sb" using m(5) by (simp_all add: zeroed_def)
  obtain s5 where f: "testfs_flush_super_block ?w4 = Inr (?w4\<lparr>w_fs := s5, w_table := HashFreed\<rparr>)" "flushed N s4 s5"
    using flush_eq [of ?w4 N] w1(4,5) z assms(2) by (auto simp: fresh_sb_def flushable_def)
  let ?w5 = "?w4\<lparr>w_fs := s5, w_table := HashFreed\<rparr>" and ?w6 = "?w4\<lparr>w_fs := s5, w_table := HashFreed, w_sb := NULL\<rparr>"
  have e: "w_fs ?w6 = s5" "w_inodes ?w6 = (\<lambda>_. None)" using w1(4) by simp_all
  note i = mount_zeroed [OF m(5) f(2) assms(2) e]
  have "fs_out s5 = fs_out (w_fs w)" using f(2) m(6) w1(6) by (simp add: flushed_def)
  then have "fs_out (w_fs (mounted ?w6)) = fs_out (w_fs w)" "tx_in_progress (fs_sb (w_fs (mounted ?w6))) = TX_NONE"
    by (simp_all add: mounted_sb_def)
  then show ?thesis
    using w1(1) m f(1) i e by (intro exI [of _ w1] exI [of _ s1] exI [of _ s2] exI [of _ s3] exI [of _ s4] exI [of _ ?w5]
        exI [of _ "mounted ?w6"]) simp
qed

lemma mkfs_eq:
  assumes "dev_ok N (w_fs w)" "7872 \<le> N" "w_inodes w = (\<lambda>_. None)" "cur_dir c = NULL"
  shows "\<exists>p w'. cmd_mkfs c w = Inr (0, c\<lparr>cur_dir := p\<rparr>, w') \<and> session N (c\<lparr>cur_dir := p\<rparr>) w' 0 (empty_dir 0 0) \<and>
    files w' = [0 \<mapsto> (I_DIR, dir_bytes (empty_dir 0 0))] \<and> fs_out (w_fs w') = fs_out (w_fs w)"
proof -
  let ?w = "w\<lparr>w_sb := NULL\<rparr>"
  obtain w1 s1 s2 s3 s4 w2 w3 where m: "testfs_make_super_block ?w = Inr w1" "testfs_make_inode_freemap (w_fs w1) = Inr s1"
    "testfs_make_block_freemap s1 = Inr s2" "testfs_make_csum_table s2 = Inr s3" "testfs_make_inode_blocks s3 = Inr s4"
    "testfs_flush_super_block (set_fs s4 w1) = Inr w2" "testfs_init_super_block (w2\<lparr>w_sb := NULL\<rparr>) = Inr (0, w3)"
    and w3: "vol_ok N w3" "files w3 = (\<lambda>_. None)" "next_free_inode (w_fs w3) = 0" "nfree (w_fs w3) = 7680"
    "w_inodes w3 = (\<lambda>_. None)" "tx_in_progress (fs_sb (w_fs w3)) = TX_NONE" "fs_out (w_fs w3) = fs_out (w_fs ?w)"
    using mkfs_empty [of N ?w] assms(1-3) by auto
  obtain w6 where w6: "testfs_make_root_dir w3 = Inr (0, w6)" "vol_ok N w6" "same_env w3 w6"
    "files w6 = (files w3)(0 \<mapsto> (I_DIR, dir_bytes (empty_dir 0 0)))" "w_inodes w6 = w_inodes w3"
    using make_root [OF w3(1,6,3)] w3(4) by auto
  have n6: "w_inodes w6 = (\<lambda>_. None)" "tx_in_progress (fs_sb (w_fs w6)) = TX_NONE"
    using w6(3,5) w3(5,6) by (simp_all add: same_env_def)
  obtain w7 where w7: "testfs_flush_super_block w6 = Inr w7"
    "\<And>a. \<exists>w8. testfs_init_super_block (w7\<lparr>w_sb := a\<rparr>) = Inr (0, w8) \<and> vol_ok N w8 \<and> files w8 = files w6 \<and>
       w_inodes w8 = (\<lambda>_. None) \<and> tx_in_progress (fs_sb (w_fs w8)) = TX_NONE \<and> fs_out (w_fs w8) = fs_out (w_fs w6)"
    using remount_eq [OF w6(2) n6] by blast
  obtain w8 where w8: "testfs_init_super_block (w7\<lparr>w_sb := w_sb w7\<rparr>) = Inr (0, w8)" "vol_ok N w8" "files w8 = files w6"
    "w_inodes w8 = (\<lambda>_. None)" "tx_in_progress (fs_sb (w_fs w8)) = TX_NONE" "fs_out (w_fs w8) = fs_out (w_fs w6)"
    using w7(2) [of "w_sb w7"] by blast
  have f8: "files w8 = [0 \<mapsto> (I_DIR, dir_bytes (empty_dir 0 0))]" using w8(3) w6(4) w3(2) by simp
  have "files w8 0 = Some (I_DIR, dir_bytes (empty_dir 0 0))" "list_all dirent_ok (empty_dir 0 0)"
    using f8 list_all_empty_dir [of 0 0] by simp_all
  from first_prompt [OF w8(2,4,5) this, of c] obtain p w9 where g: "testfs_get_inode 0 w8 = Inr (p, w9)"
    "session N (c\<lparr>cur_dir := p\<rparr>) w9 0 (empty_dir 0 0)" "files w9 = files w8" "w_fs w9 = w_fs w8" by blast
  have "cmd_mkfs c w = Inr (0, c\<lparr>cur_dir := p\<rparr>, w9)"
    unfolding cmd_mkfs_def using assms(4) m w6(1) w7(1) w8(1) g(1) by (simp add: on_fs_def exit_if_def set_fs_def)
  moreover have "fs_out (w_fs w9) = fs_out (w_fs w)" using g(4) w8(6) w6(3) w3(7) by (simp add: same_env_def)
  ultimately show ?thesis using g(2,3) f8 by auto
qed

lemma session_put:
  assumes "session N c w k es"
  shows "\<exists>w'. testfs_put_inode (cur_dir c) w = Inr w' \<and> vol_ok N w' \<and> files w' = files w \<and> w_fs w' = w_fs w \<and>
    w_inodes w' = (\<lambda>_. None)"
proof -
  obtain a where a: "w_inodes w = [cur_dir c \<mapsto> a]" "i_count a = 1" "\<not> has_flag a I_FLAGS_DIRTY"
    using sessionD(3) [OF assms] by blast
  have "w_inodes w (cur_dir c) = Some a" using a(1) by simp
  then show ?thesis using vol_put [OF sessionD(6) [OF assms] _ a(3)] a(1,2) by fastforce
qed

lemma cmd_mkfs_eq:
  assumes "dev_ok N (w_fs w)" "7872 \<le> N"
    and "cur_dir c = NULL \<and> w_inodes w = (\<lambda>_. None) \<or> (\<exists>k es. session N c w k es)"
  shows "\<exists>p w'. cmd_mkfs c w = Inr (0, c\<lparr>cur_dir := p\<rparr>, w') \<and> session N (c\<lparr>cur_dir := p\<rparr>) w' 0 (empty_dir 0 0) \<and>
    files w' = [0 \<mapsto> (I_DIR, dir_bytes (empty_dir 0 0))] \<and> fs_out (w_fs w') = fs_out (w_fs w)"
proof (cases "cur_dir c = NULL \<and> w_inodes w = (\<lambda>_. None)")
  case True
  then show ?thesis using mkfs_eq [OF assms(1,2)] by blast
next
  case False
  then obtain k es where s: "session N c w k es" using assms(3) by blast
  obtain w0 where w0: "testfs_put_inode (cur_dir c) w = Inr w0" "w_fs w0 = w_fs w" "w_inodes w0 = (\<lambda>_. None)"
    using session_put [OF s] by blast
  have "cur_dir c \<noteq> NULL" using dir_fields [OF sessionD(1) [OF s]] by simp
  then have "cmd_mkfs c w = cmd_mkfs (c\<lparr>cur_dir := NULL\<rparr>) w0" using w0(1) by (simp add: cmd_mkfs_def)
  then show ?thesis using mkfs_eq [of N w0 "c\<lparr>cur_dir := NULL\<rparr>"] assms(1,2) w0(2,3) by auto
qed

section \<open>Properties\<close>

text \<open>
  C14.  Unmounting and mounting is a round trip.  When the program ends a session, it drops the current
  directory and closes the super block, which succeeds; mounting the device again gives a volume with
  the same files and no cached inode.
\<close>

theorem unmount_mount:
  assumes "session N c w k es"
  shows "\<exists>w0 w1 w2. testfs_put_inode (cur_dir c) w = Inr w0 \<and> testfs_close_super_block w0 = Inr w1 \<and> w_sb w1 = NULL \<and>
    testfs_init_super_block w1 = Inr (0, w2) \<and> vol_ok N w2 \<and> files w2 = files w \<and> w_inodes w2 = (\<lambda>_. None) \<and>
    tx_in_progress (fs_sb (w_fs w2)) = TX_NONE"
proof -
  obtain w0 where w0: "testfs_put_inode (cur_dir c) w = Inr w0" "vol_ok N w0" "files w0 = files w" "w_fs w0 = w_fs w"
    "w_inodes w0 = (\<lambda>_. None)"
    using session_put [OF assms] by blast
  obtain w1 where w1: "testfs_flush_super_block w0 = Inr w1"
    "\<And>a. \<exists>w2. testfs_init_super_block (w1\<lparr>w_sb := a\<rparr>) = Inr (0, w2) \<and> vol_ok N w2 \<and> files w2 = files w0 \<and>
       w_inodes w2 = (\<lambda>_. None) \<and> tx_in_progress (fs_sb (w_fs w2)) = TX_NONE"
    using remount_eq [OF w0(2,5)] w0(4) sessionD(2) [OF assms] by fastforce
  have "testfs_close_super_block w0 = Inr (w1\<lparr>w_sb := NULL\<rparr>)" using w1(1) by (simp add: testfs_close_super_block_def)
  moreover obtain w2 where "testfs_init_super_block (w1\<lparr>w_sb := NULL\<rparr>) = Inr (0, w2)" "vol_ok N w2" "files w2 = files w0"
    "w_inodes w2 = (\<lambda>_. None)" "tx_in_progress (fs_sb (w_fs w2)) = TX_NONE"
    using w1(2) [of NULL] by blast
  moreover have "w_sb (w1\<lparr>w_sb := NULL\<rparr>) = NULL" by simp
  ultimately show ?thesis using w0(1,3) by metis
qed

theorem unmount_mount_witness:
  "\<exists>(w :: ram_world) w0 w1 w2. cmd_mkdir (start_ctx [97]) start_world = Inr (0, start_ctx [97], w) \<and>
     testfs_put_inode start_dir w = Inr w0 \<and> testfs_close_super_block w0 = Inr w1 \<and>
     testfs_init_super_block w1 = Inr (0, w2) \<and>
     files w2 = [0 \<mapsto> (I_DIR, dir_bytes (root_with 1)), 1 \<mapsto> (I_DIR, dir_bytes (empty_dir 1 0))]"
proof -
  obtain w :: ram_world where w: "cmd_mkdir (start_ctx [97]) start_world = Inr (0, start_ctx [97], w)"
    "session 8192 (start_ctx [97]) w 0 (root_with 1)"
    "files w = [0 \<mapsto> (I_DIR, dir_bytes (root_with 1)), 1 \<mapsto> (I_DIR, dir_bytes (empty_dir 1 0))]"
    using start_mkdir by blast
  show ?thesis using w(1,3) unmount_mount [OF w(2)] by auto
qed

text \<open>
  C8.  \<open>cmd_mkfs\<close> makes a file system of any device that is large enough, whatever it holds and
  whether or not a file system is mounted: it returns 0, the volume is well-formed and has one file, the
  root directory with \<open>.\<close> and \<open>..\<close>, which is now the current directory and the only cached inode.
\<close>

theorem mkfs_correct:
  assumes "dev_ok N (w_fs w)" "7872 \<le> N"
    and "cur_dir c = NULL \<and> w_inodes w = (\<lambda>_. None) \<or> (\<exists>k es. session N c w k es)"
  shows "\<exists>p w'. cmd_mkfs c w = Inr (0, c\<lparr>cur_dir := p\<rparr>, w') \<and> session N (c\<lparr>cur_dir := p\<rparr>) w' 0 (empty_dir 0 0) \<and>
    vol_ok N w' \<and> files w' = [0 \<mapsto> (I_DIR, dir_bytes (empty_dir 0 0))]"
  using cmd_mkfs_eq [OF assms] sessionD(6) by blast

text \<open>A device that has never been written, with no file system mounted.\<close>

definition blank_world :: ram_world where
  "blank_world = empty_world\<lparr>w_sb := NULL, w_table := HashNull\<rparr>"

theorem mkfs_correct_witness:
  "\<exists>p w'. cmd_mkfs \<lparr>nargs = 1, cmd = [Some [120]], cur_dir = NULL\<rparr> blank_world =
       Inr (0, \<lparr>nargs = 1, cmd = [Some [120]], cur_dir = p\<rparr>, w') \<and>
     files w' = [0 \<mapsto> (I_DIR, dir_bytes (empty_dir 0 0))]"
proof -
  have "dev_ok 8192 (w_fs blank_world)" using fs_okD(1) [OF fresh_fs_ok] by (simp add: blank_world_def)
  then show ?thesis
    using mkfs_correct [of 8192 blank_world "\<lparr>nargs = 1, cmd = [Some [120]], cur_dir = NULL\<rparr>"]
    by (auto simp: blank_world_def)
qed

end
