(* ===== verification/AltOk.thy ===== *)
theory AltOk
  imports InodeAlt InodeTrunc Volume Ramdisk
begin

text \<open>
  The alternate write path against the ordinary one.  It keeps three things in memory that the ordinary path
  writes at once: the block freemap, the checksum table and the indirect block of the inode.  \<open>lags N s ino t\<close>: \<open>t\<close>
  is the state in which they have been written, and \<open>s\<close> with the in-memory inode \<open>ino\<close> is behind it.  Every
  step of the alternate path on \<open>s\<close> is a step of the ordinary path on \<open>t\<close>, for the block numbers
  it picks; so what holds of a write with \<open>testfs_write_data\<close> holds of an aligned write with
  \<open>testfs_write_data_alternate\<close> once the caller has flushed.  A write from inside a block, which no caller
  does, puts part of its bytes elsewhere; the last section of the write says where.
\<close>

section \<open>The lagging state\<close>

definition same_meta :: "'d fsys \<Rightarrow> 'd fsys \<Rightarrow> bool" where
  "same_meta s t \<longleftrightarrow> bmap s = bmap t \<and> imap s = imap t \<and> csum_table_of s = csum_table_of t \<and>
     tx_in_progress (fs_sb s) = tx_in_progress (fs_sb t) \<and> fs_out s = fs_out t \<and> fs_bdev s = fs_bdev t"

definition lags :: "nat \<Rightarrow> 'd fsys \<Rightarrow> inode \<Rightarrow> 'd fsys \<Rightarrow> bool" where
  "lags N s ino t \<longleftrightarrow> fs_ok N s \<and> fs_ok N t \<and> same_meta s t \<and> csum_coherent s \<and>
     (\<forall>j < N. j < 2 \<or> 64 \<le> j \<longrightarrow>
        dblk t j = (if has_flag ino I_FLAGS_INDIRECT_DIRTY \<and> int j = i_indirect (i_in ino)
                    then words_bytes (i_ind ino) else dblk s j)) \<and>
     (has_flag ino I_FLAGS_INDIRECT_LOADED \<and> i_indirect (i_in ino) \<noteq> 0 \<longrightarrow>
        words_bytes (i_ind ino) = dblk t (nat (i_indirect (i_in ino)))) \<and>
     (has_flag ino I_FLAGS_INDIRECT_DIRTY \<longrightarrow>
        has_flag ino I_FLAGS_INDIRECT_LOADED \<and> i_indirect (i_in ino) \<noteq> 0) \<and>
     (i_indirect (i_in ino) \<noteq> 0 \<longrightarrow> 192 \<le> i_indirect (i_in ino) \<and> i_indirect (i_in ino) < 7872)"

lemma lagsD:
  assumes "lags N s ino t"
  shows "fs_ok N s" "fs_ok N t" "same_meta s t" "csum_coherent s"
    "j < N \<Longrightarrow> j < 2 \<or> 64 \<le> j \<Longrightarrow> dblk t j =
       (if has_flag ino I_FLAGS_INDIRECT_DIRTY \<and> int j = i_indirect (i_in ino) then words_bytes (i_ind ino) else dblk s j)"
    "has_flag ino I_FLAGS_INDIRECT_LOADED \<Longrightarrow> i_indirect (i_in ino) \<noteq> 0 \<Longrightarrow>
       words_bytes (i_ind ino) = dblk t (nat (i_indirect (i_in ino)))"
    "has_flag ino I_FLAGS_INDIRECT_DIRTY \<Longrightarrow> has_flag ino I_FLAGS_INDIRECT_LOADED \<and> i_indirect (i_in ino) \<noteq> 0"
    "i_indirect (i_in ino) \<noteq> 0 \<Longrightarrow> 192 \<le> i_indirect (i_in ino) \<and> i_indirect (i_in ino) < 7872"
  using assms unfolding lags_def by blast+

lemma same_metaD:
  assumes "same_meta s t"
  shows "used s = used t" "iused s = iused t" "nfree s = nfree t" "next_free s = next_free t" "ublocks s = ublocks t"
  using assms by (simp_all add: same_meta_def used_def iused_def nfree_def next_free_def ublocks_def)

text \<open>An operation of the alternate path keeps the identity of the inode, as \<open>same_inode\<close>, but not the indirect block.\<close>

definition shade :: "inode \<Rightarrow> inode" where
  "shade ino = ino\<lparr>i_flags := i_flags ino AND I_FLAGS_DIRTY, i_ind := []\<rparr>"

lemma shade_simps [simp]:
  "i_in (shade ino) = i_in ino" "i_nr (shade ino) = i_nr ino" "i_count (shade ino) = i_count ino"
  "i_sb (shade ino) = i_sb ino" "i_ind (shade ino) = []"
  "has_flag (shade ino) I_FLAGS_DIRTY = has_flag ino I_FLAGS_DIRTY"
  "\<not> has_flag (shade ino) I_FLAGS_INDIRECT_DIRTY"
  by (simp_all add: shade_def has_flag_def I_FLAGS_DIRTY_def I_FLAGS_INDIRECT_DIRTY_def and.assoc)

lemma flag_loaded [simp]:
  "has_flag (set_flag I_FLAGS_INDIRECT_LOADED ino) I_FLAGS_INDIRECT_LOADED"
  "has_flag (set_flag I_FLAGS_INDIRECT_LOADED ino) I_FLAGS_INDIRECT_DIRTY = has_flag ino I_FLAGS_INDIRECT_DIRTY"
  "has_flag (set_flag I_FLAGS_INDIRECT_LOADED ino) I_FLAGS_DIRTY = has_flag ino I_FLAGS_DIRTY"
  "has_flag (set_flag I_FLAGS_INDIRECT_DIRTY ino) I_FLAGS_INDIRECT_LOADED = has_flag ino I_FLAGS_INDIRECT_LOADED"
  "has_flag (set_flag I_FLAGS_INDIRECT_DIRTY ino) I_FLAGS_INDIRECT_DIRTY"
  "has_flag (set_flag I_FLAGS_INDIRECT_DIRTY ino) I_FLAGS_DIRTY = has_flag ino I_FLAGS_DIRTY"
  "has_flag (set_flag I_FLAGS_DIRTY ino) I_FLAGS_INDIRECT_LOADED = has_flag ino I_FLAGS_INDIRECT_LOADED"
  "has_flag (ino\<lparr>i_ind := x\<rparr>) f = has_flag ino f"
proof -
  have "(w OR 4) AND 4 = (4 :: 32 word)" "(w OR 4) AND 2 = w AND (2 :: 32 word)" "(w OR 4) AND 1 = w AND (1 :: 32 word)"
    "(w OR 2) AND 4 = w AND (4 :: 32 word)" "(w OR 2) AND 2 = (2 :: 32 word)" "(w OR 2) AND 1 = w AND (1 :: 32 word)"
    "(w OR 1) AND 4 = w AND (4 :: 32 word)" for w :: "32 word"
    by (simp_all add: word_ao_dist word_bw_assocs)
  then show
    "has_flag (set_flag I_FLAGS_INDIRECT_LOADED ino) I_FLAGS_INDIRECT_LOADED"
    "has_flag (set_flag I_FLAGS_INDIRECT_LOADED ino) I_FLAGS_INDIRECT_DIRTY = has_flag ino I_FLAGS_INDIRECT_DIRTY"
    "has_flag (set_flag I_FLAGS_INDIRECT_LOADED ino) I_FLAGS_DIRTY = has_flag ino I_FLAGS_DIRTY"
    "has_flag (set_flag I_FLAGS_INDIRECT_DIRTY ino) I_FLAGS_INDIRECT_LOADED = has_flag ino I_FLAGS_INDIRECT_LOADED"
    "has_flag (set_flag I_FLAGS_INDIRECT_DIRTY ino) I_FLAGS_INDIRECT_DIRTY"
    "has_flag (set_flag I_FLAGS_INDIRECT_DIRTY ino) I_FLAGS_DIRTY = has_flag ino I_FLAGS_DIRTY"
    "has_flag (set_flag I_FLAGS_DIRTY ino) I_FLAGS_INDIRECT_LOADED = has_flag ino I_FLAGS_INDIRECT_LOADED"
    "has_flag (ino\<lparr>i_ind := x\<rparr>) f = has_flag ino f"
    by (simp_all add: has_flag_def set_flag_def I_FLAGS_DIRTY_def I_FLAGS_INDIRECT_DIRTY_def I_FLAGS_INDIRECT_LOADED_def)
qed

lemma i_in_ind [simp]: "i_in (ino\<lparr>i_ind := x\<rparr>) = i_in ino"
  by simp

section \<open>Allocation in memory\<close>

definition mark_used :: "nat \<Rightarrow> 'd fsys \<Rightarrow> 'd fsys" where
  "mark_used k s = upd_sb (\<lambda>sb. sb\<lparr>block_freemap := Some (bm_put (bmap s) k True)\<rparr>) s"

lemma alloc_alternate:
  assumes "fs_ok N s" "0 < nfree s"
  shows "testfs_alloc_block_alternate s = Inr (192 + int (next_free s), mark_used (next_free s) s)"
proof -
  note k = nfree_next [OF assms] and ok = fs_okD [OF assms(1)]
  have "sint (word_of_int 192 + word_of_nat (next_free s) :: 32 word) = 192 + int (next_free s)"
  proof -
    have "word_of_int 192 + word_of_nat (next_free s) = (word_of_nat (192 + next_free s) :: 32 word)" by simp
    moreover have "sint (word_of_nat (192 + next_free s) :: 32 word) = int (192 + next_free s)"
      by (rule sint_word_of_nat) (use k(2) in simp)
    ultimately show ?thesis by simp
  qed
  then show ?thesis
    using k(1) ok bitmap_alloc_eq [OF ok(7)]
    by (simp add: testfs_alloc_block_alternate_def used_def mark_used_def next_free_def std_dsb_def)
qed

lemma mark_used_simps [simp]:
  "bmap (mark_used k s) = bmap (set_bmap k True s)" "imap (mark_used k s) = imap s" "csum_table_of (mark_used k s) = csum_table_of s"
  "fs_out (mark_used k s) = fs_out s" "fs_bdev (mark_used k s) = fs_bdev s" "dblk (mark_used k s) = dblk s"
  "tx_in_progress (fs_sb (mark_used k s)) = tx_in_progress (fs_sb s)" "csum_coherent (mark_used k s) = csum_coherent s"
  by (simp_all add: mark_used_def set_bmap_def bmap_def imap_def csum_table_of_def csum_coherent_def csum_tblk_def)

lemma fs_ok_mark_used: "fs_ok N s \<Longrightarrow> k < 8192 \<Longrightarrow> fs_ok N (mark_used k s)"
  using fs_ok_set_bmap [of N s k True]
  by (simp add: fs_ok_def freemaps_wf_def bmap_def imap_def csum_wf_def mark_used_def set_bmap_def)

section \<open>Looking a block up\<close>

text \<open>What an operation that only loads the indirect block keeps.\<close>

definition loads :: "inode \<Rightarrow> inode \<Rightarrow> bool" where
  "loads ino ino' \<longleftrightarrow> shade ino' = shade ino \<and>
     has_flag ino' I_FLAGS_INDIRECT_DIRTY = has_flag ino I_FLAGS_INDIRECT_DIRTY"

lemma shade_loaded: "shade (set_flag I_FLAGS_INDIRECT_LOADED (ino\<lparr>i_ind := x\<rparr>)) = shade ino"
  by (simp add: shade_def set_flag_def I_FLAGS_DIRTY_def I_FLAGS_INDIRECT_LOADED_def word_ao_dist)

lemma loadsD: "loads ino ino' \<Longrightarrow> i_in ino' = i_in ino" "loads ino ino' \<Longrightarrow> shade ino' = shade ino"
  by (metis loads_def shade_simps(1)) (simp add: loads_def)

lemma ensure_loaded:
  assumes l: "lags N s ino t" and i: "i_indirect (i_in ino) = 192 + int i" "i < MAX_NR_CSUMS"
  shows "\<exists>ino'. testfs_ensure_indirect_loaded ino s = Inr ino' \<and> lags N s ino' t \<and> loads ino ino' \<and>
    has_flag ino' I_FLAGS_INDIRECT_LOADED"
proof (cases "has_flag ino I_FLAGS_INDIRECT_LOADED")
  case True
  then show ?thesis using l by (simp add: testfs_ensure_indirect_loaded_def loads_def)
next
  case False
  note d = lagsD [OF l]
  have nd: "\<not> has_flag ino I_FLAGS_INDIRECT_DIRTY" using False d(7) by blast
  note bnd = data_block_bound [OF d(1) i(2)] and dev = fs_okD(1) [OF d(1)]
  let ?b = "dblk s (192 + i)"
  let ?ino = "set_flag I_FLAGS_INDIRECT_LOADED (ino\<lparr>i_ind := bytes_words 128 ?b\<rparr>)"
  have lb: "length ?b = 512" using length_dblk [OF dev bnd(1)] .
  have "read_blocks_async METADATA_REACTOR future_init (192 + int i) 1 =
      (fill_request_common METADATA_REACTOR (192 + int i) 1, count_expected METADATA_REACTOR future_init)"
    by (simp add: read_blocks_async_def)
  moreover have "bdev_accepts (fs_bdev s) (fs_media s) (192 + i) 1"
    using dev_okD(1) [OF dev, of 1 "192 + i"] bnd by simp
  then have "reactor_read (fill_request_common METADATA_REACTOR (192 + int i) 1) s buf f =
      (?b, count_completed METADATA_REACTOR f)" for buf f
    using bnd by (simp add: reactor_read_def fill_request_common_def dblk_def nat_add_distrib)
  moreover have "spin_wait (count_completed METADATA_REACTOR (count_expected METADATA_REACTOR future_init)) = Inr ()"
    by (simp add: spin_wait_def future_ready_def count_completed_def count_expected_def future_init_def numeral_eq_Suc)
  ultimately have "testfs_ensure_indirect_loaded ino s = Inr ?ino"
    using False i(1) by (simp add: testfs_ensure_indirect_loaded_def)
  moreover have "dblk t (192 + i) = ?b" using d(5) [OF bnd(1)] nd by simp
  then have "lags N s ?ino t"
    unfolding lags_def using d(1-5) nd i lb words_bytes_bytes_words [of ?b 128] by (simp add: nat_add_distrib)
  moreover have "loads ino ?ino" using nd by (simp add: loads_def shade_loaded)
  ultimately show ?thesis by auto
qed

lemma indirect_entry:
  assumes "lags N s ino t" "has_flag ino I_FLAGS_INDIRECT_LOADED" "i_indirect (i_in ino) = 192 + int i" "i < MAX_NR_CSUMS"
  shows "length (i_ind ino) = 128" "j < 128 \<Longrightarrow> sint (i_ind ino ! j) = int_at (dblk t (192 + i)) j"
proof -
  have w: "words_bytes (i_ind ino) = dblk t (192 + i)"
    using lagsD(6) [OF assms(1,2)] assms(3) by (simp add: nat_add_distrib)
  have "length (dblk t (192 + i)) = 512"
    using length_dblk [OF fs_okD(1) [OF lagsD(2) [OF assms(1)]] data_block_bound(1) [OF lagsD(2) [OF assms(1)] assms(4)]] .
  then have "4 * length (i_ind ino) = 512" unfolding w [symmetric] by simp
  then show l: "length (i_ind ino) = 128" by simp
  show "sint (i_ind ino ! j) = int_at (dblk t (192 + i)) j" if "j < 128"
    using that l by (simp add: int_at_def w [symmetric] word_at_words_bytes)
qed

lemma log_to_phy:
  assumes l: "lags N s ino t" and im: "imap_ok t (i_in ino) m" and n: "n < 132"
  shows "\<exists>ino'. testfs_inode_log_to_phy ino (int n) s = Inr (lblk t (i_in ino) n, ino') \<and> lags N s ino' t \<and> loads ino ino'"
proof (cases "n < 4")
  case True
  have "0 \<le> lblk t (i_in ino) n"
  proof (cases "n < m")
    case True
    with im show ?thesis by (rule lblk_mapped) simp
  next
    case False
    then show ?thesis using imap_okD(4) [OF im, of n] n by simp
  qed
  then show ?thesis
    using True l imap_okD(2) [OF im] by (simp add: testfs_inode_log_to_phy_def lblk_def loads_def)
next
  case False
  show ?thesis
  proof (cases "m \<le> 4")
    case True
    then show ?thesis using False n l imap_okD(3) [OF im] by (simp add: testfs_inode_log_to_phy_def lblk_def loads_def)
  next
    case m: False
    then obtain i where i: "i_indirect (i_in ino) = 192 + int i" "i < 7680" using im by (auto elim: indirect_mapped)
    obtain ino' where ino': "testfs_ensure_indirect_loaded ino s = Inr ino'" "lags N s ino' t" "loads ino ino'"
      "has_flag ino' I_FLAGS_INDIRECT_LOADED"
      using ensure_loaded [OF l i] by blast
    have i': "i_indirect (i_in ino') = 192 + int i" using i(1) loadsD(1) [OF ino'(3)] by simp
    note e = indirect_entry [OF ino'(2,4) i' i(2)]
    have n4: "nat (int n - 4) = n - 4" "n - 4 < 128" "int n - 4 < 128" using False n by simp_all
    have "nth_r (i_ind ino') (int n - 4) = Inr (i_ind ino' ! (n - 4))" using False n4 e(1) by simp
    moreover have "lblk t (i_in ino) n = sint (i_ind ino' ! (n - 4))"
      using False e(2) [OF n4(2)] i(1) by (simp add: lblk_def nat_add_distrib)
    ultimately show ?thesis using False n4(3) i(1) ino'(1-3) by (simp add: testfs_inode_log_to_phy_def)
  qed
qed

section \<open>Mapping the next block\<close>

text \<open>Taking a block and marking the inode.\<close>

lemma bmap_set_bmap: "bmap (set_bmap k on s) = bm_put (bmap s) k on"
  by (simp add: set_bmap_def bmap_def)

lemma same_meta_mark: "same_meta s t \<Longrightarrow> same_meta (mark_used k s) (set_bmap k True t)"
  by (simp add: same_meta_def bmap_set_bmap)

lemma lags_mark:
  assumes l: "lags N s ino t" and k: "k < MAX_NR_CSUMS" "k \<notin> used t"
  shows "lags N (mark_used k s) ino (set_bmap k True t)"
proof -
  note d = lagsD [OF l]
  have eq: "dblk (set_bmap k True t) j = dblk t j" if "j < N" "j < 2 \<or> 64 \<le> j" for j
    by (rule dblk_set_bmap_other [OF d(2) _ that(1)]) (use that k in auto)
  have "dblk (set_bmap k True t) (nat (i_indirect (i_in ino))) = dblk t (nat (i_indirect (i_in ino)))"
    if "i_indirect (i_in ino) \<noteq> 0"
    by (rule eq) (use d(8) [OF that] fs_okD(2) [OF d(2)] in auto)
  then show ?thesis
    unfolding lags_def using d eq k fs_ok_mark_used [OF d(1), of k] fs_ok_set_bmap [OF d(2), of k True] same_meta_mark [OF d(3)]
    by simp
qed

text \<open>The inode changes while the state stays, if it is a matter of the direct blocks, the size and the dirty flag.\<close>

lemma lags_inode:
  assumes "lags N s ino t" "i_indirect (i_in ino') = i_indirect (i_in ino)" "i_ind ino' = i_ind ino"
    and "has_flag ino' I_FLAGS_INDIRECT_DIRTY = has_flag ino I_FLAGS_INDIRECT_DIRTY"
    and "has_flag ino' I_FLAGS_INDIRECT_LOADED = has_flag ino I_FLAGS_INDIRECT_LOADED"
  shows "lags N s ino' t"
  using assms by (simp add: lags_def)

lemma shade_dirty: "shade (set_flag I_FLAGS_DIRTY ino) = set_flag I_FLAGS_DIRTY (shade ino)"
  "shade (upd_in f ino) = upd_in f (shade ino)" "shade (ino\<lparr>i_ind := x\<rparr>) = shade ino"
  "shade (set_flag I_FLAGS_INDIRECT_DIRTY ino) = shade ino" "shade (set_flag I_FLAGS_INDIRECT_LOADED ino) = shade ino"
  by (simp_all add: shade_def set_flag_def upd_in_def I_FLAGS_DIRTY_def I_FLAGS_INDIRECT_DIRTY_def I_FLAGS_INDIRECT_LOADED_def
      word_ao_dist)

text \<open>A new entry of the indirect block.\<close>

lemma words_bytes_update:
  assumes "j < length ws"
  shows "words_bytes (ws[j := word_of_int x]) = set_int_at (words_bytes ws) j x"
proof -
  have "ws[j := word_of_int x] = take j ws @ [word_of_int x] @ drop (Suc j) ws"
    using assms by (simp add: upd_conv_take_nth_drop)
  moreover have "drop (4 * j + 4) (words_bytes ws) = words_bytes (drop (Suc j) ws)"
    using words_bytes_drop [of "Suc j" ws] by (simp add: add.commute)
  ultimately show ?thesis
    using words_bytes_take [of j ws]
    by (simp add: words_bytes_append set_int_at_def blit_def int_bytes_def) (simp add: words_bytes_def)
qed

lemma lags_entry:
  assumes l: "lags N s ino t" and f: "has_flag ino I_FLAGS_INDIRECT_LOADED"
    and i: "i_indirect (i_in ino) = 192 + int i" "i < MAX_NR_CSUMS" and j: "j < 128"
  shows "lags N s (set_flag I_FLAGS_INDIRECT_DIRTY (ino\<lparr>i_ind := (i_ind ino)[j := word_of_int x]\<rparr>))
    (put_blk (set_int_at (dblk t (192 + i)) j x) (192 + i) t)"
proof -
  note d = lagsD [OF l] and e = indirect_entry [OF l f i]
  let ?ind = "(i_ind ino)[j := word_of_int x]" and ?b = "set_int_at (dblk t (192 + i)) j x"
  let ?t = "put_blk ?b (192 + i) t"
  note bnd = data_block_bound [OF d(2) i(2)] and dev = fs_okD(1) [OF d(2)]
  have w: "words_bytes ?ind = ?b"
    using words_bytes_update [of j "i_ind ino" x] e(1) j d(6) [OF f] i(1) by (simp add: nat_add_distrib)
  have lb: "length ?b = 512" using length_dblk [OF dev bnd(1)] j by simp
  have blk: "dblk ?t q = (if q = 192 + i then ?b else dblk t q)" if "q < N" for q
    using dblk_put_blk [OF dev bnd(1) that, of ?b] lb by simp
  have "same_meta s ?t" using d(3) by (simp add: same_meta_def bmap_def imap_def csum_table_of_def)
  moreover have "fs_ok N ?t" using d(2) by simp
  moreover have "dblk ?t q = (if int q = i_indirect (i_in ino) then words_bytes ?ind else dblk s q)"
    if "q < N" "q < 2 \<or> 64 \<le> q" for q
    using blk [OF that(1)] d(5) [OF that] i(1) w by auto
  ultimately show ?thesis
    unfolding lags_def using d(1,4,8) f i bnd blk [OF bnd(1)] w by (simp add: nat_add_distrib)
qed

text \<open>The data block the alternate allocation takes.\<close>

lemma alloc_alternate_lags:
  assumes "lags N s ino t" "0 < nfree t"
  shows "testfs_alloc_block_alternate s = Inr (192 + int (next_free t), mark_used (next_free t) s)"
    "next_free t < MAX_NR_CSUMS" "next_free t \<notin> used t"
    "lags N (mark_used (next_free t) s) ino (set_bmap (next_free t) True t)"
proof -
  note d = lagsD [OF assms(1)] and meta = same_metaD [OF lagsD(3) [OF assms(1)]]
  note k = nfree_next [OF d(2) assms(2)]
  show "testfs_alloc_block_alternate s = Inr (192 + int (next_free t), mark_used (next_free t) s)"
    using alloc_alternate [OF d(1)] assms(2) by (simp add: meta)
  show "next_free t < MAX_NR_CSUMS" "next_free t \<notin> used t" using k(2,3) by blast+
  show "lags N (mark_used (next_free t) s) ino (set_bmap (next_free t) True t)"
    by (rule lags_mark [OF assms(1) k(2,3)])
qed

text \<open>The alternate allocation maps the next block of the inode, for a free data block: a direct entry,
an entry of the indirect block in memory, or its first entry, which takes a free block for the indirect block as well.\<close>

lemma allocate_alternate_direct:
  assumes l: "lags N s ino t" and im: "imap_ok t (i_in ino) n" and n: "n < 4" and free: "need n \<le> nfree t"
  shows "\<exists>ino' s' t'. testfs_allocate_block_alternate ino (int n) s = Inr (192 + int (next_free t), ino', s') \<and>
    lags N s' ino' t' \<and> alloc_post N (shade ino) n t (next_free t) (shade ino') t' \<and> has_flag ino' I_FLAGS_DIRTY"
proof -
  let ?k = "next_free t"
  note d = lagsD [OF l]
  have "0 < nfree t" using free by (simp add: need_def split: if_splits)
  note al = alloc_alternate_lags [OF l this]
  have imsh: "imap_ok t (i_in (shade ino)) n" using im by simp
  let ?s1 = "mark_used ?k s" and ?t1 = "set_bmap ?k True t" and ?ino1 = "set_flag I_FLAGS_DIRTY ino"
  have l1: "lags N ?s1 ?ino1 ?t1" by (rule lags_inode [OF al(4)]) simp_all
  let ?ino' = "upd_in (\<lambda>d. d\<lparr>i_block_nr := (i_block_nr d)[n := 192 + int ?k]\<rparr>) ?ino1"
  have "testfs_allocate_block_alternate ino (int n) s = Inr (192 + int ?k, ?ino', ?s1)"
    using n al(1) imap_okD(2) [OF im] by (simp add: testfs_allocate_block_alternate_def Let_def)
  moreover have "lags N ?s1 ?ino' ?t1" by (rule lags_inode [OF l1]) simp_all
  moreover have "alloc_post N (shade ino) n t ?k (shade ?ino') ?t1"
    by (rule post_direct [OF d(2) imsh n al(2,3)]) (simp_all add: shade_dirty same_inode_def)
  moreover have "has_flag ?ino' I_FLAGS_DIRTY" by simp
  ultimately show ?thesis by blast
qed

lemma allocate_alternate_entry:
  assumes l: "lags N s ino t" and im: "imap_ok t (i_in ino) n" and n: "4 < n" "n < 132" and free: "need n \<le> nfree t"
  shows "\<exists>ino' s' t'. testfs_allocate_block_alternate ino (int n) s = Inr (192 + int (next_free t), ino', s') \<and>
    lags N s' ino' t' \<and> alloc_post N (shade ino) n t (next_free t) (shade ino') t' \<and> has_flag ino' I_FLAGS_DIRTY"
proof -
  let ?k = "next_free t"
  note d = lagsD [OF l]
  have "0 < nfree t" using free by (simp add: need_def split: if_splits)
  note al = alloc_alternate_lags [OF l this]
  have imsh: "imap_ok t (i_in (shade ino)) n" using im by simp
  let ?s1 = "mark_used ?k s" and ?t1 = "set_bmap ?k True t" and ?ino1 = "set_flag I_FLAGS_DIRTY ino"
  have l1: "lags N ?s1 ?ino1 ?t1" by (rule lags_inode [OF al(4)]) simp_all
  obtain i where i: "i_indirect (i_in ino) = 192 + int i" "i < 7680" "i \<in> used t" using im n(1) by (rule indirect_mapped)
  have i1: "i_indirect (i_in ?ino1) = 192 + int i" using i(1) by simp
  obtain ino2 where ino2: "testfs_ensure_indirect_loaded ?ino1 ?s1 = Inr ino2" "lags N ?s1 ino2 ?t1" "loads ?ino1 ino2"
    "has_flag ino2 I_FLAGS_INDIRECT_LOADED"
    using ensure_loaded [OF l1 i1 i(2)] by blast
  have i2: "i_indirect (i_in ino2) = 192 + int i" using i1 loadsD(1) [OF ino2(3)] by simp
  have n4: "nat (int n - 4) = n - 4" "n - 4 < 128" using n by simp_all
  let ?ino' = "set_flag I_FLAGS_INDIRECT_DIRTY (ino2\<lparr>i_ind := (i_ind ino2)[n - 4 := word_of_int (192 + int ?k)]\<rparr>)"
  let ?t' = "put_blk (set_int_at (dblk ?t1 (192 + i)) (n - 4) (192 + int ?k)) (192 + i) ?t1"
  have "nth_r (i_ind ino2) (int n - 4) = Inr (i_ind ino2 ! (n - 4))"
    using n n4 indirect_entry(1) [OF ino2(2,4) i2 i(2)] by simp
  then have "testfs_allocate_block_alternate ino (int n) s = Inr (192 + int ?k, ?ino', ?s1)"
    using n al(1) i(1) ino2(1) n4 by (simp add: testfs_allocate_block_alternate_def Let_def)
  moreover have "lags N ?s1 ?ino' ?t'" by (rule lags_entry [OF ino2(2,4) i2 i(2) n4(2)])
  moreover have sh: "shade ?ino' = set_flag I_FLAGS_DIRTY (shade ino)"
    using loadsD(2) [OF ino2(3)] by (simp add: shade_dirty)
  have "dblk ?t1 (192 + i) = dblk t (192 + i)"
    by (rule dblk_set_bmap_other [OF d(2)]) (use al(2) data_block_bound(1) [OF d(2) i(2)] in simp_all)
  then have "alloc_post N (shade ino) n t ?k (shade ?ino') ?t'"
    using post_indirect [OF d(2) imsh n al(2,3), of i "shade ?ino'"] i unfolding sh by (simp add: same_inode_def)
  moreover have "has_flag (shade ?ino') I_FLAGS_DIRTY" unfolding sh by simp
  then have "has_flag ?ino' I_FLAGS_DIRTY" unfolding shade_simps .
  ultimately show ?thesis by blast
qed

text \<open>The first entry of a new indirect block, in memory.\<close>

lemma lags_first_indirect:
  assumes l: "lags N s ino t" and ind: "i_indirect (i_in ino) = 0" and i: "i < MAX_NR_CSUMS"
    and used: "i \<in> used t"
  shows "lags N s (set_flag I_FLAGS_INDIRECT_DIRTY ((set_flag I_FLAGS_INDIRECT_LOADED
      (upd_in (\<lambda>d. d\<lparr>i_indirect := 192 + int i\<rparr>) (ino\<lparr>i_ind := replicate 128 0\<rparr>)))
        \<lparr>i_ind := (replicate 128 0)[0 := word_of_int v]\<rparr>))
    (put_blk (set_int_at (replicate 512 0) 0 v) (192 + i) t)"
proof -
  let ?new = "set_int_at (replicate 512 0) 0 v" and ?t' = "put_blk (set_int_at (replicate 512 0) 0 v) (192 + i) t"
  note d = lagsD [OF l] and bnd = data_block_bound [OF lagsD(2) [OF l] i]
  have nd: "\<not> has_flag ino I_FLAGS_INDIRECT_DIRTY" using d(7) ind by blast
  have w: "words_bytes ((replicate 128 0)[0 := word_of_int v]) = ?new"
    using words_bytes_update [of 0 "replicate 128 0" v] words_bytes_zero [of 128] by simp
  have blk: "dblk ?t' q = (if q = 192 + i then ?new else dblk t q)" if "q < N" for q
    using dblk_put_blk [OF fs_okD(1) [OF d(2)] bnd(1) that, of ?new] by simp
  have "same_meta s ?t'" using d(3) by (simp add: same_meta_def bmap_def imap_def csum_table_of_def)
  moreover have "fs_ok N ?t'" using d(2) by simp
  moreover have "dblk ?t' q = (if q = 192 + i then ?new else dblk s q)" if "q < N" "q < 2 \<or> 64 \<le> q" for q
    using blk [OF that(1)] d(5) [OF that] nd by simp
  ultimately show ?thesis
    unfolding lags_def using d(1,4) i used bnd blk [OF bnd(1)] w by (simp add: nat_add_distrib)
qed

lemma allocate_alternate_first:
  assumes l: "lags N s ino t" and im: "imap_ok t (i_in ino) n" and n: "n = 4" and free: "need n \<le> nfree t"
  shows "\<exists>ino' s' t'. testfs_allocate_block_alternate ino (int n) s = Inr (192 + int (next_free t), ino', s') \<and>
    lags N s' ino' t' \<and> alloc_post N (shade ino) n t (next_free t) (shade ino') t' \<and> has_flag ino' I_FLAGS_DIRTY"
proof -
  let ?k = "next_free t"
  note d = lagsD [OF l]
  have "0 < nfree t" using free by (simp add: need_def split: if_splits)
  note al = alloc_alternate_lags [OF l this]
  have imsh: "imap_ok t (i_in (shade ino)) n" using im by simp
  let ?s1 = "mark_used ?k s" and ?t1 = "set_bmap ?k True t" and ?ino1 = "set_flag I_FLAGS_DIRTY ino"
  have l1: "lags N ?s1 ?ino1 ?t1" by (rule lags_inode [OF al(4)]) simp_all
  have ind: "i_indirect (i_in ino) = 0" using imap_okD(3) [OF im] n by simp
  have f2: "2 \<le> nfree t" using free n by (simp add: need_def)
  have nf1: "nfree t = Suc (nfree ?t1)" by (rule nfree_take [OF d(2) al(2,3)])
  have pos1: "0 < nfree ?s1" "0 < nfree ?t1" using f2 nf1 same_metaD(3) [OF lagsD(3) [OF l1]] by simp_all
  note ok1 = lagsD(1,2) [OF l1]
  let ?i = "next_free ?t1"
  note i = nfree_next [OF ok1(2) pos1(2)]
  have al1: "testfs_alloc_block_alternate ?s1 = Inr (192 + int ?i, mark_used ?i ?s1)"
    using alloc_alternate [OF ok1(1) pos1(1)] same_metaD(4) [OF lagsD(3) [OF l1]] by simp
  have used1: "used ?t1 = insert ?k (used t)" using used_set_bmap [OF d(2), of ?k True] al(2) by simp
  have ik: "?i \<noteq> ?k" "?i \<notin> used t" using i(3) used1 by auto
  let ?s2 = "mark_used ?i ?s1" and ?t2 = "set_bmap ?i True ?t1"
  let ?z = "replicate 512 0 :: byte list"
  let ?ino2 = "set_flag I_FLAGS_INDIRECT_LOADED (upd_in (\<lambda>d. d\<lparr>i_indirect := 192 + int ?i\<rparr>) (?ino1\<lparr>i_ind := replicate 128 0\<rparr>))"
  let ?ino' = "set_flag I_FLAGS_INDIRECT_DIRTY (?ino2\<lparr>i_ind := (replicate 128 0)[0 := word_of_int (192 + int ?k)]\<rparr>)"
  let ?new = "set_int_at ?z 0 (192 + int ?k)"
  let ?t' = "put_blk ?new (192 + ?i) ?t2"
  have used2: "used ?t2 = insert ?k (insert ?i (used t))"
    using used_set_bmap [OF ok1(2), of ?i True] i(2) used1 by auto
  have "testfs_allocate_block_alternate ino (int n) s = Inr (192 + int ?k, ?ino', ?s2)"
    using n al(1) al1 ind by (simp add: testfs_allocate_block_alternate_def Let_def)
  moreover have "lags N ?s2 ?ino' ?t'"
    by (rule lags_first_indirect [OF lags_mark [OF l1 i(2,3)] _ i(2)]) (use ind used2 in simp_all)
  moreover have st: "data_step N {192 + int ?i} t ?t2"
    by (rule data_step_trans [OF data_step_set_bmap [OF d(2) al(2,3)] data_step_set_bmap [OF ok1(2) i(2,3)]])
  have nf: "nfree t = nfree ?t2 + 2" using nf1 nfree_take [OF ok1(2) i(2,3)] by simp
  have im4: "imap_ok t (i_in (shade ino)) 4" using imsh n by simp
  have "alloc_post N (shade ino) 4 t ?k (shade ?ino') ?t'"
    by (rule post_first_indirect [OF d(2) im4 al(2,3) i(2) ik(2,1) st used2 nf])
      (simp_all add: shade_dirty same_inode_def)
  then have "alloc_post N (shade ino) n t ?k (shade ?ino') ?t'" using n by simp
  moreover have "has_flag ?ino' I_FLAGS_DIRTY" by simp
  ultimately show ?thesis by blast
qed

lemma allocate_alternate:
  assumes "lags N s ino t" "imap_ok t (i_in ino) n" "n < 132" "need n \<le> nfree t"
  shows "\<exists>k ino' s' t'. testfs_allocate_block_alternate ino (int n) s = Inr (192 + int k, ino', s') \<and>
    lags N s' ino' t' \<and> alloc_post N (shade ino) n t k (shade ino') t' \<and> has_flag ino' I_FLAGS_DIRTY"
proof -
  consider "n < 4" | "n = 4" | "4 < n" by linarith
  then show ?thesis
    using allocate_alternate_direct [OF assms(1,2) _ assms(4)] allocate_alternate_first [OF assms(1,2) _ assms(4)]
      allocate_alternate_entry [OF assms(1,2) _ assms(3,4)] by cases metis+
qed

section \<open>One block written\<close>

lemma calculate_csum_take:
  assumes "512 \<le> length buf"
  shows "testfs_calculate_csum buf BLOCK_SIZE = Inr (csum_of (take 512 buf))"
proof -
  have "bytes_words 128 buf = bytes_words 128 (take 512 buf)" by (simp add: bytes_words_def word_at_def seg_def drop_take)
  then show ?thesis using assms csum_fold [of 128 buf 0] by (simp add: testfs_calculate_csum_def csum_of_def)
qed

text \<open>The data goes to the disk, its checksum only to the table in memory.\<close>

lemma lags_put_data:
  assumes l: "lags N s ino t" and im: "imap_ok t (i_in ino) m" and n: "n < m"
    and k: "lblk t (i_in ino) n = 192 + int k" "k < MAX_NR_CSUMS" and len: "length B = 512"
  shows "lags N (set_csum_st k (csum_of B) (put_blk B (192 + k) s)) ino (put_data k B t)"
proof -
  note d = lagsD [OF l] and bnd = data_block_bound [OF lagsD(1) [OF l] k(2)]
  let ?s1 = "put_blk B (192 + k) s" and ?t1 = "put_blk B (192 + k) t"
  let ?s' = "set_csum_st k (csum_of B) ?s1" and ?t' = "put_data k B t"
  have ok1: "fs_ok N ?s1" "fs_ok N ?t1" using d(1,2) by simp_all
  have coh: "csum_coherent ?s1"
    using d(4) dblk_put_blk [OF fs_okD(1) [OF d(1)] bnd(1), of _ B] fs_okD(2) [OF d(1)] len
    by (simp add: csum_coherent_def csum_tblk_def csum_table_of_def)
  note sc = fs_ok_set_csum [OF ok1(1) coh k(2), of "csum_of B"]
  have bs: "dblk ?s' j = (if j = 192 + k then B else dblk s j)" if "j < N" for j
    using sc(4) dblk_put_blk [OF fs_okD(1) [OF d(1)] bnd(1) that, of B] len by simp
  have bt: "dblk ?t' j = (if j = 192 + k then B else dblk t j)" if "j < N" "j < 2 \<or> 64 \<le> j" for j
    using that dblk_put_csum [of N ?t1 k j "csum_of B"] fs_okD(1,3,5) [OF ok1(2)] k(2) len
      dblk_put_blk [OF fs_okD(1) [OF d(2)] bnd(1) that(1), of B]
    by (auto simp: put_data_def)
  have ne: "i_indirect (i_in ino) \<noteq> 192 + int k" if "i_indirect (i_in ino) \<noteq> 0"
    using imap_okD(3,6) [OF im] n k(1) that by (metis not_le)
  have "same_meta ?s' ?t'"
    using d(3) by (simp add: same_meta_def put_data_def set_csum_st_def bmap_def imap_def csum_table_of_def put_csum_st_def)
  moreover have "fs_ok N ?t'" unfolding put_data_def using ok1(2) by (rule fs_ok_put_csum)
  moreover have "nat (i_indirect (i_in ino)) \<noteq> 192 + k \<and> nat (i_indirect (i_in ino)) < N \<and> 64 \<le> nat (i_indirect (i_in ino))"
    if "i_indirect (i_in ino) \<noteq> 0"
    using ne [OF that] d(8) [OF that] fs_okD(2) [OF d(1)] by auto
  moreover have "int (192 + k) \<noteq> i_indirect (i_in ino)" if "has_flag ino I_FLAGS_INDIRECT_DIRTY"
    using ne d(7) [OF that] by auto
  ultimately show ?thesis
    unfolding lags_def using d(5-8) sc(1,2) bs bt by auto
qed

text \<open>The next or a mapped block is found or allocated.\<close>

lemma alternate_any:
  assumes l: "lags N s ino t" and im: "imap_ok t (i_in ino) m"
    and n: "n \<le> m" "n < 132" and free: "n = m \<Longrightarrow> need m \<le> nfree t"
  shows "\<exists>k ino' s' t'. bind_r (testfs_inode_log_to_phy ino (int n) s) (\<lambda>(phy, ino).
        if phy = 0 then testfs_allocate_block_alternate ino (int n) s else Inr (phy, ino, s)) =
        Inr (192 + int k, ino', s') \<and>
    k < MAX_NR_CSUMS \<and> lblk t' (i_in ino') n = 192 + int k \<and> lags N s' ino' t' \<and>
    inode_step N t (i_in ino) m t' (i_in ino') (max m (Suc n)) \<and> keeps_data t (i_in ino) m t' (i_in ino') \<and>
    i_size (i_in ino') = i_size (i_in ino) \<and> same_inode (shade ino) (shade ino') \<and>
    nfree t = nfree t' + (if n = m then need n else 0) \<and> (n < m \<longrightarrow> loads ino ino')"
proof -
  obtain ino1 where ino1: "testfs_inode_log_to_phy ino (int n) s = Inr (lblk t (i_in ino) n, ino1)"
    "lags N s ino1 t" "loads ino ino1"
    using log_to_phy [OF l im n(2)] by blast
  have in1: "i_in ino1 = i_in ino" "shade ino1 = shade ino" using loadsD [OF ino1(3)] .
  show ?thesis
  proof (cases "n < m")
    case True
    obtain k where k: "lblk t (i_in ino) n = 192 + int k" "k < 7680" using im True by (rule lblk_mapped)
    moreover have "max m (Suc n) = m" using True by simp
    ultimately show ?thesis
      using ino1 in1 True inode_step_refl [OF lagsD(2) [OF l] im] keeps_data_refl [of t "i_in ino" m] by auto
  next
    case False
    then have nm: "n = m" using n by simp
    have im1: "imap_ok t (i_in ino1) n" using im nm in1(1) by simp
    have z: "lblk t (i_in ino) n = 0" using imap_okD(4) [OF im] nm n(2) by simp
    obtain k ino' s' t' where al: "testfs_allocate_block_alternate ino1 (int n) s = Inr (192 + int k, ino', s')"
      "lags N s' ino' t'" and post: "alloc_post N (shade ino1) n t k (shade ino') t'"
      using allocate_alternate [OF ino1(2) im1 n(2)] free [OF nm] nm by blast
    have p: "k < 7680" "lblk t' (i_in ino') n = 192 + int k" "i_size (i_in ino') = i_size (i_in ino)"
      "same_inode (shade ino) (shade ino')" "nfree t = nfree t' + need n"
      using post n(2) in1 unfolding alloc_post_def by simp_all
    have ims: "imap_ok t (i_in (shade ino1)) n" using im1 by simp
    have "inode_step N t (i_in ino) n t' (i_in ino') (Suc n)" "keeps_data t (i_in ino) n t' (i_in ino')"
      using alloc_post_step [OF lagsD(2) [OF l] ims n(2) post] in1 by simp_all
    then show ?thesis using p al ino1(1) z nm by auto
  qed
qed

text \<open>
  The file of \<open>ino\<close> grows from \<open>m\<close> to \<open>m'\<close> blocks and its bytes become \<open>g\<close>; without a new block the
  indirect block in memory stays as clean or dirty as it was.
\<close>

definition file_post ::
    "nat \<Rightarrow> 'd fsys \<Rightarrow> inode \<Rightarrow> nat \<Rightarrow> nat \<Rightarrow> (nat \<Rightarrow> byte) \<Rightarrow> 'd fsys \<Rightarrow> inode \<Rightarrow> bool" where
  "file_post N t ino m m' g t' ino' \<longleftrightarrow>
     inode_step N t (i_in ino) m t' (i_in ino') m' \<and> csums_ok t' (i_in ino') m' \<and>
     i_size (i_in ino') = i_size (i_in ino) \<and> same_inode (shade ino) (shade ino') \<and>
     nfree t = nfree t' + needs m m' \<and> (\<forall>p < 512 * m'. fbyte t' (i_in ino') p = g p) \<and>
     (m' = m \<longrightarrow> has_flag ino' I_FLAGS_INDIRECT_DIRTY = has_flag ino I_FLAGS_INDIRECT_DIRTY)"

lemma file_post_refl:
  "lags N s ino t \<Longrightarrow> imap_ok t (i_in ino) m \<Longrightarrow> csums_ok t (i_in ino) m \<Longrightarrow>
   file_post N t ino m m (fbyte t (i_in ino)) t ino"
  using inode_step_refl [OF lagsD(2)] by (simp add: file_post_def needs_def)

lemma needs_add: "a \<le> b \<Longrightarrow> b \<le> c \<Longrightarrow> needs a c = needs a b + needs b c"
  unfolding needs_def by (simp add: sum.atLeastLessThan_concat)

lemma needs_next: "n \<le> m \<Longrightarrow> needs m (max m (Suc n)) = (if n = m then need n else 0)"
  by (auto simp: needs_def max_def)

lemma file_post_trans:
  assumes "file_post N t ino m m1 g1 t1 ino1" "file_post N t1 ino1 m1 m2 g2 t2 ino2" "m \<le> m1" "m1 \<le> m2"
    and "\<And>p. p < 512 * m2 \<Longrightarrow> g2 p = g p"
  shows "file_post N t ino m m2 g t2 ino2"
  using assms(1-5) needs_add [OF assms(3,4)] inode_step_trans [of N t "i_in ino" m t1 "i_in ino1" m1]
    same_inode_trans [of "shade ino" "shade ino1"]
  unfolding file_post_def by auto

lemma file_postD:
  assumes "file_post N t ino m m' g t' ino'"
  shows "imap_ok t' (i_in ino') m'" "csums_ok t' (i_in ino') m'" "nfree t = nfree t' + needs m m'"
    "p < 512 * m' \<Longrightarrow> fbyte t' (i_in ino') p = g p"
    "m' = m \<Longrightarrow> has_flag ino' I_FLAGS_INDIRECT_DIRTY = has_flag ino I_FLAGS_INDIRECT_DIRTY"
  using assms inode_stepD(2) unfolding file_post_def by blast+

text \<open>The run of one block: the block \<open>192 + k\<close> that is found or allocated, the write, the entry of the table.\<close>

lemma alternate_block_run:
  assumes l: "lags N s ino t" and im: "imap_ok t (i_in ino) m" and cs: "csums_ok t (i_in ino) m"
    and n: "n \<le> m" "n < 132" and free: "n = m \<Longrightarrow> need m \<le> nfree t" and len: "512 \<le> length buf"
  shows "\<exists>k ino' s1 s' t'. k < MAX_NR_CSUMS \<and> lblk t' (i_in ino') n = 192 + int k \<and>
    bind_r (testfs_inode_log_to_phy ino (int n) s) (\<lambda>(phy, ino).
        if phy = 0 then testfs_allocate_block_alternate ino (int n) s else Inr (phy, ino, s)) =
        Inr (192 + int k, ino', s1) \<and>
    s' = set_csum_st k (csum_of (take 512 buf)) (put_blk (take 512 buf) (192 + k) s1) \<and> fs_ok N s1 \<and>
    testfs_file_write_block ino (int n) buf s = Inr (0, ino', s') \<and> lags N s' ino' t' \<and>
    (\<forall>j < m. lblk t' (i_in ino') j = lblk t (i_in ino) j) \<and>
    file_post N t ino m (max m (Suc n))
      (\<lambda>p. if p div 512 = n then buf ! (p mod 512) else fbyte t (i_in ino) p) t' ino'"
proof -
  let ?B = "take 512 buf" and ?m = "max m (Suc n)"
  obtain k ino1 s1 t1 where run: "bind_r (testfs_inode_log_to_phy ino (int n) s) (\<lambda>(phy, ino).
        if phy = 0 then testfs_allocate_block_alternate ino (int n) s else Inr (phy, ino, s)) =
        Inr (192 + int k, ino1, s1)"
    and k: "lblk t1 (i_in ino1) n = 192 + int k" "k < 7680" and l1: "lags N s1 ino1 t1"
    and st: "inode_step N t (i_in ino) m t1 (i_in ino1) ?m" and keep: "keeps_data t (i_in ino) m t1 (i_in ino1)"
    and rest: "i_size (i_in ino1) = i_size (i_in ino)" "same_inode (shade ino) (shade ino1)"
    "nfree t = nfree t1 + (if n = m then need n else 0)" and ld: "n < m \<Longrightarrow> loads ino ino1"
    using alternate_any [OF l im n free] by blast
  note st1 = inode_stepD [OF st]
  have nm: "n < ?m" by simp
  have lB: "length ?B = 512" using len by simp
  note pf = put_data_file [OF st1(3,2) nm k lB] and bnd = data_block_bound [OF lagsD(1) [OF l1] k(2)]
  let ?s2 = "put_blk ?B (192 + k) s1"
  let ?s' = "set_csum_st k (csum_of ?B) ?s2" and ?t' = "put_data k ?B t1"
  note ok1 = fs_okD [OF lagsD(1) [OF l1]]
  have wr: "write_blocks buf (192 + int k) 1 s1 = Inr ?s2"
    using write_block [OF ok1(1), of "192 + int k" buf] bnd len put_blk_take [of buf "192 + k" s1]
    by (simp add: nat_add_distrib)
  have "testfs_set_csum (192 + int k) (csum_of ?B) ?s2 = Inr ?s'"
    by (rule set_csum_eq) (use ok1(4,5) k(2) in simp_all)
  then have ww: "testfs_file_write_block ino (int n) buf s = Inr (0, ino1, ?s')"
    using run wr calculate_csum_take [OF len]
    unfolding testfs_file_write_block_def by (auto split: sum.splits if_splits prod.splits simp: bind_r_def)
  have l': "lags N ?s' ino1 ?t'" by (rule lags_put_data [OF l1 st1(2) nm k lB])
  have "fbyte ?t' (i_in ino1) p = (if p div 512 = n then ?B ! (p mod 512) else fbyte t (i_in ino) p)"
    if p: "p < 512 * ?m" for p
  proof (cases "p div 512 = n")
    case False
    then have "p div 512 < m" using div_512_less [OF p] n(1) by linarith
    then have "fbyte t1 (i_in ino1) p = fbyte t (i_in ino) p"
      using keep by (simp add: fbyte_def keeps_data_def)
    then show ?thesis using pf(2) [OF p] False by simp
  qed (use pf(2) [OF p] in simp)
  moreover have "csums_ok ?t' (i_in ino1) ?m"
    by (rule put_data_csums [OF im keep cs n(1) st1(3,2) k lB])
  moreover have "inode_step N t (i_in ino) m ?t' (i_in ino1) ?m" using st pf(1) by (rule inode_step_trans)
  moreover have "nfree ?t' = nfree t1" using put_data_step(3) [OF st1(3) k(2) lB] .
  ultimately have "file_post N t ino m ?m (\<lambda>p. if p div 512 = n then buf ! (p mod 512) else fbyte t (i_in ino) p) ?t' ino1"
    using rest needs_next [OF n(1)] ld unfolding file_post_def loads_def by simp
  moreover have "lblk ?t' (i_in ino1) = lblk t1 (i_in ino1)"
  proof (rule inode_step_same(2) [OF st1(2) put_data_step(1) [OF st1(3) k(2) lB] _ put_data_step(2) [OF st1(3) k(2) lB]])
    show "{192 + int k} \<subseteq> iblks t1 (i_in ino1) ?m" using lblk_in_iblks [OF nm, of t1 "i_in ino1"] k(1) by simp
    assume m: "4 < ?m"
    obtain i where i: "i_indirect (i_in ino1) = 192 + int i" "i < 7680" using st1(2) m by (rule indirect_mapped)
    have "i \<noteq> k" using imap_okD(6) [OF st1(2) m nm] i(1) k(1) by auto
    then show "dblk ?t' (nat (i_indirect (i_in ino1))) = dblk t1 (nat (i_indirect (i_in ino1)))"
      using put_data_step(5) [OF st1(3) k(2) lB i(2)] i(1) by (simp add: nat_add_distrib)
  qed
  then have "lblk ?t' (i_in ino1) n = 192 + int k" "\<forall>j < m. lblk ?t' (i_in ino1) j = lblk t (i_in ino) j"
    using k(1) keep by (simp_all add: keeps_data_def)
  ultimately show ?thesis using ww l' k(2) run lagsD(1) [OF l1]
    by (intro exI [of _ k] exI [of _ ino1]) blast
qed

lemma alternate_block:
  assumes l: "lags N s ino t" and im: "imap_ok t (i_in ino) m" and cs: "csums_ok t (i_in ino) m"
    and n: "n \<le> m" "n < 132" and free: "n = m \<Longrightarrow> need m \<le> nfree t" and len: "512 \<le> length buf"
  shows "\<exists>ino' s' t'. testfs_file_write_block ino (int n) buf s = Inr (0, ino', s') \<and>
    lags N s' ino' t' \<and> 
    file_post N t ino m (max m (Suc n))
      (\<lambda>p. if p div 512 = n then buf ! (p mod 512) else fbyte t (i_in ino) p) t' ino'"
  using alternate_block_run [OF assms] by blast

lemma less_512_Suc: "(p :: nat) < 512 * n \<Longrightarrow> p div 512 \<noteq> n"
  using div_512_less [of p n] by simp

lemma write_contig_eq:
  assumes "lags N s ino t" "imap_ok t (i_in ino) m" "csums_ok t (i_in ino) m"
    and "a \<le> m" "a + c \<le> 132" "needs m (max m (a + c)) \<le> nfree t" "off + 512 * c \<le> length buf"
  shows "\<exists>ino' s' t'. write_contig ino (int a) (int (a + c) - 1) buf (int off) s = Inr (0, ino', s') \<and>
    lags N s' ino' t' \<and>
    file_post N t ino m (max m (a + c))
      (\<lambda>p. if 512 * a \<le> p \<and> p < 512 * (a + c) then buf ! (off + (p - 512 * a)) else fbyte t (i_in ino) p) t' ino'"
  using assms
proof (induction c arbitrary: a m off ino s t)
  case 0
  then have "max m a = m" by simp
  moreover have "(\<lambda>p. if 512 * a \<le> p \<and> p < 512 * a then x p else fbyte t (i_in ino) p) = fbyte t (i_in ino)" for x
    by (rule ext, rule if_not_P) linarith
  ultimately show ?case
    using 0 file_post_refl [OF 0(1-3)] by (subst write_contig.simps) auto
next
  case (Suc c)
  let ?M = "max m (Suc a)" and ?e = "max m (a + Suc c)"
  have e: "max ?M (Suc a + c) = ?e" by simp
  have nd: "needs m ?e = needs m ?M + needs ?M ?e" by (rule needs_add) simp_all
  have free: "a = m \<Longrightarrow> need m \<le> nfree t" using Suc.prems(4,6) nd needs_next [of a m] by simp
  have a132: "a < 132" and ln: "512 \<le> length (drop off buf)" using Suc.prems(5,7) by simp_all
  from alternate_block [OF Suc.prems(1-4) a132 free ln]
  obtain ino1 s1 t1 where w: "testfs_file_write_block ino (int a) (drop off buf) s = Inr (0, ino1, s1)"
    and l1: "lags N s1 ino1 t1" and p1: "file_post N t ino m ?M
      (\<lambda>p. if p div 512 = a then drop off buf ! (p mod 512) else fbyte t (i_in ino) p) t1 ino1"
    by blast
  note d1 = file_postD [OF p1]
  have "\<exists>ino' s' t'. write_contig ino1 (int (Suc a)) (int (Suc a + c) - 1) buf (int (off + 512)) s1 = Inr (0, ino', s') \<and>
    lags N s' ino' t' \<and>
    file_post N t1 ino1 ?M (max ?M (Suc a + c))
      (\<lambda>p. if 512 * Suc a \<le> p \<and> p < 512 * (Suc a + c) then buf ! ((off + 512) + (p - 512 * Suc a))
            else fbyte t1 (i_in ino1) p) t' ino'"
    by (rule Suc.IH [OF l1 d1(1,2)]) (use Suc.prems(5-7) nd d1(3) e in simp_all)
  then obtain ino' s' t' where w': "write_contig ino1 (int (Suc a)) (int (Suc a + c) - 1) buf (int (off + 512)) s1 =
      Inr (0, ino', s')" and l': "lags N s' ino' t'" and p': "file_post N t1 ino1 ?M ?e
      (\<lambda>p. if 512 * Suc a \<le> p \<and> p < 512 * (Suc a + c) then buf ! ((off + 512) + (p - 512 * Suc a))
            else fbyte t1 (i_in ino1) p) t' ino'"
    unfolding e by blast
  have "write_contig ino (int a) (int (a + Suc c) - 1) buf (int off) s = Inr (0, ino', s')"
    using w w' by (subst write_contig.simps) (simp add: add.commute)
  moreover have "file_post N t ino m ?e (\<lambda>p. if 512 * a \<le> p \<and> p < 512 * (a + Suc c)
      then buf ! (off + (p - 512 * a)) else fbyte t (i_in ino) p) t' ino'"
  proof (rule file_post_trans [OF p1 p'])
    fix p assume p: "p < 512 * ?e"
    consider "p < 512 * a" | "512 * a \<le> p" "p < 512 * Suc a" | "512 * Suc a \<le> p" "p < 512 * (Suc a + c)"
      | "512 * (Suc a + c) \<le> p" by linarith
    then show "(if 512 * Suc a \<le> p \<and> p < 512 * (Suc a + c) then buf ! ((off + 512) + (p - 512 * Suc a))
          else fbyte t1 (i_in ino1) p) =
        (if 512 * a \<le> p \<and> p < 512 * (a + Suc c) then buf ! (off + (p - 512 * a)) else fbyte t (i_in ino) p)"
    proof cases
      case 1
      have "512 * a \<le> 512 * ?M" by (rule mult_le_mono2) simp
      then have "p < 512 * ?M" "p div 512 \<noteq> a" using 1 less_512_Suc by simp_all
      then show ?thesis using 1 d1(4) by simp
    next
      case 2
      then have q: "p div 512 = a" by (simp add: div_nat_eqI mult.commute)
      then have q2: "p mod 512 = p - 512 * a" using minus_mult_div_eq_mod [of p 512] by simp
      have "512 * Suc a \<le> 512 * ?M" by (rule mult_le_mono2) simp
      then have "p < 512 * ?M" using 2 by simp
      then show ?thesis using 2 q q2 d1(4) ln by simp
    next
      case 3
      have "off + 512 + (p - 512 * Suc a) = off + (p - 512 * a)" using 3(1) by simp
      then show ?thesis using 3 by simp
    next
      case 4
      then have "p < 512 * m" using p by (simp add: max_def split: if_splits)
      moreover have "512 * m \<le> 512 * ?M" by (rule mult_le_mono2) simp
      ultimately have "p < 512 * ?M" by linarith
      moreover have "p div 512 \<noteq> a" using 4 div_le_mono [of "512 * Suc (a + c)" p 512] by simp
      ultimately show ?thesis using 4 d1(4) by simp
    qed
  qed simp_all
  ultimately show ?case using l' by blast
qed

section \<open>A write from a block boundary\<close>

lemma read_block_alternate:
  assumes l: "lags N s ino t" and im: "imap_ok t (i_in ino) m" and n: "n < 132"
  shows "\<exists>ino' B. testfs_file_read_block ino (int n) s = Inr (B, ino') \<and> lags N s ino' t \<and> loads ino ino' \<and>
    length B = 512 \<and> (\<forall>q < 512. B ! q = (if n < m then fbyte t (i_in ino) (512 * n + q) else 0))"
proof -
  obtain ino1 where ino1: "testfs_inode_log_to_phy ino (int n) s = Inr (lblk t (i_in ino) n, ino1)"
    "lags N s ino1 t" "loads ino ino1"
    using log_to_phy [OF l im n] by blast
  show ?thesis
  proof (cases "n < m")
    case True
    obtain k where k: "lblk t (i_in ino) n = 192 + int k" "k < 7680" using im True by (rule lblk_mapped)
    note dev = fs_okD(1) [OF lagsD(1) [OF l]] and bnd = data_block_bound [OF lagsD(1) [OF l] k(2)]
    have "i_indirect (i_in ino) \<noteq> 192 + int k" if "i_indirect (i_in ino) \<noteq> 0"
      using imap_okD(3,6) [OF im] True k(1) that by (metis not_le)
    then have "dblk s (192 + k) = dblk t (192 + k)"
      using lagsD(5) [OF l bnd(1)] lagsD(7) [OF l] by auto
    moreover have "testfs_file_read_block ino (int n) s = Inr (dblk s (192 + k), ino1)"
      using ino1(1) k(1) read_block [OF dev, of "192 + int k"] bnd
      by (simp add: testfs_file_read_block_def nat_add_distrib)
    moreover have "length (dblk s (192 + k)) = 512" using length_dblk [OF dev bnd(1)] .
    ultimately show ?thesis using ino1 True k(1) by (auto simp: fbyte_def nat_add_distrib)
  next
    case False
    then have "lblk t (i_in ino) n = 0" using imap_okD(4) [OF im] n by simp
    then show ?thesis using ino1 False by (auto simp: testfs_file_read_block_def)
  qed
qed

text \<open>The block range of an aligned write.\<close>

lemma nblocks_div: "nblocks sz = sz div 512 + (if sz mod 512 \<noteq> 0 then 1 else 0)"
proof -
  have "sz = sz mod 512 + 512 * (sz div 512)" by simp
  then have "nblocks sz = (sz mod 512 + 511 + 512 * (sz div 512)) div 512" unfolding nblocks_def by linarith
  also have "\<dots> = sz div 512 + (sz mod 512 + 511) div 512" by (subst div_mult_self2) simp_all
  also have "(sz mod 512 + 511) div 512 = (if sz mod 512 \<noteq> 0 then 1 else 0)"
    by (auto intro: div_nat_eqI)
  finally show ?thesis .
qed

lemma aligned_range:
  assumes "0 < sz"
  shows "alt_tail_size (int (512 * a)) (int sz) = int (sz mod 512)"
    "alt_log_end (int (512 * a)) (int sz) = int (a + nblocks sz) - 1"
proof -
  have m: "int sz mod 512 = int (sz mod 512)" by (simp add: zmod_int)
  show t: "alt_tail_size (int (512 * a)) (int sz) = int (sz mod 512)"
    by (simp add: alt_tail_size_def m)
  have d: "(int sz - int (sz mod 512)) div 512 = int (sz div 512)"
    by (simp add: zdiv_int zmod_int minus_mod_eq_mult_div)
  have "(int sz - int (sz mod 512)) sdiv 512 = int (sz div 512)"
    unfolding d [symmetric] by (rule sdiv_nonneg) simp_all
  then have "alt_log_end (int (512 * a)) (int sz) =
      int a + int (sz div 512) + (if sz mod 512 \<noteq> 0 then 1 else 0) - 1"
    using t by (simp add: alt_log_end_def Let_def)
  moreover have "int (nblocks sz) = int (sz div 512) + (if sz mod 512 \<noteq> 0 then 1 else 0)"
    using nblocks_div [of sz] by simp
  ultimately show "alt_log_end (int (512 * a)) (int sz) = int (a + nblocks sz) - 1" by simp
qed

lemma loads_post:
  assumes "loads ino ino1" "file_post N t ino1 m m' g t' ino'"
  shows "file_post N t ino m m' g t' ino'"
  using assms loadsD [OF assms(1)] by (simp add: file_post_def loads_def)

text \<open>The tail block, when the size is not a multiple of the block size.\<close>

lemma write_tail:
  assumes l: "lags N s ino t" and im: "imap_ok t (i_in ino) m" and cs: "csums_ok t (i_in ino) m"
    and n: "n \<le> m" "n < 132" and free: "n = m \<Longrightarrow> need m \<le> nfree t"
    and len: "length B = 512" "r \<le> 512" "ofs + r \<le> length buf"
  shows "\<exists>ino' s' t'. bind_r (c_memcpy B 0 buf (int ofs) (int r)) (\<lambda>tail. testfs_file_write_block ino (int n) tail s) =
      Inr (0, ino', s') \<and> lags N s' ino' t' \<and>
    file_post N t ino m (max m (Suc n))
      (\<lambda>p. if p div 512 = n then if p mod 512 < r then buf ! (ofs + p mod 512) else B ! (p mod 512)
           else fbyte t (i_in ino) p) t' ino'"
proof -
  let ?T = "blit 0 (seg ofs r buf) B"
  have lT: "512 \<le> length ?T" using len by simp
  obtain ino' s' t' where w: "testfs_file_write_block ino (int n) ?T s = Inr (0, ino', s')" "lags N s' ino' t'"
    "file_post N t ino m (max m (Suc n)) (\<lambda>p. if p div 512 = n then ?T ! (p mod 512) else fbyte t (i_in ino) p) t' ino'"
    using alternate_block [OF l im cs n free lT] by blast
  have "?T ! q = (if q < r then buf ! (ofs + q) else B ! q)" if "q < 512" for q
    using nth_blit_seg [of 0 r ofs buf B q] len that by simp
  then have "(\<lambda>p. if p div 512 = n then ?T ! (p mod 512) else fbyte t (i_in ino) p) =
      (\<lambda>p. if p div 512 = n then if p mod 512 < r then buf ! (ofs + p mod 512) else B ! (p mod 512)
           else fbyte t (i_in ino) p)"
    by (simp add: fun_eq_iff)
  moreover have "c_memcpy B 0 buf (int ofs) (int r) = Inr ?T" using c_memcpy_ok [of B 0 buf ofs r] len by simp
  ultimately show ?thesis using w by auto
qed

text \<open>What the write leaves of the file, as the ordinary write.\<close>

definition set_size :: "int \<Rightarrow> inode \<Rightarrow> inode" where
  "set_size e ino = set_flag I_FLAGS_DIRTY (upd_in (\<lambda>d. d\<lparr>i_size := max (i_size d) e\<rparr>) ino)"

lemma set_size_indirect:
  "has_flag (set_size e ino) I_FLAGS_INDIRECT_DIRTY = has_flag ino I_FLAGS_INDIRECT_DIRTY"
  by (simp add: set_size_def)

lemma lags_set_size: "lags N s ino t \<Longrightarrow> lags N s (set_size e ino) t"
  by (rule lags_inode) (simp_all add: set_size_def)

lemma set_size_post:
  assumes "file_post N t ino m (max m (nblocks (st + sz))) g t' ino'"
    and "\<And>p. p < 512 * max m (nblocks (st + sz)) \<Longrightarrow>
      g p = (if st \<le> p \<and> p < st + sz then buf ! (p - st) else if p < 512 * m then fbyte t (i_in ino) p else 0)"
  shows "write_post N (shade ino) m st 0 sz buf t (shade (set_size (int (st + sz)) ino')) t'"
proof -
  have "same_inode (shade ino) (shade (set_size (int (st + sz)) ino'))"
    using assms(1) same_inode_trans [of "shade ino" "shade ino'"]
    unfolding file_post_def set_size_def shade_dirty by (simp add: same_inode_upd)
  moreover have "i_size (i_in (set_size (int (st + sz)) ino')) = max (i_size (i_in ino)) (int (st + sz))"
    using assms(1) by (simp add: file_post_def set_size_def)
  moreover have "has_flag (set_size (int (st + sz)) ino') I_FLAGS_DIRTY" by (simp add: set_size_def)
  moreover have "i_in (set_size e ino') = (i_in ino')\<lparr>i_size := max (i_size (i_in ino')) e\<rparr>" for e
    by (simp add: set_size_def)
  ultimately show ?thesis
    using assms unfolding write_post_def file_post_def Let_def by simp
qed

lemma less_512_iff: "p = 512 * n + q \<Longrightarrow> q < 512 \<Longrightarrow> n < m \<longleftrightarrow> p < 512 * (m :: nat)"
  by auto

lemma tail_range:
  assumes "sz = 512 * f + r" "r < (512 :: nat)"
  shows "p = 512 * (a + f) + q \<Longrightarrow> p < 512 * a + sz \<longleftrightarrow> q < r"
    "p < 512 * (a + f) \<or> 512 * Suc (a + f) \<le> p \<Longrightarrow>
     512 * a \<le> p \<and> p < 512 * a + sz \<longleftrightarrow> 512 * a \<le> p \<and> p < 512 * (a + f)"
  using assms by auto

text \<open>The bytes after the tail block, over those of the whole blocks \<open>F1\<close> and of the file before \<open>F\<close>.\<close>

lemma pos512: "0 < (512 :: nat)"
  by simp

lemma tail_byte:
  assumes szd: "sz = 512 * f + r" "r < 512" and a: "a \<le> m"
    and p: "p < 512 * max (max m (a + f)) (Suc (a + f))"
    and B: "\<forall>q < 512. B ! q = (if a + f < m then F (512 * (a + f) + q) else 0)"
    and F1: "p < 512 * max m (a + f) \<Longrightarrow> F1 p = (if 512 * a \<le> p \<and> p < 512 * (a + f)
      then buf ! (p - 512 * a) else if p < 512 * m then F p else 0)"
  shows "(if p div 512 = a + f then if p mod 512 < r then buf ! (512 * f + p mod 512) else B ! (p mod 512) else F1 p) =
    (if 512 * a \<le> p \<and> p < 512 * a + sz then buf ! (p - 512 * a) else if p < 512 * m then F p else 0)"
proof (cases "p div 512 = a + f")
  case True
  define q where "q = p mod 512"
  have "p = 512 * (p div 512) + q" by (simp add: q_def)
  then have pq: "p = 512 * (a + f) + q" "q < 512" "p mod 512 = q" unfolding True by (simp_all add: q_def)
  have "512 * a \<le> p" "p - 512 * a = 512 * f + q" using pq(1) by simp_all
  moreover have "p < 512 * a + sz \<longleftrightarrow> q < r" by (rule tail_range(1) [OF szd pq(1)])
  moreover have "a + f < m \<longleftrightarrow> p < 512 * m" using pq(1,2) by (rule less_512_iff)
  ultimately show ?thesis using True B pq by simp
next
  case False
  have lt: "p div 512 < max m (a + f)" using div_512_less [OF p] False by (auto simp: max_def split: if_splits)
  then have pM: "p < 512 * max m (a + f)" by (simp add: div_less_iff_less_mult mult.commute)
  have "p < 512 * (a + f) \<or> 512 * Suc (a + f) \<le> p"
    using False div_nat_eqI [of 512 "a + f" p] by (simp add: mult.commute) linarith
  then have "512 * a \<le> p \<and> p < 512 * a + sz \<longleftrightarrow> 512 * a \<le> p \<and> p < 512 * (a + f)" by (rule tail_range(2) [OF szd])
  then show ?thesis using False F1 [OF pM] pM by simp
qed

lemma write_alternate_post:
  assumes l: "lags N s ino t" and im: "imap_ok t (i_in ino) m" and cs: "csums_ok t (i_in ino) m"
    and a: "a \<le> m" and sz: "0 < sz" "sz \<le> length buf" "a + nblocks sz \<le> 132"
    and free: "needs m (max m (a + nblocks sz)) \<le> nfree t"
  shows "\<exists>ino' s' t'. testfs_write_data_alternate ino (int (512 * a)) buf (int sz) s = Inr (0, ino', s') \<and>
    lags N s' ino' t' \<and> write_post N (shade ino) m (512 * a) 0 sz buf t (shade ino') t' \<and>
    (a + nblocks sz \<le> m \<longrightarrow> has_flag ino' I_FLAGS_INDIRECT_DIRTY = has_flag ino I_FLAGS_INDIRECT_DIRTY)"
proof -
  let ?f = "sz div 512" and ?r = "sz mod 512" and ?st = "512 * a" and ?n = "a + sz div 512"
  have szd: "sz = 512 * ?f + ?r" by simp
  have end': "nblocks (?st + sz) = a + nblocks sz" by (simp add: nblocks_def)
  have f132: "?n \<le> 132" and fb: "0 + 512 * ?f \<le> length buf" using sz nblocks_div [of sz] by simp_all
  have nd: "needs m (max m (a + nblocks sz)) = needs m (max m ?n) + needs (max m ?n) (max m (a + nblocks sz))"
    by (rule needs_add) (simp_all add: nblocks_div)
  then have free1: "needs m (max m ?n) \<le> nfree t" using free by simp
  note ar = aligned_range [OF sz(1), of a]
  let ?b = "\<lambda>p. if ?st \<le> p \<and> p < ?st + sz then buf ! (p - ?st) else if p < 512 * m then fbyte t (i_in ino) p else 0"
  let ?g = "\<lambda>p. if 512 * a \<le> p \<and> p < 512 * ?n then buf ! (0 + (p - 512 * a)) else fbyte t (i_in ino) p"
  show ?thesis
  proof (cases "?r = 0")
    case True
    then have nb: "nblocks sz = ?f" by (simp add: nblocks_div)
    obtain ino1 s1 t1 where w: "write_contig ino (int a) (int ?n - 1) buf (int 0) s = Inr (0, ino1, s1)"
      "lags N s1 ino1 t1" and post: "file_post N t ino m (max m ?n) ?g t1 ino1"
      using write_contig_eq [OF l im cs a f132 free1 fb] by blast
    have "0 < ?f" using sz(1) True szd by linarith
    then have "testfs_write_data_alternate ino (int ?st) buf (int sz) s = Inr (0, set_size (int (?st + sz)) ino1, s1)"
      using w(1) sz True f132 ar nb by (simp add: testfs_write_data_alternate_def Let_def set_size_def)
    moreover have "write_post N (shade ino) m ?st 0 sz buf t (shade (set_size (int (?st + sz)) ino1)) t1"
    proof (rule set_size_post)
      show "file_post N t ino m (max m (nblocks (?st + sz))) ?g t1 ino1" using post end' nb by simp
      fix p assume "p < 512 * max m (nblocks (?st + sz))"
      moreover have "p < 512 * m" if "\<not> ?st \<le> p" using that a by linarith
      ultimately show "?g p = ?b p" using end' nb szd True by (auto simp: max_def split: if_splits)
    qed
    moreover have "has_flag (set_size (int (?st + sz)) ino1) I_FLAGS_INDIRECT_DIRTY = has_flag ino I_FLAGS_INDIRECT_DIRTY"
      if "a + nblocks sz \<le> m" using file_postD(5) [OF post] that nb by (simp add: set_size_indirect max_def)
    ultimately show ?thesis using lags_set_size [OF w(2)] by blast
  next
    case False
    then have nb: "nblocks sz = Suc ?f" by (simp add: nblocks_div)
    have n132: "?n < 132" using sz(3) nb by simp
    obtain ino0 B where rd: "testfs_file_read_block ino (int ?n) s = Inr (B, ino0)" "lags N s ino0 t" "loads ino ino0"
      and B: "length B = 512" "\<forall>q < 512. B ! q = (if ?n < m then fbyte t (i_in ino) (512 * ?n + q) else 0)"
      using read_block_alternate [OF l im n132] by blast
    have in0: "i_in ino0 = i_in ino" using loadsD(1) [OF rd(3)] .
    have im0: "imap_ok t (i_in ino0) m" and cs0: "csums_ok t (i_in ino0) m" using im cs in0 by simp_all
    obtain ino1 s1 t1 where w: "write_contig ino0 (int a) (int ?n - 1) buf (int 0) s = Inr (0, ino1, s1)"
      and l1: "lags N s1 ino1 t1" and post0: "file_post N t ino0 m (max m ?n) ?g t1 ino1"
      using write_contig_eq [OF rd(2) im0 cs0 a f132 free1 fb] unfolding in0 by blast
    have post: "file_post N t ino m (max m ?n) ?g t1 ino1" using rd(3) post0 by (rule loads_post)
    note d1 = file_postD [OF post]
    have mx: "max (max m ?n) (Suc ?n) = max m (a + nblocks sz)" using nb by simp
    have n1: "?n \<le> max m ?n" by simp
    have free2: "?n = max m ?n \<Longrightarrow> need (max m ?n) \<le> nfree t1"
      using free nd d1(3) needs_next [OF n1] mx by (simp only: max.left_commute) (simp split: if_splits)
    have ln: "512 * ?f + ?r \<le> length buf" "?r \<le> 512" using sz(2) by simp_all
    obtain ino2 s2 t2 where w2: "bind_r (c_memcpy B 0 buf (int (512 * ?f)) (int ?r)) (\<lambda>tail.
          testfs_file_write_block ino1 (int ?n) tail s1) = Inr (0, ino2, s2)"
      and l2: "lags N s2 ino2 t2" and post2: "file_post N t1 ino1 (max m ?n) (max (max m ?n) (Suc ?n))
      (\<lambda>p. if p div 512 = ?n then if p mod 512 < ?r then buf ! (512 * ?f + p mod 512) else B ! (p mod 512)
           else fbyte t1 (i_in ino1) p) t2 ino2"
      using write_tail [OF l1 d1(1,2) n1 n132 free2 B(1) ln(2,1)] by blast
    have post3: "file_post N t ino m (max m (nblocks (?st + sz))) ?b t2 ino2"
      unfolding end' mx [symmetric]
    proof (rule file_post_trans [OF post post2])
      fix p assume p: "p < 512 * max (max m ?n) (Suc ?n)"
      have "p < 512 * m" if "p < 512 * max m ?n" "\<not> p < 512 * ?n" using that by (simp add: max_def split: if_splits)
      moreover have "p < 512 * m" if "\<not> ?st \<le> p" using that a by linarith
      ultimately have "fbyte t1 (i_in ino1) p = (if ?st \<le> p \<and> p < 512 * ?n
          then buf ! (p - ?st) else if p < 512 * m then fbyte t (i_in ino) p else 0)" if "p < 512 * max m ?n"
        using d1(4) [OF that] that by (auto simp del: distrib_left_numeral)
      then show "(if p div 512 = ?n then if p mod 512 < ?r then buf ! (512 * ?f + p mod 512) else B ! (p mod 512)
         else fbyte t1 (i_in ino1) p) = ?b p" 
        by (rule tail_byte [where F = "fbyte t (i_in ino)" and ?F1.0 = "fbyte t1 (i_in ino1)",
          OF szd mod_less_divisor [OF pos512] a p B(2)])
    qed simp_all
    have "int sz - int ?r = int (512 * ?f)" using szd by linarith
    then have "testfs_write_data_alternate ino (int ?st) buf (int sz) s = Inr (0, set_size (int (?st + sz)) ino2, s2)"
      using rd(1) w w2 sz False n132 ar nb by (simp add: testfs_write_data_alternate_def Let_def set_size_def)
    moreover have "write_post N (shade ino) m ?st 0 sz buf t (shade (set_size (int (?st + sz)) ino2)) t2"
      using post3 by (rule set_size_post) simp
    moreover have "has_flag (set_size (int (?st + sz)) ino2) I_FLAGS_INDIRECT_DIRTY = has_flag ino I_FLAGS_INDIRECT_DIRTY"
      if "a + nblocks sz \<le> m" using file_postD(5) [OF post3] that end' by (simp add: set_size_indirect max_def)
    ultimately show ?thesis using lags_set_size [OF l2] by blast
  qed
qed

section \<open>A write from inside a block\<close>

text \<open>
  From offset \<open>h\<close> of a block, within the file: the head block takes the first \<open>512 - h\<close> bytes of the
  buffer, but the blocks after it take the buffer from \<open>h\<close> on, and the last block is computed from
  \<open>sz - h\<close>, so the body belongs where it is put only when \<open>h\<close> is half a block.
\<close>

lemma unaligned_range:
  assumes "h < 512" "h \<le> sz"
  shows "int (512 * a + h) mod 512 = int h" "int (512 * a + h) div 512 = int a"
    "alt_tail_size (int (512 * a + h)) (int sz) = int ((sz - h) mod 512)"
    "0 < h \<Longrightarrow> alt_log_end (int (512 * a + h)) (int sz) =
       int (a + (sz - h) div 512) + (if (sz - h) mod 512 \<noteq> 0 then 1 else 0)"
proof -
  have i: "int (512 * a + h) = int h + int a * 512" by simp
  show m: "int (512 * a + h) mod 512 = int h" and d: "int (512 * a + h) div 512 = int a"
    unfolding i using assms(1) by simp_all
  have s: "int sz - int h = int (sz - h)" using assms(2) by simp
  have sm: "int (sz - h) smod 512 = int ((sz - h) mod 512)"
    using smod_nonneg [of "int (sz - h)" 512] by (simp add: zmod_int del: of_nat_diff)
  have st: "int (512 * a + h) smod 512 = int h" "int (512 * a + h) sdiv 512 = int a"
    using m d smod_nonneg [of "int (512 * a + h)" 512] sdiv_nonneg [of "int (512 * a + h)" 512] by simp_all
  show t: "alt_tail_size (int (512 * a + h)) (int sz) = int ((sz - h) mod 512)"
    by (simp only: alt_tail_size_def st s sm)
  have "int (sz - h) - int ((sz - h) mod 512) = int ((sz - h) div 512) * 512"
    using div_mult_mod_eq [of "sz - h" 512] by linarith
  then have b: "(int sz - int h - int ((sz - h) mod 512)) sdiv 512 = int ((sz - h) div 512)"
    unfolding s by (subst sdiv_nonneg) simp_all
  show "alt_log_end (int (512 * a + h)) (int sz) =
      int (a + (sz - h) div 512) + (if (sz - h) mod 512 \<noteq> 0 then 1 else 0)" if "0 < h"
    unfolding alt_log_end_def Let_def st t b using that by simp
qed

lemma write_alternate_small_head:
  assumes "0 < sz" "sz < h" "h < 512"
  shows "testfs_write_data_alternate ino (int (512 * a + h)) buf (int sz) s = Inl AssertFail"
proof -
  have "int (512 * a + h) mod 512 = int h" using assms(3) by simp
  then have st: "int (512 * a + h) smod 512 = int h" using smod_nonneg [of "int (512 * a + h)" 512] by simp
  have "(int sz - int h) smod 512 = int sz - int h"
    using assms by (simp add: signed_modulo_int_def signed_divide_int_def)
  then have "alt_tail_size (int (512 * a + h)) (int sz) < 0"
    unfolding alt_tail_size_def st using assms(2) by simp
  then show ?thesis using assms(1) st by (simp add: testfs_write_data_alternate_def Let_def)
qed

lemma div_512_iff: "p div 512 = n \<longleftrightarrow> 512 * n \<le> p \<and> p < 512 * Suc n" for p :: nat
proof
  assume "p div 512 = n"
  then show "512 * n \<le> p \<and> p < 512 * Suc n" using div_mult_mod_eq [of p 512] mod_less_divisor [OF pos512, of p]
    unfolding mult_Suc_right by (intro conjI) linarith+
qed (simp add: div_nat_eqI mult.commute)

lemma mod_512_eq: "512 * n \<le> p \<Longrightarrow> p < 512 * Suc n \<Longrightarrow> p mod 512 = p - 512 * n" for p :: nat
  using div_512_iff [of p n] minus_mult_div_eq_mod [of p 512] by simp

text \<open>A block of the file patched with \<open>r\<close> bytes of the buffer from offset \<open>o'\<close> on: the head and the tail.\<close>

lemma patch_block:
  assumes l: "lags N s ino t" and im: "imap_ok t (i_in ino) m" and cs: "csums_ok t (i_in ino) m"
    and n: "n < m" and B: "length B = 512" "\<forall>q < 512. B ! q = fbyte t (i_in ino) (512 * n + q)"
    and r: "h + r \<le> 512" "ofs + r \<le> length buf"
  shows "\<exists>ino' s' t'. bind_r (c_memcpy B (int h) buf (int ofs) (int r)) (\<lambda>b. testfs_file_write_block ino (int n) b s) =
      Inr (0, ino', s') \<and> lags N s' ino' t' \<and>
    file_post N t ino m m (\<lambda>p. if 512 * n + h \<le> p \<and> p < 512 * n + h + r then buf ! (ofs + (p - (512 * n + h)))
      else fbyte t (i_in ino) p) t' ino'"
proof -
  let ?T = "blit h (seg ofs r buf) B"
  have lT: "512 \<le> length ?T" using B(1) r by simp
  have n132: "n \<le> m" "n < 132" and mx: "max m (Suc n) = m" using n imap_okD(1) [OF im] by auto
  obtain ino' s' t' where w: "testfs_file_write_block ino (int n) ?T s = Inr (0, ino', s')" "lags N s' ino' t'"
    "file_post N t ino m m (\<lambda>p. if p div 512 = n then ?T ! (p mod 512) else fbyte t (i_in ino) p) t' ino'"
    using alternate_block [OF l im cs n132 _ lT] n unfolding mx by blast
  have T: "?T ! q = (if h \<le> q \<and> q < h + r then buf ! (ofs + (q - h)) else B ! q)" if "q < 512" for q
    using nth_blit_seg [of h r ofs buf B q] B(1) r that by simp
  have "(if p div 512 = n then ?T ! (p mod 512) else fbyte t (i_in ino) p) =
      (if 512 * n + h \<le> p \<and> p < 512 * n + h + r then buf ! (ofs + (p - (512 * n + h))) else fbyte t (i_in ino) p)" for p
  proof (cases "p div 512 = n")
    case True
    then have p: "512 * n \<le> p" "p < 512 * Suc n" by (simp_all only: div_512_iff)
    have "p - 512 * n < 512" "h \<le> p - 512 * n \<longleftrightarrow> 512 * n + h \<le> p" "p - 512 * n < h + r \<longleftrightarrow> p < 512 * n + h + r"
      "p - 512 * n - h = p - (512 * n + h)" "512 * n + (p - 512 * n) = p" using p by auto
    then show ?thesis using True mod_512_eq [OF p] T B(2) by simp
  next
    case False
    then have "\<not> (512 * n + h \<le> p \<and> p < 512 * n + h + r)" using r(1) by (auto simp: div_512_iff)
    then show ?thesis using False by (simp only: if_False)
  qed
  then have "file_post N t ino m m (\<lambda>p. if 512 * n + h \<le> p \<and> p < 512 * n + h + r then buf ! (ofs + (p - (512 * n + h)))
      else fbyte t (i_in ino) p) t' ino'" using w(3) by simp
  moreover have "c_memcpy B (int h) buf (int ofs) (int r) = Inr ?T" using c_memcpy_ok [of B h buf ofs r] B(1) r by simp
  ultimately show ?thesis using w by auto
qed

lemma read_block_if:
  assumes l: "lags N s ino t" and im: "imap_ok t (i_in ino) m" and n: "c \<Longrightarrow> n < m"
  shows "\<exists>ino' B. (if c then testfs_file_read_block ino (int n) s else Inr (replicate 512 0, ino)) = Inr (B, ino') \<and>
    lags N s ino' t \<and> loads ino ino' \<and> length B = 512 \<and>
    (c \<longrightarrow> (\<forall>q < 512. B ! q = fbyte t (i_in ino) (512 * n + q)))"
proof (cases c)
  case True
  then have "n < m" "n < 132" using n imap_okD(1) [OF im] by auto
  then show ?thesis using read_block_alternate [OF l im, of n] True by auto
next
  case False
  then show ?thesis using l by (simp add: loads_def)
qed

text \<open>The bytes that the unaligned write leaves.\<close>

definition shifted :: "nat \<Rightarrow> nat \<Rightarrow> byte list \<Rightarrow> nat \<Rightarrow> (nat \<Rightarrow> byte) \<Rightarrow> nat \<Rightarrow> byte" where
  "shifted a h buf sz F p =
     (if 512 * a + h \<le> p \<and> p < 512 * Suc a then buf ! (p - (512 * a + h))
      else if 512 * Suc a \<le> p \<and> p < 512 * Suc a + (sz - h) then buf ! (h + (p - 512 * Suc a))
      else F p)"

lemma shifted_overwrite:
  assumes "h < 512" "h \<le> sz" "sz \<le> length buf" "512 - h \<le> length buf" "512 * Suc a + (sz - h) \<le> length x"
    and p: "p < length x" and F: "F p = x ! p"
  shows "shifted a h buf sz F p =
    overwrite (512 * Suc a) (drop h (take sz buf)) (overwrite (512 * a + h) (take (512 - h) buf) x) ! p"
proof -
  let ?y = "overwrite (512 * a + h) (take (512 - h) buf) x"
  have le: "512 * a + h \<le> length x" "512 * Suc a \<le> length x" "512 * a + h + (512 - h) = 512 * Suc a"
    using assms by simp_all
  have ly: "length ?y = length x" using length_overwrite [OF le(1)] assms(4) le by simp
  have y: "?y ! p = (if 512 * a + h \<le> p \<and> p < 512 * Suc a then take (512 - h) buf ! (p - (512 * a + h)) else x ! p)"
    using nth_overwrite [OF le(1)] p assms(4) le(3) by simp
  have "overwrite (512 * Suc a) (drop h (take sz buf)) ?y ! p =
      (if 512 * Suc a \<le> p \<and> p < 512 * Suc a + (sz - h) then drop h (take sz buf) ! (p - 512 * Suc a) else ?y ! p)"
    using nth_overwrite [of "512 * Suc a" ?y p] ly le(2) p assms(3) by simp
  then show ?thesis using y F assms(2-4) by (auto simp: shifted_def)
qed

lemma write_alternate_run:
  assumes "start smod 512 = h" "start sdiv 512 = a" "alt_tail_size start sz = r" "alt_log_end start sz = e"
    and "0 < sz" "0 < h" "0 \<le> r" "a \<le> e" "e < 132"
    and "testfs_file_read_block ino a s = Inr (H, ino1)"
    and "(if r \<noteq> 0 then testfs_file_read_block ino1 e s else Inr (replicate 512 0, ino1)) = Inr (B, ino2)"
    and "write_contig ino2 (a + 1) (e - (if r \<noteq> 0 then 1 else 0)) buf h s = Inr (0, ino3, s3)"
    and "bind_r (c_memcpy H h buf 0 (512 - h)) (\<lambda>b. testfs_file_write_block ino3 a b s3) = Inr (0, ino4, s4)"
    and "(if r \<noteq> 0 then bind_r (c_memcpy B 0 buf (sz - r) r) (\<lambda>b. testfs_file_write_block ino4 e b s4)
       else Inr (0, ino4, s4)) = Inr (0, ino5, s5)"
  shows "testfs_write_data_alternate ino start buf sz s = Inr (0, set_size (start + sz) ino5, s5)"
proof (cases "r = 0")
  case True
  then show ?thesis using assms unfolding testfs_write_data_alternate_def Let_def by (simp add: set_size_def)
next
  case False
  then show ?thesis using assms unfolding testfs_write_data_alternate_def Let_def by (simp add: set_size_def)
qed

lemma write_alternate_unaligned:
  assumes l: "lags N s ino t" and im: "imap_ok t (i_in ino) m" and cs: "csums_ok t (i_in ino) m"
    and h: "0 < h" "h < 512" "h \<le> sz" "sz \<le> length buf" "512 - h \<le> length buf"
    and fit: "a + nblocks (sz - h) < m"
  shows "\<exists>ino' s' t'. testfs_write_data_alternate ino (int (512 * a + h)) buf (int sz) s =
      Inr (0, set_size (int (512 * a + h + sz)) ino', s') \<and> lags N s' ino' t' \<and>
    file_post N t ino m m (shifted a h buf sz (fbyte t (i_in ino))) t' ino'"
proof -
  let ?f = "(sz - h) div 512" and ?r = "(sz - h) mod 512" and ?F = "fbyte t (i_in ino)"
  let ?n = "Suc a + (sz - h) div 512"
  have szh: "sz - h = 512 * ?f + ?r" "?r < 512" by simp_all
  have nb: "nblocks (sz - h) = ?f + (if ?r \<noteq> 0 then 1 else 0)" by (rule nblocks_div)
  have m: "a < m" "Suc a + ?f \<le> m" "?r \<noteq> 0 \<Longrightarrow> ?n < m" "m \<le> 132"
    using fit nb imap_okD(1) [OF im] by (auto split: if_splits)
  note ar = unaligned_range [OF h(2,3), of a] and e = unaligned_range(4) [OF h(2,3,1), of a]
  obtain ino1 H where r1: "testfs_file_read_block ino (int a) s = Inr (H, ino1)" "lags N s ino1 t" "loads ino ino1"
    "length H = 512" "\<forall>q < 512. H ! q = ?F (512 * a + q)"
    using read_block_if [OF l im, of True a] m(1) by auto
  have i1: "i_in ino1 = i_in ino" using loadsD(1) [OF r1(3)] .
  then have im1: "imap_ok t (i_in ino1) m" using im by simp
  obtain ino2 B where r2: "(if ?r \<noteq> 0 then testfs_file_read_block ino1 (int ?n) s else Inr (replicate 512 0, ino1)) =
      Inr (B, ino2)" "lags N s ino2 t" "loads ino1 ino2" "length B = 512"
    "?r \<noteq> 0 \<longrightarrow> (\<forall>q < 512. B ! q = fbyte t (i_in ino1) (512 * ?n + q))"
    using read_block_if [OF r1(2) im1 m(3)] by blast
  have i2: "i_in ino2 = i_in ino" using loadsD(1) [OF r2(3)] i1 by simp
  then have im2: "imap_ok t (i_in ino2) m" and cs2: "csums_ok t (i_in ino2) m" using im cs by simp_all
  let ?g1 = "\<lambda>p. if 512 * Suc a \<le> p \<and> p < 512 * (Suc a + ?f) then buf ! (h + (p - 512 * Suc a)) else ?F p"
  have mx: "max m (Suc a + ?f) = m" using m(2) by simp
  have m132: "Suc a + ?f \<le> 132" and hf: "h + 512 * ?f \<le> length buf" using m(2,4) h(3,4) szh by linarith+
  have am: "Suc a \<le> m" using m(1) by simp
  have nd0: "needs m (max m (Suc a + ?f)) \<le> nfree t" unfolding mx by (simp add: needs_def)
  obtain ino3 s3 t3 where w3: "write_contig ino2 (int (Suc a)) (int (Suc a + ?f) - 1) buf (int h) s = Inr (0, ino3, s3)"
    "lags N s3 ino3 t3" and p3: "file_post N t ino2 m m ?g1 t3 ino3"
    using write_contig_eq [OF r2(2) im2 cs2 am m132 nd0 hf] unfolding mx i2 by blast
  note p3' = loads_post [OF r1(3) loads_post [OF r2(3) p3]]
  note d3 = file_postD [OF p3']
  have F3: "fbyte t3 (i_in ino3) p = ?g1 p" if "p < 512 * m" for p using d3(4) that .
  have inb: "512 * n + q < 512 * m" if "n < m" "q < 512" for n q
    using that by (metis less_512_iff)
  have H3: "\<forall>q < 512. H ! q = fbyte t3 (i_in ino3) (512 * a + q)"
    using r1(5) F3 inb [OF m(1)] by simp
  have r0: "h + (512 - h) \<le> 512" "0 + (512 - h) \<le> length buf" using h by simp_all
  obtain ino4 s4 t4 where w4: "bind_r (c_memcpy H (int h) buf (int 0) (int (512 - h))) (\<lambda>b. testfs_file_write_block ino3 (int a) b s3) =
      Inr (0, ino4, s4)" "lags N s4 ino4 t4"
    and p4: "file_post N t3 ino3 m m (\<lambda>p. if 512 * a + h \<le> p \<and> p < 512 * a + h + (512 - h)
      then buf ! (0 + (p - (512 * a + h))) else fbyte t3 (i_in ino3) p) t4 ino4"
    using patch_block [OF w3(2) d3(1,2) m(1) r1(4) H3 r0] by blast
  let ?g2 = "\<lambda>p. if 512 * a + h \<le> p \<and> p < 512 * Suc a then buf ! (p - (512 * a + h)) else ?g1 p"
  have p4': "file_post N t ino m m ?g2 t4 ino4"
    by (rule file_post_trans [OF p3' p4]) (use F3 h(2) in auto)
  note d4 = file_postD [OF p4']
  have F4: "fbyte t4 (i_in ino4) p = ?g2 p" if "p < 512 * m" for p using d4(4) that .
  have "\<exists>ino' s' t'. (if ?r \<noteq> 0 then bind_r (c_memcpy B 0 buf (int sz - int ?r) (int ?r)) (\<lambda>b.
        testfs_file_write_block ino4 (int ?n) b s4) else Inr (0, ino4, s4)) = Inr (0, ino', s') \<and> lags N s' ino' t' \<and>
      file_post N t4 ino4 m m (\<lambda>p. if 512 * ?n + 0 \<le> p \<and> p < 512 * ?n + 0 + ?r
        then buf ! ((sz - ?r) + (p - (512 * ?n + 0))) else fbyte t4 (i_in ino4) p) t' ino'"
  proof (cases "?r = 0")
    case True
    have eq: "(\<lambda>p. if 512 * ?n + 0 \<le> p \<and> p < 512 * ?n + 0 + ?r
        then buf ! ((sz - ?r) + (p - (512 * ?n + 0))) else fbyte t4 (i_in ino4) p) = fbyte t4 (i_in ino4)"
      by (rule ext, rule if_not_P) (use True in linarith)
    show ?thesis unfolding eq using w4(2) file_post_refl [OF w4(2) d4(1,2)] True by auto
  next
    case False
    have "?g2 (512 * ?n + q) = ?F (512 * ?n + q)" for q by simp
    then have "\<forall>q < 512. B ! q = fbyte t4 (i_in ino4) (512 * ?n + q)"
      using r2(5) False F4 inb [OF m(3) [OF False]] unfolding i1 by simp
    moreover have "0 + ?r \<le> 512" "(sz - ?r) + ?r \<le> length buf" "?r \<le> sz" using h szh by linarith+
    ultimately show ?thesis
      using patch_block [OF w4(2) d4(1,2) m(3) [OF False] r2(4), of 0 ?r "sz - ?r" buf] False by (simp add: of_nat_diff)
  qed
  then obtain ino5 s5 t5 where w5: "(if ?r \<noteq> 0 then bind_r (c_memcpy B 0 buf (int sz - int ?r) (int ?r)) (\<lambda>b.
        testfs_file_write_block ino4 (int ?n) b s4) else Inr (0, ino4, s4)) = Inr (0, ino5, s5)" "lags N s5 ino5 t5"
    and p5: "file_post N t4 ino4 m m (\<lambda>p. if 512 * ?n + 0 \<le> p \<and> p < 512 * ?n + 0 + ?r
        then buf ! ((sz - ?r) + (p - (512 * ?n + 0))) else fbyte t4 (i_in ino4) p) t5 ino5" by blast
  have "file_post N t ino m m (shifted a h buf sz ?F) t5 ino5"
  proof (rule file_post_trans [OF p4' p5])
    fix p assume p: "p < 512 * m"
    have "sz - ?r + (p - (512 * ?n + 0)) = h + (p - 512 * Suc a)" if "512 * ?n \<le> p" using that szh h(3) by simp
    then show "(if 512 * ?n + 0 \<le> p \<and> p < 512 * ?n + 0 + ?r then buf ! ((sz - ?r) + (p - (512 * ?n + 0)))
        else fbyte t4 (i_in ino4) p) = shifted a h buf sz ?F p"
      using F4 [OF p] szh by (auto simp: shifted_def)
  qed simp_all
  moreover have "testfs_write_data_alternate ino (int (512 * a + h)) buf (int sz) s =
      Inr (0, set_size (int (512 * a + h + sz)) ino5, s5)"
  proof -
    let ?e = "int (a + ?f) + (if int ?r \<noteq> 0 then 1 else 0)"
    have st: "int (512 * a + h) smod 512 = int h" "int (512 * a + h) sdiv 512 = int a"
      using ar(1,2) smod_nonneg [of "int (512 * a + h)" 512] sdiv_nonneg [of "int (512 * a + h)" 512] by simp_all
    have r: "(int ?r \<noteq> 0) = (?r \<noteq> 0)" "0 \<le> int ?r" "0 < int h" "0 < int sz" using h by simp_all
    have en: "?e = int ?n" if "?r \<noteq> 0" using that by simp
    have big: "?e < 132" "int a \<le> ?e" using m(2-4) by (auto split: if_splits)
    have c: "int a + 1 = int (Suc a)" "?e - (if int ?r \<noteq> 0 then 1 else 0) = int (Suc a + ?f) - 1"
      "512 - int h = int (512 - h)" using h(2) by simp_all
    have g2: "(if int ?r \<noteq> 0 then testfs_file_read_block ino1 ?e s else Inr (replicate 512 0, ino1)) = Inr (B, ino2)"
      using r2(1) en unfolding r(1) by (cases "?r = 0") (simp_all only: simp_thms if_True if_False)
    have g5: "(if int ?r \<noteq> 0 then bind_r (c_memcpy B 0 buf (int sz - int ?r) (int ?r)) (\<lambda>b.
        testfs_file_write_block ino4 ?e b s4) else Inr (0, ino4, s4)) = Inr (0, ino5, s5)"
      using w5(1) en unfolding r(1) by (cases "?r = 0") (simp_all only: simp_thms if_True if_False)
    have g3: "write_contig ino2 (int a + 1) (?e - (if int ?r \<noteq> 0 then 1 else 0)) buf (int h) s = Inr (0, ino3, s3)"
      unfolding c by (rule w3(1))
    have g4: "bind_r (c_memcpy H (int h) buf 0 (512 - int h)) (\<lambda>b. testfs_file_write_block ino3 (int a) b s3) =
        Inr (0, ino4, s4)" using w4(1) unfolding c semiring_1_class.of_nat_0 .
    have "testfs_write_data_alternate ino (int (512 * a + h)) buf (int sz) s =
        Inr (0, set_size (int (512 * a + h) + int sz) ino5, s5)"
      by (rule write_alternate_run [OF st ar(3) e [folded r(1)] r(4,3,2) big(2,1) r1(1) g2 g3 g4 g5])
    then show ?thesis by simp
  qed
  ultimately show ?thesis using w5(2) by blast
qed

section \<open>Catching up\<close>

lemma lags_start:
  assumes "fs_ok N s" "csum_coherent s" "file_ok s (i_in ino)"
    and "\<not> has_flag ino I_FLAGS_INDIRECT_LOADED" "\<not> has_flag ino I_FLAGS_INDIRECT_DIRTY"
  shows "lags N s ino s"
proof -
  have im: "imap_ok s (i_in ino) (nblocks (nat (i_size (i_in ino))))" using assms(3) by (simp add: file_ok_def)
  have "192 \<le> i_indirect (i_in ino) \<and> i_indirect (i_in ino) < 7872" if nz: "i_indirect (i_in ino) \<noteq> 0"
  proof -
    have "4 < nblocks (nat (i_size (i_in ino)))" using imap_okD(3) [OF im] nz by linarith
    then obtain i where "i_indirect (i_in ino) = 192 + int i" "i < 7680" using im by (auto elim: indirect_mapped)
    then show ?thesis by simp
  qed
  then show ?thesis unfolding lags_def using assms by (simp add: same_meta_def)
qed

lemma clear_indirect_dirty [simp]:
  "\<not> has_flag (clear_flag I_FLAGS_INDIRECT_DIRTY ino) I_FLAGS_INDIRECT_DIRTY"
  "has_flag (clear_flag I_FLAGS_INDIRECT_DIRTY ino) I_FLAGS_INDIRECT_LOADED = has_flag ino I_FLAGS_INDIRECT_LOADED"
  "has_flag (clear_flag I_FLAGS_INDIRECT_DIRTY ino) I_FLAGS_DIRTY = has_flag ino I_FLAGS_DIRTY"
proof -
  have "(w AND NOT 2) AND 2 = (0 :: 32 word)" "(w AND NOT 2) AND 4 = w AND (4 :: 32 word)"
    "(w AND NOT 2) AND 1 = w AND (1 :: 32 word)" for w :: "32 word"
    by (simp_all add: and.assoc)
  then show
    "\<not> has_flag (clear_flag I_FLAGS_INDIRECT_DIRTY ino) I_FLAGS_INDIRECT_DIRTY"
    "has_flag (clear_flag I_FLAGS_INDIRECT_DIRTY ino) I_FLAGS_INDIRECT_LOADED = has_flag ino I_FLAGS_INDIRECT_LOADED"
    "has_flag (clear_flag I_FLAGS_INDIRECT_DIRTY ino) I_FLAGS_DIRTY = has_flag ino I_FLAGS_DIRTY"
    by (simp_all add: has_flag_def clear_flag_def I_FLAGS_DIRTY_def I_FLAGS_INDIRECT_DIRTY_def I_FLAGS_INDIRECT_LOADED_def)
qed

text \<open>The indirect block is written back.\<close>

lemma put_indirect_lags:
  assumes l: "lags N s ino t" and fl: "has_flag ino I_FLAGS_INDIRECT_DIRTY"
  shows "\<exists>s'. write_blocks (words_bytes (i_ind ino)) (i_indirect (i_in ino)) 1 s = Inr s' \<and>
    lags N s' (clear_flag I_FLAGS_INDIRECT_DIRTY ino) t"
proof -
  note d = lagsD [OF l]
  have ld: "has_flag ino I_FLAGS_INDIRECT_LOADED" "i_indirect (i_in ino) \<noteq> 0" using d(7) [OF fl] by simp_all
  let ?i = "nat (i_indirect (i_in ino))" and ?b = "words_bytes (i_ind ino)"
  let ?s = "put_blk ?b ?i s" and ?ino = "clear_flag I_FLAGS_INDIRECT_DIRTY ino"
  have i: "?i < N" "192 \<le> ?i" "0 \<le> i_indirect (i_in ino)" "i_indirect (i_in ino) < int N" 
    using d(8) [OF ld(2)] fs_okD(2) [OF d(1)] by auto
  have b: "?b = dblk t ?i" using d(6) [OF ld] .
  have lb: "length ?b = 512" unfolding b using length_dblk [OF fs_okD(1) [OF d(2)] i(1)] .
  have run: "write_blocks ?b (i_indirect (i_in ino)) 1 s = Inr ?s"
    using write_block [OF fs_okD(1) [OF d(1)] i(3,4), of ?b] lb by simp
  have blk: "dblk ?s j = (if j = ?i then ?b else dblk s j)" if "j < N" for j
    using dblk_put_blk [OF fs_okD(1) [OF d(1)] i(1) that, of ?b] lb by simp
  have "csum_coherent ?s"
    using d(4) blk i fs_okD(2) [OF d(1)] by (simp add: csum_coherent_def csum_tblk_def csum_table_of_def)
  moreover have "same_meta ?s t" using d(3) by (simp add: same_meta_def bmap_def imap_def csum_table_of_def)
  moreover have "dblk t j = dblk ?s j" if "j < N" "j < 2 \<or> 64 \<le> j" for j
    using d(5) [OF that] blk [OF that(1)] fl b i by auto
  ultimately have "lags N ?s ?ino t"
    unfolding lags_def using d(1,2,6,8) by simp
  with run show ?thesis by auto
qed

lemma flush_indirect_lags:
  assumes l: "lags N s ino t"
  shows "\<exists>ino' s'. flush_indirects [ino] s = Inr ([ino'], s') \<and> lags N s' ino' t \<and>
    \<not> has_flag ino' I_FLAGS_INDIRECT_DIRTY \<and> i_in ino' = i_in ino"
proof (cases "has_flag ino I_FLAGS_INDIRECT_DIRTY")
  case False
  then show ?thesis using l by auto
next
  case True
  then show ?thesis using put_indirect_lags [OF l True] by auto
qed

definition caught_up :: "nat \<Rightarrow> 'd fsys \<Rightarrow> 'd fsys \<Rightarrow> bool" where
  "caught_up N s t \<longleftrightarrow> fs_ok N s \<and> same_meta s t \<and> csum_coherent s \<and>
     csum_block_dirty (fs_sb s) = replicate CSUM_TABLE_SIZE False \<and> dblk s 2 @ dblk s 3 = bm_v (bmap s) \<and>
     (\<forall>j < N. j < 2 \<or> 64 \<le> j \<longrightarrow> dblk s j = dblk t j)"

lemma caught_up_file:
  assumes "caught_up N s t" "fs_ok N t" "file_ok t e"
  shows "file_ok s e" "contents s e = contents t e" "blocks_of s e = blocks_of t e"
    "csums_ok s e (nblocks (nat (i_size e))) = csums_ok t e (nblocks (nat (i_size e)))"
proof -
  have "used s = used t" "csum_table_of s = csum_table_of t"
    using assms(1) same_metaD(1) [of s t] by (simp_all add: caught_up_def same_meta_def)
  moreover have "dblk s j = dblk t j" if "j < N" "192 \<le> j" for j using assms(1) that by (simp add: caught_up_def)
  ultimately show "file_ok s e" "contents s e = contents t e" "blocks_of s e = blocks_of t e"
    "csums_ok s e (nblocks (nat (i_size e))) = csums_ok t e (nblocks (nat (i_size e)))"
    using file_frame [OF assms(2) _ _ _ assms(3), of s] by blast+
qed

text \<open>The two flushes of the caller, after the indirect block.\<close>

lemma flush_lags:
  assumes l: "lags N s ino t" and nd: "\<not> has_flag ino I_FLAGS_INDIRECT_DIRTY"
  shows "\<exists>s'. bind_r (testfs_flush_block_freemap s) testfs_flush_csum = Inr s' \<and> caught_up N s' t"
proof -
  note d = lagsD [OF l] and ok = fs_okD [OF lagsD(1) [OF l]] and len = length_bmap [OF lagsD(1) [OF l]]
  let ?s = "put_blks (bm_v (bmap s)) 2 2 s"
  have blk: "dblk ?s j = (if 2 \<le> j \<and> j < 4 then seg (512 * (j - 2)) 512 (bm_v (bmap s)) else dblk s j)" if "j < N" for j
    using dblk_put_blks [OF ok(1), of 2 2 "bm_v (bmap s)" j] ok(2) that len by simp
  have meta: "bmap (put_blks b i n s) = bmap s" "imap (put_blks b i n s) = imap s"
      "csum_table_of (put_blks b i n s) = csum_table_of s" for b i n
    by (simp_all add: bmap_def imap_def csum_table_of_def)
  have coh: "csum_coherent ?s" using d(4) blk ok(2) by (simp add: csum_coherent_def csum_tblk_def meta)
  have wf: "csum_wf ?s" using ok(5) by (simp add: csum_wf_def)
  obtain s' where s': "fold_r flush_csum_block [0 ..< 60] ?s = Inr s'" "dev_ok N s'" "csum_wf s'" "dsb s' = std_dsb"
    "csum_coherent s'" "csum_table_of s' = csum_table_of ?s" "fs_bdev s' = fs_bdev ?s" "fs_out s' = fs_out ?s"
    "inode_freemap (fs_sb s') = inode_freemap (fs_sb ?s)" "block_freemap (fs_sb s') = block_freemap (fs_sb ?s)"
    "tx_in_progress (fs_sb s') = tx_in_progress (fs_sb ?s)" "\<forall>i < 60. \<not> csum_block_dirty (fs_sb s') ! i"
    "\<forall>j < N. j < 4 \<or> 64 \<le> j \<longrightarrow> dblk s' j = dblk ?s j"
    using flush_csum_prefix [of N ?s 60] ok(1,3,4) wf coh by auto
  have bm: "bmap s' = bmap s" "imap s' = imap s" using s'(9,10) by (simp_all add: bmap_def imap_def)
  have fs: "fs_ok N s'" using d(1) s'(2-4,9,10) by (simp add: fs_ok_def freemaps_wf_def bm)
  moreover have "csum_block_dirty (fs_sb s') = replicate 60 False"
    using s'(12) csum_wfD(3) [OF s'(3)] by (intro nth_equalityI) simp_all
  moreover have "dblk s' 2 @ dblk s' 3 = bm_v (bmap s')"
    using s'(13) blk ok(2) split_1024 [OF len] by (simp add: bm)
  moreover have "dblk s' j = dblk t j" if "j < N" "j < 2 \<or> 64 \<le> j" for j
    using s'(13) blk [OF that(1)] d(5) [OF that] that nd by auto
  moreover have "same_meta s' t" using d(3) s'(6-8,11) by (simp add: same_meta_def bm meta)
  ultimately have "caught_up N s' t" using s'(5) by (simp add: caught_up_def)
  then show ?thesis using s'(1) flush_block_freemap_eq [OF d(1)] by (auto simp: testfs_flush_csum_def)
qed

section \<open>The alternate path is the ordinary one\<close>

text \<open>The three flushes after a write to one file.\<close>

definition save_alternate :: "inode \<times> 'd fsys \<Rightarrow> (inode list \<times> 'd fsys) res" where
  "save_alternate = (\<lambda>(ino, s). bind_r (flush_indirects [ino] s) (\<lambda>(inos, s).
     bind_r (testfs_flush_block_freemap s) (\<lambda>s. bind_r (testfs_flush_csum s) (\<lambda>s. Inr (inos, s)))))"

text \<open>The three flushes of the caller, and what they leave.\<close>

lemma save_alternate_lags:
  assumes "lags N s1 ino1 t"
  obtains ino2 s' where "save_alternate (ino1, s1) = Inr ([ino2], s')" "i_in ino2 = i_in ino1" "caught_up N s' t"
proof -
  obtain ino2 s2 where f: "flush_indirects [ino1] s1 = Inr ([ino2], s2)" "lags N s2 ino2 t"
    "\<not> has_flag ino2 I_FLAGS_INDIRECT_DIRTY" "i_in ino2 = i_in ino1"
    using flush_indirect_lags [OF assms] by blast
  obtain s' where s': "bind_r (testfs_flush_block_freemap s2) testfs_flush_csum = Inr s'" "caught_up N s' t"
    using flush_lags [OF f(2,3)] by blast
  have "save_alternate (ino1, s1) = Inr ([ino2], s')"
    using f(1) s'(1) by (auto simp: save_alternate_def bind_r_eq_Inr)
  then show ?thesis using f(4) s'(2) by (rule that)
qed

lemma caught_up_synced:
  assumes "caught_up N s' t" "inode_step N s d m t d' m'" "fs_ok N s" "synced s"
  shows "synced s'"
proof -
  note st = data_stepD [OF inode_stepD(1) [OF assms(2)]]
  have "dblk t 1 = dblk s 1" "imap t = imap s" using st fs_okD(3) [OF assms(3)] by simp_all
  moreover have "dblk s' 1 = dblk t 1" "imap s' = imap t" "dblk s' 2 @ dblk s' 3 = bm_v (bmap s')"
    using assms(1) fs_okD(3) [OF assms(3)] by (simp_all add: caught_up_def same_meta_def)
  ultimately show ?thesis
    using assms(1,4) by (simp add: synced_def freemaps_synced_def caught_up_def)
qed

text \<open>The file after the flushes is the one of the state that the write was ahead of.\<close>

lemma save_alternate_file:
  assumes l: "lags N s1 ino1 t" and st: "inode_step N s d (nblocks (nat (i_size d))) t (i_in ino1) m'"
    and f: "file_ok t (i_in ino1)" "csums_ok t (i_in ino1) (nblocks (nat (i_size (i_in ino1))))" and s: "fs_ok N s" "synced s"
  obtains ino2 s' where "save_alternate (ino1, s1) = Inr ([ino2], s')" "i_in ino2 = i_in ino1"
    "contents s' (i_in ino2) = contents t (i_in ino1)" "nfree s' = nfree t" "fs_ok N s'" "synced s'" "file_ok s' (i_in ino2)"
    "csums_ok s' (i_in ino2) (nblocks (nat (i_size (i_in ino2))))"
    "\<forall>e. file_ok s e \<and> blocks_of s e \<inter> blocks_of s d = {} \<longrightarrow> file_ok s' e \<and> contents s' e = contents s e"
proof -
  obtain ino2 s' where sv: "save_alternate (ino1, s1) = Inr ([ino2], s')" "i_in ino2 = i_in ino1" "caught_up N s' t"
    using save_alternate_lags [OF l] by blast
  note cf = caught_up_file [OF sv(3) lagsD(2) [OF l]]
  have sy: "synced s'" using sv(3) st s by (rule caught_up_synced)
  have nf: "nfree s' = nfree t" using sv(3) by (simp add: caught_up_def same_metaD)
  have others: "file_ok s' e \<and> contents s' e = contents s e"
    if e: "file_ok s e \<and> blocks_of s e \<inter> blocks_of s d = {}" for e
  proof -
    have "file_ok t e" "contents t e = contents s e"
      using other_contents [OF st s(1)] e by (simp_all add: blocks_of_def)
    then show ?thesis using cf(1,2) by simp
  qed
  show thesis
    by (rule that [OF sv(1,2)]) (use cf [OF f(1)] f sv(2,3) sy nf others in \<open>simp_all add: caught_up_def\<close>)
qed

text \<open>What the caller finds after the alternate write and the three flushes.\<close>

definition alternate_leaves ::
    "nat \<Rightarrow> inode \<Rightarrow> int \<Rightarrow> byte list \<Rightarrow> int \<Rightarrow> 'd fsys \<Rightarrow> byte list \<Rightarrow> int \<Rightarrow> nat \<Rightarrow> bool" where
  "alternate_leaves N ino start buf sz s x len free \<longleftrightarrow>
     (\<exists>ino1 s1 ino2 s'. testfs_write_data_alternate ino start buf sz s = Inr (0, ino1, s1) \<and>
        save_alternate (ino1, s1) = Inr ([ino2], s') \<and>
        contents s' (i_in ino2) = x \<and> i_size (i_in ino2) = len \<and> nfree s' = free \<and>
        fs_ok N s' \<and> synced s' \<and> file_ok s' (i_in ino2) \<and>
        csums_ok s' (i_in ino2) (nblocks (nat (i_size (i_in ino2)))) \<and>
        (\<forall>e. file_ok s e \<and> blocks_of s e \<inter> blocks_of s (i_in ino) = {} \<longrightarrow>
           file_ok s' e \<and> contents s' e = contents s e))"

lemma alternate_aligned:
  assumes "fs_ok N s" "synced s" "file_ok s (i_in ino)" "csums_ok s (i_in ino) (nblocks (nat (i_size (i_in ino))))"
    and "\<not> has_flag ino I_FLAGS_INDIRECT_LOADED" "\<not> has_flag ino I_FLAGS_INDIRECT_DIRTY"
    and "0 < sz" "sz \<le> length buf" "512 * a \<le> nat (i_size (i_in ino))" "512 * a + sz \<le> 132 * 512"
    and "needs (nblocks (nat (i_size (i_in ino)))) (nblocks (512 * a + sz)) \<le> nfree s"
  shows "\<exists>v u. testfs_write_data ino (int (512 * a)) buf (int sz) s = Inr (0, v, u) \<and>
    alternate_leaves N ino (int (512 * a)) buf (int sz) s (contents u (i_in v)) (i_size (i_in v)) (nfree u)"
proof -
  let ?d = "i_in ino" and ?m = "nblocks (nat (i_size (i_in ino)))" and ?e = "nblocks (512 * a + sz)"
  obtain v u where vu: "testfs_write_data ino (int (512 * a)) buf (int sz) s = Inr (0, v, u)"
    "contents u (i_in v) = overwrite (512 * a) (take sz buf) (contents s ?d)"
    "i_size (i_in v) = max (i_size ?d) (int (512 * a + sz))"
    "nfree s = nfree u + needs ?m (nblocks (nat (i_size (i_in v))))"
    using write_data_eq [OF assms(1,3,4,7-11)] by blast
  have coh: "csum_coherent s" using assms(2) by (simp add: synced_def)
  note l = lags_start [OF assms(1) coh assms(3,5,6)]
  have im: "imap_ok s ?d ?m" using assms(3) by (simp add: file_ok_def)
  have "512 * a \<le> 512 * ?m" using assms(9) le_nblocks [of "nat (i_size ?d)"] by linarith
  then have am: "a \<le> ?m" by simp
  have ee: "?e = a + nblocks sz" by (simp add: nblocks_def)
  have e132: "a + nblocks sz \<le> 132" using nblocks_le [of "512 * a + sz" 132] assms(10) unfolding ee by simp
  have free: "needs ?m (max ?m (a + nblocks sz)) \<le> nfree s"
    using assms(11) unfolding ee by (cases "?m \<le> a + nblocks sz") (simp_all add: max_def needs_def)
  obtain ino1 s1 t where w: "testfs_write_data_alternate ino (int (512 * a)) buf (int sz) s = Inr (0, ino1, s1)"
    and l1: "lags N s1 ino1 t" and post: "write_post N (shade ino) ?m (512 * a) 0 sz buf s (shade ino1) t"
    using write_alternate_post [OF l im assms(4) am assms(7,8) e132 free] by blast
  have "file_ok s (i_in (shade ino))" "512 * a \<le> nat (i_size (i_in (shade ino)))" using assms(3,9) by simp_all
  note wf = write_post_file [OF this(1) assms(8) this(2) post [folded shade_simps(1) [of ino]], simplified shade_simps]
  have p: "contents t (i_in ino1) = overwrite (512 * a) (take sz buf) (contents s ?d)"
    "i_size (i_in ino1) = max (i_size ?d) (int (512 * a + sz))" "file_ok t (i_in ino1)"
    "csums_ok t (i_in ino1) (nblocks (nat (i_size (i_in ino1))))"
    "nfree s = nfree t + needs ?m (nblocks (nat (i_size (i_in ino1))))"
    "inode_step N s ?d ?m t (i_in ino1) (nblocks (nat (i_size (i_in ino1))))"
    using wf by blast+
  obtain ino2 s' where sv: "save_alternate (ino1, s1) = Inr ([ino2], s')" "i_in ino2 = i_in ino1"
    "contents s' (i_in ino2) = contents t (i_in ino1)" "nfree s' = nfree t" "fs_ok N s'" "synced s'" "file_ok s' (i_in ino2)"
    "csums_ok s' (i_in ino2) (nblocks (nat (i_size (i_in ino2))))"
    "\<forall>e. file_ok s e \<and> blocks_of s e \<inter> blocks_of s ?d = {} \<longrightarrow> file_ok s' e \<and> contents s' e = contents s e"
    by (rule save_alternate_file [OF l1 p(6,3,4) assms(1,2)])
  have eq: "contents s' (i_in ino2) = contents u (i_in v)" "i_size (i_in ino2) = i_size (i_in v)"
    using vu(2,3) p(1,2) sv(2,3) by simp_all
  have "nfree s' = nfree u" using p(2,5) vu(3,4) sv(4) by simp
  then show ?thesis unfolding alternate_leaves_def using w vu(1) sv eq by blast
qed

lemma alternate_unaligned:
  assumes "fs_ok N s" "synced s" "file_ok s (i_in ino)" "csums_ok s (i_in ino) (nblocks (nat (i_size (i_in ino))))"
    and "\<not> has_flag ino I_FLAGS_INDIRECT_LOADED" "\<not> has_flag ino I_FLAGS_INDIRECT_DIRTY"
    and h: "0 < h" "h < 512" "h \<le> sz" "sz \<le> length buf" "512 - h \<le> length buf"
    and fit: "512 * a + h + sz \<le> nat (i_size (i_in ino))" "512 * Suc a + (sz - h) \<le> nat (i_size (i_in ino))"
  shows "alternate_leaves N ino (int (512 * a + h)) buf (int sz) s
    (overwrite (512 * Suc a) (drop h (take sz buf)) (overwrite (512 * a + h) (take (512 - h) buf) (contents s (i_in ino))))
    (i_size (i_in ino)) (nfree s)"
proof -
  let ?d = "i_in ino" and ?m = "nblocks (nat (i_size (i_in ino)))"
  let ?x = "contents s ?d" and ?F = "fbyte s ?d"
  have coh: "csum_coherent s" using assms(2) by (simp add: synced_def)
  note l = lags_start [OF assms(1) coh assms(3,5,6)]
  have im: "imap_ok s ?d ?m" and sz: "0 \<le> i_size ?d" using assms(3) by (simp_all add: file_ok_def)
  have "nblocks (512 * Suc a + (sz - h)) \<le> ?m"
    unfolding nblocks_def by (rule div_le_mono) (use fit(2) in simp)
  moreover have "nblocks (512 * Suc a + (sz - h)) = Suc a + nblocks (sz - h)" by (simp add: nblocks_def)
  ultimately have "a + nblocks (sz - h) < ?m" by simp
  from write_alternate_unaligned [OF l im assms(4) h this]
  obtain ino0 s1 t where w: "testfs_write_data_alternate ino (int (512 * a + h)) buf (int sz) s =
      Inr (0, set_size (int (512 * a + h + sz)) ino0, s1)" and l0: "lags N s1 ino0 t"
    and post: "file_post N s ino ?m ?m (shifted a h buf sz ?F) t ino0" by blast
  let ?ino1 = "set_size (int (512 * a + h + sz)) ino0"
  have isz: "i_size (i_in ino0) = i_size ?d" and st: "inode_step N s ?d ?m t (i_in ino0) ?m"
    using post by (simp_all add: file_post_def)
  have "max (i_size ?d) (int (512 * a + h + sz)) = i_size ?d" using fit(1) sz by linarith
  then have in1: "i_in ?ino1 = i_in ino0" using isz by (simp add: set_size_def)
  note d = file_postD [OF post]
  have f: "file_ok t (i_in ?ino1)" "csums_ok t (i_in ?ino1) (nblocks (nat (i_size (i_in ?ino1))))"
    using d(1,2) isz sz unfolding in1 by (simp_all add: file_ok_def)
  have c: "contents t (i_in ino0) = overwrite (512 * Suc a) (drop h (take sz buf)) (overwrite (512 * a + h) (take (512 - h) buf) ?x)"
    (is "_ = ?y")
  proof (rule nth_equalityI)
    have "length (overwrite (512 * a + h) (take (512 - h) buf) ?x) = length ?x"
      using length_overwrite [of "512 * a + h" ?x "take (512 - h) buf"] h fit by simp
    then have ly: "length ?y = length ?x"
      using length_overwrite [of "512 * Suc a" "overwrite (512 * a + h) (take (512 - h) buf) ?x" "drop h (take sz buf)"] h fit by simp
    then show "length (contents t (i_in ino0)) = length ?y" by (simp add: isz)
    fix p assume "p < length (contents t (i_in ino0))"
    then have p: "p < nat (i_size ?d)" by (simp add: isz)
    then have "p < 512 * ?m" using le_nblocks [of "nat (i_size ?d)"] by linarith
    then have "contents t (i_in ino0) ! p = shifted a h buf sz ?F p"
      using d(4) p by (simp add: nth_contents isz)
    also have "\<dots> = ?y ! p"
      by (rule shifted_overwrite [OF h(2,3,4,5)]) (use fit(2) p in \<open>simp_all add: nth_contents\<close>)
    finally show "contents t (i_in ino0) ! p = ?y ! p" .
  qed
  have "nfree t = nfree s" using d(3) by (simp add: needs_def)
  moreover obtain ino2 s' where sv: "save_alternate (?ino1, s1) = Inr ([ino2], s')" "i_in ino2 = i_in ?ino1"
    "contents s' (i_in ino2) = contents t (i_in ?ino1)" "nfree s' = nfree t" "fs_ok N s'" "synced s'" "file_ok s' (i_in ino2)"
    "csums_ok s' (i_in ino2) (nblocks (nat (i_size (i_in ino2))))"
    "\<forall>e. file_ok s e \<and> blocks_of s e \<inter> blocks_of s ?d = {} \<longrightarrow> file_ok s' e \<and> contents s' e = contents s e"
    by (rule save_alternate_file [OF lags_set_size [OF l0] st [folded in1] f assms(1,2)])
  ultimately show ?thesis
    unfolding alternate_leaves_def using w c isz by (metis (no_types, lifting) in1)
qed

text \<open>
  C12.  The alternate write path followed by its caller's three flushes (the indirect block, the block freemap,
  the checksum table), on an inode whose indirect block is not yet in memory.  From a block boundary, a write of
  some bytes within the maximal size and the free blocks succeeds as with \<open>testfs_write_data\<close> on the same arguments,
  with the same contents and size of the file and as many free blocks (which blocks the file takes may differ).
  From offset \<open>h\<close> inside a block it differs from \<open>testfs_write_data\<close>: a write of fewer than \<open>h\<close> bytes aborts
  in \<open>assert(tail_size >= 0)\<close>, and a longer one, within the file, puts the first \<open>512 - h\<close> bytes of the buffer at
  the start, as it should, but the bytes from \<open>h\<close> on, instead of \<open>512 - h\<close>, at the next block boundary.  Whenever it succeeds, every
  checksum of the file is right, freemaps and checksum table are on the disk, and a file that shares no block with
  this one keeps its contents (\<open>alternate_leaves\<close>).
\<close>

theorem alternate_write_equiv:
  assumes "fs_ok N s" "synced s" "file_ok s (i_in ino)" "csums_ok s (i_in ino) (nblocks (nat (i_size (i_in ino))))"
    and "\<not> has_flag ino I_FLAGS_INDIRECT_LOADED" "\<not> has_flag ino I_FLAGS_INDIRECT_DIRTY"
    and "0 < sz" "sz \<le> length buf" "h < 512"
  shows "(h = 0 \<and> 512 * a \<le> nat (i_size (i_in ino)) \<and> 512 * a + sz \<le> 132 * 512 \<and>
      needs (nblocks (nat (i_size (i_in ino)))) (nblocks (512 * a + sz)) \<le> nfree s \<longrightarrow>
      (\<exists>v u. testfs_write_data ino (int (512 * a + h)) buf (int sz) s = Inr (0, v, u) \<and>
        alternate_leaves N ino (int (512 * a + h)) buf (int sz) s (contents u (i_in v)) (i_size (i_in v)) (nfree u))) \<and>
    (sz < h \<longrightarrow> testfs_write_data_alternate ino (int (512 * a + h)) buf (int sz) s = Inl AssertFail) \<and>
    (0 < h \<and> h \<le> sz \<and> 512 - h \<le> length buf \<and> 512 * a + h + sz \<le> nat (i_size (i_in ino)) \<and>
      512 * Suc a + (sz - h) \<le> nat (i_size (i_in ino)) \<longrightarrow>
      alternate_leaves N ino (int (512 * a + h)) buf (int sz) s
        (overwrite (512 * Suc a) (drop h (take sz buf)) (overwrite (512 * a + h) (take (512 - h) buf) (contents s (i_in ino))))
        (i_size (i_in ino)) (nfree s))"
  using alternate_aligned [OF assms(1-8), of a] write_alternate_small_head [OF assms(7) _ assms(9), of ino a buf s]
    alternate_unaligned [OF assms(1-6) _ assms(9) _ assms(8), of a] by auto

theorem alternate_write_equiv_witness:
  "(\<exists>v u. testfs_write_data new_ino (int (512 * 0 + 0)) (replicate 1500 5) (int 1500) fresh_fs = Inr (0, v, u) \<and>
      alternate_leaves 8192 new_ino (int (512 * 0 + 0)) (replicate 1500 5) (int 1500) fresh_fs
        (contents u (i_in v)) (i_size (i_in v)) (nfree u)) \<and>
   testfs_write_data_alternate new_ino (int (512 * 0 + 10)) [1, 2, 3] (int 3) fresh_fs = Inl AssertFail \<and>
   (\<exists>(s :: (nat \<Rightarrow> byte list) fsys) ino x. contents s (i_in ino) = replicate 1500 5 \<and>
      alternate_leaves 8192 ino (int (512 * 0 + 100)) (replicate 300 1 @ replicate 300 2) (int 600) s x 1500 (nfree s) \<and>
      x ! 512 = 1 \<and> overwrite 100 (replicate 300 1 @ replicate 300 2) (replicate 1500 5) ! 512 = (2 :: byte))"
  (is "?A \<and> ?B \<and> ?C")
proof (intro conjI)
  have sf: "synced fresh_fs" using fresh_synced fresh_coherent by (simp add: synced_def) (simp add: fresh_fs_def)
  have fl: "\<not> has_flag (new_ino\<lparr>i_in := d\<rparr>) I_FLAGS_INDIRECT_LOADED" "\<not> has_flag (new_ino\<lparr>i_in := d\<rparr>) I_FLAGS_INDIRECT_DIRTY"
    for d by (simp_all add: has_flag_def new_ino_def)
  have new: "new_ino\<lparr>i_in := i_in new_ino\<rparr> = new_ino" by simp
  note awe = alternate_write_equiv [OF fresh_fs_ok sf write_new(1,2) fl [of "i_in new_ino", unfolded new]]
  have z: "i_size (i_in new_ino) = 0" by (simp add: new_ino_def zero_dinode_def)
  show ?A using awe [of 1500 1500 1500 "replicate 1500 5" 0 0] write_new(5) [of 1500] by simp
  then obtain v u where vu: "testfs_write_data new_ino (int 0) (replicate 1500 5) (int 1500) fresh_fs = Inr (0, v, u)"
    and al: "alternate_leaves 8192 new_ino (int (512 * 0 + 0)) (replicate 1500 5) (int 1500) fresh_fs
      (contents u (i_in v)) (i_size (i_in v)) (nfree u)" by auto
  obtain ino2 :: inode and s' :: "(nat \<Rightarrow> byte list) fsys" where s': "contents s' (i_in ino2) = contents u (i_in v)" "i_size (i_in ino2) = i_size (i_in v)"
      "fs_ok 8192 s'" "synced s'" "file_ok s' (i_in ino2)" "csums_ok s' (i_in ino2) (nblocks (nat (i_size (i_in ino2))))"
    using al unfolding alternate_leaves_def by blast
  have "contents u (i_in v) = overwrite 0 (take 1500 (replicate 1500 5)) (contents fresh_fs (i_in new_ino))"
    "i_size (i_in v) = max (i_size (i_in new_ino)) (int (0 + 1500))"
    using write_data_eq [OF fresh_fs_ok write_new(1,2) _ _ write_new(3,4,5), of 1500 1500 1500 "replicate 1500 5"] vu by auto
  then have c: "contents s' (i_in ino2) = replicate 1500 5" "i_size (i_in ino2) = 1500"
    using s'(1,2) z by (simp_all add: overwrite_def contents_def)
  show ?B using awe [of 1500 1500 3 "[1, 2, 3]" 10 0] by simp
  let ?i = "new_ino\<lparr>i_in := i_in ino2\<rparr>" and ?b = "replicate 300 1 @ replicate 300 2 :: byte list"
  let ?x = "overwrite (512 * Suc 0) (drop 100 (take 600 ?b)) (overwrite (512 * 0 + 100) (take (512 - 100) ?b) (replicate 1500 5))"
  have "alternate_leaves 8192 ?i (int (512 * 0 + 100)) ?b (int 600) s' ?x 1500 (nfree s')"
    using alternate_write_equiv [OF s'(3,4) _ _ fl, of "i_in ino2" 600 ?b 100 0] s'(5,6) c by simp
  moreover have "?x ! 512 = 1" "overwrite 100 ?b (replicate 1500 5) ! 512 = (2 :: byte)"
    by (simp_all add: overwrite_def nth_append)
  moreover have "contents s' (i_in ?i) = replicate 1500 5" using c(1) by simp
  ultimately show ?C by blast
qed

end
