(* ===== verification/AsyncOk.thy ===== *)
theory AsyncOk
  imports AsyncOps AltOk
begin

text \<open>
  The asynchronous write path against the synchronous one.  While data blocks are in flight the device is behind:
  \<open>sim N io s\<close> says that \<open>s\<close> is what \<open>io\<close> becomes when every request in flight has completed, in whatever order.
  Submitting a write is the synchronous write on \<open>s\<close>; a completion changes nothing of \<open>s\<close>.  The invariant that
  makes it so is that no two requests in flight are about the same block, which holds because the map of the inode
  is injective.
\<close>

section \<open>Requests in flight\<close>

definition req_start :: "request \<Rightarrow> nat" where
  "req_start r = (case r of ReadReq dest req \<Rightarrow> rq_start req | WriteReq req \<Rightarrow> rq_start req)"

definition req_reactor :: "request \<Rightarrow> nat" where
  "req_reactor r = (case r of ReadReq dest req \<Rightarrow> rq_reactor_id req | WriteReq req \<Rightarrow> rq_reactor_id req)"

text \<open>A request for one block: reads count in future 1 and deliver to buffer 1, writes count in future 0.\<close>

definition single :: "nat \<Rightarrow> nat \<times> request \<Rightarrow> bool" where
  "single N q = (case q of
     (f, ReadReq dest req) \<Rightarrow> f = 1 \<and> dest = 1 \<and> rq_nr req = 1 \<and> rq_start req < N \<and> rq_reactor_id req < NUM_REACTORS
   | (f, WriteReq req) \<Rightarrow> f = 0 \<and> rq_nr req = 1 \<and> rq_start req < N \<and> rq_reactor_id req < NUM_REACTORS \<and>
                          length (rq_buf req) = BLOCK_SIZE)"

definition outstanding :: "nat \<Rightarrow> nat \<Rightarrow> (nat \<times> request) list \<Rightarrow> nat" where
  "outstanding f r qs = length (filter (\<lambda>q. fst q = f \<and> req_reactor (snd q) = r) qs)"

definition counted :: "(nat \<times> request) list \<Rightarrow> nat \<Rightarrow> future \<Rightarrow> bool" where
  "counted qs f fut \<longleftrightarrow> length (counts fut) = NUM_REACTORS \<and> length (expected_counts fut) = NUM_REACTORS \<and>
     (\<forall>r < NUM_REACTORS. expected_counts fut ! r = counts fut ! r + outstanding f r qs)"

definition flight :: "nat \<Rightarrow> 'd io \<Rightarrow> bool" where
  "flight N io \<longleftrightarrow> dev_ok N (io_fs io) \<and> length (io_bufs io) = 2 \<and> length (io_futures io) = 2 \<and>
     (\<forall>q \<in> set (io_queue io). single N q) \<and> distinct (map (req_start \<circ> snd) (io_queue io)) \<and>
     (\<forall>f < 2. counted (io_queue io) f (io_futures io ! f))"

definition sim :: "nat \<Rightarrow> 'd io \<Rightarrow> 'd fsys \<Rightarrow> bool" where
  "sim N io s \<longleftrightarrow> flight N io \<and> fs_sb (io_fs io) = fs_sb s \<and> fs_bdev (io_fs io) = fs_bdev s \<and>
     fs_out (io_fs io) = fs_out s \<and>
     (\<forall>f req. (f, WriteReq req) \<in> set (io_queue io) \<longrightarrow> dblk s (rq_start req) = rq_buf req) \<and>
     (\<forall>j < N. (\<forall>f req. (f, WriteReq req) \<in> set (io_queue io) \<longrightarrow> rq_start req \<noteq> j) \<longrightarrow>
        dblk s j = dblk (io_fs io) j)"

text \<open>Buffer 1 is or will be \<open>B\<close>.\<close>

definition delivers :: "'d io \<Rightarrow> byte list \<Rightarrow> bool" where
  "delivers io B \<longleftrightarrow>
     (\<forall>f dest req. (f, ReadReq dest req) \<in> set (io_queue io) \<longrightarrow> dblk (io_fs io) (rq_start req) = B) \<and>
     ((\<forall>f dest req. (f, ReadReq dest req) \<notin> set (io_queue io)) \<longrightarrow> io_bufs io ! 1 = B)"

section \<open>Completions\<close>

lemma outstanding_remove:
  assumes "i < length qs" "qs ! i = (f, r)"
  shows "outstanding g x qs =
    outstanding g x (take i qs @ drop (Suc i) qs) + (if g = f \<and> req_reactor r = x then 1 else 0)"
proof -
  have "qs = take i qs @ (f, r) # drop (Suc i) qs" using assms id_take_nth_drop [of i qs] by simp
  then have "outstanding g x qs = outstanding g x (take i qs @ (f, r) # drop (Suc i) qs)" by simp
  then show ?thesis by (simp add: outstanding_def)
qed

lemma counted_complete:
  assumes "counted qs g fut" "i < length qs" "qs ! i = (f, r)" "req_reactor r < NUM_REACTORS"
  shows "counted (take i qs @ drop (Suc i) qs) g (if g = f then count_completed (req_reactor r) fut else fut)"
  using assms outstanding_remove [OF assms(2,3), of g]
  by (auto simp: counted_def count_completed_def nth_list_update)

lemma queue_remove:
  assumes "i < length qs"
  shows "set qs = insert (qs ! i) (set (take i qs @ drop (Suc i) qs))"
    "distinct (map h qs) \<Longrightarrow> distinct (map h (take i qs @ drop (Suc i) qs)) \<and>
       h (qs ! i) \<notin> h ` set (take i qs @ drop (Suc i) qs)"
proof -
  have q: "qs = take i qs @ qs ! i # drop (Suc i) qs" using assms id_take_nth_drop [of i qs] by simp
  show "set qs = insert (qs ! i) (set (take i qs @ drop (Suc i) qs))"
    by (subst q) simp
  show "distinct (map h (take i qs @ drop (Suc i) qs)) \<and> h (qs ! i) \<notin> h ` set (take i qs @ drop (Suc i) qs)"
    if d: "distinct (map h qs)"
  proof -
    from d have "distinct (map h (take i qs @ qs ! i # drop (Suc i) qs))" using q by simp
    then show ?thesis by auto
  qed
qed

lemma flightD:
  assumes "flight N io"
  shows "dev_ok N (io_fs io)" "length (io_bufs io) = 2" "length (io_futures io) = 2"
    "q \<in> set (io_queue io) \<Longrightarrow> single N q" "distinct (map (req_start \<circ> snd) (io_queue io))"
    "f < 2 \<Longrightarrow> counted (io_queue io) f (io_futures io ! f)"
  using assms unfolding flight_def by blast+

text \<open>What one completion does.\<close>

lemma complete_at_eq:
  assumes fl: "flight N io" and i: "i < length (io_queue io)"
  shows "complete_at i io = (case io_queue io ! i of (f, r) \<Rightarrow>
    io\<lparr>io_queue := take i (io_queue io) @ drop (Suc i) (io_queue io),
       io_futures := (io_futures io)[f := count_completed (req_reactor r) (io_futures io ! f)],
       io_fs := (case r of ReadReq dest req \<Rightarrow> io_fs io | WriteReq req \<Rightarrow> put_blk (rq_buf req) (rq_start req) (io_fs io)),
       io_bufs := (case r of ReadReq dest req \<Rightarrow> (io_bufs io)[1 := dblk (io_fs io) (rq_start req)]
                   | WriteReq req \<Rightarrow> io_bufs io)\<rparr>)"
proof -
  obtain f r where q: "io_queue io ! i = (f, r)" by fastforce
  have "single N (f, r)" using flightD(4) [OF fl nth_mem [OF i]] q by simp
  moreover have "bdev_accepts (fs_bdev (io_fs io)) (fs_media (io_fs io)) k 1" if "k < N" for k
    using dev_okD(1) [OF flightD(1) [OF fl], of 1 k] that by simp
  ultimately show ?thesis
    by (cases r) (simp_all add: complete_at_def q run_request_def single_def reactor_read_def reactor_write_def
      req_reactor_def dblk_def put_blk_def)
qed

lemma complete_flight:
  assumes fl: "flight N io" and i: "i < length (io_queue io)"
  shows "flight N (complete_at i io)"
proof -
  obtain f r where q: "io_queue io ! i = (f, r)" by fastforce
  note qr = queue_remove [OF i]
  have s: "single N (f, r)" using flightD(4) [OF fl nth_mem [OF i]] q by simp
  then have rr: "req_reactor r < 3" "f < 2" by (cases r; simp add: single_def req_reactor_def)+
  have c: "counted (take i (io_queue io) @ drop (Suc i) (io_queue io)) g
      ((io_futures io)[f := count_completed (req_reactor r) (io_futures io ! f)] ! g)" if "g < 2" for g
    using counted_complete [OF flightD(6) [OF fl that] i q rr(1)] flightD(3) [OF fl] rr(2) that
    by (cases "g = f") simp_all
  have "single N p" if "p \<in> set (take i (io_queue io) @ drop (Suc i) (io_queue io))" for p
    using flightD(4) [OF fl, of p] qr(1) that by auto
  moreover have "distinct (map (req_start \<circ> snd) (take i (io_queue io) @ drop (Suc i) (io_queue io)))"
    using qr(2) [OF flightD(5) [OF fl]] by blast
  ultimately show ?thesis
    using c flightD(1-3) [OF fl] unfolding complete_at_eq [OF fl i] flight_def q
    by (cases r) simp_all
qed

lemma simD:
  assumes "sim N io s"
  shows "flight N io" "fs_sb (io_fs io) = fs_sb s" "fs_bdev (io_fs io) = fs_bdev s" "fs_out (io_fs io) = fs_out s"
    "(f, WriteReq req) \<in> set (io_queue io) \<Longrightarrow> dblk s (rq_start req) = rq_buf req"
    "j < N \<Longrightarrow> (\<And>f req. (f, WriteReq req) \<in> set (io_queue io) \<Longrightarrow> rq_start req \<noteq> j) \<Longrightarrow> dblk s j = dblk (io_fs io) j"
  using assms unfolding sim_def by blast+

lemma starts_differ:
  assumes "distinct (map (req_start \<circ> snd) qs)" "(f, r) \<in> set qs" "(g, r') \<in> set qs" "r \<noteq> r'"
  shows "req_start r \<noteq> req_start r'"
  using assms by (metis (no_types, lifting) comp_apply distinct_map inj_on_def prod.inject snd_conv)

lemma read_start:
  assumes "flight N io" "(f, ReadReq d req) \<in> set (io_queue io)" "(g, WriteReq wr) \<in> set (io_queue io)"
  shows "rq_start wr \<noteq> rq_start req"
  using starts_differ [OF flightD(5) [OF assms(1)] assms(2,3)] by (simp add: req_start_def)

lemma complete_sim:
  assumes s: "sim N io s" and i: "i < length (io_queue io)"
  shows "sim N (complete_at i io) s"
proof -
  obtain f r where q: "io_queue io ! i = (f, r)" by fastforce
  let ?io = "complete_at i io" and ?qs = "take i (io_queue io) @ drop (Suc i) (io_queue io)"
  note fl = simD(1) [OF s] and qr = queue_remove [OF i]
  note fl' = complete_flight [OF fl i] and eq = complete_at_eq [OF fl i, unfolded q]
  have mem: "p \<in> set (io_queue io) \<longleftrightarrow> p = (f, r) \<or> p \<in> set ?qs" for p using qr(1) q by auto
  have sg: "single N (f, r)" using flightD(4) [OF fl nth_mem [OF i]] q by simp
  show ?thesis
  proof (cases r)
    case (ReadReq dest req)
    then show ?thesis using fl' s mem unfolding sim_def eq by simp
  next
    case (WriteReq req)
    have st: "rq_start req < N" "length (rq_buf req) = 512" using sg WriteReq by (simp_all add: single_def)
    have blk: "dblk (io_fs ?io) j = (if j = rq_start req then rq_buf req else dblk (io_fs io) j)" if "j < N" for j
      using dblk_put_blk [OF flightD(1) [OF fl] st(1) that, of "rq_buf req"] st(2) WriteReq by (simp add: eq)
    have "dblk s j = dblk (io_fs ?io) j"
      if j: "j < N" "\<And>g wr. (g, WriteReq wr) \<in> set ?qs \<Longrightarrow> rq_start wr \<noteq> j" for j
    proof (cases "j = rq_start req")
      case True
      then show ?thesis using simD(5) [OF s, of f req] mem WriteReq blk [OF j(1)] by simp
    next
      case False
      then have "rq_start wr \<noteq> j" if "(g, WriteReq wr) \<in> set (io_queue io)" for g wr
        using j(2) [of g wr] that WriteReq by (auto simp: mem)
      then show ?thesis using simD(6) [OF s j(1)] blk [OF j(1)] False by simp
    qed
    moreover have "dblk s (rq_start wr) = rq_buf wr" if "(g, WriteReq wr) \<in> set ?qs" for g wr
      using simD(5) [OF s, of g wr] that by (simp add: mem)
    moreover have "io_queue ?io = ?qs" "fs_sb (io_fs ?io) = fs_sb s" "fs_bdev (io_fs ?io) = fs_bdev s"
      "fs_out (io_fs ?io) = fs_out s"
      using simD(2-4) [OF s] WriteReq by (simp_all add: eq)
    ultimately show ?thesis using fl' unfolding sim_def by metis
  qed
qed

lemma complete_delivers:
  assumes fl: "flight N io" and d: "delivers io B" and i: "i < length (io_queue io)"
  shows "delivers (complete_at i io) B"
proof -
  obtain f r where q: "io_queue io ! i = (f, r)" by fastforce
  let ?qs = "take i (io_queue io) @ drop (Suc i) (io_queue io)"
  note qr = queue_remove [OF i] and eq = complete_at_eq [OF fl i, unfolded q]
  have mem: "p \<in> set (io_queue io) \<longleftrightarrow> p = (f, r) \<or> p \<in> set ?qs" for p using qr(1) q by auto
  have sg: "single N (f, r)" using flightD(4) [OF fl nth_mem [OF i]] q by simp
  show ?thesis
  proof (cases r)
    case (ReadReq dest req)
    then have "dblk (io_fs io) (rq_start req) = B" using d mem unfolding delivers_def by blast
    then show ?thesis using ReadReq d mem flightD(2) [OF fl] unfolding delivers_def eq by auto
  next
    case (WriteReq req)
    have st: "rq_start req < N" "length (rq_buf req) = 512" using sg WriteReq by (simp_all add: single_def)
    have "dblk (put_blk (rq_buf req) (rq_start req) (io_fs io)) (rq_start rd) = B"
      if rd: "(g, ReadReq dest rd) \<in> set ?qs" for g dest rd
    proof -
      have m: "(g, ReadReq dest rd) \<in> set (io_queue io)" "(f, WriteReq req) \<in> set (io_queue io)"
        using rd WriteReq by (simp_all add: mem)
      have "rq_start rd < N" using flightD(4) [OF fl m(1)] by (simp add: single_def)
      then show ?thesis
        using dblk_put_blk [OF flightD(1) [OF fl] st(1), of "rq_start rd" "rq_buf req"] st(2)
          read_start [OF fl m] d m(1) unfolding delivers_def by auto
    qed
    moreover have "(\<forall>g dest rd. (g, ReadReq dest rd) \<notin> set ?qs) \<Longrightarrow> io_bufs io ! 1 = B"
      using d mem WriteReq unfolding delivers_def by blast
    ultimately show ?thesis using WriteReq unfolding delivers_def eq by simp
  qed
qed

lemma complete_queue:
  "flight N io \<Longrightarrow> i < length (io_queue io) \<Longrightarrow>
   io_queue (complete_at i io) = take i (io_queue io) @ drop (Suc i) (io_queue io)"
  by (simp add: complete_at_eq split: prod.split)

text \<open>A schedule, and a wait under it.\<close>

lemma run_schedule_sim:
  assumes "sim N io s" "delivers io B"
  shows "sim N (run_schedule is io) s \<and> delivers (run_schedule is io) B \<and>
    set (io_queue (run_schedule is io)) \<subseteq> set (io_queue io)"
  using assms
proof (induction "is" arbitrary: io)
  case (Cons i "is")
  show ?case
  proof (cases "i < length (io_queue io)")
    case True
    note fl = simD(1) [OF Cons.prems(1)]
    have "set (io_queue (complete_at i io)) \<subseteq> set (io_queue io)"
      using complete_queue [OF fl True] queue_remove(1) [OF True] by auto
    then show ?thesis
      using True Cons.IH [OF complete_sim [OF Cons.prems(1) True] complete_delivers [OF fl Cons.prems(2) True]] by auto
  qed (use Cons in simp)
qed simp

lemma ready_none:
  assumes "counted qs f fut" "\<And>q. q \<in> set qs \<Longrightarrow> req_reactor (snd q) < NUM_REACTORS"
  shows "future_ready fut \<longleftrightarrow> (\<forall>q \<in> set qs. fst q \<noteq> f)"
proof -
  have "future_ready fut \<longleftrightarrow> (\<forall>r < 3. outstanding f r qs = 0)"
    using assms(1) unfolding future_ready_def counted_def by auto
  also have "\<dots> \<longleftrightarrow> (\<forall>q \<in> set qs. fst q \<noteq> f)"
    using assms(2) unfolding outstanding_def by (auto simp: filter_empty_conv)
  finally show ?thesis .
qed

lemma wait_for_sim:
  assumes s: "sim N io s" "delivers io B" and f: "f < 2"
  shows "wait_for f sched io = Inl Hang \<or>
    (\<exists>io'. wait_for f sched io = Inr io' \<and> sim N io' s \<and> delivers io' B \<and>
       set (io_queue io') \<subseteq> {q \<in> set (io_queue io). fst q \<noteq> f})"
proof -
  let ?io = "run_schedule sched io"
  note r = run_schedule_sim [OF s, of sched]
  have fl: "flight N ?io" using r simD(1) by blast
  have "req_reactor (snd q) < 3" if "q \<in> set (io_queue ?io)" for q
    using flightD(4) [OF fl that] by (cases q; cases "snd q") (auto simp: single_def req_reactor_def)
  then have "future_ready (io_futures ?io ! f) \<longleftrightarrow> (\<forall>q \<in> set (io_queue ?io). fst q \<noteq> f)"
    by (rule ready_none [OF flightD(6) [OF fl f]])
  then show ?thesis using r
    by (cases "future_ready (io_futures ?io ! f)") (auto simp: wait_for_def spin_wait_def check_r_def Let_def)
qed

text \<open>When everything in flight completes, the wait returns.\<close>

lemma run_all:
  assumes "sim N io s"
  shows "io_queue (run_schedule (replicate (length (io_queue io)) 0) io) = []"
  using assms
proof (induction "length (io_queue io)" arbitrary: io)
  case (Suc n)
  then have l: "0 < length (io_queue io)" by linarith
  have "length (io_queue (complete_at 0 io)) = n"
    using complete_queue [OF simD(1) [OF Suc.prems] l] Suc(2) by simp
  then show ?case
    using Suc(1) [of "complete_at 0 io"] complete_sim [OF Suc.prems l] Suc(2) l by (simp flip: Suc(2))
qed simp

lemma wait_for_all:
  assumes s: "sim N io s" "delivers io B" and f: "f < 2"
  shows "wait_for f (replicate (length (io_queue io)) 0) io \<noteq> Inl Hang"
proof -
  let ?io = "run_schedule (replicate (length (io_queue io)) 0) io"
  have fl: "flight N ?io" using run_schedule_sim [OF s] simD(1) by blast
  have "future_ready (io_futures ?io ! f)"
    by (subst ready_none [OF flightD(6) [OF fl f]]) (simp_all add: run_all [OF s(1)])
  then show ?thesis by (simp add: wait_for_def spin_wait_def check_r_def)
qed

section \<open>Submitting\<close>

definition starts :: "'d io \<Rightarrow> nat set" where
  "starts io = (req_start \<circ> snd) ` set (io_queue io)"

lemma counted_expect:
  assumes "counted qs g fut" "req_reactor r < NUM_REACTORS"
  shows "counted (qs @ [(f, r)]) g (if g = f then count_expected (req_reactor r) fut else fut)"
  using assms by (auto simp: counted_def count_expected_def outstanding_def nth_list_update)

lemma flight_submit:
  assumes fl: "flight N io" and q: "single N (f, r)" "req_start r \<notin> starts io"
  shows "flight N (io\<lparr>io_queue := io_queue io @ [(f, r)],
    io_futures := (io_futures io)[f := count_expected (req_reactor r) (io_futures io ! f)]\<rparr>)"
proof -
  have rr: "req_reactor r < 3" "f < 2" using q(1) by (cases r; simp add: single_def req_reactor_def)+
  have "counted (io_queue io @ [(f, r)]) g
      ((io_futures io)[f := count_expected (req_reactor r) (io_futures io ! f)] ! g)" if "g < 2" for g
    using counted_expect [OF flightD(6) [OF fl that] rr(1), of f] flightD(3) [OF fl] rr(2) that by (cases "g = f") simp_all
  then show ?thesis using fl q by (simp add: flight_def starts_def)
qed

text \<open>A write of one block: \<open>io\<close> with the request in flight stands for \<open>s\<close> with the block written.\<close>

definition put_flight :: "byte list \<Rightarrow> nat \<Rightarrow> 'd io \<Rightarrow> 'd io" where
  "put_flight B k io = io\<lparr>io_queue := io_queue io @ [(0, WriteReq \<lparr>rq_buf = B, rq_start = k, rq_nr = 1, rq_reactor_id = DATA_REACTOR\<rparr>)],
     io_futures := (io_futures io)[0 := count_expected DATA_REACTOR (io_futures io ! 0)]\<rparr>"

lemma submit_write_eq:
  assumes "512 \<le> length buf" "k < 2 ^ 31"
  shows "submit_write 0 DATA_REACTOR buf (int k) 1 io = Inr (put_flight (take 512 buf) k io)"
  using assms c_memcpy_ok [of "replicate 512 0" 0 buf 0 512]
  by (simp add: submit_write_def write_blocks_async_def fill_request_common_def put_flight_def blit_def seg_def)

lemma submit_write_sim:
  assumes s: "sim N io s" "delivers io B0" and k: "k < N" "k \<notin> starts io" and len: "length B = 512"
  shows "sim N (put_flight B k io) (put_blk B k s)" "delivers (put_flight B k io) B0"
    "starts (put_flight B k io) = insert k (starts io)"
proof -
  let ?w = "(0, WriteReq \<lparr>rq_buf = B, rq_start = k, rq_nr = 1, rq_reactor_id = DATA_REACTOR\<rparr>) :: nat \<times> request"
  note fl = simD(1) [OF s(1)]
  have rs: "req_start (snd ?w) = k" "req_reactor (snd ?w) = 2" by (simp_all add: req_start_def req_reactor_def)
  have fl': "flight N (put_flight B k io)"
    using flight_submit [OF fl, of 0 "snd ?w"] k len rs by (simp add: put_flight_def single_def)
  have dev: "dev_ok N s" using flightD(1) [OF fl] simD(3) [OF s(1)] by (simp add: dev_ok_def)
  have blk: "dblk (put_blk B k s) j = (if j = k then B else dblk s j)" if "j < N" for j
    using dblk_put_blk [OF dev k(1) that, of B] len by simp
  have other: "rq_start wr < N \<and> rq_start wr \<noteq> k" if "(g, WriteReq wr) \<in> set (io_queue io)" for g wr
  proof -
    have "rq_start wr \<in> starts io" using that by (force simp: starts_def req_start_def)
    then show ?thesis using flightD(4) [OF fl that] k(2) by (auto simp: single_def)
  qed
  have wr: "dblk (put_blk B k s) (rq_start wr) = rq_buf wr" if "(g, WriteReq wr) \<in> set (io_queue io @ [?w])" for g wr
    using that other [of g wr] blk simD(5) [OF s(1), of g wr] k(1) by auto
  have rest: "dblk (put_blk B k s) j = dblk (io_fs io) j"
    if j: "j < N" "\<forall>g wr. (g, WriteReq wr) \<in> set (io_queue io @ [?w]) \<longrightarrow> rq_start wr \<noteq> j" for j
  proof -
    have "j \<noteq> k" "\<And>g wr. (g, WriteReq wr) \<in> set (io_queue io) \<Longrightarrow> rq_start wr \<noteq> j" using j(2) by auto
    then show ?thesis using blk [OF j(1)] simD(6) [OF s(1) j(1)] by auto
  qed
  have q: "io_queue (put_flight B k io) = io_queue io @ [?w]" "io_fs (put_flight B k io) = io_fs io"
    "io_bufs (put_flight B k io) = io_bufs io" by (simp_all add: put_flight_def)
  show "sim N (put_flight B k io) (put_blk B k s)"
    unfolding sim_def q using fl' wr rest simD(2-4) [OF s(1)] by simp
  show "delivers (put_flight B k io) B0" using s(2) unfolding delivers_def q by auto
  show "starts (put_flight B k io) = insert k (starts io)" unfolding starts_def q using rs by auto
qed

text \<open>A change of the super block fields in memory.\<close>

lemma upd_sb_sim:
  assumes "sim N io s" "fs_sb u = fs_sb s'" "fs_media u = fs_media (io_fs io)" "fs_bdev u = fs_bdev (io_fs io)"
    and "fs_out u = fs_out (io_fs io)" "fs_bdev s' = fs_bdev s" "fs_out s' = fs_out s" "dblk s' = dblk s"
  shows "sim N (io\<lparr>io_fs := u\<rparr>) s'"
proof -
  have "dblk u = dblk (io_fs io)" using assms(3,4) by (simp add: dblk_def fun_eq_iff)
  moreover have "dev_ok N u = dev_ok N (io_fs io)" using assms(4) by (simp add: dev_ok_def)
  ultimately show ?thesis using assms unfolding sim_def flight_def by simp
qed

section \<open>The metadata operations do not see the requests in flight\<close>

lemma ensure_loaded_cong:
  assumes "dev_ok N u" "dev_ok N s" "i_indirect (i_in ino) = int i" "i < N" "dblk u i = dblk s i"
  shows "testfs_ensure_indirect_loaded ino u = testfs_ensure_indirect_loaded ino s"
proof -
  have "bdev_accepts (fs_bdev u) (fs_media u) i 1" "bdev_accepts (fs_bdev s) (fs_media s) i 1"
    using dev_okD(1) [OF assms(1), of 1 i] dev_okD(1) [OF assms(2), of 1 i] assms(4) by simp_all
  moreover have "i < 2 ^ 31" using assms(1,4) by (simp add: dev_ok_def)
  ultimately show ?thesis
    using assms(3,5) by (simp add: testfs_ensure_indirect_loaded_def reactor_read_def read_blocks_async_def
      fill_request_common_def dblk_def)
qed

text \<open>\<open>same_indirect\<close>: both states read the same indirect block.\<close>

definition same_indirect :: "nat \<Rightarrow> inode \<Rightarrow> 'd fsys \<Rightarrow> 'd fsys \<Rightarrow> bool" where
  "same_indirect N ino u s \<longleftrightarrow> dev_ok N u \<and> dev_ok N s \<and>
     (i_indirect (i_in ino) \<noteq> 0 \<longrightarrow> (\<exists>i < N. i_indirect (i_in ino) = int i \<and> dblk u i = dblk s i))"

lemma loaded_cong:
  "same_indirect N ino u s \<Longrightarrow> i_indirect (i_in ino) \<noteq> 0 \<Longrightarrow>
   testfs_ensure_indirect_loaded ino u = testfs_ensure_indirect_loaded ino s"
  unfolding same_indirect_def using ensure_loaded_cong by blast

lemma log_to_phy_cong:
  "same_indirect N ino u s \<Longrightarrow> testfs_inode_log_to_phy ino n u = testfs_inode_log_to_phy ino n s"
  using loaded_cong [of N ino u s] by (simp add: testfs_inode_log_to_phy_def Let_def)

lemma alloc_cong:
  assumes "fs_sb u = fs_sb s" "testfs_alloc_block_alternate s = Inr (p, s')"
  shows "testfs_alloc_block_alternate u = Inr (p, u\<lparr>fs_sb := fs_sb s'\<rparr>)" "s' = s\<lparr>fs_sb := fs_sb s'\<rparr>"
proof -
  obtain m r m' where m: "block_freemap (fs_sb s) = Some m" "bitmap_alloc m = Inr (r, m')"
    using assms(2) unfolding testfs_alloc_block_alternate_def by (auto simp: bind_r_eq_Inr the_r_def split: option.splits)
  have "testfs_alloc_block_alternate u = Inr (p, u\<lparr>fs_sb := fs_sb s'\<rparr>) \<and> s' = s\<lparr>fs_sb := fs_sb s'\<rparr>"
    using assms m unfolding testfs_alloc_block_alternate_def
    by (cases r) (auto simp: the_r_def upd_sb_def Let_def)
  then show "testfs_alloc_block_alternate u = Inr (p, u\<lparr>fs_sb := fs_sb s'\<rparr>)" "s' = s\<lparr>fs_sb := fs_sb s'\<rparr>" by blast+
qed

lemma same_indirect_sb:
  "same_indirect N ino u s \<Longrightarrow> i_indirect (i_in ino') = i_indirect (i_in ino) \<Longrightarrow>
   same_indirect N ino' (u\<lparr>fs_sb := x\<rparr>) (s\<lparr>fs_sb := x\<rparr>)"
  by (simp add: same_indirect_def dev_ok_def dblk_def)

lemma allocate_cong:
  assumes sb: "fs_sb u = fs_sb s" and ind: "same_indirect N ino u s"
    and run: "testfs_allocate_block_alternate ino n s = Inr (p, ino', s')"
  shows "testfs_allocate_block_alternate ino n u = Inr (p, ino', u\<lparr>fs_sb := fs_sb s'\<rparr>)" "s' = s\<lparr>fs_sb := fs_sb s'\<rparr>"
proof -
  let ?ino = "set_flag I_FLAGS_DIRTY ino"
  obtain p1 s1 where a: "testfs_alloc_block_alternate s = Inr (p1, s1)"
    using run unfolding testfs_allocate_block_alternate_def by (auto simp: bind_r_eq_Inr)
  let ?u1 = "u\<lparr>fs_sb := fs_sb s1\<rparr>"
  note c = alloc_cong [OF sb a]
  have ind1: "same_indirect N ?ino ?u1 s1"
    by (subst c(2)) (rule same_indirect_sb [OF ind], simp)
  have sb1: "fs_sb ?u1 = fs_sb s1" by simp
  have "testfs_allocate_block_alternate ino n u = Inr (p, ino', u\<lparr>fs_sb := fs_sb s'\<rparr>) \<and> s' = s\<lparr>fs_sb := fs_sb s'\<rparr>"
  proof (cases "p1 < 0 \<or> n < 4 \<or> i_indirect (i_in ino) \<noteq> 0")
    case True
    then have l: "p1 < 0 \<or> n < 4 \<or> testfs_ensure_indirect_loaded ?ino ?u1 = testfs_ensure_indirect_loaded ?ino s1"
      using loaded_cong [OF ind1] by auto
    have "s' = s1"
      using run a True unfolding testfs_allocate_block_alternate_def by (auto simp: Let_def bind_r_eq_Inr split: if_splits)
    then show ?thesis using run a c True l unfolding testfs_allocate_block_alternate_def
      by (auto simp: Let_def bind_r_eq_Inr split: if_splits)
  next
    case False
    obtain p2 s2 where a2: "testfs_alloc_block_alternate s1 = Inr (p2, s2)"
      using run a False unfolding testfs_allocate_block_alternate_def by (auto simp: Let_def bind_r_eq_Inr)
    note c2 = alloc_cong [OF sb1 a2]
    have "s' = s2"
      using run a a2 False unfolding testfs_allocate_block_alternate_def by (auto simp: Let_def bind_r_eq_Inr split: if_splits)
    moreover have "s2 = s\<lparr>fs_sb := fs_sb s2\<rparr>" using c(2) c2(2) by (metis fsys.update_convs(3) fsys.surjective)
    ultimately show ?thesis using run a a2 c c2 False unfolding testfs_allocate_block_alternate_def
      by (auto simp: Let_def bind_r_eq_Inr split: if_splits)
  qed
  then show "testfs_allocate_block_alternate ino n u = Inr (p, ino', u\<lparr>fs_sb := fs_sb s'\<rparr>)" "s' = s\<lparr>fs_sb := fs_sb s'\<rparr>"
    by blast+
qed

section \<open>One block\<close>

text \<open>The requests of future \<open>f\<close> in flight are about the logical blocks \<open>J f\<close> of the file.\<close>

definition placed :: "'d io \<Rightarrow> 'd fsys \<Rightarrow> dinode \<Rightarrow> (nat \<Rightarrow> nat set) \<Rightarrow> bool" where
  "placed io t d J \<longleftrightarrow> (\<forall>f r. (f, r) \<in> set (io_queue io) \<longrightarrow> (\<exists>j \<in> J f. req_start r = nat (lblk t d j)))"

lemma placed_starts: "placed io t d J \<Longrightarrow> x \<in> starts io \<Longrightarrow> \<exists>f. \<exists>j \<in> J f. x = nat (lblk t d j)"
  unfolding placed_def starts_def by fastforce

lemma indirect_not_in_flight:
  assumes s: "sim N io s" and l: "lags N s ino t" and im: "imap_ok t (i_in ino) m"
    and pl: "placed io t (i_in ino) J" "\<And>f. J f \<subseteq> {..< m}"
  shows "same_indirect N ino (io_fs io) s"
proof -
  have dev: "dev_ok N (io_fs io)" "dev_ok N s" using flightD(1) [OF simD(1) [OF s]] fs_okD(1) [OF lagsD(1) [OF l]] .
  have "\<exists>i < N. i_indirect (i_in ino) = int i \<and> dblk (io_fs io) i = dblk s i" if nz: "i_indirect (i_in ino) \<noteq> 0"
  proof -
    let ?i = "nat (i_indirect (i_in ino))"
    have b: "0 < i_indirect (i_in ino)" "?i < N" using lagsD(8) [OF l nz] fs_okD(2) [OF lagsD(1) [OF l]] by auto
    have m: "4 < m" using imap_okD(3) [OF im] nz by linarith
    have "rq_start wr \<noteq> ?i" if w: "(f, WriteReq wr) \<in> set (io_queue io)" for f wr
    proof
      assume e: "rq_start wr = ?i"
      obtain j where j: "j \<in> J f" "rq_start wr = nat (lblk t (i_in ino) j)"
        using pl(1) w unfolding placed_def req_start_def by force
      then have "j < m" using pl(2) by auto
      then obtain k where "lblk t (i_in ino) j = 192 + int k" using im by (auto elim: lblk_mapped)
      then have "lblk t (i_in ino) j = i_indirect (i_in ino)" using j(2) e b(1) by simp
      then show False using imap_okD(6) [OF im m \<open>j < m\<close>] by simp
    qed
    then have "dblk s ?i = dblk (io_fs io) ?i" by (rule simD(6) [OF s b(2)])
    then show ?thesis using b by (intro exI [of _ ?i]) simp
  qed
  then show ?thesis using dev by (simp add: same_indirect_def)
qed

lemma find_or_alloc_cong:
  assumes l: "lags N s ino t" and im: "imap_ok t (i_in ino) m" and n: "n < 132" and ind: "same_indirect N ino u s"
    and sb: "fs_sb u = fs_sb s"
    and run: "bind_r (testfs_inode_log_to_phy ino (int n) s) (\<lambda>(phy, ino).
        if phy = 0 then testfs_allocate_block_alternate ino (int n) s else Inr (phy, ino, s)) = Inr (p, ino', s')"
  shows "bind_r (testfs_inode_log_to_phy ino (int n) u) (\<lambda>(phy, ino).
        if phy = 0 then testfs_allocate_block_alternate ino (int n) u else Inr (phy, ino, u)) =
      Inr (p, ino', u\<lparr>fs_sb := fs_sb s'\<rparr>)" "s' = s\<lparr>fs_sb := fs_sb s'\<rparr>"
proof -
  obtain ino1 where ino1: "testfs_inode_log_to_phy ino (int n) s = Inr (lblk t (i_in ino) n, ino1)"
    "loads ino ino1" using log_to_phy [OF l im n] by blast
  have u: "testfs_inode_log_to_phy ino (int n) u = Inr (lblk t (i_in ino) n, ino1)"
    using log_to_phy_cong [OF ind] ino1(1) by simp
  have "same_indirect N ino1 u s" using ind loadsD(1) [OF ino1(2)] by (simp add: same_indirect_def)
  note ac = allocate_cong [OF sb this]
  have id: "u = u\<lparr>fs_sb := fs_sb s\<rparr>" using sb by simp
  show "bind_r (testfs_inode_log_to_phy ino (int n) u) (\<lambda>(phy, ino).
        if phy = 0 then testfs_allocate_block_alternate ino (int n) u else Inr (phy, ino, u)) =
      Inr (p, ino', u\<lparr>fs_sb := fs_sb s'\<rparr>)"
    using run ino1(1) u ac(1) id by (auto split: if_splits)
  show "s' = s\<lparr>fs_sb := fs_sb s'\<rparr>" using run ino1(1) ac(2) by (auto split: if_splits)
qed

lemma set_csum_sb:
  assumes "fs_sb u = fs_sb s"
  shows "fs_sb (set_csum_st k c u) = fs_sb (set_csum_st k c s)" "csum_wf u = csum_wf s"
  using assms by (simp_all add: set_csum_st_def csum_table_of_def csum_wf_def)

lemma async_block:
  assumes s: "sim N io s" "delivers io B0" and l: "lags N s ino t" and im: "imap_ok t (i_in ino) m"
    and cs: "csums_ok t (i_in ino) m" and n: "n \<le> m" "n < 132" and free: "n = m \<Longrightarrow> need m \<le> nfree t"
    and len: "512 \<le> length buf" and pl: "placed io t (i_in ino) J" "\<And>f. J f \<subseteq> {..< m}" "\<And>f. n \<notin> J f"
  shows "\<exists>ino' s' t' io' g. testfs_file_write_block ino (int n) buf s = Inr (0, ino', s') \<and>
    testfs_file_write_block_async ino 0 (int n) buf io = Inr (0, ino', io') \<and>
    sim N io' s' \<and> delivers io' B0 \<and> lags N s' ino' t' \<and> file_post N t ino m (max m (Suc n)) g t' ino' \<and>
    (\<forall>j < m. lblk t' (i_in ino') j = lblk t (i_in ino) j) \<and> placed io' t' (i_in ino') (J(0 := insert n (J 0)))"
proof -
  let ?B = "take 512 buf"
  obtain k ino' s1 s' t' where k: "k < 7680" "lblk t' (i_in ino') n = 192 + int k"
    and fa: "bind_r (testfs_inode_log_to_phy ino (int n) s) (\<lambda>(phy, ino).
        if phy = 0 then testfs_allocate_block_alternate ino (int n) s else Inr (phy, ino, s)) = Inr (192 + int k, ino', s1)"
    and s': "s' = set_csum_st k (csum_of ?B) (put_blk ?B (192 + k) s1)" and ok1: "fs_ok N s1"
    and w: "testfs_file_write_block ino (int n) buf s = Inr (0, ino', s')" and l': "lags N s' ino' t'"
    and keep: "\<forall>j < m. lblk t' (i_in ino') j = lblk t (i_in ino) j"
    and post: "file_post N t ino m (max m (Suc n)) (\<lambda>p. if p div 512 = n then buf ! (p mod 512) else fbyte t (i_in ino) p) t' ino'"
    using alternate_block_run [OF l im cs n free len] by blast
  note ind = indirect_not_in_flight [OF s(1) l im pl(1,2)]
  note fc = find_or_alloc_cong [OF l im n(2) ind simD(2) [OF s(1)] fa]
  let ?u = "(io_fs io)\<lparr>fs_sb := fs_sb s1\<rparr>"
  let ?io1 = "io\<lparr>io_fs := ?u\<rparr>"
  have rest: "fs_bdev s1 = fs_bdev s" "fs_out s1 = fs_out s" "dblk s1 = dblk s"
    by (subst fc(2), simp add: dblk_def fun_eq_iff)+
  have sim1: "sim N ?io1 s1" by (rule upd_sb_sim [OF s(1)]) (simp_all add: rest)
  have "dblk ?u = dblk (io_fs io)" by (simp add: dblk_def fun_eq_iff)
  then have del1: "delivers ?io1 B0" using s(2) by (simp add: delivers_def)
  note im' = file_postD(1) [OF post]
  have bnd: "192 + k < N" "192 + k < 2 ^ 31" using data_block_bound [OF ok1 k(1)] by simp_all
  have fresh: "192 + k \<notin> starts ?io1"
  proof
    assume "192 + k \<in> starts ?io1"
    then have "192 + k \<in> starts io" by (simp add: starts_def)
    then obtain f j where j: "j \<in> J f" "192 + k = nat (lblk t (i_in ino) j)" using placed_starts [OF pl(1)] by blast
    have jm: "j < m" "j \<noteq> n" using pl(2,3) j(1) by blast+
    then have "lblk t' (i_in ino') j = lblk t (i_in ino) j" using keep by blast
    moreover have "lblk t (i_in ino) j = 192 + int k" using j(2) by simp
    ultimately show False using imap_okD(5) [OF im', of j n] jm k(2) by (simp add: less_max_iff_disj)
  qed
  let ?io2 = "put_flight ?B (192 + k) ?io1"
  have lB: "length ?B = 512" using len by simp
  note sub = submit_write_sim [OF sim1 del1 bnd(1) fresh lB]
  have sb2: "fs_sb (io_fs ?io2) = fs_sb (put_blk ?B (192 + k) s1)" using simD(2) [OF sub(1)] .
  let ?u3 = "set_csum_st k (csum_of ?B) (io_fs ?io2)"
  let ?io3 = "?io2\<lparr>io_fs := ?u3\<rparr>"
  note ok1' = fs_okD [OF ok1]
  have "testfs_set_csum (192 + int k) (csum_of ?B) (io_fs ?io2) = Inr ?u3"
    by (rule set_csum_eq) (use set_csum_sb(2) [OF sb2] ok1'(4,5) sb2 k(1) in simp_all)
  moreover have "submit_write 0 DATA_REACTOR buf (192 + int k) 1 ?io1 = Inr ?io2"
    using submit_write_eq [OF len bnd(2), of ?io1] by simp
  ultimately have run: "testfs_file_write_block_async ino 0 (int n) buf io = Inr (0, ino', ?io3)"
    using fc(1) calculate_csum_take [OF len]
    unfolding testfs_file_write_block_async_def
    by (auto split: sum.splits if_splits prod.splits simp: bind_r_def upd_io_fs_def Let_def)
  have sim3: "sim N ?io3 s'" unfolding s'
    by (rule upd_sb_sim [OF sub(1)]) (use set_csum_sb(1) [OF sb2] in \<open>simp_all add: set_csum_st_def\<close>)
  have "dblk ?u3 = dblk (io_fs ?io2)" by (simp add: set_csum_st_def)
  then have del3: "delivers ?io3 B0" using sub(2) by (simp add: delivers_def)
  have "placed ?io3 t' (i_in ino') (J(0 := insert n (J 0)))"
    unfolding placed_def
  proof (intro allI impI)
    fix f r assume q: "(f, r) \<in> set (io_queue ?io3)"
    show "\<exists>j \<in> (J(0 := insert n (J 0))) f. req_start r = nat (lblk t' (i_in ino') j)"
    proof (cases "(f, r) \<in> set (io_queue io)")
      case True
      then obtain j where j: "j \<in> J f" "req_start r = nat (lblk t (i_in ino) j)" using pl(1) unfolding placed_def by blast
      then have "j < m" using pl(2) by blast
      then have "req_start r = nat (lblk t' (i_in ino') j)" using j(2) keep by simp
      moreover have "j \<in> (J(0 := insert n (J 0))) f" using j(1) by auto
      ultimately show ?thesis by blast
    next
      case False
      then have "f = 0" "req_start r = 192 + k" using q by (auto simp: put_flight_def req_start_def)
      then show ?thesis using k(2) by (simp add: nat_add_distrib)
    qed
  qed
  then show ?thesis using w run sim3 del3 l' post keep by blast
qed

section \<open>The whole write\<close>

lemma contig_async:
  assumes "sim N io s" "delivers io B0" "lags N s ino t" "imap_ok t (i_in ino) m" "csums_ok t (i_in ino) m"
    and "a \<le> m" "a + c \<le> 132" "needs m (max m (a + c)) \<le> nfree t" "off + 512 * c \<le> length buf"
    and "placed io t (i_in ino) J" "\<And>f. J f \<subseteq> {..< m}" "\<And>f. J f \<inter> {a ..< a + c} = {}"
  shows "\<exists>ino' s' t' io' g. write_contig ino (int a) (int (a + c) - 1) buf (int off) s = Inr (0, ino', s') \<and>
    write_contig_async ino 0 (int a) (int (a + c) - 1) buf (int off) io = Inr (0, ino', io') \<and>
    sim N io' s' \<and> delivers io' B0 \<and> lags N s' ino' t' \<and> file_post N t ino m (max m (a + c)) g t' ino' \<and>
    (\<forall>j < m. lblk t' (i_in ino') j = lblk t (i_in ino) j) \<and>
    placed io' t' (i_in ino') (J(0 := J 0 \<union> {a ..< a + c}))"
  using assms
proof (induction c arbitrary: a m off ino s t io J)
  case 0
  then have "max m (a + 0) = m" "J(0 := J 0 \<union> {a ..< a + 0}) = J" by auto
  then show ?case
    using 0(1-3,10) file_post_refl [OF 0(3-5)] unfolding \<open>max m (a + 0) = m\<close> \<open>J(0 := J 0 \<union> {a ..< a + 0}) = J\<close>
    by (subst write_contig.simps, subst write_contig_async.simps) auto
next
  case (Suc c)
  let ?M = "max m (Suc a)" and ?e = "max m (a + Suc c)" and ?J = "J(0 := insert a (J 0))"
  have e: "max ?M (Suc a + c) = ?e" by simp
  have nd: "needs m ?e = needs m ?M + needs ?M ?e" by (rule needs_add) simp_all
  have free: "a = m \<Longrightarrow> need m \<le> nfree t" using Suc.prems(6,8) nd needs_next [of a m] by simp
  have a132: "a < 132" and ln: "512 \<le> length (drop off buf)" and aJ: "\<And>f. a \<notin> J f"
    using Suc.prems(7,9,12) by (simp, simp, fastforce)
  obtain ino1 s1 t1 io1 g1 where w: "testfs_file_write_block ino (int a) (drop off buf) s = Inr (0, ino1, s1)"
      "testfs_file_write_block_async ino 0 (int a) (drop off buf) io = Inr (0, ino1, io1)"
    and s1: "sim N io1 s1" "delivers io1 B0" and l1: "lags N s1 ino1 t1" and p1: "file_post N t ino m ?M g1 t1 ino1"
    and k1: "\<forall>j < m. lblk t1 (i_in ino1) j = lblk t (i_in ino) j" and pl1: "placed io1 t1 (i_in ino1) ?J"
    using async_block [OF Suc.prems(1-6) a132 free ln Suc.prems(10,11) aJ] by blast
  note d1 = file_postD [OF p1]
  have J1: "?J f \<subseteq> {..< ?M}" "?J f \<inter> {Suc a ..< Suc a + c} = {}" for f
    using Suc.prems(11) [of f] Suc.prems(12) [of f] by auto
  have "\<exists>ino' s' t' io' g. write_contig ino1 (int (Suc a)) (int (Suc a + c) - 1) buf (int (off + 512)) s1 = Inr (0, ino', s') \<and>
    write_contig_async ino1 0 (int (Suc a)) (int (Suc a + c) - 1) buf (int (off + 512)) io1 = Inr (0, ino', io') \<and>
    sim N io' s' \<and> delivers io' B0 \<and> lags N s' ino' t' \<and> file_post N t1 ino1 ?M (max ?M (Suc a + c)) g t' ino' \<and>
    (\<forall>j < ?M. lblk t' (i_in ino') j = lblk t1 (i_in ino1) j) \<and>
    placed io' t' (i_in ino') (?J(0 := ?J 0 \<union> {Suc a ..< Suc a + c}))"
    by (rule Suc.IH [OF s1 l1 d1(1,2) _ _ _ _ pl1 J1]) (use Suc.prems(7-9) nd d1(3) e in simp_all)
  then obtain ino' s' t' io' g where w': "write_contig ino1 (int (Suc a)) (int (Suc a + c) - 1) buf (int (off + 512)) s1 = Inr (0, ino', s')"
      "write_contig_async ino1 0 (int (Suc a)) (int (Suc a + c) - 1) buf (int (off + 512)) io1 = Inr (0, ino', io')"
    and s': "sim N io' s'" "delivers io' B0" "lags N s' ino' t'" and p': "file_post N t1 ino1 ?M ?e g t' ino'"
    and k': "\<forall>j < ?M. lblk t' (i_in ino') j = lblk t1 (i_in ino1) j"
    and pl': "placed io' t' (i_in ino') (?J(0 := ?J 0 \<union> {Suc a ..< Suc a + c}))"
    unfolding e by blast
  have run: "write_contig ino (int a) (int (a + Suc c) - 1) buf (int off) s = Inr (0, ino', s')"
    using w(1) w'(1) by (subst write_contig.simps) (simp add: add.commute)
  have run': "write_contig_async ino 0 (int a) (int (a + Suc c) - 1) buf (int off) io = Inr (0, ino', io')"
    using w(2) w'(2) by (subst write_contig_async.simps) (simp add: add.commute)
  have post: "file_post N t ino m ?e g t' ino'" by (rule file_post_trans [OF p1 p']) simp_all
  have "\<forall>j < m. lblk t' (i_in ino') j = lblk t (i_in ino) j" using k1 k' by (simp add: less_max_iff_disj)
  moreover have "insert a (J 0) \<union> {Suc a ..< Suc a + c} = J 0 \<union> {a ..< a + Suc c}" by auto
  then have "placed io' t' (i_in ino') (J(0 := J 0 \<union> {a ..< a + Suc c}))"
    using pl' by (simp del: Un_insert_left)
  ultimately show ?case using run run' s' post by blast
qed

text \<open>The tail block is read, at once or in flight.\<close>

lemma read_tail_async:
  assumes s: "sim N io s" and q: "io_queue io = []" and l: "lags N s ino t" and im: "imap_ok t (i_in ino) m" and n: "n < 132"
  shows "\<exists>ino' B io'. testfs_file_read_block ino (int n) s = Inr (B, ino') \<and>
    testfs_file_read_block_async ino 1 (int n) 1 io = Inr (ino', io') \<and> lags N s ino' t \<and> loads ino ino' \<and> length B = 512 \<and>
    sim N io' s \<and> delivers io' B \<and> placed io' t (i_in ino) (\<lambda>f. if f = 1 \<and> n < m then {n} else {})"
proof -
  obtain ino1 where ino1: "testfs_inode_log_to_phy ino (int n) s = Inr (lblk t (i_in ino) n, ino1)"
    "lags N s ino1 t" "loads ino ino1"
    using log_to_phy [OF l im n] by blast
  have "placed io t (i_in ino) (\<lambda>_. {})" using q by (simp add: placed_def)
  then have "same_indirect N ino (io_fs io) s" by (rule indirect_not_in_flight [OF s l im]) simp
  then have u: "testfs_inode_log_to_phy ino (int n) (io_fs io) = Inr (lblk t (i_in ino) n, ino1)"
    using log_to_phy_cong ino1(1) by metis
  note fl = simD(1) [OF s] and dev = fs_okD(1) [OF lagsD(1) [OF l]]
  show ?thesis
  proof (cases "n < m")
    case True
    obtain k where k: "lblk t (i_in ino) n = 192 + int k" "k < 7680" using im True by (rule lblk_mapped)
    note bnd = data_block_bound [OF lagsD(1) [OF l] k(2)]
    let ?r = "ReadReq 1 (fill_request_common DATA_REACTOR (192 + int k) 1)"
    let ?io = "io\<lparr>io_queue := io_queue io @ [(1, ?r)],
      io_futures := (io_futures io)[1 := count_expected (req_reactor ?r) (io_futures io ! 1)]\<rparr>"
    have rs: "req_start ?r = 192 + k" "single N (1, ?r)" "req_reactor ?r = 2"
      using bnd by (simp_all add: req_start_def single_def req_reactor_def fill_request_common_def nat_add_distrib)
    have fl': "flight N ?io"
      by (rule flight_submit [OF fl rs(2)]) (simp add: starts_def q)
    have b: "dblk (io_fs io) (192 + k) = dblk s (192 + k)" using simD(6) [OF s bnd(1)] q by simp
    have "testfs_file_read_block ino (int n) s = Inr (dblk s (192 + k), ino1)"
      using ino1(1) k(1) read_block [OF dev, of "192 + int k"] bnd
      by (simp add: testfs_file_read_block_def nat_add_distrib)
    moreover have "testfs_file_read_block_async ino 1 (int n) 1 io = Inr (ino1, ?io)"
      using u k(1) rs(3) by (simp add: testfs_file_read_block_async_def submit_read_def read_blocks_async_def)
    moreover have "sim N ?io s" using fl' s q by (simp add: sim_def)
    moreover have "delivers ?io (dblk s (192 + k))" using rs(1) b q by (simp add: delivers_def req_start_def)
    moreover have "placed ?io t (i_in ino) (\<lambda>f. if f = 1 \<and> n < m then {n} else {})"
      using True k(1) rs(1) q by (simp add: placed_def nat_add_distrib)
    moreover have "length (dblk s (192 + k)) = 512" using length_dblk [OF dev bnd(1)] .
    ultimately show ?thesis using ino1(2,3) by blast
  next
    case False
    then have z: "lblk t (i_in ino) n = 0" using imap_okD(4) [OF im] n by simp
    let ?io = "io\<lparr>io_bufs := (io_bufs io)[1 := replicate 512 0]\<rparr>"
    have "sim N ?io s" using s by (simp add: sim_def flight_def)
    moreover have "delivers ?io (replicate 512 0)" using flightD(2) [OF fl] q by (simp add: delivers_def)
    moreover have "placed ?io t (i_in ino) (\<lambda>f. if f = 1 \<and> n < m then {n} else {})" using q by (simp add: placed_def)
    ultimately show ?thesis using ino1 u z
      by (intro exI [of _ ino1] exI [of _ "replicate 512 0"] exI [of _ ?io])
        (simp add: testfs_file_read_block_def testfs_file_read_block_async_def)
  qed
qed

lemma sim_init:
  assumes "fs_ok N s"
  shows "sim N (io_init s) s" "io_queue (io_init s) = []" "delivers (io_init s) (replicate 512 0)"
proof -
  have "counted [] f future_init" for f by (simp add: counted_def outstanding_def future_init_def)
  then have "flight N (io_init s)"
    using fs_okD(1) [OF assms] by (simp add: flight_def io_init_def less_2_cases_iff)
  then show "sim N (io_init s) s" by (simp add: sim_def) (simp add: io_init_def)
  show "io_queue (io_init s) = []" "delivers (io_init s) (replicate 512 0)" by (simp_all add: io_init_def delivers_def)
qed

text \<open>The tail block once its future has been waited for: no request of that future is left in the queue, so the
buffer holds the block that was read and the write of it is the synchronous one.\<close>

lemma async_tail_block:
  assumes s2: "sim N io2 s1" "delivers io2 B" "set (io_queue io2) \<subseteq> {q \<in> set (io_queue io1). fst q \<noteq> 1}"
    and l1: "lags N s1 ino1 t1" and im: "imap_ok t1 (i_in ino1) m1" and cs: "csums_ok t1 (i_in ino1) m1"
    and n: "n \<le> m1" "n < 132" and free: "n = m1 \<Longrightarrow> need m1 \<le> nfree t1"
    and B: "length B = 512" "ofs + r \<le> length buf" "r \<le> 512"
    and pl: "placed io1 t1 (i_in ino1) J" and J: "J 0 = {a ..< n}" "\<And>f. f \<noteq> 0 \<Longrightarrow> f \<noteq> 1 \<Longrightarrow> J f = {}"
    and w: "testfs_file_write_block ino1 (int n) (blit 0 (seg ofs r buf) B) s1 = Inr (0, ino2, s3)"
  shows "\<exists>io'. bind_r (c_memcpy (io_bufs io2 ! 1) 0 buf (int ofs) (int r))
      (\<lambda>tail. testfs_file_write_block_async ino1 0 (int n) tail io2) = Inr (0, ino2, io') \<and> sim N io' s3 \<and> delivers io' B"
proof -
  let ?T = "blit 0 (seg ofs r buf) B" and ?J = "\<lambda>f :: nat. if f = 0 then {a ..< n} else {}"
  have "(f, ReadReq dest req) \<notin> set (io_queue io2)" for f dest req
  proof
    assume q: "(f, ReadReq dest req) \<in> set (io_queue io2)"
    then have "single N (f, ReadReq dest req)" using flightD(4) [OF simD(1) [OF s2(1)]] by blast
    then show False using s2(3) q by (auto simp: single_def)
  qed
  then have buf1: "io_bufs io2 ! 1 = B" using s2(2) unfolding delivers_def by blast
  have pl2: "placed io2 t1 (i_in ino1) ?J"
    unfolding placed_def
  proof (intro allI impI)
    fix f r assume q: "(f, r) \<in> set (io_queue io2)"
    then have "(f, r) \<in> set (io_queue io1)" "f \<noteq> 1" using s2(3) by auto
    then show "\<exists>j \<in> ?J f. req_start r = nat (lblk t1 (i_in ino1) j)"
      using pl J(1) J(2) [of f] unfolding placed_def by (cases "f = 0") (fastforce split: if_splits)+
  qed
  have J2: "?J f \<subseteq> {..< m1}" "n \<notin> ?J f" for f using n(1) by auto
  have lT: "512 \<le> length ?T" using B by simp
  obtain s' ino3 io' where "testfs_file_write_block ino1 (int n) ?T s1 = Inr (0, ino3, s')"
    "testfs_file_write_block_async ino1 0 (int n) ?T io2 = Inr (0, ino3, io')" "sim N io' s'" "delivers io' B"
    using async_block [OF s2(1,2) l1 im cs n free lT pl2 J2] by blast
  moreover have "c_memcpy B 0 buf (int ofs) (int r) = Inr ?T" using c_memcpy_ok [of B 0 buf ofs r] B by simp
  ultimately show ?thesis using w buf1 by simp
qed

text \<open>The run up to the wait on the tail, which is not waited for when there is none.\<close>

lemma lt2: "0 < (2 :: nat)" "1 < (2 :: nat)"
  by simp_all

lemma async_write_run:
  assumes l: "lags N (s :: 'd fsys) ino t" and im: "imap_ok t (i_in ino) m" and cs: "csums_ok t (i_in ino) m"
    and a: "a \<le> m" and sz: "0 < sz" "sz \<le> length buf" "a + nblocks sz \<le> 132"
    and free: "needs m (max m (a + nblocks sz)) \<le> nfree t"
  shows "\<exists>ino' s' B. testfs_write_data_alternate ino (int (512 * a)) buf (int sz) s = Inr (0, ino', s') \<and>
    (\<forall>sched. testfs_write_data_alternate_async sched ino (int (512 * a)) buf (int sz) (io_init s) = Inl Hang \<or>
       (\<exists>io'. testfs_write_data_alternate_async sched ino (int (512 * a)) buf (int sz) (io_init s) = Inr (0, ino', io') \<and>
          sim N io' s' \<and> delivers io' B)) \<and>
    (\<exists>sched. testfs_write_data_alternate_async sched ino (int (512 * a)) buf (int sz) (io_init s) \<noteq> Inl Hang)"
proof -
  let ?f = "sz div 512" and ?r = "sz mod 512" and ?st = "512 * a" and ?n = "a + sz div 512"
  have f132: "?n \<le> 132" and fb: "0 + 512 * ?f \<le> length buf" using sz nblocks_div [of sz] by simp_all
  have nd: "needs m (max m (a + nblocks sz)) = needs m (max m ?n) + needs (max m ?n) (max m (a + nblocks sz))"
    by (rule needs_add) (simp_all add: nblocks_div)
  then have free1: "needs m (max m ?n) \<le> nfree t" using free by simp
  note ar = aligned_range [OF sz(1), of a] and init = sim_init [OF lagsD(1) [OF l]]
  have upd: "(io_init s)\<lparr>io_futures := (io_futures (io_init s))[1 := future_init]\<rparr> = io_init s"
    by (simp add: io_init_def)
  show ?thesis
  proof (cases "?r = 0")
    case True
    then have nb: "nblocks sz = ?f" by (simp add: nblocks_div)
    have f0: "0 < ?f" using sz(1) True div_mult_mod_eq [of sz 512] by linarith
    have pl: "placed (io_init s) t (i_in ino) (\<lambda>_. {})" using init(2) by (simp add: placed_def)
    obtain ino1 s1 io1 where w: "write_contig ino (int a) (int ?n - 1) buf (int 0) s = Inr (0, ino1, s1)"
      "write_contig_async ino 0 (int a) (int ?n - 1) buf (int 0) (io_init s) = Inr (0, ino1, io1)"
      "sim N io1 s1" "delivers io1 (replicate 512 0)"
      using contig_async [OF init(1,3) l im cs a f132 free1 fb pl] by auto
    have "testfs_write_data_alternate ino (int ?st) buf (int sz) s = Inr (0, set_size (int (?st + sz)) ino1, s1)"
      using w(1) sz True f132 ar nb f0 by (simp add: testfs_write_data_alternate_def Let_def set_size_def)
    moreover have "testfs_write_data_alternate_async sched ino (int ?st) buf (int sz) (io_init s) =
        Inr (0, set_size (int (?st + sz)) ino1, io1)" for sched
      using w(2) sz True f132 ar nb f0 upd by (simp add: testfs_write_data_alternate_async_def Let_def set_size_def)
    ultimately show ?thesis using w(3,4) by auto
  next
    case False
    then have nb: "nblocks sz = Suc ?f" by (simp add: nblocks_div)
    have n132: "?n < 132" using sz(3) nb by simp
    let ?J = "\<lambda>f :: nat. if f = 1 \<and> ?n < m then {?n} else {}"
    obtain ino0 B io0 where rd: "testfs_file_read_block ino (int ?n) s = Inr (B, ino0)"
      "testfs_file_read_block_async ino 1 (int ?n) 1 (io_init s) = Inr (ino0, io0)"
      and l0: "lags N s ino0 t" "loads ino ino0" and B: "length B = 512"
      and s0: "sim N io0 s" "delivers io0 B" and pl0: "placed io0 t (i_in ino) ?J"
      using read_tail_async [OF init(1,2) l im n132] by blast
    have in0: "i_in ino0 = i_in ino" using loadsD(1) [OF l0(2)] .
    have im0: "imap_ok t (i_in ino0) m" and cs0: "csums_ok t (i_in ino0) m" and pl0': "placed io0 t (i_in ino0) ?J"
      using im cs pl0 in0 by simp_all
    have J: "?J f \<subseteq> {..< m}" "?J f \<inter> {a ..< ?n} = {}" for f by auto
    obtain ino1 s1 t1 io1 g1 where w: "write_contig ino0 (int a) (int ?n - 1) buf (int 0) s = Inr (0, ino1, s1)"
      "write_contig_async ino0 0 (int a) (int ?n - 1) buf (int 0) io0 = Inr (0, ino1, io1)"
      and s1: "sim N io1 s1" "delivers io1 B" and l1: "lags N s1 ino1 t1" and post: "file_post N t ino0 m (max m ?n) g1 t1 ino1"
      and pl1: "placed io1 t1 (i_in ino1) (?J(0 := ?J 0 \<union> {a ..< ?n}))"
      using contig_async [OF s0 l0(1) im0 cs0 a f132 free1 fb pl0' J] by blast
    note d1 = file_postD [OF post]
    have n1: "?n \<le> max m ?n" by simp
    have mx: "max (max m ?n) (Suc ?n) = max m (a + nblocks sz)" using nb by simp
    have free2: "?n = max m ?n \<Longrightarrow> need (max m ?n) \<le> nfree t1"
      using free nd d1(3) needs_next [OF n1] mx by (simp only: max.left_commute) (simp split: if_splits)
    let ?T = "blit 0 (seg (512 * ?f) ?r buf) B"
    have cp: "c_memcpy B 0 buf (int (512 * ?f)) (int ?r) = Inr ?T"
      using c_memcpy_ok [of B 0 buf "512 * ?f" ?r] B sz(2) by simp
    have lT: "512 \<le> length ?T" using B sz(2) by simp
    have szr: "int sz - int ?r = int (512 * ?f)" by (simp add: zmod_int minus_mod_eq_mult_div)
    obtain ino2 s2 where w2: "testfs_file_write_block ino1 (int ?n) ?T s1 = Inr (0, ino2, s2)"
      using alternate_block [OF l1 d1(1,2) n1 n132 free2 lT] by blast
    let ?ino = "set_size (int (?st + sz)) ino2"
    have sync: "testfs_write_data_alternate ino (int ?st) buf (int sz) s = Inr (0, ?ino, s2)"
      using rd(1) w(1) w2 sz False n132 ar nb szr cp by (simp add: testfs_write_data_alternate_def Let_def set_size_def)
    define tail where "tail = (\<lambda>io :: 'd io. bind_r (c_memcpy (io_bufs io ! 1) 0 buf (int (512 * ?f)) (int ?r))
       (\<lambda>tail. testfs_file_write_block_async ino1 0 (int ?n) tail io))"
    have run: "testfs_write_data_alternate_async sched ino (int ?st) buf (int sz) (io_init s) =
       bind_r (wait_for 1 sched io1) (\<lambda>io. bind_r (tail io) (\<lambda>(ret, ino, io).
         if ret < 0 then Inr (ret, ino, io) else Inr (0, set_size (int (?st + sz)) ino, io)))" for sched
      using rd(2) w(2) sz False n132 ar nb szr upd
      by (simp add: testfs_write_data_alternate_async_def Let_def set_size_def tail_def cong: if_cong)
    have fin: "\<exists>io'. tail io2 = Inr (0, ino2, io') \<and> sim N io' s2 \<and> delivers io' B"
      if "sim N io2 s1" "delivers io2 B" "set (io_queue io2) \<subseteq> {q \<in> set (io_queue io1). fst q \<noteq> 1}" for io2
      unfolding tail_def by (rule async_tail_block [OF that l1 d1(1,2) n1 n132 free2 B _ _ pl1 _ _ w2]) (use sz(2) in simp_all)
    have any: "testfs_write_data_alternate_async sched ino (int ?st) buf (int sz) (io_init s) = Inl Hang \<or>
       (\<exists>io'. testfs_write_data_alternate_async sched ino (int ?st) buf (int sz) (io_init s) = Inr (0, ?ino, io') \<and>
          sim N io' s2 \<and> delivers io' B)" for sched
      using wait_for_sim [OF s1 lt2(2), of sched]
    proof (elim disjE exE conjE)
      fix io2 assume "wait_for 1 sched io1 = Inr io2" "sim N io2 s1" "delivers io2 B"
        "set (io_queue io2) \<subseteq> {q \<in> set (io_queue io1). fst q \<noteq> 1}"
      then show ?thesis using fin [of io2] unfolding run by auto
    qed (simp only: run, simp)
    have "testfs_write_data_alternate_async (replicate (length (io_queue io1)) 0) ino (int ?st) buf (int sz) (io_init s) \<noteq> Inl Hang"
      using wait_for_sim [OF s1 lt2(2), of "replicate (length (io_queue io1)) 0"] wait_for_all [OF s1 lt2(2)]
        unfolding run by (auto dest!: fin)
    then show ?thesis using sync any by blast
  qed
qed

section \<open>Asynchronous and synchronous writes agree\<close>

text \<open>The same state, up to how the device stores it.\<close>

definition same_store :: "nat \<Rightarrow> 'd fsys \<Rightarrow> 'd fsys \<Rightarrow> bool" where
  "same_store N u s \<longleftrightarrow> fs_sb u = fs_sb s \<and> fs_bdev u = fs_bdev s \<and> fs_out u = fs_out s \<and> (\<forall>j < N. dblk u j = dblk s j)"

text \<open>The write and the caller's wait on its future, as in \<open>cmd_write\<close>.\<close>

definition async_write ::
    "nat list \<Rightarrow> nat list \<Rightarrow> inode \<Rightarrow> int \<Rightarrow> byte list \<Rightarrow> int \<Rightarrow> 'd fsys \<Rightarrow> (int \<times> inode \<times> 'd fsys) res" where
  "async_write sched1 sched2 ino start buf sz s =
     bind_r (testfs_write_data_alternate_async sched1 ino start buf sz (io_init s)) (\<lambda>(ret, ino, io).
     bind_r (wait_for 0 sched2 io) (\<lambda>io. Inr (ret, ino, io_fs io)))"

lemma sim_done:
  assumes s: "sim N io s" and q: "\<And>p. p \<in> set (io_queue io) \<Longrightarrow> fst p \<noteq> 0"
  shows "same_store N (io_fs io) s"
proof -
  have no: "(f, WriteReq req) \<notin> set (io_queue io)" for f req
  proof
    assume m: "(f, WriteReq req) \<in> set (io_queue io)"
    then have "f = 0" using flightD(4) [OF simD(1) [OF s] m] by (simp add: single_def)
    then show False using q [OF m] by simp
  qed
  have "dblk s j = dblk (io_fs io) j" if "j < N" for j
    by (rule simD(6) [OF s that]) (use no in blast)
  then show ?thesis using simD(2-4) [OF s] by (simp add: same_store_def)
qed

lemma async_write_any:
  assumes l: "lags N (s :: 'd fsys) ino t" and im: "imap_ok t (i_in ino) m" and cs: "csums_ok t (i_in ino) m"
    and a: "a \<le> m" and sz: "0 < sz" "sz \<le> length buf" "a + nblocks sz \<le> 132"
    and free: "needs m (max m (a + nblocks sz)) \<le> nfree t"
  shows "\<exists>ino' s'. testfs_write_data_alternate ino (int (512 * a)) buf (int sz) s = Inr (0, ino', s') \<and>
    (\<forall>sched1 sched2. async_write sched1 sched2 ino (int (512 * a)) buf (int sz) s = Inl Hang \<or>
       (\<exists>u. async_write sched1 sched2 ino (int (512 * a)) buf (int sz) s = Inr (0, ino', u) \<and> same_store N u s')) \<and>
    (\<exists>sched1 sched2. async_write sched1 sched2 ino (int (512 * a)) buf (int sz) s \<noteq> Inl Hang)"
proof -
  obtain ino' s' B sched where w: "testfs_write_data_alternate ino (int (512 * a)) buf (int sz) s = Inr (0, ino', s')"
    and any: "\<And>sched. testfs_write_data_alternate_async sched ino (int (512 * a)) buf (int sz) (io_init s) = Inl Hang \<or>
       (\<exists>io'. testfs_write_data_alternate_async sched ino (int (512 * a)) buf (int sz) (io_init s) = Inr (0, ino', io') \<and>
          sim N io' s' \<and> delivers io' B)"
    and some: "testfs_write_data_alternate_async sched ino (int (512 * a)) buf (int sz) (io_init s) \<noteq> Inl Hang"
    using async_write_run [OF assms] by blast
  have all: "async_write sched1 sched2 ino (int (512 * a)) buf (int sz) s = Inl Hang \<or>
      (\<exists>u. async_write sched1 sched2 ino (int (512 * a)) buf (int sz) s = Inr (0, ino', u) \<and> same_store N u s')"
    for sched1 sched2
    using any [of sched1]
  proof (elim disjE exE conjE)
    fix io assume io: "testfs_write_data_alternate_async sched1 ino (int (512 * a)) buf (int sz) (io_init s) = Inr (0, ino', io)"
      "sim N io s'" "delivers io B"
    show ?thesis using wait_for_sim [OF io(2,3) lt2(1), of sched2]
    proof (elim disjE exE conjE)
      fix io' assume "wait_for 0 sched2 io = Inr io'" "sim N io' s'" "set (io_queue io') \<subseteq> {q \<in> set (io_queue io). fst q \<noteq> 0}"
      then show ?thesis using io(1) sim_done [of N io' s'] by (auto simp: async_write_def)
    qed (use io(1) in \<open>simp_all add: async_write_def\<close>)
  qed (simp_all add: async_write_def)
  obtain io where io: "testfs_write_data_alternate_async sched ino (int (512 * a)) buf (int sz) (io_init s) = Inr (0, ino', io)"
    "sim N io s'" "delivers io B" using any [of sched] some by blast
  have "async_write sched (replicate (length (io_queue io)) 0) ino (int (512 * a)) buf (int sz) s \<noteq> Inl Hang"
    using wait_for_all [OF io(2,3) lt2(1)] io(1) by (auto simp: async_write_def bind_r_eq_Inl)
  then show ?thesis using w all by blast
qed

text \<open>
  C13.  Ordering: on a well-formed file with room, from a block boundary, the asynchronous write followed by the wait
  on its future gives what the synchronous one gives, the same result, inode and state, in whatever order and at
  whatever points the device completes the requests in flight; a schedule under which a wait is not served is a
  hang and nothing else; and there is a schedule under which both waits return.
\<close>

theorem async_write_equiv:
  assumes "fs_ok N s" "csum_coherent s" "file_ok s (i_in ino)" "csums_ok s (i_in ino) (nblocks (nat (i_size (i_in ino))))"
    and "\<not> has_flag ino I_FLAGS_INDIRECT_LOADED" "\<not> has_flag ino I_FLAGS_INDIRECT_DIRTY"
    and "0 < sz" "sz \<le> length buf" "512 * a \<le> nat (i_size (i_in ino))" "512 * a + sz \<le> 132 * 512"
    and "needs (nblocks (nat (i_size (i_in ino)))) (nblocks (512 * a + sz)) \<le> nfree s"
  shows "\<exists>ino' s'. testfs_write_data_alternate ino (int (512 * a)) buf (int sz) s = Inr (0, ino', s') \<and>
    (\<forall>sched1 sched2. case async_write sched1 sched2 ino (int (512 * a)) buf (int sz) s of
       Inl e \<Rightarrow> e = Hang
     | Inr (ret, ino2, u) \<Rightarrow> ret = 0 \<and> ino2 = ino' \<and> same_store N u s') \<and>
    (\<exists>sched1 sched2. async_write sched1 sched2 ino (int (512 * a)) buf (int sz) s \<noteq> Inl Hang)"
proof -
  let ?d = "i_in ino" and ?m = "nblocks (nat (i_size (i_in ino)))"
  note l = lags_start [OF assms(1-3,5,6)]
  have im: "imap_ok s ?d ?m" using assms(3) by (simp add: file_ok_def)
  have "512 * a \<le> 512 * ?m" using assms(9) le_nblocks [of "nat (i_size ?d)"] by linarith
  then have am: "a \<le> ?m" by simp
  have ee: "nblocks (512 * a + sz) = a + nblocks sz" by (simp add: nblocks_def)
  have e132: "a + nblocks sz \<le> 132" using nblocks_le [of "512 * a + sz" 132] assms(10) unfolding ee by simp
  have free: "needs ?m (max ?m (a + nblocks sz)) \<le> nfree s"
    using assms(11) unfolding ee by (cases "?m \<le> a + nblocks sz") (simp_all add: max_def needs_def)
  obtain ino' s' where w: "testfs_write_data_alternate ino (int (512 * a)) buf (int sz) s = Inr (0, ino', s')"
    and any: "\<And>sched1 sched2. async_write sched1 sched2 ino (int (512 * a)) buf (int sz) s = Inl Hang \<or>
       (\<exists>u. async_write sched1 sched2 ino (int (512 * a)) buf (int sz) s = Inr (0, ino', u) \<and> same_store N u s')"
    and some: "\<exists>sched1 sched2. async_write sched1 sched2 ino (int (512 * a)) buf (int sz) s \<noteq> Inl Hang"
    using async_write_any [OF l im assms(4) am assms(7,8) e132 free] by blast
  have "case async_write sched1 sched2 ino (int (512 * a)) buf (int sz) s of
       Inl e \<Rightarrow> e = Hang | Inr (ret, ino2, u) \<Rightarrow> ret = 0 \<and> ino2 = ino' \<and> same_store N u s'" for sched1 sched2
    using any [of sched1 sched2] by auto
  then show ?thesis using w some by blast
qed

theorem async_write_equiv_witness:
  "\<exists>ino' s'. testfs_write_data_alternate new_ino (int (512 * 0)) (replicate 1000 5) (int 1000) fresh_fs = Inr (0, ino', s') \<and>
    (\<exists>sched1 sched2 u. async_write sched1 sched2 new_ino (int (512 * 0)) (replicate 1000 5) (int 1000) fresh_fs = Inr (0, ino', u) \<and>
       same_store 8192 u s')"
proof -
  have "\<not> has_flag new_ino I_FLAGS_INDIRECT_LOADED" "\<not> has_flag new_ino I_FLAGS_INDIRECT_DIRTY"
    by (simp_all add: has_flag_def new_ino_def)
  then obtain ino' s' sched1 sched2 where
    r: "testfs_write_data_alternate new_ino (int (512 * 0)) (replicate 1000 5) (int 1000) fresh_fs = Inr (0, ino', s')"
    "case async_write sched1 sched2 new_ino (int (512 * 0)) (replicate 1000 5) (int 1000) fresh_fs of
       Inl e \<Rightarrow> e = Hang | Inr (ret, ino2, u) \<Rightarrow> ret = 0 \<and> ino2 = ino' \<and> same_store 8192 u s'"
    "async_write sched1 sched2 new_ino (int (512 * 0)) (replicate 1000 5) (int 1000) fresh_fs \<noteq> Inl Hang"
    using async_write_equiv [OF fresh_fs_ok fresh_coherent write_new(1) [of 1000] write_new(2) [of 1000], of 1000 "replicate 1000 5" 0]
      write_new(5) [of 1000] by auto
  then show ?thesis
    by (cases "async_write sched1 sched2 new_ino (int (512 * 0)) (replicate 1000 5) (int 1000) fresh_fs") auto
qed

end
