(* ===== verification/BenchOk.thy ===== *)
theory BenchOk
  imports Bench AsyncOk FileSystem
begin

text \<open>
  What the benchmarks measure: the two halves of the raw write benchmark leave the same device, and the digest of
  a series of trials is computed from the exact times.
\<close>

section \<open>Raw writes\<close>

definition put_same :: "byte list \<Rightarrow> nat \<Rightarrow> 'd fsys \<Rightarrow> 'd fsys" where
  "put_same B n s = fold (put_blk B) [0 ..< n] s"

lemma put_same_Suc: "put_same B (Suc n) s = put_blk B n (put_same B n s)"
  by (simp add: put_same_def)

lemma put_same_frame [simp]:
  "fs_bdev (put_same B n s) = fs_bdev s" "fs_sb (put_same B n s) = fs_sb s" "fs_out (put_same B n s) = fs_out s"
  "dev_ok N (put_same B n s) = dev_ok N s"
  by (induction n) (simp_all add: put_same_Suc, simp_all add: put_same_def)

lemma dblk_put_same:
  assumes "dev_ok N s" "n \<le> N" "length B = 512" "j < N"
  shows "dblk (put_same B n s) j = (if j < n then B else dblk s j)"
  using assms(2)
proof (induction n)
  case (Suc n)
  then show ?case
    using dblk_put_blk [of N "put_same B n s" n j B] assms(1,3,4) by (auto simp: put_same_Suc less_Suc_eq)
qed (simp add: put_same_def)

lemma stack_block: "length (fst (stack_block b)) = 512"
  by (simp add: stack_block_def)

lemma raw_write_run:
  assumes "dev_ok N (w_fs w)" "n \<le> N"
  shows "benchmark_raw_write n b w = Inr (snd (stack_block b), set_fs (put_same (fst (stack_block b)) n (w_fs w)) w)"
proof -
  let ?B = "fst (stack_block b)"
  have "fold_r (\<lambda>i. on_fs (write_blocks ?B (int i) 1)) [0 ..< n] w = Inr (set_fs (put_same ?B n (w_fs w)) w)"
    using assms(2)
  proof (induction n)
    case (Suc n)
    let ?s = "put_same ?B n (w_fs w)"
    have "write_blocks ?B (int n) 1 ?s = Inr (put_blk ?B n ?s)"
      using write_block [of N ?s "int n" ?B] assms(1) stack_block [of b] Suc.prems by simp
    then show ?case using Suc by (simp add: fold_r_append on_fs_def put_same_Suc set_fs_def)
  qed (simp add: put_same_def set_fs_def)
  then show ?thesis by (simp add: benchmark_raw_write_def split_def)
qed

lemma raw_submit:
  assumes dev: "dev_ok N s" and n: "n \<le> N" and len: "length B = 512"
  shows "\<exists>io. fold_r (\<lambda>i. submit_write 0 DATA_REACTOR B (int i) 1) [0 ..< n] (io_init s) = Inr io \<and>
    sim N io (put_same B n s) \<and> delivers io (replicate 512 0) \<and> starts io = {..< n}"
  using n
proof (induction n)
  case 0
  have "counted [] f future_init" for f by (simp add: counted_def outstanding_def future_init_def)
  then have "flight N (io_init s)" using dev by (simp add: flight_def io_init_def less_2_cases_iff)
  then show ?case by (simp add: sim_def put_same_def) (simp add: io_init_def delivers_def starts_def)
next
  case (Suc n)
  then obtain io where io: "fold_r (\<lambda>i. submit_write 0 DATA_REACTOR B (int i) 1) [0 ..< n] (io_init s) = Inr io"
    "sim N io (put_same B n s)" "delivers io (replicate 512 0)" "starts io = {..< n}" by auto
  have k: "n < N" "n \<notin> starts io" "n < 2 ^ 31" using Suc.prems io(4) dev by (simp_all add: dev_ok_def)
  have "submit_write 0 DATA_REACTOR B (int n) 1 io = Inr (put_flight B n io)"
    using submit_write_eq [of B n io] len k(3) by simp
  then show ?case
    using io(1) submit_write_sim [OF io(2,3) k(1,2) len] io(4)
    by (auto simp: fold_r_append put_same_Suc lessThan_Suc)
qed

text \<open>
  C36.  The raw write benchmark.  Each half has a block of its own that is never initialised.  The synchronous half
  returns and has written the bytes of its block to each of the first \<open>n\<close> blocks of the device, whatever the file
  system keeps there, and nothing else.  The asynchronous half does the same with the bytes of its block under every
  schedule of completions, unless it waits for a request that never completes; there is a schedule under which it
  returns.  So the halves do the same work, and leave the same device just as far as their blocks agree.
\<close>

theorem raw_write_equiv:
  assumes "dev_ok N (w_fs w)" "n \<le> N"
  shows "(\<exists>s. benchmark_raw_write n b w = Inr (snd (stack_block b), set_fs s w) \<and>
      fs_sb s = fs_sb (w_fs w) \<and> fs_out s = fs_out (w_fs w) \<and>
      (\<forall>j < N. dblk s j = (if j < n then fst (stack_block b) else dblk (w_fs w) j))) \<and>
    (case benchmark_raw_write_async n b w of
       Inl e \<Rightarrow> e = Hang
     | Inr (b', w') \<Rightarrow> \<exists>s. w' = set_fs s w \<and> b' = snd (next_sched (snd (stack_block b))) \<and>
         fs_sb s = fs_sb (w_fs w) \<and> fs_out s = fs_out (w_fs w) \<and>
         (\<forall>j < N. dblk s j = (if j < n then fst (stack_block b) else dblk (w_fs w) j))) \<and>
    (\<exists>sched. benchmark_raw_write_async n (b\<lparr>b_sched := \<lambda>_. sched\<rparr>) w \<noteq> Inl Hang)"
proof -
  let ?B = "fst (stack_block b)"
  let ?s = "put_same ?B n (w_fs w)"
  obtain io where io: "fold_r (\<lambda>i. submit_write 0 DATA_REACTOR ?B (int i) 1) [0 ..< n] (io_init (w_fs w)) = Inr io"
    "sim N io ?s" "delivers io (replicate 512 0)"
    using raw_submit [OF assms stack_block] by blast
  have run: "benchmark_raw_write_async n b w =
      bind_r (wait_for 0 (b_sched b (b_waits b)) io) (\<lambda>io. Inr (snd (next_sched (snd (stack_block b))), set_fs (io_fs io) w))"
    using io(1) by (simp add: benchmark_raw_write_async_def next_sched_def split_def stack_block_def)
  have blk: "dblk s j = (if j < n then ?B else dblk (w_fs w) j)" if "same_store N s ?s" "j < N" for s j
    using that dblk_put_same [OF assms stack_block] by (simp add: same_store_def)
  have "case benchmark_raw_write_async n b w of
       Inl e \<Rightarrow> e = Hang
     | Inr (b', w') \<Rightarrow> \<exists>s. w' = set_fs s w \<and> b' = snd (next_sched (snd (stack_block b))) \<and>
         fs_sb s = fs_sb (w_fs w) \<and> fs_out s = fs_out (w_fs w) \<and>
         (\<forall>j < N. dblk s j = (if j < n then ?B else dblk (w_fs w) j))"
    using wait_for_sim [OF io(2,3) lt2(1), of "b_sched b (b_waits b)"]
  proof (elim disjE exE conjE)
    fix io' assume w: "wait_for 0 (b_sched b (b_waits b)) io = Inr io'" and s: "sim N io' ?s"
      "set (io_queue io') \<subseteq> {q \<in> set (io_queue io). fst q \<noteq> 0}"
    have "same_store N (io_fs io') ?s" by (rule sim_done [OF s(1)]) (use s(2) in auto)
    then show ?thesis using w blk [of "io_fs io'"] by (auto simp: run same_store_def)
  qed (simp add: run)
  moreover have "benchmark_raw_write_async n (b\<lparr>b_sched := \<lambda>_. replicate (length (io_queue io)) 0\<rparr>) w \<noteq> Inl Hang"
    using io(1) wait_for_all [OF io(2,3) lt2(1)]
    by (simp add: benchmark_raw_write_async_def next_sched_def stack_block_def bind_r_eq_Inl)
  ultimately show ?thesis
    using raw_write_run [OF assms] dblk_put_same [OF assms stack_block] by (auto intro!: exI [of _ ?s])
qed

text \<open>The blocks of the first two calls are all sevens and all eights.\<close>

definition sample_bench :: bench where
  "sample_bench = \<lparr>b_clock = (\<lambda>_. (0, 0)), b_calls = 0, b_rand = (\<lambda>_. 0), b_rands = 0, b_sched = (\<lambda>_. [2, 0, 0]),
     b_waits = 0, b_stack = (\<lambda>call _. if call = 0 then 7 else 8), b_frames = 0, b_csv = (\<lambda>_. [])\<rparr>"

theorem raw_write_equiv_witness:
  "\<exists>b s. benchmark_raw_write 3 sample_bench (empty_world :: ram_world) = Inr (b, set_fs s empty_world) \<and>
     dblk s 0 = replicate 512 7 \<and>
     (\<exists>sched b' w'. benchmark_raw_write_async 3 (b\<lparr>b_sched := \<lambda>_. sched\<rparr>) (empty_world :: ram_world) = Inr (b', w') \<and>
        dblk (w_fs w') 0 = replicate 512 8)"
proof -
  have dev: "dev_ok 8192 (w_fs (empty_world :: ram_world))" using fs_okD(1) [OF fresh_fs_ok] by simp
  let ?b = "snd (stack_block sample_bench)"
  have blocks: "fst (stack_block sample_bench) = replicate 512 7"
    "fst (stack_block (?b\<lparr>b_sched := \<lambda>_. sched\<rparr>)) = replicate 512 8" for sched
    by (simp_all add: stack_block_def sample_bench_def map_replicate_const)
  obtain s where s: "benchmark_raw_write 3 sample_bench (empty_world :: ram_world) = Inr (?b, set_fs s empty_world)"
    "dblk s 0 = replicate 512 7"
    using raw_write_equiv [OF dev, of 3 sample_bench] blocks(1) by auto
  obtain sched where sched: "benchmark_raw_write_async 3 (?b\<lparr>b_sched := \<lambda>_. sched\<rparr>) (empty_world :: ram_world) \<noteq> Inl Hang"
    using raw_write_equiv [OF dev, of 3 ?b] by auto
  then show ?thesis
    using s raw_write_equiv [OF dev, of 3 "?b\<lparr>b_sched := \<lambda>_. sched\<rparr>"] blocks(2)
    by (cases "benchmark_raw_write_async 3 (?b\<lparr>b_sched := \<lambda>_. sched\<rparr>) (empty_world :: ram_world)") fastforce+
qed

section \<open>The digest\<close>

text \<open>The time between two readings of the clock, in microseconds.\<close>

definition elapsed :: "(int \<times> int) \<times> (int \<times> int) \<Rightarrow> int" where
  "elapsed t = (fst (snd t) - fst (fst t)) * 1000000 + (snd (snd t) - snd (fst t))"

lemma usec_between_exact:
  assumes "\<bar>fst t1 - fst t0\<bar> < 2 ^ 32" "\<bar>snd t1 - snd t0\<bar> \<le> 1000000"
  shows "usec_between t0 t1 = Inr (elapsed (t0, t1))"
proof -
  let ?s = "fst t1 - fst t0" and ?u = "snd t1 - snd t0"
  have s: "\<bar>?s\<bar> < 2 ^ 53" and u: "\<bar>?u\<bar> < 2 ^ 53" and m: "\<bar>1000000 :: int\<bar> < 2 ^ 53" using assms by simp_all
  have "\<bar>?s * 1000000\<bar> < 2 ^ 53" "\<bar>?s * 1000000 + ?u\<bar> < 2 ^ 53" using assms by (simp_all add: abs_mult)
  then show ?thesis
    using int_of_denotes [OF denotes_add [OF denotes_mul [OF denotes_of_int [OF s] denotes_of_int [OF m]] denotes_of_int [OF u]]]
    by (simp add: usec_between_def elapsed_def)
qed

lemma M_eq: "M_MAX x y = max x y" "M_MIN x y = min x y"
  by (simp_all add: M_MAX_def M_MIN_def max_def min_def)

lemma min_max_loop:
  assumes "length xs = length ys" "n \<le> length xs" "0 < length xs"
  shows "\<exists>s a. fold_r (\<lambda>i (s, a). bind_r (nth_r xs (int i)) (\<lambda>x. bind_r (nth_r ys (int i)) (\<lambda>y.
      Inr (add_result d x s, add_result d y a)))) [0 ..< n]
      (\<lparr>max_us = xs ! 0, min_us = xs ! 0, avg_us = z\<rparr>, \<lparr>max_us = ys ! 0, min_us = ys ! 0, avg_us = z\<rparr>) = Inr (s, a) \<and>
    max_us s = Max (set (take (Suc 0) xs) \<union> set (take n xs)) \<and> min_us s = Min (set (take (Suc 0) xs) \<union> set (take n xs)) \<and>
    max_us a = Max (set (take (Suc 0) ys) \<union> set (take n ys)) \<and> min_us a = Min (set (take (Suc 0) ys) \<union> set (take n ys))"
  using assms(2)
proof (induction n)
  case 0
  obtain x xs' y ys' where "xs = x # xs'" "ys = y # ys'" using assms(1,3) by (cases xs; cases ys) auto
  then show ?case by simp
next
  case (Suc n)
  then obtain s a where sa: "fold_r (\<lambda>i (s, a). bind_r (nth_r xs (int i)) (\<lambda>x. bind_r (nth_r ys (int i)) (\<lambda>y.
      Inr (add_result d x s, add_result d y a)))) [0 ..< n]
      (\<lparr>max_us = xs ! 0, min_us = xs ! 0, avg_us = z\<rparr>, \<lparr>max_us = ys ! 0, min_us = ys ! 0, avg_us = z\<rparr>) = Inr (s, a)"
    and m: "max_us s = Max (set (take (Suc 0) xs) \<union> set (take n xs))" "min_us s = Min (set (take (Suc 0) xs) \<union> set (take n xs))"
    "max_us a = Max (set (take (Suc 0) ys) \<union> set (take n ys))" "min_us a = Min (set (take (Suc 0) ys) \<union> set (take n ys))"
    by auto
  have st: "set (take (Suc 0) zs) \<union> set (take (Suc n) zs) = insert (zs ! n) (set (take (Suc 0) zs) \<union> set (take n zs))"
    "finite (set (take (Suc 0) zs) \<union> set (take n zs))" "set (take (Suc 0) zs) \<union> set (take n zs) \<noteq> {}"
    if "length zs = length xs" for zs :: "int list"
    using that assms(3) Suc.prems by (auto simp: take_Suc_conv_app_nth)
  have M: "M_MAX (Max A) x = Max (insert x A)" "M_MIN (Min A) x = Min (insert x A)" if "finite A" "A \<noteq> {}" for A x
    using that by (simp_all add: M_eq max.commute min.commute)
  show ?case
    using sa m Suc.prems assms(1) st [of xs] st [of ys] M
    by (simp add: fold_r_append add_result_def)
qed

text \<open>
  The digest of a series of trials: \<open>MEASURE_USEC\<close> computes the exact time of every trial (the double arithmetic
  is exact up to \<open>2 ^ 53\<close> microseconds), and \<open>populate_digest\<close> reports the number of trials and the extremes of the
  two series; without a trial it reads its arrays out of bounds.
\<close>

theorem digest_correct:
  assumes "ts \<noteq> []" "length us = length ts"
    and "\<forall>t \<in> set ts \<union> set us. \<bar>fst (snd t) - fst (fst t)\<bar> < 2 ^ 32 \<and> \<bar>snd (snd t) - snd (fst t)\<bar> \<le> 1000000"
  shows "(\<forall>t \<in> set ts \<union> set us. usec_between (fst t) (snd t) = Inr (elapsed t)) \<and>
    (\<exists>d. populate_digest (map elapsed ts) (map elapsed us) (int (length ts)) = Inr d \<and> trials d = int (length ts) \<and>
       max_us (sync_result d) = Max (elapsed ` set ts) \<and> min_us (sync_result d) = Min (elapsed ` set ts) \<and>
       max_us (async_result d) = Max (elapsed ` set us) \<and> min_us (async_result d) = Min (elapsed ` set us)) \<and>
    populate_digest [] [] 0 = Inl OutOfBounds"
proof -
  let ?xs = "map elapsed ts" and ?ys = "map elapsed us"
  have l: "length ?xs = length ?ys" "length ?xs \<le> length ?xs" "0 < length ?xs" using assms(1,2) by simp_all
  obtain s a where sa: "fold_r (\<lambda>i (s, a). bind_r (nth_r ?xs (int i)) (\<lambda>x. bind_r (nth_r ?ys (int i)) (\<lambda>y.
      Inr (add_result (d_of_int (int (length ts))) x s, add_result (d_of_int (int (length ts))) y a)))) [0 ..< length ?xs]
      (\<lparr>max_us = ?xs ! 0, min_us = ?xs ! 0, avg_us = d_of_int 0\<rparr>, \<lparr>max_us = ?ys ! 0, min_us = ?ys ! 0, avg_us = d_of_int 0\<rparr>) = Inr (s, a)"
    "max_us s = Max (set (take (Suc 0) ?xs) \<union> set (take (length ?xs) ?xs))"
    "min_us s = Min (set (take (Suc 0) ?xs) \<union> set (take (length ?xs) ?xs))"
    "max_us a = Max (set (take (Suc 0) ?ys) \<union> set (take (length ?xs) ?ys))"
    "min_us a = Min (set (take (Suc 0) ?ys) \<union> set (take (length ?xs) ?ys))"
    using min_max_loop [OF l] by blast
  have eq: "set (take (Suc 0) zs) \<union> set zs = set zs" for zs :: "int list" by (auto dest: in_set_takeD)
  then have sets: "set (take (Suc 0) ?xs) \<union> set (take (length ?xs) ?xs) = elapsed ` set ts"
    "set (take (Suc 0) ?ys) \<union> set (take (length ?xs) ?ys) = elapsed ` set us"
    using eq [of ?xs] eq [of ?ys] assms(2) by simp_all
  have "populate_digest ?xs ?ys (int (length ts)) = Inr \<lparr>trials = int (length ts), sync_result = s, async_result = a\<rparr>"
    using sa(1) l assms(2) by (simp add: populate_digest_def)
  moreover have "usec_between (fst t) (snd t) = Inr (elapsed t)" if "t \<in> set ts \<union> set us" for t
    using usec_between_exact [of "snd t" "fst t"] assms(3) that by auto
  moreover have "populate_digest [] [] 0 = Inl OutOfBounds" by (simp add: populate_digest_def nth_r_def)
  ultimately show ?thesis using sa(2-5) unfolding sets by simp
qed

theorem digest_correct_witness:
  "usec_between (10, 999990) (11, 20) = Inr 30 \<and>
   (\<exists>d. populate_digest [30, 50] [7, 5] 2 = Inr d \<and> max_us (sync_result d) = 50 \<and> min_us (async_result d) = 5)"
  using digest_correct [of "[((10, 999990), (11, 20)), ((0, 0), (0, 50))]" "[((5, 1), (5, 8)), ((6, 0), (6, 5))]"]
  by (auto simp: elapsed_def)

end
