(* ===== verification/FileOk.thy ===== *)
theory FileOk
  imports FileSystem AsyncOk FileCmds
begin

text \<open>
  The commands of \<open>src/file.c\<close> on the volume: \<open>cat\<close> prints what the abstract map holds, \<open>import\<close> and \<open>export\<close>
  carry whole files from and to the host.
\<close>

section \<open>Printing files\<close>

definition cstring_of :: "byte list \<Rightarrow> byte list" where
  "cstring_of x = takeWhile (\<lambda>b. b \<noteq> 0) x"

lemma takeWhile_terminated: "takeWhile (\<lambda>b. b \<noteq> 0) (x @ 0 # ys) = takeWhile (\<lambda>b. b \<noteq> (0 :: byte)) x"
  by (induction x) auto

definition shown :: "byte list \<Rightarrow> message list" where
  "shown x = (if x = [] then [] else [FileContents (cstring_of x)])"

lemma file_fields:
  assumes "vol_ok N w" "w_inodes w p = Some a" "i_nr a = int k" "files w k = Some (t, x)"
  shows "testfs_inode_get_size p w = Inr (int (length x))" "testfs_inode_get_type p w = Inr t"
proof -
  note fa = files_at [OF assms(1-3)]
  have x: "t = i_type (i_in a)" "x = contents (w_fs w) (i_in a)" using fa(1) assms(4) by simp_all
  have "0 \<le> i_size (i_in a)" using fa(2) file_size by (auto simp: inode_good_def)
  then show "testfs_inode_get_size p w = Inr (int (length x))" "testfs_inode_get_type p w = Inr t"
    using deref_eq [OF vol_okD(1) [OF assms(1)] assms(2)] x(1)
    unfolding x(2) by (simp_all add: testfs_inode_get_size_def testfs_inode_get_type_def)
qed

lemma print_file_eq:
  assumes v: "vol_ok N w" and p: "w_inodes w p = Some a" "i_nr a = int k" and f: "files w k = Some (t, x)"
  shows "\<exists>w'. print_file p w = Inr w' \<and> printed (shown x) N w w'"
proof (cases "x = []")
  case True
  then show ?thesis using file_fields(1) [OF v p f] printed_refl [OF v] by (simp add: print_file_def shown_def)
next
  case False
  let ?n = "length x"
  have "read_data p (int 0) (replicate (?n + 1) 0) (int ?n) w = Inr (0, blit 0 (seg 0 ?n x) (replicate (?n + 1) 0))"
    by (rule vol_read [OF v p f]) (use False in simp_all)
  moreover have "(blit 0 (seg 0 ?n x) (replicate (?n + 1) 0))[?n := 0] = x @ [0]"
    unfolding Suc_eq_plus1 [symmetric] replicate_Suc replicate_append_same [symmetric] by (simp add: blit_def seg_def list_update_append)
  moreover have "c_string (x @ [0]) = Inr (cstring_of x)"
    by (simp add: c_string_def cstring_of_def takeWhile_terminated [of x "[]"])
  ultimately have "print_file p w = Inr (print (FileContents (cstring_of x)) w)"
    using file_fields(1) [OF v p f] False by (simp add: print_file_def nat_add_distrib)
  then show ?thesis using printed_print [OF v] False by (simp add: shown_def)
qed

text \<open>What \<open>cat\<close> does on the abstract map: the first name that is no file ends it.\<close>

fun cat_spec ::
    "(nat \<Rightarrow> (inode_type \<times> byte list) option) \<Rightarrow> dirent list \<Rightarrow> byte list list \<Rightarrow> int \<times> message list" where
  "cat_spec F es [] = (0, [])"
| "cat_spec F es (nm # nms) =
     (case dir_lookup es nm of
        None \<Rightarrow> (- ENOENT, [])
      | Some j \<Rightarrow>
          (case F (nat j) of
             Some (t, x) \<Rightarrow>
               if t = I_DIR then (- EISDIR, []) else (case cat_spec F es nms of (r, ms) \<Rightarrow> (r, shown x @ ms))
           | None \<Rightarrow> (0, [])))"

text \<open>Every live entry of the directory has an inode in use.\<close>

definition linked :: "(nat \<Rightarrow> (inode_type \<times> byte list) option) \<Rightarrow> dirent list \<Rightarrow> bool" where
  "linked F es \<longleftrightarrow> list_all (\<lambda>d. live d \<longrightarrow> F (nat (d_inode_nr d)) \<noteq> None) es"

lemma linked_lookup:
  assumes "linked F es" "dir_lookup es nm = Some j"
  obtains t x where "F (nat j) = Some (t, x)" "0 \<le> j"
proof -
  obtain us d vs where "es = us @ d # vs" "names nm d" "d_inode_nr d = j" using dir_lookup_in [OF assms(2)] by blast
  then have "F (nat j) \<noteq> None" using assms(1) by (simp add: linked_def names_def)
  then show thesis using that dir_lookup_nonneg [OF assms(2)] by (cases "F (nat j)") auto
qed

lemma cat_args_eq:
  assumes "dir_at N w (cur_dir c) k es" "all_clean w" "linked (files w) es"
    and "list_all2 (\<lambda>i nm. cmd_arg c i = Inr (Some nm) \<and> 0 \<notin> set nm) is nms"
  shows "\<exists>w'. cat_args is c w = Inr (fst (cat_spec (files w) es nms), c, w') \<and>
    printed (snd (cat_spec (files w) es nms)) N w w'"
  using assms(4,1-3)
proof (induction "is" nms arbitrary: w rule: list_all2_induct)
  case Nil
  then show ?case using printed_refl [OF dir_fields(1) [OF Nil(1)]] by simp
next
  case (Cons i "is" nm nms)
  note d = Cons.prems(1)
  have nr: "testfs_dir_name_to_inode_nr (cur_dir c) (Some nm) w =
      Inr (case dir_lookup es nm of None \<Rightarrow> - ENOENT | Some k \<Rightarrow> k)"
    using name_to_nr [OF d] Cons.hyps(1) by simp
  show ?case
  proof (cases "dir_lookup es nm")
    case None
    then show ?thesis using nr Cons.hyps(1) printed_refl [OF dir_fields(1) [OF d]] by (auto simp: ENOENT_def)
  next
    case (Some j)
    obtain t x where f: "files w (nat j) = Some (t, x)" and j: "0 \<le> j"
      using linked_lookup [OF Cons.prems(3) Some] .
    obtain q b w1 where g: "testfs_get_inode j w = Inr (q, w1)" "testfs_inode_get_type q w1 = Inr t" "vol_ok N w1"
      "files w1 = files w" "w_inodes w1 q = Some b" "i_nr b = int (nat j)"
      "\<And>w2 ms. printed ms N w1 w2 \<Longrightarrow> \<exists>w3. testfs_put_inode q w2 = Inr w3 \<and> printed ms N w w3"
      using get_for [OF dir_fields(1) [OF d] Cons.prems(2) f] j by auto
    show ?thesis
    proof (cases "t = I_DIR")
      case True
      obtain w3 where "testfs_put_inode q w1 = Inr w3" "printed [] N w w3" using g(7) [OF printed_refl [OF g(3)]] by blast
      then show ?thesis using True Some nr Cons.hyps(1) f g(1,2) j by simp
    next
      case False
      obtain w2 where w2: "print_file q w1 = Inr w2" "printed (shown x) N w1 w2"
        using print_file_eq [OF g(3,5,6)] f g(4) by auto
      obtain w3 where w3: "testfs_put_inode q w2 = Inr w3" "printed (shown x) N w w3" using g(7) [OF w2(2)] by blast
      have fs: "files w3 = files w" using w3(2) by (simp add: printed_def)
      obtain w4 where w4: "cat_args is c w3 = Inr (fst (cat_spec (files w) es nms), c, w4)"
        "printed (snd (cat_spec (files w) es nms)) N w3 w4"
        using Cons.IH [OF printed_dir [OF w3(2) d] printed_clean [OF w3(2) Cons.prems(2)]] Cons.prems(3) by (auto simp: fs)
      then show ?thesis
        using False Some nr Cons.hyps(1) f g(1,2) j w2(1) w3(1) printed_trans [OF w3(2) w4(2)]
        by (auto split: prod.splits)
    qed
  qed
qed

definition args_are :: "cmd_context \<Rightarrow> byte list list \<Rightarrow> bool" where
  "args_are c nms \<longleftrightarrow> nargs c = int (Suc (length nms)) \<and>
     (\<forall>i < length nms. cmd_arg c (int (Suc i)) = Inr (Some (nms ! i)) \<and> 0 \<notin> set (nms ! i))"

lemma args_are_all2:
  assumes "args_are c nms"
  shows "list_all2 (\<lambda>i nm. cmd_arg c i = Inr (Some nm) \<and> 0 \<notin> set nm) [1 .. nargs c - 1] nms"
  using assms by (auto simp: args_are_def list_all2_conv_all_nth add.commute)

lemma cmd_cat_eq:
  assumes s: "session N c w k es" and a: "args_are c nms" "nms \<noteq> []" and l: "linked (files w) es"
  shows "\<exists>w'. cmd_cat c w = Inr (fst (cat_spec (files w) es nms), c, w') \<and> session N c w' k es \<and>
    printed (snd (cat_spec (files w) es nms)) N w w'"
proof -
  obtain w' where w': "cat_args [1 .. nargs c - 1] c w = Inr (fst (cat_spec (files w) es nms), c, w')"
    "printed (snd (cat_spec (files w) es nms)) N w w'"
    using cat_args_eq [OF sessionD(1) [OF s] session_clean [OF s] l args_are_all2 [OF a(1)]] by blast
  have "\<not> nargs c < 2" using a by (cases nms) (auto simp: args_are_def)
  then show ?thesis using w' session_printed [OF s w'(2)] by (simp add: cmd_cat_def)
qed

section \<open>An open file\<close>

text \<open>A command gets the inode of a file other than the current directory.\<close>

lemma open_file:
  assumes s: "session N c w k es" and f: "files w j = Some (t, x)" and jk: "j \<noteq> k"
  shows "\<exists>q b w1. testfs_get_inode (int j) w = Inr (q, w1) \<and> vol_ok N w1 \<and> files w1 = files w \<and> w_fs w1 = w_fs w \<and>
    w_sb w1 = w_sb w \<and> q \<noteq> cur_dir c \<and> w_inodes w q = None \<and> w_inodes w1 = (w_inodes w)(q \<mapsto> b) \<and>
    w_inodes w1 q = Some b \<and> i_nr b = int j \<and> i_count b = 1 \<and> i_flags b = 0"
proof -
  obtain a where a: "w_inodes w = [cur_dir c \<mapsto> a]" "i_nr a = int k" using sessionD(3) [OF s] by blast
  obtain q b w1 where g: "testfs_get_inode (int j) w = Inr (q, w1)" "got w j q b w1" "vol_ok N w1" "files w1 = files w"
    using vol_get [OF sessionD(6) [OF s] files_in [OF f]] by blast
  note g' = g(2) [unfolded got_def]
  have "q \<noteq> cur_dir c" using g' a jk by auto
  then show ?thesis using g g' a(1) by (intro exI [of _ q] exI [of _ b] exI [of _ w1]) simp
qed

text \<open>After its work the command writes the inode back, commits and puts it.\<close>

lemma close_file:
  assumes v: "vol_at sv N w" and q: "w_inodes w q = Some b" "i_nr b = int j" "i_count b = 1" "has_flag b I_FLAGS_DIRTY"
    and tr: "tx_in_progress (fs_sb (w_fs w)) = TX_WRITE"
  shows "\<exists>w1 w2. sync_inode q w = Inr w1 \<and> on_fs (testfs_tx_commit TX_WRITE) w1 = Inr (tx TX_NONE w1) \<and>
    testfs_put_inode q (tx TX_NONE w1) = Inr w2 \<and> vol_at sv N w2 \<and> files w2 = files w \<and> w_sb w2 = w_sb w \<and>
    fs_out (w_fs w2) = fs_out (w_fs w) \<and> tx_in_progress (fs_sb (w_fs w2)) = TX_NONE \<and>
    w_inodes w2 = (w_inodes w)(q := None)"
proof -
  obtain w1 b1 where w1: "sync_inode q w = Inr w1" "vol_at sv N w1" "files w1 = files w" "same_env w w1"
    "w_inodes w1 = (w_inodes w)(q \<mapsto> b1)" "i_count b1 = i_count b" "\<not> has_flag b1 I_FLAGS_DIRTY"
    using sync_one [OF v q(1,2,4)] by blast
  have "on_fs (testfs_tx_commit TX_WRITE) w1 = Inr (tx TX_NONE w1)"
    by (rule tx_commit) (use w1(4) tr in \<open>simp add: same_env_def\<close>)
  moreover have "w_inodes (tx TX_NONE w1) q = Some b1" using w1(5) by simp
  then obtain w2 where "testfs_put_inode q (tx TX_NONE w1) = Inr w2" "vol_at sv N w2" "files w2 = files (tx TX_NONE w1)"
    "w_fs w2 = w_fs (tx TX_NONE w1)" "w_sb w2 = w_sb (tx TX_NONE w1)" "w_inodes w2 = (w_inodes (tx TX_NONE w1))(q := None)"
    using vol_put [OF vol_tx(1) [OF w1(2)] _ w1(7)] w1(6) q(3) by auto
  ultimately show ?thesis
    using w1(1,3,4,5) vol_tx(2) [OF w1(2)] by (intro exI [of _ w1] exI [of _ w2]) (simp add: same_env_def)
qed

lemma session_closed:
  assumes s: "session N c w k es" and v: "vol_ok N w'" and f: "files w' k = files w k" and i: "w_inodes w' = w_inodes w"
    and tr: "tx_in_progress (fs_sb (w_fs w')) = TX_NONE"
  shows "session N c w' k es"
  using s v f i tr by (simp add: session_def dir_at_def)

section \<open>\<open>import\<close> and \<open>export\<close>\<close>

lemma nblocks_0 [simp]: "nblocks 0 = 0"
  by (simp add: nblocks_def)

lemma import_loop_eq:
  assumes "vol_ok N w" "w_inodes w p = Some a" "i_nr a = int k" "files w k = Some (t, c)" "length buffer = 512"
    and "length rest mod 512 \<noteq> 0" "length c + length rest \<le> 132 * 512"
    and "needs (nblocks (length c)) (nblocks (length c + length rest)) \<le> nfree (w_fs w)"
  shows "\<exists>a' w'. import_loop p (int (length c)) buffer rest w = Inr (0, int (length c + length rest), w') \<and> vol_ok N w' \<and>
    same_env w w' \<and> files w' = (files w)(k \<mapsto> (t, c @ rest)) \<and> w_inodes w' = (w_inodes w)(p \<mapsto> a') \<and> i_nr a' = i_nr a \<and>
    i_count a' = i_count a \<and> has_flag a' I_FLAGS_DIRTY"
  using assms
proof (induction "length rest" arbitrary: rest c buffer w a rule: less_induct)
  case less
  note v = less.prems(1) and p = less.prems(2,3) and f = less.prems(4)
  let ?d = "take 512 rest"
  let ?buf = "blit 0 ?d buffer"
  have rl: "0 < length rest" using less.prems(6) by (cases rest) simp_all
  have dl: "0 < length ?d" "length ?d \<le> length ?buf" "length c + length ?d \<le> 132 * 512"
    "length c + length ?d \<le> length c + length rest"
    using rl less.prems(5,7) by simp_all
  have tk: "take (length ?d) ?buf = ?d" by (simp add: blit_def min_def)
  have "nblocks (length c) \<le> nblocks (length c + length ?d)" "nblocks (length c + length ?d) \<le> nblocks (length c + length rest)"
    using dl(4) by (simp_all add: nblocks_mono)
  note sum = needs_add [OF this]
  then have free: "needs (nblocks (length c)) (nblocks (length c + length ?d)) \<le> nfree (w_fs w)" using less.prems(8) by simp
  obtain a1 w1 where w1: "write_data p (int (length c)) ?buf (int (length ?d)) w = Inr (0, w1)" "vol_ok N w1" "same_env w w1"
    "files w1 = (files w)(k \<mapsto> (t, overwrite (length c) ?d c))" "w_inodes w1 = (w_inodes w)(p \<mapsto> a1)" "i_nr a1 = i_nr a"
    "i_count a1 = i_count a" "has_flag a1 I_FLAGS_DIRTY"
    "nfree (w_fs w) = nfree (w_fs w1) + needs (nblocks (length c)) (nblocks (max (length c) (length c + length ?d)))"
    using vol_write [OF v p f dl(1,2) order_refl dl(3) free] unfolding tk by blast
  have ov: "overwrite (length c) ?d c = c @ ?d" by (simp add: overwrite_def)
  show ?case
  proof (cases "length rest < 512")
    case True
    then have "?d = rest" by simp
    then show ?thesis
      using w1 True ov by (intro exI [of _ a1] exI [of _ w1]) (simp add: import_loop.simps [of p _ _ rest] Let_def)
  next
    case False
    let ?r = "drop 512 rest"
    have d512: "length ?d = 512" using False by simp
    have len: "length (c @ ?d) = length c + length ?d" "length (c @ ?d) + length ?r = length c + length rest"
      using False by simp_all
    have "length rest mod 512 = length ?r mod 512" using False by (simp add: le_mod_geq)
    then have md: "length ?r mod 512 \<noteq> 0" using less.prems(6) by simp
    have p1: "w_inodes w1 p = Some a1" "i_nr a1 = int k" "files w1 k = Some (t, c @ ?d)" using w1(4-6) p ov by simp_all
    have bl: "length ?buf = 512" using less.prems(5) by simp
    have fr: "needs (nblocks (length (c @ ?d))) (nblocks (length (c @ ?d) + length ?r)) \<le> nfree (w_fs w1)"
      unfolding len(2) unfolding len(1) using sum w1(9) less.prems(8) by simp
    have lt: "length ?r < length rest" using False by simp
    have le: "length (c @ ?d) + length ?r \<le> 132 * 512" unfolding len(2) using less.prems(7) .
    obtain a2 w2 where w2: "import_loop p (int (length (c @ ?d))) ?buf ?r w1 = Inr (0, int (length (c @ ?d) + length ?r), w2)"
      "vol_ok N w2" "same_env w1 w2" "files w2 = (files w1)(k \<mapsto> (t, (c @ ?d) @ ?r))" "w_inodes w2 = (w_inodes w1)(p \<mapsto> a2)"
      "i_nr a2 = i_nr a1" "i_count a2 = i_count a1" "has_flag a2 I_FLAGS_DIRTY"
      using less.hyps [OF lt w1(2) p1 bl md le fr] by blast
    have "import_loop p (int (length c)) buffer rest w = Inr (0, int (length c + length rest), w2)"
      using w1(1) w2(1) False unfolding len by (subst import_loop.simps) (simp add: Let_def)
    moreover have "files w2 = (files w)(k \<mapsto> (t, c @ rest))" using w2(4) w1(4) by simp
    moreover have "w_inodes w2 = (w_inodes w)(p \<mapsto> a2)" using w2(5) w1(5) by simp
    ultimately show ?thesis
      using w2 w1(6,7) same_env_trans [OF w1(3) w2(3)] by (intro exI [of _ a2] exI [of _ w2]) simp
  qed
qed

lemma export_loop_eq:
  assumes v: "vol_ok N w" and p: "w_inodes w p = Some a" "i_nr a = int k" and f: "files w k = Some (t, x)"
    and "length buffer = 512"
  shows "export_loop p (int st) (int (length x)) buffer (take st x) w = Inr x"
  using assms(5)
proof (induction "length x - st" arbitrary: st buffer rule: less_induct)
  case less
  show ?case
  proof (cases "st < length x")
    case True
    let ?n = "min (length x - st) 512"
    let ?buf = "blit 0 (seg st ?n x) buffer"
    have n: "0 < ?n" "st + ?n \<le> length x" "?n \<le> length buffer" using True less.prems by simp_all
    have "read_data p (int st) buffer (int ?n) w = Inr (0, ?buf)" by (rule vol_read [OF v p f n])
    moreover have "min (int (length x) - int st) 512 = int ?n" using True by (auto simp: min_def)
    moreover have sl: "length (seg st ?n x) = ?n" using n(2) by simp
    then have "take ?n ?buf = seg st ?n x" by (simp add: blit_def)
    moreover have "take st x @ seg st ?n x = take (st + 512) x"
      using True by (simp add: seg_def take_add [symmetric] min_def)
    moreover have "export_loop p (int (st + 512)) (int (length x)) ?buf (take (st + 512) x) w = Inr x"
      by (rule less.hyps) (use True less.prems sl in simp_all)
    ultimately show ?thesis using True by (subst export_loop.simps) (simp add: Let_def)
  qed (subst export_loop.simps, simp)
qed

text \<open>The arguments \<open>nm\<close>, the name in the current directory, and \<open>path\<close>, the name on the host.\<close>

definition copy_args :: "cmd_context \<Rightarrow> byte list \<Rightarrow> byte list \<Rightarrow> bool" where
  "copy_args c nm path \<longleftrightarrow> nargs c = 3 \<and> cmd_arg c 1 = Inr (Some nm) \<and> cmd_arg c 2 = Inr (Some path)"

lemma cmd_import_eq:
  assumes s: "session N c w k es" and a: "copy_args c nm path" and cc: "can_create N w (cur_dir c) k es nm j es'"
    and h: "h_files h path = Some data" and data: "length data mod 512 \<noteq> 0" "length data \<le> 132 * 512"
    and r: "room w es es'"
    and free: "needs (nblocks (length (dir_bytes es))) (nblocks (length (dir_bytes es'))) + needs 0 (nblocks (length data))
      \<le> nfree (w_fs w)"
  shows "\<exists>w'. cmd_import h c w = Inr (0, c, w') \<and> session N c w' k es' \<and> files w j = None \<and> j \<noteq> k \<and>
    files w' = (files w)(k \<mapsto> (I_DIR, dir_bytes es'), j \<mapsto> (I_FILE, data)) \<and>
    fs_out (w_fs w') = fs_out (w_fs w) @ [SizeIs (int (length data))]"
proof -
  obtain a0 where a0: "w_inodes w = [cur_dir c \<mapsto> a0]" "i_nr a0 = int k" "i_count a0 = 1" using sessionD(3) [OF s] by blast
  obtain w1 a1 where w1: "testfs_create_file_or_dir (cur_dir c) I_FILE (Some nm) w = Inr (0, w1)"
    "dir_at N w1 (cur_dir c) k es'" "files w1 = (files w)(k \<mapsto> (I_DIR, dir_bytes es'), j \<mapsto> (I_FILE, []))" "files w j = None"
    "j \<noteq> k" "same_env w w1" "w_inodes w1 = (w_inodes w)(cur_dir c \<mapsto> a1)" "i_nr a1 = int k" "i_count a1 = i_count a0"
    "\<not> has_flag a1 I_FLAGS_DIRTY"
    "nfree (w_fs w) = nfree (w_fs w1) + needs (nblocks (length (dir_bytes es))) (nblocks (length (dir_bytes es')))"
    using create_file [OF cc r, of a0] a0(1) by auto
  have s1: "session N c w1 k es'" by (rule session_next [OF s w1(2,6), of a1]) (use w1 a0 in simp_all)
  have nm: "0 \<notin> set nm" "dir_lookup es nm = None" "dir_insert nm (int j) es = Some es'" using cc by (simp_all add: can_create_def)
  have "dir_lookup es' nm = Some (int j)" using dir_insert_lookup(1) [OF nm(3,2)] by simp
  then have nr: "testfs_dir_name_to_inode_nr (cur_dir c) (Some nm) w1 = Inr (int j)" using name_to_nr [OF w1(2) nm(1)] by simp
  have f1: "files w1 j = Some (I_FILE, [])" using w1(3) by simp
  obtain q b w2 where w2: "testfs_get_inode (int j) w1 = Inr (q, w2)" "vol_ok N w2" "files w2 = files w1" "w_fs w2 = w_fs w1"
    "w_sb w2 = w_sb w1" "q \<noteq> cur_dir c" "w_inodes w1 q = None" "w_inodes w2 = (w_inodes w1)(q \<mapsto> b)"
    "w_inodes w2 q = Some b" "i_nr b = int j" "i_count b = 1"
    using open_file [OF s1 f1 w1(5)] by blast
  have f2: "files w2 j = Some (I_FILE, [])" using f1 w2(3) by simp
  have t2: "on_fs (testfs_tx_start TX_WRITE) w2 = Inr (tx TX_WRITE w2)"
    by (rule tx_start) (use sessionD(2) [OF s1] w2(4) in simp)
  have v3: "vol_ok N (tx TX_WRITE w2)" "files (tx TX_WRITE w2) = files w2" using vol_tx [OF w2(2)] by blast+
  obtain b3 w3 where w3: "import_loop q (int (length [])) (replicate 512 0) data (tx TX_WRITE w2) =
      Inr (0, int (length ([] :: byte list) + length data), w3)"
    "vol_ok N w3" "same_env (tx TX_WRITE w2) w3" "files w3 = (files w2)(j \<mapsto> (I_FILE, data))"
    "w_inodes w3 = (w_inodes w2)(q \<mapsto> b3)" "i_nr b3 = int j" "i_count b3 = 1" "has_flag b3 I_FLAGS_DIRTY"
    using import_loop_eq [OF v3(1), of q b j I_FILE "[]" "replicate 512 0" data] w2(4,9-11) f2 v3(2) data free w1(11) by auto
  have q3: "w_inodes w3 q = Some b3" "files w3 j = Some (I_FILE, data)" using w3(4,5) by simp_all
  have tr: "truncate_data q (int (length data)) w3 = Inr w3"
    using vol_truncate [OF w3(2) q3(1) w3(6) q3(2), of "length data"] by auto
  let ?w4 = "print (SizeIs (int (length data))) w3"
  have q4: "w_inodes ?w4 q = Some b3" "tx_in_progress (fs_sb (w_fs ?w4)) = TX_WRITE"
    using q3(1) w3(3) by (simp_all add: same_env_def)
  obtain w5 w6 where w6: "sync_inode q ?w4 = Inr w5" "on_fs (testfs_tx_commit TX_WRITE) w5 = Inr (tx TX_NONE w5)"
    "testfs_put_inode q (tx TX_NONE w5) = Inr w6" "vol_ok N w6" "files w6 = files ?w4"
    "fs_out (w_fs w6) = fs_out (w_fs ?w4)" "tx_in_progress (fs_sb (w_fs w6)) = TX_NONE" "w_inodes w6 = (w_inodes ?w4)(q := None)"
    using close_file [OF vol_print(1) [OF w3(2)] q4(1) w3(6-8) q4(2)] by blast
  have fl: "files w6 = (files w)(k \<mapsto> (I_DIR, dir_bytes es'), j \<mapsto> (I_FILE, data))"
    using w6(5) vol_print(2) [OF w3(2)] w3(4) w2(3) w1(3) by simp
  have ino: "w_inodes w6 = w_inodes w1" using w6(8) w3(5) w2(7,8) by (auto simp: fun_eq_iff)
  have ty: "testfs_inode_get_type q w2 = Inr I_FILE" by (rule file_fields(2) [OF w2(2,9,10) f2])
  have "cmd_import h c w = Inr (0, c, w6)"
    using a w1(1) nr w2(1) ty h t2 w3(1) tr w6(1-3) by (simp add: cmd_import_def copy_args_def)
  moreover have "session N c w6 k es'" by (rule session_closed [OF s1 w6(4) _ ino w6(7)]) (use fl w1(3,5) in simp)
  moreover have "fs_out (w_fs w6) = fs_out (w_fs w) @ [SizeIs (int (length data))]"
    using w6(6) w3(3) w2(4) w1(6) by (simp add: same_env_def)
  ultimately show ?thesis using fl w1(4,5) by blast
qed

lemma cmd_export_eq:
  assumes s: "session N c w k es" and a: "copy_args c nm path" "0 \<notin> set nm"
    and l: "dir_lookup es nm = Some (int j)" "j \<noteq> k" and f: "files w j = Some (I_FILE, x)" and h: "h_writable h path"
  shows "\<exists>w'. cmd_export h c w = Inr (None, c, w', h\<lparr>h_files := (h_files h)(path \<mapsto> x)\<rparr>) \<and> session N c w' k es \<and>
    printed [SizeIs (int (length x))] N w w'"
proof -
  have nr: "testfs_dir_name_to_inode_nr (cur_dir c) (Some nm) w = Inr (int j)"
    using name_to_nr [OF sessionD(1) [OF s] a(2)] l(1) by simp
  obtain q b w1 where w1: "testfs_get_inode (int j) w = Inr (q, w1)" "testfs_inode_get_type q w1 = Inr I_FILE" "vol_ok N w1"
    "files w1 = files w" "w_inodes w1 q = Some b" "i_nr b = int j"
    "\<And>w2 ms. printed ms N w1 w2 \<Longrightarrow> \<exists>w3. testfs_put_inode q w2 = Inr w3 \<and> printed ms N w w3"
    using get_for [OF sessionD(6) [OF s] session_clean [OF s] f] by blast
  have f1: "files w1 j = Some (I_FILE, x)" using f w1(4) by simp
  let ?w2 = "print (SizeIs (int (length x))) w1"
  have v2: "vol_ok N ?w2" "files ?w2 j = Some (I_FILE, x)" "w_inodes ?w2 q = Some b"
    using vol_print [OF w1(3)] f1 w1(5) by simp_all
  have ex: "export_loop q 0 (int (length x)) (replicate 512 0) [] ?w2 = Inr x"
    using export_loop_eq [OF v2(1,3) w1(6) v2(2), of "replicate 512 0" 0] by simp
  obtain w3 where w3: "testfs_put_inode q ?w2 = Inr w3" "printed [SizeIs (int (length x))] N w w3"
    using w1(7) [OF printed_print [OF w1(3)]] by blast
  have "cmd_export h c w = Inr (None, c, w3, h\<lparr>h_files := (h_files h)(path \<mapsto> x)\<rparr>)"
    using a(1) nr w1(1,2) h file_fields(1) [OF w1(3,5,6) f1] ex w3(1)
    by (simp add: cmd_export_def copy_args_def Let_def)
  then show ?thesis using session_printed [OF s w3(2)] w3(2) by blast
qed

section \<open>\<open>write\<close>\<close>

text \<open>
  \<open>write\<close> uses the asynchronous alternate path: until the flushes, block freemap and checksum table are only in
  memory, which is the volume \<open>vol_at False\<close>.  The state on the way is compared with that of the ordinary write,
  which it lags behind.
\<close>

lemma lags_store:
  assumes "lags N s ino t" "same_store N u s"
  shows "lags N u ino t"
proof -
  have sb: "fs_sb u = fs_sb s" "fs_bdev u = fs_bdev s" "fs_out u = fs_out s" "\<And>j. j < N \<Longrightarrow> dblk u j = dblk s j"
    using assms(2) by (simp_all add: same_store_def)
  have b: "bmap u = bmap s" "imap u = imap s" "csum_table_of u = csum_table_of s" "dsb u = dsb s"
    by (simp_all add: bmap_def imap_def csum_table_of_def sb)
  have "64 \<le> N" using fs_okD(3) [OF lagsD(1) [OF assms(1)]] .
  then have "csum_coherent u = csum_coherent s" by (simp add: csum_coherent_def csum_tblk_def sb b)
  moreover have "fs_ok N u = fs_ok N s" by (simp add: fs_ok_def freemaps_wf_def csum_wf_def dev_ok_def sb b)
  moreover have "same_meta u t = same_meta s t" by (simp add: same_meta_def sb b)
  ultimately show ?thesis using assms(1) sb(4) by (simp add: lags_def)
qed

lemma lags_sync:
  assumes l: "lags N s ino t" and k: "k < NR_INODES" and di: "dinode_ok d"
  shows "lags N (sync_st k d s) ino (sync_st k d t)"
proof -
  note h = lagsD [OF l] and N = fs_okD(2) [OF lagsD(1) [OF l]]
  have s: "dblk (sync_st k d s) j = (if j = 64 + k div 16 then blit (k mod 16 * 32) (dinode_bytes d) (dblk s j) else dblk s j)"
    "dblk (sync_st k d t) j = (if j = 64 + k div 16 then blit (k mod 16 * 32) (dinode_bytes d) (dblk t j) else dblk t j)"
    if "j < N" for j
    using dblk_sync_st [OF h(1) k di that] dblk_sync_st [OF h(2) k di that] by simp_all
  have slot: "64 + k div 16 < 192" using slot_bounds(1) [OF h(1) k] by simp
  have "dblk (sync_st k d t) j = (if has_flag ino I_FLAGS_INDIRECT_DIRTY \<and> int j = i_indirect (i_in ino)
      then words_bytes (i_ind ino) else dblk (sync_st k d s) j)" if j: "j < N" "j < 2 \<or> 64 \<le> j" for j
  proof (cases "j = 64 + k div 16")
    case True
    then have "int j \<noteq> i_indirect (i_in ino) \<or> i_indirect (i_in ino) = 0" using h(8) slot by linarith
    then have "\<not> (has_flag ino I_FLAGS_INDIRECT_DIRTY \<and> int j = i_indirect (i_in ino))" using h(7) by blast
    then show ?thesis using h(5) [OF j] s [OF j(1)] by auto
  next
    case False
    then show ?thesis using h(5) [OF j] s [OF j(1)] by simp
  qed
  moreover have "dblk (sync_st k d t) (nat (i_indirect (i_in ino))) = dblk t (nat (i_indirect (i_in ino)))"
    if "i_indirect (i_in ino) \<noteq> 0"
    using s(2) [of "nat (i_indirect (i_in ino))"] h(8) [OF that] N slot by auto
  moreover have "same_meta (sync_st k d s) (sync_st k d t)" using h(3) by (simp add: same_meta_def)
  ultimately show ?thesis
    using h(1,2,4,6,7,8) data_step_sync(3) [OF h(1) k di] unfolding lags_def by simp
qed

lemma sync_lags:
  assumes l: "lags N s ino t" and nr: "i_nr ino = int k" "k < NR_INODES" and di: "dinode_ok (i_in ino)"
    and fl: "has_flag ino I_FLAGS_DIRTY"
  shows "\<exists>ino' s'. testfs_sync_inode ino s = Inr (ino', s') \<and> lags N s' ino' (sync_st k (i_in ino) t) \<and>
    \<not> has_flag ino' I_FLAGS_INDIRECT_DIRTY \<and> \<not> has_flag ino' I_FLAGS_DIRTY \<and>
    i_in ino' = i_in ino \<and> i_nr ino' = i_nr ino \<and> i_count ino' = i_count ino \<and> i_sb ino' = i_sb ino"
proof -
  note l1 = lags_sync [OF l nr(2) di]
  have clean: "lags N u (clear_flag I_FLAGS_DIRTY a) t'" if "lags N u a t'" for u a and t' :: "'a fsys"
    by (rule lags_inode [OF that])
      (simp_all add: has_flag_def clear_flag_def I_FLAGS_DIRTY_def I_FLAGS_INDIRECT_LOADED_def I_FLAGS_INDIRECT_DIRTY_def and.assoc)
  show ?thesis
  proof (cases "has_flag ino I_FLAGS_INDIRECT_DIRTY")
    case True
    obtain s' where s': "write_blocks (words_bytes (i_ind ino)) (i_indirect (i_in ino)) 1 (sync_st k (i_in ino) s) = Inr s'"
      "lags N s' (clear_flag I_FLAGS_INDIRECT_DIRTY ino) (sync_st k (i_in ino) t)"
      using put_indirect_lags [OF l1 True] by blast
    then show ?thesis using True sync_inode_run [OF lagsD(1) [OF l] nr di fl] clean [OF s'(2)] by simp
  next
    case False
    then show ?thesis using sync_inode_run [OF lagsD(1) [OF l] nr di fl] clean [OF l1] by simp
  qed
qed

lemma vol_weaken: "vol_ok N w \<Longrightarrow> vol_at False N w"
  by (simp add: vol_at_def kept_def synced_def freemaps_synced_def)

text \<open>The volume that has caught up, and the one that lags behind in freemap and checksum table.\<close>

lemma vol_shadow:
  assumes v: "vol_ok N g" and q: "w_inodes g q = Some b" and l: "lags N u a (w_fs g)"
    and a: "\<not> has_flag a I_FLAGS_INDIRECT_DIRTY" "has_flag a I_FLAGS_DIRTY = has_flag b I_FLAGS_DIRTY"
      "i_in a = i_in b" "i_nr a = i_nr b" "i_count a = i_count b" "i_sb a = i_sb b"
  shows "vol_at False N (set_fs u (store q a g))" "files (set_fs u (store q a g)) = files g"
proof -
  let ?w = "set_fs u (store q a g)"
  note c = vol_okD(1,2) [OF v] and h = lagsD [OF l]
  obtain k where k: "i_nr b = int k" "k < NR_INODES" "cur g k = i_in b" using cached_at [OF v q] by blast
  have ok: "cache_ok ?w" unfolding cache_ok_set_fs
    by (rule cache_ok_store [OF c(1) q]) (use a(4-6) cache_okD(8) [OF c(1) q] in simp_all)
  have N: "7872 \<le> N" using fs_okD(2) [OF h(1)] by simp
  have blk: "dblk u j = dblk (w_fs g) j" if "j < N" "j < 2 \<or> 64 \<le> j" for j using h(5) [OF that] a(1) by simp
  have di: "dinode_at u j = dinode_at (w_fs g) j" if "j < NR_INODES" for j
    using blk [of "64 + j div 16"] slot_bounds(1) [OF c(2) that] N by (simp add: dinode_at_def)
  note m = same_metaD(1,2) [OF h(3)] h(3) [unfolded same_meta_def]
  have cur: "cur ?w j = cur g j" if "j \<in> iused (w_fs g)" for j
  proof (cases "j = k")
    case True
    then show ?thesis using cur_cached [OF ok, of q a k] a(3,4) k by simp
  next
    case False
    then show ?thesis
      by (intro cur_other [OF c(1) ok False, of q "Some a"]) (use di [OF vol_okD(3) [OF v that]] q a(4) k(1) in auto)
  qed
  have "cached_ok u e" if "w_inodes ?w p = Some e" for p e
  proof (cases "p = q")
    case True
    then have "e = a" using that by simp
    then show ?thesis using vol_okD(4) [OF v q] a k(1) di [OF k(2)] m(2) by (simp add: cached_ok_def)
  next
    case False
    then have e: "w_inodes g p = Some e" using that by simp
    obtain j where "i_nr e = int j" "j < NR_INODES" using cached_at [OF v e] by blast
    then show ?thesis using vol_okD(4) [OF v e] di m(2) by (simp add: cached_ok_def)
  qed
  moreover have "kept False u"
    using vol_okD(9) [OF v] h(4) blk [of 1] N m(3) by (simp add: kept_def synced_def freemaps_synced_def)
  moreover note file_frame [OF c(2) m(1), OF _ blk]
  ultimately show "vol_at False N ?w" "files ?w = files g"
    using cur di h(1) m by (intro vol_cong [OF vol_weaken [OF v] ok]; simp)+
qed

text \<open>The flushes catch up.\<close>

lemma vol_flush:
  assumes v: "vol_at False N w"
  shows "\<exists>s'. bind_r (testfs_flush_block_freemap (w_fs w)) testfs_flush_csum = Inr s' \<and> vol_ok N (set_fs s' w) \<and>
    files (set_fs s' w) = files w \<and> fs_out s' = fs_out (w_fs w) \<and>
    tx_in_progress (fs_sb s') = tx_in_progress (fs_sb (w_fs w))"
proof -
  let ?s = "w_fs w"
  note c = vol_okD(1,2) [OF v] and kp = vol_okD(9) [OF v]
  define z where "z = \<lparr>i_flags = 0, i_in = zero_dinode, i_nr = 0, i_count = 1, i_sb = 1, i_ind = []\<rparr>"
  have l: "lags N ?s z ?s"
    by (rule lags_start) (use c(2) kp zero_good(1) [of ?s] in \<open>simp_all add: kept_def inode_good_def z_def has_flag_def\<close>)
  have "\<not> has_flag z I_FLAGS_INDIRECT_DIRTY" by (simp add: z_def has_flag_def)
  then obtain s' where s': "bind_r (testfs_flush_block_freemap ?s) testfs_flush_csum = Inr s'" "caught_up N s' ?s"
    using flush_lags [OF l] by blast
  note cu = s'(2) [unfolded caught_up_def]
  let ?w = "set_fs s' w"
  have N: "7872 \<le> N" using fs_okD(2) [OF c(2)] by simp
  have m: "used s' = used ?s" "iused s' = iused ?s" "csum_table_of s' = csum_table_of ?s" "imap s' = imap ?s"
    using cu same_metaD(1,2) [of s' ?s] by (simp_all add: same_meta_def)
  have blk: "dblk s' j = dblk ?s j" if "j < N" "j < 2 \<or> 64 \<le> j" for j using cu that by blast
  have di: "dinode_at s' j = dinode_at ?s j" if "j < NR_INODES" for j
    using blk [of "64 + j div 16"] slot_bounds(1) [OF c(2) that] N by (simp add: dinode_at_def)
  have "cached_ok s' e" if e: "w_inodes w p = Some e" for p e
  proof -
    obtain j where "i_nr e = int j" "j < NR_INODES" using cached_at [OF v e] by blast
    then show ?thesis using vol_okD(4) [OF v e] di m(2) by (simp add: cached_ok_def)
  qed
  moreover have "cur ?w j = cur w j" if "j \<in> iused ?s" for j
    by (rule cur_cong) (use c(1) di [OF vol_okD(3) [OF v that]] in simp_all)
  moreover have "synced s'"
    using cu kp blk [of 1] N m(4) by (simp add: synced_def freemaps_synced_def kept_def)
  moreover have "kept False s'" using \<open>synced s'\<close> by (simp add: kept_def synced_def freemaps_synced_def)
  moreover note file_frame [OF c(2) m(1,3) blk]
  ultimately have "vol_at False N ?w" "files ?w = files w"
    using c(1) cu m(1,2) di by (intro vol_cong [OF v]; simp)+
  then show ?thesis using s'(1) cu \<open>synced s'\<close> by (auto simp: vol_at_def same_meta_def)
qed

lemma finish_lagging:
  assumes v: "vol_ok N g" and q: "w_inodes g q = Some (shade a)" and nr: "i_nr a = int k" "i_count a = 1"
    and fl: "has_flag a I_FLAGS_DIRTY" and l: "lags N u a (w_fs g)" and tr: "tx_in_progress (fs_sb (w_fs g)) = TX_WRITE"
  shows "\<exists>w1 w2. sync_inode q (set_fs u (store q a g)) = Inr w1 \<and> on_fs (testfs_tx_commit TX_WRITE) w1 = Inr (tx TX_NONE w1) \<and>
    testfs_put_inode q (tx TX_NONE w1) = Inr w2 \<and> vol_at False N w2 \<and> files w2 = files g \<and>
    w_inodes w2 = (w_inodes g)(q := None) \<and> tx_in_progress (fs_sb (w_fs w2)) = TX_NONE"
proof -
  let ?b = "shade a"
  note c = vol_okD(1,2) [OF v]
  have q': "i_nr ?b = int k" "has_flag ?b I_FLAGS_DIRTY" using nr fl by simp_all
  note fa = files_at [OF v q q'(1)] and vs = vol_sync [OF v q q']
  have di: "dinode_ok (i_in a)" using fa(2) by (simp add: inode_good_def)
  obtain a2 u2 where sy: "testfs_sync_inode a u = Inr (a2, u2)" "lags N u2 a2 (sync_st k (i_in a) (w_fs g))"
    "\<not> has_flag a2 I_FLAGS_INDIRECT_DIRTY" "\<not> has_flag a2 I_FLAGS_DIRTY" "i_in a2 = i_in a" "i_nr a2 = i_nr a"
    "i_count a2 = i_count a" "i_sb a2 = i_sb a"
    using sync_lags [OF l nr(1) fa(4) di fl] by blast
  let ?g2 = "set_fs (sync_st k (i_in ?b) (w_fs g)) (store q (clear_flag I_FLAGS_DIRTY ?b) g)"
  let ?w1 = "set_fs u2 (store q a2 ?g2)"
  have ok: "cache_ok (set_fs u (store q a g))" unfolding cache_ok_set_fs
    by (rule cache_ok_store [OF c(1) q]) (use nr in simp_all)
  have "sync_inode q (set_fs u (store q a g)) = Inr ?w1"
    using sy(1) deref_sb_eq [OF ok, of q a] by (simp add: sync_inode_def on_inode_def set_fs_def store_def)
  moreover have w1: "vol_at False N ?w1" "files ?w1 = files ?g2"
    using vol_shadow [OF vs(2), of q "clear_flag I_FLAGS_DIRTY ?b" u2 a2] sy by simp_all
  have "on_fs (testfs_tx_commit TX_WRITE) ?w1 = Inr (tx TX_NONE ?w1)"
    by (rule tx_commit) (use lagsD(3) [OF sy(2)] tr in \<open>simp add: same_meta_def\<close>)
  moreover have q1: "w_inodes (tx TX_NONE ?w1) q = Some a2" by simp
  obtain w2 where "testfs_put_inode q (tx TX_NONE ?w1) = Inr w2" "vol_at False N w2" "files w2 = files (tx TX_NONE ?w1)"
    "w_fs w2 = w_fs (tx TX_NONE ?w1)" "w_inodes w2 = (w_inodes (tx TX_NONE ?w1))(q := None)"
    using vol_put [OF vol_tx(1) [OF w1(1)] q1 sy(4)] sy(7) nr(2) by auto
  ultimately show ?thesis
    using vol_tx(2) [OF w1(1)] w1(2) vs(3) by (intro exI [of _ ?w1] exI [of _ w2]) simp
qed

lemma write_async_eq:
  "deref_sb p w = Inr a \<Longrightarrow> write_async sched1 sched2 p start buf sz w =
     bind_r (async_write sched1 sched2 a start buf sz (w_fs w)) (\<lambda>(ret, ino, s). Inr (ret, set_fs s (store p ino w)))"
  by (simp add: write_async_def async_write_def bind_r_assoc split_def)

text \<open>The rest of the command after the write: the truncation, the write back, the end of the transaction and the put.\<close>

lemma finish_write:
  assumes v: "vol_ok N g" and q: "w_inodes g q = Some (shade e)" and nr: "i_nr e = int j" "i_count e = 1"
    and fl: "has_flag e I_FLAGS_DIRTY" and l: "lags N u e (w_fs g)" and tr: "tx_in_progress (fs_sb (w_fs g)) = TX_WRITE"
    and f: "files g j = Some (t, y)" and clean: "length y \<le> sz \<or> \<not> has_flag e I_FLAGS_INDIRECT_DIRTY"
  shows "\<exists>w3 w4 w5. truncate_data q (int sz) (set_fs u (store q e g)) = Inr w3 \<and> sync_inode q w3 = Inr w4 \<and>
    on_fs (testfs_tx_commit TX_WRITE) w4 = Inr (tx TX_NONE w4) \<and> testfs_put_inode q (tx TX_NONE w4) = Inr w5 \<and>
    vol_at False N w5 \<and> files w5 = (files g)(j \<mapsto> (t, take sz y)) \<and> w_inodes w5 = (w_inodes g)(q := None) \<and>
    tx_in_progress (fs_sb (w_fs w5)) = TX_NONE"
proof (cases "length y \<le> sz")
  let ?r = "set_fs u (store q e g)"
  have nr': "i_nr (shade e) = int j" using nr by simp
  note fa = files_at [OF v q nr']
  case True
  have "y = contents (w_fs g) (i_in e)" using fa(1) f by simp
  then have "i_size (i_in e) \<le> int sz" using True by (simp add: nat_le_iff)
  then have no: "testfs_truncate_data e (int sz) u = Inr (e, u)" by (rule truncate_data_noop)
  have ok: "cache_ok ?r" unfolding cache_ok_set_fs
    by (rule cache_ok_store [OF vol_okD(1) [OF v] q]) (use nr in simp_all)
  have "truncate_data q (int sz) ?r = Inr ?r"
    using no deref_sb_eq [OF ok, of q e] by (simp add: truncate_data_def on_inode_def set_fs_def store_def)
  moreover have "(files g)(j \<mapsto> (t, take sz y)) = files g" using True f by (simp add: fun_upd_idem)
  ultimately show ?thesis using finish_lagging [OF v q nr fl l tr] by auto
next
  let ?r = "set_fs u (store q e g)"
  case False
  then have "\<not> has_flag e I_FLAGS_INDIRECT_DIRTY" using clean by blast
  note vs = vol_shadow [OF v q l this]
  have vr: "vol_at False N ?r" "files ?r = files g" using vs by simp_all
  have qr: "w_inodes ?r q = Some e" by (simp add: set_fs_def store_def)
  obtain e' w3 where w3: "truncate_data q (int sz) ?r = Inr w3" "vol_at False N w3" "same_env ?r w3"
    "files w3 = (files g)(j \<mapsto> (t, take sz y))" "w_inodes w3 = (w_inodes ?r)(q \<mapsto> e')" "i_nr e' = int j" "i_count e' = 1"
    "has_flag e' I_FLAGS_DIRTY"
    using vol_truncate [OF vr(1) qr nr(1), of t y sz] f False nr unfolding vr(2) by auto
  have q3: "w_inodes w3 q = Some e'" using w3(5) by simp
  have "tx_in_progress (fs_sb (w_fs w3)) = TX_WRITE"
    using w3(3) lagsD(3) [OF l] tr by (simp add: same_env_def same_meta_def)
  then obtain w4 w5 where "sync_inode q w3 = Inr w4" "on_fs (testfs_tx_commit TX_WRITE) w4 = Inr (tx TX_NONE w4)"
    "testfs_put_inode q (tx TX_NONE w4) = Inr w5" "vol_at False N w5" "files w5 = files w3"
    "tx_in_progress (fs_sb (w_fs w5)) = TX_NONE" "w_inodes w5 = (w_inodes w3)(q := None)"
    using close_file [OF w3(2) q3 w3(6-8)] by blast
  moreover have "(w_inodes w3)(q := None) = (w_inodes g)(q := None)" using w3(5) by (simp add: set_fs_def store_def)
  ultimately show ?thesis using w3(1,4) by auto
qed

text \<open>The asynchronous write of a whole buffer from the start of the file, against the ghost state of the ordinary write.\<close>

lemma write_whole:
  assumes v: "vol_ok N w" and q: "w_inodes w q = Some b" "i_nr b = int j" "i_count b = 1" "i_flags b = 0"
    and f: "files w j = Some (t, x)" and len: "data \<noteq> []" "length data \<le> 132 * 512"
    and free: "needs (nblocks (length x)) (nblocks (length data)) \<le> nfree (w_fs w)"
    and tr: "tx_in_progress (fs_sb (w_fs w)) = TX_WRITE"
  shows "\<exists>a g. (\<forall>sched1 sched2. write_async sched1 sched2 q 0 (data @ [0]) (int (length data)) w = Inl Hang \<or>
      (\<exists>u. write_async sched1 sched2 q 0 (data @ [0]) (int (length data)) w = Inr (0, set_fs u (store q a g)) \<and>
         lags N u a (w_fs g))) \<and>
    (\<exists>sched1 sched2. write_async sched1 sched2 q 0 (data @ [0]) (int (length data)) w \<noteq> Inl Hang) \<and>
    vol_ok N g \<and> w_inodes g = (w_inodes w)(q \<mapsto> shade a) \<and> i_nr a = int j \<and> i_count a = 1 \<and> has_flag a I_FLAGS_DIRTY \<and>
    (length data < length x \<longrightarrow> \<not> has_flag a I_FLAGS_INDIRECT_DIRTY) \<and> files g = (files w)(j \<mapsto> (t, overwrite 0 data x)) \<and>
    tx_in_progress (fs_sb (w_fs g)) = TX_WRITE"
proof -
  let ?s = "w_fs w" and ?d = "i_in b" and ?sz = "length data" and ?buf = "data @ [0]"
  note c = vol_okD(1,2) [OF v] and fa = files_at [OF v q(1,2)]
  have tx: "t = i_type ?d" "x = contents ?s ?d" using fa(1) f by simp_all
  have g: "dinode_ok ?d" "file_ok ?s ?d" "csums_ok ?s ?d (nblocks (nat (i_size ?d)))" using fa(2) by (simp_all add: inode_good_def)
  have m: "nat (i_size ?d) = length x" using tx(2) by simp
  have im: "imap_ok ?s ?d (nblocks (length x))" "csums_ok ?s ?d (nblocks (length x))" using g m by (simp_all add: file_ok_def)
  have coh: "csum_coherent ?s" using vol_okD(9) [OF v] by (simp add: synced_def)
  have fl: "\<not> has_flag b I_FLAGS_INDIRECT_LOADED" "\<not> has_flag b I_FLAGS_INDIRECT_DIRTY" using q(4) by (simp_all add: has_flag_def)
  note l = lags_start [OF c(2) coh g(2) fl]
  have sz: "0 < ?sz" "?sz \<le> length ?buf" "0 + nblocks ?sz \<le> 132" using len nblocks_le [of ?sz 132] by simp_all
  have free': "needs (nblocks (length x)) (max (nblocks (length x)) (0 + nblocks ?sz)) \<le> nfree ?s"
    using free by (simp add: max_def needs_def)
  obtain a s' where al: "testfs_write_data_alternate b (int (512 * 0)) ?buf (int ?sz) ?s = Inr (0, a, s')"
    and any: "\<And>sched1 sched2. async_write sched1 sched2 b (int (512 * 0)) ?buf (int ?sz) ?s = Inl Hang \<or>
       (\<exists>u. async_write sched1 sched2 b (int (512 * 0)) ?buf (int ?sz) ?s = Inr (0, a, u) \<and> same_store N u s')"
    and some: "\<exists>sched1 sched2. async_write sched1 sched2 b (int (512 * 0)) ?buf (int ?sz) ?s \<noteq> Inl Hang"
    using async_write_any [OF l im le0 sz free'] by blast
  obtain t' where l': "lags N s' a t'" and post: "write_post N (shade b) (nblocks (length x)) (512 * 0) 0 ?sz ?buf ?s (shade a) t'"
    and ind: "0 + nblocks ?sz \<le> nblocks (length x) \<longrightarrow> has_flag a I_FLAGS_INDIRECT_DIRTY = has_flag b I_FLAGS_INDIRECT_DIRTY"
    using write_alternate_post [OF l im le0 sz free'] al by auto
  have "file_ok ?s (i_in (shade b))" "512 * 0 \<le> nat (i_size (i_in (shade b)))" using g(2) by simp_all
  note wf = write_post_file [OF this(1) sz(2) this(2), of N "shade a" t', unfolded shade_simps m, OF post]
  have r: "contents t' (i_in a) = overwrite (512 * 0) (take ?sz ?buf) (contents ?s ?d)"
    "i_size (i_in a) = max (i_size ?d) (int (512 * 0 + ?sz))" "file_ok t' (i_in a)"
    "csums_ok t' (i_in a) (nblocks (nat (i_size (i_in a))))" "same_inode (shade b) (shade a)" "has_flag (shade a) I_FLAGS_DIRTY"
    "inode_step N ?s ?d (nblocks (length x)) t' (i_in a) (nblocks (nat (i_size (i_in a))))"
    using wf unfolding shade_simps by blast+
  have p: "contents t' (i_in a) = overwrite 0 data x" using r(1) tx(2) by simp
  have ind': "\<not> has_flag a I_FLAGS_INDIRECT_DIRTY" if "?sz < length x"
    using ind nblocks_mono [of ?sz "length x"] that fl(2) by simp
  have st: "inode_step N ?s ?d (nblocks (nat (i_size ?d))) t' (i_in (shade a)) (nblocks (nat (i_size (i_in (shade a)))))"
    using r(7) unfolding m shade_simps .
  note sm = r(5) [unfolded same_inode_def shade_simps]
  have good: "inode_good t' (i_in (shade a))"
    using dinode_ok_same [OF inode_stepD(3) [OF st] r(3) g(1)] sm r(3,4) by (simp add: inode_good_def)
  let ?g = "set_fs t' (store q (shade a) w)"
  have a': "i_nr (shade a) = i_nr b" "i_sb (shade a) = i_sb b" "0 < i_count (shade a)"
    "has_flag (shade a) I_FLAGS_DIRTY \<or> i_in (shade a) = dinode_at ?s j" "\<not> has_flag (shade a) I_FLAGS_INDIRECT_DIRTY"
    using sm q(3) r(6) by simp_all
  note vs = vol_step [OF v q(1,2) st good a']
  have fg: "files ?g = (files w)(j \<mapsto> (t, overwrite 0 data x))" using vs(2) p sm tx(1) by simp
  have eq: "set_fs u (store q a w) = set_fs u (store q a ?g)" for u by (simp add: set_fs_def store_def)
  note wa = write_async_eq [OF deref_sb_eq [OF c(1) q(1)], of _ _ 0 ?buf "int ?sz"]
  have "write_async sched1 sched2 q 0 ?buf (int ?sz) w = Inl Hang \<or>
      (\<exists>u. write_async sched1 sched2 q 0 ?buf (int ?sz) w = Inr (0, set_fs u (store q a ?g)) \<and> lags N u a t')" for sched1 sched2
    using any [of sched1 sched2] lags_store [OF l'] unfolding wa eq [symmetric] by auto
  moreover have "\<exists>sched1 sched2. write_async sched1 sched2 q 0 ?buf (int ?sz) w \<noteq> Inl Hang"
    using some any unfolding wa by (fastforce simp: bind_r_eq_Inl)
  moreover have "tx_in_progress (fs_sb t') = TX_WRITE" using data_stepD(5) [OF inode_stepD(1) [OF st]] tr by simp
  ultimately show ?thesis
    using vs(1) fg sm q(2,3) ind' r(6) by (intro exI [of _ a] exI [of _ ?g]) simp
qed

text \<open>The flushes that the callers of the alternate path owe.\<close>

definition flush_all :: "'d world \<Rightarrow> 'd world res" where
  "flush_all w = bind_r (on_fs testfs_flush_block_freemap w) (on_fs testfs_flush_csum)"

lemma flush_all_eq:
  assumes v: "vol_at False N w"
  shows "\<exists>w'. flush_all w = Inr w' \<and> vol_ok N w' \<and> files w' = files w \<and> w_inodes w' = w_inodes w \<and>
    tx_in_progress (fs_sb (w_fs w')) = tx_in_progress (fs_sb (w_fs w))"
proof -
  obtain s' where "bind_r (testfs_flush_block_freemap (w_fs w)) testfs_flush_csum = Inr s'" "vol_ok N (set_fs s' w)"
    "files (set_fs s' w) = files w" "tx_in_progress (fs_sb s') = tx_in_progress (fs_sb (w_fs w))"
    using vol_flush [OF v] by blast
  moreover obtain u where "testfs_flush_block_freemap (w_fs w) = Inr u" "testfs_flush_csum u = Inr s'"
    using calculation(1) by (auto simp: bind_r_eq_Inr)
  ultimately show ?thesis by (simp add: flush_all_def on_fs_def set_fs_def)
qed

lemma cmd_write_eq:
  assumes s: "session N c w k es" and a: "copy_args c nm data" "0 \<notin> set nm"
    and l: "dir_lookup es nm = Some (int j)" "j \<noteq> k" and f: "files w j = Some (I_FILE, x)"
    and data: "data \<noteq> []" "length data \<le> 132 * 512"
    and free: "needs (nblocks (length x)) (nblocks (length data)) \<le> nfree (w_fs w)"
  shows "cmd_write sched1 sched2 c w = Inl Hang \<or>
      (\<exists>w1 w2. cmd_write sched1 sched2 c w = Inr (0, c, w1) \<and> vol_at False N w1 \<and> files w1 = (files w)(j \<mapsto> (I_FILE, data)) \<and>
         flush_all w1 = Inr w2 \<and> session N c w2 k es \<and> files w2 = files w1)" (is "?ok sched1 sched2")
    and "\<exists>sched1 sched2. cmd_write sched1 sched2 c w \<noteq> Inl Hang"
proof -
  have nr: "testfs_dir_name_to_inode_nr (cur_dir c) (Some nm) w = Inr (int j)"
    using name_to_nr [OF sessionD(1) [OF s] a(2)] l(1) by simp
  obtain q b w1 where w1: "testfs_get_inode (int j) w = Inr (q, w1)" "vol_ok N w1" "files w1 = files w" "w_fs w1 = w_fs w"
    "q \<noteq> cur_dir c" "w_inodes w q = None" "w_inodes w1 = (w_inodes w)(q \<mapsto> b)" "w_inodes w1 q = Some b"
    "i_nr b = int j" "i_count b = 1" "i_flags b = 0"
    using open_file [OF s f l(2)] by blast
  have t1: "on_fs (testfs_tx_start TX_WRITE) w1 = Inr (tx TX_WRITE w1)"
    by (rule tx_start) (use sessionD(2) [OF s] w1(4) in simp)
  let ?w = "tx TX_WRITE w1" and ?sz = "int (length data)"
  have f1: "files w1 j = Some (I_FILE, x)" and v: "vol_ok N ?w" and f2: "files ?w j = Some (I_FILE, x)"
    and q: "w_inodes ?w q = Some b" and tr: "tx_in_progress (fs_sb (w_fs ?w)) = TX_WRITE"
    and fr: "needs (nblocks (length x)) (nblocks (length data)) \<le> nfree (w_fs ?w)"
    using f w1(3,4,8) vol_tx [OF w1(2)] free by simp_all
  obtain e g where any: "\<And>sched1 sched2. write_async sched1 sched2 q 0 (data @ [0]) ?sz ?w = Inl Hang \<or>
      (\<exists>u. write_async sched1 sched2 q 0 (data @ [0]) ?sz ?w = Inr (0, set_fs u (store q e g)) \<and> lags N u e (w_fs g))"
    and some: "\<exists>sched1 sched2. write_async sched1 sched2 q 0 (data @ [0]) ?sz ?w \<noteq> Inl Hang"
    and g: "vol_ok N g" "w_inodes g = (w_inodes ?w)(q \<mapsto> shade e)" "i_nr e = int j" "i_count e = 1" "has_flag e I_FLAGS_DIRTY"
      "length data < length x \<longrightarrow> \<not> has_flag e I_FLAGS_INDIRECT_DIRTY" "files g = (files ?w)(j \<mapsto> (I_FILE, overwrite 0 data x))" "tx_in_progress (fs_sb (w_fs g)) = TX_WRITE"
    using write_whole [OF v q w1(9-11) f2 data fr tr] by blast
  have qg: "w_inodes g q = Some (shade e)" using g(2) by simp
  have ty: "testfs_inode_get_type q w1 = Inr I_FILE" by (rule file_fields(2) [OF w1(2,8,9) f1])
  have start: "cmd_write sched1 sched2 c w =
      bind_r (write_async sched1 sched2 q 0 (data @ [0]) ?sz ?w) (\<lambda>(ret, w).
      bind_r (if 0 \<le> ret then truncate_data q ?sz w else Inr w) (\<lambda>w.
      bind_r (sync_inode q w) (\<lambda>w. bind_r (on_fs (testfs_tx_commit TX_WRITE) w) (\<lambda>w.
      bind_r (testfs_put_inode q w) (\<lambda>w. Inr (ret, c, w))))))" for sched1 sched2
    using a(1) nr w1(1) ty t1 by (simp add: cmd_write_def copy_args_def c_mem_def Let_def cong: if_cong)
  have run: "\<exists>w1 w2. cmd_write sched1 sched2 c w = Inr (0, c, w1) \<and> vol_at False N w1 \<and>
      files w1 = (files w)(j \<mapsto> (I_FILE, data)) \<and> flush_all w1 = Inr w2 \<and> session N c w2 k es \<and> files w2 = files w1"
    if wr: "write_async sched1 sched2 q 0 (data @ [0]) ?sz ?w = Inr (0, set_fs u (store q e g))" and lu: "lags N u e (w_fs g)"
    for sched1 sched2 u
  proof -
    let ?r = "set_fs u (store q e g)"
    have fg: "files g j = Some (I_FILE, overwrite 0 data x)" using g(7) by simp
    have "length (overwrite 0 data x) \<le> length data \<or> \<not> has_flag e I_FLAGS_INDIRECT_DIRTY"
      using g(6) by (auto simp: length_overwrite)
    from finish_write [OF g(1) qg g(3-5) lu g(8) fg this]
    obtain w3 w4 w5 where w5: "truncate_data q ?sz ?r = Inr w3" "sync_inode q w3 = Inr w4"
      "on_fs (testfs_tx_commit TX_WRITE) w4 = Inr (tx TX_NONE w4)" "testfs_put_inode q (tx TX_NONE w4) = Inr w5"
      "vol_at False N w5" "files w5 = (files g)(j \<mapsto> (I_FILE, take (length data) (overwrite 0 data x)))"
      "w_inodes w5 = (w_inodes g)(q := None)" "tx_in_progress (fs_sb (w_fs w5)) = TX_NONE" by blast
    have "cmd_write sched1 sched2 c w = Inr (0, c, w5)" using wr w5(1-4) unfolding start by simp
    moreover obtain w6 where w6: "flush_all w5 = Inr w6" "vol_ok N w6" "files w6 = files w5" "w_inodes w6 = w_inodes w5"
      "tx_in_progress (fs_sb (w_fs w6)) = TX_NONE"
      using flush_all_eq [OF w5(5)] w5(8) by auto
    moreover have fl: "files w5 = (files w)(j \<mapsto> (I_FILE, data))"
      using w5(6) g(7) vol_tx(2) [OF w1(2)] w1(3) by (simp add: overwrite_def)
    moreover have "session N c w6 k es"
      by (rule session_closed [OF s w6(2)]) (use w6(3-5) fl l(2) w5(7) g(2) w1(6,7) in \<open>auto simp: fun_eq_iff\<close>)
    ultimately show ?thesis using w5(5) by blast
  qed
  have hang: "cmd_write sched1 sched2 c w = Inl Hang"
    if "write_async sched1 sched2 q 0 (data @ [0]) ?sz ?w = Inl Hang" using that by (simp add: start)
  show "?ok sched1 sched2" using any [of sched1 sched2] run [of sched1 sched2] hang by blast
  obtain sched1 sched2 where "write_async sched1 sched2 q 0 (data @ [0]) ?sz ?w \<noteq> Inl Hang" using some by blast
  then obtain w1 w2 where "cmd_write sched1 sched2 c w = Inr (0, c, w1)" using any [of sched1 sched2] run by blast
  then have "cmd_write sched1 sched2 c w \<noteq> Inl Hang" by simp
  then show "\<exists>sched1 sched2. cmd_write sched1 sched2 c w \<noteq> Inl Hang" by blast
qed

section \<open>Sample sessions\<close>

definition copy_ctx :: "byte list \<Rightarrow> byte list \<Rightarrow> cmd_context" where
  "copy_ctx nm arg = \<lparr>nargs = 3, cmd = [Some [120], Some nm, Some arg], cur_dir = start_dir\<rparr>"

definition sample_host :: host where
  "sample_host = \<lparr>h_files = [[104] \<mapsto> [1, 2, 3]], h_writable = (\<lambda>_. True)\<rparr>"

lemma copy_ctx [simp]: "copy_args (copy_ctx nm arg) nm arg" "cur_dir (copy_ctx nm arg) = start_dir"
  by (simp_all add: copy_args_def copy_ctx_def cmd_arg_def nth_r_def)

lemma args_are_start: "0 \<notin> set nm \<Longrightarrow> args_are (start_ctx nm) [nm]"
  by (simp add: args_are_def start_ctx_def cmd_arg_def nth_r_def)

lemma session_ctx: "session N c w k es \<Longrightarrow> cur_dir c' = cur_dir c \<Longrightarrow> session N c' w k es"
  by (simp add: session_def)

lemma start_nfree: "nfree (w_fs start_world) = 7679"
  using root_world_ok(5) start_session(4) by simp

lemma start_needs: "needs (nblocks (length (dir_bytes (empty_dir 0 0)))) (nblocks (length (dir_bytes (root_with 1)))) = 0"
  using one_block [of 21] one_block [of 31] root_with(4,5) by (simp add: needs_def)

lemma needs_one: "0 < n \<Longrightarrow> n \<le> 512 \<Longrightarrow> needs 0 (nblocks n) = 1"
  by (simp add: one_block needs_eq)

text \<open>The file \<open>a\<close>, empty, and with three bytes.\<close>

lemma start_file:
  "\<exists>w :: ram_world. session 8192 (copy_ctx nm arg) w 0 (root_with 1) \<and> files w 1 = Some (I_FILE, []) \<and> nfree (w_fs w) = 7679"
proof -
  have s: "session 8192 (copy_ctx nm arg) start_world 0 (empty_dir 0 0)"
    by (rule session_ctx [OF start_session(1)]) simp
  obtain a where a: "w_inodes start_world = [start_dir \<mapsto> a]" "i_count a = 1" using sessionD(3) [OF s] by auto
  obtain w' a' where w': "dir_at 8192 w' start_dir 0 (root_with 1)"
    "files w' = (files start_world)(0 \<mapsto> (I_DIR, dir_bytes (root_with 1)), 1 \<mapsto> (I_FILE, []))" "same_env start_world w'"
    "w_inodes w' = (w_inodes start_world)(start_dir \<mapsto> a')" "i_nr a' = int 0" "i_count a' = i_count a"
    "\<not> has_flag a' I_FLAGS_DIRTY" "nfree (w_fs start_world) = nfree (w_fs w') +
      needs (nblocks (length (dir_bytes (empty_dir 0 0)))) (nblocks (length (dir_bytes (root_with 1))))"
    using create_file [OF start_can_create start_room, of a] a(1) by auto
  have "session 8192 (copy_ctx nm arg) w' 0 (root_with 1)"
    by (rule session_next [OF s, of w' _ a']) (use w' a in simp_all)
  then show ?thesis using w'(2,8) start_nfree start_needs by (intro exI [of _ w']) simp
qed

lemma start_import:
  "\<exists>w'. cmd_import sample_host (copy_ctx [97] [104]) start_world = Inr (0, copy_ctx [97] [104], w') \<and>
     session 8192 (copy_ctx [97] [104]) w' 0 (root_with 1) \<and> files w' 1 = Some (I_FILE, [1, 2, 3]) \<and>
     files w' 0 = Some (I_DIR, dir_bytes (root_with 1))"
proof -
  have s: "session 8192 (copy_ctx [97] [104]) start_world 0 (empty_dir 0 0)"
    by (rule session_ctx [OF start_session(1)]) simp
  have cc: "can_create 8192 start_world (cur_dir (copy_ctx [97] [104])) 0 (empty_dir 0 0) [97] 1 (root_with 1)"
    using start_can_create by simp
  have h: "h_files sample_host [104] = Some [1, 2, 3]" by (simp add: sample_host_def)
  show ?thesis
    using cmd_import_eq [OF s copy_ctx(1) cc h _ _ start_room] start_nfree start_needs needs_one [of "Suc (Suc (Suc 0))"] by auto
qed

section \<open>Properties\<close>

text \<open>
  \<open>cat\<close> does on the volume what \<open>cat_spec\<close> does on the abstract map: it prints the files its arguments name,
  in order, each up to its first zero byte, an empty file not at all, and stops at the first name that is missing
  (\<open>ENOENT\<close>) or a directory (\<open>EISDIR\<close>); nothing changes but the output.
\<close>

theorem cat_correct:
  assumes "session N c w k es" "args_are c nms" "nms \<noteq> []" "linked (files w) es"
  shows "\<exists>w'. cmd_cat c w = Inr (fst (cat_spec (files w) es nms), c, w') \<and> session N c w' k es \<and>
    printed (snd (cat_spec (files w) es nms)) N w w'"
  by (rule cmd_cat_eq [OF assms])

theorem cat_correct_witness:
  "\<exists>(w :: ram_world) w'. cmd_cat (start_ctx [97]) w = Inr (0, start_ctx [97], w') \<and>
     fs_out (w_fs w') = fs_out (w_fs w) @ [FileContents [1, 2, 3]]"
proof -
  obtain w :: ram_world where w: "session 8192 (copy_ctx [97] [104]) w 0 (root_with 1)" "files w 1 = Some (I_FILE, [1, 2, 3])"
    "files w 0 = Some (I_DIR, dir_bytes (root_with 1))" using start_import by blast
  have s: "session 8192 (start_ctx [97]) w 0 (root_with 1)" by (rule session_ctx [OF w(1)]) simp
  have l: "linked (files w) (root_with 1)"
    using w(2,3) by (simp add: linked_def root_with_def empty_dir_def)
  have "cat_spec (files w) (root_with 1) [[97]] = (0, [FileContents [1, 2, 3]])"
    using w(2) root_with(3) by (simp add: shown_def cstring_of_def)
  then show ?thesis
    using cat_correct [OF s args_are_start _ l] by (auto simp: printed_def)
qed

text \<open>
  C11.  Round trip: importing a host file whose length is no multiple of the block size creates a file with exactly
  its bytes, and exporting that file writes the same bytes to the host again; only the host file changes then.
\<close>

theorem import_export:
  assumes "session N c w k es" "copy_args c nm path" "can_create N w (cur_dir c) k es nm j es'"
    and "h_files h path = Some data" "length data mod 512 \<noteq> 0" "length data \<le> 132 * 512" "room w es es'"
    and "needs (nblocks (length (dir_bytes es))) (nblocks (length (dir_bytes es'))) + needs 0 (nblocks (length data))
      \<le> nfree (w_fs w)"
    and "copy_args c2 nm path2" "cur_dir c2 = cur_dir c" "h_writable h path2"
  shows "\<exists>w1 w2. cmd_import h c w = Inr (0, c, w1) \<and> session N c w1 k es' \<and>
    files w1 = (files w)(k \<mapsto> (I_DIR, dir_bytes es'), j \<mapsto> (I_FILE, data)) \<and>
    cmd_export h c2 w1 = Inr (None, c2, w2, h\<lparr>h_files := (h_files h)(path2 \<mapsto> data)\<rparr>) \<and>
    session N c2 w2 k es' \<and> files w2 = files w1"
proof -
  obtain w1 where w1: "cmd_import h c w = Inr (0, c, w1)" "session N c w1 k es'" "j \<noteq> k"
    "files w1 = (files w)(k \<mapsto> (I_DIR, dir_bytes es'), j \<mapsto> (I_FILE, data))"
    using cmd_import_eq [OF assms(1-6,7,8)] by blast
  have nm: "0 \<notin> set nm" "dir_lookup es nm = None" "dir_insert nm (int j) es = Some es'"
    using assms(3) by (simp_all add: can_create_def)
  have lk: "dir_lookup es' nm = Some (int j)" using dir_insert_lookup(1) [OF nm(3,2)] by simp
  have s2: "session N c2 w1 k es'" using w1(2) assms(10) by (simp add: session_def)
  have fj: "files w1 j = Some (I_FILE, data)" using w1(4) by simp
  obtain w2 where "cmd_export h c2 w1 = Inr (None, c2, w2, h\<lparr>h_files := (h_files h)(path2 \<mapsto> data)\<rparr>)" "session N c2 w2 k es'"
    "printed [SizeIs (int (length data))] N w1 w2"
    using cmd_export_eq [OF s2 assms(9) nm(1) lk w1(3) fj assms(11)] by blast
  then show ?thesis using w1 by (auto simp: printed_def)
qed

theorem import_export_witness:
  "\<exists>w1 w2 h2. cmd_import sample_host (copy_ctx [97] [104]) start_world = Inr (0, copy_ctx [97] [104], w1) \<and>
     cmd_export sample_host (copy_ctx [97] [105]) w1 = Inr (None, copy_ctx [97] [105], w2, h2) \<and>
     h_files h2 [105] = Some [1, 2, 3]"
proof -
  have s: "session 8192 (copy_ctx [97] [104]) start_world 0 (empty_dir 0 0)"
    by (rule session_ctx [OF start_session(1)]) simp
  have cc: "can_create 8192 start_world (cur_dir (copy_ctx [97] [104])) 0 (empty_dir 0 0) [97] 1 (root_with 1)"
    using start_can_create by simp
  have h: "h_files sample_host [104] = Some [1, 2, 3]" "h_writable sample_host [105]" by (simp_all add: sample_host_def)
  show ?thesis
    using import_export [OF s copy_ctx(1) cc h(1) _ _ start_room _ copy_ctx(1) _ h(2)] start_nfree start_needs needs_one [of "Suc (Suc (Suc 0))"]
    by auto
qed

text \<open>
  C10.  \<open>write\<close> replaces the contents of a file, which may be longer or shorter than the argument, a text of at most
  132 blocks for whose growth the free blocks suffice: whatever order the device completes the requests in, the command
  either waits for one that never completes (\<open>Hang\<close>) or returns 0 with the file holding exactly its argument and
  every other file unchanged; block freemap and checksum table are then only in memory, and the two flushes, which
  the command does not do, restore the invariant of the whole volume.  Some schedule lets it return.
\<close>

theorem write_correct:
  assumes "session N c w k es" "copy_args c nm data" "0 \<notin> set nm" "dir_lookup es nm = Some (int j)" "j \<noteq> k"
    and "files w j = Some (I_FILE, x)" "data \<noteq> []" "length data \<le> 132 * 512"
    and "needs (nblocks (length x)) (nblocks (length data)) \<le> nfree (w_fs w)"
  shows "(\<forall>sched1 sched2. case cmd_write sched1 sched2 c w of
      Inl e \<Rightarrow> e = Hang
    | Inr (ret, c', w1) \<Rightarrow> ret = 0 \<and> c' = c \<and> vol_at False N w1 \<and> files w1 = (files w)(j \<mapsto> (I_FILE, data)) \<and>
        (\<exists>w2. flush_all w1 = Inr w2 \<and> session N c w2 k es \<and> files w2 = files w1)) \<and>
    (\<exists>sched1 sched2. cmd_write sched1 sched2 c w \<noteq> Inl Hang)"
proof -
  have "case cmd_write sched1 sched2 c w of
      Inl e \<Rightarrow> e = Hang
    | Inr (ret, c', w1) \<Rightarrow> ret = 0 \<and> c' = c \<and> vol_at False N w1 \<and> files w1 = (files w)(j \<mapsto> (I_FILE, data)) \<and>
        (\<exists>w2. flush_all w1 = Inr w2 \<and> session N c w2 k es \<and> files w2 = files w1)" for sched1 sched2
    using cmd_write_eq(1) [OF assms, of sched1 sched2] by auto
  then show ?thesis using cmd_write_eq(2) [OF assms] by blast
qed

theorem write_correct_witness:
  "\<exists>(w :: ram_world) sched1 sched2 w1 w2. files w 1 = Some (I_FILE, [1, 2, 3]) \<and>
     cmd_write sched1 sched2 (copy_ctx [97] [7, 8]) w = Inr (0, copy_ctx [97] [7, 8], w1) \<and>
     flush_all w1 = Inr w2 \<and> vol_ok 8192 w2 \<and> files w2 1 = Some (I_FILE, [7, 8])"
proof -
  have s: "session 8192 (copy_ctx [97] [104]) start_world 0 (empty_dir 0 0)"
    by (rule session_ctx [OF start_session(1)]) simp
  have cc: "can_create 8192 start_world (cur_dir (copy_ctx [97] [104])) 0 (empty_dir 0 0) [97] 1 (root_with 1)"
    using start_can_create by simp
  have h: "h_files sample_host [104] = Some [1, 2, 3]" by (simp add: sample_host_def)
  obtain w :: ram_world where w0: "session 8192 (copy_ctx [97] [104]) w 0 (root_with 1)" "files w 1 = Some (I_FILE, [1, 2, 3])"
    using cmd_import_eq [OF s copy_ctx(1) cc h _ _ start_room] start_nfree start_needs needs_one [of "Suc (Suc (Suc 0))"] by auto
  have w: "session 8192 (copy_ctx [97] [7, 8]) w 0 (root_with 1)" by (rule session_ctx [OF w0(1)]) simp
  have nd: "needs (nblocks (length [1, 2, 3 :: byte])) (nblocks (length [7, 8 :: byte])) \<le> nfree (w_fs w)"
    by (simp add: one_block needs_def)
  have wc: "(\<forall>sched1 sched2. case cmd_write sched1 sched2 (copy_ctx [97] [7, 8]) w of
      Inl e \<Rightarrow> e = Hang
    | Inr (ret, c', w1) \<Rightarrow> ret = 0 \<and> c' = copy_ctx [97] [7, 8] \<and> vol_at False 8192 w1 \<and>
        files w1 = (files w)(1 \<mapsto> (I_FILE, [7, 8])) \<and>
        (\<exists>w2. flush_all w1 = Inr w2 \<and> session 8192 (copy_ctx [97] [7, 8]) w2 0 (root_with 1) \<and> files w2 = files w1)) \<and>
    (\<exists>sched1 sched2. cmd_write sched1 sched2 (copy_ctx [97] [7, 8]) w \<noteq> Inl Hang)"
    by (rule write_correct [OF w copy_ctx(1) _ root_with(3) _ w0(2) _ _ nd]) simp_all
  then obtain sched1 sched2 where "cmd_write sched1 sched2 (copy_ctx [97] [7, 8]) w \<noteq> Inl Hang" by blast
  moreover note conjunct1 [OF wc, THEN spec, THEN spec, of sched1 sched2]
  ultimately obtain w1 w2 where "cmd_write sched1 sched2 (copy_ctx [97] [7, 8]) w = Inr (0, copy_ctx [97] [7, 8], w1)"
    "flush_all w1 = Inr w2" "session 8192 (copy_ctx [97] [7, 8]) w2 0 (root_with 1)" "files w2 1 = Some (I_FILE, [7, 8])"
    by (cases "cmd_write sched1 sched2 (copy_ctx [97] [7, 8]) w") auto
  then show ?thesis using sessionD(6) w0(2) by blast
qed

end
