(* ===== verification/ListLoops.thy ===== *)
theory ListLoops
  imports HList
begin

text \<open>
  The loops of \<open>src/include/list.h\<close> that stay safe when their body takes the current entry out of the list:
  \<open>list_for_each_entry_safe\<close>, \<open>list_for_each_entry_safe_continue\<close> and \<open>hlist_for_each_entry_safe\<close>.  The body is
  a function on the current node and a state with the heap; an entry is named by its node, so \<open>list_entry\<close> and
  \<open>hlist_entry\<close> are the identity.  The fuel bounds the rounds; the length of the list is enough.
\<close>

type_synonym 's list_body = "node \<Rightarrow> 's \<times> list_heap \<Rightarrow> ('s \<times> list_heap) res"
type_synonym 's hlist_body = "node \<Rightarrow> 's \<times> hlist_heap \<Rightarrow> ('s \<times> hlist_heap) res"

section \<open>The loops\<close>

definition list_first_entry :: "node \<Rightarrow> list_heap \<Rightarrow> node res" where
  "list_first_entry ptr h = get_next ptr h"

text \<open>The rounds of a loop with the cursors \<open>pos\<close> and \<open>n\<close>; the step reads through \<open>n\<close>.\<close>

fun safe_rounds :: "nat \<Rightarrow> 's list_body \<Rightarrow> node \<Rightarrow> node \<Rightarrow> node \<Rightarrow> 's \<times> list_heap \<Rightarrow> ('s \<times> list_heap) res" where
  "safe_rounds fuel body head pos n sh =
     (if pos = head then Inr sh
      else case fuel of 0 \<Rightarrow> Inl NoFuel
           | Suc k \<Rightarrow>
               bind_r (body pos sh) (\<lambda>sh.
               bind_r (get_next n (snd sh)) (\<lambda>nxt. safe_rounds k body head n nxt sh)))"

declare safe_rounds.simps [simp del]

definition list_for_each_entry_safe ::
    "nat \<Rightarrow> 's list_body \<Rightarrow> node \<Rightarrow> 's \<times> list_heap \<Rightarrow> ('s \<times> list_heap) res" where
  "list_for_each_entry_safe fuel body head sh =
     bind_r (list_first_entry head (snd sh)) (\<lambda>pos.
     bind_r (get_next pos (snd sh)) (\<lambda>n. safe_rounds fuel body head pos n sh))"

definition list_for_each_entry_safe_continue ::
    "nat \<Rightarrow> 's list_body \<Rightarrow> node \<Rightarrow> node \<Rightarrow> 's \<times> list_heap \<Rightarrow> ('s \<times> list_heap) res" where
  "list_for_each_entry_safe_continue fuel body head pos sh =
     bind_r (get_next pos (snd sh)) (\<lambda>pos.
     bind_r (get_next pos (snd sh)) (\<lambda>n. safe_rounds fuel body head pos n sh))"

fun hlist_safe_rounds :: "nat \<Rightarrow> 's hlist_body \<Rightarrow> node \<Rightarrow> 's \<times> hlist_heap \<Rightarrow> ('s \<times> hlist_heap) res" where
  "hlist_safe_rounds fuel body pos sh =
     (if pos = 0 then Inr sh
      else case fuel of 0 \<Rightarrow> Inl NoFuel
           | Suc k \<Rightarrow>
               bind_r (get_nnext pos (snd sh)) (\<lambda>n.
               bind_r (body pos sh) (\<lambda>sh. hlist_safe_rounds k body n sh)))"

declare hlist_safe_rounds.simps [simp del]

definition hlist_for_each_entry_safe ::
    "nat \<Rightarrow> 's hlist_body \<Rightarrow> node \<Rightarrow> 's \<times> hlist_heap \<Rightarrow> ('s \<times> hlist_heap) res" where
  "hlist_for_each_entry_safe fuel body head sh =
     bind_r (get_first head (snd sh)) (\<lambda>pos. hlist_safe_rounds fuel body pos sh)"

section \<open>Removing entries while iterating\<close>

text \<open>The body that records the node and removes it if \<open>P\<close> says so.\<close>

definition del_if :: "(node \<Rightarrow> bool) \<Rightarrow> node list list_body" where
  "del_if P p = (\<lambda>(ps, h). if P p then bind_r (list_del p h) (\<lambda>h. Inr (ps @ [p], h)) else Inr (ps @ [p], h))"

definition hdel_if :: "(node \<Rightarrow> bool) \<Rightarrow> node list hlist_body" where
  "hdel_if P p = (\<lambda>(ps, h). if P p then bind_r (hlist_del p h) (\<lambda>h. Inr (ps @ [p], h)) else Inr (ps @ [p], h))"

lemma dlist_next:
  assumes "dlist h head (us @ x # vs)"
  shows "l_next h x = hd (vs @ [head])"
proof -
  have "ring h ((x # vs) @ head # us)" using assms ring_rotate [of h "head # us" "x # vs"] by (simp add: dlist_def)
  then show ?thesis using ring_ends(1) [of h x "vs @ head # us"] by (cases vs) simp_all
qed

lemma dlist_heads:
  assumes "dlist h head (us @ vs)"
  shows "hd (vs @ [head]) \<noteq> 0" "vs \<noteq> [] \<Longrightarrow> hd vs \<noteq> head"
  using assms by (cases vs; auto simp: dlist_def ring_def)+

lemma del_if_step:
  assumes "dlist h head (us @ x # vs)"
  shows "\<exists>h'. del_if P x (ps, h) = Inr (ps @ [x], h') \<and> dlist h' head (us @ filter (\<lambda>p. \<not> P p) [x] @ vs)"
  using dlist_del [OF assms] assms by (auto simp: del_if_def)

lemma safe_rounds_eq:
  assumes "dlist h head (us @ vs)" "length vs \<le> fuel" "vs \<noteq> [] \<Longrightarrow> n = l_next h (hd vs)"
  shows "\<exists>h'. safe_rounds fuel (del_if P) head (hd (vs @ [head])) n (ps, h) = Inr (ps @ vs, h') \<and>
    dlist h' head (us @ filter (\<lambda>p. \<not> P p) vs)"
  using assms
proof (induction vs arbitrary: fuel us h n ps)
  case Nil
  then show ?case by (simp add: safe_rounds.simps)
next
  case (Cons x vs)
  obtain k where k: "fuel = Suc k" "length vs \<le> k" using Cons.prems(2) by (cases fuel) auto
  have n: "n = hd (vs @ [head])" using dlist_next [OF Cons.prems(1)] Cons.prems(3) by simp
  obtain h' where b: "del_if P x (ps, h) = Inr (ps @ [x], h')" "dlist h' head ((us @ filter (\<lambda>p. \<not> P p) [x]) @ vs)"
    using del_if_step [OF Cons.prems(1), of P ps] by auto
  have hd: "n \<noteq> 0" "x \<noteq> head" using dlist_heads(1) [OF b(2)] dlist_heads(2) [OF Cons.prems(1)] unfolding n by simp_all
  have "l_next h' n = l_next h' (hd vs)" if "vs \<noteq> []" using that unfolding n by simp
  then obtain h2 where "safe_rounds k (del_if P) head n (l_next h' n) (ps @ [x], h') = Inr ((ps @ [x]) @ vs, h2)"
    "dlist h2 head ((us @ filter (\<lambda>p. \<not> P p) [x]) @ filter (\<lambda>p. \<not> P p) vs)"
    using Cons.IH [OF b(2) k(2), of "l_next h' n" "ps @ [x]"] unfolding n by blast
  then show ?case using b(1) hd k(1) by (cases "P x") (simp_all add: safe_rounds.simps [of "Suc k"])
qed

lemma list_safe_filter:
  assumes "dlist h head xs" "length xs \<le> fuel"
  shows "\<exists>h'. list_for_each_entry_safe fuel (del_if P) head ([], h) = Inr (xs, h') \<and>
    dlist h' head (filter (\<lambda>p. \<not> P p) xs)"
proof -
  have f: "l_next h head = hd (xs @ [head])" using ring_ends(1) [of h head xs] assms(1) by (simp add: dlist_def)
  have "dlist h head ([] @ xs)" using assms(1) by simp
  from safe_rounds_eq [OF this assms(2), of "l_next h (hd (xs @ [head]))" P "[]"] dlist_heads(1) [OF this] show ?thesis
    using dlist_head [OF assms(1)] by (cases xs) (simp_all add: list_for_each_entry_safe_def list_first_entry_def f)
qed

lemma list_safe_continue_filter:
  assumes "dlist h head (us @ x # vs)" "length vs \<le> fuel"
  shows "\<exists>h'. list_for_each_entry_safe_continue fuel (del_if P) head x ([], h) = Inr (vs, h') \<and>
    dlist h' head (us @ x # filter (\<lambda>p. \<not> P p) vs)"
proof -
  have "dlist h head ((us @ [x]) @ vs)" using assms(1) by simp
  from safe_rounds_eq [OF this assms(2), of "l_next h (hd (vs @ [head]))" P "[]"] dlist_heads(1) [OF this] show ?thesis
    using dlist_heads(1) [OF assms(1)]
    by (cases vs) (simp_all add: list_for_each_entry_safe_continue_def dlist_next [OF assms(1)])
qed

lemma hlist_rounds_eq:
  assumes "hlist h p (us @ vs)" "length vs \<le> fuel"
  shows "\<exists>h'. hlist_safe_rounds fuel (hdel_if P) (hd (vs @ [0])) (ps, h) = Inr (ps @ vs, h') \<and>
    hlist h' p (us @ filter (\<lambda>p. \<not> P p) vs)"
  using assms
proof (induction vs arbitrary: fuel us h ps)
  case Nil
  then show ?case by (simp add: hlist_safe_rounds.simps)
next
  case (Cons x vs)
  obtain k where k: "fuel = Suc k" "length vs \<le> k" using Cons.prems(2) by (cases fuel) auto
  have x: "x \<noteq> 0" "n_next h x = hd (vs @ [0])" using hlist_at(6,8) [OF Cons.prems(1)] by auto
  obtain h' where b: "hdel_if P x (ps, h) = Inr (ps @ [x], h')" "hlist h' p ((us @ filter (\<lambda>p. \<not> P p) [x]) @ vs)"
    using hlist_del [OF Cons.prems(1)] Cons.prems(1) by (cases "P x") (auto simp: hdel_if_def)
  then obtain h2 where "hlist_safe_rounds k (hdel_if P) (hd (vs @ [0])) (ps @ [x], h') = Inr ((ps @ [x]) @ vs, h2)"
    "hlist h2 p ((us @ filter (\<lambda>p. \<not> P p) [x]) @ filter (\<lambda>p. \<not> P p) vs)"
    using Cons.IH [OF b(2) k(2), of "ps @ [x]"] by blast
  then show ?case using b(1) x k(1) by (cases "P x") (simp_all add: hlist_safe_rounds.simps [of "Suc k"])
qed

lemma hlist_safe_filter:
  assumes "hlist h p xs" "length xs \<le> fuel"
  shows "\<exists>h'. hlist_for_each_entry_safe fuel (hdel_if P) p ([], h) = Inr (xs, h') \<and>
    hlist h' p (filter (\<lambda>p. \<not> P p) xs)"
proof -
  have "hlist h p ([] @ xs)" using assms(1) by simp
  moreover have "h_first h p = hd (xs @ [0])" using assms(1) by (cases xs) (auto simp: hlist_def)
  ultimately show ?thesis
    using hlist_rounds_eq [OF _ assms(2), of h p "[]" P "[]"] assms(1)
    by (simp add: hlist_for_each_entry_safe_def hlist_def)
qed

end
