(* ===== verification/CheckOk.thy ===== *)
theory CheckOk
  imports MountOps FileSystem
begin

text \<open>
  \<open>checkfs\<close> on the volume.  It walks the directory tree from the root and marks what it reaches in two fresh
  bitmaps, which it then compares with the freemaps.  On a volume where the invariant holds and no file has two
  names it never aborts, and it reports exactly the files that no name leads to.
\<close>

section \<open>Marking\<close>

definition mark_all :: "nat list \<Rightarrow> bitmap \<Rightarrow> bitmap" where
  "mark_all ks b = fold (\<lambda>k b. bm_put b k True) ks b"

lemma mark_all_simps [simp]: "mark_all [] b = b" "mark_all (k # ks) b = mark_all ks (bm_put b k True)"
  "mark_all (ks @ js) b = mark_all js (mark_all ks b)"
  by (simp_all add: mark_all_def)

definition map_ok :: "nat \<Rightarrow> bitmap \<Rightarrow> bool" where
  "map_ok n b \<longleftrightarrow> bm_wf b \<and> bm_nbits b = word_of_nat n \<and> n < 2 ^ 32"

lemma map_ok_put:
  assumes "map_ok n b" "k < n"
  shows "map_ok n (bm_put b k True)" "bm_set (bm_put b k True) = insert k (bm_set b)"
    "k \<notin> bm_set b \<Longrightarrow> bitmap_mark b (word_of_int (int k)) = Inr (bm_put b k True)"
  using assms bm_wf_put [of b k True] bm_set_put [of b k True] bitmap_mark_eq [of b k]
  by (simp_all add: map_ok_def unat_of_nat32)

lemma mark_all_ok:
  assumes "map_ok n b" "set ks \<subseteq> {..< n}"
  shows "map_ok n (mark_all ks b)" "bm_set (mark_all ks b) = bm_set b \<union> set ks"
  using assms by (induction ks arbitrary: b) (auto simp: map_ok_put)

section \<open>The blocks of one inode\<close>

lemma dnums_Cons: "a < b \<Longrightarrow> dnums s d a b = (nat (lblk s d a) - 192) # dnums s d (Suc a) b"
  by (simp add: dnums_def upt_conv_Cons)

lemma dnums_nil [simp]: "b \<le> a \<Longrightarrow> dnums s d a b = []"
  by (simp add: dnums_def)

text \<open>The pointers of a file at rest: checked, in range, and still unmarked.\<close>

definition unmarked :: "'d fsys \<Rightarrow> bitmap \<Rightarrow> nat list \<Rightarrow> bool" where
  "unmarked s b ks \<longleftrightarrow> distinct ks \<and> set ks \<inter> bm_set b = {}"

lemma check_one:
  assumes "fs_ok N s" "imap_ok s d m" "csums_ok s d m" "n < m" "map_ok 8192 b" "nat (lblk s d n) - 192 \<notin> bm_set b"
  shows "lblk s d n \<noteq> 0" "testfs_verify_csum (lblk s d n) s = Inr (0, s)"
    "bitmap_mark b (word_of_int (lblk s d n - data_blocks_start (dsb s))) = Inr (bm_put b (nat (lblk s d n) - 192) True)"
    "map_ok 8192 (bm_put b (nat (lblk s d n) - 192) True)"
    "bm_set (bm_put b (nat (lblk s d n) - 192) True) = insert (nat (lblk s d n) - 192) (bm_set b)"
proof -
  obtain k where k: "lblk s d n = 192 + int k" "k < MAX_NR_CSUMS" using lblk_mapped [OF assms(2,4)] by blast
  have g: "csum_good s k" using assms(3,4) k(1) by (auto simp: csums_ok_def nat_add_distrib)
  have kn: "nat (lblk s d n) - 192 = k" by (simp add: k(1) nat_add_distrib)
  show "lblk s d n \<noteq> 0" using k(1) by simp
  show "testfs_verify_csum (lblk s d n) s = Inr (0, s)" using verify_csum_eq [OF assms(1) k(2)] g k(1) by simp
  have "k < 8192" using k(2) by simp
  from map_ok_put [OF assms(5) this]
  show "bitmap_mark b (word_of_int (lblk s d n - data_blocks_start (dsb s))) = Inr (bm_put b (nat (lblk s d n) - 192) True)"
    "map_ok 8192 (bm_put b (nat (lblk s d n) - 192) True)"
    "bm_set (bm_put b (nat (lblk s d n) - 192) True) = insert (nat (lblk s d n) - 192) (bm_set b)"
    using assms(6) fs_okD(4) [OF assms(1)] by (simp_all add: kn) (simp add: k(1) std_dsb_def)
qed

lemma check_direct_eq:
  assumes "fs_ok N s" "imap_ok s (i_in a) m" "csums_ok s (i_in a) m" "map_ok 8192 b"
    and "i \<le> 4" "i \<le> m" "distinct (dnums s (i_in a) i (min 4 m))" "set (dnums s (i_in a) i (min 4 m)) \<inter> bm_set b = {}"
  shows "check_direct i sz a b s = Inr (sz + 512 * int (min 4 m - i), m < 4, mark_all (dnums s (i_in a) i (min 4 m)) b, s)"
  using assms(4-8)
proof (induction "4 - i" arbitrary: i sz b)
  case 0
  then show ?case by (simp add: check_direct.simps [of 4])
next
  case (Suc k)
  let ?d = "i_in a"
  have i: "i < 4" "k = 4 - Suc i" using Suc.hyps(2) by simp_all
  have l: "nth_r (i_block_nr ?d) (int i) = Inr (lblk s ?d i)"
    using i(1) imap_okD(2) [OF assms(2)] by (simp add: nth_r_in lblk_def)
  show ?case
  proof (cases "i < m")
    case True
    then have c: "dnums s ?d i (min 4 m) = (nat (lblk s ?d i) - 192) # dnums s ?d (Suc i) (min 4 m)"
      using i(1) by (intro dnums_Cons) simp
    note ck = check_one [OF assms(1-3) True Suc.prems(1)]
    have u: "nat (lblk s ?d i) - 192 \<notin> bm_set b" using Suc.prems(5) c by simp
    have "min 4 m - i = Suc (min 4 m - Suc i)" using i(1) True by simp
    moreover have "distinct (dnums s ?d (Suc i) (min 4 m))"
      "set (dnums s ?d (Suc i) (min 4 m)) \<inter> bm_set (bm_put b (nat (lblk s ?d i) - 192) True) = {}"
      using Suc.prems(4,5) c ck(5) [OF u] by auto
    ultimately show ?thesis
      using Suc.hyps(1) [OF i(2), of "bm_put b (nat (lblk s ?d i) - 192) True" "sz + 512"] i(1) True ck [OF u] l c
      by (simp add: check_direct.simps [of i] algebra_simps)
  next
    case False
    then have "lblk s ?d i = 0" "m = i" using imap_okD(4) [OF assms(2), of i] i(1) Suc.prems(3) by simp_all
    then show ?thesis using i(1) l by (simp add: check_direct.simps [of i])
  qed
qed

lemma check_indirect_eq:
  assumes "fs_ok N s" "imap_ok s d m" "csums_ok s d m" "4 < m" "map_ok 8192 b"
    and "4 + i \<le> m" "distinct (dnums s d (4 + i) m)" "set (dnums s d (4 + i) m) \<inter> bm_set b = {}"
  shows "check_indirect i sz (dblk s (nat (i_indirect d))) b s =
    Inr (sz + 512 * int (m - (4 + i)), mark_all (dnums s d (4 + i) m) b, s)"
  using assms(5-8)
proof (induction "128 - i" arbitrary: i sz b)
  case 0
  then have "m = 4 + i" "i = 128" using imap_okD(1) [OF assms(2)] by simp_all
  then show ?case by (simp add: check_indirect.simps [of 128])
next
  case (Suc k)
  have i: "i < 128" "k = 128 - Suc i" using Suc.hyps(2) by simp_all
  have l: "int_at (dblk s (nat (i_indirect d))) i = lblk s d (4 + i)"
    using imap_okD(3) [OF assms(2)] assms(4) by (simp add: lblk_def)
  show ?case
  proof (cases "4 + i < m")
    case True
    note c = dnums_Cons [OF True, of s d]
    note ck = check_one [OF assms(1-3) True Suc.prems(1)]
    have u: "nat (lblk s d (4 + i)) - 192 \<notin> bm_set b" using Suc.prems(4) c by simp
    have "m - (4 + i) = Suc (m - (4 + Suc i))" using True by simp
    moreover have "distinct (dnums s d (4 + Suc i) m)"
      "set (dnums s d (4 + Suc i) m) \<inter> bm_set (bm_put b (nat (lblk s d (4 + i)) - 192) True) = {}"
      using Suc.prems(3,4) c ck(5) [OF u] by auto
    ultimately show ?thesis
      using Suc.hyps(1) [OF i(2), of "bm_put b (nat (lblk s d (4 + i)) - 192) True" "sz + 512"] i(1) True ck [OF u] l c
      by (simp add: check_indirect.simps [of i] algebra_simps)
  next
    case False
    then have "lblk s d (4 + i) = 0" "m = 4 + i" using imap_okD(4) [OF assms(2), of "4 + i"] i(1) Suc.prems(2) by simp_all
    then show ?thesis using i(1) l by (simp add: check_indirect.simps [of i])
  qed
qed

text \<open>The numbers of the data blocks of an inode.\<close>

definition bnrs :: "'d fsys \<Rightarrow> dinode \<Rightarrow> nat set" where
  "bnrs s d = (\<lambda>x. nat x - 192) ` blocks_of s d"


lemma bnrs_eq:
  assumes "inode_good s d"
  defines "m \<equiv> nblocks (nat (i_size d))"
  shows "bnrs s d = set (dnums s d 0 m) \<union> (if 4 < m then {nat (i_indirect d) - 192} else {})"
    "distinct (dnums s d 0 m)" "4 < m \<Longrightarrow> nat (i_indirect d) - 192 \<notin> set (dnums s d 0 m)"
    "bnrs s d \<subseteq> {..< 7680}" "bnrs s d = {} \<longleftrightarrow> m = 0" "blocks_of s d = (\<lambda>k. 192 + int k) ` bnrs s d"
proof -
  have im: "imap_ok s d m" using assms(1) by (simp add: inode_good_def file_ok_def m_def)
  have l: "192 \<le> lblk s d i" "lblk s d i < 192 + 7680" if "i < m" for i
    by (rule lblk_mapped [OF im that]; simp)+
  have x: "192 \<le> i_indirect d" "i_indirect d < 192 + 7680" if "4 < m"
    by (rule indirect_mapped [OF im that]; simp)+
  show b: "bnrs s d = set (dnums s d 0 m) \<union> (if 4 < m then {nat (i_indirect d) - 192} else {})"
    by (auto simp: bnrs_def blocks_of_def iblks_def dnums_def m_def)
  show "distinct (dnums s d 0 m)"
  proof -
    have "i = j" if "i < m" "j < m" "nat (lblk s d i) - 192 = nat (lblk s d j) - 192" for i j
    proof -
      have "lblk s d i = lblk s d j" using l(1) [OF that(1)] l(1) [OF that(2)] that(3) by linarith
      then show ?thesis using imap_okD(5) [OF im that(1,2)] by simp
    qed
    then show ?thesis by (simp add: dnums_def distinct_map inj_on_def)
  qed
  show "nat (i_indirect d) - 192 \<notin> set (dnums s d 0 m)" if "4 < m"
  proof -
    have "nat (lblk s d i) - 192 \<noteq> nat (i_indirect d) - 192" if "i < m" for i
      using imap_okD(6) [OF im \<open>4 < m\<close> that] l(1) [OF that] x(1) [OF \<open>4 < m\<close>] by linarith
    then show ?thesis by (fastforce simp: dnums_def)
  qed
  have "nat (lblk s d i) - 192 < 7680" if "i < m" for i using l [OF that] by linarith
  then show "bnrs s d \<subseteq> {..< 7680}" unfolding b using x by (auto simp: dnums_def)
  show "bnrs s d = {} \<longleftrightarrow> m = 0" unfolding b by (auto simp: dnums_def)
  have "192 + int (nat (lblk s d i) - 192) = lblk s d i" if "i < m" for i using l [OF that] by linarith
  then have "192 + int (nat v - 192) = v" if "v \<in> blocks_of s d" for v
    using that x by (auto simp: blocks_of_def iblks_def m_def split: if_splits)
  then show "blocks_of s d = (\<lambda>k. 192 + int k) ` bnrs s d" by (force simp: bnrs_def)
qed

lemma check_inode_eq:
  assumes "fs_ok N s" "inode_good s (i_in a)" "map_ok 8192 b" "bnrs s (i_in a) \<inter> bm_set b = {}"
  shows "\<exists>b'. testfs_check_inode a b s = Inr (ROUNDUP (i_size (i_in a)) BLOCK_SIZE, b', s) \<and> map_ok 8192 b' \<and>
    bm_set b' = bm_set b \<union> bnrs s (i_in a)"
proof -
  let ?d = "i_in a"
  define m where "m = nblocks (nat (i_size ?d))"
  have im: "imap_ok s ?d m" and cs: "csums_ok s ?d m" and sz: "0 \<le> i_size ?d"
    using assms(2) by (simp_all add: inode_good_def file_ok_def m_def)
  note bn = bnrs_eq [OF assms(2), folded m_def]
  have r: "ROUNDUP (i_size ?d) 512 = 512 * int m"
    using DIVROUNDUP_nblocks [of "nat (i_size ?d)"] sz by (simp add: ROUNDUP_def m_def)
  have di: "set (dnums s ?d 0 m) \<inter> bm_set b = {}" using assms(4) bn(1) by auto
  have rg: "set (dnums s ?d 0 m) \<subseteq> {..< 8192}" using bn(1,4) by auto
  show ?thesis
  proof (cases "4 < m")
    case False
    then have "check_direct 0 0 a b s = Inr (512 * int m, m < 4, mark_all (dnums s ?d 0 m) b, s)"
      using check_direct_eq [OF assms(1) im cs assms(3), of 0 0] bn(2) di by (simp add: min_def)
    then show ?thesis
      using False imap_okD(3) [OF im] mark_all_ok [OF assms(3) rg] bn(1) r by (auto simp: testfs_check_inode_def)
  next
    case True
    let ?b = "mark_all (dnums s ?d 0 4) b" and ?i = "nat (i_indirect ?d) - 192"
    let ?b' = "bm_put ?b ?i True"
    have sp: "dnums s ?d 0 m = dnums s ?d 0 4 @ dnums s ?d 4 m" using True by (intro dnums_append) simp_all
    have d4: "check_direct 0 0 a b s = Inr (2048, False, ?b, s)"
      using check_direct_eq [OF assms(1) im cs assms(3), of 0 0] True bn(2) di sp by (auto simp: min_def)
    have b4: "map_ok 8192 ?b" "bm_set ?b = bm_set b \<union> set (dnums s ?d 0 4)"
      using mark_all_ok [OF assms(3), of "dnums s ?d 0 4"] rg sp by auto
    obtain k where k: "i_indirect ?d = 192 + int k" "k < 7680" using indirect_mapped [OF im True] by auto
    then have ik: "?i = k" by (simp add: nat_add_distrib)
    have "k \<notin> bm_set ?b" using bn(1,3) True assms(4) b4(2) sp ik by auto
    with map_ok_put [OF b4(1), of k] k(2)
    have b5: "bitmap_mark ?b (word_of_int (i_indirect ?d - data_blocks_start (dsb s))) = Inr ?b'" "map_ok 8192 ?b'"
      "bm_set ?b' = insert ?i (bm_set ?b)"
      using fs_okD(4) [OF assms(1)] unfolding ik by (simp_all add: k(1) std_dsb_def)
    have rd: "read_blocks s (i_indirect ?d) 1 = Inr (dblk s (nat (i_indirect ?d)))"
      using read_block [OF fs_okD(1) [OF assms(1)], of "i_indirect ?d"] fs_okD(2) [OF assms(1)] k by simp
    have "distinct (dnums s ?d 4 m)" "set (dnums s ?d 4 m) \<inter> bm_set ?b' = {}"
      using bn(2,3) True di b4(2) b5(3) sp by auto
    then have ci: "check_indirect 0 2048 (dblk s (nat (i_indirect ?d))) ?b' s =
        Inr (512 * int m, mark_all (dnums s ?d 4 m) ?b', s)"
      using check_indirect_eq [OF assms(1) im cs True b5(2), of 0 2048] True by (simp add: of_nat_diff algebra_simps)
    have "map_ok 8192 (mark_all (dnums s ?d 4 m) ?b')" "bm_set (mark_all (dnums s ?d 4 m) ?b') = bm_set b \<union> bnrs s ?d"
      using mark_all_ok [OF b5(2), of "dnums s ?d 4 m"] rg sp b4(2) b5(3) bn(1) True by auto
    then show ?thesis
      using d4 b5(1) rd ci r imap_okD(3) [OF im] True by (simp add: testfs_check_inode_def)
  qed
qed

section \<open>The walk\<close>

text \<open>
  \<open>visits F es js n\<close>: the entries \<open>es\<close> of a directory on the volume \<open>F\<close> lead to the numbers \<open>js\<close>, in the order
  of the walk, which takes fuel \<open>n\<close>.
\<close>

inductive visits :: "(nat \<Rightarrow> (inode_type \<times> byte list) option) \<Rightarrow> dirent list \<Rightarrow> nat list \<Rightarrow> nat \<Rightarrow> bool"
  for F where
  none: "visits F [] [] 1"
| skip: "dead_entry d \<Longrightarrow> visits F es js n \<Longrightarrow> visits F (d # es) js (Suc n)"
| leaf: "\<not> dead_entry d \<Longrightarrow> d_inode_nr d = int j \<Longrightarrow> F j = Some (I_FILE, x) \<Longrightarrow> visits F es js n \<Longrightarrow>
    visits F (d # es) (j # js) (Suc n)"
| sub: "\<not> dead_entry d \<Longrightarrow> d_inode_nr d = int j \<Longrightarrow> F j = Some (I_DIR, dir_bytes cs) \<Longrightarrow> list_all dirent_ok cs \<Longrightarrow>
    visits F cs js' n' \<Longrightarrow> visits F es js n \<Longrightarrow> visits F (d # es) (j # js' @ js) (Suc (max (Suc n') n))"

lemma visits_fuel: "visits F es js n \<Longrightarrow> 0 < n"
  by (induction rule: visits.induct) simp_all

text \<open>The walk changes nothing but the order of the hash chains.\<close>

definition quiet :: "nat \<Rightarrow> 'd world \<Rightarrow> 'd world \<Rightarrow> bool" where
  "quiet N w w' \<longleftrightarrow> vol_ok N w' \<and> w_fs w' = w_fs w \<and> w_inodes w' = w_inodes w \<and> w_sb w' = w_sb w"

lemma quiet_refl: "vol_ok N w \<Longrightarrow> quiet N w w"
  by (simp add: quiet_def)

lemma quiet_trans: "quiet N w w' \<Longrightarrow> quiet N w' w'' \<Longrightarrow> quiet N w w''"
  by (simp add: quiet_def)

lemma quiet_cur:
  assumes "vol_ok N w" "quiet N w w'"
  shows "cur w' = cur w" "files w' = files w" "all_clean w \<Longrightarrow> all_clean w'" "dir_at N w p k es \<Longrightarrow> dir_at N w' p k es"
proof -
  note q = assms(2) [unfolded quiet_def]
  show c: "cur w' = cur w"
    by (rule ext, rule cur_cong) (use vol_okD(1) [OF assms(1)] vol_okD(1) [of True N w'] q in simp_all)
  then show f: "files w' = files w" using q by (simp add: files_def fun_eq_iff)
  show "all_clean w \<Longrightarrow> all_clean w'" using q by (simp add: all_clean_def)
  show "dir_at N w p k es \<Longrightarrow> dir_at N w' p k es" using q f by (simp add: dir_at_def)
qed

lemma got_cur:
  assumes "vol_ok N w" "vol_ok N w'" "got w k p a w'"
  shows "cur w' = cur w"
proof
  fix j
  note g = assms(3) [unfolded got_def]
  note c = vol_okD(1) [OF assms(1)] vol_okD(1) [OF assms(2)]
  show "cur w' j = cur w j"
  proof (cases "j = k")
    case True
    then show ?thesis using cur_cached [OF c(2), of p a k] g by simp
  next
    case False
    have "i_nr b = int k" if "w_inodes w p = Some b" for b using g that by auto
    then show ?thesis using g by (intro cur_other [OF c False, of p "Some a"]) auto
  qed
qed

lemma look_for:
  assumes v: "vol_ok N w" and cl: "all_clean w" and k: "j \<in> iused (w_fs w)"
  shows "\<exists>q b w1. testfs_get_inode (int j) w = Inr (q, w1) \<and> vol_ok N w1 \<and> all_clean w1 \<and> w_inodes w1 q = Some b \<and>
    i_nr b = int j \<and> i_in b = cur w j \<and> cur w1 = cur w \<and> files w1 = files w \<and> w_fs w1 = w_fs w \<and>
    (\<forall>w2. quiet N w1 w2 \<longrightarrow> (\<exists>w3. testfs_put_inode q w2 = Inr w3 \<and> quiet N w w3))"
proof -
  obtain q b w1 where g: "testfs_get_inode (int j) w = Inr (q, w1)" "got w j q b w1" "vol_ok N w1" "files w1 = files w"
    using vol_get [OF v k] by blast
  note g' = g(2) [unfolded got_def]
  have "clean_at w j" using cl by (simp add: all_clean_def clean_at_def)
  then have cb: "\<not> has_flag b I_FLAGS_DIRTY" using got_clean g(2) by blast
  have "all_clean w1" using cl cb g' by (auto simp: all_clean_def)
  moreover have "\<exists>w3. testfs_put_inode q w2 = Inr w3 \<and> quiet N w w3" if "quiet N w1 w2" for w2
    using vol_put_back [OF v g(2), of w2] cb that g' by (auto simp: quiet_def)
  ultimately show ?thesis using g got_cur [OF v g(3,2)] g' by (intro exI [of _ q] exI [of _ b] exI [of _ w1]) simp
qed

definition blks :: "'d world \<Rightarrow> nat \<Rightarrow> nat set" where
  "blks w j = bnrs (w_fs w) (cur w j)"

lemma blks_disjoint:
  assumes "vol_ok N w" "j \<in> iused (w_fs w)" "k \<in> iused (w_fs w)" "j \<noteq> k"
  shows "blks w j \<inter> blks w k = {}"
proof -
  have b: "blocks_of (w_fs w) (cur w i) = (\<lambda>k. 192 + int k) ` blks w i" if "i \<in> iused (w_fs w)" for i
    unfolding blks_def by (rule bnrs_eq(6) [OF vol_okD(5) [OF assms(1) that]])
  show ?thesis using vol_okD(6) [OF assms] unfolding b [OF assms(2)] b [OF assms(3)] by blast
qed

lemma quiet_blks: "vol_ok N w \<Longrightarrow> quiet N w w' \<Longrightarrow> blks w' = blks w"
  using quiet_cur(1) [of N w w'] by (simp add: blks_def fun_eq_iff quiet_def)

text \<open>What the walk has to find in the bitmaps, and what it leaves there.\<close>

definition todo :: "'d world \<Rightarrow> nat list \<Rightarrow> bitmap \<Rightarrow> bitmap \<Rightarrow> bool" where
  "todo w js i b \<longleftrightarrow> map_ok 4096 i \<and> map_ok 8192 b \<and> distinct js \<and> set js \<subseteq> dom (files w) \<and> set js \<inter> bm_set i = {} \<and>
     (\<forall>j \<in> set js. blks w j \<inter> bm_set b = {})"

definition marked :: "'d world \<Rightarrow> nat list \<Rightarrow> bitmap \<Rightarrow> bitmap \<Rightarrow> bitmap \<Rightarrow> bitmap \<Rightarrow> bool" where
  "marked w js i b i' b' \<longleftrightarrow> map_ok 4096 i' \<and> map_ok 8192 b' \<and> bm_set i' = bm_set i \<union> set js \<and>
     bm_set b' = bm_set b \<union> (\<Union>j \<in> set js. blks w j)"

lemma dom_files: "dom (files w) = iused (w_fs w)"
  by (auto simp: files_def split: if_splits)

lemma todo_split:
  assumes "vol_ok N w" "todo w (js @ ks) i b"
  shows "todo w js i b" "marked w js i b i' b' \<Longrightarrow> todo w ks i' b'"
proof -
  note t = assms(2) [unfolded todo_def]
  show "todo w js i b" using t by (auto simp: todo_def)
  assume m: "marked w js i b i' b'"
  have "blks w j \<inter> blks w k = {}" if "j \<in> set js" "k \<in> set ks" for j k
    using blks_disjoint [OF assms(1), of j k] t that by (auto simp: dom_files)
  then show "todo w ks i' b'" using t m unfolding todo_def marked_def by auto
qed

lemma marked_trans: "marked w js i b i1 b1 \<Longrightarrow> marked w ks i1 b1 i2 b2 \<Longrightarrow> marked w (js @ ks) i b i2 b2"
  by (auto simp: marked_def)

lemma marked_nil: "todo w [] i b \<Longrightarrow> marked w [] i b i b"
  by (simp add: marked_def todo_def)

lemma todo_cong: "vol_ok N w \<Longrightarrow> quiet N w w' \<Longrightarrow> todo w' js i b = todo w js i b"
  using quiet_cur(2) quiet_blks by (fastforce simp: todo_def)

lemma marked_cong: "vol_ok N w \<Longrightarrow> quiet N w w' \<Longrightarrow> marked w' js i b i' b' = marked w js i b i' b'"
  by (simp add: marked_def quiet_blks)

lemma checkfs_inode:
  fixes w :: "'d world"
  assumes v: "vol_ok N w" "all_clean w" and f: "files w j = Some (t, x)" and t: "todo w (j # js) i b"
    and ty: "t = I_FILE \<and> js = [] \<or> t = I_DIR \<and> x = dir_bytes cs \<and> list_all dirent_ok cs"
    and sub: "\<And>(w1 :: 'd world) q i1. t = I_DIR \<Longrightarrow> dir_at N w1 q j cs \<Longrightarrow> all_clean w1 \<Longrightarrow> files w1 = files w \<Longrightarrow> todo w1 js i1 b \<Longrightarrow>
      \<exists>i2 b2 w2. check_entries fuel i1 b q 0 w1 = Inr (i2, b2, w2) \<and> quiet N w1 w2 \<and> marked w1 js i1 b i2 b2"
  shows "\<exists>i' b' w'. testfs_checkfs (Suc fuel) i b (int j) w = Inr (i', b', w') \<and> quiet N w w' \<and>
    marked w (j # js) i b i' b'"
proof -
  obtain q a w1 where g: "testfs_get_inode (int j) w = Inr (q, w1)" "vol_ok N w1" "all_clean w1" "w_inodes w1 q = Some a"
    "i_nr a = int j" "i_in a = cur w j" "cur w1 = cur w" "files w1 = files w" "w_fs w1 = w_fs w"
    "\<And>w2. quiet N w1 w2 \<Longrightarrow> \<exists>w3. testfs_put_inode q w2 = Inr w3 \<and> quiet N w w3"
    using look_for [OF v files_in [OF f]] by blast
  have j: "j < 4096" "j \<in> iused (w_fs w)" using vol_okD(3) [OF v(1) files_in [OF f]] files_in [OF f] by simp_all
  note td = t [unfolded todo_def]
  have bl: "blks w1 = blks w" using g(7,9) by (simp add: blks_def fun_eq_iff)
  let ?i = "bm_put i j True"
  have mi: "map_ok 4096 ?i" "bm_set ?i = insert j (bm_set i)" "bitmap_mark i (word_of_int (int j)) = Inr ?i"
    using map_ok_put [OF _ j(1), of i] td by auto
  have dr: "deref q w1 = Inr a" by (rule deref_eq [OF vol_okD(1) [OF g(2)] g(4)])
  have tya: "i_type (i_in a) = t" using files_at(1) [OF g(2,4,5)] f g(8) by simp
  have td1: "todo w1 js ?i b" using td mi g(8) bl by (auto simp: todo_def)
  have "\<exists>i2 b2 w2. (if t = I_DIR then check_entries fuel ?i b q 0 w1 else Inr (?i, b, w1)) = Inr (i2, b2, w2) \<and>
    quiet N w1 w2 \<and> marked w1 js ?i b i2 b2"
  proof (cases "t = I_DIR")
    case True
    have "dir_at N w1 q j cs" using g f ty True by (simp add: dir_at_def)
    from sub [OF True this g(3,8) td1] show ?thesis using True by simp
  next
    case False
    then show ?thesis using ty td1 marked_nil [of w1 ?i b] quiet_refl [OF g(2)] by simp
  qed
  then obtain i2 b2 w2 where e: "(if t = I_DIR then check_entries fuel ?i b q 0 w1 else Inr (?i, b, w1)) = Inr (i2, b2, w2)"
    "quiet N w1 w2" "marked w1 js ?i b i2 b2" by blast
  note qu = e(2) [unfolded quiet_def] and mk = e(3) [unfolded marked_def bl]
  have ds: "deref_sb q w2 = Inr a" using deref_sb_eq [of w2 q a] vol_okD(1) [of True N w2] qu g(4) by simp
  have "blks w j \<inter> blks w k = {}" if "k \<in> set js" for k
    using blks_disjoint [OF v(1), of j k] td that by (auto simp: dom_files)
  then have "bnrs (w_fs w2) (i_in a) \<inter> bm_set b2 = {}" using td mk g(6,9) qu by (auto simp: blks_def)
  then obtain b3 where b3: "testfs_check_inode a b2 (w_fs w2) = Inr (ROUNDUP (i_size (i_in a)) BLOCK_SIZE, b3, w_fs w2)"
    "map_ok 8192 b3" "bm_set b3 = bm_set b2 \<union> bnrs (w_fs w2) (i_in a)"
    using check_inode_eq [of N "w_fs w2" a b2] vol_okD(2) [of True N w2] files_at(2) [OF g(2,4,5)] mk qu by auto
  have sw: "set_fs (w_fs w2) w2 = w2" by (simp add: set_fs_def)
  obtain w3 where w3: "testfs_put_inode q w2 = Inr w3" "quiet N w w3" using g(10) [OF e(2)] by blast
  have "testfs_checkfs (Suc fuel) i b (int j) w = Inr (i2, b3, w3)"
    using g(1) dr tya mi(3) ty e(1) ds b3(1) w3(1)
    by (auto simp: testfs_inode_get_size_def testfs_inode_get_type_def Let_def sw)
  moreover have "marked w (j # js) i b i2 b3"
    using mk mi(2) b3(2,3) g(6,9) qu by (auto simp: marked_def blks_def)
  ultimately show ?thesis using w3(2) by blast
qed

declare testfs_checkfs.simps [simp del]

lemma visits_dom: "visits F es js n \<Longrightarrow> set js \<subseteq> dom F"
  by (induction rule: visits.induct) auto

lemma check_entries_eq:
  fixes w :: "'d world"
  assumes "visits F vs js n" "F = files w" "dir_at N w p k (us @ vs)" "all_clean w" "todo w js i b" "n \<le> fuel"
  shows "\<exists>i' b' w'. check_entries fuel i b p (off us) w = Inr (i', b', w') \<and> quiet N w w' \<and> marked w js i b i' b'"
  using assms
proof (induction arbitrary: w p k us i b fuel rule: visits.induct)
  case none
  obtain m where m: "fuel = Suc m" using none(5) by (cases fuel) auto
  have "dir_at N w p k us" using none(2) by simp
  from scan_end [OF dir_scans [OF this]] show ?case
    using m marked_nil [OF none(4)] quiet_refl [OF dir_fields(1) [OF none(2)]] by simp
next
  case (skip d es js n)
  obtain m where m: "fuel = Suc m" "n \<le> m" using skip(8) by (cases fuel) auto
  note st = scan_step [OF dir_scans [OF skip(5)] refl]
  from skip(3) [OF skip(4), of p k "us @ [d]" i b m] show ?case
    using skip(1,5-7) st skip_entry_eq [OF st(2)] m by simp
next
  case (leaf d j x es js n)
  obtain m where m: "fuel = Suc (Suc m)" "n \<le> Suc m"
    using leaf(10) visits_fuel [OF leaf(4)] by (cases fuel; cases "fuel - 1") auto
  note st = scan_step [OF dir_scans [OF leaf(7)] refl]
  note v = dir_fields(1) [OF leaf(7)]
  have td: "todo w ([j] @ js) i b" using leaf(9) by simp
  have f: "files w j = Some (I_FILE, x)" using leaf(3,6) by simp
  obtain i1 b1 w1 where w1: "testfs_checkfs (Suc m) i b (int j) w = Inr (i1, b1, w1)" "quiet N w w1" "marked w [j] i b i1 b1"
    using checkfs_inode [OF v leaf(8) f, of "[]" i b _ m] todo_split(1) [OF v td] by auto
  have "todo w1 js i1 b1" using todo_split(2) [OF v td w1(3)] by (simp add: todo_cong [OF v w1(2)])
  moreover have "F = files w1" using leaf(6) quiet_cur(2) [OF v w1(2)] by simp
  moreover have "dir_at N w1 p k ((us @ [d]) @ es)" using quiet_cur(4) [OF v w1(2) leaf(7)] by simp
  moreover note quiet_cur(3) [OF v w1(2) leaf(8)]
  ultimately obtain i2 b2 w2 where w2: "check_entries (Suc m) i1 b1 p (off (us @ [d])) w1 = Inr (i2, b2, w2)" "quiet N w1 w2"
    "marked w1 js i1 b1 i2 b2" using leaf(5) [of w1 p k "us @ [d]" i1 b1 "Suc m"] m(2) by blast
  have "marked w (j # js) i b i2 b2" using marked_trans [OF w1(3)] w2(3) marked_cong [OF v w1(2)] by fastforce
  then show ?case
    using st(1) skip_entry_eq [OF st(2)] leaf(1,2) w1(1) w2(1) m(1) quiet_trans [OF w1(2) w2(2)] by simp
next
  case (sub d j cs js' n' es js n)
  obtain m where m: "fuel = Suc (Suc m)" "n' \<le> m" "n \<le> Suc m"
    using sub(13) visits_fuel [OF sub(6)] by (cases fuel; cases "fuel - 1") auto
  note st = scan_step [OF dir_scans [OF sub(10)] refl]
  note v = dir_fields(1) [OF sub(10)]
  have td: "todo w ((j # js') @ js) i b" using sub(12) by simp
  have f: "files w j = Some (I_DIR, dir_bytes cs)" using sub(3,9) by simp
  have rec: "\<exists>i2 b2 w2. check_entries m i1 b1 q 0 w1 = Inr (i2, b2, w2) \<and> quiet N w1 w2 \<and> marked w1 js' i1 b1 i2 b2"
    if "dir_at N w1 q j cs" "all_clean w1" "files w1 = files w" "todo w1 js' i1 b1" for w1 :: "'d world" and q i1 b1
    using sub(7) [of w1 q j "[]" i1 b1 m] that sub(9) m(2) by (simp add: off_def)
  obtain i1 b1 w1 where w1: "testfs_checkfs (Suc m) i b (int j) w = Inr (i1, b1, w1)" "quiet N w w1"
    "marked w (j # js') i b i1 b1"
    using checkfs_inode [OF v sub(11) f, of js' i b cs m] todo_split(1) [OF v td] sub(4) rec by auto
  have "todo w1 js i1 b1" using todo_split(2) [OF v td w1(3)] by (simp add: todo_cong [OF v w1(2)])
  moreover have "F = files w1" using sub(9) quiet_cur(2) [OF v w1(2)] by simp
  moreover have "dir_at N w1 p k ((us @ [d]) @ es)" using quiet_cur(4) [OF v w1(2) sub(10)] by simp
  moreover note quiet_cur(3) [OF v w1(2) sub(11)]
  ultimately obtain i2 b2 w2 where w2: "check_entries (Suc m) i1 b1 p (off (us @ [d])) w1 = Inr (i2, b2, w2)" "quiet N w1 w2"
    "marked w1 js i1 b1 i2 b2" using sub(8) [of w1 p k "us @ [d]" i1 b1 "Suc m"] m(3) by blast
  have "marked w (j # js' @ js) i b i2 b2" using marked_trans [OF w1(3)] w2(3) marked_cong [OF v w1(2)] by fastforce
  then show ?case
    using st(1) skip_entry_eq [OF st(2)] sub(1,2) w1(1) w2(1) m(1) quiet_trans [OF w1(2) w2(2)] by simp
qed

section \<open>The command\<close>

text \<open>The files that the walk does not find, and the report.\<close>

definition lost :: "(nat \<Rightarrow> (inode_type \<times> byte list) option) \<Rightarrow> nat list \<Rightarrow> nat set" where
  "lost F js = dom F - insert 0 (set js)"

definition report_if :: "bool \<Rightarrow> message \<Rightarrow> message list" where
  "report_if b m = (if b then [m] else [])"

text \<open>The data blocks of a file and its indirect block.\<close>

definition file_blocks :: "inode_type \<times> byte list \<Rightarrow> nat" where
  "file_blocks f = needs 0 (nblocks (length (snd f)))"

definition check_report :: "(nat \<Rightarrow> (inode_type \<times> byte list) option) \<Rightarrow> nat list \<Rightarrow> message list" where
  "check_report F js =
     report_if (lost F js \<noteq> {}) InodeFreemapNotConsistent @
     report_if (\<not> (\<forall>j \<in> lost F js. snd (the (F j)) = [])) BlockFreemapNotConsistent @
     [NrAllocatedInodes (int (card (dom F))), NrAllocatedBlocks (int (\<Sum>j \<in> dom F. file_blocks (the (F j))))]"

lemma blks_empty:
  assumes "vol_ok N w" "j \<in> dom (files w)"
  shows "blks w j = {} \<longleftrightarrow> snd (the (files w j)) = []"
proof -
  have j: "j \<in> iused (w_fs w)" using assms(2) by (simp add: dom_files)
  have g: "inode_good (w_fs w) (cur w j)" using vol_okD(5) [OF assms(1) j] .
  have "nblocks (nat (i_size (cur w j))) = 0 \<longleftrightarrow> nat (i_size (cur w j)) = 0"
    using nblocks_less [of 0 "nat (i_size (cur w j))"] by linarith
  then show ?thesis
    using bnrs_eq(5) [OF g] j length_0_conv [of "contents (w_fs w) (cur w j)"] by (simp add: blks_def files_def)
qed

lemma used_blks:
  assumes "vol_ok N w"
  shows "used (w_fs w) = (\<Union>j \<in> dom (files w). blks w j)"
proof -
  let ?f = "\<lambda>k :: nat. 192 + int k"
  have "blocks_of (w_fs w) (cur w i) = ?f ` blks w i" if "i \<in> iused (w_fs w)" for i
    unfolding blks_def by (rule bnrs_eq(6) [OF vol_okD(5) [OF assms that]])
  then have "?f ` used (w_fs w) = ?f ` (\<Union>j \<in> iused (w_fs w). blks w j)"
    using vol_okD(8) [OF assms] by (simp add: ablocks_def image_UN)
  moreover have "inj ?f" by (simp add: inj_on_def)
  ultimately show ?thesis by (simp add: inj_image_eq_iff dom_files)
qed

lemma card_blks:
  assumes "vol_ok N w" "j \<in> dom (files w)"
  shows "card (blks w j) = file_blocks (the (files w j))" "finite (blks w j)"
proof -
  have j: "j \<in> iused (w_fs w)" using assms(2) by (simp add: dom_files)
  have g: "inode_good (w_fs w) (cur w j)" using vol_okD(5) [OF assms(1) j] .
  note b = bnrs_eq(1-3) [OF g]
  show "finite (blks w j)" unfolding blks_def b(1) by simp
  have "card (set (dnums (w_fs w) (cur w j) 0 m)) = m" if "distinct (dnums (w_fs w) (cur w j) 0 m)" for m
    using distinct_card [OF that] by (simp add: dnums_def)
  then have "card (blks w j) = needs 0 (nblocks (nat (i_size (cur w j))))"
    using b by (simp add: blks_def needs_eq)
  then show "card (blks w j) = file_blocks (the (files w j))" using j by (simp add: files_def file_blocks_def)
qed

text \<open>No block is lost: the blocks in use are those the files need.\<close>

lemma used_count:
  assumes v: "vol_ok N w"
  shows "card (used (w_fs w)) = (\<Sum>j \<in> dom (files w). file_blocks (the (files w j)))"
    "nfree (w_fs w) + (\<Sum>j \<in> dom (files w). file_blocks (the (files w j))) = 7680"
proof -
  have fd: "finite (dom (files w))"
    using finite_subset [of "iused (w_fs w)" "{..< NR_INODES}"] vol_okD(3) [OF v] by (auto simp: dom_files)
  have "card (used (w_fs w)) = (\<Sum>j \<in> dom (files w). card (blks w j))"
    unfolding used_blks [OF v]
    by (rule card_UN_disjoint) (use fd card_blks(2) [OF v] blks_disjoint [OF v] in \<open>auto simp: dom_files\<close>)
  then show c: "card (used (w_fs w)) = (\<Sum>j \<in> dom (files w). file_blocks (the (files w j)))"
    using card_blks(1) [OF v] by simp
  have "used (w_fs w) \<subseteq> {..< 7680}"
    using used_blks [OF v] bnrs_eq(4) [OF vol_okD(5) [OF v]] by (force simp: blks_def dom_files)
  then have "card ({..< 7680} - used (w_fs w)) + card (used (w_fs w)) = 7680"
    using card_Diff_subset [of "used (w_fs w)" "{..< 7680}"] card_mono [of "{..< 7680}" "used (w_fs w)"]
    by (simp add: finite_subset)
  then show "nfree (w_fs w) + (\<Sum>j \<in> dom (files w). file_blocks (the (files w j))) = 7680" using c by (simp add: nfree_def)
qed

lemma UN_disjoint_rest:
  assumes "\<And>j k. j \<in> F \<Longrightarrow> k \<in> L \<Longrightarrow> B j \<inter> B k = {}"
  shows "(\<Union>j \<in> F \<union> L. B j) = (\<Union>j \<in> F. B j) \<longleftrightarrow> (\<forall>k \<in> L. B k = {})"
proof
  assume u: "(\<Union>j \<in> F \<union> L. B j) = (\<Union>j \<in> F. B j)"
  show "\<forall>k \<in> L. B k = {}"
  proof
    fix k assume k: "k \<in> L"
    then have "B k \<subseteq> (\<Union>j \<in> F. B j)" unfolding u [symmetric] by blast
    moreover have "(\<Union>j \<in> F. B j) \<inter> B k = {}" using assms k by blast
    ultimately show "B k = {}" by blast
  qed
qed auto

lemma found_blocks:
  assumes v: "vol_ok N w" and s: "insert 0 (set js) \<subseteq> dom (files w)"
  shows "used (w_fs w) = (\<Union>j \<in> insert 0 (set js). blks w j) \<longleftrightarrow> (\<forall>j \<in> lost (files w) js. snd (the (files w j)) = [])"
proof -
  let ?F = "insert 0 (set js)"
  have d: "dom (files w) = ?F \<union> lost (files w) js" using s unfolding lost_def by blast
  have "blks w j \<inter> blks w k = {}" if j: "j \<in> ?F" and k: "k \<in> lost (files w) js" for j k
  proof (rule blks_disjoint [OF v])
    show "j \<in> iused (w_fs w)" using j s unfolding dom_files by blast
    show "k \<in> iused (w_fs w)" using k unfolding lost_def dom_files by blast
    show "j \<noteq> k" using j k unfolding lost_def by blast
  qed
  then have "(\<Union>j \<in> ?F \<union> lost (files w) js. blks w j) = (\<Union>j \<in> ?F. blks w j) \<longleftrightarrow> (\<forall>j \<in> lost (files w) js. blks w j = {})"
    by (rule UN_disjoint_rest)
  moreover have "used (w_fs w) = (\<Union>j \<in> ?F \<union> lost (files w) js. blks w j)" unfolding d [symmetric] by (rule used_blks [OF v])
  ultimately have "used (w_fs w) = (\<Union>j \<in> ?F. blks w j) \<longleftrightarrow> (\<forall>j \<in> lost (files w) js. blks w j = {})"
    by (simp only:)
  also have "\<dots> \<longleftrightarrow> (\<forall>j \<in> lost (files w) js. snd (the (files w j)) = [])"
    by (rule ball_cong [OF refl], rule blks_empty [OF v]) (simp add: lost_def)
  finally show ?thesis .
qed

lemma created_map:
  assumes "n < 2 ^ 31"
  shows "\<exists>b. bitmap_create True True (word_of_nat n) = Inr (Inr b) \<and> map_ok n b \<and> bm_set b = {}"
proof -
  have "unat (word_of_nat n :: 32 word) = n" using assms by (simp add: unat_of_nat32)
  moreover have "unat (word_of_nat n :: 32 word) + 7 < 2 ^ 32" using assms calculation by simp
  from bitmap_create_ok [OF this] obtain b where "bitmap_create True True (word_of_nat n) = Inr (Inr b)"
    "bm_nbits b = word_of_nat n" "bm_wf b" "bm_set b = {}" by blast
  ultimately show ?thesis using assms by (simp add: map_ok_def)
qed

lemma printed_if:
  "printed ms N w w' \<Longrightarrow> printed (ms @ report_if b m) N w (print_if b m w')"
  using printed_trans [of ms N w w' "[m]" "print m w'"] printed_print [of N w' m] by (simp add: print_if_def report_if_def printed_def)

lemma cmd_checkfs_eq:
  assumes s: "session N c w k es" and n: "nargs c = 1" and f: "files w 0 = Some (I_DIR, dir_bytes rs)" "list_all dirent_ok rs"
    and vi: "visits (files w) rs js n" "distinct (0 # js)" "n < fuel"
  shows "\<exists>w'. cmd_checkfs fuel c w = Inr (0, c, w') \<and> session N c w' k es \<and> printed (check_report (files w) js) N w w'"
proof -
  note v = sessionD(6) [OF s]
  obtain m where m: "fuel = Suc m" "n \<le> m" using vi(3) by (cases fuel) auto
  obtain i b where ib: "bitmap_create True True 4096 = Inr (Inr i)" "map_ok 4096 i" "bm_set i = {}"
    "bitmap_create True True 8192 = Inr (Inr b)" "map_ok 8192 b" "bm_set b = {}"
    using created_map [of 4096] created_map [of 8192] by auto
  have jd: "insert 0 (set js) \<subseteq> dom (files w)" using visits_dom [OF vi(1)] f(1) by auto
  have td: "todo w (0 # js) i b" using ib jd vi(2) by (simp add: todo_def)
  have rec: "\<exists>i2 b2 w2. check_entries m i1 b q 0 w1 = Inr (i2, b2, w2) \<and> quiet N w1 w2 \<and> marked w1 js i1 b i2 b2"
    if "dir_at N w1 q 0 rs" "all_clean w1" "files w1 = files w" "todo w1 js i1 b" for w1 :: "'a world" and q i1
    using check_entries_eq [OF vi(1) that(3) [symmetric], of N q 0 "[]" i1 b m] that m(2) by (simp add: off_def)
  obtain i' b' w1 where w1: "testfs_checkfs fuel i b 0 w = Inr (i', b', w1)" "quiet N w w1" "marked w (0 # js) i b i' b'"
    using checkfs_inode [OF v session_clean [OF s] f(1) td, of rs m] f(2) rec m(1) by auto
  note q = w1(2) [unfolded quiet_def] and mk = w1(3) [unfolded marked_def ib(3,6)]
  note fs = fs_okD(6-11) [OF vol_okD(2) [OF v]] and ws = q [THEN conjunct2, THEN conjunct1]
  have ie: "bitmap_equal (imap (w_fs w)) i' = Inr (if lost (files w) js = {} then 1 else 0)"
    using bitmap_equal_count [OF fs(5), of i'] fs(6) mk jd
    by (auto simp: map_ok_def lost_def dom_files iused_def)
  have "used (w_fs w) = bm_set b' \<longleftrightarrow> (\<forall>j \<in> lost (files w) js. snd (the (files w j)) = [])"
    using found_blocks [OF v jd] mk by simp
  then have be: "bitmap_equal (bmap (w_fs w)) b' = Inr (if \<forall>j \<in> lost (files w) js. snd (the (files w j)) = [] then 1 else 0)"
    using bitmap_equal_count [OF fs(2), of b'] fs(3) mk by (simp add: map_ok_def used_def)
  have nr: "bitmap_nr_allocated (imap (w_fs w)) = Inr (int (card (dom (files w))))"
    "bitmap_nr_allocated (bmap (w_fs w)) = Inr (int (card (used (w_fs w))))"
    using bitmap_equal_count [OF fs(5) fs(5)] bitmap_equal_count [OF fs(2) fs(2)] by (simp_all add: dom_files iused_def used_def)
  note nb = used_count(1) [OF v]
  have p0: "printed [] N w w1" using w1(2) quiet_cur(2) [OF v w1(2)] by (simp add: quiet_def printed_def)
  let ?a = "print_if (lost (files w) js \<noteq> {}) InodeFreemapNotConsistent w1"
  let ?b = "print_if (\<not> (\<forall>j \<in> lost (files w) js. snd (the (files w j)) = [])) BlockFreemapNotConsistent ?a"
  let ?c = "print_if True (NrAllocatedInodes (int (card (dom (files w))))) ?b"
  let ?d = "print_if True (NrAllocatedBlocks (int (card (used (w_fs w))))) ?c"
  note pr = printed_if [where N = N and w = w]
  have "printed (check_report (files w) js) N w ?d"
    using pr [OF pr [OF pr [OF pr [OF p0, where b = "lost (files w) js \<noteq> {}" and m = InodeFreemapNotConsistent],
        where b = "\<not> (\<forall>j \<in> lost (files w) js. snd (the (files w j)) = [])" and m = BlockFreemapNotConsistent],
        where b = True and m = "NrAllocatedInodes (int (card (dom (files w))))"],
        where b = True and m = "NrAllocatedBlocks (int (card (used (w_fs w))))"]
    by (simp add: check_report_def report_if_def [of True] nb)
  moreover have "cmd_checkfs fuel c w = Inr (0, c, ?d)"
    using n ib(1,4) w1(1) fs(1,4) ie be nr unfolding ws [symmetric] by (simp add: cmd_checkfs_def print_if_def)
  ultimately show ?thesis using session_printed [OF s] by blast
qed

text \<open>
  C9.  \<open>checkfs\<close> on a volume whose invariant holds and where no two entries lead to the same file: it terminates with the
  fuel of the walk, aborts nowhere, changes nothing but the output, and reports the numbers of files and blocks in
  use.  The inode freemap is called inconsistent exactly if some file has no name, the block freemap exactly if such
  a file has contents; no checksum error is printed.
\<close>

theorem checkfs_correct:
  assumes "session N c w k es" "nargs c = 1" "files w 0 = Some (I_DIR, dir_bytes rs)" "list_all dirent_ok rs"
    and "visits (files w) rs js n" "distinct (0 # js)" "n < fuel"
  shows "\<exists>w'. cmd_checkfs fuel c w = Inr (0, c, w') \<and> session N c w' k es \<and> printed (check_report (files w) js) N w w'"
  by (rule cmd_checkfs_eq [OF assms])

lemma visits_empty_dir: "visits F (empty_dir j k) [] 3"
proof -
  have "dead_entry (new_dirent [46, 46] x)" "dead_entry (new_dirent [46] x)" for x by (simp_all add: dead_entry_def)
  then show ?thesis using visits.skip [OF _ visits.skip [OF _ visits.none]] by (simp add: empty_dir_def numeral_eq_Suc)
qed

theorem checkfs_correct_witness:
  "\<exists>(w :: ram_world) c w'. cmd_mkdir (start_ctx [97]) start_world = Inr (0, start_ctx [97], w) \<and>
     cmd_checkfs 8 c w = Inr (0, c, w') \<and> fs_out (w_fs w') = fs_out (w_fs w) @ [NrAllocatedInodes 2, NrAllocatedBlocks 2]"
proof -
  obtain w :: ram_world where w: "cmd_mkdir (start_ctx [97]) start_world = Inr (0, start_ctx [97], w)"
    "session 8192 (start_ctx [97]) w 0 (root_with 1)"
    "files w = [0 \<mapsto> (I_DIR, dir_bytes (root_with 1)), 1 \<mapsto> (I_DIR, dir_bytes (empty_dir 1 0))]"
    using start_mkdir by blast
  let ?c = "(start_ctx [97])\<lparr>nargs := 1\<rparr>"
  have s: "session 8192 ?c w 0 (root_with 1)" using w(2) by (simp add: session_def)
  have "visits (files w) [new_dirent [97] 1] [1] 5"
    using visits.sub [OF _ _ _ _ visits_empty_dir visits.none, of "new_dirent [97] 1" 1 "files w" 1 0] w(3) list_all_empty_dir [of 1 0]
    by (simp add: dead_entry_def live_def)
  then have v: "visits (files w) (root_with 1) [1] 7"
    using visits.skip [OF _ visits.skip] by (simp add: root_with_def empty_dir_def dead_entry_def numeral_eq_Suc)
  have "length (dir_bytes (empty_dir 1 0)) = 21" by (simp add: empty_dir_def)
  then have "check_report (files w) [1] = [NrAllocatedInodes 2, NrAllocatedBlocks 2]"
    using root_with(4) [of 1] w(3) by (simp add: check_report_def lost_def report_if_def file_blocks_def needs_eq one_block)
  then show ?thesis
    using checkfs_correct [OF s _ _ _ v, of 8] w(1,3) dir_fields(4) [OF sessionD(1) [OF w(2)]] by (auto simp: printed_def)
qed

end
