(* ===== verification/CatrOk.thy ===== *)
theory CatrOk
  imports FileOk Shell CheckOk
begin

text \<open>
  \<open>catr\<close> on the volume: the recursive \<open>cat\<close> of a directory.  The recursive call looks the argument of the command
  up again in every subdirectory.
\<close>

section \<open>The recursion\<close>

text \<open>
  \<open>catting F nm es ms n\<close>: with the argument \<open>nm\<close>, the loop over the entries \<open>es\<close> prints \<open>ms\<close> and takes fuel \<open>n\<close>.
\<close>

inductive catting ::
    "(nat \<Rightarrow> (inode_type \<times> byte list) option) \<Rightarrow> byte list \<Rightarrow> dirent list \<Rightarrow> message list \<Rightarrow> nat \<Rightarrow> bool"
  for F nm where
  none: "catting F nm [] [] 1"
| skip: "dead_entry d \<Longrightarrow> catting F nm es ms n \<Longrightarrow> catting F nm (d # es) ms (Suc n)"
| leaf: "\<not> dead_entry d \<Longrightarrow> d_inode_nr d = int j \<Longrightarrow> F j = Some (t, x) \<Longrightarrow> t \<noteq> I_DIR \<Longrightarrow>
    catting F nm es ms n \<Longrightarrow> catting F nm (d # es) (CatrHeader (dname d) # shown x @ ms) (Suc n)"
| sub: "\<not> dead_entry d \<Longrightarrow> d_inode_nr d = int j \<Longrightarrow> F j = Some (I_DIR, dir_bytes ds) \<Longrightarrow> list_all dirent_ok ds \<Longrightarrow>
    dir_lookup ds nm = Some (int i) \<Longrightarrow> F i = Some (I_DIR, dir_bytes cs) \<Longrightarrow> list_all dirent_ok cs \<Longrightarrow>
    catting F nm cs ms' n' \<Longrightarrow> catting F nm es ms n \<Longrightarrow>
    catting F nm (d # es) (ms' @ ms) (Suc (max (Suc n') n))"

lemma catting_fuel: "catting F nm es ms n \<Longrightarrow> 0 < n"
  by (induction rule: catting.induct) simp_all

lemma catr_call:
  fixes w :: "'d world"
  assumes d: "dir_at N w (cur_dir c) k es" and cl: "all_clean w" and a: "ls_arg c nm" "0 \<notin> set nm"
    and l: "dir_lookup es nm = Some (int j)" and f: "files w j = Some (I_DIR, dir_bytes cs)" "list_all dirent_ok cs"
    and rec: "\<And>(w1 :: 'd world) q. dir_at N w1 q j cs \<Longrightarrow> all_clean w1 \<Longrightarrow> files w1 = files w \<Longrightarrow>
      \<exists>w2. catr_loop fuel q 0 (cur_dir c) c w1 = Inr (c, w2) \<and> printed ms N w1 w2"
  shows "\<exists>w'. cmd_catr (Suc fuel) c w = Inr (0, c, w') \<and> printed ms N w w'"
proof -
  obtain q b w1 where g: "testfs_get_inode (int j) w = Inr (q, w1)" "vol_ok N w1"
    "files w1 = files w" "all_clean w1" "w_inodes w1 q = Some b" "i_nr b = int j"
    "\<And>w2 ms. printed ms N w1 w2 \<Longrightarrow> \<exists>w3. testfs_put_inode q w2 = Inr w3 \<and> printed ms N w w3"
    using get_for [OF dir_fields(1) [OF d] cl f(1)] by blast
  have "dir_at N w1 q j cs" using g f by (simp add: dir_at_def)
  from rec [OF this g(4,3)] obtain w2
    where w2: "catr_loop fuel q 0 (cur_dir c) c w1 = Inr (c, w2)" "printed ms N w1 w2" by blast
  obtain w3 where w3: "testfs_put_inode q w2 = Inr w3" "printed ms N w w3" using g(7) [OF w2(2)] by blast
  have "cmd_catr (Suc fuel) c w = Inr (0, c, w3)"
    using a(1) name_to_nr [OF d a(2)] l dir_fields(5) [OF d] g(1) w2(1) w3(1)
    by (auto simp: ls_arg_def arg_is_def dot_def)
  then show ?thesis using w3(2) by blast
qed

declare cmd_catr.simps [simp del]

lemma catr_loop_eq:
  fixes w :: "'d world"
  assumes "catting F nm vs ms n" "F = files w" "dir_at N w p k (us @ vs)" "all_clean w" "n \<le> fuel"
    and "ls_arg c nm" "0 \<notin> set nm"
  shows "\<exists>w'. catr_loop fuel p (off us) (cur_dir c) c w = Inr (c, w') \<and> printed ms N w w'"
  using assms
proof (induction arbitrary: w p k us fuel c rule: catting.induct)
  case none
  obtain m where m: "fuel = Suc m" using none(4) by (cases fuel) auto
  have "dir_at N w p k us" using none(2) by simp
  from scan_end [OF dir_scans [OF this]] show ?case using m printed_refl [OF dir_fields(1) [OF none(2)]] by simp
next
  case (skip d es ms n)
  obtain m where m: "fuel = Suc m" "n \<le> m" using skip(7) by (cases fuel) auto
  note st = scan_step [OF dir_scans [OF skip(5)] refl]
  show ?case
    using skip(3) [OF skip(4), of p k "us @ [d]" m c] skip(1,5,6,8,9) st skip_entry_eq [OF st(2)] m by simp
next
  case (leaf d j t x es ms n)
  obtain m where m: "fuel = Suc m" "n \<le> m" using leaf(10) by (cases fuel) auto
  note st = scan_step [OF dir_scans [OF leaf(8)] refl]
  have f: "files w j = Some (t, x)" using leaf(3,7) by simp
  obtain q b w1 where g: "testfs_get_inode (int j) w = Inr (q, w1)" "testfs_inode_get_type q w1 = Inr t" "vol_ok N w1"
    "files w1 = files w" "w_inodes w1 q = Some b" "i_nr b = int j"
    "\<And>w2 ms. printed ms N w1 w2 \<Longrightarrow> \<exists>w3. testfs_put_inode q w2 = Inr w3 \<and> printed ms N w w3"
    using get_for [OF dir_fields(1) [OF leaf(8)] leaf(9) f] by blast
  let ?m = "CatrHeader (dname d)"
  let ?w1 = "print ?m w1"
  have p1: "printed [?m] N w1 ?w1" by (rule printed_print [OF g(3)])
  have "vol_ok N ?w1" "files ?w1 j = Some (t, x)" using vol_print [OF g(3)] g(4) f by simp_all
  then obtain w2 where w2: "print_file q ?w1 = Inr w2" "printed (shown x) N ?w1 w2"
    using print_file_eq [of N ?w1 q b j t x] g(5,6) by auto
  obtain w3 where w3: "testfs_put_inode q w2 = Inr w3" "printed (?m # shown x) N w w3"
    using g(7) [OF printed_trans [OF p1 w2(2)]] by auto
  have "F = files w3" using w3(2) leaf(7) by (simp add: printed_def)
  moreover have "dir_at N w3 p k ((us @ [d]) @ es)" using printed_dir [OF w3(2) leaf(8)] by simp
  ultimately obtain w4 where w4: "catr_loop m p (off (us @ [d])) (cur_dir c) c w3 = Inr (c, w4)" "printed ms N w3 w4"
    using leaf(6) [of w3 p k "us @ [d]" m c] printed_clean [OF w3(2) leaf(9)] m(2) leaf(11,12) by blast
  have "catr_loop fuel p (off us) (cur_dir c) c w = Inr (c, w4)"
    using st(1) skip_entry_eq [OF st(2)] leaf(1,2,4) g(1,2) w2(1) w3(1) w4(1) m(1) c_string_name [OF st(2)] by simp
  then show ?case using printed_trans [OF w3(2) w4(2)] by simp
next
  case (sub d j ds i cs ms' n' es ms n)
  obtain m where m: "fuel = Suc (Suc m)" "n' \<le> m" "n \<le> Suc m"
    using sub(15) catting_fuel [OF sub(8)] by (cases fuel; cases "fuel - 1") auto
  note st = scan_step [OF dir_scans [OF sub(13)] refl]
  have f: "files w j = Some (I_DIR, dir_bytes ds)" "files w i = Some (I_DIR, dir_bytes cs)" using sub(3,6,12) by simp_all
  obtain q b w1 where g: "testfs_get_inode (int j) w = Inr (q, w1)" "testfs_inode_get_type q w1 = Inr I_DIR" "vol_ok N w1"
    "files w1 = files w" "all_clean w1" "w_inodes w1 q = Some b" "i_nr b = int j"
    "\<And>w2 ms. printed ms N w1 w2 \<Longrightarrow> \<exists>w3. testfs_put_inode q w2 = Inr w3 \<and> printed ms N w w3"
    using get_for [OF dir_fields(1) [OF sub(13)] sub(14) f(1)] by blast
  let ?c = "c\<lparr>cur_dir := q\<rparr>"
  have a: "ls_arg ?c nm" using sub(16) by (simp add: ls_arg_def arg_is_def cmd_arg_def)
  have dq: "dir_at N w1 (cur_dir ?c) j ds" using g f(1) sub(4) by (simp add: dir_at_def)
  have rec: "\<exists>w3. catr_loop m r 0 (cur_dir ?c) ?c w2 = Inr (?c, w3) \<and> printed ms' N w2 w3"
    if "dir_at N w2 r i cs" "all_clean w2" "files w2 = files w1" for w2 :: "'d world" and r
    using sub(10) [of w2 r i "[]" m ?c] that sub(12,17) m(2) g(4) a by (simp add: off_def)
  obtain w2 where w2: "cmd_catr (Suc m) ?c w1 = Inr (0, ?c, w2)" "printed ms' N w1 w2"
    using catr_call [OF dq g(5) a sub(17,5) _ sub(7) rec] f(2) g(4) by auto
  obtain w3 where w3: "testfs_put_inode q w2 = Inr w3" "printed ms' N w w3" using g(8) [OF w2(2)] by blast
  have "F = files w3" using w3(2) sub(12) by (simp add: printed_def)
  moreover have "dir_at N w3 p k ((us @ [d]) @ es)" using printed_dir [OF w3(2) sub(13)] by simp
  ultimately obtain w4 where w4: "catr_loop (Suc m) p (off (us @ [d])) (cur_dir c) c w3 = Inr (c, w4)" "printed ms N w3 w4"
    using sub(11) [of w3 p k "us @ [d]" "Suc m" c] printed_clean [OF w3(2) sub(14)] m(3) sub(16,17) by blast
  have "catr_loop fuel p (off us) (cur_dir c) c w = Inr (c, w4)"
    using st(1) skip_entry_eq [OF st(2)] sub(1,2) g(1,2) w2(1) w3(1) w4(1) m(1) by simp
  then show ?case using printed_trans [OF w3(2) w4(2)] by simp
qed

lemma cmd_catr_eq:
  assumes s: "session N c w k es" and a: "ls_arg c nm" "0 \<notin> set nm"
    and l: "dir_lookup es nm = Some (int j)" and f: "files w j = Some (I_DIR, dir_bytes cs)" "list_all dirent_ok cs"
    and ca: "catting (files w) nm cs ms n" "n < fuel"
  shows "\<exists>w'. cmd_catr fuel c w = Inr (0, c, w') \<and> session N c w' k es \<and> printed ms N w w'"
proof -
  obtain m where m: "fuel = Suc m" "n \<le> m" using ca(2) by (cases fuel) auto
  have "\<exists>w2. catr_loop m q 0 (cur_dir c) c w1 = Inr (c, w2) \<and> printed ms N w1 w2"
    if "dir_at N w1 q j cs" "all_clean w1" "files w1 = files w" for w1 q
    using catr_loop_eq [OF ca(1), of w1 N q j "[]" m c] that m(2) a by (simp add: off_def)
  from catr_call [OF sessionD(1) [OF s] session_clean [OF s] a l f this] show ?thesis
    using m(1) session_printed [OF s] by blast
qed

section \<open>A subdirectory without the argument\<close>

lemma catr_skip:
  assumes "scans p w (us @ ds @ vs)" "list_all dead_entry ds"
  shows "catr_loop (length ds + fuel) p (off us) tmp c w = catr_loop fuel p (off (us @ ds)) tmp c w"
  using assms
proof (induction ds arbitrary: us)
  case (Cons d ds)
  note st = scan_step [of p w "us @ (d # ds) @ vs" us d "ds @ vs"]
  show ?case using Cons.IH [of "us @ [d]"] Cons.prems st skip_entry_eq [of d] by simp
qed simp

text \<open>The inode got for another number is not at the address of the current directory.\<close>

lemma got_elsewhere:
  assumes "got w j p b w1" "w_inodes w x = Some a" "i_nr a \<noteq> int j"
  shows "p \<noteq> x" "w_inodes w1 x = Some a"
  using assms by (auto simp: got_def)

lemma got_keeps_nr:
  assumes "got w j p b w1" "w_inodes w x = Some a"
  shows "\<exists>a'. w_inodes w1 x = Some a' \<and> i_nr a' = i_nr a"
  using assms by (auto simp: got_def)

lemma catr_dangling_eq:
  assumes s: "session N c w k es" and a: "arg_is c nm" "0 \<notin> set nm"
    and l: "dir_lookup es nm = Some (int j)" and f: "files w j = Some (I_DIR, dir_bytes (us @ d # vs))" "list_all dirent_ok (us @ d # vs)"
    and d: "list_all dead_entry us" "\<not> dead_entry d" "d_inode_nr d = int i" "i \<noteq> k"
    and f': "files w i = Some (I_DIR, dir_bytes ds)" "list_all dirent_ok ds" "dir_lookup ds nm = None"
    and fu: "length us + 2 < fuel"
  shows "\<exists>w' q. cmd_catr fuel c w = Inr (0, c\<lparr>cur_dir := q\<rparr>, w') \<and> printed [] N w w' \<and> w_inodes w' q = None \<and> q \<noteq> NULL"
proof -
  define m where "m = fuel - length us - 3"
  have m: "fuel = Suc (length us + Suc (Suc m))" using fu by (simp add: m_def)
  note dw = sessionD(1) [OF s]
  obtain x where x: "w_inodes w = [cur_dir c \<mapsto> x]" "i_nr x = int k" using sessionD(3) [OF s] by blast
  obtain p b w1 where g: "testfs_get_inode (int j) w = Inr (p, w1)" "got w j p b w1" "vol_ok N w1"
    "files w1 = files w" "all_clean w1" "w_inodes w1 p = Some b" "i_nr b = int j"
    "\<And>w2 ms. printed ms N w1 w2 \<Longrightarrow> \<exists>w3. testfs_put_inode p w2 = Inr w3 \<and> printed ms N w w3"
    using get_for [OF dir_fields(1) [OF dw] session_clean [OF s] f(1)] by blast
  have dp: "dir_at N w1 p j (us @ d # vs)" using g f by (simp add: dir_at_def)
  note st = scan_step [OF dir_scans [OF dp] refl]
  obtain q b' w2 where h: "testfs_get_inode (int i) w1 = Inr (q, w2)" "testfs_inode_get_type q w2 = Inr I_DIR" "got w1 i q b' w2"
    "vol_ok N w2" "files w2 = files w1" "w_inodes w2 q = Some b'" "i_nr b' = int i"
    "\<And>w3 ms. printed ms N w2 w3 \<Longrightarrow> \<exists>w4. testfs_put_inode q w3 = Inr w4 \<and> printed ms N w1 w4"
    using get_for [OF g(3,5), of i I_DIR "dir_bytes ds"] f'(1) g(4) by auto
  have dq: "dir_at N w2 q i ds" using h f' g(4) by (simp add: dir_at_def)
  obtain x' where "w_inodes w1 (cur_dir c) = Some x'" "i_nr x' = int k"
    using got_keeps_nr [OF g(2), of "cur_dir c" x] x by auto
  then have q: "q \<noteq> cur_dir c" using got_elsewhere(1) [OF h(3)] d(4) by simp
  let ?c = "c\<lparr>cur_dir := q\<rparr>"
  have "cmd_catr (Suc m) ?c w2 = Inr (- ENOENT, ?c, w2)"
    using a(1) name_to_nr [OF dq a(2)] f'(3) dir_fields(5) [OF dq]
    by (simp add: cmd_catr.simps arg_is_def cmd_arg_def ENOENT_def)
  moreover obtain w3 where w3: "testfs_put_inode q w2 = Inr w3" "printed [] N w1 w3" using h(8) [OF printed_refl [OF h(4)]] by blast
  moreover obtain w4 where w4: "testfs_put_inode p w3 = Inr w4" "printed [] N w w4" using g(8) [OF w3(2)] by blast
  moreover have "catr_loop (Suc (Suc m)) p (off us) (cur_dir c) c w1 = Inr (?c, w3)"
    using st skip_entry_eq [OF st(2)] d(2,3) h(1,2) calculation by (simp add: ENOENT_def)
  then have "catr_loop (length us + Suc (Suc m)) p 0 (cur_dir c) c w1 = Inr (?c, w3)"
    using catr_skip [of p w1 "[]" us "d # vs" "Suc (Suc m)"] dir_scans [OF dp] d(1) by (simp add: off_def)
  ultimately have "cmd_catr fuel c w = Inr (0, ?c, w4)"
    using a(1) name_to_nr [OF dw a(2)] l dir_fields(5) [OF dw] g(1) unfolding m
    by (simp add: cmd_catr.simps arg_is_def)
  moreover have "w_inodes w4 q = None" using w4(2) x(1) q by (simp add: printed_def)
  ultimately show ?thesis using w4(2) dir_fields(5) [OF dq] by blast
qed

section \<open>Properties\<close>

text \<open>
  C21.  \<open>catr\<close> terminates and prints the files below a directory, in the order of the entries, each with its name and
  its contents up to the first zero byte; the empty ones only with their name.  The fuel is that of the deepest
  chain of rounds and calls, and nothing changes but the output.  With the argument \<open>.\<close>, or none, the recursion
  reaches every subdirectory; any other argument it looks up again in each of them.
\<close>

theorem catr_correct:
  assumes "session N c w k es" "ls_arg c nm" "0 \<notin> set nm" "dir_lookup es nm = Some (int j)"
    and "files w j = Some (I_DIR, dir_bytes cs)" "list_all dirent_ok cs" "catting (files w) nm cs ms n" "n < fuel"
  shows "\<exists>w'. cmd_catr fuel c w = Inr (0, c, w') \<and> session N c w' k es \<and> printed ms N w w'"
  by (rule cmd_catr_eq [OF assms])

theorem catr_correct_witness:
  "\<exists>(w :: ram_world) w'. cmd_catr 5 (start_ctx [46]) w = Inr (0, start_ctx [46], w') \<and>
     fs_out (w_fs w') = fs_out (w_fs w) @ [CatrHeader [97], FileContents [1, 2, 3]]"
proof -
  obtain w :: ram_world where w: "session 8192 (copy_ctx [97] [104]) w 0 (root_with 1)" "files w 1 = Some (I_FILE, [1, 2, 3])"
    "files w 0 = Some (I_DIR, dir_bytes (root_with 1))" using start_import by blast
  have s: "session 8192 (start_ctx [46]) w 0 (root_with 1)" by (rule session_ctx [OF w(1)]) simp
  have e: "root_with 1 = [new_dirent [46] 0, new_dirent [46, 46] 0, new_dirent [97] 1]"
    by (simp add: root_with_def empty_dir_def)
  have d: "dead_entry (new_dirent [46] 0)" "dead_entry (new_dirent [46, 46] 0)" "\<not> dead_entry (new_dirent [97] 1)"
    by (simp_all add: dead_entry_def live_def)
  have sh: "shown [1, 2, 3] = [FileContents [1, 2, 3]]" "Suc 1 = 2" by (simp_all add: shown_def cstring_of_def)
  have "d_inode_nr (new_dirent [97] 1) = int 1" by simp
  from catting.leaf [where F = "files w" and nm = "[46]", OF d(3) this w(2) _ catting.none]
  have "catting (files w) [46] [new_dirent [97] 1] [CatrHeader [97], FileContents [1, 2, 3]] 2"
    unfolding sh by simp
  from catting.skip [OF d(1) catting.skip [OF d(2) this]]
  have "catting (files w) [46] (root_with 1) [CatrHeader [97], FileContents [1, 2, 3]] 4"
    unfolding e by simp
  moreover have "dir_lookup (root_with 1) [46] = Some (int 0)" unfolding e by (simp add: names_def live_def)
  moreover have "ls_arg (start_ctx [46]) [46]" by (simp add: ls_arg_def)
  ultimately show ?thesis
    using catr_correct [OF s _ _ _ w(3) dir_fields(4) [OF sessionD(1) [OF s]], of "[46]"] by (fastforce simp: printed_def)
qed

text \<open>
  C37.  \<open>catr\<close> of a directory with a subdirectory in which the argument is no name: the failing recursive call leaves
  the current directory at the subdirectory's inode, which is freed, and the command reports success.  Every later
  command line runs into the freed inode.
\<close>

theorem catr_dangling:
  assumes "session N c w k es" "arg_is c nm" "0 \<notin> set nm" "dir_lookup es nm = Some (int j)"
    and "files w j = Some (I_DIR, dir_bytes (us @ d # vs))" "list_all dirent_ok (us @ d # vs)"
    and "list_all dead_entry us" "\<not> dead_entry d" "d_inode_nr d = int i" "i \<noteq> k"
    and "files w i = Some (I_DIR, dir_bytes ds)" "list_all dirent_ok ds" "dir_lookup ds nm = None" "length us + 2 < fuel"
  shows "\<exists>w' c'. cmd_catr fuel c w = Inr (0, c', w') \<and> files w' = files w \<and> fs_out (w_fs w') = fs_out (w_fs w) \<and>
    w_inodes w' (cur_dir c') = None \<and> (\<forall>command. can_execute_command c' command w' = Inl UseAfterFree)"
proof -
  obtain w' q where w': "cmd_catr fuel c w = Inr (0, c\<lparr>cur_dir := q\<rparr>, w')" "printed [] N w w'" "w_inodes w' q = None" "q \<noteq> NULL"
    using catr_dangling_eq [OF assms] by blast
  then have "testfs_inode_get_type q w' = Inl UseAfterFree" by (simp add: testfs_inode_get_type_def deref_def)
  then show ?thesis
    using w' by (intro exI [of _ w'] exI [of _ "c\<lparr>cur_dir := q\<rparr>"])
      (simp add: can_execute_command_def fs_exists_def printed_def)
qed

text \<open>The directory \<open>/a/b\<close>, with the root as the current directory.\<close>

definition with_arg :: "byte list \<Rightarrow> cmd_context \<Rightarrow> cmd_context" where
  "with_arg nm c = c\<lparr>nargs := 2, cmd := [Some [120], Some nm]\<rparr>"

lemma with_arg_simps [simp]: "arg_is (with_arg nm c) nm" "cur_dir (with_arg nm c) = cur_dir c"
  by (simp_all add: with_arg_def arg_is_def cmd_arg_def)

lemma nested_dirs:
  "\<exists>(w :: ram_world) c. session 8192 (with_arg [97] c) w 0 (root_with 1) \<and>
     files w 1 = Some (I_DIR, dir_bytes (empty_dir 1 0 @ [new_dirent [98] 2])) \<and>
     files w 2 = Some (I_DIR, dir_bytes (empty_dir 2 1))"
proof -
  obtain w1 :: ram_world where w1: "session 8192 (start_ctx [97]) w1 0 (root_with 1)"
    "files w1 = [0 \<mapsto> (I_DIR, dir_bytes (root_with 1)), 1 \<mapsto> (I_DIR, dir_bytes (empty_dir 1 0))]"
    using start_mkdir by blast
  note h = cd_start [OF w1]
  obtain w2 :: ram_world and q where w2: "session 8192 ((start_ctx [97])\<lparr>cur_dir := q\<rparr>) w2 1 (empty_dir 1 0)" "files w2 = files w1"
    using cmd_cd_eq [OF w1(1) start_ctx_simps(2) h(4,1-3)] by blast
  let ?c = "with_arg [98] ((start_ctx [97])\<lparr>cur_dir := q\<rparr>)"
  let ?es = "empty_dir 1 0 @ [new_dirent [98] 2]"
  have s2: "session 8192 ?c w2 1 (empty_dir 1 0)" by (rule session_ctx [OF w2(1)]) simp
  note v2 = sessionD(6) [OF s2]
  have u: "iused (w_fs w2) = {0, 1}" using dom_files [of w2] w2(2) w1(2) by auto
  have "(2 :: nat) \<in> {..< 4096}" "(2 :: nat) \<notin> {0, 1}" by simp_all
  then have ne: "iused (w_fs w2) \<noteq> {..< 4096}" unfolding u by blast
  have nf: "next_free_inode (w_fs w2) = 2"
  proof -
    have "next_free_inode (w_fs w2) \<le> 2" by (rule next_free_inode(3) [OF vol_okD(2) [OF v2] ne]) (simp_all add: u)
    moreover have "next_free_inode (w_fs w2) \<notin> {0, 1}" using next_free_inode(2) [OF vol_okD(2) [OF v2] ne] unfolding u .
    ultimately show ?thesis by auto
  qed
  have ls: "length (dir_bytes (empty_dir 1 0)) = 21" "length (dir_bytes ?es) = 31" by (simp_all add: empty_dir_def)
  have "nfree (w_fs w2) = 7678"
    using used_count(2) [OF v2] w2(2) w1(2) root_with(4) [of 1] ls(1) by (simp add: file_blocks_def needs_eq one_block)
  then have r: "room_for_dir w2 (empty_dir 1 0) ?es" unfolding room_for_dir_def ls by (simp add: one_block needs_0)
  have "can_create 8192 w2 (cur_dir ?c) 1 (empty_dir 1 0) [98] 2 ?es"
    using sessionD(1,2) [OF s2] nf by (simp add: can_create_def dir_insert_def empty_dir_def names_def live_def)
  then obtain w3 :: ram_world where w3: "session 8192 ?c w3 1 ?es"
    "files w3 = (files w2)(1 \<mapsto> (I_DIR, dir_bytes ?es), 2 \<mapsto> (I_DIR, dir_bytes (empty_dir 2 1)))"
    using cmd_mkdir_eq [OF s2 _ _ r] with_arg_simps(1) by blast
  let ?d = "with_arg [47] ?c"
  have s3: "session 8192 ?d w3 1 ?es" by (rule session_ctx [OF w3(1)]) simp
  have f0: "files w3 0 = Some (I_DIR, dir_bytes (root_with 1))" using w3(2) w2(2) w1(2) by simp
  obtain w4 :: ram_world and r where w4: "session 8192 (?d\<lparr>cur_dir := r\<rparr>) w4 0 (root_with 1)" "files w4 = files w3"
    using cmd_cd_eq [OF s3 with_arg_simps(1) _ _ f0] dir_fields(4) [OF sessionD(1) [OF w1(1)]] by auto
  have "session 8192 (with_arg [97] (?d\<lparr>cur_dir := r\<rparr>)) w4 0 (root_with 1)" by (rule session_ctx [OF w4(1)]) simp
  then show ?thesis using w4(2) w3(2) by (intro exI [of _ w4] exI [of _ "?d\<lparr>cur_dir := r\<rparr>"]) simp
qed

theorem catr_dangling_witness:
  "\<exists>(w :: ram_world) c c' w'. vol_ok 8192 w \<and> cmd_catr 5 c w = Inr (0, c', w') \<and>
     can_execute_command c' (str ''pwd'') w' = Inl UseAfterFree"
proof -
  obtain w :: ram_world and c where w: "session 8192 (with_arg [97] c) w 0 (root_with 1)"
    "files w 1 = Some (I_DIR, dir_bytes (empty_dir 1 0 @ [new_dirent [98] 2]))"
    "files w 2 = Some (I_DIR, dir_bytes (empty_dir 2 1))" using nested_dirs by blast
  have d: "list_all dead_entry (empty_dir 1 0)" "\<not> dead_entry (new_dirent [98] 2)" "length (empty_dir 1 0) = 2"
    "dir_lookup (empty_dir 2 1) [97] = None" "dirent_ok (new_dirent [98] 2)"
    by (simp_all add: empty_dir_def dead_entry_def live_def names_def dirent_ok_new in_int32_def)
  have l: "list_all dirent_ok (empty_dir 1 0)" "list_all dirent_ok (empty_dir 2 1)" by (rule list_all_empty_dir; simp)+
  show ?thesis
    using catr_dangling [OF w(1) with_arg_simps(1) _ _ w(2) _ d(1,2) _ _ w(3) l(2) d(4), of 5] root_with(3) [of 1] d(3,5) l(1) sessionD(6) [OF w(1)]
    by fastforce
qed

end
