(* ===== verification/CommandsOk.thy ===== *)
theory CommandsOk
  imports ShellOk MountOk CatrOk
begin

text \<open>
  The rest of the commands on the volume, in terms of the map \<open>files w\<close> and of the space that it takes: \<open>touch\<close>
  with several names, \<open>stat\<close>, \<open>owrite\<close>, \<open>import\<close> of a missing file, \<open>?\<close>, and what every command refuses.
\<close>

section \<open>Free numbers and space\<close>

type_synonym fmap = "nat \<Rightarrow> (inode_type \<times> byte list) option"

text \<open>The lowest free inode number; the blocks in use; room for a longer directory and \<open>n\<close> more blocks.\<close>

definition free_at :: "fmap \<Rightarrow> nat \<Rightarrow> bool" where
  "free_at F j \<longleftrightarrow> j < NR_INODES \<and> F j = None \<and> (\<forall>i < j. F i \<noteq> None)"

definition taken :: "fmap \<Rightarrow> nat" where
  "taken F = (\<Sum>j \<in> dom F. file_blocks (the (F j)))"

definition fits :: "fmap \<Rightarrow> dirent list \<Rightarrow> dirent list \<Rightarrow> nat \<Rightarrow> bool" where
  "fits F es es' n \<longleftrightarrow> length (dir_bytes es') \<le> 132 * 512 \<and>
     taken F + needs (nblocks (length (dir_bytes es))) (nblocks (length (dir_bytes es'))) + n \<le> 7680"

lemma nfree_taken:
  assumes "vol_ok N w"
  shows "n \<le> nfree (w_fs w) \<longleftrightarrow> taken (files w) + n \<le> 7680"
  using used_count(2) [OF assms] by (auto simp: taken_def)

lemma room_abstract:
  assumes "vol_ok N w"
  shows "fits (files w) es es' 0 \<Longrightarrow> room w es es'" "fits (files w) es es' 1 \<Longrightarrow> room_for_dir w es es'"
  using nfree_taken [OF assms] by (simp_all add: fits_def room_def room_for_dir_def)

lemma free_at_next:
  assumes "vol_ok N w" "free_at (files w) j"
  shows "next_free_inode (w_fs w) = j"
proof -
  have i: "i \<in> iused (w_fs w) \<longleftrightarrow> files w i \<noteq> None" for i by (simp add: files_def)
  have j: "j < 4096" "j \<notin> iused (w_fs w)" using assms(2) by (simp_all add: free_at_def i)
  then have "iused (w_fs w) \<noteq> {..< 4096}" by blast
  note n = next_free_inode(2,3) [OF vol_okD(2) [OF assms(1)] this]
  have "\<not> next_free_inode (w_fs w) < j" using n(1) assms(2) by (auto simp: free_at_def i)
  then show ?thesis using n(2) [OF j] by simp
qed

lemma can_create_abstract:
  assumes "session N c w k es" "0 \<notin> set nm" "dir_lookup es nm = None" "dir_insert nm (int j) es = Some es'" "free_at (files w) j"
  shows "can_create N w (cur_dir c) k es nm j es'"
  using assms sessionD(1,2,6) [OF assms(1)] free_at_next [of N w j] by (simp add: can_create_def free_at_def)

lemma prompt_nr:
  assumes "session N c w k es" "0 \<notin> set nm"
  shows "testfs_dir_name_to_inode_nr (cur_dir c) (Some nm) w = Inr (case dir_lookup es nm of None \<Rightarrow> - ENOENT | Some k \<Rightarrow> k)"
  by (rule name_to_nr [OF sessionD(1) [OF assms(1)] assms(2)])

section \<open>\<open>touch\<close>\<close>

text \<open>\<open>touches k F es nms ret F' es'\<close>: the files \<open>nms\<close> made one after the other in the directory \<open>k\<close>, up to the first that exists.\<close>

inductive touches :: "nat \<Rightarrow> fmap \<Rightarrow> dirent list \<Rightarrow> byte list list \<Rightarrow> int \<Rightarrow> fmap \<Rightarrow> dirent list \<Rightarrow> bool" for k where
  touched: "touches k F es [] 0 F es"
| touch_there: "dir_lookup es nm \<noteq> None \<Longrightarrow> touches k F es (nm # nms) (- EEXIST) F es"
| touch_new: "dir_lookup es nm = None \<Longrightarrow> dir_insert nm (int j) es = Some es' \<Longrightarrow> free_at F j \<Longrightarrow> fits F es es' 0 \<Longrightarrow>
    touches k (F(k \<mapsto> (I_DIR, dir_bytes es'), j \<mapsto> (I_FILE, []))) es' nms ret F' es'' \<Longrightarrow>
    touches k F es (nm # nms) ret F' es''"

lemma create_args_eq:
  fixes w :: "'d world"
  assumes "touches k F es nms ret F' es'" "F = files w" "session N c w k es"
    and "list_all2 (\<lambda>i nm. cmd_arg c i = Inr (Some nm) \<and> 0 \<notin> set nm) is nms"
  shows "\<exists>w'. create_args is c w = Inr (ret, c, w') \<and> session N c w' k es' \<and> files w' = F' \<and> same_env w w'"
  using assms
proof (induction arbitrary: w "is" rule: touches.induct)
  case (touched F es)
  then show ?case by auto
next
  case (touch_there es nm F nms)
  then show ?case
    using create_exists [OF sessionD(1) [OF touch_there(3)], of nm I_FILE] by (auto simp: list_all2_Cons2 EEXIST_def)
next
  case (touch_new es nm j es' F nms ret F' es'')
  obtain i js where i: "is = i # js" "cmd_arg c i = Inr (Some nm)" "0 \<notin> set nm"
    "list_all2 (\<lambda>i nm. cmd_arg c i = Inr (Some nm) \<and> 0 \<notin> set nm) js nms"
    using touch_new(9) by (auto simp: list_all2_Cons2)
  note s = touch_new(8) and F = touch_new(7)
  obtain w1 where w1: "testfs_create_file_or_dir (cur_dir c) I_FILE (Some nm) w = Inr (0, w1)" "session N c w1 k es'"
    "same_env w w1" "files w1 = F(k \<mapsto> (I_DIR, dir_bytes es'), j \<mapsto> (I_FILE, []))"
    using session_create [OF s can_create_abstract [OF s i(3) touch_new(1,2)] room_abstract(1) [OF sessionD(6) [OF s]]]
      touch_new(3,4) unfolding F by blast
  obtain w2 where w2: "create_args js c w1 = Inr (ret, c, w2)" "session N c w2 k es''" "files w2 = F'" "same_env w1 w2"
    using touch_new(6) [OF w1(4) [symmetric] w1(2) i(4)] by blast
  then show ?case using i(1,2) w1(1) same_env_trans [OF w1(3) w2(4)] by auto
qed

lemma cmd_touch_eq:
  assumes s: "session N c w k es" and a: "args_are c nms" "nms \<noteq> []" and t: "touches k (files w) es nms ret F' es'"
  shows "\<exists>w'. cmd_create c w = Inr (ret, c, w') \<and> session N c w' k es' \<and> files w' = F' \<and> same_env w w'"
proof -
  have "\<not> nargs c < 2" using a by (cases nms) (auto simp: args_are_def)
  then show ?thesis using create_args_eq [OF t refl s args_are_all2 [OF a(1)]] by (simp add: cmd_create_def)
qed

section \<open>\<open>stat\<close>\<close>

fun stat_spec :: "fmap \<Rightarrow> dirent list \<Rightarrow> byte list list \<Rightarrow> int \<times> message list" where
  "stat_spec F es [] = (0, [])"
| "stat_spec F es (nm # nms) =
     (case dir_lookup es nm of
        None \<Rightarrow> (- ENOENT, [])
      | Some j \<Rightarrow>
          (case F (nat j) of
             Some (t, x) \<Rightarrow> (case stat_spec F es nms of (r, ms) \<Rightarrow> (r, StatEntry nm j t (int (length x)) # ms))
           | None \<Rightarrow> (0, [])))"

lemma stat_args_eq:
  assumes "session N c w k es" "linked (files w) es"
    and "list_all2 (\<lambda>i nm. cmd_arg c i = Inr (Some nm) \<and> 0 \<notin> set nm) is nms"
  shows "\<exists>w'. stat_args is c w = Inr (fst (stat_spec (files w) es nms), c, w') \<and>
    printed (snd (stat_spec (files w) es nms)) N w w'"
  using assms(3,1-2)
proof (induction "is" nms arbitrary: w rule: list_all2_induct)
  case Nil
  then show ?case using printed_refl [OF sessionD(6) [OF Nil(1)]] by simp
next
  case (Cons i "is" nm nms)
  note s = Cons.prems(1)
  have nr: "testfs_dir_name_to_inode_nr (cur_dir c) (Some nm) w =
      Inr (case dir_lookup es nm of None \<Rightarrow> - ENOENT | Some k \<Rightarrow> k)"
    using prompt_nr [OF s] Cons.hyps(1) by simp
  show ?case
  proof (cases "dir_lookup es nm")
    case None
    then show ?thesis using nr Cons.hyps(1) printed_refl [OF sessionD(6) [OF s]] by (auto simp: ENOENT_def)
  next
    case (Some j)
    obtain t x where f: "files w (nat j) = Some (t, x)" and j: "0 \<le> j" using linked_lookup [OF Cons.prems(2) Some] .
    obtain q b w1 where g: "testfs_get_inode j w = Inr (q, w1)" "testfs_inode_get_type q w1 = Inr t" "vol_ok N w1"
      "files w1 = files w" "w_inodes w1 q = Some b" "i_nr b = int (nat j)"
      "\<And>w2 ms. printed ms N w1 w2 \<Longrightarrow> \<exists>w3. testfs_put_inode q w2 = Inr w3 \<and> printed ms N w w3"
      using get_for [OF sessionD(6) [OF s] session_clean [OF s] f] j by auto
    let ?m = "StatEntry nm j t (int (length x))"
    obtain w3 where w3: "testfs_put_inode q (print ?m w1) = Inr w3" "printed [?m] N w w3"
      using g(7) [OF printed_print [OF g(3)]] by blast
    have fs: "files w3 = files w" using w3(2) by (simp add: printed_def)
    obtain w4 where w4: "stat_args is c w3 = Inr (fst (stat_spec (files w) es nms), c, w4)"
      "printed (snd (stat_spec (files w) es nms)) N w3 w4"
      using Cons.IH [OF session_printed [OF s w3(2)]] Cons.prems(2) by (auto simp: fs)
    have "testfs_inode_get_size q w1 = Inr (int (length x))" "testfs_inode_get_nr q w1 = Inr j"
      using file_fields(1) [OF g(3,5,6), of t x] deref_eq [OF vol_okD(1) [OF g(3)] g(5)] f g(4-6) j
      by (simp_all add: testfs_inode_get_nr_def)
    then show ?thesis
      using Some nr Cons.hyps(1) f g(1,2) j w3(1) w4 printed_trans [OF w3(2) w4(2)] by (auto split: prod.splits)
  qed
qed

lemma cmd_stat_eq:
  assumes s: "session N c w k es" and a: "args_are c nms" "nms \<noteq> []" and l: "linked (files w) es"
  shows "\<exists>w'. cmd_stat c w = Inr (fst (stat_spec (files w) es nms), c, w') \<and> session N c w' k es \<and>
    printed (snd (stat_spec (files w) es nms)) N w w'"
proof -
  have "\<not> nargs c < 2" using a by (cases nms) (auto simp: args_are_def)
  then show ?thesis
    using stat_args_eq [OF s l args_are_all2 [OF a(1)]] session_printed [OF s] by (auto simp: cmd_stat_def)
qed

section \<open>\<open>owrite\<close>\<close>

definition owrite_args :: "cmd_context \<Rightarrow> byte list \<Rightarrow> byte list \<Rightarrow> byte list \<Rightarrow> bool" where
  "owrite_args c nm number y \<longleftrightarrow>
     nargs c = 4 \<and> cmd_arg c 1 = Inr (Some nm) \<and> cmd_arg c 2 = Inr (Some number) \<and> cmd_arg c 3 = Inr (Some y)"

lemma int_of_long_id:
  assumes "0 \<le> n" "n < 2 ^ 31"
  shows "int_of_long n = n"
  using assms by (simp add: int_of_long_def int_word_sint)

lemma overwrite_take:
  assumes "at \<le> length x" "length y = n"
  shows "take (at + n) (overwrite at y x) = take at x @ y"
  using assms by (simp add: overwrite_def)

lemma cmd_owrite_eq:
  assumes s: "session N c w k es" and a: "owrite_args c nm number y" "0 \<notin> set nm" "0 \<notin> set y" "y \<noteq> []"
    and n: "strtol number = (int at, [])" "at \<le> length x" "at + length y \<le> 132 * 512"
    and l: "dir_lookup es nm = Some (int j)" and f: "files w j = Some (I_FILE, x)"
    and free: "needs (nblocks (length x)) (nblocks (at + length y)) \<le> nfree (w_fs w)"
  shows "\<exists>w'. cmd_owrite c w = Inr (0, c, w') \<and> session N c w' k es \<and> same_env w w' \<and>
    files w' = (files w)(j \<mapsto> (I_FILE, take at x @ y))"
proof -
  have jk: "j \<noteq> k" using f dir_fields(3) [OF sessionD(1) [OF s]] by auto
  obtain q b w1 where w1: "testfs_get_inode (int j) w = Inr (q, w1)" "vol_ok N w1" "files w1 = files w" "w_fs w1 = w_fs w"
    "w_sb w1 = w_sb w" "q \<noteq> cur_dir c" "w_inodes w q = None" "w_inodes w1 = (w_inodes w)(q \<mapsto> b)"
    "w_inodes w1 q = Some b" "i_nr b = int j" "i_count b = 1"
    using open_file [OF s f jk] by blast
  let ?t = "tx TX_WRITE w1" and ?n = "length y" and ?buf = "y @ [0]"
  have t: "on_fs (testfs_tx_start TX_WRITE) w1 = Inr ?t" by (rule tx_start) (use sessionD(2) [OF s] w1(4) in simp)
  have v: "vol_ok N ?t" "w_inodes ?t q = Some b" "files ?t j = Some (I_FILE, x)" "nfree (w_fs ?t) = nfree (w_fs w)"
    using vol_tx [OF w1(2)] w1(3,4,9) f by simp_all
  obtain b2 w2 where w2: "write_data q (int at) ?buf (int ?n) ?t = Inr (0, w2)" "vol_ok N w2" "same_env ?t w2"
    "files w2 = (files ?t)(j \<mapsto> (I_FILE, overwrite at (take ?n ?buf) x))" "w_inodes w2 = (w_inodes ?t)(q \<mapsto> b2)"
    "i_nr b2 = i_nr b" "i_count b2 = i_count b" "has_flag b2 I_FLAGS_DIRTY"
    using vol_write [OF v(1,2) w1(10) v(3), of ?n ?buf at] a(4) n(2,3) free v(4) by auto
  have q2: "w_inodes w2 q = Some b2" "i_nr b2 = int j" "files w2 j = Some (I_FILE, overwrite at (take ?n ?buf) x)"
    using w2(4-6) w1(10) by simp_all
  obtain b3 w3 where w3: "truncate_data q (int (at + ?n)) w2 = Inr w3" "vol_ok N w3" "same_env w2 w3"
    "files w3 = (files w2)(j \<mapsto> (I_FILE, take (at + ?n) (overwrite at (take ?n ?buf) x)))"
    "w_inodes w3 = (w_inodes w2)(q \<mapsto> b3)" "i_nr b3 = i_nr b2" "i_count b3 = i_count b2"
    "at + ?n < length (overwrite at (take ?n ?buf) x) \<longrightarrow> has_flag b3 I_FLAGS_DIRTY"
    "length (overwrite at (take ?n ?buf) x) \<le> at + ?n \<longrightarrow> w3 = w2"
    using vol_truncate [OF w2(2) q2, of "at + ?n"] by blast
  have q3: "w_inodes w3 q = Some b3" "i_nr b3 = int j" "i_count b3 = 1" using w3(5-7) w2(7) q2(2) w1(11) by simp_all
  have dy: "has_flag b3 I_FLAGS_DIRTY"
  proof (cases "at + ?n < length (overwrite at (take ?n ?buf) x)")
    case False
    then have "w3 = w2" using w3(9) by simp
    then show ?thesis using q3(1) q2(1) w2(8) by simp
  qed (use w3(8) in blast)
  have tr: "tx_in_progress (fs_sb (w_fs w3)) = TX_WRITE" using w3(3) w2(3) by (simp add: same_env_def)
  obtain w4 w5 where w5: "sync_inode q w3 = Inr w4" "on_fs (testfs_tx_commit TX_WRITE) w4 = Inr (tx TX_NONE w4)"
    "testfs_put_inode q (tx TX_NONE w4) = Inr w5" "vol_ok N w5" "files w5 = files w3" "w_sb w5 = w_sb w3"
    "fs_out (w_fs w5) = fs_out (w_fs w3)" "tx_in_progress (fs_sb (w_fs w5)) = TX_NONE" "w_inodes w5 = (w_inodes w3)(q := None)"
    using close_file [OF w3(2) q3 dy tr] by blast
  have fl: "files w5 = (files w)(j \<mapsto> (I_FILE, take at x @ y))"
    using w5(5) w3(4) w2(4) vol_tx(2) [OF w1(2)] w1(3) overwrite_take [OF n(2) refl, of y] by simp
  have io: "int_of_long (int at) = int at" "int_of_long (int ?n + int at) = int (at + ?n)"
    using int_of_long_id [of "int at"] int_of_long_id [of "int (at + ?n)"] n(3) by (simp_all add: add.commute)
  have "cmd_owrite c w = Inr (0, c, w5)"
    using a(1) n(1) prompt_nr [OF s a(2)] l w1(1) file_fields(2) [OF w1(2,9,10), of I_FILE x] f w1(3) t w2(1) w3(1) w5(1-3)
    by (simp add: cmd_owrite_def owrite_args_def c_mem_def io)
  moreover have ino: "w_inodes w5 = w_inodes w" using w5(9) w3(5) w2(5) w1(7,8) by (auto simp: fun_eq_iff)
  have "session N c w5 k es" by (rule session_closed [OF s w5(4) _ ino w5(8)]) (use fl jk in simp)
  moreover have "same_env w w5" using w5(6-8) w3(3) w2(3) w1(4,5) sessionD(2) [OF s] by (simp add: same_env_def)
  ultimately show ?thesis using fl by blast
qed

section \<open>What the commands refuse\<close>

lemma cd_refused:
  assumes s: "session N c w k es" and a: "arg_is c nm" "0 \<notin> set nm" "nm \<noteq> [47]"
  shows "dir_lookup es nm = None \<Longrightarrow> cmd_cd c w = Inr (- ENOENT, c, w)"
    "dir_lookup es nm = Some (int j) \<Longrightarrow> files w j = Some (I_FILE, x) \<Longrightarrow>
      \<exists>w'. cmd_cd c w = Inr (- ENOTDIR, c, w') \<and> printed [] N w w'"
proof -
  note d = sessionD(1) [OF s]
  have sl: "bind_r (c_mem (Some nm)) (\<lambda>buf. strcmp buf slash) = Inr False"
    using strcmp_eq_names [of nm "[47]"] a(2,3) by (simp add: c_mem_def strcmp_def slash_def)
  show "cmd_cd c w = Inr (- ENOENT, c, w)" if "dir_lookup es nm = None"
    using a(1) sl name_to_nr [OF d a(2)] that by (auto simp: cmd_cd_def arg_is_def c_mem_def ENOENT_def)
  assume l: "dir_lookup es nm = Some (int j)" and f: "files w j = Some (I_FILE, x)"
  obtain q w1 where g: "testfs_get_inode (int j) w = Inr (q, w1)" "testfs_inode_get_type q w1 = Inr I_FILE" "vol_ok N w1"
    "\<And>w2 ms. printed ms N w1 w2 \<Longrightarrow> \<exists>w3. testfs_put_inode q w2 = Inr w3 \<and> printed ms N w w3"
    using get_for [OF dir_fields(1) [OF d] session_clean [OF s] f] by blast
  obtain w3 where "testfs_put_inode q w1 = Inr w3" "printed [] N w w3" using g(4) [OF printed_refl [OF g(3)]] by blast
  then show "\<exists>w'. cmd_cd c w = Inr (- ENOTDIR, c, w') \<and> printed [] N w w'"
    using a(1) sl name_to_nr [OF d a(2)] l g(1,2) by (auto simp: cmd_cd_def arg_is_def c_mem_def)
qed

text \<open>A name that is not there.\<close>

lemma no_such_name:
  assumes s: "session N c w k es" and nm: "0 \<notin> set nm" "dir_lookup es nm = None"
  shows "ls_arg c nm \<Longrightarrow> ls_command r fuel c w = Inr (- ENOENT, c, w)"
    "ls_arg c nm \<Longrightarrow> 0 < fuel \<Longrightarrow> cmd_catr fuel c w = Inr (- ENOENT, c, w)"
    "copy_args c nm path \<Longrightarrow> cmd_export h c w = Inr (Some (- ENOENT), c, w, h)"
    "copy_args c nm path \<Longrightarrow> cmd_write sched1 sched2 c w = Inr (- ENOENT, c, w)"
    "owrite_args c nm number y \<Longrightarrow> snd (strtol number) = [] \<Longrightarrow> cmd_owrite c w = Inr (- ENOENT, c, w)"
proof -
  note nr = prompt_nr [OF s nm(1)] nm(2) and nn = dir_fields(5) [OF sessionD(1) [OF s]]
  show "ls_arg c nm \<Longrightarrow> ls_command r fuel c w = Inr (- ENOENT, c, w)"
    using nr nn by (auto simp: ls_command_def ls_arg_def arg_is_def dot_def ENOENT_def)
  show "ls_arg c nm \<Longrightarrow> 0 < fuel \<Longrightarrow> cmd_catr fuel c w = Inr (- ENOENT, c, w)"
    using nr nn by (cases fuel) (auto simp: cmd_catr.simps ls_arg_def arg_is_def dot_def ENOENT_def)
  show "copy_args c nm path \<Longrightarrow> cmd_export h c w = Inr (Some (- ENOENT), c, w, h)"
    using nr by (simp add: cmd_export_def copy_args_def ENOENT_def)
  show "copy_args c nm path \<Longrightarrow> cmd_write sched1 sched2 c w = Inr (- ENOENT, c, w)"
    using nr by (simp add: cmd_write_def copy_args_def ENOENT_def)
  show "owrite_args c nm number y \<Longrightarrow> snd (strtol number) = [] \<Longrightarrow> cmd_owrite c w = Inr (- ENOENT, c, w)"
    using nr by (cases "strtol number") (simp add: cmd_owrite_def owrite_args_def ENOENT_def)
qed

text \<open>\<open>import\<close> makes the file before it opens the one on the host.\<close>

lemma cmd_import_missing:
  assumes s: "session N c w k es" and a: "copy_args c nm path" and cc: "can_create N w (cur_dir c) k es nm j es'"
    and r: "room w es es'" and h: "h_files h path = None"
  shows "\<exists>w'. cmd_import h c w = Inr (- ENOENT, c, w') \<and> session N c w' k es' \<and> same_env w w' \<and>
    files w' = (files w)(k \<mapsto> (I_DIR, dir_bytes es'), j \<mapsto> (I_FILE, []))"
proof -
  obtain w1 where w1: "testfs_create_file_or_dir (cur_dir c) I_FILE (Some nm) w = Inr (0, w1)" "session N c w1 k es'"
    "same_env w w1" "files w1 = (files w)(k \<mapsto> (I_DIR, dir_bytes es'), j \<mapsto> (I_FILE, []))"
    using session_create [OF s cc r] by blast
  have nm: "0 \<notin> set nm" "dir_lookup es nm = None" "dir_insert nm (int j) es = Some es'" using cc by (simp_all add: can_create_def)
  have l: "dir_lookup es' nm = Some (int j)" using dir_insert_lookup(1) [OF nm(3,2)] by simp
  have f: "files w1 j = Some (I_FILE, [])" using w1(4) by simp
  obtain q w2 where g: "testfs_get_inode (int j) w1 = Inr (q, w2)" "testfs_inode_get_type q w2 = Inr I_FILE" "vol_ok N w2"
    "\<And>w3 ms. printed ms N w2 w3 \<Longrightarrow> \<exists>w4. testfs_put_inode q w3 = Inr w4 \<and> printed ms N w1 w4"
    using get_for [OF sessionD(6) [OF w1(2)] session_clean [OF w1(2)] f] by blast
  obtain w3 where w3: "testfs_put_inode q w2 = Inr w3" "printed [] N w1 w3" using g(4) [OF printed_refl [OF g(3)]] by blast
  have "cmd_import h c w = Inr (- ENOENT, c, w3)"
    using a w1(1) prompt_nr [OF w1(2) nm(1)] l g(1,2) h w3(1) by (simp add: cmd_import_def copy_args_def)
  then show ?thesis
    using session_printed [OF w1(2) w3(2)] w3(2) w1(3,4) by (auto simp: printed_def same_env_def)
qed

text \<open>A name of the wrong kind, an offset that is not a number, a file of the host that cannot be opened.\<close>

lemma opened:
  assumes s: "session N c w k es" and nm: "0 \<notin> set nm" and l: "dir_lookup es nm = Some (int j)" and f: "files w j = Some (t, x)"
  shows "\<exists>q w1 w2. testfs_dir_name_to_inode_nr (cur_dir c) (Some nm) w = Inr (int j) \<and> testfs_get_inode (int j) w = Inr (q, w1) \<and>
    testfs_inode_get_type q w1 = Inr t \<and> testfs_put_inode q w1 = Inr w2 \<and> session N c w2 k es \<and> printed [] N w w2"
proof -
  obtain q w1 where g: "testfs_get_inode (int j) w = Inr (q, w1)" "testfs_inode_get_type q w1 = Inr t" "vol_ok N w1"
    "\<And>w2 ms. printed ms N w1 w2 \<Longrightarrow> \<exists>w3. testfs_put_inode q w2 = Inr w3 \<and> printed ms N w w3"
    using get_for [OF sessionD(6) [OF s] session_clean [OF s] f] by blast
  obtain w2 where w2: "testfs_put_inode q w1 = Inr w2" "printed [] N w w2" using g(4) [OF printed_refl [OF g(3)]] by blast
  have "testfs_dir_name_to_inode_nr (cur_dir c) (Some nm) w = Inr (int j)" using prompt_nr [OF s nm] l by simp
  then show ?thesis using g(1,2) w2 session_printed [OF s w2(2)] by blast
qed

lemma wrong_kind:
  assumes s: "session N c w k es" and nm: "0 \<notin> set nm" and l: "dir_lookup es nm = Some (int j)" and f: "files w j = Some (I_DIR, x)"
  shows "copy_args c nm path \<Longrightarrow> \<exists>w'. cmd_write sched1 sched2 c w = Inr (- EISDIR, c, w') \<and> session N c w' k es \<and> printed [] N w w'"
    "owrite_args c nm number y \<Longrightarrow> snd (strtol number) = [] \<Longrightarrow>
      \<exists>w'. cmd_owrite c w = Inr (- EISDIR, c, w') \<and> session N c w' k es \<and> printed [] N w w'"
    "copy_args c nm path \<Longrightarrow> h_writable h path \<Longrightarrow>
      \<exists>w'. cmd_export h c w = Inr (None, c, w', h\<lparr>h_files := (h_files h)(path \<mapsto> [])\<rparr>) \<and> session N c w' k es \<and> printed [] N w w'"
proof -
  obtain q w1 w2 where o: "testfs_dir_name_to_inode_nr (cur_dir c) (Some nm) w = Inr (int j)" "testfs_get_inode (int j) w = Inr (q, w1)"
    "testfs_inode_get_type q w1 = Inr I_DIR" "testfs_put_inode q w1 = Inr w2" "session N c w2 k es" "printed [] N w w2"
    using opened [OF s nm l f] by blast
  show "copy_args c nm path \<Longrightarrow> \<exists>w'. cmd_write sched1 sched2 c w = Inr (- EISDIR, c, w') \<and> session N c w' k es \<and> printed [] N w w'"
    using o by (simp add: cmd_write_def copy_args_def)
  show "owrite_args c nm number y \<Longrightarrow> snd (strtol number) = [] \<Longrightarrow>
      \<exists>w'. cmd_owrite c w = Inr (- EISDIR, c, w') \<and> session N c w' k es \<and> printed [] N w w'"
    using o by (cases "strtol number") (simp add: cmd_owrite_def owrite_args_def)
  show "copy_args c nm path \<Longrightarrow> h_writable h path \<Longrightarrow>
      \<exists>w'. cmd_export h c w = Inr (None, c, w', h\<lparr>h_files := (h_files h)(path \<mapsto> [])\<rparr>) \<and> session N c w' k es \<and> printed [] N w w'"
    using o by (simp add: cmd_export_def copy_args_def Let_def)
qed

lemma host_closed:
  assumes s: "session N c w k es" and nm: "0 \<notin> set nm" and l: "dir_lookup es nm = Some (int j)" and f: "files w j = Some (t, x)"
    and "copy_args c nm path" "\<not> h_writable h path"
  shows "\<exists>w'. cmd_export h c w = Inr (None, c, w', h) \<and> session N c w' k es \<and> printed [] N w w'"
  using opened [OF s nm l f] assms(5,6) by (auto simp: cmd_export_def copy_args_def)

lemma bad_number:
  assumes "owrite_args c nm number y" "snd (strtol number) \<noteq> []"
  shows "cmd_owrite c w = Inr (- 1, c, w)"
  using assms by (cases "strtol number") (simp add: cmd_owrite_def owrite_args_def)

text \<open>A wrong number of arguments.\<close>

fun wrong_count :: "command \<Rightarrow> nat \<Rightarrow> bool" where
  "wrong_count Touch n = (n = 0)"
| "wrong_count Stat n = (n = 0)"
| "wrong_count Cat n = (n = 0)"
| "wrong_count Cd n = (n \<noteq> 1)"
| "wrong_count Rm n = (n \<noteq> 1)"
| "wrong_count Mkdir n = (n \<noteq> 1)"
| "wrong_count Pwd n = (n \<noteq> 0)"
| "wrong_count Checkfs n = (n \<noteq> 0)"
| "wrong_count Ls n = (1 < n)"
| "wrong_count Lsr n = (1 < n)"
| "wrong_count Catr n = (1 < n)"
| "wrong_count Import n = (n \<noteq> 2)"
| "wrong_count Write n = (n \<noteq> 2)"
| "wrong_count Owrite n = (n \<noteq> 3)"
| "wrong_count _ n = False"

lemma usage_refused:
  assumes "wrong_count command n" "nargs (sh_ctx sh) = int (Suc n)" "0 < e_fuel e"
  shows "run_command e command sh = Inr (- EINVAL, sh)"
proof -
  have "e_fuel e = Suc (e_fuel e - 1)" using assms(3) by simp
  then obtain m where "e_fuel e = Suc m" ..
  then show ?thesis
    using assms(1,2) by (cases command) (auto simp: run_command_def with_world_def cmd_create_def cmd_stat_def cmd_cat_def
        cmd_cd_def cmd_rm_def cmd_mkdir_def cmd_pwd_def cmd_checkfs_def cmd_ls_def cmd_lsr_def ls_command_def cmd_catr.simps
        cmd_import_def cmd_write_def cmd_owrite_def)
qed

section \<open>The help\<close>

definition help_text :: "message list" where
  "help_text = HelpHeader # map (\<lambda>(name, _, _). HelpEntry name) cmdtable"

lemma fold_print: "vol_ok N w \<Longrightarrow> printed (map f xs) N w (fold (\<lambda>x. print (f x)) xs w)"
proof (induction xs arbitrary: w)
  case Nil
  then show ?case by (simp add: printed_refl)
next
  case (Cons x xs)
  note p = printed_print [OF Cons.prems, of "f x"]
  have "vol_ok N (print (f x) w)" using p by (simp add: printed_def)
  then show ?case using printed_trans [OF p Cons.IH] by simp
qed

lemma cmd_help_eq:
  assumes "vol_ok N w"
  shows "\<exists>w'. cmd_help c w = Inr (0, c, w') \<and> printed help_text N w w'"
proof -
  note p = printed_print [OF assms, of HelpHeader]
  have v: "vol_ok N (print HelpHeader w)" using p by (simp add: printed_def)
  have "cmd_help c w = Inr (0, c, fold (\<lambda>x. print (HelpEntry (fst x))) cmdtable (print HelpHeader w))"
    by (simp add: cmd_help_def case_prod_unfold)
  then show ?thesis
    using printed_trans [OF p fold_print [OF v, of "\<lambda>x. HelpEntry (fst x)" cmdtable]] by (simp add: help_text_def case_prod_unfold)
qed

section \<open>Property\<close>

text \<open>
  C20.  \<open>owrite f n text\<close> overwrites the file \<open>f\<close> from byte \<open>n\<close> on and cuts it off behind the new bytes: the file
  becomes its first \<open>n\<close> bytes and the text, for any offset within the file and any text that the file and the free
  space can take.  Nothing else changes, and the session is at the prompt again.
\<close>

theorem owrite_correct:
  assumes "session N c w k es" "owrite_args c nm number y" "0 \<notin> set nm" "0 \<notin> set y" "y \<noteq> []"
    and "strtol number = (int n, [])" "n \<le> length x" "n + length y \<le> 132 * 512"
    and "dir_lookup es nm = Some (int j)" "files w j = Some (I_FILE, x)"
    and "needs (nblocks (length x)) (nblocks (n + length y)) \<le> nfree (w_fs w)"
  shows "\<exists>w'. cmd_owrite c w = Inr (0, c, w') \<and> session N c w' k es \<and> same_env w w' \<and>
    files w' = (files w)(j \<mapsto> (I_FILE, take n x @ y))"
  by (rule cmd_owrite_eq [OF assms])

theorem owrite_correct_witness:
  "\<exists>(w :: ram_world) w'. cmd_owrite \<lparr>nargs = 4, cmd = [Some [120], Some [97], Some [49], Some [7, 8]], cur_dir = start_dir\<rparr> w =
       Inr (0, \<lparr>nargs = 4, cmd = [Some [120], Some [97], Some [49], Some [7, 8]], cur_dir = start_dir\<rparr>, w') \<and>
     files w 1 = Some (I_FILE, [1, 2, 3]) \<and> files w' 1 = Some (I_FILE, [1, 7, 8])"
proof -
  let ?c = "\<lparr>nargs = 4, cmd = [Some [120], Some [97], Some [49], Some [7, 8]], cur_dir = start_dir\<rparr>"
  obtain w :: ram_world where w: "session 8192 (copy_ctx [97] [104]) w 0 (root_with 1)" "files w 1 = Some (I_FILE, [1, 2, 3])"
    using start_import by blast
  have s: "session 8192 ?c w 0 (root_with 1)" by (rule session_ctx [OF w(1)]) (simp add: copy_ctx_def)
  have a: "owrite_args ?c [97] [49] [7, 8]" by (simp add: owrite_args_def cmd_arg_def nth_r_def)
  have t: "strtol [49] = (int 1, [])" by (simp add: strtol_def is_digit_def is_space_def digits_value_def)
  have n: "needs (nblocks (length [1, 2, 3])) (nblocks (1 + length [7, 8])) \<le> nfree (w_fs w)" by (simp add: needs_0)
  show ?thesis using owrite_correct [OF s a _ _ _ t _ _ _ _ n] root_with(3) [of 1] w(2) by fastforce
qed

end
