(* ===== verification/Machine.thy ===== *)
theory Machine
  imports CommandsOk
begin

text \<open>
  The file system as an abstract machine: a map from inode numbers to files, the number and the entries of the
  current directory, and the files of the host.  Every step of the machine is a command of the program.
\<close>

section \<open>The abstract machine\<close>

text \<open>
  \<open>obeys e command args F k es H ret ms F' k' es' H'\<close>: in the volume \<open>F\<close> and the directory \<open>k\<close> with the entries
  \<open>es\<close>, and with the host's files \<open>H\<close>, the command returns \<open>ret\<close>, prints \<open>ms\<close> and leaves \<open>F'\<close>, \<open>k'\<close>, \<open>es'\<close> and \<open>H'\<close>.
\<close>

inductive obeys :: "env \<Rightarrow> command \<Rightarrow> byte list list \<Rightarrow> fmap \<Rightarrow> nat \<Rightarrow> dirent list \<Rightarrow> host \<Rightarrow>
    int \<Rightarrow> message list \<Rightarrow> fmap \<Rightarrow> nat \<Rightarrow> dirent list \<Rightarrow> host \<Rightarrow> bool" for e where
  touch: "nms \<noteq> [] \<Longrightarrow> touches k F es nms ret F' es' \<Longrightarrow> obeys e Touch nms F k es H ret [] F' k es' H"
| mkdir: "dir_lookup es nm = None \<Longrightarrow> dir_insert nm (int j) es = Some es' \<Longrightarrow> free_at F j \<Longrightarrow> fits F es es' 1 \<Longrightarrow>
    obeys e Mkdir [nm] F k es H 0 []
      (F(k \<mapsto> (I_DIR, dir_bytes es'), j \<mapsto> (I_DIR, dir_bytes (empty_dir j k)))) k es' H"
| mkdir_there: "dir_lookup es nm \<noteq> None \<Longrightarrow> obeys e Mkdir [nm] F k es H (- EEXIST) [] F k es H"
| rm: "nm \<noteq> [46] \<Longrightarrow> nm \<noteq> [46, 46] \<Longrightarrow> dir_lookup es nm = Some (int j) \<Longrightarrow> j \<noteq> k \<Longrightarrow> F j = Some (t, x) \<Longrightarrow>
    (t = I_DIR \<Longrightarrow> x = dir_bytes cs \<and> list_all dirent_ok cs \<and> list_all dead_entry cs) \<Longrightarrow>
    obeys e Rm [nm] F k es H 0 [] (F(k \<mapsto> (I_DIR, dir_bytes (dir_remove nm es)), j := None)) k (dir_remove nm es) H"
| rm_special: "nm = [46] \<or> nm = [46, 46] \<Longrightarrow> obeys e Rm [nm] F k es H (- EINVAL) [] F k es H"
| rm_missing: "nm \<noteq> [46] \<Longrightarrow> nm \<noteq> [46, 46] \<Longrightarrow> dir_lookup es nm = None \<Longrightarrow>
    obeys e Rm [nm] F k es H (- ENOENT) [] F k es H"
| rm_full: "nm \<noteq> [46] \<Longrightarrow> nm \<noteq> [46, 46] \<Longrightarrow> dir_lookup es nm = Some (int j) \<Longrightarrow> F j = Some (I_DIR, dir_bytes cs) \<Longrightarrow>
    list_all dirent_ok cs \<Longrightarrow> \<not> list_all dead_entry cs \<Longrightarrow> obeys e Rm [nm] F k es H (- ENOTEMPTY) [] F k es H"
| cd: "nm = [47] \<and> j = 0 \<or> nm \<noteq> [47] \<and> dir_lookup es nm = Some (int j) \<Longrightarrow> F j = Some (I_DIR, dir_bytes cs) \<Longrightarrow>
    list_all dirent_ok cs \<Longrightarrow> obeys e Cd [nm] F k es H 0 [] F j cs H"
| cd_missing: "nm \<noteq> [47] \<Longrightarrow> dir_lookup es nm = None \<Longrightarrow> obeys e Cd [nm] F k es H (- ENOENT) [] F k es H"
| cd_file: "nm \<noteq> [47] \<Longrightarrow> dir_lookup es nm = Some (int j) \<Longrightarrow> F j = Some (I_FILE, x) \<Longrightarrow>
    obeys e Cd [nm] F k es H (- ENOTDIR) [] F k es H"
| cat: "nms \<noteq> [] \<Longrightarrow> linked F es \<Longrightarrow> cat_spec F es nms = (ret, ms) \<Longrightarrow> obeys e Cat nms F k es H ret ms F k es H"
| stat: "nms \<noteq> [] \<Longrightarrow> linked F es \<Longrightarrow> stat_spec F es nms = (ret, ms) \<Longrightarrow> obeys e Stat nms F k es H ret ms F k es H"
| ls: "command = Ls \<and> \<not> r \<or> command = Lsr \<and> r \<Longrightarrow> args = [] \<and> nm = [46] \<or> args = [nm] \<Longrightarrow>
    dir_lookup es nm = Some (int j) \<Longrightarrow> F j = Some (I_DIR, dir_bytes cs) \<Longrightarrow> list_all dirent_ok cs \<Longrightarrow>
    listing r F cs ms n \<Longrightarrow> n \<le> e_fuel e \<Longrightarrow> obeys e command args F k es H 0 ms F k es H"
| catr: "args = [] \<and> nm = [46] \<or> args = [nm] \<Longrightarrow> dir_lookup es nm = Some (int j) \<Longrightarrow> F j = Some (I_DIR, dir_bytes cs) \<Longrightarrow>
    list_all dirent_ok cs \<Longrightarrow> catting F nm cs ms n \<Longrightarrow> n < e_fuel e \<Longrightarrow> obeys e Catr args F k es H 0 ms F k es H"
| pwd: "path_to F k es ns \<Longrightarrow> length ns < e_fuel e \<Longrightarrow> obeys e Pwd [] F k es H 0 (pwd_out ns @ [PwdEnd]) F k es H"
| checkfs: "F 0 = Some (I_DIR, dir_bytes rs) \<Longrightarrow> list_all dirent_ok rs \<Longrightarrow> visits F rs js n \<Longrightarrow> distinct (0 # js) \<Longrightarrow>
    n < e_fuel e \<Longrightarrow> obeys e Checkfs [] F k es H 0 (check_report F js) F k es H"
| import: "dir_lookup es nm = None \<Longrightarrow> dir_insert nm (int j) es = Some es' \<Longrightarrow> free_at F j \<Longrightarrow> h_files H path = Some data \<Longrightarrow>
    length data mod 512 \<noteq> 0 \<Longrightarrow> length data \<le> 132 * 512 \<Longrightarrow> fits F es es' (needs 0 (nblocks (length data))) \<Longrightarrow>
    obeys e Import [nm, path] F k es H 0 [SizeIs (int (length data))]
      (F(k \<mapsto> (I_DIR, dir_bytes es'), j \<mapsto> (I_FILE, data))) k es' H"
| import_missing: "dir_lookup es nm = None \<Longrightarrow> dir_insert nm (int j) es = Some es' \<Longrightarrow> free_at F j \<Longrightarrow> h_files H path = None \<Longrightarrow>
    fits F es es' 0 \<Longrightarrow> obeys e Import [nm, path] F k es H (- ENOENT) []
      (F(k \<mapsto> (I_DIR, dir_bytes es'), j \<mapsto> (I_FILE, []))) k es' H"
| import_there: "dir_lookup es nm \<noteq> None \<Longrightarrow> obeys e Import [nm, path] F k es H (- EEXIST) [] F k es H"
| export: "dir_lookup es nm = Some (int j) \<Longrightarrow> F j = Some (I_FILE, x) \<Longrightarrow> h_writable H path \<Longrightarrow>
    obeys e Export [nm, path] F k es H (e_junk e) [SizeIs (int (length x))] F k es
      (H\<lparr>h_files := (h_files H)(path \<mapsto> x)\<rparr>)"
| owrite: "strtol number = (int n, []) \<Longrightarrow> n \<le> length x \<Longrightarrow> n + length y \<le> 132 * 512 \<Longrightarrow> y \<noteq> [] \<Longrightarrow>
    dir_lookup es nm = Some (int j) \<Longrightarrow> F j = Some (I_FILE, x) \<Longrightarrow>
    taken F + needs (nblocks (length x)) (nblocks (n + length y)) \<le> 7680 \<Longrightarrow>
    obeys e Owrite [nm, number, y] F k es H 0 [] (F(j \<mapsto> (I_FILE, take n x @ y))) k es H"
| owrite_no_number: "snd (strtol number) \<noteq> [] \<Longrightarrow> obeys e Owrite [nm, number, y] F k es H (- 1) [] F k es H"
| export_dir: "dir_lookup es nm = Some (int j) \<Longrightarrow> F j = Some (I_DIR, x) \<Longrightarrow> h_writable H path \<Longrightarrow>
    obeys e Export [nm, path] F k es H (e_junk e) [] F k es (H\<lparr>h_files := (h_files H)(path \<mapsto> [])\<rparr>)"
| export_closed: "dir_lookup es nm = Some (int j) \<Longrightarrow> F j = Some (t, x) \<Longrightarrow> \<not> h_writable H path \<Longrightarrow>
    obeys e Export [nm, path] F k es H (e_junk e) [] F k es H"
| is_dir: "dir_lookup es nm = Some (int j) \<Longrightarrow> F j = Some (I_DIR, x) \<Longrightarrow>
    command = Write \<and> args = [nm, path] \<or> command = Owrite \<and> args = [nm, number, y] \<and> snd (strtol number) = [] \<Longrightarrow>
    obeys e command args F k es H (- EISDIR) [] F k es H"
| missing: "dir_lookup es nm = None \<Longrightarrow>
    (command = Ls \<or> command = Lsr \<or> command = Catr) \<and> args = [nm] \<or>
    (command = Export \<or> command = Write) \<and> args = [nm, path] \<or>
    command = Owrite \<and> args = [nm, number, y] \<and> snd (strtol number) = [] \<Longrightarrow> 0 < e_fuel e \<Longrightarrow>
    obeys e command args F k es H (- ENOENT) [] F k es H"
| usage: "wrong_count command (length args) \<Longrightarrow> 0 < e_fuel e \<Longrightarrow> obeys e command args F k es H (- EINVAL) [] F k es H"
| help_all: "obeys e Help args F k es H 0 help_text F k es H"
| mkfs: "obeys e Mkfs args F k es H 0 [] [0 \<mapsto> (I_DIR, dir_bytes (empty_dir 0 0))] 0 (empty_dir 0 0) H"

section \<open>The commands refine it\<close>

text \<open>The prompt of the program: the state at rest, and what it has printed.\<close>

definition at_prompt :: "nat \<Rightarrow> cmd_context \<Rightarrow> 'd world \<Rightarrow> fmap \<Rightarrow> nat \<Rightarrow> dirent list \<Rightarrow> message list \<Rightarrow> bool" where
  "at_prompt N c w F k es out \<longleftrightarrow> session N c w k es \<and> files w = F \<and> fs_out (w_fs w) = out"

lemma at_promptD:
  assumes "at_prompt N c w F k es out"
  shows "session N c w k es" "files w = F" "vol_ok N w" "fs_out (w_fs w) = out"
  using assms sessionD(6) by (auto simp: at_prompt_def)

lemma printed_prompt:
  assumes "session N c w' k es" "printed ms N w w'" "at_prompt N c w F k es out"
  shows "at_prompt N c w' F k es (out @ ms)"
  using assms by (simp add: at_prompt_def printed_def)

lemma prompt_env:
  assumes "at_prompt N c w F k es out" "session N c' w' k' es'" "files w' = F'" "same_env w w'"
  shows "at_prompt N c' w' F' k' es' (out @ [])"
  using assms by (simp add: at_prompt_def same_env_def)

text \<open>The arguments as the command sees them.\<close>

lemma args_are_one: "args_are c [nm] \<longleftrightarrow> arg_is c nm \<and> 0 \<notin> set nm"
  by (auto simp: arg_is_def args_are_def)

lemma args_are_two: "args_are c [nm, x] \<longleftrightarrow> copy_args c nm x \<and> 0 \<notin> set nm \<and> 0 \<notin> set x"
  by (auto simp: copy_args_def args_are_def less_Suc_eq)

lemma args_are_three: "args_are c [nm, x, y] \<longleftrightarrow> owrite_args c nm x y \<and> 0 \<notin> set nm \<and> 0 \<notin> set x \<and> 0 \<notin> set y"
  by (auto simp: owrite_args_def args_are_def less_Suc_eq)

lemma args_are_none: "args_are c [] \<longleftrightarrow> nargs c = 1"
  by (simp add: args_are_def)

lemmas args_are_simps = args_are_one args_are_two args_are_three args_are_none

lemma args_are_ls: "args_are c args \<Longrightarrow> args = [] \<and> nm = [46] \<or> args = [nm] \<Longrightarrow> ls_arg c nm \<and> 0 \<notin> set nm"
  by (auto simp: args_are_simps ls_arg_def)

text \<open>A command that runs, from one prompt to the next.\<close>

definition runs :: "nat \<Rightarrow> env \<Rightarrow> command \<Rightarrow> 'd shell \<Rightarrow> int \<Rightarrow> fmap \<Rightarrow> nat \<Rightarrow> dirent list \<Rightarrow> host \<Rightarrow> message list \<Rightarrow> bool" where
  "runs N e command sh ret F k es H out \<longleftrightarrow> (\<exists>c w.
     run_command e command sh = Inr (ret, sh\<lparr>sh_world := w, sh_ctx := c, sh_host := H\<rparr>) \<and>
     at_prompt N c w F k es out \<and> cmd c = cmd (sh_ctx sh))"

lemma runs_world:
  assumes "run_command e command sh = with_world r sh" "r = Inr (ret, c, w)" "at_prompt N c w F k es out" "cmd c = cmd (sh_ctx sh)"
  shows "runs N e command sh ret F k es (sh_host sh) out"
  using assms by (auto simp: runs_def with_world_def)

lemma runs_same_ctx:
  assumes "run_command e command sh = Inr (ret, sh\<lparr>sh_world := w, sh_host := H\<rparr>)" "at_prompt N (sh_ctx sh) w F k es out"
  shows "runs N e command sh ret F k es H out"
proof -
  have "sh\<lparr>sh_world := w, sh_host := H\<rparr> = sh\<lparr>sh_world := w, sh_ctx := sh_ctx sh, sh_host := H\<rparr>" by (cases sh) simp
  then show ?thesis using assms unfolding runs_def by metis
qed

text \<open>The commands that only print, and those that change the volume or the directory and print nothing.\<close>

lemma runs_reading:
  assumes p: "at_prompt N (sh_ctx sh) (sh_world sh) F k es out"
    and r: "run_command e command sh = with_world r sh"
    and ex: "\<exists>w'. r = Inr (ret, sh_ctx sh, w') \<and> session N (sh_ctx sh) w' k es \<and> printed ms N (sh_world sh) w'"
  shows "runs N e command sh ret F k es (sh_host sh) (out @ ms)"
  using ex runs_world [OF r] printed_prompt [OF _ _ p] by blast

lemma runs_writing:
  assumes p: "at_prompt N (sh_ctx sh) (sh_world sh) F k es out"
    and r: "run_command e command sh = with_world r sh"
    and ex: "\<exists>c' w'. r = Inr (ret, c', w') \<and> session N c' w' k' es' \<and> same_env (sh_world sh) w' \<and> files w' = F' \<and>
      cmd c' = cmd (sh_ctx sh)"
  shows "runs N e command sh ret F' k' es' (sh_host sh) (out @ [])"
  using ex runs_world [OF r] prompt_env [OF p] by blast

lemma runs_nothing:
  assumes p: "at_prompt N (sh_ctx sh) (sh_world sh) F k es out"
    and r: "run_command e command sh = with_world r sh" "r = Inr (ret, sh_ctx sh, sh_world sh)"
  shows "runs N e command sh ret F k es (sh_host sh) (out @ [])"
  by (rule runs_reading [OF p r(1)]) (use r(2) at_promptD(1,3) [OF p] printed_refl in blast)

lemmas run_simps = run_command_def cmd_ls_def cmd_lsr_def

subsection \<open>Making and removing\<close>

lemma runs_touch:
  assumes p: "at_prompt N (sh_ctx sh) (sh_world sh) F k es out" and a: "args_are (sh_ctx sh) nms" "nms \<noteq> []"
    and t: "touches k F es nms ret F' es'"
  shows "runs N e Touch sh ret F' k es' (sh_host sh) (out @ [])"
proof (rule runs_writing [OF p])
  show "\<exists>c' w'. cmd_create (sh_ctx sh) (sh_world sh) = Inr (ret, c', w') \<and> session N c' w' k es' \<and>
      same_env (sh_world sh) w' \<and> files w' = F' \<and> cmd c' = cmd (sh_ctx sh)"
    using cmd_touch_eq [OF at_promptD(1) [OF p] a] t unfolding at_promptD(2) [OF p] by blast
qed (simp add: run_command_def)

lemma runs_mkdir:
  assumes p: "at_prompt N (sh_ctx sh) (sh_world sh) F k es out" and a: "arg_is (sh_ctx sh) nm" "0 \<notin> set nm"
  shows "dir_lookup es nm = None \<Longrightarrow> dir_insert nm (int j) es = Some es' \<Longrightarrow> free_at F j \<Longrightarrow> fits F es es' 1 \<Longrightarrow>
      runs N e Mkdir sh 0 (F(k \<mapsto> (I_DIR, dir_bytes es'), j \<mapsto> (I_DIR, dir_bytes (empty_dir j k)))) k es' (sh_host sh) (out @ [])"
    "dir_lookup es nm \<noteq> None \<Longrightarrow> runs N e Mkdir sh (- EEXIST) F k es (sh_host sh) (out @ [])"
proof -
  note s = at_promptD(1) [OF p] and F = at_promptD(2) [OF p] and v = at_promptD(3) [OF p]
  show "runs N e Mkdir sh 0 (F(k \<mapsto> (I_DIR, dir_bytes es'), j \<mapsto> (I_DIR, dir_bytes (empty_dir j k)))) k es' (sh_host sh) (out @ [])"
    if n: "dir_lookup es nm = None" "dir_insert nm (int j) es = Some es'" "free_at F j" "fits F es es' 1"
  proof -
    have "can_create N (sh_world sh) (cur_dir (sh_ctx sh)) k es nm j es'" "room_for_dir (sh_world sh) es es'"
      using can_create_abstract [OF s a(2) n(1,2)] room_abstract(2) [OF v] n(3,4) F by simp_all
    from cmd_mkdir_eq [OF s a(1) this] show ?thesis
      using F by (intro runs_writing [OF p]) (auto simp: run_command_def)
  qed
  show "runs N e Mkdir sh (- EEXIST) F k es (sh_host sh) (out @ [])" if "dir_lookup es nm \<noteq> None"
    by (rule runs_nothing [OF p])
      (use create_exists [OF sessionD(1) [OF s] a(2) that] a(1) in \<open>simp_all add: run_command_def cmd_mkdir_def arg_is_def\<close>)
qed

lemma runs_rm:
  assumes p: "at_prompt N (sh_ctx sh) (sh_world sh) F k es out" and a: "arg_is (sh_ctx sh) nm" "0 \<notin> set nm"
    and r: "nm \<noteq> [46]" "nm \<noteq> [46, 46]" "dir_lookup es nm = Some (int j)" "j \<noteq> k" "F j = Some (t, x)"
    and "t = I_DIR \<Longrightarrow> x = dir_bytes cs \<and> list_all dirent_ok cs \<and> list_all dead_entry cs"
  shows "runs N e Rm sh 0 (F(k \<mapsto> (I_DIR, dir_bytes (dir_remove nm es)), j := None)) k (dir_remove nm es) (sh_host sh) (out @ [])"
proof (rule runs_writing [OF p])
  show "\<exists>c' w'. cmd_rm (sh_ctx sh) (sh_world sh) = Inr (0, c', w') \<and> session N c' w' k (dir_remove nm es) \<and>
      same_env (sh_world sh) w' \<and> files w' = F(k \<mapsto> (I_DIR, dir_bytes (dir_remove nm es)), j := None) \<and>
      cmd c' = cmd (sh_ctx sh)"
    using cmd_rm_eq [OF at_promptD(1) [OF p] a r(1-4)] assms(8,9) unfolding at_promptD(2) [OF p] by blast
qed (simp add: run_command_def)

lemma runs_rm_refused:
  assumes p: "at_prompt N (sh_ctx sh) (sh_world sh) F k es out" and a: "arg_is (sh_ctx sh) nm" "0 \<notin> set nm"
  shows "nm = [46] \<or> nm = [46, 46] \<Longrightarrow> runs N e Rm sh (- EINVAL) F k es (sh_host sh) (out @ [])"
    "nm \<noteq> [46] \<Longrightarrow> nm \<noteq> [46, 46] \<Longrightarrow> dir_lookup es nm = None \<Longrightarrow> runs N e Rm sh (- ENOENT) F k es (sh_host sh) (out @ [])"
    "nm \<noteq> [46] \<Longrightarrow> nm \<noteq> [46, 46] \<Longrightarrow> dir_lookup es nm = Some (int j) \<Longrightarrow> F j = Some (I_DIR, dir_bytes cs) \<Longrightarrow>
      list_all dirent_ok cs \<Longrightarrow> \<not> list_all dead_entry cs \<Longrightarrow> runs N e Rm sh (- ENOTEMPTY) F k es (sh_host sh) (out @ [])"
proof -
  note s = at_promptD(1) [OF p] and F = at_promptD(2) [OF p] and v = at_promptD(3) [OF p]
  have t: "printed [] N (sh_world sh) (tx TX_NONE (tx TX_RM (sh_world sh)))"
    using vol_tx [OF v] vol_tx [OF vol_tx(1) [OF v]] sessionD(2) [OF s] by (simp add: printed_def)
  note rd = runs_reading [OF p, where e = e and command = Rm and r = "cmd_rm (sh_ctx sh) (sh_world sh)"]
  show "runs N e Rm sh (- EINVAL) F k es (sh_host sh) (out @ [])" if "nm = [46] \<or> nm = [46, 46]"
    by (rule rd) (use cmd_rm_refused(1) [OF s a(1) that] t session_printed [OF s t] in \<open>auto simp: run_command_def\<close>)
  show "runs N e Rm sh (- ENOENT) F k es (sh_host sh) (out @ [])" if "nm \<noteq> [46]" "nm \<noteq> [46, 46]" "dir_lookup es nm = None"
    by (rule rd) (use cmd_rm_refused(2) [OF s a that] t session_printed [OF s t] in \<open>auto simp: run_command_def\<close>)
  show "runs N e Rm sh (- ENOTEMPTY) F k es (sh_host sh) (out @ [])" if r: "nm \<noteq> [46]" "nm \<noteq> [46, 46]"
    "dir_lookup es nm = Some (int j)" "F j = Some (I_DIR, dir_bytes cs)" "list_all dirent_ok cs" "\<not> list_all dead_entry cs"
  proof (rule runs_writing [OF p])
    show "\<exists>c' w'. cmd_rm (sh_ctx sh) (sh_world sh) = Inr (- ENOTEMPTY, c', w') \<and> session N c' w' k es \<and>
        same_env (sh_world sh) w' \<and> files w' = F \<and> cmd c' = cmd (sh_ctx sh)"
      using cmd_rm_refused(3) [OF s a r(1-3) _ r(5,6)] r(4) unfolding F by blast
  qed (simp add: run_command_def)
qed

subsection \<open>Looking around\<close>

lemma runs_cd:
  assumes p: "at_prompt N (sh_ctx sh) (sh_world sh) F k es out" and a: "arg_is (sh_ctx sh) nm" "0 \<notin> set nm"
  shows "nm = [47] \<and> j = 0 \<or> nm \<noteq> [47] \<and> dir_lookup es nm = Some (int j) \<Longrightarrow> F j = Some (I_DIR, dir_bytes cs) \<Longrightarrow>
      list_all dirent_ok cs \<Longrightarrow> runs N e Cd sh 0 F j cs (sh_host sh) (out @ [])"
    "nm \<noteq> [47] \<Longrightarrow> dir_lookup es nm = None \<Longrightarrow> runs N e Cd sh (- ENOENT) F k es (sh_host sh) (out @ [])"
    "nm \<noteq> [47] \<Longrightarrow> dir_lookup es nm = Some (int j) \<Longrightarrow> F j = Some (I_FILE, x) \<Longrightarrow>
      runs N e Cd sh (- ENOTDIR) F k es (sh_host sh) (out @ [])"
proof -
  note s = at_promptD(1) [OF p] and F = at_promptD(2) [OF p]
  show "runs N e Cd sh 0 F j cs (sh_host sh) (out @ [])"
    if r: "nm = [47] \<and> j = 0 \<or> nm \<noteq> [47] \<and> dir_lookup es nm = Some (int j)" "F j = Some (I_DIR, dir_bytes cs)"
      "list_all dirent_ok cs"
  proof (rule runs_writing [OF p])
    obtain q w' where "cmd_cd (sh_ctx sh) (sh_world sh) = Inr (0, (sh_ctx sh)\<lparr>cur_dir := q\<rparr>, w')"
      "session N ((sh_ctx sh)\<lparr>cur_dir := q\<rparr>) w' j cs" "files w' = F" "same_env (sh_world sh) w'"
      using cmd_cd_eq [OF s a r(1) _ r(3)] r(2) unfolding F by blast
    moreover have "cmd ((sh_ctx sh)\<lparr>cur_dir := q\<rparr>) = cmd (sh_ctx sh)" by simp
    ultimately show "\<exists>c' w'. cmd_cd (sh_ctx sh) (sh_world sh) = Inr (0, c', w') \<and> session N c' w' j cs \<and>
        same_env (sh_world sh) w' \<and> files w' = F \<and> cmd c' = cmd (sh_ctx sh)" by blast
  qed (simp add: run_command_def)
  show "runs N e Cd sh (- ENOENT) F k es (sh_host sh) (out @ [])" if "nm \<noteq> [47]" "dir_lookup es nm = None"
    by (rule runs_nothing [OF p _ cd_refused(1) [OF s a that]]) (simp add: run_command_def)
  show "runs N e Cd sh (- ENOTDIR) F k es (sh_host sh) (out @ [])"
    if "nm \<noteq> [47]" "dir_lookup es nm = Some (int j)" "F j = Some (I_FILE, x)"
    by (rule runs_reading [OF p, where r = "cmd_cd (sh_ctx sh) (sh_world sh)"])
      (use cd_refused(2) [OF s a that(1,2), of x] that(3) F session_printed [OF s] in \<open>auto simp: run_command_def\<close>)
qed

lemma runs_names:
  assumes p: "at_prompt N (sh_ctx sh) (sh_world sh) F k es out" and a: "args_are (sh_ctx sh) nms" "nms \<noteq> []" and l: "linked F es"
  shows "cat_spec F es nms = (ret, ms) \<Longrightarrow> runs N e Cat sh ret F k es (sh_host sh) (out @ ms)"
    "stat_spec F es nms = (ret, ms) \<Longrightarrow> runs N e Stat sh ret F k es (sh_host sh) (out @ ms)"
proof -
  note s = at_promptD(1) [OF p] and F = at_promptD(2) [OF p]
  show "runs N e Cat sh ret F k es (sh_host sh) (out @ ms)" if "cat_spec F es nms = (ret, ms)"
    by (rule runs_reading [OF p, where r = "cmd_cat (sh_ctx sh) (sh_world sh)"])
      (use cmd_cat_eq [OF s a] l that F in \<open>simp_all add: run_command_def\<close>)
  show "runs N e Stat sh ret F k es (sh_host sh) (out @ ms)" if "stat_spec F es nms = (ret, ms)"
    by (rule runs_reading [OF p, where r = "cmd_stat (sh_ctx sh) (sh_world sh)"])
      (use cmd_stat_eq [OF s a] l that F in \<open>simp_all add: run_command_def\<close>)
qed

lemma runs_listing:
  assumes p: "at_prompt N (sh_ctx sh) (sh_world sh) F k es out" and a: "ls_arg (sh_ctx sh) nm" "0 \<notin> set nm"
    and l: "dir_lookup es nm = Some (int j)" and f: "F j = Some (I_DIR, dir_bytes cs)" "list_all dirent_ok cs"
  shows "command = Ls \<and> \<not> r \<or> command = Lsr \<and> r \<Longrightarrow> listing r F cs ms n \<Longrightarrow> n \<le> e_fuel e \<Longrightarrow>
      runs N e command sh 0 F k es (sh_host sh) (out @ ms)"
    "catting F nm cs ms n \<Longrightarrow> n < e_fuel e \<Longrightarrow> runs N e Catr sh 0 F k es (sh_host sh) (out @ ms)"
proof -
  note s = at_promptD(1) [OF p] and F = at_promptD(2) [OF p]
  show "runs N e command sh 0 F k es (sh_host sh) (out @ ms)"
    if "command = Ls \<and> \<not> r \<or> command = Lsr \<and> r" "listing r F cs ms n" "n \<le> e_fuel e"
    by (rule runs_reading [OF p _ ls_command_eq [OF s a l, unfolded F, OF f that(2,3)]])
      (use that(1) in \<open>auto simp: run_simps\<close>)
  show "runs N e Catr sh 0 F k es (sh_host sh) (out @ ms)" if "catting F nm cs ms n" "n < e_fuel e"
    by (rule runs_reading [OF p _ cmd_catr_eq [OF s a l, unfolded F, OF f that]]) (simp add: run_command_def)
qed

lemma runs_whole:
  assumes p: "at_prompt N (sh_ctx sh) (sh_world sh) F k es out" and a: "nargs (sh_ctx sh) = 1"
  shows "path_to F k es ns \<Longrightarrow> length ns < e_fuel e \<Longrightarrow> runs N e Pwd sh 0 F k es (sh_host sh) (out @ pwd_out ns @ [PwdEnd])"
    "F 0 = Some (I_DIR, dir_bytes rs) \<Longrightarrow> list_all dirent_ok rs \<Longrightarrow> visits F rs js n \<Longrightarrow> distinct (0 # js) \<Longrightarrow>
      n < e_fuel e \<Longrightarrow> runs N e Checkfs sh 0 F k es (sh_host sh) (out @ check_report F js)"
proof -
  note s = at_promptD(1) [OF p] and F = at_promptD(2) [OF p]
  show "runs N e Pwd sh 0 F k es (sh_host sh) (out @ pwd_out ns @ [PwdEnd])" if "path_to F k es ns" "length ns < e_fuel e"
    by (rule runs_reading [OF p _ cmd_pwd_eq [OF s a, unfolded F, OF that]]) (simp add: run_command_def)
  show "runs N e Checkfs sh 0 F k es (sh_host sh) (out @ check_report F js)"
    if "F 0 = Some (I_DIR, dir_bytes rs)" "list_all dirent_ok rs" "visits F rs js n" "distinct (0 # js)" "n < e_fuel e"
    by (rule runs_reading [OF p _ cmd_checkfs_eq [OF s a, unfolded F, OF that]]) (simp add: run_command_def)
qed

lemma runs_help:
  assumes p: "at_prompt N (sh_ctx sh) (sh_world sh) F k es out"
  shows "runs N e Help sh 0 F k es (sh_host sh) (out @ help_text)"
  by (rule runs_reading [OF p, where r = "cmd_help (sh_ctx sh) (sh_world sh)"])
    (use cmd_help_eq [OF at_promptD(3) [OF p], of "sh_ctx sh"] session_printed [OF at_promptD(1) [OF p]] in \<open>auto simp: run_command_def\<close>)

subsection \<open>The host's files, overwriting, formatting\<close>

lemma runs_import:
  assumes p: "at_prompt N (sh_ctx sh) (sh_world sh) F k es out" and a: "copy_args (sh_ctx sh) nm path" "0 \<notin> set nm"
  shows "dir_lookup es nm = None \<Longrightarrow> dir_insert nm (int j) es = Some es' \<Longrightarrow> free_at F j \<Longrightarrow> h_files (sh_host sh) path = Some data \<Longrightarrow>
      length data mod 512 \<noteq> 0 \<Longrightarrow> length data \<le> 132 * 512 \<Longrightarrow> fits F es es' (needs 0 (nblocks (length data))) \<Longrightarrow>
      runs N e Import sh 0 (F(k \<mapsto> (I_DIR, dir_bytes es'), j \<mapsto> (I_FILE, data))) k es' (sh_host sh)
        (out @ [SizeIs (int (length data))])"
    "dir_lookup es nm = None \<Longrightarrow> dir_insert nm (int j) es = Some es' \<Longrightarrow> free_at F j \<Longrightarrow> h_files (sh_host sh) path = None \<Longrightarrow>
      fits F es es' 0 \<Longrightarrow>
      runs N e Import sh (- ENOENT) (F(k \<mapsto> (I_DIR, dir_bytes es'), j \<mapsto> (I_FILE, []))) k es' (sh_host sh) (out @ [])"
    "dir_lookup es nm \<noteq> None \<Longrightarrow> runs N e Import sh (- EEXIST) F k es (sh_host sh) (out @ [])"
proof -
  note s = at_promptD(1) [OF p] and F = at_promptD(2) [OF p] and v = at_promptD(3) [OF p]
  show "runs N e Import sh 0 (F(k \<mapsto> (I_DIR, dir_bytes es'), j \<mapsto> (I_FILE, data))) k es' (sh_host sh)
      (out @ [SizeIs (int (length data))])"
    if n: "dir_lookup es nm = None" "dir_insert nm (int j) es = Some es'" "free_at F j" "h_files (sh_host sh) path = Some data"
      "length data mod 512 \<noteq> 0" "length data \<le> 132 * 512" "fits F es es' (needs 0 (nblocks (length data)))"
  proof -
    note cc = can_create_abstract [OF s a(2) n(1,2) n(3) [folded F]]
    have "fits F es es' 0" using n(7) by (simp add: fits_def)
    then have r: "room (sh_world sh) es es'" using room_abstract(1) [OF v] F by simp
    have fr: "needs (nblocks (length (dir_bytes es))) (nblocks (length (dir_bytes es'))) + needs 0 (nblocks (length data))
        \<le> nfree (w_fs (sh_world sh))"
      using n(7) nfree_taken [OF v] F by (simp add: fits_def add.assoc)
    obtain w' where w': "cmd_import (sh_host sh) (sh_ctx sh) (sh_world sh) = Inr (0, sh_ctx sh, w')" "session N (sh_ctx sh) w' k es'"
      "files w' = (files (sh_world sh))(k \<mapsto> (I_DIR, dir_bytes es'), j \<mapsto> (I_FILE, data))"
      "fs_out (w_fs w') = fs_out (w_fs (sh_world sh)) @ [SizeIs (int (length data))]"
      using cmd_import_eq [OF s a(1) cc n(4-6) r fr] by blast
    show ?thesis
      by (rule runs_world [OF _ w'(1)]) (use w'(2-4) F at_promptD(4) [OF p] in \<open>simp_all add: run_command_def at_prompt_def\<close>)
  qed
  show "runs N e Import sh (- ENOENT) (F(k \<mapsto> (I_DIR, dir_bytes es'), j \<mapsto> (I_FILE, []))) k es' (sh_host sh) (out @ [])"
    if n: "dir_lookup es nm = None" "dir_insert nm (int j) es = Some es'" "free_at F j" "h_files (sh_host sh) path = None"
      "fits F es es' 0"
  proof (rule runs_writing [OF p])
    have r: "room (sh_world sh) es es'" using room_abstract(1) [OF v] n(5) F by simp
    show "\<exists>c' w'. cmd_import (sh_host sh) (sh_ctx sh) (sh_world sh) = Inr (- ENOENT, c', w') \<and> session N c' w' k es' \<and>
        same_env (sh_world sh) w' \<and> files w' = F(k \<mapsto> (I_DIR, dir_bytes es'), j \<mapsto> (I_FILE, [])) \<and> cmd c' = cmd (sh_ctx sh)"
      using cmd_import_missing [OF s a(1) can_create_abstract [OF s a(2) n(1,2) n(3) [folded F]] r n(4)] unfolding F by blast
  qed (simp add: run_command_def)
  show "runs N e Import sh (- EEXIST) F k es (sh_host sh) (out @ [])" if "dir_lookup es nm \<noteq> None"
    by (rule runs_nothing [OF p, where r = "cmd_import (sh_host sh) (sh_ctx sh) (sh_world sh)"])
      (use create_exists [OF sessionD(1) [OF s] a(2) that, of I_FILE] a(1) in
        \<open>simp_all add: run_command_def cmd_import_def copy_args_def EEXIST_def\<close>)
qed

lemma runs_export:
  assumes p: "at_prompt N (sh_ctx sh) (sh_world sh) F k es out" and a: "copy_args (sh_ctx sh) nm path" "0 \<notin> set nm"
    and l: "dir_lookup es nm = Some (int j)" and f: "F j = Some (I_FILE, x)" and h: "h_writable (sh_host sh) path"
  shows "runs N e Export sh (e_junk e) F k es ((sh_host sh)\<lparr>h_files := (h_files (sh_host sh))(path \<mapsto> x)\<rparr>)
    (out @ [SizeIs (int (length x))])"
proof -
  note s = at_promptD(1) [OF p] and F = at_promptD(2) [OF p]
  have jk: "j \<noteq> k" using f dir_fields(3) [OF sessionD(1) [OF s]] F by auto
  obtain w' where w': "cmd_export (sh_host sh) (sh_ctx sh) (sh_world sh) =
      Inr (None, sh_ctx sh, w', (sh_host sh)\<lparr>h_files := (h_files (sh_host sh))(path \<mapsto> x)\<rparr>)"
    "session N (sh_ctx sh) w' k es" "printed [SizeIs (int (length x))] N (sh_world sh) w'"
    using cmd_export_eq [OF s a l jk _ h] f F by blast
  show ?thesis
    by (rule runs_same_ctx [OF _ printed_prompt [OF w'(2,3) p]]) (simp add: run_command_def w'(1))
qed

lemma runs_export_nothing:
  assumes p: "at_prompt N (sh_ctx sh) (sh_world sh) F k es out" and a: "copy_args (sh_ctx sh) nm path" "0 \<notin> set nm"
    and l: "dir_lookup es nm = Some (int j)"
  shows "F j = Some (I_DIR, x) \<Longrightarrow> h_writable (sh_host sh) path \<Longrightarrow>
      runs N e Export sh (e_junk e) F k es ((sh_host sh)\<lparr>h_files := (h_files (sh_host sh))(path \<mapsto> [])\<rparr>) (out @ [])"
    "F j = Some (t, x) \<Longrightarrow> \<not> h_writable (sh_host sh) path \<Longrightarrow> runs N e Export sh (e_junk e) F k es (sh_host sh) (out @ [])"
proof -
  note s = at_promptD(1) [OF p] and F = at_promptD(2) [OF p]
  have *: "runs N e Export sh (e_junk e) F k es H (out @ [])"
    if ex: "\<exists>w'. cmd_export (sh_host sh) (sh_ctx sh) (sh_world sh) = Inr (None, sh_ctx sh, w', H) \<and> session N (sh_ctx sh) w' k es \<and>
      printed [] N (sh_world sh) w'" for H
  proof -
    obtain w' where w': "cmd_export (sh_host sh) (sh_ctx sh) (sh_world sh) = Inr (None, sh_ctx sh, w', H)"
      "session N (sh_ctx sh) w' k es" "printed [] N (sh_world sh) w'" using ex by blast
    show ?thesis by (rule runs_same_ctx [OF _ printed_prompt [OF w'(2,3) p]]) (simp add: run_command_def w'(1))
  qed
  show "runs N e Export sh (e_junk e) F k es ((sh_host sh)\<lparr>h_files := (h_files (sh_host sh))(path \<mapsto> [])\<rparr>) (out @ [])"
    if "F j = Some (I_DIR, x)" "h_writable (sh_host sh) path"
    by (rule *) (rule wrong_kind(3) [OF s a(2) l _ a(1) that(2), unfolded F, OF that(1)])
  show "runs N e Export sh (e_junk e) F k es (sh_host sh) (out @ [])" if "F j = Some (t, x)" "\<not> h_writable (sh_host sh) path"
    by (rule *) (rule host_closed [OF s a(2) l _ a(1) that(2), unfolded F, OF that(1)])
qed

lemma runs_is_dir:
  assumes p: "at_prompt N (sh_ctx sh) (sh_world sh) F k es out" and a: "args_are (sh_ctx sh) args"
    and l: "dir_lookup es nm = Some (int j)" "F j = Some (I_DIR, x)"
    and c: "command = Write \<and> args = [nm, path] \<or> command = Owrite \<and> args = [nm, number, y] \<and> snd (strtol number) = []"
  shows "runs N e command sh (- EISDIR) F k es (sh_host sh) (out @ [])"
proof -
  have "0 \<notin> set nm" using c a by (auto simp: args_are_simps)
  note w = wrong_kind [OF at_promptD(1) [OF p] this l(1), unfolded at_promptD(2) [OF p], OF l(2)]
  from c show ?thesis
  proof
    assume "command = Write \<and> args = [nm, path]"
    then show ?thesis
      using a by (intro runs_reading [OF p _ w(1) [where path = path]]) (simp_all add: run_command_def args_are_simps)
  next
    assume "command = Owrite \<and> args = [nm, number, y] \<and> snd (strtol number) = []"
    then show ?thesis
      using a by (intro runs_reading [OF p _ w(2) [where number = number and y = y]]) (simp_all add: run_command_def args_are_simps)
  qed
qed

lemma runs_no_number:
  assumes p: "at_prompt N (sh_ctx sh) (sh_world sh) F k es out" and a: "owrite_args (sh_ctx sh) nm number y"
    and n: "snd (strtol number) \<noteq> []"
  shows "runs N e Owrite sh (- 1) F k es (sh_host sh) (out @ [])"
  by (rule runs_nothing [OF p _ bad_number [OF a n]]) (simp add: run_command_def)

lemma runs_owrite:
  assumes p: "at_prompt N (sh_ctx sh) (sh_world sh) F k es out" and a: "owrite_args (sh_ctx sh) nm number y" "0 \<notin> set nm" "0 \<notin> set y"
    and n: "strtol number = (int n, [])" "n \<le> length x" "n + length y \<le> 132 * 512" "y \<noteq> []"
    and l: "dir_lookup es nm = Some (int j)" "F j = Some (I_FILE, x)"
      "taken F + needs (nblocks (length x)) (nblocks (n + length y)) \<le> 7680"
  shows "runs N e Owrite sh 0 (F(j \<mapsto> (I_FILE, take n x @ y))) k es (sh_host sh) (out @ [])"
proof (rule runs_writing [OF p])
  note s = at_promptD(1) [OF p] and F = at_promptD(2) [OF p]
  have "needs (nblocks (length x)) (nblocks (n + length y)) \<le> nfree (w_fs (sh_world sh))"
    using nfree_taken [OF at_promptD(3) [OF p]] l(3) F by simp
  from cmd_owrite_eq [OF s a n(4,1-3) l(1) _ this] show "\<exists>c' w'. cmd_owrite (sh_ctx sh) (sh_world sh) = Inr (0, c', w') \<and>
      session N c' w' k es \<and> same_env (sh_world sh) w' \<and> files w' = F(j \<mapsto> (I_FILE, take n x @ y)) \<and> cmd c' = cmd (sh_ctx sh)"
    using l(2) unfolding F by blast
qed (simp add: run_command_def)

lemma runs_mkfs:
  assumes p: "at_prompt N (sh_ctx sh) (sh_world sh) F k es out"
  shows "runs N e Mkfs sh 0 [0 \<mapsto> (I_DIR, dir_bytes (empty_dir 0 0))] 0 (empty_dir 0 0) (sh_host sh) (out @ [])"
proof -
  note s = at_promptD(1) [OF p] and d = fs_okD(1,2) [OF vol_okD(2) [OF at_promptD(3) [OF p]]]
  have big: "7872 \<le> N" using d(2) by simp
  obtain q w' where w': "cmd_mkfs (sh_ctx sh) (sh_world sh) = Inr (0, (sh_ctx sh)\<lparr>cur_dir := q\<rparr>, w')"
    "session N ((sh_ctx sh)\<lparr>cur_dir := q\<rparr>) w' 0 (empty_dir 0 0)" "files w' = [0 \<mapsto> (I_DIR, dir_bytes (empty_dir 0 0))]"
    "fs_out (w_fs w') = fs_out (w_fs (sh_world sh))"
    using cmd_mkfs_eq [OF d(1) big disjI2] s by blast
  show ?thesis
    by (rule runs_world [OF _ w'(1)]) (use w'(2-4) at_promptD(4) [OF p] in \<open>simp_all add: run_command_def at_prompt_def\<close>)
qed

subsection \<open>Refused commands\<close>

lemma runs_missing:
  assumes p: "at_prompt N (sh_ctx sh) (sh_world sh) F k es out" and a: "args_are (sh_ctx sh) args"
    and l: "dir_lookup es nm = None" and fu: "0 < e_fuel e"
    and c: "(command = Ls \<or> command = Lsr \<or> command = Catr) \<and> args = [nm] \<or>
      (command = Export \<or> command = Write) \<and> args = [nm, path] \<or>
      command = Owrite \<and> args = [nm, number, y] \<and> snd (strtol number) = []"
  shows "runs N e command sh (- ENOENT) F k es (sh_host sh) (out @ [])"
proof -
  have "0 \<notin> set nm" using c a by (auto simp: args_are_simps)
  note m = no_such_name [OF at_promptD(1) [OF p] this l]
  have "run_command e command sh = Inr (- ENOENT, sh)"
    using c a fu by (auto simp: args_are_simps ls_arg_def run_simps with_world_def m)
  then show ?thesis using runs_same_ctx [where w = "sh_world sh" and H = "sh_host sh"] p by simp
qed

lemma runs_usage:
  assumes p: "at_prompt N (sh_ctx sh) (sh_world sh) F k es out" and a: "args_are (sh_ctx sh) args"
    and c: "wrong_count command (length args)" "0 < e_fuel e"
  shows "runs N e command sh (- EINVAL) F k es (sh_host sh) (out @ [])"
proof -
  have "nargs (sh_ctx sh) = int (Suc (length args))" using a by (simp add: args_are_def)
  from usage_refused [OF c(1) this c(2)] show ?thesis
    using runs_same_ctx [where w = "sh_world sh" and H = "sh_host sh"] p by simp
qed

section \<open>Every step of the machine is a command of the program\<close>

lemma obeys_runs:
  assumes "obeys e command args F k es H ret ms F' k' es' H'" "H = sh_host sh"
    and "at_prompt N (sh_ctx sh) (sh_world sh) F k es out" "args_are (sh_ctx sh) args"
  shows "runs N e command sh ret F' k' es' H' (out @ ms)"
  using assms
proof (induction rule: obeys.induct)
  case touch
  show ?case unfolding touch.prems(1) by (rule runs_touch [OF touch.prems(2,3) touch.hyps])
next
  case mkdir
  show ?case unfolding mkdir.prems(1) by (rule runs_mkdir(1) [OF mkdir.prems(2) _ _ mkdir.hyps])
      (use mkdir.prems(3) in \<open>simp_all add: args_are_simps\<close>)
next
  case mkdir_there
  show ?case unfolding mkdir_there.prems(1) by (rule runs_mkdir(2) [OF mkdir_there.prems(2) _ _ mkdir_there.hyps])
      (use mkdir_there.prems(3) in \<open>simp_all add: args_are_simps\<close>)
next
  case rm
  show ?case unfolding rm.prems(1) by (rule runs_rm [OF rm.prems(2) _ _ rm.hyps])
      (use rm.prems(3) in \<open>simp_all add: args_are_simps\<close>)
next
  case rm_special
  show ?case unfolding rm_special.prems(1) by (rule runs_rm_refused(1) [OF rm_special.prems(2) _ _ rm_special.hyps])
      (use rm_special.prems(3) in \<open>simp_all add: args_are_simps\<close>)
next
  case rm_missing
  show ?case unfolding rm_missing.prems(1) by (rule runs_rm_refused(2) [OF rm_missing.prems(2) _ _ rm_missing.hyps])
      (use rm_missing.prems(3) in \<open>simp_all add: args_are_simps\<close>)
next
  case rm_full
  show ?case unfolding rm_full.prems(1) by (rule runs_rm_refused(3) [OF rm_full.prems(2) _ _ rm_full.hyps])
      (use rm_full.prems(3) in \<open>simp_all add: args_are_simps\<close>)
next
  case cd
  show ?case unfolding cd.prems(1) by (rule runs_cd(1) [OF cd.prems(2) _ _ cd.hyps])
      (use cd.prems(3) in \<open>simp_all add: args_are_simps\<close>)
next
  case cd_missing
  show ?case unfolding cd_missing.prems(1) by (rule runs_cd(2) [OF cd_missing.prems(2) _ _ cd_missing.hyps])
      (use cd_missing.prems(3) in \<open>simp_all add: args_are_simps\<close>)
next
  case cd_file
  show ?case unfolding cd_file.prems(1) by (rule runs_cd(3) [OF cd_file.prems(2) _ _ cd_file.hyps])
      (use cd_file.prems(3) in \<open>simp_all add: args_are_simps\<close>)
next
  case cat
  show ?case unfolding cat.prems(1) by (rule runs_names(1) [OF cat.prems(2,3) cat.hyps])
next
  case stat
  show ?case unfolding stat.prems(1) by (rule runs_names(2) [OF stat.prems(2,3) stat.hyps])
next
  case (ls command r args nm es j F cs ms n k H)
  note a = args_are_ls [OF ls.prems(3) ls.hyps(2)]
  from runs_listing(1) [OF ls.prems(2) a [THEN conjunct1] a [THEN conjunct2] ls.hyps(3-5) ls.hyps(1,6,7)] show ?case
    unfolding ls.prems(1) .
next
  case (catr args nm es j F cs ms n k H)
  note a = args_are_ls [OF catr.prems(3) catr.hyps(1)]
  from runs_listing(2) [OF catr.prems(2) a [THEN conjunct1] a [THEN conjunct2] catr.hyps(2-)] show ?case
    unfolding catr.prems(1) .
next
  case pwd
  show ?case unfolding pwd.prems(1) by (rule runs_whole(1) [OF pwd.prems(2) _ pwd.hyps])
      (use pwd.prems(3) in \<open>simp_all add: args_are_simps\<close>)
next
  case checkfs
  show ?case unfolding checkfs.prems(1) by (rule runs_whole(2) [OF checkfs.prems(2) _ checkfs.hyps])
      (use checkfs.prems(3) in \<open>simp_all add: args_are_simps\<close>)
next
  case import
  show ?case unfolding import.prems(1) by (rule runs_import(1) [OF import.prems(2) _ _ import.hyps(1-3) import.hyps(4) [unfolded import.prems(1)]
      import.hyps(5-7)])
      (use import.prems(3) in \<open>simp_all add: args_are_simps\<close>)
next
  case import_missing
  show ?case unfolding import_missing.prems(1) by (rule runs_import(2) [OF import_missing.prems(2) _ _ import_missing.hyps(1-3)
      import_missing.hyps(4) [unfolded import_missing.prems(1)] import_missing.hyps(5)])
      (use import_missing.prems(3) in \<open>simp_all add: args_are_simps\<close>)
next
  case import_there
  show ?case unfolding import_there.prems(1) by (rule runs_import(3) [OF import_there.prems(2) _ _ import_there.hyps])
      (use import_there.prems(3) in \<open>auto simp: args_are_simps\<close>)
next
  case export
  show ?case unfolding export.prems(1) by (rule runs_export [OF export.prems(2) _ _ export.hyps(1,2)
      export.hyps(3) [unfolded export.prems(1)]])
      (use export.prems(3) in \<open>simp_all add: args_are_simps\<close>)
next
  case owrite
  show ?case unfolding owrite.prems(1) by (rule runs_owrite [OF owrite.prems(2) _ _ _ owrite.hyps])
      (use owrite.prems(3) in \<open>simp_all add: args_are_simps\<close>)
next
  case owrite_no_number
  show ?case unfolding owrite_no_number.prems(1) by (rule runs_no_number [OF owrite_no_number.prems(2) _ owrite_no_number.hyps])
      (use owrite_no_number.prems(3) in \<open>auto simp: args_are_simps\<close>)
next
  case export_dir
  show ?case unfolding export_dir.prems(1) by (rule runs_export_nothing(1) [OF export_dir.prems(2) _ _ export_dir.hyps(1,2)
      export_dir.hyps(3) [unfolded export_dir.prems(1)]]) (use export_dir.prems(3) in \<open>simp_all add: args_are_simps\<close>)
next
  case export_closed
  show ?case unfolding export_closed.prems(1) by (rule runs_export_nothing(2) [OF export_closed.prems(2) _ _ export_closed.hyps(1,2)
      export_closed.hyps(3) [unfolded export_closed.prems(1)]]) (use export_closed.prems(3) in \<open>simp_all add: args_are_simps\<close>)
next
  case is_dir
  show ?case unfolding is_dir.prems(1) by (rule runs_is_dir [OF is_dir.prems(2,3) is_dir.hyps])
next
  case missing
  show ?case unfolding missing.prems(1) by (rule runs_missing [OF missing.prems(2,3) missing.hyps(1,3,2)])
next
  case usage
  show ?case unfolding usage.prems(1) by (rule runs_usage [OF usage.prems(2,3) usage.hyps])
next
  case help_all
  show ?case unfolding help_all.prems(1) by (rule runs_help [OF help_all.prems(2)])
next
  case mkfs
  show ?case unfolding mkfs.prems(1) by (rule runs_mkfs [OF mkfs.prems(2)])
qed

end
