(* ===== verification/SessionOk.thy ===== *)
theory SessionOk
  imports Machine
begin

text \<open>
  Whole sessions of the shell against the abstract machine.  A script of commands is given to the program as lines
  of text; what the program prints and what the next mount finds on the device is what the machine says.
\<close>

section \<open>Lines\<close>

text \<open>A word of a command line, and the line of a command with its arguments.\<close>

definition word_ok :: "byte list \<Rightarrow> bool" where
  "word_ok t \<longleftrightarrow> t \<noteq> [] \<and> set t \<inter> {0, 9, 10, 32} = {}"

definition typed :: "byte list \<Rightarrow> byte list list \<Rightarrow> byte list" where
  "typed name args = name @ concat (map ((#) 32) args) @ [10]"

fun joined :: "byte list list \<Rightarrow> byte list" where
  "joined [] = []"
| "joined (a # args) = a @ concat (map ((#) 32) args)"

lemma joined_drop: "joined args = drop 1 (concat (map ((#) 32) args))"
  by (cases args) simp_all

lemma strtok_word:
  assumes "t \<noteq> []" "set t \<inter> set delims = {}" "rest = [] \<or> hd rest \<in> set delims"
  shows "strtok (Some (t @ rest)) delims saved = (Some t, drop 1 rest)" "strtok None delims (t @ rest) = (Some t, drop 1 rest)"
proof -
  have t: "\<forall>b \<in> set t. b \<notin> set delims" using assms(2) by blast
  have "dropWhile (\<lambda>b. b \<in> set delims) (t @ rest) = t @ rest" using assms(1) t by (cases t) auto
  moreover have "takeWhile (\<lambda>b. b \<notin> set delims) rest = []" "dropWhile (\<lambda>b. b \<notin> set delims) rest = rest"
    using assms(3) by (cases rest; auto)+
  ultimately show "strtok (Some (t @ rest)) delims saved = (Some t, drop 1 rest)"
    "strtok None delims (t @ rest) = (Some t, drop 1 rest)"
    using assms(1) t by (simp_all add: strtok_def takeWhile_append2 dropWhile_append2)
qed

lemma strtok_some: "strtok (Some s) delims saved = strtok None delims s"
  by (simp add: strtok_def)

lemma strtok_none: "strtok None delims [] = (None, [])"
  by (simp add: strtok_def)

lemma strtok_joined:
  assumes "word_ok a"
  shows "strtok None blanks (joined (a # args)) = (Some a, joined args)" "strtok None newline a = (Some a, [])"
proof -
  have "concat (map ((#) 32) args) = [] \<or> hd (concat (map ((#) 32) args)) \<in> set blanks" by (cases args) (simp_all add: blanks_def)
  from strtok_word(2) [OF _ _ this, of a] show "strtok None blanks (joined (a # args)) = (Some a, joined args)"
    using assms by (simp add: word_ok_def blanks_def joined_drop)
  show "strtok None newline a = (Some a, [])"
    using assms strtok_word(2) [of a newline "[]"] by (simp add: word_ok_def newline_def)
qed

lemma joined_word:
  assumes "list_all word_ok args" "args \<noteq> []"
  shows "joined args \<noteq> []" "10 \<notin> set (joined args)"
  using assms by (cases args; auto simp: word_ok_def list_all_iff)+

lemma typed_tokens:
  assumes "word_ok name" "list_all word_ok args"
  shows "\<exists>rest. strtok (Some (typed name args)) blanks [] = (Some name, rest) \<and>
    strtok None newline rest = (if args = [] then None else Some (joined args), [])"
proof -
  have "hd (concat (map ((#) 32) args) @ [10]) \<in> set blanks" by (cases args) (simp_all add: blanks_def)
  then have 1: "strtok (Some (typed name args)) blanks [] = (Some name, drop 1 (concat (map ((#) 32) args) @ [10]))"
    using assms(1) strtok_word(1) [of name blanks "concat (map ((#) 32) args) @ [10]" "[]"] by (simp add: typed_def word_ok_def blanks_def)
  show ?thesis
  proof (cases args)
    case Nil
    then show ?thesis using 1 by (simp add: strtok_none)
  next
    case (Cons a as)
    then have "drop 1 (concat (map ((#) 32) args) @ [10]) = joined args @ [10]" by simp
    moreover have "args \<noteq> []" using Cons by simp
    note j = joined_word [OF assms(2) this]
    have "strtok None newline (joined args @ [10]) = (Some (joined args), [])"
      using strtok_word(2) [of "joined args" newline "[10]"] j by (simp add: newline_def)
    ultimately show ?thesis using 1 Cons by simp
  qed
qed

text \<open>The loop splits off all arguments but the last of a command that has as many as its table entry allows.\<close>

lemma split_typed:
  assumes "list_all word_ok args" "j \<le> n" "n < length argv"
  shows "\<exists>argv'. split_args n j None (joined args) argv =
      Inr (min n (j + length args), None, joined (drop (n - j) args), argv') \<and> length argv' = length argv \<and>
    (\<forall>i < j. argv' ! i = argv ! i) \<and> (\<forall>i < length args. j + i < n \<longrightarrow> argv' ! (j + i) = Some (args ! i))"
  using assms
proof (induction args arbitrary: j argv)
  case Nil
  then show ?case
    by (subst split_args.simps) (auto simp: strtok_none nth_r_def intro!: exI [of _ "if j < n then argv[j := None] else argv"])
next
  case (Cons a args)
  show ?case
  proof (cases "j < n")
    case True
    then obtain argv' where ar: "split_args n (Suc j) None (joined args) (argv[j := Some a]) =
        Inr (min n (Suc j + length args), None, joined (drop (n - Suc j) args), argv')" "length argv' = length argv"
      "\<forall>i < Suc j. argv' ! i = argv[j := Some a] ! i" "\<forall>i < length args. Suc j + i < n \<longrightarrow> argv' ! (Suc j + i) = Some (args ! i)"
      using Cons.IH [of "Suc j" "argv[j := Some a]"] Cons.prems by auto
    have "split_args n j None (joined (a # args)) argv = split_args n (Suc j) None (joined args) (argv[j := Some a])"
      using True Cons.prems strtok_joined(1) [of a args] by (subst split_args.simps) (simp add: nth_r_def)
    moreover have "drop (n - Suc j) args = drop (n - j) (a # args)" using True by (simp add: Suc_diff_Suc [symmetric])
    moreover have "argv' ! (j + i) = Some ((a # args) ! i)" if "i < Suc (length args)" "j + i < n" for i
      using that ar(3,4) True Cons.prems(3) by (cases i) simp_all
    ultimately show ?thesis using ar by (intro exI [of _ argv']) simp
  next
    case False
    then show ?thesis using Cons.prems by (subst split_args.simps) simp
  qed
qed

lemma split_first:
  assumes "list_all word_ok args" "args \<noteq> []" "length args \<le> n" "n < length argv"
  shows "\<exists>token argv'. split_args n 1 (Some (joined args)) [] argv = Inr (min n (Suc (length args)), token,
      if token = None then joined (drop (n - 1) args) else [], argv') \<and> (token = None \<or> n = 1 \<and> token = Some (joined args)) \<and>
    length argv' = length argv \<and> argv' ! 0 = argv ! 0 \<and> (\<forall>i < length args. Suc i < n \<longrightarrow> argv' ! Suc i = Some (args ! i))"
proof (cases "1 < n")
  case True
  obtain a as where a: "args = a # as" using assms(2) by (cases args) simp_all
  have st: "strtok None blanks (joined args) = (Some a, joined as)" using strtok_joined(1) [of a as] assms(1) a by simp
  have "split_args n 1 (Some (joined args)) [] argv = split_args n 1 None (joined args) argv"
    using True by (subst (1 2) split_args.simps) (simp add: strtok_some st assms(4))
  then show ?thesis using split_typed [OF assms(1) _ assms(4), of 1] True by auto
next
  case False
  then have "n = 1" using assms(2,3) by (cases args) simp_all
  then show ?thesis using assms(2,3) by (subst split_args.simps) (cases args; simp)
qed

lemma rest_token:
  assumes "list_all word_ok args" "args \<noteq> []" "length args \<le> n" "token = None \<or> n = 1 \<and> token = Some (joined args)"
  shows "strtok token newline (if token = None then joined (drop (n - 1) args) else []) =
    (if length args = n then Some (last args) else None, [])"
proof -
  have last: "word_ok (last args)" using assms(1,2) by (simp add: list_all_iff)
  have dr: "joined (drop (n - 1) args) = (if length args = n then last args else [])"
  proof (cases "length args = n")
    case True
    then have "drop (n - 1) args = [last args]" using assms(2) by (metis append_butlast_last_id append_eq_conv_conj length_butlast)
    then show ?thesis using True by simp
  qed (use assms(3) in simp)
  show ?thesis
  proof (cases "token = None")
    case True
    then show ?thesis using dr strtok_joined(2) [OF last] by (simp add: strtok_none)
  next
    case False
    then have n1: "n = 1" "token = Some (joined args)" using assms(4) by blast+
    then have "length args = n" "args = [last args]" using assms(2,3) by (cases args; simp)+
    then have "joined args = last args" by (metis append_Nil2 concat.simps(1) joined.simps(2) list.simps(8))
    then show ?thesis using n1(2) \<open>length args = n\<close> strtok_joined(2) [OF last] by (simp add: strtok_some)
  qed
qed

lemma parse_typed:
  assumes "length (cmd c) = Suc MAX_ARGS" "1 \<le> n" "n \<le> MAX_ARGS" "list_all word_ok args" "length args \<le> n"
  shows "\<exists>c'. parse_args n (if args = [] then None else Some (joined args)) [] c = Inr c' \<and> args_are c' args \<and>
    cmd c' ! 0 = cmd c ! 0 \<and> length (cmd c') = Suc MAX_ARGS \<and> cur_dir c' = cur_dir c"
proof (cases "args = []")
  case True
  have "split_args n 1 None [] (cmd c) = Inr (1, None, [], if 1 < n then (cmd c)[1 := None] else cmd c)"
    using assms(1) by (subst split_args.simps) (simp add: strtok_none nth_r_def)
  then show ?thesis using True assms(1) by (simp add: parse_args_def strtok_none nth_r_def args_are_none nth_append)
next
  case False
  let ?m = "min n (Suc (length args))"
  obtain token argv where sp: "split_args n 1 (Some (joined args)) [] (cmd c) = Inr (?m, token,
      if token = None then joined (drop (n - 1) args) else [], argv)" "token = None \<or> n = 1 \<and> token = Some (joined args)"
    "length argv = 6" "argv ! 0 = cmd c ! 0" "\<forall>i < length args. Suc i < n \<longrightarrow> argv ! Suc i = Some (args ! i)"
    using split_first [OF assms(4) False assms(5), of "cmd c"] assms(1,3) by auto
  define t where "t = (if length args = n then Some (last args) else None)"
  note tk = rest_token [OF assms(4) False assms(5) sp(2), folded t_def]
  have eq: "parse_args n (Some (joined args)) [] c = Inr (c\<lparr>nargs := int (Suc (length args)),
      cmd := take (Suc (Suc (length args))) (argv[?m := t]) @ replicate (MAX_ARGS - Suc (length args)) None\<rparr>)"
  proof (cases "length args = n")
    case True
    then show ?thesis using tk sp(1,3) assms(3) by (simp add: parse_args_def nth_r_def Let_def t_def)
  next
    case False
    then have "?m = Suc (length args)" using assms(5) by simp
    then show ?thesis using tk sp(1,3) assms(3,5) False by (simp add: parse_args_def nth_r_def Let_def t_def)
  qed
  have "argv[?m := t] ! Suc i = Some (args ! i)" if "i < length args" for i
  proof (cases "Suc i < n")
    case True
    then show ?thesis using that sp(5) by simp
  next
    case last: False
    then have "Suc i = n" "length args = n" using that assms(5) by simp_all
    then show ?thesis using sp(3) assms(3) False by (auto simp: t_def last_conv_nth)
  qed
  note nth = this
  let ?argv = "take (Suc (Suc (length args))) (argv[?m := t]) @ replicate (MAX_ARGS - Suc (length args)) None"
  have len: "length args \<le> 5" using assms(3,5) by simp
  have "args_are (c\<lparr>nargs := int (Suc (length args)), cmd := ?argv\<rparr>) args"
    using nth sp(3) len assms(4)
    by (auto simp: args_are_def cmd_arg_def nth_r_def nth_append list_all_iff word_ok_def simp del: of_nat_Suc)
  moreover have "?argv ! 0 = cmd c ! 0" "length ?argv = Suc MAX_ARGS" using sp(3,4) assms(2) len False by (auto simp: nth_append)
  ultimately show ?thesis unfolding if_not_P [OF False] eq by simp
qed

lemma cmdtable_word:
  assumes "map_of cmdtable name = Some (command, n)"
  shows "word_ok name" "1 \<le> n" "n \<le> MAX_ARGS"
  using map_of_SomeD [OF assms] by (auto simp: cmdtable_def str_def word_ok_def)

text \<open>A line at the prompt.\<close>

definition ready :: "nat \<Rightarrow> 'd shell \<Rightarrow> fmap \<Rightarrow> nat \<Rightarrow> dirent list \<Rightarrow> host \<Rightarrow> message list \<Rightarrow> bool" where
  "ready N sh F k es H out \<longleftrightarrow> at_prompt N (sh_ctx sh) (sh_world sh) F k es out \<and> sh_host sh = H \<and>
     length (cmd (sh_ctx sh)) = Suc MAX_ARGS"

definition warned :: "byte list \<Rightarrow> int \<Rightarrow> message list" where
  "warned name ret = (if ret < 0 then [Warning name (- ret)] else [])"

lemma prompt_print:
  assumes "at_prompt N c w F k es out" "cur_dir c' = cur_dir c"
  shows "at_prompt N c' (print m w) F k es (out @ [m])"
proof -
  have s: "session N c' w k es" using assms by (auto simp: at_prompt_def session_def)
  note p = printed_print [OF sessionD(6) [OF s], of m]
  show ?thesis using assms session_printed [OF s p] p by (simp add: at_prompt_def printed_def)
qed

lemma prompt_fs_exists:
  assumes "at_prompt N c w F k es out"
  shows "fs_exists c w = Inr True"
  by (simp add: fs_exists_def dir_fields(6) [OF sessionD(1) [OF at_promptD(1) [OF assms]]])

lemma line_starts:
  assumes r: "ready N sh F k es H out" and m: "map_of cmdtable name = Some (command, n)"
    and a: "list_all word_ok args" "length args \<le> n"
  shows "\<exists>sh'. run_line e (typed name args) sh = bind_r (run_command e command sh') report_errno \<and>
    ready N sh' F k es H (out @ [CommandEcho (typed name args)]) \<and> args_are (sh_ctx sh') args \<and>
    cmd (sh_ctx sh') ! 0 = Some name \<and> sh_can_quit sh' = sh_can_quit sh"
proof -
  let ?c = "(sh_ctx sh)\<lparr>cmd := (cmd (sh_ctx sh))[0 := Some name]\<rparr>"
  have p: "at_prompt N (sh_ctx sh) (sh_world sh) F k es out" and l: "length (cmd (sh_ctx sh)) = Suc MAX_ARGS"
    using r by (simp_all add: ready_def)
  obtain rest where t: "strtok (Some (typed name args)) blanks [] = (Some name, rest)"
    "strtok None newline rest = (if args = [] then None else Some (joined args), [])"
    using typed_tokens [OF cmdtable_word(1) [OF m] a(1)] by blast
  obtain c' where c': "parse_args n (if args = [] then None else Some (joined args)) [] ?c = Inr c'" "args_are c' args"
    "cmd c' ! 0 = Some name" "length (cmd c') = Suc MAX_ARGS" "cur_dir c' = cur_dir (sh_ctx sh)"
    using parse_typed [of ?c n args] l cmdtable_word(2,3) [OF m] a by (auto simp: nth_list_update)
  have "run_line e (typed name args) sh = bind_r (run_command e command
      (sh\<lparr>sh_world := print (CommandEcho (typed name args)) (sh_world sh), sh_ctx := c'\<rparr>)) report_errno"
    by (rule run_line_known [OF l prompt_fs_exists [OF p] t m _ c'(1)]) simp
  then show ?thesis using r c' prompt_print [OF p c'(5)]
    by (intro exI [of _ "sh\<lparr>sh_world := print (CommandEcho (typed name args)) (sh_world sh), sh_ctx := c'\<rparr>"])
      (simp add: ready_def)
qed

lemma line_obeys:
  assumes r: "ready N sh F k es H out" and m: "map_of cmdtable name = Some (command, n)"
    and a: "list_all word_ok args" "length args \<le> n" and ob: "obeys e command args F k es H ret ms F' k' es' H'"
  shows "\<exists>sh'. run_line e (typed name args) sh = Inr sh' \<and> sh_can_quit sh' = sh_can_quit sh \<and>
    ready N sh' F' k' es' H' (out @ CommandEcho (typed name args) # ms @ warned name ret)"
proof -
  let ?o = "CommandEcho (typed name args)"
  obtain s1 where s1: "run_line e (typed name args) sh = bind_r (run_command e command s1) report_errno"
    "at_prompt N (sh_ctx s1) (sh_world s1) F k es (out @ [?o])" "H = sh_host s1" "length (cmd (sh_ctx s1)) = Suc MAX_ARGS"
    "args_are (sh_ctx s1) args" "cmd (sh_ctx s1) ! 0 = Some name" "sh_can_quit s1 = sh_can_quit sh"
    using line_starts [OF r m a] unfolding ready_def by blast
  obtain c w where c: "run_command e command s1 = Inr (ret, s1\<lparr>sh_world := w, sh_ctx := c, sh_host := H'\<rparr>)"
    "at_prompt N c w F' k' es' (out @ ?o # ms)" "cmd c = cmd (sh_ctx s1)"
    using obeys_runs [OF ob s1(3,2,5)] by (auto simp: runs_def)
  let ?w = "if ret < 0 then print (Warning name (- ret)) w else w"
  have "cmd_arg c 0 = Inr (Some name)" using c(3) s1(4,6) by (simp add: cmd_arg_def nth_r_def)
  then have "run_line e (typed name args) sh = Inr (s1\<lparr>sh_world := ?w, sh_ctx := c, sh_host := H'\<rparr>)"
    using s1(1) c(1) by (simp add: report_errno_def)
  moreover have "at_prompt N c ?w F' k' es' (out @ ?o # ms @ warned name ret)"
    using c(2) prompt_print [OF c(2) refl] by (simp add: warned_def)
  ultimately show ?thesis using c(3) s1(4,7)
    by (intro exI [of _ "s1\<lparr>sh_world := ?w, sh_ctx := c, sh_host := H'\<rparr>"]) (simp add: ready_def)
qed

section \<open>Scripts\<close>

text \<open>
  \<open>script e lines F k es H ms F' k' es' H'\<close>: the lines are commands of the abstract machine, which prints \<open>ms\<close>,
  with the echo of every line and the error of a command that fails.
\<close>

inductive script :: "env \<Rightarrow> byte list list \<Rightarrow> fmap \<Rightarrow> nat \<Rightarrow> dirent list \<Rightarrow> host \<Rightarrow> message list \<Rightarrow>
    fmap \<Rightarrow> nat \<Rightarrow> dirent list \<Rightarrow> host \<Rightarrow> bool" for e where
  script_nil: "script e [] F k es H [] F k es H"
| script_line: "map_of cmdtable name = Some (command, n) \<Longrightarrow> list_all word_ok args \<Longrightarrow> length args \<le> n \<Longrightarrow>
    obeys e command args F k es H ret ms F1 k1 es1 H1 \<Longrightarrow> script e lines F1 k1 es1 H1 ms' F' k' es' H' \<Longrightarrow>
    script e (typed name args # lines) F k es H (CommandEcho (typed name args) # ms @ warned name ret @ ms') F' k' es' H'"

lemma script_runs:
  assumes "script e lines F k es H ms F' k' es' H'" "ready N sh F k es H out" "\<not> sh_can_quit sh"
  shows "\<exists>sh'. main_loop e (lines @ rest) sh = main_loop e rest sh' \<and> ready N sh' F' k' es' H' (out @ ms) \<and> \<not> sh_can_quit sh'"
  using assms
proof (induction arbitrary: sh out rule: script.induct)
  case (script_nil F k es H)
  then show ?case by auto
next
  case (script_line name command n args F k es H ret ms F1 k1 es1 H1 lines ms' F' k' es' H')
  obtain s1 where s1: "run_line e (typed name args) sh = Inr s1" "sh_can_quit s1 = sh_can_quit sh"
    "ready N s1 F1 k1 es1 H1 (out @ CommandEcho (typed name args) # ms @ warned name ret)"
    using line_obeys [OF script_line(7,1-4)] by blast
  show ?case using script_line(6) [OF s1(3)] s1(1,2) script_line(8) by simp
qed

text \<open>The end of the session.\<close>

abbreviation "quit_line \<equiv> typed (str ''quit'') []"

lemma quit_runs:
  assumes "ready N sh F k es H out"
  shows "\<exists>sh'. run_line e quit_line sh = Inr sh' \<and> sh_can_quit sh' \<and> ready N sh' F k es H (out @ [CommandEcho quit_line, Bye])"
proof -
  have m: "map_of cmdtable (str ''quit'') = Some (Quit, 1)" by (simp add: cmdtable_def str_def)
  obtain s1 where s1: "run_line e quit_line sh = bind_r (run_command e Quit s1) report_errno"
    "ready N s1 F k es H (out @ [CommandEcho quit_line])"
    using line_starts [OF assms m, of "[]"] by auto
  let ?s = "s1\<lparr>sh_world := print Bye (sh_world s1), sh_can_quit := True\<rparr>"
  have "run_line e quit_line sh = Inr ?s" using s1(1) by (simp add: run_command_def cmd_quit_def report_errno_def)
  moreover have "ready N ?s F k es H (out @ [CommandEcho quit_line, Bye])"
    using s1(2) prompt_print [of N "sh_ctx s1" "sh_world s1" F k es "out @ [CommandEcho quit_line]" "sh_ctx s1" Bye]
    by (simp add: ready_def)
  ultimately show ?thesis by auto
qed

section \<open>The program\<close>

text \<open>A device that the program mounts as the volume \<open>F\<close>.\<close>

definition stored :: "nat \<Rightarrow> fmap \<Rightarrow> 'd world \<Rightarrow> bool" where
  "stored N F w \<longleftrightarrow> (\<exists>w1. testfs_init_super_block w = Inr (0, w1) \<and> vol_ok N w1 \<and> files w1 = F \<and>
     w_inodes w1 = (\<lambda>_. None) \<and> tx_in_progress (fs_sb (w_fs w1)) = TX_NONE \<and> fs_out (w_fs w1) = fs_out (w_fs w))"

lemma stored_close:
  assumes "vol_ok N w" "w_inodes w = (\<lambda>_. None)" "tx_in_progress (fs_sb (w_fs w)) = TX_NONE"
  shows "\<exists>w1. testfs_close_super_block w = Inr w1 \<and> stored N (files w) w1 \<and> fs_out (w_fs w1) = fs_out (w_fs w)"
proof -
  obtain w1 where w1: "testfs_flush_super_block w = Inr w1" "fs_out (w_fs w1) = fs_out (w_fs w)"
    "\<And>a. \<exists>w2. testfs_init_super_block (w1\<lparr>w_sb := a\<rparr>) = Inr (0, w2) \<and> vol_ok N w2 \<and> files w2 = files w \<and>
       w_inodes w2 = (\<lambda>_. None) \<and> tx_in_progress (fs_sb (w_fs w2)) = TX_NONE \<and> fs_out (w_fs w2) = fs_out (w_fs w)"
    using remount_eq [OF assms] by blast
  have "testfs_close_super_block w = Inr (w1\<lparr>w_sb := NULL\<rparr>)" using w1(1) by (simp add: testfs_close_super_block_def)
  then show ?thesis using w1(2) w1(3) [of NULL] by (auto simp: stored_def)
qed

lemma stored_start:
  assumes "stored N F w" "F 0 = Some (I_DIR, dir_bytes rs)" "list_all dirent_ok rs"
  shows "\<exists>w1 p w2. testfs_init_super_block w = Inr (0, w1) \<and> testfs_get_inode 0 w1 = Inr (p, w2) \<and>
    ready N \<lparr>sh_world = w2, sh_ctx = \<lparr>nargs = 0, cmd = replicate (MAX_ARGS + 1) None, cur_dir = p\<rparr>,
      sh_host = h, sh_bench = b, sh_can_quit = False\<rparr> F 0 rs h (fs_out (w_fs w))"
proof -
  obtain w1 where w1: "testfs_init_super_block w = Inr (0, w1)" "vol_ok N w1" "files w1 = F" "w_inodes w1 = (\<lambda>_. None)"
    "tx_in_progress (fs_sb (w_fs w1)) = TX_NONE" "fs_out (w_fs w1) = fs_out (w_fs w)"
    using assms(1) unfolding stored_def by blast
  obtain p w2 where "testfs_get_inode 0 w1 = Inr (p, w2)"
    "session N (\<lparr>nargs = 0, cmd = replicate (MAX_ARGS + 1) None, cur_dir = 0\<rparr>\<lparr>cur_dir := p\<rparr>) w2 0 rs" "files w2 = files w1"
    "w_fs w2 = w_fs w1"
    using first_prompt [OF w1(2,4,5) _ assms(3), of "\<lparr>nargs = 0, cmd = replicate (MAX_ARGS + 1) None, cur_dir = 0\<rparr>"]
      assms(2) w1(3) by auto
  then show ?thesis using w1(1,3,6) by (intro exI [of _ w1] exI [of _ p] exI [of _ w2]) (simp add: ready_def at_prompt_def)
qed

lemma ready_end:
  assumes "ready N sh F k es H out"
  shows "fs_exists (sh_ctx sh) (sh_world sh) = Inr True"
    "\<exists>w1 w2. testfs_put_inode (cur_dir (sh_ctx sh)) (sh_world sh) = Inr w1 \<and> testfs_close_super_block w1 = Inr w2 \<and>
      stored N F w2 \<and> fs_out (w_fs w2) = out"
proof -
  have p: "at_prompt N (sh_ctx sh) (sh_world sh) F k es out" using assms by (simp add: ready_def)
  note s = at_promptD [OF p]
  show "fs_exists (sh_ctx sh) (sh_world sh) = Inr True" by (rule prompt_fs_exists [OF p])
  obtain w1 where w1: "testfs_put_inode (cur_dir (sh_ctx sh)) (sh_world sh) = Inr w1" "vol_ok N w1"
    "files w1 = files (sh_world sh)" "w_fs w1 = w_fs (sh_world sh)" "w_inodes w1 = (\<lambda>_. None)"
    using session_put [OF s(1)] by blast
  have "tx_in_progress (fs_sb (w_fs w1)) = TX_NONE" using w1(4) sessionD(2) [OF s(1)] by simp
  from stored_close [OF w1(2,5) this] show "\<exists>w1 w2. testfs_put_inode (cur_dir (sh_ctx sh)) (sh_world sh) = Inr w1 \<and>
      testfs_close_super_block w1 = Inr w2 \<and> stored N F w2 \<and> fs_out (w_fs w2) = out"
    using w1(1,3,4) s(2,4) by auto
qed

text \<open>From a prompt that the main loop reaches to the end of the program.\<close>

lemma program_ends:
  assumes "testfs_init_super_block w = Inr (0, w1)" "testfs_get_inode 0 w1 = Inr (p, w2)"
    and "main_loop e lines \<lparr>sh_world = w2, sh_ctx = \<lparr>nargs = 0, cmd = replicate (MAX_ARGS + 1) None, cur_dir = p\<rparr>,
      sh_host = h, sh_bench = b, sh_can_quit = False\<rparr> = main_loop e (rest @ [quit_line]) s0"
    and "script e rest F k es H ms F' k' es' H'" "ready N s0 F k es H out" "\<not> sh_can_quit s0"
  shows "\<exists>sh. testfs_main e h b lines w = Inr sh \<and> stored N F' (sh_world sh) \<and> sh_host sh = H' \<and>
    fs_out (w_fs (sh_world sh)) = out @ ms @ [CommandEcho quit_line, Bye]"
proof -
  obtain s1 where s1: "main_loop e (rest @ [quit_line]) s0 = main_loop e [quit_line] s1" "ready N s1 F' k' es' H' (out @ ms)"
    using script_runs [OF assms(4-6), of "[quit_line]"] by blast
  obtain s2 where s2: "run_line e quit_line s1 = Inr s2" "sh_can_quit s2"
    "ready N s2 F' k' es' H' (out @ ms @ [CommandEcho quit_line, Bye])"
    using quit_runs [OF s1(2)] by auto
  obtain w3 w4 where w4: "testfs_put_inode (cur_dir (sh_ctx s2)) (sh_world s2) = Inr w3" "testfs_close_super_block w3 = Inr w4"
    "stored N F' w4" "fs_out (w_fs w4) = out @ ms @ [CommandEcho quit_line, Bye]"
    using ready_end(2) [OF s2(3)] by blast
  have "testfs_main e h b lines w = Inr (s2\<lparr>sh_world := w4\<rparr>)"
    unfolding testfs_main_def using assms(1-3) s1(1) s2(1,2) ready_end(1) [OF s2(3)] w4(1,2) by (simp add: exit_if_def)
  then show ?thesis using w4(3,4) s2(3) by (auto simp: ready_def)
qed

text \<open>
  C1.  The program refines the abstract file system.  Given a device that holds the volume \<open>F\<close> and a script of
  command lines ended by \<open>quit\<close>, the program mounts the device, reads and tokenises every line, runs its command,
  reports the error of a command that fails, unmounts and ends without a fault.  What it prints, line by line, is
  what the abstract machine prints, the files of the host are those of the machine, and the device it leaves is
  mounted by the next run as the volume that the machine ends with.
\<close>

theorem session_refines:
  assumes "stored N F w" "F 0 = Some (I_DIR, dir_bytes rs)" "list_all dirent_ok rs"
    and "script e lines F 0 rs h ms F' k' es' h'"
  shows "\<exists>sh. testfs_main e h b (lines @ [quit_line]) w = Inr sh \<and> stored N F' (sh_world sh) \<and> sh_host sh = h' \<and>
    fs_out (w_fs (sh_world sh)) = fs_out (w_fs w) @ ms @ [CommandEcho quit_line, Bye]"
proof -
  obtain w1 p w2 where w1: "testfs_init_super_block w = Inr (0, w1)" "testfs_get_inode 0 w1 = Inr (p, w2)"
    and r: "ready N \<lparr>sh_world = w2, sh_ctx = \<lparr>nargs = 0, cmd = replicate (MAX_ARGS + 1) None, cur_dir = p\<rparr>,
      sh_host = h, sh_bench = b, sh_can_quit = False\<rparr> F 0 rs h (fs_out (w_fs w))"
    using stored_start [OF assms(1-3)] by blast
  show ?thesis by (rule program_ends [OF w1 refl assms(4) r]) simp
qed

text \<open>A device that holds only the root directory, and a script: a subdirectory, the same again, into it, and a new file.\<close>

lemma root_stored: "\<exists>w :: ram_world. stored 8192 [0 \<mapsto> (I_DIR, dir_bytes (empty_dir 0 0))] w"
  using stored_close [OF root_world_ok(1,3,4)] unfolding root_world_ok(2) by blast

abbreviation "mkdir_line \<equiv> typed (str ''mkdir'') [[97]]"
abbreviation "cd_line \<equiv> typed (str ''cd'') [[97]]"

lemma sample_script:
  "script start_env [mkdir_line, mkdir_line, cd_line] [0 \<mapsto> (I_DIR, dir_bytes (empty_dir 0 0))] 0 (empty_dir 0 0) h
     [CommandEcho mkdir_line, CommandEcho mkdir_line, Warning (str ''mkdir'') EEXIST, CommandEcho cd_line]
     [0 \<mapsto> (I_DIR, dir_bytes (root_with 1)), 1 \<mapsto> (I_DIR, dir_bytes (empty_dir 1 0))] 1 (empty_dir 1 0) h"
proof -
  let ?F = "[0 \<mapsto> (I_DIR, dir_bytes (empty_dir 0 0))]"
  let ?G = "?F(0 \<mapsto> (I_DIR, dir_bytes (root_with 1)), 1 \<mapsto> (I_DIR, dir_bytes (empty_dir 1 0)))"
  have m: "map_of cmdtable (str ''mkdir'') = Some (Mkdir, 2)" "map_of cmdtable (str ''cd'') = Some (Cd, 2)"
    by (simp_all add: cmdtable_def str_def)
  have a: "list_all word_ok [[97]]" "length [[97 :: byte]] \<le> 2" by (simp_all add: word_ok_def)
  have fit: "fits ?F (empty_dir 0 0) (root_with 1) 1" "free_at ?F 1"
    by (simp_all add: fits_def free_at_def taken_def root_with(4,5) file_blocks_def one_block needs_eq)
  have d: "list_all dirent_ok (empty_dir 1 0)" by (rule list_all_empty_dir) simp_all
  have b: "obeys start_env Mkdir [[97]] ?F 0 (empty_dir 0 0) h 0 [] ?G 0 (root_with 1) h"
    by (rule obeys.mkdir [OF root_with(2,1) fit(2,1)])
  have t: "obeys start_env Mkdir [[97]] ?G 0 (root_with 1) h (- EEXIST) [] ?G 0 (root_with 1) h"
    by (rule obeys.mkdir_there) (use root_with(3) [of 1] in simp_all)
  have c: "obeys start_env Cd [[97]] ?G 0 (root_with 1) h 0 [] ?G 1 (empty_dir 1 0) h"
    by (rule obeys.cd [where j = 1]) (use root_with(3) [of 1] d in simp_all)
  note sc = script_line [OF m(1) a b script_line [OF m(1) a t script_line [OF m(2) a c script_nil]]]
  show ?thesis using sc by (simp add: warned_def EEXIST_def)
qed

theorem session_refines_witness:
  "\<exists>(w :: ram_world) sh. stored 8192 [0 \<mapsto> (I_DIR, dir_bytes (empty_dir 0 0))] w \<and>
     testfs_main start_env (sh_host start_shell) (sh_bench start_shell) ([mkdir_line, mkdir_line, cd_line] @ [quit_line]) w =
       Inr sh \<and>
     stored 8192 [0 \<mapsto> (I_DIR, dir_bytes (root_with 1)), 1 \<mapsto> (I_DIR, dir_bytes (empty_dir 1 0))] (sh_world sh) \<and>
     fs_out (w_fs (sh_world sh)) = fs_out (w_fs w) @
       [CommandEcho mkdir_line, CommandEcho mkdir_line, Warning (str ''mkdir'') EEXIST, CommandEcho cd_line,
        CommandEcho quit_line, Bye]"
proof -
  obtain w :: ram_world where w: "stored 8192 [0 \<mapsto> (I_DIR, dir_bytes (empty_dir 0 0))] w" using root_stored by blast
  have f: "[0 \<mapsto> (I_DIR, dir_bytes (empty_dir 0 0))] 0 = Some (I_DIR, dir_bytes (empty_dir 0 0))" by simp
  have d: "list_all dirent_ok (empty_dir 0 0)" by (rule list_all_empty_dir) simp_all
  show ?thesis using session_refines [OF w f d sample_script] w by (metis append.simps)
qed

end
