(* ===== verification/BlankOk.thy ===== *)
theory BlankOk
  imports SessionOk
begin

text \<open>
  The first session on a device that was never formatted: the program mounts what it finds, refuses all commands
  but five, and \<open>mkfs\<close> makes the file system.
\<close>

section \<open>Mounting a blank device\<close>

definition zero_dsb :: dsuper_block where
  "zero_dsb = \<lparr>inode_freemap_start = 0, block_freemap_start = 0, csum_table_start = 0, inode_blocks_start = 0,
    data_blocks_start = 0, modification_time = 0\<rparr>"

lemma zero_dsb_codec: "dsuper_of_bytes (replicate 24 0) = zero_dsb"
proof -
  have "dsuper_bytes zero_dsb = replicate 24 0"
    using words_bytes_zero [of 6] by (simp add: dsuper_bytes_def zero_dsb_def numeral_eq_Suc)
  then show ?thesis using dsuper.dec_enc [of zero_dsb] by (simp add: dsuper_ok_def zero_dsb_def in_int32_def)
qed

text \<open>All three tables are read from block 0 on.\<close>

definition blank_sb :: "'d fsys \<Rightarrow> super_block" where
  "blank_sb s = \<lparr>sb_dsb = zero_dsb, inode_freemap = Some \<lparr>bm_nbits = 4096, bm_v = dblk s 0\<rparr>,
     block_freemap = Some \<lparr>bm_nbits = 8192, bm_v = dblk s 0 @ dblk s 1\<rparr>, tx_in_progress = TX_NONE,
     csum_table = Some (bytes_words MAX_NR_CSUMS (concat (map (dblk s) [0 ..< 60]))),
     csum_block_dirty = replicate CSUM_TABLE_SIZE False\<rparr>"

lemma mount_blank:
  assumes d: "dev_ok N (w_fs w)" "7872 \<le> N" and z: "dblk (w_fs w) 0 = replicate 512 0" and i: "w_inodes w = (\<lambda>_. None)"
  shows "\<exists>w'. testfs_init_super_block w = Inr (0, w') \<and> cache_ok w' \<and> w_inodes w' = (\<lambda>_. None) \<and>
    w_fs w' = upd_sb (\<lambda>_. blank_sb (w_fs w)) (w_fs w)"
proof -
  let ?s = "w_fs w"
  have r0: "read_blocks ?s 0 1 = Inr (replicate 512 0)" using read_block [OF d(1), of 0] d(2) z by simp
  have cp: "c_memcpy (replicate 24 0) 0 (replicate 512 (0 :: byte)) 0 24 = Inr (replicate 24 0)"
    using c_memcpy_ok [of "replicate 24 0" 0 "replicate 512 (0 :: byte)" 0 24] by (simp add: seg_def)
  let ?s1 = "upd_sb (\<lambda>sb. sb\<lparr>sb_dsb := zero_dsb\<rparr>) ?s"
  have d1: "dev_ok N ?s1" using d(1) by simp
  have bc: "bitmap_create True True 4096 = Inr (Inr \<lparr>bm_nbits = 4096, bm_v = replicate 512 0\<rparr>)"
    "bitmap_create True True 8192 = Inr (Inr \<lparr>bm_nbits = 8192, bm_v = replicate 1024 0\<rparr>)"
    by (subst bitmap_create_exact; simp)+
  have rf: "read_freemap 0 1 ?s1 = Inr (Inr \<lparr>bm_nbits = 4096, bm_v = dblk ?s 0\<rparr>)"
    "read_freemap 0 2 ?s1 = Inr (Inr \<lparr>bm_nbits = 8192, bm_v = dblk ?s 0 @ dblk ?s 1\<rparr>)"
    using read_freemap_eq [OF d1, of 1 0 4096] read_freemap_eq [OF d1, of 2 0 8192] bc length_dblk [OF d1] d(2)
    by (simp_all add: upt_rec)
  have rt: "read_blocks ?s1 0 60 = Inr (concat (map (dblk ?s) [0 ..< 60]))" using read_range [OF d1, of 60 0] d(2) by simp
  let ?w = "inode_hash_init (w\<lparr>w_sb := w_next w, w_next := Suc (w_next w), w_fs := upd_sb (\<lambda>_. blank_sb ?s) ?s\<rparr>)"
  have "testfs_init_super_block w = Inr (0, ?w)"
    using r0 cp rf rt by (simp add: testfs_init_super_block_def Let_def zero_dsb_codec blank_sb_def)
      (simp add: set_fs_def upd_sb_def zero_dsb_def)
  moreover have "cache_ok ?w" by (rule cache_ok_empty) (simp_all add: inode_hash_init_def i)
  moreover have "w_inodes ?w = (\<lambda>_. None)" "w_fs ?w = upd_sb (\<lambda>_. blank_sb ?s) ?s" by (simp_all add: inode_hash_init_def i)
  ultimately show ?thesis by blast
qed

lemma root_blank:
  assumes c: "cache_ok w" "w_inodes w = (\<lambda>_. None)" and d: "dev_ok N (w_fs w)" "0 < N"
    and z: "dsb (w_fs w) = zero_dsb" "dblk (w_fs w) 0 = replicate 512 0"
  shows "\<exists>p a w'. testfs_get_inode 0 w = Inr (p, w') \<and> cache_ok w' \<and> w_inodes w' = [p \<mapsto> a] \<and> w_fs w' = w_fs w \<and>
    i_type (i_in a) = I_NONE \<and> i_count a = 1 \<and> \<not> has_flag a I_FLAGS_DIRTY"
proof -
  let ?i0 = "\<lparr>i_flags = 0, i_in = zero_dinode, i_nr = int 0, i_count = 1, i_sb = w_sb w, i_ind = replicate 128 0\<rparr>"
  have "testfs_read_inode_block ?i0 (w_fs w) = Inr (replicate 512 0)"
    using inode_to_block_eq(1) [of ?i0 0] read_block [OF d(1), of 0] d(2) z
    by (simp add: testfs_read_inode_block_def zero_dsb_def)
  from get_inode_load [OF c(1) _ _ refl this] obtain w' where w': "testfs_get_inode (int 0) w = Inr (w_next w, w')"
    "cache_ok w'" "same_world w w'"
    "w_inodes w' = (w_inodes w)(w_next w \<mapsto> ?i0\<lparr>i_in := dinode_of_bytes (seg (0 mod 16 * 32) 32 (replicate 512 0))\<rparr>)"
    using c(2) by (auto simp: cached_def)
  have "dinode_bytes zero_dinode = replicate 32 0"
    using words_bytes_zero [of 8] by (simp add: dinode_bytes_def zero_dinode_def type_code_def numeral_eq_Suc)
  then have "dinode_of_bytes (seg (0 mod 16 * 32) 32 (replicate 512 0)) = zero_dinode"
    using dinode.dec_enc [OF dinode_ok_zero] by (simp add: seg_replicate)
  then have "w_inodes w' = [w_next w \<mapsto> ?i0]" using w'(4) c(2) by simp
  then show ?thesis
    using w'(1-3) by (intro exI [of _ "w_next w"] exI [of _ ?i0] exI [of _ w'])
      (simp add: same_world_def zero_dinode_def has_flag_def)
qed

section \<open>The prompt without a file system\<close>

definition no_fs :: "nat \<Rightarrow> 'd shell \<Rightarrow> host \<Rightarrow> message list \<Rightarrow> bool" where
  "no_fs N sh h out \<longleftrightarrow> dev_ok N (w_fs (sh_world sh)) \<and> 7872 \<le> N \<and> cache_ok (sh_world sh) \<and> sh_host sh = h \<and>
     \<not> sh_can_quit sh \<and> length (cmd (sh_ctx sh)) = Suc MAX_ARGS \<and> fs_out (w_fs (sh_world sh)) = out \<and>
     (\<exists>a. w_inodes (sh_world sh) = [cur_dir (sh_ctx sh) \<mapsto> a] \<and> i_type (i_in a) = I_NONE \<and> i_count a = 1 \<and>
       \<not> has_flag a I_FLAGS_DIRTY)"

lemma no_fs_exists:
  assumes "no_fs N sh h out"
  shows "fs_exists (sh_ctx sh) (sh_world sh) = Inr False"
proof -
  obtain a where a: "w_inodes (sh_world sh) = [cur_dir (sh_ctx sh) \<mapsto> a]" "i_type (i_in a) = I_NONE"
    and c: "cache_ok (sh_world sh)" using assms by (auto simp: no_fs_def)
  have "deref (cur_dir (sh_ctx sh)) (sh_world sh) = Inr a" by (rule deref_eq [OF c]) (simp add: a)
  then show ?thesis using a(2) by (simp add: fs_exists_def testfs_inode_get_type_def)
qed

lemma no_fs_print:
  assumes "no_fs N sh h out" "cur_dir c = cur_dir (sh_ctx sh)" "length (cmd c) = Suc MAX_ARGS"
  shows "no_fs N (sh\<lparr>sh_world := print m (sh_world sh), sh_ctx := c\<rparr>) h (out @ [m])"
  using assms by (simp add: no_fs_def print_def printf_def dev_ok_def)

text \<open>A refused line.\<close>

lemma no_fs_refused:
  assumes n: "no_fs N sh h out" and m: "map_of cmdtable name = Some (command, k)" "name \<notin> set non_fs_commands"
    and a: "list_all word_ok args"
  shows "\<exists>sh'. run_line e (typed name args) sh = Inr sh' \<and>
    no_fs N sh' h (out @ [CommandEcho (typed name args), FsDoesNotExist name])"
proof -
  let ?o = "CommandEcho (typed name args)" and ?c = "(sh_ctx sh)\<lparr>cmd := (cmd (sh_ctx sh))[0 := Some name]\<rparr>"
  have l: "length (cmd (sh_ctx sh)) = Suc MAX_ARGS" using n by (simp add: no_fs_def)
  have n1: "no_fs N (sh\<lparr>sh_world := print ?o (sh_world sh), sh_ctx := ?c\<rparr>) h (out @ [?o])" (is "no_fs N ?s _ _")
    by (rule no_fs_print [OF n]) (use l in simp_all)
  have n2: "no_fs N (?s\<lparr>sh_world := print (FsDoesNotExist name) (sh_world ?s), sh_ctx := ?c\<rparr>) h ((out @ [?o]) @ [FsDoesNotExist name])"
    by (rule no_fs_print [OF n1]) (use l in simp_all)
  obtain rest where t: "strtok (Some (typed name args)) blanks [] = (Some name, rest)"
    "strtok None newline rest = (if args = [] then None else Some (joined args), [])"
    using typed_tokens [OF cmdtable_word(1) [OF m(1)] a] by blast
  have "run_line e (typed name args) sh = Inr (?s\<lparr>sh_world := print (FsDoesNotExist name) (sh_world ?s)\<rparr>)"
    using t m no_fs_exists [OF n1] l by (simp add: run_line_def handle_command_def can_execute_command_def)
  moreover have "?s\<lparr>sh_world := w, sh_ctx := ?c\<rparr> = ?s\<lparr>sh_world := w\<rparr>" for w by (cases sh) simp
  then have "no_fs N (?s\<lparr>sh_world := print (FsDoesNotExist name) (sh_world ?s)\<rparr>) h (out @ [?o, FsDoesNotExist name])"
    using n2 by (simp only: append_assoc append.simps)
  ultimately show ?thesis by blast
qed

text \<open>\<open>mkfs\<close> leads to the prompt of the empty file system.\<close>

abbreviation "mkfs_line \<equiv> typed (str ''mkfs'') []"

lemma no_fs_mkfs:
  assumes n: "no_fs N sh h out"
  shows "\<exists>sh'. run_line e mkfs_line sh = Inr sh' \<and> \<not> sh_can_quit sh' \<and>
    ready N sh' [0 \<mapsto> (I_DIR, dir_bytes (empty_dir 0 0))] 0 (empty_dir 0 0) h (out @ [CommandEcho mkfs_line])"
proof -
  let ?c = "(sh_ctx sh)\<lparr>cmd := (cmd (sh_ctx sh))[0 := Some (str ''mkfs'')]\<rparr>"
  have m: "map_of cmdtable (str ''mkfs'') = Some (Mkfs, 2)" by (simp add: cmdtable_def str_def)
  have l: "length (cmd (sh_ctx sh)) = Suc MAX_ARGS" using n by (simp add: no_fs_def)
  obtain rest where t: "strtok (Some mkfs_line) blanks [] = (Some (str ''mkfs''), rest)" "strtok None newline rest = (None, [])"
    using typed_tokens [OF cmdtable_word(1) [OF m], of "[]"] by auto
  obtain c' where c': "parse_args 2 None [] ?c = Inr c'" "length (cmd c') = Suc MAX_ARGS" "cur_dir c' = cur_dir (sh_ctx sh)"
    using parse_typed [of ?c 2 "[]"] l by auto
  let ?s = "sh\<lparr>sh_world := print (CommandEcho mkfs_line) (sh_world sh), sh_ctx := c'\<rparr>"
  have run: "run_line e mkfs_line sh = bind_r (run_command e Mkfs ?s) report_errno"
    by (rule run_line_known [OF l no_fs_exists [OF n] t m _ c'(1)]) (simp add: non_fs_commands_def)
  have n1: "no_fs N ?s h (out @ [CommandEcho mkfs_line])" by (rule no_fs_print [OF n c'(3,2)])
  then obtain a where a: "w_inodes (sh_world ?s) = [cur_dir c' \<mapsto> a]" "i_count a = 1" "\<not> has_flag a I_FLAGS_DIRTY"
    and d: "dev_ok N (w_fs (sh_world ?s))" "7872 \<le> N" "cache_ok (sh_world ?s)" by (auto simp: no_fs_def)
  have p: "w_inodes (sh_world ?s) (cur_dir c') = Some a" using a(1) by simp
  obtain w0 where w0: "testfs_put_inode (cur_dir c') (sh_world ?s) = Inr w0" "w_fs w0 = w_fs (sh_world ?s)" "w_inodes w0 = (\<lambda>_. None)"
    using put_inode_eq [OF d(3) p a(3)] a(1,2) by auto
  have "cur_dir c' \<noteq> NULL" using cache_okD(5) [OF d(3) p] .
  then have eq: "cmd_mkfs c' (sh_world ?s) = cmd_mkfs (c'\<lparr>cur_dir := NULL\<rparr>) w0" using w0(1) by (simp add: cmd_mkfs_def)
  obtain q w' where w': "cmd_mkfs c' (sh_world ?s) = Inr (0, c'\<lparr>cur_dir := q\<rparr>, w')"
    "session N (c'\<lparr>cur_dir := q\<rparr>) w' 0 (empty_dir 0 0)"
    "files w' = [0 \<mapsto> (I_DIR, dir_bytes (empty_dir 0 0))]" "fs_out (w_fs w') = fs_out (w_fs w0)"
    using mkfs_eq [of N w0 "c'\<lparr>cur_dir := NULL\<rparr>"] d(1,2) w0(2,3) unfolding eq by auto
  let ?s' = "?s\<lparr>sh_world := w', sh_ctx := c'\<lparr>cur_dir := q\<rparr>\<rparr>"
  have "run_line e mkfs_line sh = Inr ?s'" using run w'(1) by (simp add: run_command_def with_world_def report_errno_def)
  moreover have "ready N ?s' [0 \<mapsto> (I_DIR, dir_bytes (empty_dir 0 0))] 0 (empty_dir 0 0) h (out @ [CommandEcho mkfs_line])"
    using w'(2-4) w0(2) n1 c'(2) by (simp add: ready_def at_prompt_def no_fs_def)
  moreover have "\<not> sh_can_quit ?s'" using n1 by (simp add: no_fs_def)
  ultimately show ?thesis by blast
qed

section \<open>Property\<close>

text \<open>Lines that are refused as long as there is no file system, and what they print.\<close>

inductive too_early :: "byte list list \<Rightarrow> message list \<Rightarrow> bool" where
  too_early_nil: "too_early [] []"
| too_early_line: "map_of cmdtable name = Some (command, k) \<Longrightarrow> name \<notin> set non_fs_commands \<Longrightarrow> list_all word_ok args \<Longrightarrow>
    too_early lines ms \<Longrightarrow>
    too_early (typed name args # lines) (CommandEcho (typed name args) # FsDoesNotExist name # ms)"

lemma too_early_runs:
  assumes "too_early lines ms" "no_fs N sh h out"
  shows "\<exists>sh'. main_loop e (lines @ rest) sh = main_loop e rest sh' \<and> no_fs N sh' h (out @ ms)"
  using assms
proof (induction arbitrary: sh out rule: too_early.induct)
  case (too_early_line name command k args lines ms)
  obtain s1 where s1: "run_line e (typed name args) sh = Inr s1" "no_fs N s1 h (out @ [CommandEcho (typed name args), FsDoesNotExist name])"
    using no_fs_refused [OF too_early_line(6,1-3)] by blast
  then have "\<not> sh_can_quit s1" by (simp add: no_fs_def)
  then show ?case using too_early_line(5) [OF s1(2)] s1(1) by simp
qed auto

text \<open>
  C5.  The program brings up a device that was never formatted.  On any device that is large enough and whose first
  block is zero, the program starts; it refuses every command on files until \<open>mkfs\<close>, and from then on the session
  follows the abstract machine, which starts with the root directory alone.  At the end the device holds the volume
  of the machine.
\<close>

theorem first_session:
  assumes "dev_ok N (w_fs w)" "7872 \<le> N" "dblk (w_fs w) 0 = replicate 512 0" "w_inodes w = (\<lambda>_. None)"
    and "too_early early ms0"
    and "script e lines [0 \<mapsto> (I_DIR, dir_bytes (empty_dir 0 0))] 0 (empty_dir 0 0) h ms F' k' es' h'"
  shows "\<exists>sh. testfs_main e h b (early @ mkfs_line # lines @ [quit_line]) w = Inr sh \<and> stored N F' (sh_world sh) \<and>
    sh_host sh = h' \<and> fs_out (w_fs (sh_world sh)) =
      fs_out (w_fs w) @ ms0 @ CommandEcho mkfs_line # ms @ [CommandEcho quit_line, Bye]"
proof -
  obtain w1 where w1: "testfs_init_super_block w = Inr (0, w1)" "cache_ok w1" "w_inodes w1 = (\<lambda>_. None)"
    "w_fs w1 = upd_sb (\<lambda>_. blank_sb (w_fs w)) (w_fs w)"
    using mount_blank [OF assms(1-4)] by blast
  have d1: "dev_ok N (w_fs w1)" "dsb (w_fs w1) = zero_dsb" "dblk (w_fs w1) 0 = replicate 512 0"
    using assms(1,3) by (simp_all add: w1(4) blank_sb_def)
  obtain p a w2 where w2: "testfs_get_inode 0 w1 = Inr (p, w2)" "cache_ok w2" "w_inodes w2 = [p \<mapsto> a]" "w_fs w2 = w_fs w1"
    "i_type (i_in a) = I_NONE" "i_count a = 1" "\<not> has_flag a I_FLAGS_DIRTY"
    using root_blank [OF w1(2,3) d1(1) _ d1(2,3)] assms(2) by auto
  let ?s = "\<lparr>sh_world = w2, sh_ctx = \<lparr>nargs = 0, cmd = replicate (MAX_ARGS + 1) None, cur_dir = p\<rparr>,
    sh_host = h, sh_bench = b, sh_can_quit = False\<rparr>"
  have n: "no_fs N ?s h (fs_out (w_fs w))" using w2(2-) d1(1) assms(2) w1(4) unfolding no_fs_def by (intro conjI exI [of _ a]) simp_all
  obtain s1 where s1: "main_loop e (early @ mkfs_line # lines @ [quit_line]) ?s = main_loop e (mkfs_line # lines @ [quit_line]) s1"
    "no_fs N s1 h (fs_out (w_fs w) @ ms0)"
    using too_early_runs [OF assms(5) n] by blast
  obtain s2 where s2: "run_line e mkfs_line s1 = Inr s2" "\<not> sh_can_quit s2"
    "ready N s2 [0 \<mapsto> (I_DIR, dir_bytes (empty_dir 0 0))] 0 (empty_dir 0 0) h ((fs_out (w_fs w) @ ms0) @ [CommandEcho mkfs_line])"
    using no_fs_mkfs [OF s1(2)] by blast
  have "main_loop e (early @ mkfs_line # lines @ [quit_line]) ?s = main_loop e (lines @ [quit_line]) s2"
    using s1(1) s2(1,2) by simp
  from program_ends [OF w1(1) w2(1) this assms(6) s2(3,2)] show ?thesis by auto
qed

text \<open>On the blank device: \<open>cd a\<close> is too early, then the sample script.\<close>

theorem first_session_witness:
  "\<exists>sh. testfs_main start_env (sh_host start_shell) (sh_bench start_shell)
      ([cd_line] @ mkfs_line # [mkdir_line, mkdir_line, cd_line] @ [quit_line]) blank_world = Inr sh \<and>
     stored 8192 [0 \<mapsto> (I_DIR, dir_bytes (root_with 1)), 1 \<mapsto> (I_DIR, dir_bytes (empty_dir 1 0))] (sh_world sh)"
proof -
  have d: "dev_ok 8192 (w_fs blank_world)" using fs_okD(1) [OF fresh_fs_ok] by (simp add: blank_world_def)
  have z: "dblk (w_fs blank_world) 0 = replicate 512 0" by (simp add: blank_world_def fresh_dblk)
  have m: "map_of cmdtable (str ''cd'') = Some (Cd, 2)" "str ''cd'' \<notin> set non_fs_commands"
    by (simp_all add: cmdtable_def str_def non_fs_commands_def)
  have "list_all word_ok [[97]]" by (simp add: word_ok_def)
  note early = too_early_line [OF m this too_early_nil]
  show ?thesis using first_session [OF d _ z _ early sample_script] by (auto simp: blank_world_def)
qed

end
